(* ===== verification/Rust_Prelude.thy ===== *)
theory Rust_Prelude
  imports Main "HOL-Library.Word" "HOL-Library.Monad_Syntax"
    "HOL-Library.List_Lexorder" "HOL-Library.Char_ord" "HOL-Library.Sublist"
begin

section \<open>Shared vocabulary of the development\<close>

text \<open>
  What every component theory uses of Rust's standard library, and the lemma collections
  their proofs share.

  \<^item> A Rust \<open>String\<close> or \<open>&str\<close> is its sequence of UTF-8 bytes, Isabelle's \<open>string\<close> (a list of
    8-bit \<open>char\<close>), so \<open>len()\<close> is \<open>length\<close> and byte offsets are list positions. \<open>chars\<close> cuts the
    bytes into the encodings of the scalar values, which is how Rust iterates over \<open>chars()\<close>.
    A predicate that is false on every byte from 128 up may be asked of the bytes directly: the
    bytes of a multi-byte character are all at least 128.
  \<^item> A string slice \<open>&s[a..b]\<close> panics when \<open>a > b\<close>, when \<open>b\<close> is past the end or when either is
    inside a character. \<open>str_slice\<close> returns \<open>None\<close> there, so "does not panic" is a theorem.
  \<^item> A \<open>BTreeMap\<close> is an association list with strictly increasing keys.
  \<^item> \<open>Result\<close> is a sum type with the error on the left.
\<close>

named_theorems str_simps "equations of the string operations"
named_theorems utf8_intros "facts about UTF-8 well-formedness and character boundaries"

type_synonym ('e, 'a) rust_result = "'e + 'a"

text \<open>\<open>serde_json::Value\<close>; a number is kept as its text.\<close>

datatype json = JNull | JBool bool | JNumber string | JString string | JArray "json list"
  | JObject "(string \<times> json) list"

subsection \<open>Bytes\<close>

abbreviation byte :: "char \<Rightarrow> nat" where
  "byte c \<equiv> of_char c"

abbreviation newline :: char where "newline \<equiv> CHR 0x0A"
abbreviation carriage :: char where "carriage \<equiv> CHR 0x0D"
abbreviation backslash :: char where "backslash \<equiv> CHR 0x5C"
abbreviation squote :: char where "squote \<equiv> CHR 0x27"
abbreviation dquote :: char where "dquote \<equiv> CHR 0x22"

definition is_ascii_upper :: "char \<Rightarrow> bool" where
  "is_ascii_upper c \<longleftrightarrow> 65 \<le> byte c \<and> byte c \<le> 90"

definition is_ascii_lower :: "char \<Rightarrow> bool" where
  "is_ascii_lower c \<longleftrightarrow> 97 \<le> byte c \<and> byte c \<le> 122"

definition is_ascii_digit :: "char \<Rightarrow> bool" where
  "is_ascii_digit c \<longleftrightarrow> 48 \<le> byte c \<and> byte c \<le> 57"

definition is_ascii_alpha :: "char \<Rightarrow> bool" where
  "is_ascii_alpha c \<longleftrightarrow> is_ascii_upper c \<or> is_ascii_lower c"

definition is_ascii_alnum :: "char \<Rightarrow> bool" where
  "is_ascii_alnum c \<longleftrightarrow> is_ascii_alpha c \<or> is_ascii_digit c"

definition is_ascii_hexdigit :: "char \<Rightarrow> bool" where
  "is_ascii_hexdigit c \<longleftrightarrow> is_ascii_digit c \<or> (65 \<le> byte c \<and> byte c \<le> 70)
     \<or> (97 \<le> byte c \<and> byte c \<le> 102)"

text \<open>\<open>u8::is_ascii_whitespace\<close>: space, tab, line feed, form feed, carriage return.\<close>

definition is_ascii_ws :: "char \<Rightarrow> bool" where
  "is_ascii_ws c \<longleftrightarrow> byte c \<in> {9, 10, 12, 13, 32}"

definition is_ascii_punct :: "char \<Rightarrow> bool" where
  "is_ascii_punct c \<longleftrightarrow> 33 \<le> byte c \<and> byte c \<le> 126 \<and> \<not> is_ascii_alnum c"

definition ascii_lower :: "char \<Rightarrow> char" where
  "ascii_lower c = (if is_ascii_upper c then char_of (byte c + 32) else c)"

abbreviation to_ascii_lowercase :: "string \<Rightarrow> string" where
  "to_ascii_lowercase s \<equiv> map ascii_lower s"

definition eq_ignore_ascii_case :: "string \<Rightarrow> string \<Rightarrow> bool" where
  "eq_ignore_ascii_case s t \<longleftrightarrow> to_ascii_lowercase s = to_ascii_lowercase t"

lemmas ascii_defs = is_ascii_upper_def is_ascii_lower_def is_ascii_digit_def is_ascii_alpha_def
  is_ascii_alnum_def is_ascii_hexdigit_def is_ascii_ws_def is_ascii_punct_def

subsection \<open>UTF-8: characters, boundaries, slices\<close>

text \<open>The number of continuation bytes that a lead byte announces.\<close>

definition utf8_extra :: "char \<Rightarrow> nat" where
  "utf8_extra b = (if byte b < 192 then 0 else if byte b < 224 then 1
     else if byte b < 240 then 2 else 3)"

fun chars :: "string \<Rightarrow> string list" where
  "chars [] = []"
| "chars (b # bs) = (b # take (utf8_extra b) bs) # chars (drop (utf8_extra b) bs)"

definition is_cont :: "char \<Rightarrow> bool" where
  "is_cont b \<longleftrightarrow> 128 \<le> byte b \<and> byte b < 192"

fun wf_utf8_char :: "string \<Rightarrow> bool" where
  "wf_utf8_char [a] \<longleftrightarrow> byte a < 128"
| "wf_utf8_char [a, b] \<longleftrightarrow> 194 \<le> byte a \<and> byte a < 224 \<and> is_cont b"
| "wf_utf8_char [a, b, c] \<longleftrightarrow> 224 \<le> byte a \<and> byte a < 240 \<and> is_cont b \<and> is_cont c
     \<and> (byte a = 224 \<longrightarrow> 160 \<le> byte b) \<and> (byte a = 237 \<longrightarrow> byte b < 160)"
| "wf_utf8_char [a, b, c, d] \<longleftrightarrow> 240 \<le> byte a \<and> byte a < 245 \<and> is_cont b \<and> is_cont c \<and> is_cont d
     \<and> (byte a = 240 \<longrightarrow> 144 \<le> byte b) \<and> (byte a = 244 \<longrightarrow> byte b < 144)"
| "wf_utf8_char _ \<longleftrightarrow> False"

definition utf8_ok :: "string \<Rightarrow> bool" where
  "utf8_ok s \<longleftrightarrow> list_all wf_utf8_char (chars s)"

fun code_point :: "string \<Rightarrow> nat" where
  "code_point [a] = byte a"
| "code_point [a, b] = (byte a mod 32) * 64 + byte b mod 64"
| "code_point [a, b, c] = (byte a mod 16) * 4096 + (byte b mod 64) * 64 + byte c mod 64"
| "code_point [a, b, c, d] = (byte a mod 8) * 262144 + (byte b mod 64) * 4096
     + (byte c mod 64) * 64 + byte d mod 64"
| "code_point _ = 0"

text \<open>\<open>char::is_whitespace\<close>, the Unicode \<open>White_Space\<close> property.\<close>

definition is_whitespace :: "string \<Rightarrow> bool" where
  "is_whitespace c \<longleftrightarrow> (let p = code_point c in
     (9 \<le> p \<and> p \<le> 13) \<or> p = 32 \<or> p = 133 \<or> p = 160 \<or> p = 5760 \<or> (8192 \<le> p \<and> p \<le> 8202)
     \<or> p = 8232 \<or> p = 8233 \<or> p = 8239 \<or> p = 8287 \<or> p = 12288)"

definition is_char_boundary :: "string \<Rightarrow> nat \<Rightarrow> bool" where
  "is_char_boundary s i \<longleftrightarrow> i = 0 \<or> i = length s \<or> (i < length s \<and> \<not> is_cont (s ! i))"

definition str_slice :: "string \<Rightarrow> nat \<Rightarrow> nat \<Rightarrow> string option" where
  "str_slice s a b = (if a \<le> b \<and> b \<le> length s \<and> is_char_boundary s a \<and> is_char_boundary s b
     then Some (take (b - a) (drop a s)) else None)"

text \<open>A slice of bytes has the range check only.\<close>

definition byte_slice :: "'a list \<Rightarrow> nat \<Rightarrow> nat \<Rightarrow> 'a list option" where
  "byte_slice s a b = (if a \<le> b \<and> b \<le> length s then Some (take (b - a) (drop a s)) else None)"

subsection \<open>String operations of the standard library\<close>

definition trim_start :: "string \<Rightarrow> string" where
  "trim_start s = concat (dropWhile is_whitespace (chars s))"

definition trim_end :: "string \<Rightarrow> string" where
  "trim_end s = concat (rev (dropWhile is_whitespace (rev (chars s))))"

definition trim :: "string \<Rightarrow> string" where
  "trim s = concat (rev (dropWhile is_whitespace (rev (dropWhile is_whitespace (chars s)))))"

fun starts_with :: "'a list \<Rightarrow> 'a list \<Rightarrow> bool" where
  "starts_with s [] \<longleftrightarrow> True"
| "starts_with [] (p # ps) \<longleftrightarrow> False"
| "starts_with (c # s) (p # ps) \<longleftrightarrow> c = p \<and> starts_with s ps"

definition ends_with :: "'a list \<Rightarrow> 'a list \<Rightarrow> bool" where
  "ends_with s p \<longleftrightarrow> starts_with (rev s) (rev p)"

definition strip_prefix :: "'a list \<Rightarrow> 'a list \<Rightarrow> 'a list option" where
  "strip_prefix s p = (if starts_with s p then Some (drop (length p) s) else None)"

definition strip_suffix :: "'a list \<Rightarrow> 'a list \<Rightarrow> 'a list option" where
  "strip_suffix s p = (if ends_with s p then Some (take (length s - length p) s) else None)"

text \<open>\<open>str::find\<close> of a string: the offset of the first occurrence.\<close>

fun find_str :: "'a list \<Rightarrow> 'a list \<Rightarrow> nat option" where
  "find_str [] p = (if p = [] then Some 0 else None)"
| "find_str (c # s) p = (if starts_with (c # s) p then Some 0 else map_option Suc (find_str s p))"

definition contains_str :: "'a list \<Rightarrow> 'a list \<Rightarrow> bool" where
  "contains_str s p \<longleftrightarrow> find_str s p \<noteq> None"

text \<open>The offset of the first byte that satisfies an ASCII predicate.\<close>

fun find_byte :: "('a \<Rightarrow> bool) \<Rightarrow> 'a list \<Rightarrow> nat option" where
  "find_byte P [] = None"
| "find_byte P (c # s) = (if P c then Some 0 else map_option Suc (find_byte P s))"

text \<open>\<open>str::split\<close> at the bytes that satisfy an ASCII predicate; never empty.\<close>

fun split_on :: "('a \<Rightarrow> bool) \<Rightarrow> 'a list \<Rightarrow> 'a list list" where
  "split_on P [] = [[]]"
| "split_on P (c # s) = (if P c then [] # split_on P s
     else (case split_on P s of [] \<Rightarrow> [[c]] | w # ws \<Rightarrow> (c # w) # ws))"

definition split_once :: "'a \<Rightarrow> 'a list \<Rightarrow> ('a list \<times> 'a list) option" where
  "split_once d s = (if d \<in> set s then Some (takeWhile (\<lambda>c. c \<noteq> d) s, tl (dropWhile (\<lambda>c. c \<noteq> d) s))
     else None)"

definition rsplit_once :: "'a \<Rightarrow> 'a list \<Rightarrow> ('a list \<times> 'a list) option" where
  "rsplit_once d s = map_option (\<lambda>(a, b). (rev b, rev a)) (split_once d (rev s))"

fun ws_split :: "string list \<Rightarrow> string \<Rightarrow> string list" where
  "ws_split [] cur = (if cur = [] then [] else [cur])"
| "ws_split (c # cs) cur = (if is_whitespace c
     then (if cur = [] then ws_split cs [] else cur # ws_split cs [])
     else ws_split cs (cur @ c))"

definition split_whitespace :: "string \<Rightarrow> string list" where
  "split_whitespace s = ws_split (chars s) []"

fun join_with :: "'a list \<Rightarrow> 'a list list \<Rightarrow> 'a list" where
  "join_with sep [] = []"
| "join_with sep [w] = w"
| "join_with sep (w # v # ws) = w @ sep @ join_with sep (v # ws)"

text \<open>\<open>str::parse\<close> for an unsigned integer of the given maximum: digits, an optional leading
  plus sign, no overflow.\<close>

fun digits_value :: "nat \<Rightarrow> string \<Rightarrow> nat option" where
  "digits_value acc [] = Some acc"
| "digits_value acc (c # s) =
     (if is_ascii_digit c then digits_value (acc * 10 + (byte c - 48)) s else None)"

definition parse_uint :: "nat \<Rightarrow> string \<Rightarrow> nat option" where
  "parse_uint mx s = (let d = (case s of CHR ''+'' # t \<Rightarrow> t | _ \<Rightarrow> s) in
     if d = [] then None else (case digits_value 0 d of None \<Rightarrow> None
       | Some n \<Rightarrow> if n \<le> mx then Some n else None))"

definition u64_max :: nat where "u64_max = 18446744073709551615"
definition u32_max :: nat where "u32_max = 4294967295"

text \<open>\<open>to_string\<close> of an unsigned integer.\<close>

fun show_nat :: "nat \<Rightarrow> string" where
  "show_nat n = (if n < 10 then [char_of (48 + n)] else show_nat (n div 10) @ [char_of (48 + n mod 10)])"

declare show_nat.simps [simp del]

subsection \<open>BTreeMap\<close>

type_synonym ('k, 'v) btree = "('k \<times> 'v) list"

definition btree_ok :: "('k::linorder, 'v) btree \<Rightarrow> bool" where
  "btree_ok m \<longleftrightarrow> sorted_wrt (<) (map fst m)"

abbreviation btree_get :: "('k, 'v) btree \<Rightarrow> 'k \<Rightarrow> 'v option" where
  "btree_get m k \<equiv> map_of m k"

fun btree_put :: "'k::linorder \<Rightarrow> 'v \<Rightarrow> ('k, 'v) btree \<Rightarrow> ('k, 'v) btree" where
  "btree_put k v [] = [(k, v)]"
| "btree_put k v ((k', v') # m) =
     (if k < k' then (k, v) # (k', v') # m
      else if k = k' then (k, v) # m
      else (k', v') # btree_put k v m)"

text \<open>\<open>Option::or\<close>.\<close>

definition or_else :: "'a option \<Rightarrow> 'a option \<Rightarrow> 'a option" where
  "or_else x y = (case x of None \<Rightarrow> y | Some v \<Rightarrow> Some v)"

subsection \<open>Lemmas: UTF-8\<close>

lemma concat_chars [simp]: "concat (chars s) = s"
  by (induction s rule: chars.induct) auto

lemma chars_eq_Nil_iff [simp]: "chars s = [] \<longleftrightarrow> s = []"
  by (cases s) auto

lemma chars_nonempty: "c \<in> set (chars s) \<Longrightarrow> c \<noteq> []"
  by (induction s rule: chars.induct) auto

lemma wf_utf8_char_length: "wf_utf8_char (b # r) \<Longrightarrow> utf8_extra b = length r"
  by (erule wf_utf8_char.elims) (auto simp: utf8_extra_def)

lemma wf_utf8_char_hd: "wf_utf8_char (b # r) \<Longrightarrow> \<not> is_cont b"
  by (erule wf_utf8_char.elims) (auto simp: is_cont_def)

lemma wf_utf8_char_tl: "wf_utf8_char (b # r) \<Longrightarrow> list_all is_cont r"
  by (erule wf_utf8_char.elims) auto

lemma utf8_ok_Nil [simp]: "utf8_ok []"
  by (simp add: utf8_ok_def)

lemma utf8_ok_Cons:
  "utf8_ok (b # bs) \<longleftrightarrow>
     wf_utf8_char (b # take (utf8_extra b) bs) \<and> utf8_ok (drop (utf8_extra b) bs)"
  by (simp add: utf8_ok_def)

lemma utf8_ok_hd: "utf8_ok (b # bs) \<Longrightarrow> \<not> is_cont b"
  by (auto simp: utf8_ok_Cons dest: wf_utf8_char_hd)

lemma utf8_extra_ascii: "byte b < 128 \<Longrightarrow> utf8_extra b = 0"
  by (simp add: utf8_extra_def)

lemma utf8_ok_ascii_Cons [simp]: "byte b < 128 \<Longrightarrow> utf8_ok (b # bs) \<longleftrightarrow> utf8_ok bs"
  by (simp add: utf8_ok_Cons utf8_extra_ascii)

lemma chars_ascii_Cons: "byte b < 128 \<Longrightarrow> chars (b # bs) = [b] # chars bs"
  by (simp add: utf8_extra_ascii)

lemma utf8_extra_fits:
  assumes "utf8_ok (b # bs)"
  shows "utf8_extra b \<le> length bs"
  using wf_utf8_char_length [of b "take (utf8_extra b) bs"] assms by (simp add: utf8_ok_Cons)

lemma chars_append: "utf8_ok s \<Longrightarrow> chars (s @ t) = chars s @ chars t"
proof (induction s rule: chars.induct)
  case 1
  then show ?case by simp
next
  case (2 b bs)
  from "2.prems" have "utf8_extra b \<le> length bs" by (rule utf8_extra_fits)
  with 2 show ?case by (simp add: utf8_ok_Cons)
qed

lemma utf8_ok_append [simp]: "utf8_ok s \<Longrightarrow> utf8_ok (s @ t) \<longleftrightarrow> utf8_ok t"
  by (simp add: utf8_ok_def [of "s @ t"] utf8_ok_def [of t] chars_append)
     (simp add: utf8_ok_def)

lemma utf8_ok_concat: "list_all utf8_ok ws \<Longrightarrow> utf8_ok (concat ws)"
  by (induction ws) auto

lemma wf_utf8_char_ok: "wf_utf8_char c \<Longrightarrow> utf8_ok c"
  by (cases c) (auto simp: utf8_ok_Cons wf_utf8_char_length)

lemma chars_wf_char: "wf_utf8_char c \<Longrightarrow> chars c = [c]"
  by (cases c) (auto dest: wf_utf8_char_length)

lemma chars_concat_wf: "list_all wf_utf8_char cs \<Longrightarrow> chars (concat cs) = cs"
  by (induction cs) (auto simp: chars_append wf_utf8_char_ok chars_wf_char)

lemma utf8_ok_concat_wf: "list_all wf_utf8_char cs \<Longrightarrow> utf8_ok (concat cs)"
  by (simp add: utf8_ok_def chars_concat_wf)

lemma is_char_boundary_0 [simp]: "is_char_boundary s 0"
  by (simp add: is_char_boundary_def)

lemma is_char_boundary_len [simp]: "is_char_boundary s (length s)"
  by (simp add: is_char_boundary_def)

lemma utf8_ok_split:
  "utf8_ok s \<Longrightarrow> is_char_boundary s i \<Longrightarrow> utf8_ok (take i s) \<and> utf8_ok (drop i s)"
proof (induction s arbitrary: i rule: chars.induct)
  case 1
  then show ?case by simp
next
  case (2 b bs)
  let ?k = "utf8_extra b"
  from "2.prems"(1) have k: "?k \<le> length bs" by (rule utf8_extra_fits)
  from "2.prems"(1) have tl: "list_all is_cont (take ?k bs)" and dr: "utf8_ok (drop ?k bs)"
    and hd: "wf_utf8_char (b # take ?k bs)"
    by (auto simp: utf8_ok_Cons dest: wf_utf8_char_tl)
  show ?case
  proof (cases i)
    case 0
    with "2.prems" show ?thesis by simp
  next
    case (Suc j)
    have "?k \<le> j"
    proof (rule ccontr)
      assume "\<not> ?k \<le> j"
      then have "j < ?k" by simp
      then have "is_cont (bs ! j)" using tl k by (auto simp: list_all_length)
      with Suc \<open>j < ?k\<close> k "2.prems"(2) show False by (auto simp: is_char_boundary_def)
    qed
    have bd: "is_char_boundary (drop ?k bs) (j - ?k)"
      using "2.prems"(2) Suc \<open>?k \<le> j\<close> k by (auto simp: is_char_boundary_def)
    from "2.IH" [OF dr bd] have a: "utf8_ok (take (j - ?k) (drop ?k bs))"
      and b: "utf8_ok (drop (j - ?k) (drop ?k bs))" by auto
    have "take j bs = take ?k bs @ take (j - ?k) (drop ?k bs)"
      using \<open>?k \<le> j\<close> by (metis le_add_diff_inverse take_add)
    then have "b # take j bs = (b # take ?k bs) @ take (j - ?k) (drop ?k bs)" by simp
    moreover have "utf8_ok ((b # take ?k bs) @ take (j - ?k) (drop ?k bs))"
      using a wf_utf8_char_ok [OF hd] by (simp only: utf8_ok_append)
    ultimately have "utf8_ok (b # take j bs)" by simp
    then show ?thesis using b Suc \<open>?k \<le> j\<close> by simp
  qed
qed

lemma boundary_if_drop_ok: "utf8_ok (drop i s) \<Longrightarrow> i \<le> length s \<Longrightarrow> is_char_boundary s i"
  by (cases "i = length s")
     (auto simp: is_char_boundary_def Cons_nth_drop_Suc [symmetric] dest: utf8_ok_hd)

lemma boundary_iff_drop_ok:
  "utf8_ok s \<Longrightarrow> i \<le> length s \<Longrightarrow> is_char_boundary s i \<longleftrightarrow> utf8_ok (drop i s)"
  using utf8_ok_split boundary_if_drop_ok by blast

lemma ascii_boundary [utf8_intros]: "i < length s \<Longrightarrow> byte (s ! i) < 128 \<Longrightarrow> is_char_boundary s i"
  by (auto simp: is_char_boundary_def is_cont_def)

lemma ascii_boundary_Suc [utf8_intros]:
  assumes "utf8_ok s" "i < length s" "byte (s ! i) < 128"
  shows "is_char_boundary s (Suc i)"
proof -
  have "utf8_ok (drop i s)" using assms by (simp add: utf8_ok_split ascii_boundary)
  then have "utf8_ok (drop (Suc i) s)"
    using assms by (simp add: Cons_nth_drop_Suc [symmetric])
  then show ?thesis using assms by (intro boundary_if_drop_ok) auto
qed

lemma str_slice_Some [utf8_intros]:
  "a \<le> b \<Longrightarrow> b \<le> length s \<Longrightarrow> is_char_boundary s a \<Longrightarrow> is_char_boundary s b
     \<Longrightarrow> str_slice s a b = Some (take (b - a) (drop a s))"
  by (simp add: str_slice_def)

lemma str_slice_utf8_ok:
  assumes "str_slice s a b = Some t" "utf8_ok s"
  shows "utf8_ok t"
proof -
  from assms have "a \<le> b" "b \<le> length s" and bd: "is_char_boundary s a" "is_char_boundary s b"
    and t: "t = take (b - a) (drop a s)"
    by (auto simp: str_slice_def split: if_splits)
  have "utf8_ok (drop a s)" using assms bd by (simp add: utf8_ok_split)
  moreover have "is_char_boundary (drop a s) (b - a)"
    using bd(2) \<open>a \<le> b\<close> \<open>b \<le> length s\<close> by (auto simp: is_char_boundary_def)
  ultimately show ?thesis unfolding t by (simp add: utf8_ok_split)
qed

lemma utf8_first_char:
  assumes "utf8_ok (c # s)" "128 \<le> byte c"
  obtains cs t where "c # s = (c # cs) @ t" "utf8_ok (c # cs)" "utf8_ok t" "\<forall>x\<in>set (c # cs). 128 \<le> byte x"
proof
  let ?k = "utf8_extra c"
  from assms(1) have wf: "wf_utf8_char (c # take ?k s)" and t: "utf8_ok (drop ?k s)"
    by (simp_all add: utf8_ok_Cons)
  show "c # s = (c # take ?k s) @ drop ?k s" by simp
  show "utf8_ok (c # take ?k s)" by (rule wf_utf8_char_ok[OF wf])
  show "utf8_ok (drop ?k s)" by (rule t)
  show "\<forall>x\<in>set (c # take ?k s). 128 \<le> byte x"
    using wf_utf8_char_tl[OF wf] assms(2) by (auto simp: list_all_iff is_cont_def)
qed

text \<open>Replacing ASCII bytes by ASCII bytes keeps a text valid.\<close>

lemma ascii_swap_utf8:
  "utf8_ok s \<Longrightarrow> list_all2 (\<lambda>x y. x = y \<or> byte x < 128 \<and> byte y < 128) r s \<Longrightarrow> utf8_ok r"
proof (induction "length s" arbitrary: s r rule: less_induct)
  case less
  show ?case
  proof (cases s)
    case Nil
    with less.prems show ?thesis by simp
  next
    case (Cons c s')
    show ?thesis
    proof (cases "byte c < 128")
      case True
      with less.prems(2) Cons obtain x r' where "r = x # r'" "byte x < 128"
          "list_all2 (\<lambda>x y. x = y \<or> byte x < 128 \<and> byte y < 128) r' s'"
        by (auto simp: list_all2_Cons2)
      with less.hyps[of s' r'] less.prems(1) Cons True show ?thesis by simp
    next
      case False
      then obtain cs t where s: "c # s' = (c # cs) @ t" "utf8_ok (c # cs)" "utf8_ok t" "\<forall>x\<in>set (c # cs). 128 \<le> byte x"
        using less.prems(1) Cons by (metis not_less utf8_first_char)
      obtain r1 r2 where r: "r = r1 @ r2" "list_all2 (\<lambda>x y. x = y \<or> byte x < 128 \<and> byte y < 128) r1 (c # cs)"
          "list_all2 (\<lambda>x y. x = y \<or> byte x < 128 \<and> byte y < 128) r2 t"
        using less.prems(2) unfolding Cons s(1) list_all2_append2 by auto
      have "list_all2 (=) r1 (c # cs)"
        using r(2) s(4) by (auto simp: list_all2_conv_all_nth) (metis nth_mem not_less length_Cons list.set_intros(1) set_ConsD)
      then have "r1 = c # cs" by (simp add: list.rel_eq)
      moreover have "length t < length s"
        using arg_cong[OF s(1), of length] Cons by simp
      from less.hyps[OF this s(3) r(3)] have "utf8_ok r2" .
      ultimately show ?thesis using r(1) s(2) by (simp only: utf8_ok_append)
    qed
  qed
qed

declare chars.simps(2) [simp del]
declare chars_ascii_Cons [simp]

subsection \<open>Lemmas: prefixes, searching, splitting\<close>

lemma starts_with_iff: "starts_with s p \<longleftrightarrow> take (length p) s = p"
  by (induction s p rule: starts_with.induct) auto

lemma starts_with_append [simp]: "starts_with (p @ t) p"
  by (simp add: starts_with_iff)

lemma starts_with_drop: "starts_with s p \<Longrightarrow> s = p @ drop (length p) s"
  by (metis append_take_drop_id starts_with_iff)

lemma ends_with_iff: "ends_with s p \<longleftrightarrow> (\<exists>t. s = t @ p)"
proof
  assume "ends_with s p"
  then have "rev s = rev p @ drop (length p) (rev s)"
    using starts_with_drop [of "rev s" "rev p"] by (simp add: ends_with_def)
  then have "s = rev (drop (length p) (rev s)) @ p" by (metis rev_append rev_rev_ident)
  then show "\<exists>t. s = t @ p" by blast
qed (auto simp: ends_with_def)

lemma find_str_Some:
  "find_str s p = Some i \<Longrightarrow> i + length p \<le> length s \<and> starts_with (drop i s) p"
  by (induction s arbitrary: i) (auto split: if_splits simp: starts_with_iff, (metis length_take min.cobounded1 length_Cons)+)

lemma contains_str_iff: "contains_str s p \<longleftrightarrow> (\<exists>a b. s = a @ p @ b)"
proof
  assume "contains_str s p"
  then obtain i where "find_str s p = Some i" by (auto simp: contains_str_def)
  then have "starts_with (drop i s) p" by (simp add: find_str_Some)
  then have "s = take i s @ p @ drop (length p) (drop i s)"
    using starts_with_drop by (metis append_take_drop_id)
  then show "\<exists>a b. s = a @ p @ b" by blast
next
  assume "\<exists>a b. s = a @ p @ b"
  then obtain a b where s: "s = a @ p @ b" by blast
  have "find_str (a @ p @ b) p \<noteq> None"
  proof (induction a)
    case Nil
    then show ?case using starts_with_append [of p b] by (cases "p @ b") auto
  qed auto
  with s show "contains_str s p" by (simp add: contains_str_def)
qed

lemma find_byte_Some:
  "find_byte P s = Some i \<Longrightarrow> i < length s \<and> P (s ! i) \<and> (\<forall>j<i. \<not> P (s ! j))"
proof (induction s arbitrary: i)
  case (Cons c s)
  show ?case
  proof (cases i)
    case 0
    with Cons.prems show ?thesis by (auto split: if_splits)
  next
    case (Suc k)
    with Cons show ?thesis by (auto split: if_splits simp: less_Suc_eq_0_disj)
  qed
qed simp

lemma find_byte_None: "find_byte P s = None \<longleftrightarrow> (\<forall>c\<in>set s. \<not> P c)"
  by (induction s) auto

lemma split_on_not_Nil [simp]: "split_on P s \<noteq> []"
  by (induction s) (auto split: list.splits)

lemma split_on_no_sep: "w \<in> set (split_on P s) \<Longrightarrow> c \<in> set w \<Longrightarrow> \<not> P c \<and> c \<in> set s"
proof (induction s arbitrary: w c)
  case (Cons a s)
  then show ?case by (auto split: if_splits list.splits) blast+
qed simp

lemma length_join_with_le: "w \<in> set ws \<Longrightarrow> length w \<le> length (join_with sep ws)"
  by (induction sep ws rule: join_with.induct) auto

subsection \<open>Lemmas: BTreeMap\<close>

lemma btree_put_get [simp]: "map_of (btree_put k v m) = (map_of m)(k \<mapsto> v)"
  by (induction k v m rule: btree_put.induct) auto

lemma btree_put_keys: "set (map fst (btree_put k v m)) = insert k (set (map fst m))"
  by (induction k v m rule: btree_put.induct) auto

lemma btree_put_ok: "btree_ok m \<Longrightarrow> btree_ok (btree_put k v m)"
proof (induction k v m rule: btree_put.induct)
  case (2 k v k' v' m)
  then show ?case
    using btree_put_keys [of k v m] by (fastforce simp: btree_ok_def)
qed (simp add: btree_ok_def)

lemma btree_ok_distinct: "btree_ok m \<Longrightarrow> distinct (map fst m)"
  by (auto simp: btree_ok_def strict_sorted_iff)

lemma subseq_set: "subseq xs ys \<Longrightarrow> set xs \<subseteq> set ys"
  by (induction xs ys rule: list_emb.induct) auto

lemma btree_ok_subseq: "subseq m' m \<Longrightarrow> btree_ok m \<Longrightarrow> btree_ok m'"
proof (induction m' m rule: list_emb.induct)
  case (list_emb_Cons2 x y xs ys)
  then have "set xs \<subseteq> set ys" by (auto dest: list_emb_set)
  with list_emb_Cons2 show ?case by (auto simp: btree_ok_def)
qed (auto simp: btree_ok_def)

lemma btree_ok_filter: "btree_ok m \<Longrightarrow> btree_ok (filter P m)"
  using btree_ok_subseq subseq_filter_left by blast

lemma btree_put_length: "length (btree_put k v m) \<le> Suc (length m)"
  by (induction k v m rule: btree_put.induct) auto

lemma btree_put_set: "set (btree_put k v m) \<subseteq> insert (k, v) (set m)"
  by (induction k v m rule: btree_put.induct) auto

lemma btree_put_last: "\<forall>k'\<in>set (map fst m). k' < k \<Longrightarrow> btree_put k v m = m @ [(k, v)]"
  by (induction k v m rule: btree_put.induct) (auto dest: less_asym)

lemma btree_get_mem: "btree_ok m \<Longrightarrow> map_of m k = Some v \<longleftrightarrow> (k, v) \<in> set m"
  by (simp add: btree_ok_distinct)

subsection \<open>Searching by character\<close>

text \<open>\<open>str::find\<close> with a predicate on characters: the byte offset of the first one that satisfies it.\<close>

fun find_in_chars :: "(string \<Rightarrow> bool) \<Rightarrow> string list \<Rightarrow> nat option" where
  "find_in_chars P [] = None"
| "find_in_chars P (c # cs) = (if P c then Some 0 else map_option ((+) (length c)) (find_in_chars P cs))"

definition find_char :: "(string \<Rightarrow> bool) \<Rightarrow> string \<Rightarrow> nat option" where
  "find_char P s = find_in_chars P (chars s)"

lemma find_in_chars_Some:
  "find_in_chars P cs = Some i \<Longrightarrow> \<exists>as c bs. cs = as @ c # bs \<and> i = length (concat as) \<and> P c
     \<and> (\<forall>a\<in>set as. \<not> P a)"
proof (induction cs arbitrary: i)
  case (Cons c cs)
  show ?case
  proof (cases "P c")
    case True
    with Cons.prems show ?thesis
      by (intro exI [of _ "[]"] exI [of _ c] exI [of _ cs]) auto
  next
    case False
    with Cons.prems obtain j where j: "find_in_chars P cs = Some j" "i = length c + j" by auto
    from Cons.IH [OF j(1)] obtain as d bs where "cs = as @ d # bs" "j = length (concat as)" "P d"
      "\<forall>a\<in>set as. \<not> P a" by blast
    with j(2) False show ?thesis by (intro exI [of _ "c # as"]) auto
  qed
qed simp

lemma find_char_boundary:
  assumes "find_char P s = Some i" "utf8_ok s"
  shows "i \<le> length s \<and> is_char_boundary s i \<and> utf8_ok (drop i s)"
proof -
  from assms(1) obtain as c bs where cs: "chars s = as @ c # bs" "i = length (concat as)"
    by (auto simp: find_char_def dest!: find_in_chars_Some)
  have s: "s = concat as @ concat (c # bs)"
    using arg_cong [OF cs(1), of concat] by simp
  have "list_all wf_utf8_char (c # bs)"
    using assms(2) cs(1) by (simp add: utf8_ok_def)
  then have "utf8_ok (concat (c # bs))" by (rule utf8_ok_concat_wf)
  moreover have "drop i s = concat (c # bs)" using arg_cong [OF s, of "drop i"] cs(2) by simp
  moreover have "i \<le> length s" using arg_cong [OF s, of length] cs(2) by simp
  ultimately show ?thesis using boundary_if_drop_ok by simp
qed

lemma found_boundary:
  assumes "starts_with (drop i s) p" "utf8_ok s" "utf8_ok p" "p \<noteq> []"
  shows "is_char_boundary s i \<and> is_char_boundary s (i + length p) \<and> i + length p \<le> length s
    \<and> utf8_ok (take i s) \<and> utf8_ok (drop (i + length p) s)"
proof -
  from starts_with_drop [OF assms(1)] have d: "drop i s = p @ drop (i + length p) s"
    by (simp add: add.commute)
  have "length p \<le> length (drop i s)" using arg_cong [OF d, of length] by simp
  with assms(4) have l: "i + length p \<le> length s" "i < length s" by (auto simp: neq_Nil_conv)
  have "s ! i = hd p" using d l assms(4) by (metis hd_append hd_drop_conv_nth)
  moreover have "\<not> is_cont (hd p)" using assms(3,4) by (cases p) (auto dest: utf8_ok_hd)
  ultimately have b: "is_char_boundary s i" using l by (simp add: is_char_boundary_def)
  with assms(2) have "utf8_ok (drop i s)" "utf8_ok (take i s)" by (simp_all add: utf8_ok_split)
  then have "utf8_ok (drop (i + length p) s)" using d assms(3) utf8_ok_append by metis
  then show ?thesis using b l boundary_if_drop_ok \<open>utf8_ok (take i s)\<close> by simp
qed

subsection \<open>The first answer of an iterator\<close>

text \<open>\<open>Iterator::find_map\<close>.\<close>

fun find_map :: "('a \<Rightarrow> 'b option) \<Rightarrow> 'a list \<Rightarrow> 'b option" where
  "find_map f [] = None"
| "find_map f (x # xs) = (case f x of Some y \<Rightarrow> Some y | None \<Rightarrow> find_map f xs)"

lemma find_map_Some: "find_map f xs = Some y \<Longrightarrow> \<exists>x\<in>set xs. f x = Some y"
  by (induction xs) (auto split: option.splits)

lemma find_map_None: "find_map f xs = None \<longleftrightarrow> (\<forall>x\<in>set xs. f x = None)"
  by (induction xs) (auto split: option.splits)

subsection \<open>Lemmas: decimal text\<close>

lemma show_nat_digits: "show_nat n \<noteq> [] \<and> (\<forall>c\<in>set (show_nat n). is_ascii_digit c)"
proof (induction n rule: show_nat.induct)
  case (1 n)
  have "is_ascii_digit (char_of (48 + n mod 10))" for n :: nat
    by (simp add: is_ascii_digit_def)
  with 1 show ?case
    by (subst (1 2) show_nat.simps) (auto, metis mod_less)
qed

lemma digits_value_append:
  "digits_value acc (s @ t) = (case digits_value acc s of None \<Rightarrow> None | Some a \<Rightarrow> digits_value a t)"
  by (induction acc s rule: digits_value.induct) auto

lemma digits_value_show: "digits_value 0 (show_nat n) = Some n"
proof (induction n rule: show_nat.induct)
  case (1 n)
  have d: "is_ascii_digit (char_of (48 + k)) \<and> byte (char_of (48 + k) :: char) = 48 + k" if "k < 10" for k :: nat
    using that by (simp add: is_ascii_digit_def)
  show ?case
    using 1 d[of "n mod 10"] d[of n]
    by (subst show_nat.simps) (auto simp: digits_value_append)
qed

lemma parse_uint_show: "n \<le> mx \<Longrightarrow> parse_uint mx (show_nat n) = Some n"
proof -
  assume n: "n \<le> mx"
  have "show_nat n \<noteq> CHR ''+'' # u" for u
    using show_nat_digits[of n] by (auto simp: is_ascii_digit_def)
  then have "(case show_nat n of CHR ''+'' # u \<Rightarrow> u | _ \<Rightarrow> show_nat n) = show_nat n"
    by (auto split: list.splits char.splits bool.splits)
  then show ?thesis using n show_nat_digits[of n] by (simp add: parse_uint_def Let_def digits_value_show)
qed

subsection \<open>Lemmas: splitting once\<close>

lemma split_once_Some: "split_once d s = Some (a, b) \<longleftrightarrow> s = a @ d # b \<and> d \<notin> set a"
proof
  assume r: "split_once d s = Some (a, b)"
  then have d: "d \<in> set s" and a: "a = takeWhile (\<lambda>c. c \<noteq> d) s" and b: "b = tl (dropWhile (\<lambda>c. c \<noteq> d) s)"
    by (simp_all add: split_once_def split: if_splits)
  from d have "dropWhile (\<lambda>c. c \<noteq> d) s = d # b"
    unfolding b by (induction s) auto
  with a show "s = a @ d # b \<and> d \<notin> set a"
    by (metis set_takeWhileD takeWhile_dropWhile_id)
next
  assume "s = a @ d # b \<and> d \<notin> set a"
  then show "split_once d s = Some (a, b)"
    by (auto simp: split_once_def takeWhile_append dropWhile_append)
qed

lemma rsplit_once_Some: "rsplit_once d s = Some (a, b) \<longleftrightarrow> s = a @ d # b \<and> d \<notin> set b"
proof -
  have "rsplit_once d s = Some (a, b) \<longleftrightarrow> split_once d (rev s) = Some (rev b, rev a)"
    by (auto simp: rsplit_once_def)
  also have "\<dots> \<longleftrightarrow> rev s = rev b @ d # rev a \<and> d \<notin> set b"
    by (simp add: split_once_Some)
  also have "\<dots> \<longleftrightarrow> s = a @ d # b \<and> d \<notin> set b"
    by (simp add: rev_swap)
  finally show ?thesis .
qed

end
