(* ===== verification/Guard_Shell.thy ===== *)
theory Guard_Shell
  imports Rust_Prelude
begin

section \<open>The guard's shell recogniser\<close>

text \<open>
  \<open>crates/travsr-cli/src/guard/shell.rs\<close>: is some part of an \<open>&&\<close> / \<open>||\<close> / \<open>;\<close> chain a single
  read-only search? \<open>chain_parts\<close> cuts the chain with a byte loop over offsets, \<open>simple_words\<close>
  splits a part into words and refuses anything that could start a second command, and
  \<open>classify_chain\<close> puts them together. The string slices of the byte loop are partial, so the
  chain operations return an option whose \<open>None\<close> is a panic; \<open>chain_parts_total\<close> shows it does
  not occur.
\<close>

datatype search_tool = Tool_Content | Tool_Files

record search_command =
  sc_program :: string
  sc_kind :: search_tool
  sc_term :: "string option"

definition CONTENT_TOOLS :: "string list" where
  "CONTENT_TOOLS = [''grep'', ''rg'', ''ag'', ''ack'']"

definition FORBIDDEN :: "char list" where
  "FORBIDDEN = [CHR ''|'', CHR ''&'', CHR '';'', CHR ''('', CHR '')'', CHR ''<'', CHR ''>'',
     CHR 0x60, CHR ''$'', newline, carriage, CHR ''!'']"

subsection \<open>Splitting a part into words\<close>

fun words_loop :: "string list \<Rightarrow> string list \<Rightarrow> string \<Rightarrow> bool \<Rightarrow> string option \<Rightarrow> string list option"
where
  "words_loop [] words current has_word quote =
     (if quote \<noteq> None then None
      else (let words = (if has_word then words @ [current] else words)
            in if words \<noteq> [] then Some words else None))"
| "words_loop (c # cs) words current has_word (Some q) =
     (if c = q then words_loop cs words current has_word None
      else words_loop cs words (current @ c) has_word (Some q))"
| "words_loop (c # cs) words current has_word None =
     (if c = [backslash] then None
      else if c = [squote] \<or> c = [dquote] then words_loop cs words current True (Some c)
      else if is_whitespace c then
        (if has_word then words_loop cs (words @ [current]) [] False None
         else words_loop cs words current has_word None)
      else words_loop cs words (current @ c) True None)"

definition simple_words :: "string \<Rightarrow> string list option" where
  "simple_words command =
     (if list_ex (\<lambda>c. c \<in> set FORBIDDEN) command then None
      else words_loop (chars command) [] [] False None)"

definition basename :: "string \<Rightarrow> string" where
  "basename arg0 =
     (let cut = to_ascii_lowercase (last (split_on (\<lambda>c. c = CHR ''/'' \<or> c = backslash) arg0))
      in case strip_suffix cut ''.exe'' of Some s \<Rightarrow> s | None \<Rightarrow> cut)"

definition is_flag :: "string \<Rightarrow> bool" where
  "is_flag word \<longleftrightarrow> starts_with word ''-'' \<and> word \<noteq> ''-''"

subsection \<open>Cutting a chain into parts\<close>

text \<open>\<open>bytes.any\<close> with the quote state of the closure threaded through.\<close>

fun writes_loop :: "char option \<Rightarrow> string \<Rightarrow> bool" where
  "writes_loop quote [] = False"
| "writes_loop (Some q) (b # bs) = writes_loop (if b = q then None else Some q) bs"
| "writes_loop None (b # bs) =
     (if b = squote \<or> b = dquote then writes_loop (Some b) bs
      else b = CHR ''>'' \<or> writes_loop None bs)"

definition writes_a_file :: "string \<Rightarrow> bool" where
  "writes_a_file part = writes_loop None part"

definition skip_line :: "string \<Rightarrow> nat \<Rightarrow> nat" where
  "skip_line b i = i + length (takeWhile (\<lambda>c. c \<noteq> newline) (drop i b))"

text \<open>
  One arm of the loop's match at offset \<open>i\<close>: either the loop goes on in a new quote state, or a
  part ends at \<open>i\<close> and the next one starts at the first offset given. The second offset is the
  one the loop continues at.
\<close>

datatype chain_arm = Keep "char option" nat | Cut nat nat

definition chain_arm_at :: "string \<Rightarrow> char option \<Rightarrow> nat \<Rightarrow> chain_arm" where
  "chain_arm_at b quote i =
     (case quote of
        Some q \<Rightarrow> Keep (if b ! i = q then None else Some q) (Suc i)
      | None \<Rightarrow>
          if b ! i = squote \<or> b ! i = dquote then Keep (Some (b ! i)) (Suc i)
          else if b ! i = CHR ''#'' \<and> (i = 0 \<or> is_ascii_ws (b ! (i - 1)))
            then Cut (min (Suc (skip_line b i)) (length b)) (Suc (skip_line b i))
          else if b ! i = CHR '';'' \<or> b ! i = newline then Cut (Suc i) (Suc i)
          else if (b ! i = CHR ''&'' \<or> b ! i = CHR ''|'') \<and> Suc i < length b \<and> b ! Suc i = b ! i
            then Cut (i + 2) (i + 2)
          else Keep None (Suc i))"

lemma chain_arm_progress:
  "chain_arm_at b quote i = Keep q j \<Longrightarrow> i < j"
  "chain_arm_at b quote i = Cut st j \<Longrightarrow> i < j"
  by (auto simp: chain_arm_at_def skip_line_def split: option.splits if_splits)

function chain_loop :: "string \<Rightarrow> string list \<Rightarrow> char option \<Rightarrow> nat \<Rightarrow> nat \<Rightarrow> string list option" where
  "chain_loop b parts quote start i =
     (if i < length b then
        (case chain_arm_at b quote i of
           Keep q j \<Rightarrow> chain_loop b parts q start j
         | Cut st j \<Rightarrow> (case str_slice b start i of None \<Rightarrow> None
             | Some p \<Rightarrow> chain_loop b (parts @ [p]) None st j))
      else (case str_slice b start (length b) of None \<Rightarrow> None | Some p \<Rightarrow> Some (parts @ [p])))"
  by pat_completeness auto
termination
  by (relation "measure (\<lambda>(b, parts, quote, start, i). length b - i)")
     (auto dest: chain_arm_progress)

declare chain_loop.simps [simp del]

lemma chain_loop_Keep:
  "i < length b \<Longrightarrow> chain_arm_at b quote i = Keep q j \<Longrightarrow>
     chain_loop b parts quote start i = chain_loop b parts q start j"
  by (subst chain_loop.simps) simp

lemma chain_loop_Cut:
  "i < length b \<Longrightarrow> chain_arm_at b quote i = Cut st j \<Longrightarrow> str_slice b start i = Some p \<Longrightarrow>
     chain_loop b parts quote start i = chain_loop b (parts @ [p]) None st j"
  by (subst chain_loop.simps) simp

lemma chain_loop_end:
  "length b \<le> i \<Longrightarrow> str_slice b start (length b) = Some p \<Longrightarrow>
     chain_loop b parts quote start i = Some (parts @ [p])"
  by (subst chain_loop.simps) simp

definition chain_parts :: "string \<Rightarrow> string list option" where
  "chain_parts command =
     (if contains_str command ''<<'' then Some [command] else chain_loop command [] None 0 0)"

subsection \<open>Classifying one simple command\<close>

definition short_flag_has :: "string \<Rightarrow> char \<Rightarrow> bool" where
  "short_flag_has word want =
     (case strip_prefix word ''-'' of
        Some rest \<Rightarrow> \<not> starts_with rest ''-'' \<and> rest \<noteq> [] \<and> want \<in> set rest
      | None \<Rightarrow> False)"

definition TAKES_VALUE :: "string list" where
  "TAKES_VALUE = [''-f'', ''-m'', ''-A'', ''-B'', ''-C'', ''-d'', ''-D'', ''--file'', ''--max-count'',
     ''--after-context'', ''--before-context'', ''--context'', ''--include'', ''--exclude'',
     ''--exclude-dir'', ''-g'']"

definition PATTERN_FLAGS :: "string list" where
  "PATTERN_FLAGS = [''-e'', ''--regexp'', ''--pattern'', ''-p'']"

definition non_empty :: "string \<Rightarrow> string option" where
  "non_empty s = (if s \<noteq> [] then Some s else None)"

definition next_word :: "string list \<Rightarrow> string option" where
  "next_word args = (case args of [] \<Rightarrow> None | w # _ \<Rightarrow> non_empty w)"

fun content_term :: "string list \<Rightarrow> string option" where
  "content_term [] = None"
| "content_term (a # rest) =
     (if a = ''--'' then next_word rest
      else if (case split_once (CHR ''='') a of Some (flag, value) \<Rightarrow> flag \<in> set PATTERN_FLAGS | None \<Rightarrow> False)
        then (case split_once (CHR ''='') a of Some (flag, value) \<Rightarrow> non_empty value | None \<Rightarrow> None)
      else if split_once (CHR ''='') a \<noteq> None \<and> is_flag a then content_term rest
      else if a \<in> set PATTERN_FLAGS then next_word rest
      else if a \<in> set TAKES_VALUE then content_term (tl rest)
      else if is_flag a then content_term rest
      else non_empty a)"

definition trim_globs :: "string \<Rightarrow> string" where
  "trim_globs s = rev (dropWhile (\<lambda>c. c = CHR ''*'' \<or> c = CHR ''?'')
     (rev (dropWhile (\<lambda>c. c = CHR ''*'' \<or> c = CHR ''?'') s)))"

fun find_name_term :: "string list \<Rightarrow> string option" where
  "find_name_term [] = None"
| "find_name_term (a # rest) =
     (if a \<in> {''-name'', ''-iname'', ''-path'', ''-ipath'', ''-wholename''}
      then (case rest of [] \<Rightarrow> None | raw # _ \<Rightarrow> non_empty (trim_globs raw))
      else find_name_term rest)"

definition classify_simple :: "string \<Rightarrow> search_command option" where
  "classify_simple command =
     (case simple_words command of
        None \<Rightarrow> None
      | Some [] \<Rightarrow> None
      | Some (w # args) \<Rightarrow>
          (let program = basename w in
           if program \<in> set CONTENT_TOOLS then
             Some \<lparr>sc_program = program, sc_kind = Tool_Content, sc_term = content_term args\<rparr>
           else if program = ''find'' then
             Some \<lparr>sc_program = program, sc_kind = Tool_Files, sc_term = find_name_term args\<rparr>
           else if program = ''ls'' \<and> list_ex (\<lambda>a. short_flag_has a (CHR ''R'')) args then
             Some \<lparr>sc_program = program, sc_kind = Tool_Files, sc_term = None\<rparr>
           else None))"

definition classify_chain :: "string \<Rightarrow> search_command list option" where
  "classify_chain command =
     (case chain_parts command of
        None \<Rightarrow> None
      | Some parts \<Rightarrow>
          if list_ex writes_a_file parts then Some []
          else Some (sort_key (\<lambda>c. sc_term c = None) (List.map_filter classify_simple parts)))"

subsection \<open>The word splitter refuses operators and inverts quoting\<close>

lemma simple_words_no_operator:
  "simple_words command = Some ws \<Longrightarrow> c \<in> set command \<Longrightarrow> c \<notin> set FORBIDDEN"
  by (auto simp: simple_words_def list_ex_iff split: if_splits)

lemma words_loop_nonempty: "words_loop cs ws cur has q = Some out \<Longrightarrow> out \<noteq> []"
  by (induction cs ws cur has q rule: words_loop.induct) (auto split: if_splits simp: Let_def)

lemma simple_words_nonempty: "simple_words command = Some ws \<Longrightarrow> ws \<noteq> []"
  by (auto simp: simple_words_def dest: words_loop_nonempty split: if_splits)

lemma words_loop_in_quote:
  "q \<notin> set cs \<Longrightarrow>
     words_loop (cs @ q # rest) words cur has (Some q) = words_loop rest words (cur @ concat cs) has None"
  by (induction cs arbitrary: cur) auto

definition shell_quote :: "string \<Rightarrow> string" where
  "shell_quote w = squote # w @ [squote]"

definition quotable :: "string \<Rightarrow> bool" where
  "quotable w \<longleftrightarrow> utf8_ok w \<and> squote \<notin> set w \<and> (\<forall>c\<in>set w. c \<notin> set FORBIDDEN)"

lemma chars_no_squote: "squote \<notin> set w \<Longrightarrow> [squote] \<notin> set (chars w)"
  using concat_chars [of w] by (metis UN_I list.set_intros(1) set_concat)

lemma chars_shell_quote:
  assumes "quotable w"
  shows "chars (shell_quote w @ rest) = [squote] # chars w @ [squote] # chars rest"
proof -
  have "utf8_ok w" using assms by (simp add: quotable_def)
  then have "chars (w @ squote # rest) = chars w @ chars (squote # rest)" by (rule chars_append)
  then show ?thesis by (simp add: shell_quote_def chars_ascii_Cons)
qed

lemma words_loop_quoted_word:
  assumes "quotable w"
  shows "words_loop (chars (shell_quote w @ rest)) words cur has None
    = words_loop (chars rest) words (cur @ w) True None"
proof -
  have "[squote] \<notin> set (chars w)" using assms by (simp add: quotable_def chars_no_squote)
  then show ?thesis using assms by (simp add: chars_shell_quote words_loop_in_quote)
qed

lemma space_is_whitespace: "is_whitespace '' ''"
  by (simp add: is_whitespace_def)

lemma chars_space: "chars (CHR '' '' # s) = '' '' # chars s"
  by (rule chars_ascii_Cons) simp

lemma words_loop_quoted_list:
  assumes "\<forall>w\<in>set ws. quotable w" "ws \<noteq> []"
  shows "words_loop (chars (join_with '' '' (map shell_quote ws))) words [] False None = Some (words @ ws)"
  using assms
proof (induction ws arbitrary: words)
  case (Cons w ws)
  have q: "quotable w" using Cons.prems by simp
  show ?case
  proof (cases ws)
    case Nil
    have "words_loop (chars (shell_quote w @ [])) words [] False None
        = words_loop (chars []) words ([] @ w) True None"
      using q by (rule words_loop_quoted_word)
    with Nil show ?thesis by simp
  next
    case (Cons v vs)
    let ?rest = "CHR '' '' # join_with '' '' (map shell_quote ws)"
    have j: "join_with '' '' (map shell_quote (w # ws)) = shell_quote w @ ?rest"
      using Cons by simp
    have "words_loop (chars (shell_quote w @ ?rest)) words [] False None
        = words_loop (chars ?rest) words ([] @ w) True None"
      using q by (rule words_loop_quoted_word)
    also have "\<dots> = words_loop (chars (join_with '' '' (map shell_quote ws))) (words @ [w]) [] False None"
      by (simp add: chars_space space_is_whitespace)
    also have "\<dots> = Some ((words @ [w]) @ ws)"
      using Cons Cons.prems by (intro Cons.IH) auto
    finally show ?thesis by (simp only: j append_assoc append_Cons append_Nil)
  qed
qed simp

lemma join_quoted_chars:
  "c \<in> set (join_with '' '' (map shell_quote ws)) \<Longrightarrow>
     c = CHR '' '' \<or> c = squote \<or> (\<exists>w\<in>set ws. c \<in> set w)"
proof (induction ws)
  case (Cons w ws)
  then show ?case by (cases ws) (auto simp: shell_quote_def)
qed simp

text \<open>
  Quoting round-trips. For every non-empty list of words without single quotes or shell
  operators, writing each word in single quotes and joining them with spaces gives a command
  line that \<open>simple_words\<close> splits back into exactly those words, empty words included.
\<close>

lemma simple_words_quoted:
  assumes "ws \<noteq> []" "\<forall>w\<in>set ws. quotable w"
  shows "simple_words (join_with '' '' (map shell_quote ws)) = Some ws"
proof -
  have "\<not> list_ex (\<lambda>c. c \<in> set FORBIDDEN) (join_with '' '' (map shell_quote ws))"
    using assms(2) by (auto simp: list_ex_iff quotable_def FORBIDDEN_def dest!: join_quoted_chars)
  then show ?thesis
    using words_loop_quoted_list [OF assms(2,1), of "[]"] by (simp add: simple_words_def)
qed

lemma simple_words_quoted_witness:
  "simple_words (join_with '' '' (map shell_quote [''rg'', '''', ''a b''])) = Some [''rg'', '''', ''a b'']"
  by (rule simple_words_quoted) (simp_all add: quotable_def FORBIDDEN_def)

subsection \<open>The chain splitter never panics and returns substrings\<close>

lemma skip_line_bounds:
  assumes "i < length b"
  shows "i \<le> skip_line b i" "skip_line b i \<le> length b"
    and "skip_line b i < length b \<Longrightarrow> b ! skip_line b i = newline"
proof -
  let ?t = "takeWhile (\<lambda>c. c \<noteq> newline) (drop i b)"
  show "i \<le> skip_line b i" by (simp add: skip_line_def)
  have "length ?t \<le> length (drop i b)" by (rule length_takeWhile_le)
  with assms show "skip_line b i \<le> length b" by (simp add: skip_line_def)
  assume "skip_line b i < length b"
  then have "length ?t < length (drop i b)" using assms by (simp add: skip_line_def)
  then have "\<not> (drop i b ! length ?t \<noteq> newline)" by (rule nth_length_takeWhile)
  then show "b ! skip_line b i = newline" using assms by (simp add: skip_line_def)
qed

lemma skip_line_boundary:
  assumes "utf8_ok b" "i < length b"
  shows "is_char_boundary b (min (Suc (skip_line b i)) (length b))"
proof (cases "skip_line b i < length b")
  case True
  then have "b ! skip_line b i = newline" using assms by (simp add: skip_line_bounds)
  then have "is_char_boundary b (Suc (skip_line b i))"
    using assms True by (intro ascii_boundary_Suc) auto
  with True show ?thesis by (simp add: min_def)
qed (simp add: min_def)

lemma chain_arm_Cut:
  assumes "chain_arm_at b quote i = Cut st j" "i < length b" "utf8_ok b"
  shows "byte (b ! i) < 128" "i < st" "st \<le> j" "st \<le> length b" "is_char_boundary b st"
proof -
  note bounds = skip_line_bounds [OF assms(2)] skip_line_boundary [OF assms(3,2)]
  show "byte (b ! i) < 128" "i < st" "st \<le> j" "st \<le> length b"
    using assms bounds by (auto simp: chain_arm_at_def split: option.splits if_splits)
  have "is_char_boundary b (Suc i)" if "byte (b ! i) < 128"
    using that assms by (intro ascii_boundary_Suc)
  moreover have "is_char_boundary b (i + 2)" if "byte (b ! Suc i) < 128" "Suc i < length b"
    using that assms ascii_boundary_Suc [of b "Suc i"] by simp
  ultimately show "is_char_boundary b st"
    using assms(1) bounds by (auto simp: chain_arm_at_def split: option.splits if_splits)
qed

lemma chain_loop_total:
  assumes "utf8_ok b" "is_char_boundary b start" "start \<le> i" "start \<le> length b"
  shows "\<exists>ps. chain_loop b parts quote start i = Some ps"
  using assms
proof (induction b parts quote start i rule: chain_loop.induct)
  case (1 b parts quote start i)
  show ?case
  proof (cases "i < length b")
    case False
    with "1.prems" show ?thesis
      by (simp add: chain_loop.simps [of b parts quote start i] str_slice_def)
  next
    case True
    show ?thesis
    proof (cases "chain_arm_at b quote i")
      case (Keep q j)
      have "start \<le> j" using chain_arm_progress(1) [OF Keep] "1.prems"(3) by simp
      with 1 Keep True show ?thesis by (simp add: chain_loop.simps [of b parts quote start i])
    next
      case (Cut st j)
      note cut = chain_arm_Cut [OF Cut True "1.prems"(1)]
      have sl: "str_slice b start i = Some (take (i - start) (drop start b))"
        using 1 True cut(1) by (intro str_slice_Some) (auto intro: ascii_boundary)
      from 1 Cut True sl cut show ?thesis by (simp add: chain_loop.simps [of b parts quote start i])
    qed
  qed
qed

lemma str_slice_substring: "str_slice s a b = Some p \<Longrightarrow> \<exists>x y. s = x @ p @ y"
  by (auto simp: str_slice_def split: if_splits) (metis append_take_drop_id)

definition part_of :: "string \<Rightarrow> string \<Rightarrow> bool" where
  "part_of b p \<longleftrightarrow> utf8_ok p \<and> (\<exists>x y. b = x @ p @ y)"

lemma chain_loop_parts:
  assumes "chain_loop b parts quote start i = Some ps" "utf8_ok b" "list_all (part_of b) parts"
  shows "ps \<noteq> [] \<and> list_all (part_of b) ps"
  using assms
proof (induction b parts quote start i rule: chain_loop.induct)
  case (1 b parts quote start i)
  have part: "part_of b p" if "str_slice b start j = Some p" for j p
    using that "1.prems"(2) by (auto simp: part_of_def dest: str_slice_utf8_ok str_slice_substring)
  show ?case
  proof (cases "i < length b")
    case False
    with "1.prems" show ?thesis
      by (auto simp: chain_loop.simps [of b parts quote start i] part split: option.splits)
  next
    case True
    show ?thesis
    proof (cases "chain_arm_at b quote i")
      case (Keep q j)
      with 1 True show ?thesis by (simp add: chain_loop.simps [of b parts quote start i])
    next
      case (Cut st j)
      with "1.prems"(1) True obtain p where sl: "str_slice b start i = Some p"
        and rest: "chain_loop b (parts @ [p]) None st j = Some ps"
        by (auto simp: chain_loop.simps [of b parts quote start i] split: option.splits)
      from "1.prems"(3) part [OF sl] have "list_all (part_of b) (parts @ [p])" by simp
      then show ?thesis using "1.IH"(2) [OF True Cut sl rest] "1.prems"(2) by simp
    qed
  qed
qed

text \<open>
  The chain splitter never panics. On every valid UTF-8 command line all its byte-offset
  slices are in range and on character boundaries; it returns at least one part, and every
  part is valid UTF-8 and a contiguous substring of the command.
\<close>

lemma chain_parts_total:
  assumes "utf8_ok command"
  shows "\<exists>ps. chain_parts command = Some ps \<and> ps \<noteq> [] \<and> list_all (part_of command) ps"
proof (cases "contains_str command ''<<''")
  case True
  have "part_of command command"
    using assms by (auto simp: part_of_def intro: exI [of _ "[]"])
  with True show ?thesis by (simp add: chain_parts_def)
next
  case False
  obtain ps where "chain_loop command [] None 0 0 = Some ps"
    using chain_loop_total [of command 0 0] assms by auto
  with False show ?thesis
    using chain_loop_parts [of command "[]" None 0 0 ps] assms by (simp add: chain_parts_def)
qed

lemma chain_parts_total_witness:
  "utf8_ok ''rg a; ls # x'' \<and> (\<exists>ps. chain_parts ''rg a; ls # x'' = Some ps \<and> ps \<noteq> []
     \<and> list_all (part_of ''rg a; ls # x'') ps)"
proof -
  have h: "utf8_ok ''rg a; ls # x''" by simp
  then show ?thesis using chain_parts_total [OF h] by simp
qed

subsection \<open>The chain splitter inverts joining\<close>

definition chain_plain :: "char \<Rightarrow> bool" where
  "chain_plain c \<longleftrightarrow> c \<notin> {squote, dquote, CHR ''#'', CHR '';'', newline, CHR ''&'', CHR ''|'', CHR ''<''}"

definition CHAIN_SEPARATORS :: "string list" where
  "CHAIN_SEPARATORS = ['';'', [newline], ''&&'', ''||'']"

lemma chain_arm_plain: "chain_plain (b ! i) \<Longrightarrow> chain_arm_at b None i = Keep None (Suc i)"
  by (auto simp: chain_arm_at_def chain_plain_def)

lemma chain_arm_separator:
  assumes "sep \<in> set CHAIN_SEPARATORS"
  shows "chain_arm_at (x @ sep @ y) None (length x) = Cut (length x + length sep) (length x + length sep)"
proof -
  from assms consider "sep = '';''" | "sep = [newline]" | "sep = ''&&''" | "sep = ''||''"
    unfolding CHAIN_SEPARATORS_def by fastforce
  then show ?thesis by cases (simp_all add: chain_arm_at_def nth_append)
qed

lemma chain_loop_plain:
  assumes "list_all chain_plain p"
  shows "chain_loop (x @ p @ y) parts None start (length x)
    = chain_loop (x @ p @ y) parts None start (length x + length p)"
  using assms
proof (induction p arbitrary: x)
  case (Cons c p)
  have "chain_loop (x @ (c # p) @ y) parts None start (length x)
      = chain_loop (x @ (c # p) @ y) parts None start (Suc (length x))"
    using Cons.prems by (intro chain_loop_Keep chain_arm_plain) auto
  also have "\<dots> = chain_loop ((x @ [c]) @ p @ y) parts None start (length (x @ [c]))" by simp
  also have "\<dots> = chain_loop ((x @ [c]) @ p @ y) parts None start (length (x @ [c]) + length p)"
    using Cons.prems by (intro Cons.IH) simp
  finally show ?case by simp
qed simp

lemma str_slice_middle:
  assumes "utf8_ok x" "utf8_ok p" "utf8_ok y"
  shows "str_slice (x @ p @ y) (length x) (length x + length p) = Some p"
proof -
  have "is_char_boundary (x @ p @ y) (length x)"
    using assms by (intro boundary_if_drop_ok) auto
  moreover have "is_char_boundary (x @ p @ y) (length x + length p)"
    using assms by (intro boundary_if_drop_ok) auto
  ultimately show ?thesis by (simp add: str_slice_def)
qed

lemma separator_utf8: "sep \<in> set CHAIN_SEPARATORS \<Longrightarrow> utf8_ok sep"
  by (auto simp: CHAIN_SEPARATORS_def)

lemma utf8_ok_join: "utf8_ok sep \<Longrightarrow> list_all utf8_ok ps \<Longrightarrow> utf8_ok (join_with sep ps)"
  by (induction sep ps rule: join_with.induct) auto

lemma chain_loop_join:
  assumes "ps \<noteq> []" "list_all (list_all chain_plain) ps" "list_all utf8_ok ps"
    and "utf8_ok x" "sep \<in> set CHAIN_SEPARATORS"
  shows "chain_loop (x @ join_with sep ps) parts None (length x) (length x) = Some (parts @ ps)"
  using assms
proof (induction ps arbitrary: x parts)
  case (Cons p ps)
  have p: "list_all chain_plain p" "utf8_ok p" using Cons.prems by auto
  show ?case
  proof (cases ps)
    case Nil
    have "str_slice (x @ p) (length x) (length x + length p) = Some p"
      using str_slice_middle [of x p "[]"] p Cons.prems by simp
    then have "chain_loop (x @ p) parts None (length x) (length x + length p) = Some (parts @ [p])"
      by (intro chain_loop_end) auto
    with Nil show ?thesis
      using chain_loop_plain [OF p(1), of x "[]" parts "length x"] by simp
  next
    case (Cons q qs)
    let ?y = "join_with sep ps" and ?x = "x @ p @ sep"
    let ?b = "x @ p @ sep @ ?y"
    have b: "x @ join_with sep (p # ps) = ?b" using Cons by simp
    have y: "utf8_ok (sep @ ?y)"
      using Cons.prems separator_utf8 by (simp add: utf8_ok_join)
    have ne: "sep \<noteq> []" using Cons.prems(5) by (auto simp: CHAIN_SEPARATORS_def)
    have sl: "str_slice ?b (length x) (length x + length p) = Some p"
      using str_slice_middle [of x p "sep @ ?y"] p y Cons.prems by simp
    have arm: "chain_arm_at ?b None (length x + length p) = Cut (length ?x) (length ?x)"
      using chain_arm_separator [of sep "x @ p" ?y] Cons.prems(5) by simp
    have "chain_loop ?b parts None (length x) (length x)
        = chain_loop ?b parts None (length x) (length x + length p)"
      using chain_loop_plain [OF p(1), of x "sep @ ?y" parts "length x"] by simp
    also have "\<dots> = chain_loop ?b (parts @ [p]) None (length ?x) (length ?x)"
      using sl arm ne by (intro chain_loop_Cut) auto
    also have "\<dots> = chain_loop (?x @ ?y) (parts @ [p]) None (length ?x) (length ?x)" by simp
    also have "\<dots> = Some ((parts @ [p]) @ ps)"
    proof (rule Cons.IH)
      show "ps \<noteq> []" using Cons by simp
      show "utf8_ok ?x" using Cons.prems p separator_utf8 by simp
    qed (use Cons.prems in simp_all)
    finally show ?thesis using b by simp
  qed
qed simp

lemma join_with_chars:
  "c \<in> set (join_with sep ps) \<Longrightarrow> c \<in> set sep \<or> (\<exists>p\<in>set ps. c \<in> set p)"
  by (induction sep ps rule: join_with.induct) auto

lemma contains_str_chars: "contains_str s p \<Longrightarrow> c \<in> set p \<Longrightarrow> c \<in> set s"
  by (auto simp: contains_str_iff)

text \<open>
  Splitting a chain inverts joining it. Whenever the parts are free of quotes, \<open>#\<close>, \<open><\<close> and
  the separator characters, joining them with any one of the four separators \<open>;\<close>, newline,
  \<open>&&\<close> and \<open>||\<close> gives a command line that \<open>chain_parts\<close> cuts back into exactly those parts.
\<close>

lemma chain_parts_join:
  assumes "ps \<noteq> []" "list_all (list_all chain_plain) ps" "list_all utf8_ok ps"
    and "sep \<in> set CHAIN_SEPARATORS"
  shows "chain_parts (join_with sep ps) = Some ps"
proof -
  have "CHR ''<'' \<notin> set sep" using assms(4) by (fastforce simp: CHAIN_SEPARATORS_def)
  moreover have "CHR ''<'' \<notin> set p" if "p \<in> set ps" for p
    using assms(2) that by (auto simp: list_all_iff chain_plain_def)
  ultimately have "CHR ''<'' \<notin> set (join_with sep ps)" using join_with_chars [of "CHR ''<''" sep ps] by fast
  then have "\<not> contains_str (join_with sep ps) ''<<''"
    using contains_str_chars [of "join_with sep ps" "''<<''" "CHR ''<''"] by (meson list.set_intros(1))
  then show ?thesis
    using chain_loop_join [OF assms(1-3), of "[]" sep "[]"] assms(4) by (simp add: chain_parts_def)
qed

lemma chain_parts_join_witness:
  "chain_parts (join_with ''&&'' [''ls -R '', '' rg Foo'']) = Some [''ls -R '', '' rg Foo'']"
  by (rule chain_parts_join) (simp_all add: chain_plain_def CHAIN_SEPARATORS_def)

subsection \<open>What a recognised search is\<close>

definition SEARCH_PROGRAMS :: "string list" where
  "SEARCH_PROGRAMS = CONTENT_TOOLS @ [''find'', ''ls'']"

lemma classify_simple_Some:
  assumes "classify_simple p = Some c"
  shows "sc_program c \<in> set SEARCH_PROGRAMS" "\<forall>x\<in>set p. x \<notin> set FORBIDDEN"
    "\<exists>w args. simple_words p = Some (w # args) \<and> basename w = sc_program c"
  using assms simple_words_no_operator [of p]
  by (auto simp: classify_simple_def SEARCH_PROGRAMS_def Let_def split: option.splits list.splits if_splits)

lemma in_map_filter: "x \<in> set (List.map_filter f xs) \<longleftrightarrow> (\<exists>y\<in>set xs. f y = Some x)"
  by (auto simp: List.map_filter_def) force

definition lone_search :: "string \<Rightarrow> search_command \<Rightarrow> bool" where
  "lone_search command c \<longleftrightarrow> (\<exists>parts p w args. chain_parts command = Some parts \<and> p \<in> set parts
     \<and> classify_simple p = Some c \<and> (\<forall>x\<in>set p. x \<notin> set FORBIDDEN)
     \<and> simple_words p = Some (w # args) \<and> basename w = sc_program c
     \<and> sc_program c \<in> set SEARCH_PROGRAMS \<and> (\<forall>q\<in>set parts. \<not> writes_a_file q))"

text \<open>
  A recognised search is a lone search command. Every search that \<open>classify_chain\<close> reports
  comes from one part of the chain, that part contains no pipe, redirect, substitution or other
  operator byte, its first word names one of the six search programs as a whole basename, and
  no part of the whole chain redirects output to a file. Searches that carry a term come first.
\<close>

lemma classify_chain_sound:
  assumes "classify_chain command = Some found"
  shows "(\<forall>c\<in>set found. lone_search command c) \<and> sorted (map (\<lambda>c. sc_term c = None) found)"
proof -
  from assms obtain parts where parts: "chain_parts command = Some parts"
    by (auto simp: classify_chain_def split: option.splits)
  have "lone_search command c" if c: "c \<in> set found" for c
  proof -
    from c assms parts have nw: "\<forall>q\<in>set parts. \<not> writes_a_file q"
      and "c \<in> set (List.map_filter classify_simple parts)"
      by (auto simp: classify_chain_def list_ex_iff split: if_splits)
    then obtain p where "p \<in> set parts" "classify_simple p = Some c" by (auto simp: in_map_filter)
    with parts nw classify_simple_Some [of p c] show ?thesis unfolding lone_search_def by blast
  qed
  moreover have "sorted (map (\<lambda>c. sc_term c = None) found)"
    using assms by (auto simp: classify_chain_def split: option.splits if_splits)
  ultimately show ?thesis by blast
qed

lemma chain_parts_example: "chain_parts ''rg Foo'' = Some [''rg Foo'']"
proof -
  have "chain_loop ([] @ join_with '';'' [''rg Foo'']) [] None (length ([] :: string)) (length ([] :: string))
      = Some ([] @ [''rg Foo''])"
    by (rule chain_loop_join) (simp_all add: chain_plain_def CHAIN_SEPARATORS_def)
  then show ?thesis by (simp add: chain_parts_def contains_str_def)
qed

lemma classify_simple_example:
  "classify_simple ''rg Foo'' = Some \<lparr>sc_program = ''rg'', sc_kind = Tool_Content, sc_term = Some ''Foo''\<rparr>"
proof -
  have "simple_words ''rg Foo'' = Some [''rg'', ''Foo'']"
    by (simp add: simple_words_def FORBIDDEN_def is_whitespace_def)
  then show ?thesis
    by (simp add: classify_simple_def basename_def strip_suffix_def ends_with_def ascii_lower_def
        ascii_defs CONTENT_TOOLS_def split_once_def is_flag_def PATTERN_FLAGS_def TAKES_VALUE_def
        non_empty_def)
qed

lemma classify_chain_example:
  "classify_chain ''rg Foo'' = Some [\<lparr>sc_program = ''rg'', sc_kind = Tool_Content, sc_term = Some ''Foo''\<rparr>]"
  by (simp add: classify_chain_def chain_parts_example writes_a_file_def classify_simple_example
      List.map_filter_def)

lemma classify_chain_sound_witness:
  "lone_search ''rg Foo'' \<lparr>sc_program = ''rg'', sc_kind = Tool_Content, sc_term = Some ''Foo''\<rparr>"
  using classify_chain_sound [OF classify_chain_example] by simp

end
