(* ===== verification/Guard_Session.thy ===== *)
theory Guard_Session
  imports Rust_Prelude
begin

section \<open>The guard's release valve\<close>

text \<open>
  \<open>crates/travsr-cli/src/guard/session.rs\<close>: per session, the terms the agent asked Travsr about
  and the terms the guard denied once. The state is one JSON file; \<open>valve_env\<close> holds what one call
  meets of the outside (the two clock readings, and whether each file-system call succeeds), and
  the JSON printer and parser of \<open>serde_json\<close> are the arguments \<open>ser\<close> and \<open>de\<close>. Seconds since
  the epoch are natural numbers; \<open>saturating_sub\<close> is their truncated subtraction.
\<close>

definition SESSION_TTL_SECS :: nat where "SESSION_TTL_SECS = 24 * 60 * 60"
definition MAX_SESSIONS :: nat where "MAX_SESSIONS = 64"
definition MAX_TERMS :: nat where "MAX_TERMS = 256"
definition MAX_FILE_BYTES :: nat where "MAX_FILE_BYTES = 512 * 1024"

record session_state =
  st_updated :: nat
  st_queried :: "string list"
  st_denied :: "string list"

type_synonym valve_store = "(string, session_state) btree"

definition default_session :: session_state where
  "default_session = \<lparr>st_updated = 0, st_queried = [], st_denied = []\<rparr>"

record valve_env =
  now_entry :: nat
  now_save :: nat
  metadata_ok :: bool
  read_ok :: bool
  mkdir_ok :: bool
  write_ok :: bool
  rename_ok :: bool

definition normalise :: "string \<Rightarrow> string" where
  "normalise term = trim term"

definition load_store :: "(string \<Rightarrow> valve_store option) \<Rightarrow> valve_env \<Rightarrow> string option \<Rightarrow> valve_store" where
  "load_store de env file =
     (case file of
        None \<Rightarrow> []
      | Some text \<Rightarrow>
          if metadata_ok env \<and> length text \<le> MAX_FILE_BYTES then
            (if read_ok env \<and> utf8_ok text
             then (case de text of Some st \<Rightarrow> st | None \<Rightarrow> []) else [])
          else [])"

fun retain_cap :: "nat \<Rightarrow> nat \<Rightarrow> valve_store \<Rightarrow> valve_store" where
  "retain_cap keep_from kept [] = []"
| "retain_cap keep_from kept ((k, s) # m) =
     (if keep_from \<le> st_updated s \<and> kept < MAX_SESSIONS
      then (k, s) # retain_cap keep_from (Suc kept) m
      else retain_cap keep_from kept m)"

definition cap_sessions :: "valve_store \<Rightarrow> valve_store" where
  "cap_sessions m =
     (if MAX_SESSIONS < length m then
        (let stamps = sort (map (\<lambda>(k, s). st_updated s) m)
         in retain_cap (stamps ! (length stamps - MAX_SESSIONS)) 0 m)
      else m)"

definition cap_terms :: "string list \<Rightarrow> string list" where
  "cap_terms ts = (if MAX_TERMS < length ts then drop (length ts - MAX_TERMS) ts else ts)"

definition cap_session :: "session_state \<Rightarrow> session_state" where
  "cap_session s = s\<lparr>st_queried := cap_terms (st_queried s), st_denied := cap_terms (st_denied s)\<rparr>"

definition prune_store :: "nat \<Rightarrow> valve_store \<Rightarrow> valve_store" where
  "prune_store now m =
     (let live = filter (\<lambda>(k, s). now - SESSION_TTL_SECS \<le> st_updated s) m
      in map (\<lambda>(k, s). (k, cap_session s)) (cap_sessions live))"

definition save_store ::
  "(valve_store \<Rightarrow> string option) \<Rightarrow> valve_env \<Rightarrow> string option \<Rightarrow> valve_store \<Rightarrow> string option" where
  "save_store ser env file m =
     (case ser (prune_store (now_save env) m) of
        None \<Rightarrow> file
      | Some text \<Rightarrow>
          if \<not> mkdir_ok env then file
          else if \<not> write_ok env then file
          else if \<not> rename_ok env then file
          else Some text)"

definition session_entry :: "valve_store \<Rightarrow> string \<Rightarrow> nat \<Rightarrow> session_state" where
  "session_entry m session now =
     (case btree_get m session of Some s \<Rightarrow> s | None \<Rightarrow> default_session)\<lparr>st_updated := now\<rparr>"

definition query_store :: "nat \<Rightarrow> valve_store \<Rightarrow> string \<Rightarrow> string \<Rightarrow> valve_store" where
  "query_store now m session term =
     (let e = session_entry m session now
      in btree_put session
           (if term \<in> set (st_queried e) then e else e\<lparr>st_queried := st_queried e @ [term]\<rparr>) m)"

definition release_store :: "nat \<Rightarrow> valve_store \<Rightarrow> string \<Rightarrow> string \<Rightarrow> bool \<times> valve_store" where
  "release_store now m session term =
     (let e = session_entry m session now
      in if term \<in> set (st_queried e) \<or> term \<in> set (st_denied e)
         then (True, btree_put session e m)
         else (False, btree_put session (e\<lparr>st_denied := st_denied e @ [term]\<rparr>) m))"

definition record_query ::
  "(valve_store \<Rightarrow> string option) \<Rightarrow> (string \<Rightarrow> valve_store option) \<Rightarrow> valve_env
     \<Rightarrow> string option \<Rightarrow> string \<Rightarrow> string \<Rightarrow> string option" where
  "record_query ser de env file session term =
     (let term = normalise term
      in if session = [] \<or> term = [] then file
         else save_store ser env file (query_store (now_entry env) (load_store de env file) session term))"

definition release ::
  "(valve_store \<Rightarrow> string option) \<Rightarrow> (string \<Rightarrow> valve_store option) \<Rightarrow> valve_env
     \<Rightarrow> string option \<Rightarrow> string option \<Rightarrow> string \<Rightarrow> bool \<times> string option" where
  "release ser de env file session term =
     (case session of
        None \<Rightarrow> (True, file)
      | Some s \<Rightarrow>
          if s = [] then (True, file)
          else (let term = normalise term
                in if term = [] then (True, file)
                   else (let (released, m) = release_store (now_entry env) (load_store de env file) s term
                         in (released, save_store ser env file m))))"

subsection \<open>Pruning\<close>

lemma retain_cap_length: "length (retain_cap kf kept m) \<le> MAX_SESSIONS - kept"
  by (induction kf kept m rule: retain_cap.induct) (auto simp: Suc_diff_Suc)

lemma retain_cap_subseq: "subseq (retain_cap kf kept m) m"
  by (induction kf kept m rule: retain_cap.induct) auto

lemma retain_cap_prefix:
  "\<forall>(k, s)\<in>set m. kf \<le> st_updated s \<Longrightarrow> kept + length m \<le> MAX_SESSIONS \<Longrightarrow>
     retain_cap kf kept (m @ rest) = m @ retain_cap kf (kept + length m) rest"
  by (induction m arbitrary: kept) auto

lemma retain_cap_full: "MAX_SESSIONS \<le> kept \<Longrightarrow> retain_cap kf kept m = []"
  by (induction kf kept m rule: retain_cap.induct) auto

lemma cap_sessions_subseq: "subseq (cap_sessions m) m"
  by (simp add: cap_sessions_def Let_def retain_cap_subseq)

lemma cap_sessions_length: "length (cap_sessions m) \<le> MAX_SESSIONS"
  using retain_cap_length [of _ 0 m] by (simp add: cap_sessions_def Let_def)

lemma cap_terms_length: "length (cap_terms ts) \<le> MAX_TERMS"
  by (simp add: cap_terms_def)

lemma cap_terms_id [simp]: "length ts \<le> MAX_TERMS \<Longrightarrow> cap_terms ts = ts"
  by (simp add: cap_terms_def)

lemma cap_terms_last: "t \<in> set (cap_terms (ts @ [t]))"
proof (cases "MAX_TERMS < length (ts @ [t])")
  case True
  then have "length (ts @ [t]) - MAX_TERMS \<le> length ts" by (simp add: MAX_TERMS_def)
  with True show ?thesis by (simp add: cap_terms_def)
qed simp

lemma cap_session_id [simp]:
  "length (st_queried s) \<le> MAX_TERMS \<Longrightarrow> length (st_denied s) \<le> MAX_TERMS \<Longrightarrow> cap_session s = s"
  by (simp add: cap_session_def)

lemma cap_session_updated [simp]: "st_updated (cap_session s) = st_updated s"
  by (simp add: cap_session_def)

definition live_at :: "nat \<Rightarrow> session_state \<Rightarrow> bool" where
  "live_at now s \<longleftrightarrow> now - SESSION_TTL_SECS \<le> st_updated s"

definition within_caps :: "session_state \<Rightarrow> bool" where
  "within_caps s \<longleftrightarrow> length (st_queried s) \<le> MAX_TERMS \<and> length (st_denied s) \<le> MAX_TERMS"

lemma live_at_cap [simp]: "live_at now (cap_session s) = live_at now s"
  by (simp add: live_at_def)

lemma within_caps_cap [simp]: "within_caps (cap_session s)"
  by (simp add: within_caps_def cap_session_def cap_terms_length)

text \<open>
  The retained valve state is bounded. Whatever store is saved, at most 64 sessions with at
  most 256 terms in each list survive pruning, every survivor was touched within the last day,
  and the keys stay strictly ordered.
\<close>

lemma prune_store_bounded:
  assumes "btree_ok m"
  shows "length (prune_store now m) \<le> MAX_SESSIONS \<and> btree_ok (prune_store now m)
    \<and> (\<forall>(k, s)\<in>set (prune_store now m). live_at now s \<and> within_caps s)"
proof -
  let ?live = "filter (\<lambda>(k, s). now - SESSION_TTL_SECS \<le> st_updated s) m"
  have eq: "prune_store now m = map (\<lambda>(k, s). (k, cap_session s)) (cap_sessions ?live)"
    by (simp add: prune_store_def Let_def)
  have "btree_ok (cap_sessions ?live)"
    using assms btree_ok_filter btree_ok_subseq cap_sessions_subseq by blast
  then have ok: "btree_ok (prune_store now m)"
    by (simp add: eq btree_ok_def comp_def case_prod_unfold)
  have "set (cap_sessions ?live) \<subseteq> set ?live"
    by (rule subseq_set [OF cap_sessions_subseq])
  then have "\<forall>p\<in>set (cap_sessions ?live). live_at now (snd p)"
    by (intro ballI) (drule (1) subsetD, simp add: live_at_def case_prod_unfold)
  then have "\<forall>(k, s)\<in>set (prune_store now m). live_at now s \<and> within_caps s"
    using within_caps_cap by (fastforce simp: eq)
  then show ?thesis using ok cap_sessions_length [of ?live] by (simp add: eq)
qed

lemma prune_store_bounded_witness:
  "length (prune_store 5 [(''s'', default_session)]) \<le> MAX_SESSIONS"
proof -
  have "btree_ok [(''s'', default_session)]" by (simp add: btree_ok_def)
  from prune_store_bounded [OF this, of 5] show ?thesis by blast
qed

lemma prune_store_id:
  assumes "length m \<le> MAX_SESSIONS" "\<forall>(k, s)\<in>set m. live_at now s \<and> within_caps s"
  shows "prune_store now m = m"
proof -
  have "filter (\<lambda>(k, s). now - SESSION_TTL_SECS \<le> st_updated s) m = m"
    using assms(2) by (auto simp: filter_id_conv live_at_def)
  moreover have "map (\<lambda>(k, s). (k, cap_session s)) m = m"
    using assms(2) by (intro map_idI) (auto simp: within_caps_def)
  ultimately show ?thesis using assms(1) by (simp add: prune_store_def cap_sessions_def)
qed

subsection \<open>The promise of the valve\<close>

text \<open>
  What the guard needs of the valve, whatever keeps its state. \<open>released m s t\<close> says that a
  search for \<open>t\<close> in session \<open>s\<close> is let through; \<open>room n m\<close> that the store can take \<open>n\<close> more
  operations without evicting; \<open>timely e\<close> that the clock readings of one call stay in one TTL
  window. A run is a list of observed questions and attempted searches; \<open>denials\<close> lists the
  pairs it refuses, in order.
\<close>

datatype ('e, 's, 't) valve_op = Ask 'e 's 't | Attempt 'e 's 't

fun op_env :: "('e, 's, 't) valve_op \<Rightarrow> 'e" where
  "op_env (Ask e s t) = e"
| "op_env (Attempt e s t) = e"

fun denials :: "('e \<Rightarrow> 'm \<Rightarrow> 's \<Rightarrow> 't \<Rightarrow> 'm) \<Rightarrow> ('e \<Rightarrow> 'm \<Rightarrow> 's \<Rightarrow> 't \<Rightarrow> bool \<times> 'm)
    \<Rightarrow> ('e, 's, 't) valve_op list \<Rightarrow> 'm \<Rightarrow> ('s \<times> 't) list" where
  "denials ask attempt [] m = []"
| "denials ask attempt (Ask e s t # ops) m = denials ask attempt ops (ask e m s t)"
| "denials ask attempt (Attempt e s t # ops) m =
     (let (released, m') = attempt e m s t
      in (if released then [] else [(s, t)]) @ denials ask attempt ops m')"

locale release_valve =
  fixes ask :: "'e \<Rightarrow> 'm \<Rightarrow> 's \<Rightarrow> 't \<Rightarrow> 'm"
    and attempt :: "'e \<Rightarrow> 'm \<Rightarrow> 's \<Rightarrow> 't \<Rightarrow> bool \<times> 'm"
    and released :: "'m \<Rightarrow> 's \<Rightarrow> 't \<Rightarrow> bool"
    and room :: "nat \<Rightarrow> 'm \<Rightarrow> bool"
    and timely :: "'e \<Rightarrow> bool"
  assumes verdict: "fst (attempt e m s t) = released m s t"
    and attempt_room: "room (Suc n) m \<Longrightarrow> timely e \<Longrightarrow> room n (snd (attempt e m s t))"
    and ask_room: "room (Suc n) m \<Longrightarrow> timely e \<Longrightarrow> room n (ask e m s t)"
    and attempt_released: "room (Suc n) m \<Longrightarrow> timely e
      \<Longrightarrow> released (snd (attempt e m s t)) s' t' \<longleftrightarrow> released m s' t' \<or> (s' = s \<and> t' = t)"
    and ask_released: "room (Suc n) m \<Longrightarrow> timely e
      \<Longrightarrow> released (ask e m s t) s' t' \<longleftrightarrow> released m s' t' \<or> (s' = s \<and> t' = t)"
begin

lemma denials_fresh:
  "room (length ops) m \<Longrightarrow> \<forall>a\<in>set ops. timely (op_env a)
     \<Longrightarrow> distinct (denials ask attempt ops m)
       \<and> (\<forall>(s, t)\<in>set (denials ask attempt ops m). \<not> released m s t)"
proof (induction ops arbitrary: m)
  case (Cons a ops)
  show ?case
  proof (cases a)
    case (Ask e s t)
    with Cons.prems have "room (Suc (length ops)) m" "timely e" by auto
    with Cons Ask ask_room [OF this] show ?thesis
      by (fastforce simp: ask_released)
  next
    case (Attempt e s t)
    with Cons.prems have r: "room (Suc (length ops)) m" "timely e" by auto
    let ?m = "snd (attempt e m s t)"
    from Cons.prems have "\<forall>a\<in>set ops. timely (op_env a)" by simp
    from Cons.IH [OF attempt_room [OF r] this]
    have ih: "distinct (denials ask attempt ops ?m)"
      "\<forall>(s, t)\<in>set (denials ask attempt ops ?m). \<not> released ?m s t" by auto
    have d: "denials ask attempt (a # ops) m
        = (if released m s t then [] else [(s, t)]) @ denials ask attempt ops ?m"
      using verdict [of e m s t] by (simp add: Attempt Let_def case_prod_unfold)
    have "(s, t) \<notin> set (denials ask attempt ops ?m)"
      using ih(2) attempt_released [OF r] by fastforce
    moreover have "\<forall>(s, t)\<in>set (denials ask attempt ops ?m). \<not> released m s t"
      using ih(2) attempt_released [OF r] by fastforce
    ultimately show ?thesis using ih(1) by (auto simp: d)
  qed
qed simp

lemma asked_never_denied:
  assumes "room (Suc (length ops)) m" "timely e" "\<forall>a\<in>set ops. timely (op_env a)"
  shows "(s, t) \<notin> set (denials ask attempt (Ask e s t # ops) m)"
proof -
  have "room (length ops) (ask e m s t)" using assms ask_room by blast
  from denials_fresh [OF this assms(3)] show ?thesis
    using ask_released [OF assms(1,2)] by fastforce
qed

end

definition released_in :: "valve_store \<Rightarrow> string \<Rightarrow> string \<Rightarrow> bool" where
  "released_in m s t = (case btree_get m s of None \<Rightarrow> False
     | Some e \<Rightarrow> t \<in> set (st_queried e) \<or> t \<in> set (st_denied e))"

text \<open>One call of the valve on its parsed state: read, decide, prune. The pair holds the clock
  at the decision and at the save.\<close>

definition ask_call :: "nat \<times> nat \<Rightarrow> valve_store \<Rightarrow> string \<Rightarrow> string \<Rightarrow> valve_store" where
  "ask_call e m s t = prune_store (snd e) (query_store (fst e) m s t)"

definition release_call :: "nat \<times> nat \<Rightarrow> valve_store \<Rightarrow> string \<Rightarrow> string \<Rightarrow> bool \<times> valve_store" where
  "release_call e m s t = (let (r, m') = release_store (fst e) m s t in (r, prune_store (snd e) m'))"

definition valve_room :: "nat \<Rightarrow> nat \<Rightarrow> valve_store \<Rightarrow> bool" where
  "valve_room lo n m \<longleftrightarrow> btree_ok m \<and> length m + n \<le> MAX_SESSIONS
     \<and> (\<forall>(k, s)\<in>set m. lo \<le> st_updated s \<and> length (st_queried s) + n \<le> MAX_TERMS
          \<and> length (st_denied s) + n \<le> MAX_TERMS)"

definition in_window :: "nat \<Rightarrow> nat \<times> nat \<Rightarrow> bool" where
  "in_window lo e \<longleftrightarrow> lo \<le> fst e \<and> snd e \<le> lo + SESSION_TTL_SECS"

lemma released_in_simps:
  "fst (release_store now m s t) = released_in m s t"
  "released_in (snd (release_store now m s t)) s' t' \<longleftrightarrow> released_in m s' t' \<or> (s' = s \<and> t' = t)"
  "released_in (query_store now m s t) s' t' \<longleftrightarrow> released_in m s' t' \<or> (s' = s \<and> t' = t)"
  by (auto simp: released_in_def release_store_def query_store_def session_entry_def
        default_session_def Let_def split: option.splits if_splits)

lemma valve_room_prune:
  assumes "valve_room lo n m" "save \<le> lo + SESSION_TTL_SECS"
  shows "prune_store save m = m"
proof (rule prune_store_id)
  show "length m \<le> MAX_SESSIONS" using assms by (simp add: valve_room_def)
  show "\<forall>(k, s)\<in>set m. live_at save s \<and> within_caps s"
    using assms by (fastforce simp: valve_room_def live_at_def within_caps_def)
qed

lemma session_entry_room:
  assumes "valve_room lo (Suc n) m" "lo \<le> now"
  shows "lo \<le> st_updated (session_entry m s now)
    \<and> length (st_queried (session_entry m s now)) + Suc n \<le> MAX_TERMS
    \<and> length (st_denied (session_entry m s now)) + Suc n \<le> MAX_TERMS"
proof (cases "btree_get m s")
  case None
  with assms show ?thesis
    by (simp add: session_entry_def default_session_def valve_room_def MAX_SESSIONS_def MAX_TERMS_def)
next
  case (Some e)
  then have "(s, e) \<in> set m" by (rule map_of_SomeD)
  with assms Some show ?thesis by (fastforce simp: session_entry_def valve_room_def)
qed

lemma put_room:
  assumes "valve_room lo (Suc n) m" "lo \<le> st_updated e"
    "length (st_queried e) + n \<le> MAX_TERMS" "length (st_denied e) + n \<le> MAX_TERMS"
  shows "valve_room lo n (btree_put s e m)"
proof -
  have "\<forall>(k, s)\<in>set (btree_put s e m). lo \<le> st_updated s
      \<and> length (st_queried s) + n \<le> MAX_TERMS \<and> length (st_denied s) + n \<le> MAX_TERMS"
    using assms btree_put_set [of s e m] by (fastforce simp: valve_room_def)
  then show ?thesis
    using assms btree_put_length [of s e m] btree_put_ok [of m s e] by (simp add: valve_room_def)
qed

lemma release_store_room:
  assumes "valve_room lo (Suc n) m" "lo \<le> now"
  shows "valve_room lo n (snd (release_store now m s t))"
  using session_entry_room [OF assms, of s]
  by (auto simp: release_store_def Let_def intro!: put_room [OF assms(1)])

lemma query_store_room:
  assumes "valve_room lo (Suc n) m" "lo \<le> now"
  shows "valve_room lo n (query_store now m s t)"
  using session_entry_room [OF assms, of s]
  by (auto simp: query_store_def Let_def intro!: put_room [OF assms(1)])

lemma release_call_eq:
  assumes "valve_room lo (Suc n) m" "in_window lo e"
  shows "release_call e m s t = release_store (fst e) m s t"
proof -
  have "prune_store (snd e) (snd (release_store (fst e) m s t)) = snd (release_store (fst e) m s t)"
    using assms valve_room_prune release_store_room by (fastforce simp: in_window_def)
  then show ?thesis by (simp add: release_call_def Let_def case_prod_unfold)
qed

lemma ask_call_eq:
  assumes "valve_room lo (Suc n) m" "in_window lo e"
  shows "ask_call e m s t = query_store (fst e) m s t"
  using assms valve_room_prune query_store_room by (fastforce simp: ask_call_def in_window_def)

interpretation valve: release_valve ask_call release_call released_in "valve_room lo" "in_window lo"
  for lo
proof
  fix e m s t s' t' n
  show "fst (release_call e m s t) = released_in m s t"
    by (simp add: release_call_def Let_def case_prod_unfold released_in_simps)
  assume r: "valve_room lo (Suc n) m" "in_window lo e"
  then have "lo \<le> fst e" by (simp add: in_window_def)
  then show "valve_room lo n (snd (release_call e m s t))" "valve_room lo n (ask_call e m s t)"
    using r by (simp_all add: release_call_eq ask_call_eq release_store_room query_store_room)
  show "released_in (snd (release_call e m s t)) s' t' \<longleftrightarrow> released_in m s' t' \<or> (s' = s \<and> t' = t)"
    "released_in (ask_call e m s t) s' t' \<longleftrightarrow> released_in m s' t' \<or> (s' = s \<and> t' = t)"
    using r by (simp_all add: release_call_eq ask_call_eq released_in_simps)
qed

text \<open>
  C2: The deny is bounded. Over any sequence of observed Travsr questions and attempted searches
  within one TTL window that the caps have room for, each pair of session and term is denied at
  most once, and a pair already asked or denied before the run is never denied.
\<close>

theorem at_most_one_denial:
  assumes "valve_room lo (length ops) m" "\<forall>a\<in>set ops. in_window lo (op_env a)"
  shows "distinct (denials ask_call release_call ops m)
    \<and> (\<forall>(s, t)\<in>set (denials ask_call release_call ops m). \<not> released_in m s t)"
  by (rule valve.denials_fresh [OF assms])

theorem at_most_one_denial_witness:
  "distinct (denials ask_call release_call
     [Attempt (5, 6) ''s'' ''Foo'', Attempt (7, 8) ''s'' ''Foo'', Attempt (9, 9) ''u'' ''Foo''] [])"
proof -
  have "valve_room 5 (Suc (Suc (Suc 0))) []"
    by (simp add: valve_room_def btree_ok_def MAX_SESSIONS_def)
  then show ?thesis
    by (intro conjunct1 [OF at_most_one_denial [of 5]])
       (simp_all add: in_window_def SESSION_TTL_SECS_def)
qed



subsection \<open>The valve on the file\<close>

text \<open>What the valve relies on of \<open>serde_json\<close>: what it printed it parses back.\<close>

definition serde_roundtrip :: "(valve_store \<Rightarrow> string option) \<Rightarrow> (string \<Rightarrow> valve_store option) \<Rightarrow> bool" where
  "serde_roundtrip ser de \<longleftrightarrow> (\<forall>m out. ser m = Some out \<longrightarrow> utf8_ok out \<and> de out = Some m)"

definition fs_ok :: "valve_env \<Rightarrow> bool" where
  "fs_ok env \<longleftrightarrow> metadata_ok env \<and> read_ok env \<and> mkdir_ok env \<and> write_ok env \<and> rename_ok env"

definition fs_readonly :: "valve_env \<Rightarrow> bool" where
  "fs_readonly env \<longleftrightarrow> \<not> (mkdir_ok env \<and> write_ok env \<and> rename_ok env)"

definition clocks :: "valve_env \<Rightarrow> nat \<times> nat" where
  "clocks env = (now_entry env, now_save env)"

lemma release_file:
  assumes "s \<noteq> []" "trim t \<noteq> []"
  shows "release ser de env file (Some s) t =
    (released_in (load_store de env file) s (trim t),
     save_store ser env file (snd (release_store (now_entry env) (load_store de env file) s (trim t))))"
  using assms released_in_simps(1)
  by (simp add: release_def normalise_def Let_def case_prod_unfold)

lemma save_store_ok:
  "fs_ok env \<Longrightarrow> ser (prune_store (now_save env) m) = Some out \<Longrightarrow> save_store ser env file m = Some out"
  by (simp add: save_store_def fs_ok_def)

lemma save_store_readonly: "fs_readonly env \<Longrightarrow> save_store ser env file m = file"
  by (auto simp: save_store_def fs_readonly_def split: option.splits)

lemma load_saved:
  assumes "serde_roundtrip ser de" "fs_ok env" "ser m = Some out" "length out \<le> MAX_FILE_BYTES"
  shows "load_store de env (Some out) = m"
  using assms by (simp add: load_store_def serde_roundtrip_def fs_ok_def)

text \<open>
  The valve's file is the valve's state. When the file system works, the stored file reads
  back as the store, and the printed store fits the size cap, the first \<open>release\<close> answers what
  the store says of the term and the next call for the same term and session is released.
\<close>

lemma release_file_second_call:
  assumes "serde_roundtrip ser de" "fs_ok e1" "fs_ok e2" "s \<noteq> []" "trim t \<noteq> []"
    "valve_room lo 1 (load_store de e1 file)" "in_window lo (clocks e1)"
    "ser (snd (release_call (clocks e1) (load_store de e1 file) s (trim t))) = Some out"
    "length out \<le> MAX_FILE_BYTES"
  shows "fst (release ser de e1 file (Some s) t) = released_in (load_store de e1 file) s (trim t)
    \<and> fst (release ser de e2 (snd (release ser de e1 file (Some s) t)) (Some s) t)"
proof -
  let ?m = "load_store de e1 file"
  let ?m' = "snd (release_call (clocks e1) ?m s (trim t))"
  have "snd (release ser de e1 file (Some s) t) = Some out"
    using assms by (simp add: release_file release_call_def clocks_def Let_def case_prod_unfold save_store_ok)
  moreover have "load_store de e2 (Some out) = ?m'" using assms by (intro load_saved [of ser]) auto
  moreover have "released_in ?m' s (trim t)"
    using assms(6,7) valve.attempt_released [of lo 0] by simp
  ultimately show ?thesis using assms(4,5) by (simp add: release_file)
qed

definition demo_env :: "nat \<Rightarrow> valve_env" where
  "demo_env n = \<lparr>now_entry = n, now_save = n, metadata_ok = True, read_ok = True, mkdir_ok = True,
     write_ok = True, rename_ok = True\<rparr>"

definition demo_store :: valve_store where
  "demo_store = [(''s'', \<lparr>st_updated = 7, st_queried = [], st_denied = [''Foo'']\<rparr>)]"

definition demo_ser :: "valve_store \<Rightarrow> string option" where
  "demo_ser m = (if m = demo_store then Some ''{}'' else None)"

definition demo_de :: "string \<Rightarrow> valve_store option" where
  "demo_de out = (if out = ''{}'' then Some demo_store else None)"

lemma demo_roundtrip: "serde_roundtrip demo_ser demo_de"
  by (simp add: serde_roundtrip_def demo_ser_def demo_de_def)

lemma trim_Foo: "trim '' Foo'' = ''Foo''"
  by (simp add: trim_def is_whitespace_def)

lemma release_file_second_call_witness:
  "fst (release demo_ser demo_de (demo_env 9)
     (snd (release demo_ser demo_de (demo_env 7) None (Some ''s'') '' Foo'')) (Some ''s'') '' Foo'')"
proof -
  have "valve_room 7 1 []"
    by (simp add: valve_room_def btree_ok_def MAX_SESSIONS_def)
  moreover have "load_store demo_de (demo_env 7) None = []" by (simp add: load_store_def)
  moreover have "release_call (clocks (demo_env 7)) [] ''s'' ''Foo'' = (False, demo_store)"
    using calculation(1)
    by (subst release_call_eq [of 7 0])
       (simp_all add: release_store_def session_entry_def default_session_def demo_store_def
         clocks_def demo_env_def in_window_def)
  ultimately show ?thesis
    by (intro conjunct2 [OF release_file_second_call [where lo = 7 and out = "''{}''"]])
       (simp_all add: demo_roundtrip trim_Foo fs_ok_def demo_env_def clocks_def in_window_def
         demo_ser_def MAX_FILE_BYTES_def)
qed

fun release_run :: "(valve_store \<Rightarrow> string option) \<Rightarrow> (string \<Rightarrow> valve_store option) \<Rightarrow> valve_env list
    \<Rightarrow> string option \<Rightarrow> string \<Rightarrow> string \<Rightarrow> bool list" where
  "release_run ser de [] file s t = []"
| "release_run ser de (env # envs) file s t =
     (let (r, file') = release ser de env file (Some s) t in r # release_run ser de envs file' s t)"

text \<open>
  Where the state cannot be written the deny is not bounded. With no state file and a
  directory that refuses the write, every call for the same term and session is denied, however
  often it is made: the backstop of the second identical search needs the state it could not save.
\<close>

lemma readonly_denies_forever:
  assumes "\<forall>env\<in>set envs. fs_readonly env" "s \<noteq> []" "trim t \<noteq> []"
  shows "release_run ser de envs None s t = replicate (length envs) False"
  using assms(1)
  by (induction envs)
     (simp_all add: release_file [OF assms(2,3)] save_store_readonly load_store_def released_in_def)

lemma readonly_denies_forever_witness:
  "release_run demo_ser demo_de (replicate 3 ((demo_env 7)\<lparr>write_ok := False\<rparr>)) None ''s'' '' Foo''
     = [False, False, False]"
  by (subst readonly_denies_forever)
     (simp_all add: fs_readonly_def trim_Foo eval_nat_numeral)

subsection \<open>Which session the cap evicts\<close>

lemma sort_nth_least:
  fixes xs :: "nat list"
  assumes "\<forall>x\<in>set xs. T \<le> x" "n < length (filter (\<lambda>x. x = T) xs)"
  shows "sort xs ! n = T"
proof (rule ccontr)
  assume ne: "sort xs ! n \<noteq> T"
  have n: "n < length (sort xs)" using assms(2) length_filter_le [of _ xs] by (simp add: less_le_trans)
  then have "sort xs ! n \<in> set xs" by (metis nth_mem set_sort)
  with assms(1) ne have "T < sort xs ! n" by fastforce
  moreover have "sort xs ! n \<le> sort xs ! (n + i)" if "n + i < length xs" for i
    using sorted_nth_mono [OF sorted_sort [of xs], of n "n + i"] that by simp
  ultimately have "\<forall>x\<in>set (drop n (sort xs)). T < x"
    using n by (auto simp: in_set_conv_nth) (metis add.commute less_diff_conv less_le_trans)
  then have "filter (\<lambda>x. x = T) (drop n (sort xs)) = []" by (auto simp: filter_empty_conv)
  then have "filter (\<lambda>x. x = T) (sort xs) = filter (\<lambda>x. x = T) (take n (sort xs))"
    by (metis append_Nil2 append_take_drop_id filter_append)
  then have "length (filter (\<lambda>x. x = T) (sort xs)) \<le> n"
    using length_filter_le [of "\<lambda>x. x = T" "take n (sort xs)"] by simp
  moreover have "length (filter (\<lambda>x. x = T) (sort xs)) = length (filter (\<lambda>x. x = T) xs)"
    by (metis filter_sort length_sort)
  ultimately show False using assms(2) by simp
qed

text \<open>A store at its cap whose two oldest sessions carry the same second \<open>T\<close>.\<close>

definition full_with_tie :: "nat \<Rightarrow> valve_store \<Rightarrow> bool" where
  "full_with_tie T m \<longleftrightarrow> length m = MAX_SESSIONS \<and> 2 \<le> length (filter (\<lambda>(k, s). st_updated s = T) m)
     \<and> (\<forall>(k, s)\<in>set m. T \<le> st_updated s \<and> within_caps s)"

lemma cap_sessions_drops_last:
  assumes "full_with_tie T m" "T \<le> st_updated e"
  shows "cap_sessions (m @ [(s, e)]) = m"
proof -
  let ?st = "map (\<lambda>(k, s). st_updated s) (m @ [(s, e)])"
  have len: "length m = MAX_SESSIONS" using assms(1) by (simp add: full_with_tie_def)
  have "length (filter (\<lambda>x. x = T) (map (\<lambda>(k, s). st_updated s) m))
      = length (filter (\<lambda>(k, s). st_updated s = T) m)"
    by (simp add: filter_map comp_def case_prod_unfold)
  then have "Suc 0 < length (filter (\<lambda>x. x = T) ?st)"
    using assms(1) by (simp add: full_with_tie_def)
  moreover have "\<forall>x\<in>set ?st. T \<le> x"
    using assms by (auto simp: full_with_tie_def)
  ultimately have "sort ?st ! Suc 0 = T" by (intro sort_nth_least)
  then have "sort ?st ! (length (sort ?st) - MAX_SESSIONS) = T" using len by simp
  moreover have "retain_cap T 0 (m @ [(s, e)]) = m"
    using retain_cap_prefix [of m T 0 "[(s, e)]"] assms(1) len
    by (simp add: full_with_tie_def case_prod_unfold retain_cap_full del: retain_cap.simps(2))
  ultimately show ?thesis using len by (simp only: cap_sessions_def Let_def) simp
qed

lemma full_store_forgets_new:
  assumes "full_with_tie T m" "\<forall>k\<in>set (map fst m). k < s" "T \<le> fst e"
    "snd e \<le> T + SESSION_TTL_SECS"
  shows "release_call e m s t = (False, m)"
proof -
  have none: "btree_get m s = None" using assms(2) by (auto simp: map_of_eq_None_iff)
  define x where "x = default_session\<lparr>st_updated := fst e, st_denied := [t]\<rparr>"
  have put: "release_store (fst e) m s t = (False, m @ [(s, x)])"
    using none btree_put_last [OF assms(2), of x]
    by (simp add: release_store_def session_entry_def default_session_def x_def)
  have "\<forall>(k, s)\<in>set (m @ [(s, x)]). live_at (snd e) s"
    using assms by (fastforce simp: full_with_tie_def live_at_def x_def)
  then have "filter (\<lambda>(k, s). snd e - SESSION_TTL_SECS \<le> st_updated s) (m @ [(s, x)]) = m @ [(s, x)]"
    by (auto simp: filter_id_conv live_at_def)
  moreover have "cap_sessions (m @ [(s, x)]) = m"
    using assms by (intro cap_sessions_drops_last) (auto simp: x_def)
  moreover have "map (\<lambda>(k, s). (k, cap_session s)) m = m"
    using assms(1) by (intro map_idI) (auto simp: full_with_tie_def within_caps_def)
  ultimately have "prune_store (snd e) (m @ [(s, x)]) = m" by (simp only: prune_store_def Let_def)
  then show ?thesis by (simp add: release_call_def put)
qed

text \<open>
  The session cap can evict the newest session, and then the deny is not bounded. When the
  store holds its 64 sessions and the two oldest carry the same second, a new session whose id
  sorts after theirs is dropped by the very save that records its first denial, and every later
  search for the same term is denied again.
\<close>

lemma new_session_denied_forever:
  assumes "full_with_tie T m" "\<forall>k\<in>set (map fst m). k < s"
    "\<forall>e\<in>set es. T \<le> fst e \<and> snd e \<le> T + SESSION_TTL_SECS"
  shows "denials ask_call release_call (map (\<lambda>e. Attempt e s t) es) m = replicate (length es) (s, t)"
  using assms(3) by (induction es) (simp_all add: full_store_forgets_new [OF assms(1,2)])

lemma replicate_a_less_b: "replicate n CHR ''a'' < ''b''"
  by (cases n) (simp_all add: less_char_def)

lemma full_store_exists:
  "full_with_tie 0 (map (\<lambda>n. (replicate n CHR ''a'', default_session)) [0..<64])"
proof -
  have "filter (\<lambda>(k, s). st_updated s = 0) (map (\<lambda>n. (replicate n CHR ''a'', default_session)) [0..<64])
      = map (\<lambda>n. (replicate n CHR ''a'', default_session)) [0..<64]"
    by (simp add: filter_id_conv default_session_def del: upt_conv_Cons)
  then show ?thesis
    by (simp add: full_with_tie_def within_caps_def MAX_SESSIONS_def default_session_def
        del: upt_conv_Cons upt_rec_numeral)
qed

lemma new_session_denied_forever_witness:
  "denials ask_call release_call (map (\<lambda>e. Attempt e ''b'' ''Foo'') [(5, 6), (7, 8), (9, 9)])
     (map (\<lambda>n. (replicate n CHR ''a'', default_session)) [0..<64])
   = [(''b'', ''Foo''), (''b'', ''Foo''), (''b'', ''Foo'')]"
proof -
  have keys: "\<forall>k\<in>set (map fst (map (\<lambda>n. (replicate n CHR ''a'', default_session)) [0..<64])). k < ''b''"
    by (simp add: replicate_a_less_b del: upt_conv_Cons upt_rec_numeral)
  have "\<forall>e\<in>set [(5::nat, 6::nat), (7, 8), (9, 9)]. 0 \<le> fst e \<and> snd e \<le> 0 + SESSION_TTL_SECS"
    by (simp add: SESSION_TTL_SECS_def)
  from new_session_denied_forever [OF full_store_exists keys this] show ?thesis
    by (simp only: list.size replicate_Suc replicate_0 add_0_right add_Suc_right)
qed

end
