(* ===== verification/Guard_Payload.thy ===== *)
theory Guard_Payload
  imports Rust_Prelude
begin

section \<open>The hook's wire types and modes\<close>

text \<open>
  \<open>crates/travsr-cli/src/guard/payload.rs\<close> and the modes of \<open>guard/mod.rs\<close>. The parser and the
  printer of \<open>serde_json\<close> are parameters: \<open>parse_hook\<close> from text to a \<open>hook_input\<close>, \<open>print_json\<close>
  from a \<open>json\<close> value to text. What the guard writes is built here as a value, so what it says of
  permissions can be read off.
\<close>

record tool_input =
  ti_command :: "string option"
  ti_pattern :: "string option"
  ti_glob :: "string option"
  ti_path :: "string option"
  ti_file_path :: "string option"
  ti_offset :: "nat option"
  ti_limit :: "nat option"
  ti_symbol :: "string option"
  ti_query :: "string option"
  ti_name :: "string option"
  ti_file :: "string option"

record hook_input =
  hi_session_id :: "string option"
  hi_cwd :: "string option"
  hi_hook_event_name :: "string option"
  hi_tool_name :: "string option"
  hi_tool_input :: "tool_input option"

datatype hook_output = Neutral | Context string | Deny string

definition context_output :: "string \<Rightarrow> hook_output" where
  "context_output t = Context t"

definition deny_output :: "string \<Rightarrow> hook_output" where
  "deny_output t = Deny t"

definition blocks :: "hook_output \<Rightarrow> bool" where
  "blocks out \<longleftrightarrow> (case out of Deny _ \<Rightarrow> True | _ \<Rightarrow> False)"

fun render_value :: "hook_output \<Rightarrow> json option" where
  "render_value Neutral = None"
| "render_value (Context t) = Some (JObject [(''hookSpecificOutput'',
     JObject [(''hookEventName'', JString ''PreToolUse''), (''additionalContext'', JString t)])])"
| "render_value (Deny r) = Some (JObject [(''hookSpecificOutput'',
     JObject [(''hookEventName'', JString ''PreToolUse''), (''permissionDecision'', JString ''deny''),
       (''permissionDecisionReason'', JString r)])])"

definition render :: "(json \<Rightarrow> string) \<Rightarrow> hook_output \<Rightarrow> string" where
  "render print_json out = (case render_value out of None \<Rightarrow> [] | Some j \<Rightarrow> print_json j)"

text \<open>The values a document holds under a key, at any depth.\<close>

fun json_field :: "string \<Rightarrow> json \<Rightarrow> json list" where
  "json_field k (JObject kvs) =
     concat (map (\<lambda>(k', v). (if k' = k then [v] else []) @ json_field k v) kvs)"
| "json_field k (JArray vs) = concat (map (json_field k) vs)"
| "json_field k v = []"

subsection \<open>Modes and the deadline\<close>

datatype guard_mode = Mode_Off | Mode_Advisory | Mode_Strict

fun mode_as_str :: "guard_mode \<Rightarrow> string" where
  "mode_as_str Mode_Off = ''off''"
| "mode_as_str Mode_Advisory = ''advisory''"
| "mode_as_str Mode_Strict = ''strict''"

definition mode_parse :: "string \<Rightarrow> guard_mode" where
  "mode_parse raw =
     (let v = to_ascii_lowercase (trim raw)
      in if v = ''advisory'' then Mode_Advisory else if v = ''strict'' then Mode_Strict else Mode_Off)"

text \<open>\<open>resolve_mode\<close>: \<open>effective\<close> is what the configuration layers give for \<open>guard.mode\<close>.\<close>

definition resolve_mode :: "string option \<Rightarrow> guard_mode" where
  "resolve_mode effective = (case effective of Some v \<Rightarrow> mode_parse v | None \<Rightarrow> Mode_Off)"

definition GUARD_DEADLINE :: nat where "GUARD_DEADLINE = 200"
definition DEADLINE_CEILING :: nat where "DEADLINE_CEILING = 60 * 1000"
definition MAX_PAYLOAD_BYTES :: nat where "MAX_PAYLOAD_BYTES = 1024 * 1024"

definition decide_deadline :: "string option \<Rightarrow> nat" where
  "decide_deadline raw =
     (case raw of
        None \<Rightarrow> GUARD_DEADLINE
      | Some v \<Rightarrow> (case parse_uint u64_max (trim v) of
          None \<Rightarrow> GUARD_DEADLINE
        | Some ms \<Rightarrow> min (max ms 1) DEADLINE_CEILING))"

text \<open>\<open>read_payload\<close>: at most the first \<open>MAX_PAYLOAD_BYTES\<close> of the input reach the parser.\<close>

definition read_payload :: "(string \<Rightarrow> hook_input option) \<Rightarrow> string option \<Rightarrow> hook_input option" where
  "read_payload parse_hook stdin =
     (case stdin of
        None \<Rightarrow> None
      | Some bytes \<Rightarrow>
          (let taken = take MAX_PAYLOAD_BYTES bytes
           in if utf8_ok taken then parse_hook taken else None))"

subsection \<open>Properties\<close>

text \<open>
  The guard never auto-approves. Whatever it renders, a \<open>permissionDecision\<close> occurs in the
  document only when the output is a denial, its value is then \<open>deny\<close>, and the neutral output
  writes nothing at all.
\<close>

lemma render_never_allows:
  "render print_json Neutral = []
   \<and> (\<forall>j. render_value out = Some j \<longrightarrow>
        json_field ''permissionDecision'' j = (if blocks out then [JString ''deny''] else []))"
  by (cases out) (simp_all add: render_def blocks_def)

lemma render_never_allows_witness:
  "render_value (Context ''t'') = Some (JObject [(''hookSpecificOutput'',
     JObject [(''hookEventName'', JString ''PreToolUse''), (''additionalContext'', JString ''t'')])])
   \<and> json_field ''permissionDecision'' (the (render_value (Context ''t''))) = []"
  using render_never_allows [of "\<lambda>_. []" "Context ''t''"] by (simp add: blocks_def)

lemma trim_graphic:
  assumes "utf8_ok s" "s \<noteq> []" "\<not> is_whitespace (hd (chars s))" "\<not> is_whitespace (last (chars s))"
  shows "trim s = s"
proof -
  have ne: "chars s \<noteq> []" using assms(2) by simp
  have "dropWhile is_whitespace (chars s) = chars s"
    using assms(3) ne by (cases "chars s") auto
  moreover have "dropWhile is_whitespace (rev (chars s)) = rev (chars s)"
    using assms(4) ne by (cases "chars s" rule: rev_cases) auto
  ultimately show ?thesis by (simp add: trim_def)
qed

text \<open>
  The modes round-trip through their stored spelling, in any case and with surrounding blanks,
  and a value that is none of the three spellings switches the guard off.
\<close>

lemma mode_roundtrip:
  "mode_parse (mode_as_str m) = m
   \<and> (\<forall>raw. to_ascii_lowercase (trim raw) \<notin> {mode_as_str Mode_Advisory, mode_as_str Mode_Strict}
        \<longrightarrow> mode_parse raw = Mode_Off)
   \<and> (\<forall>raw raw'. eq_ignore_ascii_case (trim raw) (trim raw') \<longrightarrow> mode_parse raw = mode_parse raw')"
proof -
  have "mode_parse (mode_as_str m) = m"
    by (cases m) (simp_all add: mode_parse_def trim_graphic is_whitespace_def ascii_lower_def
        is_ascii_upper_def)
  then show ?thesis by (auto simp: mode_parse_def Let_def eq_ignore_ascii_case_def)
qed

lemma mode_roundtrip_witness:
  "mode_parse ''on'' = Mode_Off \<and> mode_parse ''STRICT'' = Mode_Strict"
proof -
  have on: "to_ascii_lowercase (trim ''on'') = ''on''" "to_ascii_lowercase (trim ''STRICT'') = ''strict''"
    "to_ascii_lowercase (trim ''strict'') = ''strict''"
    by (simp_all add: trim_graphic is_whitespace_def ascii_lower_def is_ascii_upper_def char_of_def bit_Suc_0_iff)
  have "mode_parse ''on'' = Mode_Off"
    using mode_roundtrip [of Mode_Strict] on(1) by simp
  moreover have "eq_ignore_ascii_case (trim ''STRICT'') (trim ''strict'')"
    by (simp only: eq_ignore_ascii_case_def on)
  then have "mode_parse ''STRICT'' = mode_parse ''strict''"
    using mode_roundtrip [of Mode_Strict] by blast
  moreover have "mode_parse ''strict'' = Mode_Strict"
    using mode_roundtrip [of Mode_Strict] by simp
  ultimately show ?thesis by simp
qed

text \<open>
  C19: There is always a deadline. Whatever the override variable holds, the wait is between one
  millisecond and one minute; a number in that range is taken as it is, and an unreadable value
  leaves the documented 200 ms.
\<close>

lemma deadline_bounded:
  "1 \<le> decide_deadline raw \<and> decide_deadline raw \<le> DEADLINE_CEILING
   \<and> (parse_uint u64_max (trim v) = None \<longrightarrow> decide_deadline (Some v) = GUARD_DEADLINE)
   \<and> (\<forall>ms. parse_uint u64_max (trim v) = Some ms \<and> 1 \<le> ms \<and> ms \<le> DEADLINE_CEILING
        \<longrightarrow> decide_deadline (Some v) = ms)"
  by (auto simp: decide_deadline_def GUARD_DEADLINE_def DEADLINE_CEILING_def split: option.splits)

lemma deadline_bounded_witness:
  "decide_deadline (Some ''0'') = 1 \<and> decide_deadline (Some '''') = GUARD_DEADLINE
   \<and> decide_deadline (Some ''25'') = 25"
proof -
  have p: "parse_uint u64_max (trim '''') = None" "parse_uint u64_max (trim ''25'') = Some 25"
    "parse_uint u64_max (trim ''0'') = Some 0"
    by (simp_all add: parse_uint_def trim_def is_whitespace_def is_ascii_digit_def u64_max_def)
  then have "decide_deadline (Some '''') = GUARD_DEADLINE" "decide_deadline (Some ''25'') = 25"
    using deadline_bounded [of None "''''"] deadline_bounded [of None "''25''"]
    by (simp_all add: DEADLINE_CEILING_def)
  then show ?thesis using p(3) by (simp add: decide_deadline_def DEADLINE_CEILING_def)
qed

end
