(* ===== verification/Rust_Path.thy ===== *)
theory Rust_Path
  imports Rust_Prelude
begin

section \<open>Paths and files\<close>

text \<open>
  What the program uses of \<open>std::path\<close> and \<open>std::fs\<close>, with the rules of Unix: a path is its
  bytes, \<open>components\<close> reads it the way \<open>Path::components\<close> does (a leading \<open>.\<close> is kept, any other
  \<open>.\<close> and every empty piece is dropped), \<open>path_join\<close> is \<open>PathBuf::push\<close>, \<open>comp_pop\<close> is
  \<open>PathBuf::pop\<close> on a component list. The file system one call meets is a function from path
  strings to nodes.
\<close>

datatype path_comp = RootDir | CurDir | ParentDir | Normal string

definition is_absolute :: "string \<Rightarrow> bool" where
  "is_absolute p \<longleftrightarrow> starts_with p ''/''"

definition piece_comp :: "string \<Rightarrow> path_comp option" where
  "piece_comp p = (if p = '''' \<or> p = ''.'' then None else if p = ''..'' then Some ParentDir
     else Some (Normal p))"

definition path_pieces :: "string \<Rightarrow> string list" where
  "path_pieces p = split_on (\<lambda>c. c = CHR ''/'') p"

definition components :: "string \<Rightarrow> path_comp list" where
  "components p = (if is_absolute p then [RootDir]
       else if hd (path_pieces p) = ''.'' then [CurDir] else [])
     @ List.map_filter piece_comp (path_pieces p)"

definition path_join :: "string \<Rightarrow> string \<Rightarrow> string" where
  "path_join base p = (if is_absolute p then p
     else if base = [] \<or> last base = CHR ''/'' then base @ p else base @ ''/'' @ p)"

fun comp_text :: "path_comp \<Rightarrow> string" where
  "comp_text RootDir = ''/''"
| "comp_text CurDir = ''.''"
| "comp_text ParentDir = ''..''"
| "comp_text (Normal s) = s"

text \<open>The bytes of a path built by pushing components.\<close>

definition comps_text :: "path_comp list \<Rightarrow> string" where
  "comps_text cs = fold (\<lambda>c p. path_join p (comp_text c)) cs []"

definition comp_pop :: "path_comp list \<Rightarrow> path_comp list" where
  "comp_pop out = (if out = [] \<or> last out = RootDir then out else butlast out)"

text \<open>\<open>Path::strip_prefix\<close> compares components.\<close>

definition comp_strip_prefix :: "path_comp list \<Rightarrow> path_comp list \<Rightarrow> path_comp list option" where
  "comp_strip_prefix p base = strip_prefix p base"

datatype fs_node = Fs_File "string option" | Fs_Dir

type_synonym file_system = "string \<Rightarrow> fs_node option"

text \<open>\<open>Fs_File None\<close> is a file whose read fails.\<close>

definition fs_exists :: "file_system \<Rightarrow> string \<Rightarrow> bool" where
  "fs_exists fs p \<longleftrightarrow> fs p \<noteq> None"

definition fs_is_file :: "file_system \<Rightarrow> string \<Rightarrow> bool" where
  "fs_is_file fs p \<longleftrightarrow> (case fs p of Some (Fs_File _) \<Rightarrow> True | _ \<Rightarrow> False)"

definition fs_is_dir :: "file_system \<Rightarrow> string \<Rightarrow> bool" where
  "fs_is_dir fs p \<longleftrightarrow> fs p = Some Fs_Dir"

definition read_to_string :: "file_system \<Rightarrow> string \<Rightarrow> string option" where
  "read_to_string fs p = (case fs p of
     Some (Fs_File (Some text)) \<Rightarrow> if utf8_ok text then Some text else None | _ \<Rightarrow> None)"

text \<open>\<open>str::lines\<close>: cut at line feeds, drop one carriage return before each, no empty last line.\<close>

definition drop_cr :: "string \<Rightarrow> string" where
  "drop_cr l = (if l \<noteq> [] \<and> last l = carriage then butlast l else l)"

definition lines :: "string \<Rightarrow> string list" where
  "lines s = (let ls = split_on (\<lambda>c. c = newline) s
     in map drop_cr (if last ls = [] then butlast ls else ls))"

text \<open>\<open>rsplit(sep).next()\<close>: what follows the last occurrence of a separator.\<close>

fun after_last :: "'a list \<Rightarrow> 'a list \<Rightarrow> 'a list option" where
  "after_last sep [] = None"
| "after_last sep (c # s) = (case after_last sep s of Some t \<Rightarrow> Some t
     | None \<Rightarrow> if starts_with (c # s) sep then Some (drop (length sep) (c # s)) else None)"

definition last_segment :: "'a list \<Rightarrow> 'a list \<Rightarrow> 'a list" where
  "last_segment sep s = (case after_last sep s of Some t \<Rightarrow> t | None \<Rightarrow> s)"

text \<open>Both separators: the slash and the backslash.\<close>

definition is_sep :: "char \<Rightarrow> bool" where
  "is_sep c \<longleftrightarrow> c = CHR ''/'' \<or> c = backslash"

subsection \<open>Lexical normalisation\<close>

text \<open>\<open>lexical\<close> of \<open>crates/travsr-cli/src/guard/policy.rs\<close>: fold \<open>.\<close> and \<open>..\<close> away.\<close>

definition lexical_step :: "path_comp \<Rightarrow> path_comp list \<Rightarrow> path_comp list" where
  "lexical_step c out = (case c of ParentDir \<Rightarrow> comp_pop out | CurDir \<Rightarrow> out | _ \<Rightarrow> out @ [c])"

definition lexical :: "path_comp list \<Rightarrow> path_comp list" where
  "lexical cs = fold lexical_step cs []"

definition plain_comp :: "path_comp \<Rightarrow> bool" where
  "plain_comp c \<longleftrightarrow> c \<noteq> CurDir \<and> c \<noteq> ParentDir"

lemma lexical_append: "lexical (a @ b) = fold lexical_step b (lexical a)"
  by (simp add: lexical_def)

lemma fold_lexical_plain:
  "\<forall>c\<in>set out. plain_comp c \<Longrightarrow> \<forall>c\<in>set (fold lexical_step cs out). plain_comp c"
proof (induction cs arbitrary: out)
  case (Cons c cs)
  have "\<forall>x\<in>set (lexical_step c out). plain_comp x"
    using Cons.prems
    by (cases c) (auto simp: lexical_step_def comp_pop_def plain_comp_def dest: in_set_butlastD)
  with Cons.IH show ?case by simp
qed simp

lemma lexical_plain: "c \<in> set (lexical cs) \<Longrightarrow> plain_comp c"
  using fold_lexical_plain [of "[]" cs] by (simp add: lexical_def)

lemma fold_lexical_id: "\<forall>c\<in>set cs. plain_comp c \<Longrightarrow> fold lexical_step cs out = out @ cs"
  by (induction cs arbitrary: out)
     (auto simp: lexical_step_def plain_comp_def split: path_comp.split)

lemma lexical_id: "\<forall>c\<in>set cs. plain_comp c \<Longrightarrow> lexical cs = cs"
  by (simp add: lexical_def fold_lexical_id)

lemma piece_comp_plain: "piece_comp p \<noteq> Some RootDir \<and> piece_comp p \<noteq> Some CurDir"
  by (simp add: piece_comp_def)

lemma components_no_root: "\<not> is_absolute p \<Longrightarrow> RootDir \<notin> set (components p)"
  using piece_comp_plain by (auto simp: components_def List.map_filter_def)

text \<open>A path of ordinary pieces reads as those pieces.\<close>

definition plain_piece :: "string \<Rightarrow> bool" where
  "plain_piece p \<longleftrightarrow> p \<noteq> '''' \<and> p \<noteq> ''.'' \<and> p \<noteq> ''..'' \<and> CHR ''/'' \<notin> set p"

lemma split_on_Cons_no_sep: "\<forall>c\<in>set w. \<not> P c \<Longrightarrow> split_on P w = [w]"
  by (induction w) auto

lemma split_on_eq_no_sep: "d \<notin> set w \<Longrightarrow> split_on (\<lambda>c. c = d) w = [w]"
  by (induction w) auto

lemma split_on_sep: "\<forall>c\<in>set w. \<not> P c \<Longrightarrow> P d \<Longrightarrow> split_on P (w @ d # s) = w # split_on P s"
  by (induction w) auto

lemma split_on_join:
  assumes "ws \<noteq> []" "\<forall>w\<in>set ws. d \<notin> set w"
  shows "split_on (\<lambda>c. c = d) (join_with [d] ws) = ws"
  using assms
proof (induction "[d]" ws rule: join_with.induct)
  case (2 w)
  then show ?case by (simp add: split_on_eq_no_sep)
next
  case (3 w v ws)
  then have "\<forall>c\<in>set w. \<not> c = d" by auto
  from split_on_sep [of w "\<lambda>c. c = d", OF this refl] 3 show ?case by simp
qed simp

lemma path_pieces_join: "ws \<noteq> [] \<Longrightarrow> \<forall>w\<in>set ws. plain_piece w \<Longrightarrow> path_pieces (join_with ''/'' ws) = ws"
  by (simp add: path_pieces_def split_on_join plain_piece_def)

lemma map_filter_pieces: "\<forall>w\<in>set ws. plain_piece w \<Longrightarrow> List.map_filter piece_comp ws = map Normal ws"
  by (induction ws) (auto simp: piece_comp_def plain_piece_def)

lemma join_plain_relative: "ws \<noteq> [] \<Longrightarrow> \<forall>w\<in>set ws. plain_piece w \<Longrightarrow> \<not> is_absolute (join_with ''/'' ws)"
proof (induction "''/''" ws rule: join_with.induct)
  case (2 w)
  then show ?case by (cases w) (auto simp: is_absolute_def plain_piece_def)
next
  case (3 w v ws)
  then show ?case by (cases w) (auto simp: is_absolute_def plain_piece_def)
qed simp

lemma components_join:
  assumes "ws \<noteq> []" "\<forall>w\<in>set ws. plain_piece w"
  shows "components (join_with ''/'' ws) = map Normal ws"
proof -
  have "hd ws \<noteq> ''.''" using assms by (cases ws) (auto simp: plain_piece_def)
  then show ?thesis
    using assms join_plain_relative [OF assms]
    by (simp add: components_def path_pieces_join map_filter_pieces)
qed

lemma components_abs_join:
  assumes "\<forall>w\<in>set ws. plain_piece w"
  shows "components (''/'' @ join_with ''/'' ws) = RootDir # map Normal ws"
proof (cases "ws = []")
  case True
  then show ?thesis
    by (simp add: components_def is_absolute_def path_pieces_def piece_comp_def)
next
  case False
  have "path_pieces (''/'' @ join_with ''/'' ws) = '''' # path_pieces (join_with ''/'' ws)"
    by (simp add: path_pieces_def)
  with False assms show ?thesis
    by (simp add: components_def is_absolute_def path_pieces_join map_filter_pieces piece_comp_def)
qed

lemma comps_text_Normal:
  assumes "ws \<noteq> []" "\<forall>w\<in>set ws. plain_piece w"
  shows "comps_text (map Normal ws) = join_with ''/'' ws"
proof -
  have rel: "\<not> is_absolute w" "w \<noteq> []" "last w \<noteq> CHR ''/''" if "plain_piece w" for w
    using that last_in_set [of w] by (cases w; auto simp: is_absolute_def plain_piece_def)+
  have step: "fold (\<lambda>c p. path_join p (comp_text c)) (map Normal us) p = p @ concat (map (\<lambda>w. ''/'' @ w) us)"
    if "p \<noteq> []" "last p \<noteq> CHR ''/''" "\<forall>w\<in>set us. plain_piece w" for us p
    using that by (induction us arbitrary: p) (auto simp: path_join_def rel)
  have join: "join_with ''/'' (w # us) = w @ concat (map (\<lambda>w. ''/'' @ w) us)" for w us
    by (induction us arbitrary: w) auto
  obtain w us where ws: "ws = w # us" using assms(1) by (cases ws) auto
  have "comps_text (map Normal ws) = fold (\<lambda>c p. path_join p (comp_text c)) (map Normal us) w"
    using assms(2) rel [of w] by (simp add: comps_text_def ws path_join_def)
  also have "\<dots> = join_with ''/'' ws"
    using assms(2) rel [of w] step [of w us] by (simp add: ws join)
  finally show ?thesis .
qed

subsection \<open>Joining a relative path\<close>

lemma split_on_append_sep: "P d \<Longrightarrow> split_on P (x @ d # y) = split_on P x @ split_on P y"
proof (induction x)
  case (Cons c x)
  then show ?case by (cases "split_on P x") auto
qed simp

lemma split_on_mem:
  "w \<in> set (split_on P s) \<Longrightarrow> \<exists>a b. s = a @ w @ b \<and> (a = [] \<or> P (last a)) \<and> (b = [] \<or> P (hd b))"
proof (induction "length s" arbitrary: s rule: less_induct)
  case less
  show ?case
  proof (cases "\<forall>c\<in>set s. \<not> P c")
    case True
    with less.prems show ?thesis by (intro exI [of _ "[]"]) (simp add: split_on_Cons_no_sep)
  next
    case False
    then obtain u d y where s: "s = u @ d # y" "P d" "\<forall>c\<in>set u. \<not> P c"
      using split_list_first_prop [of s P] by blast
    then have sp: "split_on P s = u # split_on P y" by (simp add: split_on_sep)
    show ?thesis
    proof (cases "w = u")
      case True
      with s show ?thesis by (intro exI [of _ "[]"] exI [of _ "d # y"]) simp
    next
      case False
      with less.prems sp have "w \<in> set (split_on P y)" by simp
      moreover have "length y < length s" using s by simp
      ultimately obtain a b where ab: "y = a @ w @ b" "a = [] \<or> P (last a)" "b = [] \<or> P (hd b)"
        using less.hyps by blast
      with s show ?thesis by (intro exI [of _ "u @ d # a"] exI [of _ b]) auto
    qed
  qed
qed

lemma map_filter_append: "List.map_filter f (x @ y) = List.map_filter f x @ List.map_filter f y"
  by (simp add: List.map_filter_def)

lemma components_path_join:
  assumes "is_absolute root" "\<not> is_absolute p"
  shows "components (path_join root p) = components root @ List.map_filter piece_comp (path_pieces p)"
proof -
  have ne: "root \<noteq> []" using assms(1) by (auto simp: is_absolute_def)
  have abs: "is_absolute (path_join root p)"
    using assms ne by (cases root) (auto simp: path_join_def is_absolute_def)
  have empty: "piece_comp [] = None" by (simp add: piece_comp_def)
  have "List.map_filter piece_comp (path_pieces (path_join root p))
      = List.map_filter piece_comp (path_pieces root) @ List.map_filter piece_comp (path_pieces p)"
  proof (cases "last root = CHR ''/''")
    case True
    then obtain r where r: "root = r @ [CHR ''/'']" using ne by (metis append_butlast_last_id)
    then show ?thesis
      using assms ne True split_on_append_sep [of "\<lambda>c. c = CHR ''/''" "CHR ''/''" r p]
        split_on_append_sep [of "\<lambda>c. c = CHR ''/''" "CHR ''/''" r "[]"]
      by (simp add: path_join_def path_pieces_def map_filter_append empty)
  next
    case False
    then show ?thesis
      using assms ne split_on_append_sep [of "\<lambda>c. c = CHR ''/''" "CHR ''/''" root p]
      by (simp add: path_join_def path_pieces_def map_filter_append)
  qed
  with abs assms(1) show ?thesis by (simp add: components_def)
qed

lemma lexical_path_join:
  assumes "is_absolute root" "\<not> is_absolute p" "''..'' \<notin> set (path_pieces p)"
  shows "\<exists>cs. lexical (components (path_join root p)) = lexical (components root) @ cs"
proof -
  have "\<forall>c\<in>set (List.map_filter piece_comp (path_pieces p)). plain_comp c"
    using assms(3) by (auto simp: List.map_filter_def piece_comp_def plain_comp_def split: if_splits)
  then show ?thesis
    using assms by (simp add: components_path_join lexical_append fold_lexical_id)
qed

end
