(* ===== verification/Guard_Policy.thy ===== *)
theory Guard_Policy
  imports Guard_Shell Guard_Session Guard_Payload Rust_Path
begin

section \<open>What the guard decides\<close>

text \<open>
  \<open>crates/travsr-cli/src/guard/policy.rs\<close> and \<open>run\<close> of \<open>guard/mod.rs\<close>. The graph store the guard
  reads is the record \<open>graph_store\<close> of the four queries it makes (SQL run by SQLite), opening it is a
  pair of functions of the outside world. The Unix separator is meant, so the platform-native
  spelling of a path is the path itself. \<open>None\<close> as the value of \<open>decide\<close> is a panic.
\<close>

datatype request =
    Req_Content "string option" string
  | Req_Files "string option" string
  | Req_Read string
  | Req_Travsr "string option"

definition opt_filter :: "('a \<Rightarrow> bool) \<Rightarrow> 'a option \<Rightarrow> 'a option" where
  "opt_filter P x = (case x of None \<Rightarrow> None | Some v \<Rightarrow> if P v then Some v else None)"

definition GRAPH_TOOLS :: "string list" where
  "GRAPH_TOOLS = [''get_callers'', ''find_references'', ''get_context'', ''search_symbol'',
     ''get_graph_json'', ''get_dependencies'', ''get_blast_radius'']"

definition travsr_tool_term :: "string \<Rightarrow> hook_input \<Rightarrow> string option option" where
  "travsr_tool_term tool input =
     (let leaf = last_segment ''__'' tool
      in if \<not> starts_with tool ''mcp__'' \<or> leaf \<notin> set GRAPH_TOOLS then None
         else Some (opt_filter (\<lambda>t. t \<noteq> [])
           (case hi_tool_input input of
              None \<Rightarrow> None
            | Some a \<Rightarrow> or_else (ti_symbol a) (or_else (ti_query a) (or_else (ti_name a) (ti_file a))))))"

definition found_request :: "search_command \<Rightarrow> request" where
  "found_request found = (case sc_kind found of
     Tool_Content \<Rightarrow> Req_Content (sc_term found) (sc_program found)
   | Tool_Files \<Rightarrow> Req_Files (sc_term found) (sc_program found))"

definition bash_requests :: "hook_input \<Rightarrow> request list option" where
  "bash_requests input =
     (case opt_filter (\<lambda>_. hi_tool_name input = Some ''Bash'')
         (Option.bind (hi_tool_input input) ti_command) of
        None \<Rightarrow> Some []
      | Some command \<Rightarrow> map_option (map found_request) (classify_chain command))"

text \<open>\<open>Some None\<close> is a call outside the match set, \<open>None\<close> a panic.\<close>

definition classify :: "hook_input \<Rightarrow> request option option" where
  "classify input =
     (if (case hi_hook_event_name input of Some e \<Rightarrow> e \<noteq> ''PreToolUse'' | None \<Rightarrow> False) then Some None
      else case hi_tool_name input of
        None \<Rightarrow> Some None
      | Some tool \<Rightarrow>
          (let args = hi_tool_input input
           in case travsr_tool_term tool input of
                Some t \<Rightarrow> Some (Some (Req_Travsr t))
              | None \<Rightarrow>
                  if tool = ''Grep'' then
                    Some (Some (Req_Content
                      (opt_filter (\<lambda>p. p \<noteq> []) (Option.bind args ti_pattern)) ''Grep''))
                  else if tool = ''Glob'' then
                    Some (Some (Req_Files
                      (Option.bind args (\<lambda>a. or_else (ti_pattern a) (ti_glob a))) ''Glob''))
                  else if tool = ''Read'' then
                    (case opt_filter (\<lambda>p. p \<noteq> []) (Option.bind args ti_file_path) of
                       None \<Rightarrow> Some None
                     | Some path \<Rightarrow>
                         if (case args of None \<Rightarrow> False
                             | Some a \<Rightarrow> ti_offset a \<noteq> None \<or> ti_limit a \<noteq> None)
                         then Some None else Some (Some (Req_Read path)))
                  else if tool = ''Bash'' then
                    map_option (\<lambda>rs. case rs of [] \<Rightarrow> None | r # _ \<Rightarrow> Some r) (bash_requests input)
                  else Some None))"

subsection \<open>The index and the checkout\<close>

definition is_hex_sha :: "string \<Rightarrow> bool" where
  "is_hex_sha s \<longleftrightarrow> 40 \<le> length s \<and> list_all is_ascii_hexdigit s"

definition git_path :: "string \<Rightarrow> string \<Rightarrow> string" where
  "git_path base raw = (if is_absolute raw then raw else path_join base raw)"

definition packed_sha :: "string \<Rightarrow> string \<Rightarrow> string option" where
  "packed_sha refname line =
     (case split_once CHR '' '' line of
        None \<Rightarrow> None
      | Some (sha, name) \<Rightarrow> if trim name = refname \<and> is_hex_sha sha then Some sha else None)"

definition loose_sha :: "file_system \<Rightarrow> string \<Rightarrow> string \<Rightarrow> string option" where
  "loose_sha fs refname base =
     (case read_to_string fs (path_join base refname) of
        None \<Rightarrow> None
      | Some text \<Rightarrow> if is_hex_sha (trim text) then Some (trim text) else None)"

definition git_dir_of :: "file_system \<Rightarrow> string \<Rightarrow> string option" where
  "git_dir_of fs repo_root =
     (let dot_git = path_join repo_root ''.git''
      in if fs_is_file fs dot_git then
           (case read_to_string fs dot_git of
              None \<Rightarrow> None
            | Some text \<Rightarrow> map_option (\<lambda>raw. git_path repo_root (trim raw)) (strip_prefix text ''gitdir:''))
         else if fs_is_dir fs dot_git then Some dot_git
         else None)"

definition common_dir_of :: "file_system \<Rightarrow> string \<Rightarrow> string" where
  "common_dir_of fs git_dir =
     (case read_to_string fs (path_join git_dir ''commondir'') of
        None \<Rightarrow> git_dir
      | Some c \<Rightarrow> git_path git_dir (trim c))"

definition head_sha :: "file_system \<Rightarrow> string \<Rightarrow> string option" where
  "head_sha fs repo_root =
     (case git_dir_of fs repo_root of
        None \<Rightarrow> None
      | Some git_dir \<Rightarrow>
          (let common_dir = common_dir_of fs git_dir
           in case read_to_string fs (path_join git_dir ''HEAD'') of
                None \<Rightarrow> None
              | Some text \<Rightarrow>
                  (let head = trim text
                   in if is_hex_sha head then Some head
                      else case strip_prefix head ''ref:'' of
                        None \<Rightarrow> None
                      | Some r \<Rightarrow>
                          (let refname = trim r
                           in case find_map (loose_sha fs refname) [git_dir, common_dir] of
                                Some sha \<Rightarrow> Some sha
                              | None \<Rightarrow>
                                  (case read_to_string fs (path_join common_dir ''packed-refs'') of
                                     None \<Rightarrow> None
                                   | Some packed \<Rightarrow> find_map (packed_sha refname) (lines packed))))))"

definition short_shas_differ :: "string \<Rightarrow> string \<Rightarrow> bool option" where
  "short_shas_differ a b =
     (if a = [] \<or> b = [] then None
      else (let (short, long) = (if length a \<le> length b then (a, b) else (b, a))
            in Some (\<not> list_all (\<lambda>(l, s). ascii_lower l = ascii_lower s) (zip long short))))"

definition head_index_mismatch_note :: "string \<Rightarrow> string \<Rightarrow> string option" where
  "head_index_mismatch_note head stored =
     (if head = [] \<or> stored = [] \<or> short_shas_differ head stored = Some False then None
      else Some (''[note: index describes commit '' @ stored @ '' but your checkout is at '' @ head
        @ ''; results (including path:line) may not match your working tree. This is ''
        @ ''expected in a linked worktree; otherwise run `travsr init` or wait for ''
        @ ''the daemon to reconcile.]''))"

record graph_store =
  gs_node_count :: "string + nat"
  gs_last_commit :: "string + string option"
  gs_exact_names :: "string \<Rightarrow> string + string list"
  gs_file_hash :: "string \<Rightarrow> string + string option"

record guard_world =
  gw_fs :: file_system
  gw_open_ro :: "string \<Rightarrow> string + graph_store"
  gw_open_rw :: "string \<Rightarrow> string + graph_store"

record guard_index =
  ix_root :: string
  ix_store :: graph_store

definition ok_or :: "'a \<Rightarrow> string + 'a \<Rightarrow> 'a" where
  "ok_or d r = (case r of Inr v \<Rightarrow> v | Inl _ \<Rightarrow> d)"

definition ok_flatten :: "string + 'a option \<Rightarrow> 'a option" where
  "ok_flatten r = (case r of Inr v \<Rightarrow> v | Inl _ \<Rightarrow> None)"

definition open_index :: "guard_world \<Rightarrow> string \<Rightarrow> string + guard_index" where
  "open_index w repo_root =
     (let db = path_join (path_join repo_root ''.travsr'') ''graph.db''
      in if \<not> fs_exists (gw_fs w) db then Inl (''no index at '' @ db)
         else case (case gw_open_ro w db of
                      Inr s \<Rightarrow> Inr s
                    | Inl read_only \<Rightarrow> (case gw_open_rw w db of
                        Inr s \<Rightarrow> Inr s
                      | Inl e \<Rightarrow> Inl (''index will not open (read-only: '' @ read_only @ ''; writable: ''
                          @ e @ '')''))) of
           Inl why \<Rightarrow> Inl why
         | Inr store \<Rightarrow>
             if ok_or 0 (gs_node_count store) = 0 then Inl ''index is empty; Phase A has not landed''
             else (let stored = (case ok_flatten (gs_last_commit store) of Some c \<Rightarrow> c | None \<Rightarrow> []);
                       head = (case head_sha (gw_fs w) repo_root of Some h \<Rightarrow> h | None \<Rightarrow> [])
                   in if stored = [] then Inl ''index records no commit''
                      else if head = [] then Inl ''HEAD could not be resolved, so staleness is unknown''
                      else if head_index_mismatch_note head stored \<noteq> None
                      then Inl (''index is at '' @ stored @ '', HEAD is at '' @ head)
                      else Inr \<lparr>ix_root = repo_root, ix_store = store\<rparr>))"

subsection \<open>Redirects\<close>

definition as_symbol :: "string \<Rightarrow> string option" where
  "as_symbol term =
     (let t = trim term
      in if length t < 3 \<or> 128 < length t then None
         else case t of
           [] \<Rightarrow> None
         | first # _ \<Rightarrow>
             if \<not> (is_ascii_alpha first \<or> first = CHR ''_'') then None
             else if list_all (\<lambda>c. is_ascii_alnum c \<or> c = CHR ''_'' \<or> c = CHR ''.'' \<or> c = CHR '':'') t
             then Some t else None)"

definition DOCS :: "string list" where
  "DOCS = [''md'', ''mdx'', ''rst'', ''txt'', ''adoc'', ''org'']"

definition DATA :: "string list" where
  "DATA = [''json'', ''toml'', ''yaml'', ''yml'', ''ini'', ''cfg'', ''conf'', ''xml'', ''properties'',
     ''env'', ''csv'', ''tsv'']"

definition BINARY :: "string list" where
  "BINARY = [''png'', ''jpg'', ''jpeg'', ''gif'', ''webp'', ''ico'', ''pdf'', ''zip'', ''gz'', ''tar'',
     ''bz2'', ''xz'', ''exe'', ''dll'', ''so'', ''dylib'', ''bin'', ''wasm'', ''class'', ''jar'', ''db'',
     ''sqlite'']"

definition LOCKS :: "string list" where
  "LOCKS = [''cargo.lock'', ''package-lock.json'', ''yarn.lock'', ''pnpm-lock.yaml'', ''poetry.lock'',
     ''gemfile.lock'', ''composer.lock'', ''go.sum'', ''flake.lock'']"

definition excluded_extension :: "string \<Rightarrow> bool" where
  "excluded_extension path =
     (let lower = to_ascii_lowercase path;
          name = last (split_on is_sep lower)
      in if name \<in> set LOCKS \<or> ends_with name ''.lock'' then True
         else case rsplit_once CHR ''.'' name of
           None \<Rightarrow> True
         | Some (_, ext) \<Rightarrow> ext \<in> set DOCS \<or> ext \<in> set DATA \<or> ext \<in> set BINARY)"

definition SKIP_DIRS :: "string list" where
  "SKIP_DIRS = [''.claude'', ''.git'', ''.travsr'', ''target'', ''node_modules'', ''dist'', ''.next'',
     ''.vscode'', ''.vscode-test'']"

definition EXTRA :: "string list" where
  "EXTRA = [''vendor'', ''third_party'', ''thirdparty'', ''.venv'', ''site-packages'', ''bower_components'']"

definition vendored :: "string \<Rightarrow> bool" where
  "vendored rel \<longleftrightarrow> list_ex (\<lambda>c. c \<in> set SKIP_DIRS \<or> c \<in> set EXTRA) (split_on is_sep rel)"

definition replace_byte :: "char \<Rightarrow> char \<Rightarrow> string \<Rightarrow> string" where
  "replace_byte x y s = map (\<lambda>c. if c = x then y else c) s"

definition repo_relative :: "string \<Rightarrow> string option \<Rightarrow> string \<Rightarrow> string option" where
  "repo_relative repo_root cwd raw =
     (let absolute = (if is_absolute raw then raw
            else path_join (case cwd of Some d \<Rightarrow> d | None \<Rightarrow> repo_root) raw)
      in case comp_strip_prefix (lexical (components absolute)) (lexical (components repo_root)) of
           None \<Rightarrow> None
         | Some rel \<Rightarrow>
             (let slashed = replace_byte backslash CHR ''/'' (comps_text rel)
              in if slashed \<noteq> [] then Some slashed else None))"

text \<open>The native separator is the forward slash, so the second lookup never runs.\<close>

definition file_indexed :: "graph_store \<Rightarrow> string \<Rightarrow> bool" where
  "file_indexed store rel =
     (if ok_flatten (gs_file_hash store rel) \<noteq> None then True
      else (let native = replace_byte CHR ''/'' CHR ''/'' rel
            in native \<noteq> rel \<and> ok_flatten (gs_file_hash store native) \<noteq> None))"

record redirect =
  rd_key :: string
  rd_text :: string

definition content_text :: "string \<Rightarrow> string \<Rightarrow> string" where
  "content_text symbol via = ''Travsr has indexed this repository and holds `'' @ symbol
     @ ''`. It can answer this structurally: call find_references(symbol=\"'' @ symbol
     @ ''\") for every use site, or get_callers(symbol=\"'' @ symbol
     @ ''\") for the callers, instead of '' @ via
     @ ''. If the graph comes back empty, run this search again and it will be allowed.''"

definition read_text :: "string \<Rightarrow> string \<Rightarrow> string" where
  "read_text rel stem = ''Travsr has `'' @ rel @ ''` in the graph. Call get_context(query=\"'' @ stem
     @ ''\", include_snippets=true) for the symbols in it with their source inline, or ''
     @ ''get_dependencies(file=\"'' @ rel @ ''\") for what it imports, instead of reading the whole ''
     @ ''file. Read it directly when you need something the graph does not carry; run this again ''
     @ ''and it will be allowed.''"

definition stem_of :: "string \<Rightarrow> string" where
  "stem_of rel = (case rsplit_once CHR ''.'' (last (split_on (\<lambda>c. c = CHR ''/'') rel)) of
     Some (s, _) \<Rightarrow> s | None \<Rightarrow> rel)"

fun redirect_for :: "guard_index \<Rightarrow> string option \<Rightarrow> request \<Rightarrow> redirect option" where
  "redirect_for index cwd (Req_Content term via) =
     (case Option.bind term as_symbol of
        None \<Rightarrow> None
      | Some symbol \<Rightarrow>
          if ok_or [] (gs_exact_names (ix_store index) symbol) = [] then None
          else Some \<lparr>rd_key = symbol, rd_text = content_text symbol via\<rparr>)"
| "redirect_for index cwd (Req_Read path) =
     (if excluded_extension path then None
      else case repo_relative (ix_root index) cwd path of
        None \<Rightarrow> None
      | Some rel \<Rightarrow>
          if vendored rel \<or> \<not> file_indexed (ix_store index) rel then None
          else Some \<lparr>rd_key = rel, rd_text = read_text rel (stem_of rel)\<rparr>)"
| "redirect_for index cwd (Req_Files hint via) = None"
| "redirect_for index cwd (Req_Travsr term) = None"

fun advisory_note :: "request \<Rightarrow> string option" where
  "advisory_note (Req_Content term via) = Some (case term of
       Some t \<Rightarrow> ''Travsr indexes this repository: find_pattern(pattern=\"'' @ t
         @ ''\") runs the same search already scoped to the indexed files, and `scope` narrows it ''
         @ ''further. Continuing with '' @ via @ ''.''
     | None \<Rightarrow> ''Travsr indexes this repository: find_pattern is the same search scoped to ''
         @ ''the indexed files. Continuing with '' @ via @ ''.'')"
| "advisory_note (Req_Files hint via) = Some (case hint of
       Some h \<Rightarrow> ''Travsr indexes this repository: get_repo_map() lists the indexed files and ''
         @ ''get_context(query=\"'' @ h @ ''\") finds where something lives without walking the ''
         @ ''tree. Continuing with '' @ via @ ''.''
     | None \<Rightarrow> ''Travsr indexes this repository: get_repo_map() lists the indexed files ''
         @ ''without walking the tree. Continuing with '' @ via @ ''.'')"
| "advisory_note (Req_Read path) = None"
| "advisory_note (Req_Travsr term) = None"

subsection \<open>The decision\<close>

record decision =
  dc_output :: hook_output
  dc_why :: string

definition pass_with :: "string \<Rightarrow> decision" where
  "pass_with why = \<lparr>dc_output = Neutral, dc_why = why\<rparr>"

definition unreadable_payload :: decision where
  "unreadable_payload = pass_with ''the payload could not be read''"

definition timed_out :: decision where
  "timed_out = pass_with ''the decision missed its deadline''"

definition internal_error :: decision where
  "internal_error = pass_with ''the guard errored internally''"

text \<open>
  The valve as the guard calls it: an observed query gives the new state file, a release the
  verdict and the new state file.
\<close>

record valve_ops =
  vo_record_query :: "string option \<Rightarrow> string \<Rightarrow> string \<Rightarrow> string option"
  vo_release :: "string option \<Rightarrow> string option \<Rightarrow> string \<Rightarrow> bool \<times> string option"

definition file_valve :: "(valve_store \<Rightarrow> string option) \<Rightarrow> (string \<Rightarrow> valve_store option) \<Rightarrow> valve_env
    \<Rightarrow> valve_ops" where
  "file_valve ser de env =
     \<lparr>vo_record_query = record_query ser de env, vo_release = release ser de env\<rparr>"

text \<open>The two-by-two table at the end of \<open>decide\<close>.\<close>

definition decide_table :: "valve_ops \<Rightarrow> hook_input \<Rightarrow> guard_mode \<Rightarrow> request \<Rightarrow> redirect option
    \<Rightarrow> string option \<Rightarrow> decision \<times> string option" where
  "decide_table valve input mode request redirect file =
     (case redirect of
        Some r \<Rightarrow>
          (case mode of
             Mode_Strict \<Rightarrow>
               (let (released, file') = vo_release valve file (hi_session_id input) (rd_key r)
                in if released
                   then (\<lparr>dc_output = context_output (rd_text r),
                          dc_why = ''`'' @ rd_key r @ ''` already redirected in this session''\<rparr>, file')
                   else (\<lparr>dc_output = deny_output (rd_text r),
                          dc_why = ''the graph answers `'' @ rd_key r @ ''`''\<rparr>, file'))
           | Mode_Advisory \<Rightarrow>
               (\<lparr>dc_output = context_output (rd_text r),
                 dc_why = ''the graph answers `'' @ rd_key r @ ''`, advisory does not block''\<rparr>, file)
           | Mode_Off \<Rightarrow> (pass_with ''guard.mode is off'', file))
      | None \<Rightarrow>
          (case mode of
             Mode_Strict \<Rightarrow> (pass_with ''the graph cannot answer this'', file)
           | Mode_Advisory \<Rightarrow>
               (case advisory_note request of
                  Some note \<Rightarrow> (\<lparr>dc_output = context_output note,
                      dc_why = ''the graph cannot answer this exactly; nudged''\<rparr>, file)
                | None \<Rightarrow> (pass_with ''the graph cannot answer this'', file))
           | Mode_Off \<Rightarrow> (pass_with ''guard.mode is off'', file)))"

definition decide :: "guard_world \<Rightarrow> valve_ops \<Rightarrow> hook_input \<Rightarrow> guard_mode \<Rightarrow> string option
    \<Rightarrow> string option \<Rightarrow> (decision \<times> string option) option" where
  "decide w valve input mode repo_root file =
     (if mode = Mode_Off then Some (pass_with ''guard.mode is off'', file)
      else case classify input of
        None \<Rightarrow> None
      | Some None \<Rightarrow> Some (pass_with ''not a tool call the guard inspects'', file)
      | Some (Some request) \<Rightarrow>
          (case repo_root of
             None \<Rightarrow> Some (pass_with ''not inside a git repository'', file)
           | Some root \<Rightarrow>
               (case request of
                  Req_Travsr term \<Rightarrow>
                    (case (term, hi_session_id input) of
                       (Some t, Some session) \<Rightarrow>
                         Some (pass_with (''observed a travsr query for `'' @ t @ ''`''),
                               vo_record_query valve file session t)
                     | _ \<Rightarrow> Some (pass_with ''observed a travsr query'', file))
                | _ \<Rightarrow>
                    (case open_index w root of
                       Inl why \<Rightarrow> Some (pass_with why, file)
                     | Inr index \<Rightarrow>
                         (case bash_requests input of
                            None \<Rightarrow> None
                          | Some searches \<Rightarrow>
                              Some (decide_table valve input mode request
                                (find_map (redirect_for index (hi_cwd input)) (request # drop 1 searches))
                                file))))))"

text \<open>
  \<open>decide()\<close> of \<open>guard/mod.rs\<close> and the receiving end of \<open>run\<close>: \<open>in_time\<close> says whether the worker's
  answer arrives before the deadline, \<open>mode_of\<close> is the configured mode of a repository.
\<close>

definition guard_decide :: "guard_world \<Rightarrow> valve_ops \<Rightarrow> (string \<Rightarrow> hook_input option) \<Rightarrow> string option
    \<Rightarrow> (hook_input \<Rightarrow> string option) \<Rightarrow> (string option \<Rightarrow> string option) \<Rightarrow> string option
    \<Rightarrow> (decision \<times> string option) option" where
  "guard_decide w valve parse_hook stdin root_of effective file =
     (case read_payload parse_hook stdin of
        None \<Rightarrow> Some (unreadable_payload, file)
      | Some input \<Rightarrow>
          (let repo_root = root_of input
           in decide w valve input (resolve_mode (effective repo_root)) repo_root file))"

definition run_guard :: "bool \<Rightarrow> (decision \<times> string option) option \<Rightarrow> decision" where
  "run_guard in_time outcome =
     (if \<not> in_time then timed_out
      else case outcome of None \<Rightarrow> internal_error | Some (d, _) \<Rightarrow> d)"

definition run_stdout :: "(json \<Rightarrow> string) \<Rightarrow> decision \<Rightarrow> string" where
  "run_stdout print_json d =
     (let rendered = render print_json (dc_output d)
      in if rendered \<noteq> [] then rendered @ [newline] else [])"

subsection \<open>The checkout and its index\<close>

lemma loose_sha_hex: "loose_sha fs r b = Some s \<Longrightarrow> is_hex_sha s"
  by (auto simp: loose_sha_def split: option.splits if_splits)

lemma packed_sha_hex: "packed_sha r l = Some s \<Longrightarrow> is_hex_sha s"
  by (auto simp: packed_sha_def split: option.splits if_splits)

lemma head_sha_is_hex: "head_sha fs root = Some s \<Longrightarrow> is_hex_sha s"
  by (auto simp: head_sha_def Let_def split: option.splits if_splits
      dest!: find_map_Some dest: loose_sha_hex packed_sha_hex)

lemma zip_lower_eq:
  assumes "length s \<le> length l"
  shows "list_all (\<lambda>(x, y). ascii_lower x = ascii_lower y) (zip l s)
     \<longleftrightarrow> eq_ignore_ascii_case (take (length s) l) s"
  using assms
proof (induction s arbitrary: l)
  case (Cons c s)
  then show ?case by (cases l) (auto simp: eq_ignore_ascii_case_def)
qed (simp add: eq_ignore_ascii_case_def)

text \<open>
  Abbreviated commits compare as prefixes. Two known abbreviations do not differ exactly when
  one is, up to ASCII case, a prefix of the other; the comparison is symmetric, and an unknown
  side gives no verdict.
\<close>

lemma short_shas_differ_prefix:
  "(short_shas_differ a b = Some False \<longleftrightarrow> a \<noteq> [] \<and> b \<noteq> []
      \<and> (eq_ignore_ascii_case (take (length b) a) b \<or> eq_ignore_ascii_case (take (length a) b) a))
   \<and> short_shas_differ a b = short_shas_differ b a
   \<and> (short_shas_differ a b = None \<longleftrightarrow> a = [] \<or> b = [])"
proof -
  have len: "eq_ignore_ascii_case x y \<Longrightarrow> length x = length y" for x y
    by (auto simp: eq_ignore_ascii_case_def dest: map_eq_imp_length_eq)
  have sym: "eq_ignore_ascii_case x y \<longleftrightarrow> eq_ignore_ascii_case y x" for x y
    by (auto simp: eq_ignore_ascii_case_def)
  show ?thesis
    using len [of "take (length b) a" b] len [of "take (length a) b" a] sym [of a b]
    by (cases "length a \<le> length b"; cases "length b \<le> length a")
       (auto simp: short_shas_differ_def zip_lower_eq)
qed

lemma short_shas_prefix_cases:
  assumes "short_shas_differ a b = Some False"
  shows "a \<noteq> [] \<and> b \<noteq> [] \<and> (eq_ignore_ascii_case (take (length b) a) b
      \<or> eq_ignore_ascii_case (take (length a) b) a)"
  using assms by (auto simp: short_shas_differ_def zip_lower_eq split: if_splits)

text \<open>
  An index is used only when it describes the checkout. Whatever the outside gives,
  \<open>open_index\<close> succeeds only on a repository whose database exists and opens, whose graph is not
  empty, whose recorded commit is known, and whose \<open>HEAD\<close> resolves to a hexadecimal commit of at
  least forty digits that agrees with the recorded one.
\<close>

lemma open_index_current:
  assumes "open_index w root = Inr index"
  shows "\<exists>stored head. ix_root index = root
    \<and> (gw_open_ro w (path_join (path_join root ''.travsr'') ''graph.db'') = Inr (ix_store index)
        \<or> gw_open_rw w (path_join (path_join root ''.travsr'') ''graph.db'') = Inr (ix_store index))
    \<and> fs_exists (gw_fs w) (path_join (path_join root ''.travsr'') ''graph.db'')
    \<and> ok_or 0 (gs_node_count (ix_store index)) > 0
    \<and> gs_last_commit (ix_store index) = Inr (Some stored) \<and> stored \<noteq> []
    \<and> head_sha (gw_fs w) root = Some head \<and> is_hex_sha head
    \<and> short_shas_differ head stored = Some False"
  using assms
  by (auto simp: open_index_def Let_def ok_flatten_def head_index_mismatch_note_def
      dest: head_sha_is_hex split: if_splits sum.splits option.splits)

definition demo_sha :: string where
  "demo_sha = replicate 40 CHR ''a''"

definition demo_fs :: file_system where
  "demo_fs p = (if p = ''/r/.git'' then Some Fs_Dir
     else if p = ''/r/.git/HEAD'' then Some (Fs_File (Some demo_sha))
     else if p = ''/r/.travsr/graph.db'' then Some (Fs_File None) else None)"

definition demo_graph :: graph_store where
  "demo_graph = \<lparr>gs_node_count = Inr 3, gs_last_commit = Inr (Some ''aaaaaaa''),
     gs_exact_names = (\<lambda>n. Inr (if n = ''Foo'' then [''1''] else [])),
     gs_file_hash = (\<lambda>f. Inr (if f = ''src/a.rs'' then Some ''h'' else None))\<rparr>"

definition demo_world :: guard_world where
  "demo_world = \<lparr>gw_fs = demo_fs, gw_open_ro = (\<lambda>_. Inl ''locked''), gw_open_rw = (\<lambda>_. Inr demo_graph)\<rparr>"

definition demo_index :: guard_index where
  "demo_index = \<lparr>ix_root = ''/r'', ix_store = demo_graph\<rparr>"

lemma demo_paths:
  "path_join ''/r'' ''.git'' = ''/r/.git''" "path_join ''/r/.git'' ''HEAD'' = ''/r/.git/HEAD''"
  "path_join (path_join ''/r'' ''.travsr'') ''graph.db'' = ''/r/.travsr/graph.db''"
  by (simp_all add: path_join_def is_absolute_def)

lemma chars_replicate_a: "chars (replicate n CHR ''a'') = replicate n ''a''"
  by (induction n) simp_all

lemma trim_demo_sha: "trim demo_sha = demo_sha"
proof -
  have "utf8_ok demo_sha" unfolding demo_sha_def by (simp add: utf8_ok_def chars_replicate_a list_all_iff)
  then show ?thesis
    by (intro trim_graphic) (simp_all add: demo_sha_def chars_replicate_a is_whitespace_def
        hd_replicate last_replicate del: replicate.simps)
qed

lemma utf8_demo_sha: "utf8_ok demo_sha"
  by (simp add: utf8_ok_def demo_sha_def chars_replicate_a list_all_iff)

lemma demo_sha_hex: "is_hex_sha demo_sha"
  by (simp add: is_hex_sha_def demo_sha_def list_all_iff is_ascii_hexdigit_def)

lemma demo_head: "head_sha demo_fs ''/r'' = Some demo_sha"
proof -
  have "git_dir_of demo_fs ''/r'' = Some ''/r/.git''"
    by (simp add: git_dir_of_def demo_paths fs_is_file_def fs_is_dir_def demo_fs_def)
  moreover have "read_to_string demo_fs ''/r/.git/HEAD'' = Some demo_sha"
    by (simp add: read_to_string_def demo_fs_def utf8_demo_sha)
  ultimately show ?thesis
    by (simp add: head_sha_def demo_paths trim_demo_sha demo_sha_hex)
qed

lemma demo_agrees: "head_index_mismatch_note demo_sha ''aaaaaaa'' = None"
proof -
  have "short_shas_differ demo_sha ''aaaaaaa'' = Some False"
    by (simp add: short_shas_differ_def demo_sha_def ascii_lower_def is_ascii_upper_def eval_nat_numeral)
  then show ?thesis by (simp add: head_index_mismatch_note_def)
qed

lemma demo_open: "open_index demo_world ''/r'' = Inr demo_index"
proof -
  have "demo_sha \<noteq> []" by (simp add: demo_sha_def)
  moreover have "fs_exists demo_fs ''/r/.travsr/graph.db''" by (simp add: fs_exists_def demo_fs_def)
  ultimately show ?thesis
    by (simp add: open_index_def demo_paths demo_world_def demo_head demo_agrees Let_def
        demo_graph_def ok_or_def ok_flatten_def demo_index_def)
qed

lemma open_index_current_witness:
  "\<exists>stored head. gs_last_commit (ix_store demo_index) = Inr (Some stored)
     \<and> head_sha demo_fs ''/r'' = Some head \<and> short_shas_differ head stored = Some False"
proof -
  have "gw_fs demo_world = demo_fs" by (simp add: demo_world_def)
  with open_index_current [OF demo_open] show ?thesis by metis
qed

subsection \<open>Repo-relative paths\<close>

lemma components_abs_shape:
  assumes "is_absolute p"
  shows "\<exists>cs. components p = RootDir # cs \<and> (\<forall>c\<in>set cs. c = ParentDir \<or> (\<exists>s. c = Normal s \<and> plain_piece s))"
proof -
  have "plain_piece s" if "x \<in> set (path_pieces p)" "piece_comp x = Some (Normal s)" for x s
    using that split_on_no_sep [of x "\<lambda>c. c = CHR ''/''" p]
    by (auto simp: plain_piece_def piece_comp_def path_pieces_def split: if_splits)
  moreover have "piece_comp x = Some c \<Longrightarrow> c = ParentDir \<or> (\<exists>s. c = Normal s)" for x c
    by (auto simp: piece_comp_def split: if_splits)
  ultimately have "\<forall>c\<in>set (List.map_filter piece_comp (path_pieces p)).
      c = ParentDir \<or> (\<exists>s. c = Normal s \<and> plain_piece s)"
    by (fastforce simp: in_map_filter)
  with assms show ?thesis by (simp add: components_def)
qed

lemma lexical_abs_fold:
  assumes "\<forall>c\<in>set cs. c = ParentDir \<or> (\<exists>s. c = Normal s \<and> plain_piece s)" "\<forall>w\<in>set ws. plain_piece w"
  shows "\<exists>us. fold lexical_step cs (RootDir # map Normal ws) = RootDir # map Normal us
    \<and> (\<forall>w\<in>set us. plain_piece w)"
  using assms
proof (induction cs arbitrary: ws)
  case (Cons c cs)
  from Cons.prems(1) consider "c = ParentDir" | s where "c = Normal s" "plain_piece s" by auto
  then have "\<exists>vs. lexical_step c (RootDir # map Normal ws) = RootDir # map Normal vs
      \<and> (\<forall>w\<in>set vs. plain_piece w)"
  proof cases
    case 1
    have "lexical_step c (RootDir # map Normal ws) = RootDir # map Normal (butlast ws)"
      by (cases ws rule: rev_cases) (simp_all add: 1 lexical_step_def comp_pop_def butlast_append)
    moreover have "\<forall>w\<in>set (butlast ws). plain_piece w" using Cons.prems(2) in_set_butlastD by metis
    ultimately show ?thesis by blast
  next
    case 2
    then have "lexical_step c (RootDir # map Normal ws) = RootDir # map Normal (ws @ [s])"
      by (simp add: lexical_step_def)
    with 2 Cons.prems(2) show ?thesis by (intro exI [of _ "ws @ [s]"]) auto
  qed
  with Cons.IH Cons.prems(1) show ?case by auto
qed auto

lemma lexical_abs_shape:
  assumes "is_absolute p"
  obtains us where "lexical (components p) = RootDir # map Normal us" "\<forall>w\<in>set us. plain_piece w"
proof -
  from components_abs_shape [OF assms] obtain cs where cs: "components p = RootDir # cs"
    "\<forall>c\<in>set cs. c = ParentDir \<or> (\<exists>s. c = Normal s \<and> plain_piece s)" by blast
  from lexical_abs_fold [OF cs(2), of "[]"] that cs(1) show ?thesis
    by (auto simp: lexical_def lexical_step_def)
qed

text \<open>The absolute path that a tool's argument means.\<close>

definition agent_path :: "string \<Rightarrow> string option \<Rightarrow> string \<Rightarrow> string" where
  "agent_path repo_root cwd raw = (if is_absolute raw then raw
     else path_join (case cwd of Some d \<Rightarrow> d | None \<Rightarrow> repo_root) raw)"

lemma is_absolute_join: "is_absolute base \<Longrightarrow> is_absolute (path_join base p)"
  by (cases base) (auto simp: path_join_def is_absolute_def)

lemma agent_path_absolute:
  assumes "is_absolute repo_root" "\<And>d. cwd = Some d \<Longrightarrow> is_absolute d"
  shows "is_absolute (agent_path repo_root cwd raw)"
  using assms by (auto simp: agent_path_def is_absolute_join split: option.split)

lemma map_Normal_eq: "map Normal a = map Normal b \<longleftrightarrow> a = b"
  by (metis (mono_tags, lifting) inj_onI list.inj_map_strong path_comp.inject)

lemma map_Normal_append: "map Normal us = map Normal vs @ map Normal ws \<longleftrightarrow> us = vs @ ws"
  by (metis map_Normal_eq map_append)

lemma strip_prefix_iff: "strip_prefix s p = Some t \<longleftrightarrow> s = p @ t"
  by (auto simp: strip_prefix_def dest: starts_with_drop)

lemma join_nonempty: "ws \<noteq> [] \<Longrightarrow> \<forall>w\<in>set ws. plain_piece w \<Longrightarrow> join_with ''/'' ws \<noteq> []"
  by (cases ws; cases "tl ws") (auto simp: plain_piece_def)

text \<open>
  A read is looked up under its place inside the repository or not at all. For a repository
  root of ordinary pieces and an absolute working directory, \<open>repo_relative\<close> gives a key exactly
  when the argument, resolved against the working directory with every \<open>.\<close> and \<open>..\<close> folded away,
  lies strictly below the root, and the key is then the remaining pieces joined by slashes, none
  of them empty, \<open>.\<close> or \<open>..\<close>.
\<close>

lemma repo_relative_iff:
  assumes "\<forall>v\<in>set vs. plain_piece v" "repo_root = ''/'' @ join_with ''/'' vs"
    "\<And>d. cwd = Some d \<Longrightarrow> is_absolute d"
  shows "repo_relative repo_root cwd raw = Some rel \<longleftrightarrow>
    (\<exists>ws. ws \<noteq> [] \<and> (\<forall>w\<in>set ws. plain_piece w)
       \<and> lexical (components (agent_path repo_root cwd raw)) = RootDir # map Normal (vs @ ws)
       \<and> rel = replace_byte backslash CHR ''/'' (join_with ''/'' ws))"
proof -
  have "is_absolute repo_root" by (simp add: assms(2) is_absolute_def)
  from agent_path_absolute [OF this assms(3)] obtain us
    where us: "lexical (components (agent_path repo_root cwd raw)) = RootDir # map Normal us"
      "\<forall>w\<in>set us. plain_piece w" using lexical_abs_shape by blast
  have root: "lexical (components repo_root) = RootDir # map Normal vs"
    using assms(1) by (simp add: assms(2) components_abs_join lexical_id plain_comp_def
        del: append_Cons append_Nil)
  have eq: "repo_relative repo_root cwd raw =
      (case strip_prefix (RootDir # map Normal us) (RootDir # map Normal vs) of None \<Rightarrow> None
       | Some rest \<Rightarrow> (let slashed = replace_byte backslash CHR ''/'' (comps_text rest)
           in if slashed \<noteq> [] then Some slashed else None))"
    using us(1) root by (simp add: repo_relative_def agent_path_def comp_strip_prefix_def)
  show ?thesis
  proof
    assume "repo_relative repo_root cwd raw = Some rel"
    then obtain rest where rest: "map Normal us = map Normal vs @ rest"
      and rel: "rel = replace_byte backslash CHR ''/'' (comps_text rest)" "comps_text rest \<noteq> []"
      by (auto simp: eq strip_prefix_iff Let_def replace_byte_def split: option.splits if_splits)
    define ws where "ws = drop (length vs) us"
    have "rest = map Normal ws" using rest by (metis append_eq_conv_conj drop_map length_map ws_def)
    moreover from this rest have "us = vs @ ws" by (metis map_Normal_eq map_append)
    moreover from calculation rel have "ws \<noteq> []" by (auto simp: comps_text_def)
    ultimately show "\<exists>ws. ws \<noteq> [] \<and> (\<forall>w\<in>set ws. plain_piece w)
       \<and> lexical (components (agent_path repo_root cwd raw)) = RootDir # map Normal (vs @ ws)
       \<and> rel = replace_byte backslash CHR ''/'' (join_with ''/'' ws)"
      using us rel by (intro exI [of _ ws]) (simp add: comps_text_Normal)
  next
    assume "\<exists>ws. ws \<noteq> [] \<and> (\<forall>w\<in>set ws. plain_piece w)
       \<and> lexical (components (agent_path repo_root cwd raw)) = RootDir # map Normal (vs @ ws)
       \<and> rel = replace_byte backslash CHR ''/'' (join_with ''/'' ws)"
    then obtain ws where ws: "ws \<noteq> []" "\<forall>w\<in>set ws. plain_piece w" "us = vs @ ws"
      "rel = replace_byte backslash CHR ''/'' (join_with ''/'' ws)"
      using us(1) by (auto simp: map_Normal_append)
    have "strip_prefix (RootDir # map Normal us) (RootDir # map Normal vs) = Some (map Normal ws)"
      by (simp add: strip_prefix_iff ws(3))
    with ws show "repo_relative repo_root cwd raw = Some rel"
      by (simp add: eq comps_text_Normal replace_byte_def join_nonempty)
  qed
qed

lemma demo_repo_relative:
  "agent_path ''/r'' (Some ''/r/x'') ''../src/./a.rs'' = ''/r/x/../src/./a.rs''"
  "components ''/r/x/../src/./a.rs'' = [RootDir, Normal ''r'', Normal ''x'', ParentDir, Normal ''src'', Normal ''a.rs'']"
  "lexical [RootDir, Normal ''r'', Normal ''x'', ParentDir, Normal ''src'', Normal ''a.rs'']
     = [RootDir, Normal ''r'', Normal ''src'', Normal ''a.rs'']"
  by (simp_all add: agent_path_def path_join_def is_absolute_def components_def path_pieces_def
      piece_comp_def lexical_def lexical_step_def comp_pop_def)

lemma repo_relative_iff_witness:
  "repo_relative ''/r'' (Some ''/r/x'') ''../src/./a.rs'' = Some ''src/a.rs''"
proof -
  have "\<exists>ws. ws \<noteq> [] \<and> (\<forall>w\<in>set ws. plain_piece w)
       \<and> lexical (components (agent_path ''/r'' (Some ''/r/x'') ''../src/./a.rs''))
           = RootDir # map Normal ([''r''] @ ws)
       \<and> ''src/a.rs'' = replace_byte backslash CHR ''/'' (join_with ''/'' ws)"
    by (intro exI [of _ "[''src'', ''a.rs'']"])
       (simp add: demo_repo_relative plain_piece_def replace_byte_def)
  moreover have "\<And>d. Some ''/r/x'' = Some d \<Longrightarrow> is_absolute d" by (auto simp: is_absolute_def)
  ultimately show ?thesis
    by (subst repo_relative_iff [of "[''r'']"]) (simp_all add: plain_piece_def)
qed

subsection \<open>When the guard denies\<close>

text \<open>The searches of one call, in the order in which the guard asks the graph about them.\<close>

definition call_requests :: "hook_input \<Rightarrow> request list option" where
  "call_requests input =
     (case classify input of
        Some (Some first) \<Rightarrow> (case bash_requests input of
            Some searches \<Rightarrow> Some (first # drop 1 searches) | None \<Rightarrow> None)
      | Some None \<Rightarrow> Some [] | None \<Rightarrow> None)"

definition is_travsr :: "request \<Rightarrow> bool" where
  "is_travsr r \<longleftrightarrow> (case r of Req_Travsr _ \<Rightarrow> True | _ \<Rightarrow> False)"

lemma context_not_blocks [simp]: "\<not> blocks (context_output t)"
  by (simp add: blocks_def context_output_def)

lemma neutral_not_blocks [simp]: "\<not> blocks Neutral"
  by (simp add: blocks_def)

lemma deny_blocks [simp]: "blocks (deny_output t)"
  by (simp add: blocks_def deny_output_def)

lemma pass_output [simp]: "dc_output (pass_with why) = Neutral"
  by (simp add: pass_with_def)

lemma decide_table_blocks:
  "blocks (dc_output (fst (decide_table valve input mode request redirect file))) \<longleftrightarrow>
     mode = Mode_Strict \<and> (\<exists>r. redirect = Some r
       \<and> \<not> fst (vo_release valve file (hi_session_id input) (rd_key r)))"
  by (auto simp: decide_table_def case_prod_unfold Let_def split: option.splits guard_mode.splits)

lemma decide_table_blocks_Pair:
  "decide_table valve input mode request redirect file = (d, file') \<Longrightarrow>
     blocks (dc_output d) \<longleftrightarrow> mode = Mode_Strict \<and> (\<exists>r. redirect = Some r
       \<and> \<not> fst (vo_release valve file (hi_session_id input) (rd_key r)))"
  by (metis decide_table_blocks fst_conv)

lemma decide_table_blocks_ex:
  "(\<exists>d. (\<exists>file'. decide_table valve input mode request redirect file = (d, file'))
       \<and> blocks (dc_output d)) \<longleftrightarrow>
     mode = Mode_Strict \<and> (\<exists>r. redirect = Some r
       \<and> \<not> fst (vo_release valve file (hi_session_id input) (rd_key r)))"
  by (metis decide_table_blocks fst_conv surj_pair)

lemma decide_off: "decide w valve input Mode_Off repo_root file = Some (pass_with ''guard.mode is off'', file)"
  by (simp add: decide_def)

lemma decide_no_root:
  "classify input = Some (Some first) \<Longrightarrow> mode \<noteq> Mode_Off \<Longrightarrow>
     decide w valve input mode None file = Some (pass_with ''not inside a git repository'', file)"
  by (simp add: decide_def)

lemma decide_request:
  assumes "classify input = Some (Some first)" "\<not> is_travsr first" "mode \<noteq> Mode_Off"
  shows "decide w valve input mode (Some root) file =
    (case open_index w root of
       Inl why \<Rightarrow> Some (pass_with why, file)
     | Inr index \<Rightarrow> map_option (\<lambda>requests. decide_table valve input mode first
         (find_map (redirect_for index (hi_cwd input)) requests) file) (call_requests input))"
  using assms
  by (cases first) (simp_all add: decide_def call_requests_def is_travsr_def split: sum.split option.split)

lemma classify_travsr_no_bash:
  assumes "classify input = Some (Some (Req_Travsr t))"
  shows "bash_requests input = Some []"
proof -
  have nt: "found_request c \<noteq> Req_Travsr t" for c
    by (simp add: found_request_def split: search_tool.split)
  have "map_option (\<lambda>rs. case rs of [] \<Rightarrow> None | r # _ \<Rightarrow> Some r) (bash_requests input)
      \<noteq> Some (Some (Req_Travsr t))"
    using nt by (auto simp: bash_requests_def split: option.splits list.splits)
  then have "hi_tool_name input \<noteq> Some ''Bash''"
    using assms by (auto simp: classify_def Let_def travsr_tool_term_def split: option.splits if_splits)
  then show ?thesis by (simp add: bash_requests_def opt_filter_def split: option.split)
qed

lemma decide_denies_iff:
  "(\<exists>d file'. decide w valve input mode repo_root file = Some (d, file') \<and> blocks (dc_output d)) \<longleftrightarrow>
     mode = Mode_Strict
     \<and> (\<exists>root index requests r. repo_root = Some root \<and> open_index w root = Inr index
          \<and> call_requests input = Some requests \<and> \<not> list_ex is_travsr (take 1 requests)
          \<and> find_map (redirect_for index (hi_cwd input)) requests = Some r
          \<and> \<not> fst (vo_release valve file (hi_session_id input) (rd_key r)))"
proof (cases "classify input")
  case None
  then show ?thesis by (simp add: decide_def call_requests_def)
next
  case (Some c)
  show ?thesis
  proof (cases c)
    case None
    with Some show ?thesis by (simp add: decide_def call_requests_def)
  next
    case (Some first)
    note cl = \<open>classify input = Some c\<close> [unfolded Some]
    show ?thesis
    proof (cases "is_travsr first")
      case True
      then obtain t where first: "first = Req_Travsr t" by (cases first) (auto simp: is_travsr_def)
      have "\<not> blocks (dc_output d)" if "decide w valve input mode repo_root file = Some (d, file')" for d file'
        using that by (auto simp: decide_def cl first split: if_splits option.splits)
      then show ?thesis
        using classify_travsr_no_bash cl True
        by (auto simp: call_requests_def first)
    next
      case False
      then show ?thesis
        by (cases "mode = Mode_Off"; cases repo_root; cases "bash_requests input")
           (auto simp: decide_request [OF cl] call_requests_def cl decide_off decide_no_root
              decide_table_blocks_ex split: sum.splits)
    qed
  qed
qed

text \<open>
  Exactly when the guard denies. A call is blocked if and only if the mode is strict, the call
  is a recognised search in a repository whose index opens and is current, some search of the call
  has a redirect, and the valve does not release the first such redirect's key for this session.
\<close>

lemma deny_iff:
  "(\<exists>d file'. decide w valve input mode repo_root file = Some (d, file') \<and> blocks (dc_output d)) \<longleftrightarrow>
     mode = Mode_Strict
     \<and> (\<exists>root index requests r. repo_root = Some root \<and> open_index w root = Inr index
          \<and> call_requests input = Some requests \<and> \<not> list_ex is_travsr (take 1 requests)
          \<and> find_map (redirect_for index (hi_cwd input)) requests = Some r
          \<and> \<not> fst (vo_release valve file (hi_session_id input) (rd_key r)))"
  by (rule decide_denies_iff)

lemma chain_parts_defined: "utf8_ok command \<Longrightarrow> chain_parts command \<noteq> None"
  using chain_loop_total [of command 0 0 "[]" None] by (auto simp: chain_parts_def)

lemma classify_chain_defined: "utf8_ok command \<Longrightarrow> classify_chain command \<noteq> None"
  using chain_parts_defined [of command] by (auto simp: classify_chain_def split: option.split)

lemma bash_requests_defined:
  assumes "\<And>a c. hi_tool_input input = Some a \<Longrightarrow> ti_command a = Some c \<Longrightarrow> utf8_ok c"
  shows "bash_requests input \<noteq> None"
  using assms classify_chain_defined
  by (fastforce simp: bash_requests_def opt_filter_def split: option.splits bind_splits)

lemma classify_defined:
  assumes "\<And>a c. hi_tool_input input = Some a \<Longrightarrow> ti_command a = Some c \<Longrightarrow> utf8_ok c"
  shows "classify input \<noteq> None"
  using bash_requests_defined [of input] assms
  by (auto simp: classify_def Let_def split: option.split)

text \<open>
  C4: The guard does not panic and fails open. On every payload whose command is text, \<open>decide\<close>
  gives a decision; it is silent, and outside an observed question leaves the valve's state alone,
  when the mode is off, the call is outside the match set or any repository, or the index cannot
  be used.
\<close>

theorem decide_fail_open:
  assumes "\<And>a c. hi_tool_input input = Some a \<Longrightarrow> ti_command a = Some c \<Longrightarrow> utf8_ok c"
  shows "\<exists>d file'. decide w valve input mode repo_root file = Some (d, file')
    \<and> (mode = Mode_Off \<or> classify input = Some None \<or> repo_root = None
         \<or> (\<exists>first root why. classify input = Some (Some first) \<and> \<not> is_travsr first
              \<and> repo_root = Some root \<and> open_index w root = Inl why)
       \<longrightarrow> dc_output d = Neutral \<and> file' = file)
    \<and> ((\<exists>t. classify input = Some (Some (Req_Travsr t))) \<longrightarrow> dc_output d = Neutral)"
proof (cases "mode = Mode_Off \<or> classify input = Some None \<or> repo_root = None")
  case True
  moreover have "classify input \<noteq> None" using classify_defined assms by blast
  ultimately show ?thesis
    by (cases "mode = Mode_Off"; cases "classify input") (auto simp: decide_def split: option.splits)
next
  case False
  then obtain first root where cl: "classify input = Some (Some first)" and root: "repo_root = Some root"
    using classify_defined [of input] assms by (cases "classify input") auto
  show ?thesis
  proof (cases "is_travsr first")
    case True
    with False cl root show ?thesis
      by (cases first) (auto simp: decide_def is_travsr_def split: option.splits)
  next
    case nt: False
    obtain requests where rs: "call_requests input = Some requests"
      using bash_requests_defined [of input] assms cl by (auto simp: call_requests_def)
    have "\<exists>d file'. decide w valve input mode repo_root file = Some (d, file')
        \<and> (\<forall>why. open_index w root = Inl why \<longrightarrow> dc_output d = Neutral \<and> file' = file)"
      using False root nt rs surj_pair [of "decide_table valve input mode first _ file"]
      by (cases "open_index w root") (simp_all add: decide_request [OF cl])
    with False cl root nt show ?thesis by (auto simp: is_travsr_def split: request.splits)
  qed
qed

theorem decide_fail_open_witness:
  "\<exists>d. decide demo_world \<lparr>vo_record_query = \<lambda>f s t. f, vo_release = \<lambda>f s t. (False, f)\<rparr>
     \<lparr>hi_session_id = None, hi_cwd = None, hi_hook_event_name = None, hi_tool_name = Some ''Bash'',
      hi_tool_input = None\<rparr> Mode_Strict (Some ''/r'') None = Some (d, None) \<and> dc_output d = Neutral"
proof -
  let ?input = "\<lparr>hi_session_id = None, hi_cwd = None, hi_hook_event_name = None,
      hi_tool_name = Some ''Bash'', hi_tool_input = None\<rparr>"
  have "travsr_tool_term ''Bash'' ?input = None" by (simp add: travsr_tool_term_def)
  then have "classify ?input = Some None"
    by (simp add: classify_def bash_requests_def opt_filter_def)
  then show ?thesis
    using decide_fail_open [of ?input demo_world _ Mode_Strict "Some ''/r''" None] by fastforce
qed

text \<open>What the guard vouches for when it names a replacement.\<close>

definition graph_answers :: "guard_index \<Rightarrow> string option \<Rightarrow> request \<Rightarrow> string \<Rightarrow> bool" where
  "graph_answers index cwd request key \<longleftrightarrow>
     (case request of
        Req_Content term via \<Rightarrow> (\<exists>t. term = Some t \<and> key = trim t \<and> 3 \<le> length key \<and> length key \<le> 128
          \<and> (\<forall>c\<in>set key. is_ascii_alnum c \<or> c \<in> {CHR ''_'', CHR ''.'', CHR '':''})
          \<and> (\<exists>n ns. gs_exact_names (ix_store index) key = Inr (n # ns)))
      | Req_Read path \<Rightarrow> \<not> excluded_extension path \<and> repo_relative (ix_root index) cwd path = Some key
          \<and> (\<exists>h. gs_file_hash (ix_store index) key = Inr (Some h))
          \<and> (\<forall>seg\<in>set (split_on is_sep key). seg \<notin> set (SKIP_DIRS @ EXTRA))
      | Req_Files _ _ \<Rightarrow> False
      | Req_Travsr _ \<Rightarrow> False)"

lemma as_symbol_Some:
  assumes "as_symbol t = Some s"
  shows "s = trim t \<and> 3 \<le> length s \<and> length s \<le> 128
     \<and> (\<forall>c\<in>set s. is_ascii_alnum c \<or> c \<in> {CHR ''_'', CHR ''.'', CHR '':''})"
proof (cases "trim t")
  case (Cons a l)
  with assms have "s = a # l" "2 \<le> length l" "length l \<le> 127"
    "list_all (\<lambda>c. is_ascii_alnum c \<or> c = CHR ''_'' \<or> c = CHR ''.'' \<or> c = CHR '':'') (a # l)"
    by (simp_all add: as_symbol_def Let_def split: if_splits)
  then show ?thesis by (simp add: Cons list_all_iff)
qed (use assms in \<open>simp add: as_symbol_def\<close>)

lemma file_indexed_hash: "file_indexed store rel \<Longrightarrow> \<exists>h. gs_file_hash store rel = Inr (Some h)"
proof -
  have "replace_byte CHR ''/'' CHR ''/'' rel = rel"
    unfolding replace_byte_def by (induction rel) auto
  moreover assume "file_indexed store rel"
  ultimately show ?thesis
    by (auto simp: file_indexed_def ok_flatten_def split: sum.splits if_splits)
qed

text \<open>
  A redirect is only given for what the graph holds. The key of a redirect for a content search
  is an identifier of 3 to 128 characters under which the graph has a node; for a read it is a
  repo-relative path the index has a hash for, with no vendored or skipped directory in it and an
  extension that is not excluded; file discovery and Travsr calls never get one.
\<close>

lemma redirect_answered:
  assumes "redirect_for index cwd request = Some r"
  shows "graph_answers index cwd request (rd_key r)"
proof (cases request)
  case (Req_Content want via)
  with assms obtain t where "want = Some t" "as_symbol t = Some (rd_key r)"
    "ok_or [] (gs_exact_names (ix_store index) (rd_key r)) \<noteq> []"
    by (auto split: option.splits bind_splits if_splits)
  then show ?thesis
    using as_symbol_Some [of t "rd_key r"]
    by (cases "gs_exact_names (ix_store index) (rd_key r)")
       (auto simp: graph_answers_def Req_Content ok_or_def neq_Nil_conv)
next
  case (Req_Read path)
  with assms show ?thesis
    by (auto simp: graph_answers_def vendored_def list_ex_iff split: option.splits if_splits
        dest: file_indexed_hash)
qed (insert assms, auto)

lemma redirect_answered_witness:
  "graph_answers demo_index None (Req_Content (Some '' Foo'') ''rg'') ''Foo''"
proof -
  have "as_symbol '' Foo'' = Some ''Foo''"
    by (simp add: as_symbol_def trim_Foo is_ascii_alnum_def is_ascii_alpha_def is_ascii_upper_def
        is_ascii_lower_def)
  then have "redirect_for demo_index None (Req_Content (Some '' Foo'') ''rg'')
      = Some \<lparr>rd_key = ''Foo'', rd_text = content_text ''Foo'' ''rg''\<rparr>"
    by (simp add: demo_index_def demo_graph_def ok_or_def)
  from redirect_answered [OF this] show ?thesis by simp
qed

end
