(* ===== verification/Mcp_Sanitize.thy ===== *)
theory Mcp_Sanitize
  imports Rust_Path
begin

section \<open>The MCP sanitizer\<close>

text \<open>
  \<open>crates/travsr-mcp/src/sanitize.rs\<close>: what every tool answer and every log line passes through on
  its way to the client, and the validation of the arguments that come back. Slices that may panic
  are \<open>str_slice\<close>; each redaction pass is a step on the rest of the text, run by \<open>redact_loop\<close>, whose
  result \<open>None\<close> is a panic or a loop that makes no progress. Grapheme segmentation (crate
  \<open>unicode_segmentation\<close>), the home directory (crate \<open>dirs\<close>) and the Unicode table behind
  \<open>char::is_alphanumeric\<close> are the fields of \<open>text_env\<close>.
\<close>

definition MAX_ARG_BYTES :: nat where "MAX_ARG_BYTES = 512"
definition MAX_LIST_ARG_BYTES :: nat where "MAX_LIST_ARG_BYTES = 4096"

subsection \<open>Output\<close>

definition keep_char :: "string \<Rightarrow> bool" where
  "keep_char c \<longleftrightarrow> (let cp = code_point c in
     if cp = 9 \<or> cp = 10 \<or> cp = 13 then True
     else if cp \<le> 31 \<or> cp = 127 then False
     else if 128 \<le> cp \<and> cp \<le> 159 then False
     else if (8234 \<le> cp \<and> cp \<le> 8238) \<or> (8294 \<le> cp \<and> cp \<le> 8297) then False
     else True)"

definition strip_control_chars :: "string \<Rightarrow> string" where
  "strip_control_chars s = concat (filter keep_char (chars s))"

fun walk_back :: "string \<Rightarrow> nat \<Rightarrow> nat" where
  "walk_back s 0 = 0"
| "walk_back s (Suc i) = (if is_char_boundary s (Suc i) then Suc i else walk_back s i)"

definition truncate_to_byte_limit :: "string \<Rightarrow> nat \<Rightarrow> string option" where
  "truncate_to_byte_limit s limit =
     (if length s \<le> limit then Some s else str_slice s 0 (walk_back s limit))"

definition escape_byte :: "char \<Rightarrow> string" where
  "escape_byte c = (if c = CHR ''<'' then ''&lt;'' else if c = CHR ''>'' then ''&gt;'' else [c])"

definition escape_tags :: "string \<Rightarrow> string" where
  "escape_tags s = concat (map escape_byte s)"

definition sanitize_mcp_body_with_limit :: "string \<Rightarrow> nat \<Rightarrow> string option" where
  "sanitize_mcp_body_with_limit raw limit =
     (case truncate_to_byte_limit raw limit of
        None \<Rightarrow> None
      | Some pre \<Rightarrow> truncate_to_byte_limit (escape_tags (strip_control_chars pre)) limit)"

definition wrap_envelope :: "string \<Rightarrow> string" where
  "wrap_envelope content =
     (if content = [] then ''<travsr-data></travsr-data>''
      else ''<travsr-data>'' @ [newline] @ content @ [newline] @ ''</travsr-data>'')"

definition sanitize_for_mcp :: "string \<Rightarrow> string" where
  "sanitize_for_mcp raw = wrap_envelope (escape_tags (strip_control_chars raw))"

subsection \<open>Redaction\<close>

record text_env =
  te_home :: "string option"
  te_graphemes :: "string \<Rightarrow> string list"
  te_alnum :: "string \<Rightarrow> bool"

definition SENSITIVE_KEY_NAMES :: "string list" where
  "SENSITIVE_KEY_NAMES = [''key'', ''token'', ''secret'', ''password'', ''passwd'', ''authorization'', ''api_key'']"

definition is_ident_byte :: "char \<Rightarrow> bool" where
  "is_ident_byte b \<longleftrightarrow> is_ascii_alnum b \<or> b = CHR ''_''"

definition is_sensitive_key :: "string \<Rightarrow> bool" where
  "is_sensitive_key key \<longleftrightarrow> list_ex (eq_ignore_ascii_case key) SENSITIVE_KEY_NAMES"

text \<open>
  One step of a pass: \<open>None\<close> is a panic, \<open>Some None\<close> says that the rest is copied as it is,
  \<open>Some (Some (emit, rest))\<close> appends \<open>emit\<close> and goes on with \<open>rest\<close>.
\<close>

type_synonym redact_step = "string \<Rightarrow> (string \<times> string) option option"

function redact_loop :: "redact_step \<Rightarrow> string \<Rightarrow> string option" where
  "redact_loop step s =
     (case step s of
        None \<Rightarrow> None
      | Some None \<Rightarrow> Some s
      | Some (Some (emit, rest)) \<Rightarrow>
          if length rest < length s then map_option ((@) emit) (redact_loop step rest) else None)"
  by pat_completeness auto
termination by (relation "measure (\<lambda>(step, s). length s)") auto

declare redact_loop.simps [simp del]

definition slice_from :: "string \<Rightarrow> nat \<Rightarrow> string option" where
  "slice_from s i = str_slice s i (length s)"

definition slice_to :: "string \<Rightarrow> nat \<Rightarrow> string option" where
  "slice_to s i = str_slice s 0 i"

definition home_step :: "string \<Rightarrow> redact_step" where
  "home_step home rest =
     (case find_str rest home of
        None \<Rightarrow> Some None
      | Some idx \<Rightarrow>
          do {
            after \<leftarrow> slice_from rest (idx + length home);
            let at_boundary = (after = [] \<or> starts_with after ''/'' \<or> starts_with after [backslash]);
            if at_boundary
            then do { before \<leftarrow> slice_to rest idx; Some (Some (before @ ''~'', after)) }
            else do { before \<leftarrow> slice_to rest (idx + length home);
                      after' \<leftarrow> slice_from rest (idx + length home);
                      Some (Some (before, after')) }
          })"

definition replace_home_prefix_at_boundary :: "string \<Rightarrow> string \<Rightarrow> string option" where
  "replace_home_prefix_at_boundary s home = redact_loop (home_step home) s"

definition is_username_material_base :: "text_env \<Rightarrow> string \<Rightarrow> bool" where
  "is_username_material_base te c \<longleftrightarrow> te_alnum te c \<or> c \<in> {''_'', ''-'', ''.''}"

fun username_run :: "text_env \<Rightarrow> string list \<Rightarrow> nat" where
  "username_run te [] = 0"
| "username_run te (g # gs) =
     (if chars g \<noteq> [] \<and> is_username_material_base te (hd (chars g))
      then length g + username_run te gs else 0)"

definition username_run_end :: "text_env \<Rightarrow> string \<Rightarrow> nat option" where
  "username_run_end te after =
     (let end = username_run te (te_graphemes te after)
      in if end = 0 \<and> after \<noteq> [] \<and> hd (chars after) \<noteq> ''/'' \<and> \<not> is_whitespace (hd (chars after))
         then (let candidate_end = (case find_char (\<lambda>c. c = ''/'' \<or> is_whitespace c) after of
                      Some i \<Rightarrow> i | None \<Rightarrow> length after)
               in do { candidate \<leftarrow> slice_to after candidate_end;
                       Some (if list_all is_ascii_punct candidate then end else candidate_end) })
         else Some end)"

definition unix_home_step :: "text_env \<Rightarrow> string \<Rightarrow> redact_step" where
  "unix_home_step te pfx rest =
     (case find_str rest pfx of
        None \<Rightarrow> Some None
      | Some idx \<Rightarrow>
          do {
            before \<leftarrow> slice_to rest idx;
            after \<leftarrow> slice_from rest (idx + length pfx);
            end \<leftarrow> username_run_end te after;
            tail \<leftarrow> slice_from after end;
            if starts_with tail ''/''
            then do { rest' \<leftarrow> slice_from after (end + 1); Some (Some (before @ ''~/'', rest')) }
            else Some (Some (before @ ''~'', tail))
          })"

definition redact_unix_home_run :: "text_env \<Rightarrow> string \<Rightarrow> string \<Rightarrow> string option" where
  "redact_unix_home_run te s pfx = redact_loop (unix_home_step te pfx) s"

definition windows_home_step :: "text_env \<Rightarrow> string \<Rightarrow> redact_step" where
  "windows_home_step te pfx rest =
     (let sep = (if pfx = [] then backslash else last pfx)
      in case find_str rest pfx of
        None \<Rightarrow> Some None
      | Some idx \<Rightarrow>
          (let prefix_start = (if 0 < idx \<and> is_ascii_alpha (rest ! (idx - 1)) then idx - 1 else idx)
           in do {
             before \<leftarrow> slice_to rest prefix_start;
             after \<leftarrow> slice_from rest (idx + length pfx);
             end \<leftarrow> username_run_end te after;
             tail \<leftarrow> slice_from after end;
             if starts_with tail [sep]
             then do { rest' \<leftarrow> slice_from after (end + 1); Some (Some (before @ ''~/'', rest')) }
             else Some (Some (before @ ''~/'', tail))
           }))"

definition redact_windows_home_run :: "text_env \<Rightarrow> string \<Rightarrow> string \<Rightarrow> string option" where
  "redact_windows_home_run te s pfx = redact_loop (windows_home_step te pfx) s"

definition redact_home_paths :: "text_env \<Rightarrow> string \<Rightarrow> string option" where
  "redact_home_paths te s =
     do {
       out \<leftarrow> (case te_home te of
                 None \<Rightarrow> Some s
               | Some home \<Rightarrow> if home \<noteq> [] then replace_home_prefix_at_boundary s home else Some s);
       out \<leftarrow> redact_unix_home_run te out ''/home/'';
       out \<leftarrow> redact_unix_home_run te out ''/Users/'';
       out \<leftarrow> redact_windows_home_run te out ('':'' @ [backslash] @ ''Users'' @ [backslash]);
       redact_windows_home_run te out '':/Users/''
     }"

definition BEARER :: string where "BEARER = ''bearer ''"

definition bearer_step :: redact_step where
  "bearer_step rest =
     (case find_str (to_ascii_lowercase rest) BEARER of
        None \<Rightarrow> Some None
      | Some idx \<Rightarrow>
          do {
            before \<leftarrow> slice_to rest idx;
            after \<leftarrow> slice_from rest (idx + length BEARER);
            let token_end = (case find_char is_whitespace after of Some i \<Rightarrow> i | None \<Rightarrow> length after);
            rest' \<leftarrow> slice_from after token_end;
            Some (Some (before @ ''Bearer [redacted]'', rest'))
          })"

definition redact_bearer_tokens :: "string \<Rightarrow> string option" where
  "redact_bearer_tokens s = redact_loop bearer_step s"

definition TOKEN_PREFIXES :: "string list" where
  "TOKEN_PREFIXES = [''ghp_'', ''gho_'', ''ghu_'', ''ghs_'', ''ghr_'', ''github_pat_'', ''AKIA'',
     ''xoxa-'', ''xoxb-'', ''xoxp-'', ''xoxs-'', ''xoxr-'', ''sk-'']"

function find_boundary_from :: "string \<Rightarrow> string \<Rightarrow> nat \<Rightarrow> nat option option" where
  "find_boundary_from s pfx search_from =
     (case slice_from s search_from of
        None \<Rightarrow> None
      | Some t \<Rightarrow>
          (case find_str t pfx of
             None \<Rightarrow> Some None
           | Some rel \<Rightarrow>
               (let idx = search_from + rel
                in if idx = 0 \<or> \<not> is_ident_byte (s ! (idx - 1)) then Some (Some idx)
                   else find_boundary_from s pfx (idx + 1))))"
  by pat_completeness auto
termination
  by (relation "measure (\<lambda>(s, pfx, search_from). Suc (length s) - search_from)")
     (auto simp: slice_from_def str_slice_def split: if_splits)

declare find_boundary_from.simps [simp del]

definition find_boundary_ok :: "string \<Rightarrow> string \<Rightarrow> nat option option" where
  "find_boundary_ok s pfx = find_boundary_from s pfx 0"

text \<open>The leftmost match over all prefixes; of two at the same place the first prefix wins.\<close>

fun leftmost_token :: "string \<Rightarrow> string list \<Rightarrow> (nat \<times> string) option option" where
  "leftmost_token s [] = Some None"
| "leftmost_token s (p # ps) =
     (case find_boundary_ok s p of
        None \<Rightarrow> None
      | Some found \<Rightarrow>
          (case leftmost_token s ps of
             None \<Rightarrow> None
           | Some later \<Rightarrow> Some (case found of
               None \<Rightarrow> later
             | Some i \<Rightarrow> (case later of
                 None \<Rightarrow> Some (i, p)
               | Some (j, q) \<Rightarrow> if i \<le> j then Some (i, p) else Some (j, q)))))"

definition token_byte :: "char \<Rightarrow> bool" where
  "token_byte c \<longleftrightarrow> is_ascii_alnum c \<or> c = CHR ''_'' \<or> c = CHR ''-''"

text \<open>A character that is not ASCII is no token character, and its lead byte says so.\<close>

definition prefixed_step :: redact_step where
  "prefixed_step rest =
     (case leftmost_token rest TOKEN_PREFIXES of
        None \<Rightarrow> None
      | Some None \<Rightarrow> Some None
      | Some (Some (idx, pfx)) \<Rightarrow>
          do {
            before \<leftarrow> slice_to rest idx;
            after \<leftarrow> slice_from rest (idx + length pfx);
            let token_body_end = (case find_byte (\<lambda>c. \<not> token_byte c) after of
                Some i \<Rightarrow> i | None \<Rightarrow> length after);
            rest' \<leftarrow> slice_from after token_body_end;
            Some (Some (before @ ''[redacted]'', rest'))
          })"

definition redact_prefixed_tokens :: "string \<Rightarrow> string option" where
  "redact_prefixed_tokens s = redact_loop prefixed_step s"

definition MARKER :: string where "MARKER = ''-----BEGIN''"
definition SUFFIX :: string where "SUFFIX = ''PRIVATE KEY-----''"

definition private_key_step :: redact_step where
  "private_key_step rest =
     (case find_str rest MARKER of
        None \<Rightarrow> Some None
      | Some idx \<Rightarrow>
          do {
            before \<leftarrow> slice_to rest idx;
            after \<leftarrow> slice_from rest (idx + length MARKER);
            (case find_str after SUFFIX of
               Some pos \<Rightarrow> do { rest' \<leftarrow> slice_from after (pos + length SUFFIX);
                                Some (Some (before @ ''[redacted]'', rest')) }
             | None \<Rightarrow> Some (Some (before @ MARKER, after)))
          })"

definition redact_private_key_headers :: "string \<Rightarrow> string option" where
  "redact_private_key_headers s = redact_loop private_key_step s"

text \<open>
  The loop over \<open>i\<close> reads \<open>s[i..]\<close> only, and the walk back over the key stops at \<open>i\<close>: one step on the
  rest of the text.
\<close>

definition key_value_step :: redact_step where
  "key_value_step rest =
     (case find_str rest ''='' of
        None \<Rightarrow> Some None
      | Some eq \<Rightarrow>
          (let key_start = eq - length (takeWhile is_ident_byte (rev (take eq rest)))
           in do {
             key \<leftarrow> str_slice rest key_start eq;
             upto_eq \<leftarrow> slice_to rest (eq + 1);
             value \<leftarrow> slice_from rest (eq + 1);
             if \<not> is_sensitive_key key then Some (Some (upto_eq, value))
             else if starts_with value [dquote] then
               do { quoted \<leftarrow> slice_from value 1;
                    (case find_str quoted [dquote] of
                       Some end_rel \<Rightarrow> do { rest' \<leftarrow> slice_from quoted (end_rel + 1);
                           Some (Some (upto_eq @ [dquote] @ ''[redacted]'' @ [dquote], rest')) }
                     | None \<Rightarrow> Some (Some (upto_eq @ [dquote] @ ''[redacted]'', [])) )}
             else
               do { rest' \<leftarrow> slice_from value (case find_char is_whitespace value of
                        Some p \<Rightarrow> p | None \<Rightarrow> length value);
                    Some (Some (upto_eq @ ''[redacted]'', rest')) }
           }))"

definition redact_key_value_pairs :: "string \<Rightarrow> string option" where
  "redact_key_value_pairs s = redact_loop key_value_step s"

definition redact_sensitive :: "text_env \<Rightarrow> string \<Rightarrow> string option" where
  "redact_sensitive te s =
     do {
       s \<leftarrow> redact_home_paths te s;
       s \<leftarrow> redact_bearer_tokens s;
       s \<leftarrow> redact_prefixed_tokens s;
       s \<leftarrow> redact_private_key_headers s;
       redact_key_value_pairs s
     }"

definition sanitize_log_value :: "text_env \<Rightarrow> string \<Rightarrow> nat \<Rightarrow> string option" where
  "sanitize_log_value te raw limit =
     do { s \<leftarrow> redact_sensitive te raw; sanitize_mcp_body_with_limit s limit }"

subsection \<open>Input\<close>

definition validate_with_limit :: "string \<Rightarrow> nat \<Rightarrow> bool \<Rightarrow> string + unit" where
  "validate_with_limit arg max_bytes reject_percent =
     (if max_bytes < length arg then Inl ''argument exceeds maximum length''
      else if CHR 0x00 \<in> set arg then Inl ''null bytes not permitted in arguments''
      else if reject_percent \<and> CHR ''%'' \<in> set arg
      then Inl ''percent-encoded characters not permitted in arguments''
      else if contains_str arg ''../'' \<or> contains_str arg (''..'' @ [backslash]) \<or> arg = ''..''
        \<or> ends_with arg ''/..'' \<or> ends_with arg ([backslash] @ ''..'')
      then Inl ''path traversal not permitted''
      else if starts_with arg ''/'' \<or> starts_with arg [backslash] then Inl ''absolute paths not permitted''
      else if 2 \<le> length arg \<and> arg ! 1 = CHR '':'' then Inl ''absolute paths not permitted''
      else Inr ())"

definition validate_mcp_arg :: "string \<Rightarrow> string + unit" where
  "validate_mcp_arg arg = validate_with_limit arg MAX_ARG_BYTES True"

definition validate_mcp_file_arg :: "string \<Rightarrow> string + unit" where
  "validate_mcp_file_arg arg = validate_with_limit arg MAX_ARG_BYTES False"

definition validate_mcp_list_arg :: "string \<Rightarrow> string + unit" where
  "validate_mcp_list_arg arg = validate_with_limit arg MAX_LIST_ARG_BYTES True"

definition validate_mcp_pattern_arg :: "string \<Rightarrow> string + unit" where
  "validate_mcp_pattern_arg arg =
     (if MAX_ARG_BYTES < length arg then Inl ''argument exceeds maximum length''
      else if CHR 0x00 \<in> set arg then Inl ''null bytes not permitted in arguments'' else Inr ())"

definition validate_mcp_repo_key_arg :: "string \<Rightarrow> string + unit" where
  "validate_mcp_repo_key_arg arg =
     (if MAX_ARG_BYTES < length arg then Inl ''argument exceeds maximum length''
      else if CHR 0x00 \<in> set arg then Inl ''null bytes not permitted in arguments'' else Inr ())"

subsection \<open>Places where a text may be cut\<close>

definition cut_ok :: "string \<Rightarrow> nat \<Rightarrow> bool" where
  "cut_ok s i \<longleftrightarrow> i \<le> length s \<and> is_char_boundary s i"

lemma cut_ok_slices:
  assumes "utf8_ok s" "cut_ok s i"
  shows "slice_from s i = Some (drop i s)" "slice_to s i = Some (take i s)"
    "utf8_ok (drop i s)" "utf8_ok (take i s)"
  using assms utf8_ok_split [of s i]
  by (simp_all add: cut_ok_def slice_from_def slice_to_def str_slice_def)

lemma cut_ok_ends [simp]: "cut_ok s 0" "cut_ok s (length s)"
  by (simp_all add: cut_ok_def)

lemma cut_ok_drop: "utf8_ok (drop i s) \<Longrightarrow> i \<le> length s \<Longrightarrow> cut_ok s i"
  by (simp add: cut_ok_def boundary_if_drop_ok)

lemma cut_ok_found:
  assumes "find_str s p = Some i" "utf8_ok s" "utf8_ok p" "p \<noteq> []"
  shows "cut_ok s i" "cut_ok s (i + length p)"
  using found_boundary [of i s p] find_str_Some [OF assms(1)] assms(2-4) by (auto simp: cut_ok_def)

lemma cut_ok_find_char: "find_char P s = Some i \<Longrightarrow> utf8_ok s \<Longrightarrow> cut_ok s i"
  using find_char_boundary [of P s i] by (simp add: cut_ok_def)

lemma cut_ok_find_or_end: "utf8_ok s \<Longrightarrow> cut_ok s (case find_char P s of Some i \<Rightarrow> i | None \<Rightarrow> length s)"
  by (cases "find_char P s") (simp_all add: cut_ok_find_char)

lemma cut_ok_ascii:
  assumes "utf8_ok s" "i < length s" "byte (s ! i) < 128"
  shows "cut_ok s i" "cut_ok s (Suc i)"
  using assms by (auto simp: cut_ok_def intro: ascii_boundary ascii_boundary_Suc)

lemma found_shrinks:
  assumes "find_str s p = Some i" "p \<noteq> []"
  shows "i + length p \<le> length s" "0 < length p" "0 < length s" "length s - (i + length p) < length s"
proof -
  show l: "i + length p \<le> length s" using find_str_Some [OF assms(1)] by simp
  show p: "0 < length p" using assms(2) by simp
  show "0 < length s" using l p by linarith
  with p show "length s - (i + length p) < length s" by linarith
qed

lemma starts_with_nth: "starts_with s [c] \<longleftrightarrow> s \<noteq> [] \<and> hd s = c"
  by (cases s) auto

lemma cut_ok_head: "utf8_ok s \<Longrightarrow> starts_with s [c] \<Longrightarrow> byte c < 128 \<Longrightarrow> cut_ok s 1"
  using cut_ok_ascii(2) [of s 0] by (cases s) auto

lemma cut_after_head:
  assumes "utf8_ok s" "cut_ok s e" "starts_with (drop e s) [c]" "byte c < 128"
  shows "cut_ok s (Suc e)"
proof -
  have "e < length s" using assms(3) by (auto simp: starts_with_nth)
  moreover from this have "s ! e = c"
    using assms(3) hd_drop_conv_nth [of e s] by (simp add: starts_with_nth)
  ultimately show ?thesis using cut_ok_ascii(2) [OF assms(1), of e] assms(4) by simp
qed

subsection \<open>Every redaction pass returns\<close>

text \<open>
  A step is good when on valid text it neither panics nor stalls and cuts only between
  characters; a pass over a good step returns valid text.
\<close>

definition step_result_ok :: "string \<Rightarrow> (string \<times> string) option option \<Rightarrow> bool" where
  "step_result_ok s r \<longleftrightarrow> (case r of None \<Rightarrow> False | Some None \<Rightarrow> True
     | Some (Some (emit, rest)) \<Rightarrow> utf8_ok emit \<and> utf8_ok rest \<and> length rest < length s)"

locale redaction_pass =
  fixes step :: redact_step
  assumes step_good: "utf8_ok s \<Longrightarrow> step_result_ok s (step s)"
begin

lemma total: "utf8_ok s \<Longrightarrow> \<exists>t. redact_loop step s = Some t \<and> utf8_ok t"
proof (induction "length s" arbitrary: s rule: less_induct)
  case less
  from step_good [OF less.prems] consider "step s = Some None"
    | e r where "step s = Some (Some (e, r))" "utf8_ok e" "utf8_ok r" "length r < length s"
    by (auto simp: step_result_ok_def split: option.splits)
  then show ?case
  proof cases
    case 1
    with less.prems show ?thesis by (simp add: redact_loop.simps)
  next
    case 2
    from less.hyps [OF 2(4,3)] obtain t where "redact_loop step r = Some t" "utf8_ok t" by blast
    with 2 show ?thesis by (simp add: redact_loop.simps)
  qed
qed

end

lemma home_step_pass:
  assumes "utf8_ok home" "home \<noteq> []"
  shows "redaction_pass (home_step home)"
proof
  fix s assume s: "utf8_ok s"
  show "step_result_ok s (home_step home s)"
  proof (cases "find_str s home")
    case (Some i)
    have c: "cut_ok s i" "cut_ok s (i + length home)" using cut_ok_found [OF Some s assms] by auto
    moreover note found_shrinks [OF Some assms(2)]
    ultimately show ?thesis
      using Some assms(2) cut_ok_slices [OF s c(1)] cut_ok_slices [OF s c(2)]
      by (auto simp: home_step_def step_result_ok_def Let_def)
  qed (simp add: home_step_def step_result_ok_def)
qed

text \<open>What the passes rely on of the segmentation: the graphemes of a text are non-empty, made of
  whole characters, and concatenate to it.\<close>

definition text_env_ok :: "text_env \<Rightarrow> bool" where
  "text_env_ok te \<longleftrightarrow> (\<forall>s. utf8_ok s \<longrightarrow> concat (te_graphemes te s) = s
       \<and> (\<forall>g\<in>set (te_graphemes te s). g \<noteq> [] \<and> utf8_ok g))
     \<and> (\<forall>h. te_home te = Some h \<longrightarrow> utf8_ok h)"

lemma username_run_cut:
  "\<forall>g\<in>set gs. utf8_ok g \<Longrightarrow> username_run te gs \<le> length (concat gs)
     \<and> utf8_ok (drop (username_run te gs) (concat gs))"
  by (induction gs) (auto simp: utf8_ok_concat list_all_iff)

lemma username_run_end_cut:
  assumes "text_env_ok te" "utf8_ok s"
  shows "\<exists>i. username_run_end te s = Some i \<and> cut_ok s i"
proof -
  let ?e = "username_run te (te_graphemes te s)"
  let ?c = "case find_char (\<lambda>c. c = ''/'' \<or> is_whitespace c) s of Some i \<Rightarrow> i | None \<Rightarrow> length s"
  have "cut_ok s ?e"
    using username_run_cut [of "te_graphemes te s" te] assms
    by (intro cut_ok_drop) (auto simp: text_env_ok_def)
  moreover have "cut_ok s ?c"
    using cut_ok_find_char [OF _ assms(2)] by (auto split: option.split)
  ultimately show ?thesis
    using cut_ok_slices [OF assms(2), of ?c] by (simp add: username_run_end_def Let_def)
qed

lemma unix_home_step_pass:
  assumes "text_env_ok te" "utf8_ok pfx" "pfx \<noteq> []"
  shows "redaction_pass (unix_home_step te pfx)"
proof
  fix s assume s: "utf8_ok s"
  show "step_result_ok s (unix_home_step te pfx s)"
  proof (cases "find_str s pfx")
    case (Some i)
    have c: "cut_ok s i" "cut_ok s (i + length pfx)" using cut_ok_found [OF Some s assms(2,3)] by auto
    note l = found_shrinks [OF Some assms(3)]
    let ?after = "drop (i + length pfx) s"
    note a = cut_ok_slices [OF s c(1)] cut_ok_slices [OF s c(2)]
    obtain e where e: "username_run_end te ?after = Some e" "cut_ok ?after e"
      using username_run_end_cut [OF assms(1) a(7)] by blast
    note t = cut_ok_slices [OF a(7) e(2)]
    show ?thesis
    proof (cases "starts_with (drop e ?after) ''/''")
      case True
      from cut_after_head [OF a(7) e(2) True] have "cut_ok ?after (Suc e)" by simp
      from cut_ok_slices [OF a(7) this] True show ?thesis
        using Some a e t l assms(3) by (simp add: unix_home_step_def step_result_ok_def)
    next
      case False
      then show ?thesis
        using Some a e t l assms(3) by (simp add: unix_home_step_def step_result_ok_def)
    qed
  qed (simp add: unix_home_step_def step_result_ok_def)
qed

lemma windows_home_step_pass:
  assumes "text_env_ok te" "utf8_ok pfx" "pfx \<noteq> []" "byte (last pfx) < 128"
  shows "redaction_pass (windows_home_step te pfx)"
proof
  fix s assume s: "utf8_ok s"
  show "step_result_ok s (windows_home_step te pfx s)"
  proof (cases "find_str s pfx")
    case (Some i)
    have c: "cut_ok s i" "cut_ok s (i + length pfx)" using cut_ok_found [OF Some s assms(2,3)] by auto
    note l = found_shrinks [OF Some assms(3)]
    let ?after = "drop (i + length pfx) s"
    let ?start = "if 0 < i \<and> is_ascii_alpha (s ! (i - 1)) then i - 1 else i"
    have "cut_ok s ?start"
    proof (cases "0 < i \<and> is_ascii_alpha (s ! (i - 1))")
      case True
      then have "byte (s ! (i - 1)) < 128" by (auto simp: ascii_defs)
      moreover have "i - 1 < length s" using l by linarith
      ultimately show ?thesis using cut_ok_ascii(1) [OF s] True by simp
    qed (use c in auto)
    note b = cut_ok_slices [OF s this]
    note a = cut_ok_slices [OF s c(2)]
    obtain e where e: "username_run_end te ?after = Some e" "cut_ok ?after e"
      using username_run_end_cut [OF assms(1) a(3)] by blast
    note t = cut_ok_slices [OF a(3) e(2)]
    show ?thesis
    proof (cases "starts_with (drop e ?after) [last pfx]")
      case True
      from cut_after_head [OF a(3) e(2) True assms(4)] have "cut_ok ?after (Suc e)" by simp
      from cut_ok_slices [OF a(3) this] True show ?thesis
        using Some a b e t l assms(3) by (simp add: windows_home_step_def step_result_ok_def Let_def)
    next
      case False
      then show ?thesis
        using Some a b e t l assms(3) by (simp add: windows_home_step_def step_result_ok_def Let_def)
    qed
  qed (simp add: windows_home_step_def step_result_ok_def)
qed

lemma found_nth: "find_str s p = Some i \<Longrightarrow> k < length p \<Longrightarrow> s ! (i + k) = p ! k"
proof -
  assume f: "find_str s p = Some i" and k: "k < length p"
  from find_str_Some [OF f] have "i + length p \<le> length s" "take (length p) (drop i s) = p"
    by (simp_all add: starts_with_iff)
  then show ?thesis using k by (metis add_leD1 nth_drop nth_take)
qed

lemma byte_ascii_lower: "byte (ascii_lower c) < 128 \<Longrightarrow> byte c < 128"
  by (auto simp: ascii_lower_def is_ascii_upper_def split: if_splits)

interpretation bearer: redaction_pass bearer_step
proof
  fix s assume s: "utf8_ok s"
  show "step_result_ok s (bearer_step s)"
  proof (cases "find_str (to_ascii_lowercase s) BEARER")
    case (Some i)
    have n: "length BEARER = 7" by (simp add: BEARER_def)
    have l: "i + 7 \<le> length s" using find_str_Some [OF Some] n by simp
    have "ascii_lower (s ! (i + k)) = BEARER ! k" if "k < 7" for k
      using found_nth [OF Some, of k] that l n by simp
    from this [of 0] this [of 6] have "byte (s ! i) < 128" "byte (s ! (i + 6)) < 128"
      by (simp_all add: byte_ascii_lower BEARER_def)
    then have c: "cut_ok s i" "cut_ok s (i + 7)"
      using cut_ok_ascii(1) [OF s, of i] cut_ok_ascii(2) [OF s, of "i + 6"] l
      by (simp_all add: add.commute)
    note a = cut_ok_slices [OF s c(1)] cut_ok_slices [OF s c(2)]
    let ?after = "drop (i + 7) s"
    note cut_ok_slices [OF a(7) cut_ok_find_or_end [OF a(7), of is_whitespace]]
    then show ?thesis
      using Some a l n by (simp add: bearer_step_def step_result_ok_def Let_def)
  qed (simp add: bearer_step_def step_result_ok_def)
qed

lemma token_byte_ascii: "token_byte c \<Longrightarrow> byte c < 128"
  by (auto simp: token_byte_def ascii_defs)

lemma token_run_utf8: "utf8_ok s \<Longrightarrow> utf8_ok (dropWhile token_byte s)"
  by (induction s) (auto dest: token_byte_ascii)

lemma find_byte_dropWhile: "find_byte (\<lambda>c. \<not> P c) s = Some k \<Longrightarrow> drop k s = dropWhile P s \<and> k < length s"
  by (induction s arbitrary: k) (auto split: if_splits)

lemma token_end_cut:
  assumes "utf8_ok s"
  shows "cut_ok s (case find_byte (\<lambda>c. \<not> token_byte c) s of Some k \<Rightarrow> k | None \<Rightarrow> length s)"
proof (cases "find_byte (\<lambda>c. \<not> token_byte c) s")
  case (Some k)
  with find_byte_dropWhile [OF this] token_run_utf8 [OF assms] show ?thesis
    by (simp add: cut_ok_drop)
qed simp

lemma find_boundary_from_total:
  assumes "utf8_ok s" "utf8_ok pfx" "pfx \<noteq> []" "byte (hd pfx) < 128" "cut_ok s n"
  shows "\<exists>r. find_boundary_from s pfx n = Some r
    \<and> (\<forall>i. r = Some i \<longrightarrow> n \<le> i \<and> starts_with (drop i s) pfx)"
  using assms(5)
proof (induction "Suc (length s) - n" arbitrary: n rule: less_induct)
  case less
  note d = cut_ok_slices [OF assms(1) less.prems]
  have n: "n \<le> length s" using less.prems by (simp add: cut_ok_def)
  show ?case
  proof (cases "find_str (drop n s) pfx")
    case None
    with d show ?thesis by (simp add: find_boundary_from.simps)
  next
    case (Some rel)
    note f = find_str_Some [OF Some]
    have sw: "starts_with (drop (n + rel) s) pfx" using f by (simp add: add.commute)
    have lt: "n + rel < length s" using f assms(3) n by (cases pfx) auto
    have "s ! (n + rel) = hd pfx"
      using found_nth [OF Some, of 0] assms(3) by (simp add: hd_conv_nth n)
    then have cut: "cut_ok s (Suc (n + rel))" using cut_ok_ascii(2) [OF assms(1) lt] assms(4) by simp
    have "Suc (length s) - Suc (n + rel) < Suc (length s) - n" using n by linarith
    from less.hyps [OF this cut] sw d Some show ?thesis
      by (subst find_boundary_from.simps) (auto simp: Let_def intro: add_leD1)
  qed
qed

lemma TOKEN_PREFIXES_ok: "p \<in> set TOKEN_PREFIXES \<Longrightarrow> utf8_ok p \<and> p \<noteq> [] \<and> byte (hd p) < 128"
proof -
  have "list_all (\<lambda>p. utf8_ok p \<and> p \<noteq> [] \<and> byte (hd p) < 128) TOKEN_PREFIXES"
    by (simp add: TOKEN_PREFIXES_def)
  then show "p \<in> set TOKEN_PREFIXES \<Longrightarrow> utf8_ok p \<and> p \<noteq> [] \<and> byte (hd p) < 128"
    by (simp add: list_all_iff)
qed

lemma find_boundary_ok_total:
  assumes "utf8_ok s" "p \<in> set TOKEN_PREFIXES"
  shows "\<exists>r. find_boundary_ok s p = Some r \<and> (\<forall>i. r = Some i \<longrightarrow> starts_with (drop i s) p)"
proof -
  from TOKEN_PREFIXES_ok [OF assms(2)] have "utf8_ok p" "p \<noteq> []" "byte (hd p) < 128" by auto
  from find_boundary_from_total [OF assms(1) this, of 0] show ?thesis
    by (auto simp: find_boundary_ok_def)
qed

lemma leftmost_token_total:
  assumes "utf8_ok s" "set ps \<subseteq> set TOKEN_PREFIXES"
  shows "\<exists>r. leftmost_token s ps = Some r
    \<and> (\<forall>i p. r = Some (i, p) \<longrightarrow> p \<in> set ps \<and> find_boundary_ok s p = Some (Some i)
         \<and> starts_with (drop i s) p)"
  using assms(2)
proof (induction ps)
  case (Cons p ps)
  then obtain r where "leftmost_token s ps = Some r"
    and r: "\<forall>i p. r = Some (i, p) \<longrightarrow> p \<in> set ps \<and> find_boundary_ok s p = Some (Some i)
         \<and> starts_with (drop i s) p" by auto
  moreover obtain f where "find_boundary_ok s p = Some f" "\<forall>i. f = Some i \<longrightarrow> starts_with (drop i s) p"
    using find_boundary_ok_total [OF assms(1), of p] Cons.prems by auto
  ultimately show ?case by (auto split: option.split if_split)
qed simp

lemma token_cut:
  assumes "utf8_ok s" "p \<in> set TOKEN_PREFIXES" "starts_with (drop i s) p"
  shows "cut_ok s i" "cut_ok s (i + length p)" "length s - (i + length p) < length s"
proof -
  note p = TOKEN_PREFIXES_ok [OF assms(2)]
  from found_boundary [OF assms(3,1)] p
  show "cut_ok s i" "cut_ok s (i + length p)" by (simp_all add: cut_ok_def)
  have "i + length p \<le> length s" using found_boundary [OF assms(3,1)] p by blast
  moreover have "0 < length p" using p by blast
  ultimately show "length s - (i + length p) < length s" by linarith
qed

interpretation prefixed: redaction_pass prefixed_step
proof
  fix s assume s: "utf8_ok s"
  obtain r where r: "leftmost_token s TOKEN_PREFIXES = Some r"
    and found: "\<And>i p. r = Some (i, p) \<Longrightarrow> p \<in> set TOKEN_PREFIXES \<and> starts_with (drop i s) p"
    using leftmost_token_total [OF s subset_refl] by blast
  show "step_result_ok s (prefixed_step s)"
  proof (cases r)
    case None
    with r show ?thesis by (simp add: prefixed_step_def step_result_ok_def)
  next
    case (Some ip)
    then obtain i p where ip: "r = Some (i, p)" by (cases ip) auto
    note c = token_cut [OF s conjunct1 [OF found [OF ip]] conjunct2 [OF found [OF ip]]]
    note a = cut_ok_slices [OF s c(1)] cut_ok_slices [OF s c(2)]
    from cut_ok_slices [OF a(7) token_end_cut [OF a(7)]] show ?thesis
      using r ip a c(3) by (simp add: prefixed_step_def step_result_ok_def Let_def)
  qed
qed

interpretation private_key: redaction_pass private_key_step
proof
  fix s assume s: "utf8_ok s"
  have m: "utf8_ok MARKER" "MARKER \<noteq> []" "utf8_ok SUFFIX" "SUFFIX \<noteq> []"
    by (simp_all add: MARKER_def SUFFIX_def)
  show "step_result_ok s (private_key_step s)"
  proof (cases "find_str s MARKER")
    case (Some i)
    note l = found_shrinks [OF Some m(2)]
    have c: "cut_ok s i" "cut_ok s (i + length MARKER)" using cut_ok_found [OF Some s m(1,2)] by auto
    note a = cut_ok_slices [OF s c(1)] cut_ok_slices [OF s c(2)]
    let ?after = "drop (i + length MARKER) s"
    show ?thesis
    proof (cases "find_str ?after SUFFIX")
      case None
      with Some a l m show ?thesis by (simp add: private_key_step_def step_result_ok_def)
    next
      case found: (Some k)
      have "cut_ok ?after (k + length SUFFIX)" using cut_ok_found [OF found a(7) m(3,4)] by auto
      from cut_ok_slices [OF a(7) this] found Some a l show ?thesis
        by (simp add: private_key_step_def step_result_ok_def)
    qed
  qed (simp add: private_key_step_def step_result_ok_def)
qed

lemma key_start_cut:
  assumes "utf8_ok s" "cut_ok s e"
  shows "cut_ok s (e - length (takeWhile is_ident_byte (rev (take e s))))"
proof -
  let ?n = "length (takeWhile is_ident_byte (rev (take e s)))"
  have e: "e \<le> length s" using assms(2) by (simp add: cut_ok_def)
  have n: "?n \<le> e" using length_takeWhile_le [of is_ident_byte "rev (take e s)"] e by simp
  show ?thesis
  proof (cases "?n = 0")
    case False
    then have k: "?n - 1 < ?n" by simp
    then have "rev (take e s) ! (?n - 1) \<in> set (takeWhile is_ident_byte (rev (take e s)))"
      by (metis nth_mem takeWhile_nth)
    then have "is_ident_byte (rev (take e s) ! (?n - 1))" by (auto dest: set_takeWhileD)
    moreover have "rev (take e s) ! (?n - 1) = take e s ! (length (take e s) - Suc (?n - 1))"
      by (rule rev_nth) (use False n e in \<open>simp, linarith\<close>)
    moreover have "length (take e s) - Suc (?n - 1) = e - ?n" using False e by simp
    moreover have "take e s ! (e - ?n) = s ! (e - ?n)" using False n by (intro nth_take) linarith
    ultimately have "is_ident_byte (s ! (e - ?n))" by (simp only:)
    then have "byte (s ! (e - ?n)) < 128" by (auto simp: is_ident_byte_def ascii_defs)
    moreover have "e - ?n < length s" using False n e by linarith
    ultimately show ?thesis using cut_ok_ascii(1) [OF assms(1)] by blast
  qed (use assms in simp)
qed

lemma cut_ok_slice: "utf8_ok s \<Longrightarrow> cut_ok s a \<Longrightarrow> cut_ok s b \<Longrightarrow> a \<le> b \<Longrightarrow> str_slice s a b \<noteq> None"
  by (simp add: str_slice_def cut_ok_def)

interpretation key_value: redaction_pass key_value_step
proof
  fix s assume s: "utf8_ok s"
  show "step_result_ok s (key_value_step s)"
  proof (cases "find_str s ''=''")
    case (Some e)
    have l: "Suc e \<le> length s" "length s - (Suc e) < length s" "s \<noteq> []"
      using found_shrinks [OF Some] by auto
    have c: "cut_ok s e" "cut_ok s (Suc e)" using cut_ok_found [OF Some s] by simp_all
    note a = cut_ok_slices [OF s c(2)]
    let ?v = "drop (Suc e) s"
    let ?ks = "e - length (takeWhile is_ident_byte (rev (take e s)))"
    obtain key where key: "str_slice s ?ks e = Some key"
      using cut_ok_slice [OF s key_start_cut [OF s c(1)] c(1)] by auto
    note w = cut_ok_slices [OF a(3) cut_ok_find_or_end [OF a(3), of is_whitespace]]
    consider "\<not> is_sensitive_key key" | "is_sensitive_key key" "\<not> starts_with ?v [dquote]"
      | "is_sensitive_key key" "starts_with ?v [dquote]" by blast
    then show ?thesis
    proof cases
      case 3
      note q = cut_ok_slices [OF a(3) cut_ok_head [OF a(3) 3(2)]]
      show ?thesis
      proof (cases "find_str (drop 1 ?v) [dquote]")
        case None
        with 3 Some a key q l show ?thesis
          by (simp add: key_value_step_def step_result_ok_def Let_def)
      next
        case found: (Some k)
        have "cut_ok (drop 1 ?v) (k + 1)" using cut_ok_found [OF found] q by simp
        from cut_ok_slices [OF _ this] found 3 Some a key q l show ?thesis
          by (simp add: key_value_step_def step_result_ok_def Let_def)
      qed
    qed (use Some a key w l in \<open>simp_all add: key_value_step_def step_result_ok_def Let_def\<close>)
  qed (simp add: key_value_step_def step_result_ok_def)
qed

text \<open>
  Redaction always returns. With the segmentation's laws and a home directory that is text,
  every pass over every valid text terminates without a panic, and what it returns is valid text;
  so does the whole pipeline of a log line, within its byte limit.
\<close>

lemma redact_sensitive_total:
  assumes "text_env_ok te" "utf8_ok s"
  shows "\<exists>t. redact_sensitive te s = Some t \<and> utf8_ok t"
proof -
  obtain t0 where t0: "(case te_home te of None \<Rightarrow> Some s
      | Some home \<Rightarrow> if home \<noteq> [] then replace_home_prefix_at_boundary s home else Some s) = Some t0"
    "utf8_ok t0"
  proof (cases "te_home te")
    case (Some h)
    then have "utf8_ok h" using assms(1) by (simp add: text_env_ok_def)
    then show ?thesis
      using that Some assms(2) redaction_pass.total [OF home_step_pass, of h s]
      by (cases "h = []") (auto simp: replace_home_prefix_at_boundary_def)
  qed (use that assms in simp)
  have u: "utf8_ok ''/home/''" "utf8_ok ''/Users/''" "utf8_ok '':/Users/''"
    "utf8_ok ('':'' @ [backslash] @ ''Users'' @ [backslash])" by simp_all
  note unix = redaction_pass.total [OF unix_home_step_pass [OF assms(1)]]
    and windows = redaction_pass.total [OF windows_home_step_pass [OF assms(1)]]
  obtain t1 where t1: "redact_unix_home_run te t0 ''/home/'' = Some t1" "utf8_ok t1"
    using unix [OF u(1) _ t0(2)] by (auto simp: redact_unix_home_run_def)
  obtain t2 where t2: "redact_unix_home_run te t1 ''/Users/'' = Some t2" "utf8_ok t2"
    using unix [OF u(2) _ t1(2)] by (auto simp: redact_unix_home_run_def)
  obtain t3 where t3: "redact_windows_home_run te t2 ('':'' @ [backslash] @ ''Users'' @ [backslash]) = Some t3"
    "utf8_ok t3"
    using windows [OF u(4) _ _ t2(2)] by (auto simp: redact_windows_home_run_def)
  obtain t4 where t4: "redact_windows_home_run te t3 '':/Users/'' = Some t4" "utf8_ok t4"
    using windows [OF u(3) _ _ t3(2)] by (auto simp: redact_windows_home_run_def)
  have "redact_home_paths te s = Some t4"
    using t0(1) t1(1) t2(1) t3(1) t4(1) by (simp add: redact_home_paths_def)
  moreover obtain t5 where t5: "redact_bearer_tokens t4 = Some t5" "utf8_ok t5"
    using bearer.total [OF t4(2)] by (auto simp: redact_bearer_tokens_def)
  moreover obtain t6 where t6: "redact_prefixed_tokens t5 = Some t6" "utf8_ok t6"
    using prefixed.total [OF t5(2)] by (auto simp: redact_prefixed_tokens_def)
  moreover obtain t7 where t7: "redact_private_key_headers t6 = Some t7" "utf8_ok t7"
    using private_key.total [OF t6(2)] by (auto simp: redact_private_key_headers_def)
  moreover obtain t8 where "redact_key_value_pairs t7 = Some t8" "utf8_ok t8"
    using key_value.total [OF t7(2)] by (auto simp: redact_key_value_pairs_def)
  ultimately show ?thesis by (simp add: redact_sensitive_def)
qed

text \<open>A segmentation that takes every character for a grapheme obeys the laws.\<close>

definition plain_env :: text_env where
  "plain_env = \<lparr>te_home = Some ''/home/bob'', te_graphemes = chars, te_alnum = (\<lambda>c. list_all is_ascii_alnum c)\<rparr>"

lemma chars_utf8: "utf8_ok s \<Longrightarrow> c \<in> set (chars s) \<Longrightarrow> utf8_ok c"
  by (rule wf_utf8_char_ok) (simp add: utf8_ok_def [of s] list_all_iff)

lemma plain_env_ok: "text_env_ok plain_env"
  using chars_nonempty chars_utf8 by (simp add: text_env_ok_def plain_env_def)

lemma redact_sensitive_total_witness:
  "\<exists>t. redact_sensitive plain_env ''open /home/bob/x key=abc'' = Some t \<and> utf8_ok t"
  by (rule redact_sensitive_total [OF plain_env_ok]) simp

subsection \<open>The output contract\<close>

lemma walk_back_spec:
  "walk_back s i \<le> i \<and> is_char_boundary s (walk_back s i)
   \<and> (\<forall>j. walk_back s i < j \<and> j \<le> i \<longrightarrow> \<not> is_char_boundary s j)"
  by (induction i) (auto simp: le_Suc_eq)

text \<open>
  Truncation never panics, keeps the text valid and is the longest cut that fits: the result is
  a prefix of at most \<open>limit\<close> bytes, and every character boundary within the limit is inside it.
\<close>

lemma truncate_longest_prefix:
  assumes "utf8_ok s"
  shows "\<exists>t. truncate_to_byte_limit s limit = Some t \<and> utf8_ok t \<and> length t \<le> limit
    \<and> t = take (length t) s
    \<and> (\<forall>j. j \<le> limit \<and> j \<le> length s \<and> is_char_boundary s j \<longrightarrow> j \<le> length t)"
proof (cases "length s \<le> limit")
  case True
  with assms show ?thesis by (simp add: truncate_to_byte_limit_def)
next
  case False
  note w = walk_back_spec [of s limit]
  have le: "walk_back s limit \<le> length s" using w False by linarith
  with w have "cut_ok s (walk_back s limit)" by (simp add: cut_ok_def)
  from cut_ok_slices [OF assms this] have "truncate_to_byte_limit s limit = Some (take (walk_back s limit) s)"
    "utf8_ok (take (walk_back s limit) s)"
    using False by (simp_all add: truncate_to_byte_limit_def slice_to_def)
  moreover have "j \<le> walk_back s limit" if "j \<le> limit" "is_char_boundary s j" for j
    using w that by (meson not_le)
  ultimately show ?thesis using w le by (simp add: min_absorb2)
qed

lemma truncate_longest_prefix_witness:
  "\<exists>t. truncate_to_byte_limit [CHR ''a'', CHR 0xC3, CHR 0xA9] 2 = Some t \<and> utf8_ok t \<and> length t \<le> 2"
  using truncate_longest_prefix [of "[CHR ''a'', CHR 0xC3, CHR 0xA9]" 2]
  by (auto simp: utf8_ok_Cons utf8_extra_def is_cont_def)

lemma truncate_cases:
  assumes "utf8_ok s"
  shows "\<exists>t r. truncate_to_byte_limit s limit = Some t \<and> s = t @ r \<and> utf8_ok t \<and> utf8_ok r
    \<and> length t \<le> limit"
proof (cases "length s \<le> limit")
  case True
  with assms show ?thesis by (simp add: truncate_to_byte_limit_def)
next
  case False
  note w = walk_back_spec [of s limit]
  have "walk_back s limit \<le> length s" using w False by linarith
  with w have "cut_ok s (walk_back s limit)" by (simp add: cut_ok_def)
  from cut_ok_slices [OF assms this] show ?thesis
    using False w by (intro exI [of _ "take (walk_back s limit) s"] exI [of _ "drop (walk_back s limit) s"])
      (simp add: truncate_to_byte_limit_def slice_to_def min_def)
qed

definition body_safe :: "string \<Rightarrow> bool" where
  "body_safe s \<longleftrightarrow> utf8_ok s \<and> (\<forall>c\<in>set (chars s). keep_char c) \<and> CHR ''<'' \<notin> set s \<and> CHR ''>'' \<notin> set s"

lemma body_safe_append: "utf8_ok s \<Longrightarrow> body_safe (s @ t) \<longleftrightarrow> body_safe s \<and> body_safe t"
  by (auto simp: body_safe_def chars_append)

lemma escape_append: "escape_tags (s @ t) = escape_tags s @ escape_tags t"
  by (simp add: escape_tags_def)

lemma escape_char_safe:
  assumes "wf_utf8_char c" "keep_char c"
  shows "body_safe (escape_tags c)"
proof (cases "\<exists>a. c = [a] \<and> (a = CHR ''<'' \<or> a = CHR ''>'')")
  case True
  then show ?thesis
    by (auto simp: escape_tags_def escape_byte_def body_safe_def keep_char_def)
next
  case False
  have "a \<noteq> CHR ''<'' \<and> a \<noteq> CHR ''>''" if "a \<in> set c" for a
    using assms(1) that False by (cases c rule: wf_utf8_char.cases) (auto simp: is_cont_def)
  then have "escape_tags c = c" "CHR ''<'' \<notin> set c" "CHR ''>'' \<notin> set c"
    by (induction c) (auto simp: escape_tags_def escape_byte_def)
  with assms show ?thesis by (simp add: body_safe_def wf_utf8_char_ok chars_wf_char)
qed

lemma escape_chars_safe:
  "\<forall>c\<in>set cs. wf_utf8_char c \<and> keep_char c \<Longrightarrow> body_safe (escape_tags (concat cs))"
proof (induction cs)
  case (Cons c cs)
  then have "body_safe (escape_tags c)" by (simp add: escape_char_safe)
  with Cons show ?case by (simp add: escape_append body_safe_append body_safe_def [of "escape_tags c"])
qed (simp add: escape_tags_def body_safe_def)

lemma stripped_safe: "utf8_ok s \<Longrightarrow> body_safe (escape_tags (strip_control_chars s))"
  unfolding strip_control_chars_def
  by (rule escape_chars_safe) (auto simp: utf8_ok_def list_all_iff)

text \<open>
  C5: A sanitized body is inert and fits. For every text and limit, sanitizing returns valid text of
  at most \<open>limit\<close> bytes that holds no angle bracket and no control, C1 or bidirectional override
  character but tab, line feed and carriage return, although escaping makes the text longer.
\<close>

theorem sanitize_body_safe:
  assumes "utf8_ok raw"
  shows "\<exists>t. sanitize_mcp_body_with_limit raw limit = Some t \<and> body_safe t \<and> length t \<le> limit"
proof -
  obtain pre where pre: "truncate_to_byte_limit raw limit = Some pre" "utf8_ok pre"
    using truncate_cases [OF assms] by blast
  let ?e = "escape_tags (strip_control_chars pre)"
  have e: "body_safe ?e" by (rule stripped_safe [OF pre(2)])
  then have "utf8_ok ?e" by (simp add: body_safe_def)
  from truncate_cases [OF this, of limit] obtain t r where
    t: "truncate_to_byte_limit ?e limit = Some t" "?e = t @ r" "utf8_ok t" "length t \<le> limit" by blast
  have "body_safe t" using e t(2,3) body_safe_append [of t r] by simp
  with pre t show ?thesis by (simp add: sanitize_mcp_body_with_limit_def)
qed

theorem sanitize_body_safe_witness:
  "\<exists>t. sanitize_mcp_body_with_limit ''<b>'' 6 = Some t \<and> body_safe t \<and> length t \<le> 6"
  by (rule sanitize_body_safe) simp

text \<open>
  The envelope cannot be closed from inside. Whatever text a tool answers, the only closing tag
  in the wrapped answer is the one that ends it, and between the tags there is only inert text.
\<close>

lemma envelope_closed_once:
  assumes "utf8_ok raw" "sanitize_for_mcp raw = a @ ''</travsr-data>'' @ b"
  shows "b = [] \<and> body_safe (escape_tags (strip_control_chars raw))"
proof -
  let ?body = "escape_tags (strip_control_chars raw)"
  have safe: "body_safe ?body" by (rule stripped_safe [OF assms(1)])
  let ?out = "sanitize_for_mcp raw"
  have "\<exists>mid. ?out = ''<travsr-data>'' @ mid @ ''</travsr-data>'' \<and> CHR ''<'' \<notin> set mid"
    using safe by (cases "?body = []")
      (auto simp: sanitize_for_mcp_def wrap_envelope_def body_safe_def intro: exI [of _ "[]"]
        exI [of _ "[newline] @ ?body @ [newline]"])
  then obtain mid where mid: "?out = ''<travsr-data>'' @ mid @ ''</travsr-data>''" "CHR ''<'' \<notin> set mid"
    by blast
  have "a \<noteq> []" using mid(1) assms(2) by auto
  then obtain a' where a: "a = CHR ''<'' # a'" using mid(1) assms(2) by (cases a) auto
  have n: "CHR ''<'' \<notin> set (''travsr-data>'' @ mid)" "CHR ''<'' \<notin> set ''/travsr-data>''"
    using mid(2) by simp_all
  have "(''travsr-data>'' @ mid) @ CHR ''<'' # ''/travsr-data>'' = a' @ CHR ''<'' # (''/travsr-data>'' @ b)"
    using mid(1) assms(2) by (simp add: a)
  from conjunct2 [OF iffD1 [OF append_Cons_eq_iff [OF n] this]]
  have "''/travsr-data>'' = ''/travsr-data>'' @ b" .
  then have "b = []" by simp
  with safe show ?thesis by blast
qed

lemma envelope_closed_once_witness:
  "sanitize_for_mcp ''</travsr-data>x'' = ''<travsr-data>'' @ [newline] @ ''&lt;/travsr-data&gt;x'' @ [newline]
     @ ''</travsr-data>'' \<and> body_safe (escape_tags (strip_control_chars ''</travsr-data>x''))"
proof -
  have e: "sanitize_for_mcp ''</travsr-data>x'' = (''<travsr-data>'' @ [newline] @ ''&lt;/travsr-data&gt;x'' @ [newline])
      @ ''</travsr-data>'' @ []"
    by (simp add: sanitize_for_mcp_def wrap_envelope_def escape_tags_def escape_byte_def
        strip_control_chars_def keep_char_def)
  from envelope_closed_once [OF _ e] e show ?thesis by simp
qed

subsection \<open>The input contract\<close>

text \<open>What an accepted argument promises to the code that joins it to a path.\<close>

definition arg_contained :: "nat \<Rightarrow> string \<Rightarrow> bool" where
  "arg_contained max_bytes arg \<longleftrightarrow> length arg \<le> max_bytes \<and> CHR 0x00 \<notin> set arg
     \<and> ''..'' \<notin> set (split_on is_sep arg) \<and> \<not> is_absolute arg
     \<and> (\<forall>root. is_absolute root \<longrightarrow> (\<exists>cs. lexical (components (path_join root arg))
            = lexical (components root) @ cs))"

lemma no_dotdot_segment:
  assumes "\<not> contains_str arg ''../''" "\<not> contains_str arg (''..'' @ [backslash])" "arg \<noteq> ''..''"
    "\<not> ends_with arg ''/..''" "\<not> ends_with arg ([backslash] @ ''..'')"
    and P: "\<And>c. P c \<Longrightarrow> is_sep c"
  shows "''..'' \<notin> set (split_on P arg)"
proof
  assume "''..'' \<in> set (split_on P arg)"
  then obtain a b where ab: "arg = a @ ''..'' @ b" "a = [] \<or> P (last a)" "b = [] \<or> P (hd b)"
    using split_on_mem by blast
  show False
  proof (cases b)
    case (Cons d b')
    with ab P have "d = CHR ''/'' \<or> d = backslash" by (auto simp: is_sep_def)
    then have "arg = a @ ''../'' @ b' \<or> arg = a @ (''..'' @ [backslash]) @ b'" using ab(1) Cons by auto
    then show False using assms(1,2) by (auto simp: contains_str_iff)
  next
    case Nil
    show False
    proof (cases a rule: rev_cases)
      case (snoc a' d)
      with ab P have "d = CHR ''/'' \<or> d = backslash" by (auto simp: is_sep_def)
      then have "arg = a' @ ''/..'' \<or> arg = a' @ ([backslash] @ ''..'')" using ab(1) Nil snoc by auto
      then show False using assms(4,5) by (auto simp: ends_with_iff)
    qed (use ab Nil assms(3) in simp)
  qed
qed

text \<open>
  C6: An accepted argument stays inside. Whatever the length limit, an argument that passes
  \<open>validate_mcp_arg\<close>, its list variant or its file variant has no NUL byte and no parent segment
  under either separator, is not absolute, and joined to any absolute root it resolves to a place
  at or below that root.
\<close>

theorem validated_arg_contained:
  "(validate_mcp_arg arg = Inr () \<longrightarrow> arg_contained MAX_ARG_BYTES arg \<and> CHR ''%'' \<notin> set arg)
   \<and> (validate_mcp_list_arg arg = Inr () \<longrightarrow> arg_contained MAX_LIST_ARG_BYTES arg \<and> CHR ''%'' \<notin> set arg)
   \<and> (validate_mcp_file_arg arg = Inr () \<longrightarrow> arg_contained MAX_ARG_BYTES arg)"
proof -
  have "arg_contained n arg \<and> (pct \<longrightarrow> CHR ''%'' \<notin> set arg)" if "validate_with_limit arg n pct = Inr ()" for n pct
  proof -
    from that have v: "length arg \<le> n" "CHR 0x00 \<notin> set arg" "pct \<longrightarrow> CHR ''%'' \<notin> set arg"
      "\<not> contains_str arg ''../''" "\<not> contains_str arg (''..'' @ [backslash])" "arg \<noteq> ''..''"
      "\<not> ends_with arg ''/..''" "\<not> ends_with arg ([backslash] @ ''..'')" "\<not> starts_with arg ''/''"
      unfolding validate_with_limit_def by (simp_all split: if_splits)
    have "''..'' \<notin> set (split_on is_sep arg)" by (rule no_dotdot_segment [OF v(4-8)])
    moreover have "''..'' \<notin> set (path_pieces arg)" unfolding path_pieces_def
      by (rule no_dotdot_segment [OF v(4-8)]) (simp add: is_sep_def)
    ultimately show ?thesis
      using v lexical_path_join by (simp add: arg_contained_def is_absolute_def)
  qed
  then show ?thesis
    by (simp add: validate_mcp_arg_def validate_mcp_list_arg_def validate_mcp_file_arg_def)
qed

theorem validated_arg_contained_witness:
  "arg_contained MAX_ARG_BYTES ''src/a.rs''"
proof -
  have "validate_mcp_arg ''src/a.rs'' = Inr ()"
    by (simp add: validate_mcp_arg_def validate_with_limit_def MAX_ARG_BYTES_def contains_str_def
        ends_with_def)
  with validated_arg_contained [of "''src/a.rs''"] show ?thesis by blast
qed

subsection \<open>No credential prefix survives its pass\<close>

definition token_at :: "string \<Rightarrow> string \<Rightarrow> nat \<Rightarrow> bool" where
  "token_at s p i \<longleftrightarrow> starts_with (drop i s) p \<and> (i = 0 \<or> \<not> is_ident_byte (s ! (i - 1)))"

lemma find_str_least:
  "find_str s p = Some i \<Longrightarrow> j < i \<Longrightarrow> \<not> starts_with (drop j s) p"
proof (induction s arbitrary: i j)
  case (Cons c s)
  then show ?case by (cases j) (auto split: if_splits)
qed (simp split: if_splits)

lemma find_str_none: "find_str s p = None \<Longrightarrow> \<not> starts_with (drop j s) p"
proof (induction s arbitrary: j)
  case (Cons c s)
  then show ?case by (cases j) (auto split: if_splits)
qed (auto split: if_splits simp: neq_Nil_conv)

lemma find_boundary_from_least:
  "find_boundary_from s p n = Some r \<Longrightarrow>
     (case r of None \<Rightarrow> \<forall>i\<ge>n. \<not> token_at s p i
      | Some k \<Rightarrow> \<forall>i. n \<le> i \<and> i < k \<longrightarrow> \<not> token_at s p i)"
proof (induction s p n arbitrary: r rule: find_boundary_from.induct)
  case (1 s p n)
  from "1.prems" have n: "slice_from s n = Some (drop n s)"
    by (subst (asm) find_boundary_from.simps)
       (auto simp: slice_from_def str_slice_def split: option.splits if_splits)
  show ?case
  proof (cases "find_str (drop n s) p")
    case None
    with "1.prems" n have "r = None" by (simp add: find_boundary_from.simps)
    moreover have "\<not> starts_with (drop i s) p" if "n \<le> i" for i
      using find_str_none [OF None, of "i - n"] that by simp
    ultimately show ?thesis by (simp add: token_at_def)
  next
    case (Some rel)
    have before: "\<not> starts_with (drop i s) p" if "n \<le> i" "i < n + rel" for i
      using find_str_least [OF Some, of "i - n"] that by auto
    show ?thesis
    proof (cases "n + rel = 0 \<or> \<not> is_ident_byte (s ! (n + rel - 1))")
      case True
      with "1.prems" n Some have "r = Some (n + rel)" by (subst (asm) find_boundary_from.simps) auto
      with before show ?thesis by (simp add: token_at_def)
    next
      case False
      with "1.prems" n Some have rec: "find_boundary_from s p (n + rel + 1) = Some r"
        by (subst (asm) find_boundary_from.simps) auto
      have here: "\<not> token_at s p i" if "n \<le> i" "i < n + rel + 1" for i
        using that False before by (cases "i = n + rel") (auto simp: token_at_def)
      from "1.IH" [OF n Some refl False] rec
      show ?thesis using here by (cases r) (auto, (metis Suc_eq_plus1 not_less_eq_eq le_simps(2))+)
    qed
  qed
qed

lemma leftmost_token_least:
  "leftmost_token s ps = Some r \<Longrightarrow> p \<in> set ps \<Longrightarrow>
     (case r of None \<Rightarrow> \<not> token_at s p i | Some (k, q) \<Rightarrow> i < k \<longrightarrow> \<not> token_at s p i)"
proof (induction ps arbitrary: r)
  case (Cons q ps)
  from Cons.prems(1) obtain f l where f: "find_boundary_ok s q = Some f" and l: "leftmost_token s ps = Some l"
    and r: "r = (case f of None \<Rightarrow> l | Some i \<Rightarrow> (case l of None \<Rightarrow> Some (i, q)
               | Some (j, p) \<Rightarrow> if i \<le> j then Some (i, q) else Some (j, p)))"
    by (auto split: option.splits)
  have fq: "case f of None \<Rightarrow> \<not> token_at s q i | Some k \<Rightarrow> i < k \<longrightarrow> \<not> token_at s q i"
    using find_boundary_from_least [OF f [unfolded find_boundary_ok_def]] by (cases f) auto
  show ?case
  proof (cases "p = q")
    case True
    with fq r show ?thesis by (auto split: option.splits if_splits prod.splits)
  next
    case False
    with Cons.prems(2) have "p \<in> set ps" by simp
    from Cons.IH [OF l this] r show ?thesis by (auto split: option.splits if_splits prod.splits)
  qed
qed simp

lemma starts_with_nth_eq:
  assumes "starts_with (drop i s) p" "k < length p"
  shows "s ! (i + k) = p ! k \<and> i + k < length s"
proof -
  from starts_with_drop [OF assms(1)] have d: "drop i s = p @ drop (length p) (drop i s)" .
  have "length p \<le> length (drop i s)" using arg_cong [OF d, of length] by simp
  with assms(2) have "i + k < length s" by simp
  moreover from this have "s ! (i + k) = drop i s ! k" by simp
  ultimately show ?thesis using d assms(2) by (metis nth_append)
qed

abbreviation REDACTED :: string where "REDACTED \<equiv> ''[redacted]''"

lemma token_prefix_chars:
  "p \<in> set TOKEN_PREFIXES \<Longrightarrow> CHR ''['' \<notin> set p \<and> CHR '']'' \<notin> set p \<and> (\<exists>c\<in>set p. c \<notin> set ''redacted'')"
proof -
  have "list_all (\<lambda>p. CHR ''['' \<notin> set p \<and> CHR '']'' \<notin> set p \<and> list_ex (\<lambda>c. c \<notin> set ''redacted'') p)
      TOKEN_PREFIXES" by (simp add: TOKEN_PREFIXES_def)
  then show "p \<in> set TOKEN_PREFIXES \<Longrightarrow> CHR ''['' \<notin> set p \<and> CHR '']'' \<notin> set p \<and> (\<exists>c\<in>set p. c \<notin> set ''redacted'')"
    by (simp add: list_all_iff list_ex_iff)
qed

lemma around_redacted:
  assumes "starts_with (drop i (x @ REDACTED @ y)) p" "p \<in> set TOKEN_PREFIXES"
  shows "i + length p \<le> length x \<or> length x + 10 \<le> i"
proof (rule ccontr)
  assume n: "\<not> ?thesis"
  note pc = token_prefix_chars [OF assms(2)]
  note at = starts_with_nth_eq [OF assms(1)]
  have "length x < i"
  proof (rule ccontr)
    assume "\<not> length x < i"
    then have k: "i + (length x - i) = length x" "length x - i < length p" using n by linarith+
    from at [OF k(2)] have "p ! (length x - i) = CHR ''[''" by (simp add: k(1))
    then show False using pc nth_mem [OF k(2)] by simp
  qed
  moreover have "i + length p \<le> length x + 9"
  proof (rule ccontr)
    assume "\<not> i + length p \<le> length x + 9"
    then have k: "i + (length x + 9 - i) = length x + 9" "length x + 9 - i < length p"
      using n by linarith+
    from at [OF k(2)] have "p ! (length x + 9 - i) = CHR '']''" by (simp add: k(1) nth_append)
    then show False using pc nth_mem [OF k(2)] by simp
  qed
  moreover have "c \<in> set ''redacted''" if c: "c \<in> set p" for c
  proof -
    from c obtain k where k: "k < length p" "c = p ! k" by (metis in_set_conv_nth)
    define m where "m = i + k - length x - 1"
    have m: "i + k = length x + Suc m" "m < 8" using calculation k(1) by (simp_all add: m_def)
    have "c = (x @ REDACTED @ y) ! (length x + Suc m)" using at [OF k(1)] k(2) m(1) by simp
    also have "\<dots> = (REDACTED @ y) ! Suc m" by (simp only: nth_append_length_plus)
    also have "\<dots> = (''redacted'' @ CHR '']'' # y) ! m" by simp
    also have "\<dots> = ''redacted'' ! m"
      using m(2) by (simp only: nth_append list.size) simp
    finally show ?thesis using m(2) nth_mem [of m "''redacted''"] by simp
  qed
  ultimately show False using pc by blast
qed

lemma no_token_glue:
  assumes "\<And>i. i + length p \<le> length x \<Longrightarrow> \<not> token_at (x @ z) p i" "\<And>i. \<not> token_at t p i"
    "p \<in> set TOKEN_PREFIXES"
  shows "\<not> token_at (x @ REDACTED @ t) p i"
proof
  assume tok: "token_at (x @ REDACTED @ t) p i"
  then have sw: "starts_with (drop i (x @ REDACTED @ t)) p" by (simp add: token_at_def)
  from around_redacted [OF sw assms(3)] show False
  proof
    assume l: "i + length p \<le> length x"
    with sw have "starts_with (drop i (x @ z)) p" by (simp add: starts_with_iff)
    moreover have "(x @ REDACTED @ t) ! (i - 1) = (x @ z) ! (i - 1)"
      if "i \<noteq> 0"
    proof -
      have "i - 1 < length x" using that l by linarith
      then show ?thesis by (simp only: nth_append if_True)
    qed
    ultimately have "token_at (x @ z) p i" using tok by (auto simp: token_at_def)
    with assms(1) l show False by blast
  next
    assume "length x + 10 \<le> i"
    then obtain j where j: "i = length x + (10 + j)" using le_Suc_ex by (metis add.assoc)
    have "drop i (x @ REDACTED @ t) = drop j t" by (simp add: j eval_nat_numeral)
    then have "starts_with (drop j t) p" using sw by simp
    moreover have "j = 0 \<or> \<not> is_ident_byte (t ! (j - 1))"
    proof (cases j)
      case (Suc k)
      have "(x @ REDACTED @ t) ! (i - 1) = t ! k" by (simp add: j Suc nth_append)
      then show ?thesis using tok by (simp add: token_at_def Suc j)
    qed simp
    ultimately show False using assms(2) [of j] by (simp add: token_at_def)
  qed
qed

text \<open>
  No credential shape is left. After the pass over prefixed tokens no known credential prefix
  occurs in the result outside the middle of an identifier.
\<close>

lemma no_token_left:
  assumes "utf8_ok s" "redact_prefixed_tokens s = Some t" "p \<in> set TOKEN_PREFIXES"
  shows "\<not> token_at t p i"
  using assms(1,2)
proof (induction "length s" arbitrary: s t i rule: less_induct)
  case less
  from less.prems(2) have loop: "redact_loop prefixed_step s = Some t"
    by (simp add: redact_prefixed_tokens_def)
  obtain r where r: "leftmost_token s TOKEN_PREFIXES = Some r"
    and found: "\<And>k q. r = Some (k, q) \<Longrightarrow> q \<in> set TOKEN_PREFIXES \<and> starts_with (drop k s) q"
    using leftmost_token_total [OF less.prems(1) subset_refl] by blast
  show ?case
  proof (cases r)
    case None
    with r loop have "t = s" by (simp add: redact_loop.simps prefixed_step_def)
    with leftmost_token_least [OF r assms(3), of i] None show ?thesis by simp
  next
    case (Some kq)
    then obtain k q where kq: "r = Some (k, q)" by (cases kq) auto
    note c = token_cut [OF less.prems(1) conjunct1 [OF found [OF kq]] conjunct2 [OF found [OF kq]]]
    note a = cut_ok_slices [OF less.prems(1) c(1)] cut_ok_slices [OF less.prems(1) c(2)]
    let ?rest = "drop (case find_byte (\<lambda>c. \<not> token_byte c) (drop (k + length q) s) of
        Some i \<Rightarrow> i | None \<Rightarrow> length (drop (k + length q) s)) (drop (k + length q) s)"
    note e = cut_ok_slices [OF a(7) token_end_cut [OF a(7)]]
    have step: "prefixed_step s = Some (Some (take k s @ REDACTED, ?rest))"
      using r kq a e by (simp add: prefixed_step_def Let_def)
    have lt: "length ?rest < length s" using c(3) by simp
    from loop step lt obtain t' where t': "redact_loop prefixed_step ?rest = Some t'"
      and t: "t = take k s @ REDACTED @ t'"
      by (subst (asm) redact_loop.simps) (auto split: if_splits)
    have "\<not> token_at t' p j" for j
      using less.hyps [OF lt e(3)] t' by (simp add: redact_prefixed_tokens_def)
    moreover have "\<not> token_at (take k s @ drop k s) p j" if "j + length p \<le> length (take k s)" for j
    proof -
      have "p \<noteq> []" using TOKEN_PREFIXES_ok [OF assms(3)] by blast
      then have "j < k" using that by (cases p) auto
      with leftmost_token_least [OF r assms(3), of j] kq show ?thesis by simp
    qed
    ultimately show ?thesis unfolding t by (intro no_token_glue [OF _ _ assms(3)])
  qed
qed

lemma no_token_left_witness:
  "\<not> token_at ''a [redacted]'' ''ghp_'' 0"
proof -
  have "leftmost_token ''a ghp_1'' TOKEN_PREFIXES = Some (Some (2, ''ghp_''))"
    by (simp add: TOKEN_PREFIXES_def find_boundary_ok_def find_boundary_from.simps slice_from_def
        str_slice_def is_char_boundary_def is_cont_def is_ident_byte_def ascii_defs)
  moreover have "slice_to ''a ghp_1'' 2 = Some ''a ''" "slice_from ''a ghp_1'' (Suc (Suc (Suc (Suc (Suc (Suc 0)))))) = Some ''1''"
    "slice_from ''1'' 1 = Some []"
    using cut_ok_slices [of "''a ghp_1''" 2] cut_ok_slices [of "''a ghp_1''" "Suc (Suc (Suc (Suc (Suc (Suc 0)))))"]
      cut_ok_slices [of "''1''" 1]
    by (simp_all add: cut_ok_def is_char_boundary_def is_cont_def)
  ultimately have "prefixed_step ''a ghp_1'' = Some (Some (''a [redacted]'', []))"
    by (simp add: prefixed_step_def token_byte_def ascii_defs)
  moreover have "prefixed_step [] = Some None"
    by (simp add: prefixed_step_def TOKEN_PREFIXES_def find_boundary_ok_def find_boundary_from.simps
        slice_from_def str_slice_def)
  ultimately have "redact_prefixed_tokens ''a ghp_1'' = Some ''a [redacted]''"
    by (simp add: redact_prefixed_tokens_def redact_loop.simps)
  from no_token_left [OF _ this] show ?thesis by (simp add: TOKEN_PREFIXES_def)
qed

text \<open>
  The passes run before the control characters are stripped, so a credential with a control
  character inside its prefix passes redaction and is whole again in the answer.
\<close>

lemma redact_loop_copy: "step s = Some None \<Longrightarrow> redact_loop step s = Some s"
  by (simp add: redact_loop.simps)

text \<open>
  A split credential resurfaces. A log value whose credential prefix is interrupted by a
  control character passes every redaction unchanged, and stripping the control character then
  puts the recognisable token back together in the sanitized answer.
\<close>

lemma split_token_resurfaces:
  "sanitize_log_value plain_env (''ghp'' @ [CHR 0x01] @ ''_1'') 64 = Some ''ghp_1''
   \<and> token_at ''ghp_1'' ''ghp_'' 0"
proof -
  let ?s = "[CHR ''g'', CHR ''h'', CHR ''p'', CHR 0x01, CHR ''_'', CHR ''1'']"
  have "redact_home_paths plain_env ?s = Some ?s"
    by (simp add: redact_home_paths_def plain_env_def replace_home_prefix_at_boundary_def
        redact_unix_home_run_def redact_windows_home_run_def redact_loop_copy home_step_def
        unix_home_step_def windows_home_step_def)
  moreover have "redact_bearer_tokens ?s = Some ?s"
    by (simp add: redact_bearer_tokens_def redact_loop_copy bearer_step_def BEARER_def
        ascii_lower_def is_ascii_upper_def)
  moreover have "redact_prefixed_tokens ?s = Some ?s"
    by (simp add: redact_prefixed_tokens_def redact_loop_copy prefixed_step_def TOKEN_PREFIXES_def
        find_boundary_ok_def find_boundary_from.simps slice_from_def str_slice_def
        is_char_boundary_def is_cont_def)
  moreover have "redact_private_key_headers ?s = Some ?s"
    by (simp add: redact_private_key_headers_def redact_loop_copy private_key_step_def MARKER_def)
  moreover have "redact_key_value_pairs ?s = Some ?s"
    by (simp add: redact_key_value_pairs_def redact_loop_copy key_value_step_def)
  moreover have "sanitize_mcp_body_with_limit ?s 64 = Some ''ghp_1''"
    by (simp add: sanitize_mcp_body_with_limit_def truncate_to_byte_limit_def
        strip_control_chars_def keep_char_def escape_tags_def escape_byte_def)
  ultimately have "sanitize_log_value plain_env ?s 64 = Some ''ghp_1''"
    by (simp add: sanitize_log_value_def redact_sensitive_def)
  then show ?thesis by (simp add: token_at_def)
qed

end
