(* ===== verification/Query_Cache.thy ===== *)
theory Query_Cache
  imports Rust_Prelude "HOL-Library.AList"
begin

section \<open>The daemon's query cache\<close>

text \<open>
  \<open>crates/travsr-daemon/src/query_cache.rs\<close>: a bounded LRU over query results, keyed by the query and
  every marker of freshness. The hash map is a list of entries with distinct keys; its iteration
  order matters only between entries of equal tick. The tick is the 64-bit word of the code, whose
  addition wraps. The JSON printer behind \<open>args\<close> is the argument \<open>ser\<close>.
\<close>

record data_versions =
  dv_graph :: nat
  dv_embed :: "nat option"
  dv_embed_generation :: "nat option"

record cache_key =
  ck_tool :: string
  ck_args :: string
  ck_last_commit :: string
  ck_phase_b_commit :: string
  ck_data_version :: nat
  ck_embed_data_version :: "nat option"
  ck_embed_generation :: "nat option"

definition MAX_CACHE_BYTES :: nat where "MAX_CACHE_BYTES = 64 * 1024 * 1024"

record cache_entry =
  ce_value :: json
  ce_tick :: "64 word"
  ce_cost :: nat

record query_cache =
  qc_cap :: nat
  qc_tick :: "64 word"
  qc_entries :: "(cache_key \<times> cache_entry) list"
  qc_total :: nat

definition ELEM_OVERHEAD :: nat where "ELEM_OVERHEAD = 32"

fun approx_value_bytes :: "json \<Rightarrow> nat" where
  "approx_value_bytes (JString s) = length s + ELEM_OVERHEAD"
| "approx_value_bytes (JArray items) = sum_list (map approx_value_bytes items) + ELEM_OVERHEAD"
| "approx_value_bytes (JObject kvs) =
     sum_list (map (\<lambda>(k, v). length k + approx_value_bytes v) kvs) + ELEM_OVERHEAD"
| "approx_value_bytes v = ELEM_OVERHEAD"

definition cache_new :: "nat \<Rightarrow> query_cache" where
  "cache_new cap = \<lparr>qc_cap = max cap 1, qc_tick = 0, qc_entries = [], qc_total = 0\<rparr>"

definition cache_key_of :: "(json \<Rightarrow> string option) \<Rightarrow> string \<Rightarrow> json \<Rightarrow> string \<Rightarrow> string \<Rightarrow> data_versions
    \<Rightarrow> cache_key" where
  "cache_key_of ser tool args last_commit phase_b_commit versions =
     \<lparr>ck_tool = tool, ck_args = (case ser args of Some t \<Rightarrow> t | None \<Rightarrow> []),
      ck_last_commit = last_commit, ck_phase_b_commit = phase_b_commit,
      ck_data_version = dv_graph versions, ck_embed_data_version = dv_embed versions,
      ck_embed_generation = dv_embed_generation versions\<rparr>"

definition cache_get :: "query_cache \<Rightarrow> cache_key \<Rightarrow> json option \<times> query_cache" where
  "cache_get c k =
     (let tick = qc_tick c + 1
      in case map_of (qc_entries c) k of
           None \<Rightarrow> (None, c\<lparr>qc_tick := tick\<rparr>)
         | Some e \<Rightarrow> (Some (ce_value e),
             c\<lparr>qc_tick := tick, qc_entries := AList.update k (e\<lparr>ce_tick := tick\<rparr>) (qc_entries c)\<rparr>))"

text \<open>\<open>min_by_key\<close>: the first entry of least tick.\<close>

fun lru_victim :: "(cache_key \<times> cache_entry) list \<Rightarrow> (cache_key \<times> cache_entry) option" where
  "lru_victim [] = None"
| "lru_victim (p # ps) =
     (case lru_victim ps of
        None \<Rightarrow> Some p
      | Some q \<Rightarrow> if ce_tick (snd p) \<le> ce_tick (snd q) then Some p else Some q)"

definition evict_lru :: "query_cache \<Rightarrow> query_cache option" where
  "evict_lru c =
     (case lru_victim (qc_entries c) of
        None \<Rightarrow> None
      | Some (victim, _) \<Rightarrow>
          (case map_of (qc_entries c) victim of
             None \<Rightarrow> Some c
           | Some e \<Rightarrow> Some (c\<lparr>qc_entries := AList.delete victim (qc_entries c),
                              qc_total := qc_total c - ce_cost e\<rparr>)))"

lemma lru_victim_None: "lru_victim es = None \<longleftrightarrow> es = []"
  by (cases es) (auto split: option.splits)

lemma lru_victim_mem: "lru_victim es = Some p \<Longrightarrow> p \<in> set es"
  by (induction es arbitrary: p) (auto split: option.splits if_splits)

lemma lru_victim_least: "lru_victim es = Some p \<Longrightarrow> q \<in> set es \<Longrightarrow> ce_tick (snd p) \<le> ce_tick (snd q)"
proof (induction es arbitrary: p q)
  case (Cons a es)
  show ?case
  proof (cases "lru_victim es")
    case None
    with Cons.prems show ?thesis by (auto simp: lru_victim_None)
  next
    case (Some r)
    have ih: "q \<in> set es \<Longrightarrow> ce_tick (snd r) \<le> ce_tick (snd q)" using Cons.IH [OF Some] .
    show ?thesis
    proof (cases "ce_tick (snd a) \<le> ce_tick (snd r)")
      case True
      then have "p = a" using Some Cons.prems(1) by simp
      with True Cons.prems(2) ih show ?thesis by (cases "q = a") (auto intro: order_trans [OF True])
    next
      case False
      then have "p = r" using Some Cons.prems(1) by simp
      with False Cons.prems(2) ih show ?thesis by (cases "q = a") (simp_all add: less_imp_le not_le)
    qed
  qed
qed simp

lemma lru_victim_get: "lru_victim es = Some (k, e) \<Longrightarrow> \<exists>e'. map_of es k = Some e'"
  using lru_victim_mem weak_map_of_SomeI by fastforce

lemma delete_shorter: "map_of es k = Some e \<Longrightarrow> length (AList.delete k es) < length es"
  by (induction es) (auto simp: AList.delete_eq less_Suc_eq_le intro: le_trans [OF length_filter_le]
      split: if_splits)

lemma evict_lru_shorter: "evict_lru c = Some c' \<Longrightarrow> length (qc_entries c') < length (qc_entries c)"
  using lru_victim_get [of "qc_entries c"]
  by (auto simp: evict_lru_def delete_shorter split: option.splits prod.splits)

function evict_loop :: "query_cache \<Rightarrow> query_cache" where
  "evict_loop c =
     (if qc_cap c < length (qc_entries c) \<or> MAX_CACHE_BYTES < qc_total c
      then (case evict_lru c of None \<Rightarrow> c | Some c' \<Rightarrow> evict_loop c') else c)"
  by pat_completeness auto
termination
  by (relation "measure (\<lambda>c. length (qc_entries c))") (auto simp: evict_lru_shorter)

declare evict_loop.simps [simp del]

definition cache_put :: "query_cache \<Rightarrow> cache_key \<Rightarrow> json \<Rightarrow> query_cache" where
  "cache_put c k value =
     (let cost = approx_value_bytes value
      in if MAX_CACHE_BYTES < cost then c
         else (let tick = qc_tick c + 1;
                   total = (case map_of (qc_entries c) k of
                       Some prev \<Rightarrow> qc_total c - ce_cost prev | None \<Rightarrow> qc_total c)
               in evict_loop (c\<lparr>qc_tick := tick,
                    qc_entries := AList.update k \<lparr>ce_value = value, ce_tick = tick, ce_cost = cost\<rparr>
                      (qc_entries c),
                    qc_total := total + cost\<rparr>)))"

subsection \<open>Accounting and bounds\<close>

definition entries_cost :: "(cache_key \<times> cache_entry) list \<Rightarrow> nat" where
  "entries_cost es = sum_list (map (\<lambda>(k, e). ce_cost e) es)"

definition accounted :: "query_cache \<Rightarrow> bool" where
  "accounted c \<longleftrightarrow> distinct (map fst (qc_entries c)) \<and> qc_total c = entries_cost (qc_entries c)
     \<and> 1 \<le> qc_cap c"

definition cache_ok :: "query_cache \<Rightarrow> bool" where
  "cache_ok c \<longleftrightarrow> accounted c \<and> length (qc_entries c) \<le> qc_cap c \<and> qc_total c \<le> MAX_CACHE_BYTES"

lemma entries_cost_delete:
  "distinct (map fst es) \<Longrightarrow> map_of es k = Some e \<Longrightarrow>
     entries_cost es = ce_cost e + entries_cost (AList.delete k es)"
proof (induction es)
  case (Cons p es)
  obtain k' e' where p: "p = (k', e')" by (cases p)
  show ?case
  proof (cases "k' = k")
    case True
    with Cons.prems p have "AList.delete k es = es" by (intro AList.delete_id) auto
    with True Cons.prems p show ?thesis by (simp add: entries_cost_def)
  next
    case False
    with Cons p show ?thesis by (simp add: entries_cost_def)
  qed
qed simp

lemma entries_cost_update_new:
  "map_of es k = None \<Longrightarrow> entries_cost (AList.update k e es) = entries_cost es + ce_cost e"
  by (induction es) (auto simp: entries_cost_def split: if_splits)

lemma entries_cost_update_old:
  "map_of es k = Some p \<Longrightarrow> entries_cost (AList.update k e es) + ce_cost p = entries_cost es + ce_cost e"
  by (induction es) (auto simp: entries_cost_def split: if_splits)

lemma entries_cost_mem: "(k, e) \<in> set es \<Longrightarrow> ce_cost e \<le> entries_cost es"
  by (induction es) (auto simp: entries_cost_def)

lemma evict_lru_Some:
  assumes "evict_lru c = Some c'" "accounted c"
  shows "\<exists>k e. lru_victim (qc_entries c) = Some (k, e) \<and> map_of (qc_entries c) k = Some e
    \<and> c' = c\<lparr>qc_entries := AList.delete k (qc_entries c), qc_total := qc_total c - ce_cost e\<rparr>
    \<and> accounted c'"
proof -
  from assms(1) obtain k e where v: "lru_victim (qc_entries c) = Some (k, e)"
    by (auto simp: evict_lru_def split: option.splits)
  have d: "distinct (map fst (qc_entries c))" "qc_total c = entries_cost (qc_entries c)" "1 \<le> qc_cap c"
    using assms(2) by (simp_all add: accounted_def)
  have m: "map_of (qc_entries c) k = Some e"
    using lru_victim_mem [OF v] d(1) by simp
  then have c': "c' = c\<lparr>qc_entries := AList.delete k (qc_entries c), qc_total := qc_total c - ce_cost e\<rparr>"
    using assms(1) v by (simp add: evict_lru_def)
  have "distinct (map fst (AList.delete k (qc_entries c)))"
    using d(1) by (simp add: AList.delete_keys distinct_removeAll)
  then have "accounted c'"
    using entries_cost_delete [OF d(1) m] d by (simp add: accounted_def c')
  with v m c' show ?thesis by blast
qed

lemma evict_loop_stop:
  "\<not> (qc_cap c < length (qc_entries c) \<or> MAX_CACHE_BYTES < qc_total c) \<Longrightarrow> evict_loop c = c"
  by (simp add: evict_loop.simps)

lemma evict_lru_None: "evict_lru c = None \<Longrightarrow> qc_entries c = []"
  using lru_victim_get [of "qc_entries c"]
  by (auto simp: evict_lru_def lru_victim_None split: option.splits prod.splits)

lemma evict_loop_ok: "accounted c \<Longrightarrow> cache_ok (evict_loop c)"
proof (induction "length (qc_entries c)" arbitrary: c rule: less_induct)
  case less
  show ?case
  proof (cases "qc_cap c < length (qc_entries c) \<or> MAX_CACHE_BYTES < qc_total c")
    case False
    with less.prems show ?thesis by (simp add: evict_loop_stop cache_ok_def not_less)
  next
    case True
    have ne: "qc_entries c \<noteq> []"
      using True less.prems by (auto simp: accounted_def entries_cost_def)
    then obtain c' where c': "evict_lru c = Some c'" using evict_lru_None by (cases "evict_lru c") auto
    then have "accounted c'" using evict_lru_Some [OF c' less.prems] by blast
    with less.hyps [OF evict_lru_shorter [OF c']] True c' show ?thesis
      by (subst evict_loop.simps) simp
  qed
qed

lemma put_accounted:
  assumes "accounted c" "approx_value_bytes v \<le> MAX_CACHE_BYTES"
  shows "\<exists>c'. cache_put c k v = evict_loop c' \<and> accounted c' \<and> qc_cap c' = qc_cap c
    \<and> qc_entries c' = AList.update k \<lparr>ce_value = v, ce_tick = qc_tick c + 1, ce_cost = approx_value_bytes v\<rparr>
        (qc_entries c) \<and> qc_tick c' = qc_tick c + 1"
proof -
  let ?e = "\<lparr>ce_value = v, ce_tick = qc_tick c + 1, ce_cost = approx_value_bytes v\<rparr>"
  let ?t = "(case map_of (qc_entries c) k of Some prev \<Rightarrow> qc_total c - ce_cost prev | None \<Rightarrow> qc_total c)
      + approx_value_bytes v"
  let ?c = "c\<lparr>qc_tick := qc_tick c + 1, qc_entries := AList.update k ?e (qc_entries c), qc_total := ?t\<rparr>"
  have "entries_cost (AList.update k ?e (qc_entries c)) = ?t"
  proof (cases "map_of (qc_entries c) k")
    case None
    with assms(1) show ?thesis by (simp add: entries_cost_update_new accounted_def)
  next
    case (Some p)
    from entries_cost_update_old [OF Some, of ?e] entries_cost_mem [OF map_of_SomeD [OF Some]] Some assms(1)
    show ?thesis by (simp add: accounted_def)
  qed
  moreover have "distinct (map fst (AList.update k ?e (qc_entries c)))"
    using assms(1) by (simp add: accounted_def AList.distinct_update)
  ultimately have "accounted ?c" using assms(1) by (simp add: accounted_def)
  moreover have "cache_put c k v = evict_loop ?c" using assms(2) by (simp add: cache_put_def Let_def)
  ultimately show ?thesis by (intro exI [of _ ?c]) simp
qed

lemma update_length: "map_of es k = Some e \<Longrightarrow> length (AList.update k x es) = length es"
  by (induction es) (auto split: if_splits)

lemma get_accounted: "cache_ok c \<Longrightarrow> cache_ok (snd (cache_get c k))"
proof -
  assume ok: "cache_ok c"
  have "entries_cost (AList.update k (e\<lparr>ce_tick := t\<rparr>) (qc_entries c)) = entries_cost (qc_entries c)"
    if "map_of (qc_entries c) k = Some e" for e t
    using entries_cost_update_old [OF that, of "e\<lparr>ce_tick := t\<rparr>"] by simp
  moreover have "length (AList.update k x (qc_entries c)) = length (qc_entries c)"
    if "map_of (qc_entries c) k = Some e" for e x
    using update_length [OF that] .
  ultimately show ?thesis
    using ok by (auto simp: cache_get_def Let_def cache_ok_def accounted_def AList.distinct_update
        split: option.split)
qed

datatype cache_op = Op_Get cache_key | Op_Put cache_key json

fun cache_run :: "query_cache \<Rightarrow> cache_op list \<Rightarrow> query_cache" where
  "cache_run c [] = c"
| "cache_run c (Op_Get k # ops) = cache_run (snd (cache_get c k)) ops"
| "cache_run c (Op_Put k v # ops) = cache_run (cache_put c k v) ops"

lemma put_refused: "MAX_CACHE_BYTES < approx_value_bytes v \<Longrightarrow> cache_put c k v = c"
  by (simp add: cache_put_def)

lemma put_ok:
  assumes "cache_ok c"
  shows "cache_ok (cache_put c k v)"
proof (cases "MAX_CACHE_BYTES < approx_value_bytes v")
  case False
  then obtain c' where "cache_put c k v = evict_loop c'" "accounted c'"
    using put_accounted [of c v k] assms by (auto simp: cache_ok_def)
  then show ?thesis by (simp add: evict_loop_ok)
qed (simp add: put_refused assms)

lemma evict_lru_cap: "evict_lru c = Some c' \<Longrightarrow> qc_cap c' = qc_cap c"
  by (auto simp: evict_lru_def split: option.splits prod.splits)

lemma evict_loop_step:
  "qc_cap c < length (qc_entries c) \<or> MAX_CACHE_BYTES < qc_total c \<Longrightarrow> evict_lru c = Some c' \<Longrightarrow>
     evict_loop c = evict_loop c'"
  "evict_lru c = None \<Longrightarrow> evict_loop c = c"
  by (simp_all add: evict_loop.simps [of c])

lemma evict_loop_induct:
  assumes "\<And>c. P c c" "\<And>c c' d. qc_cap c < length (qc_entries c) \<or> MAX_CACHE_BYTES < qc_total c \<Longrightarrow>
      evict_lru c = Some c' \<Longrightarrow> P c' d \<Longrightarrow> P c d"
  shows "P c (evict_loop c)"
proof (induction "length (qc_entries c)" arbitrary: c rule: less_induct)
  case less
  show ?case
  proof (cases "evict_lru c")
    case None
    then show ?thesis using assms(1) by (simp add: evict_loop_step)
  next
    case (Some c')
    show ?thesis
    proof (cases "qc_cap c < length (qc_entries c) \<or> MAX_CACHE_BYTES < qc_total c")
      case True
      from less.hyps [OF evict_lru_shorter [OF Some]] have "P c' (evict_loop c')" .
      with assms(2) [OF True Some] evict_loop_step(1) [OF True Some] show ?thesis by simp
    next
      case False
      from assms(1) [of c] show ?thesis by (simp only: evict_loop_stop [OF False])
    qed
  qed
qed

lemma evict_loop_cap: "qc_cap (evict_loop c) = qc_cap c"
  by (rule evict_loop_induct [where P = "\<lambda>c d. qc_cap d = qc_cap c"]) (simp_all add: evict_lru_cap)

lemma run_ok: "cache_ok c \<Longrightarrow> cache_ok (cache_run c ops) \<and> qc_cap (cache_run c ops) = qc_cap c"
proof (induction c ops rule: cache_run.induct)
  case (2 c k ops)
  have "qc_cap (snd (cache_get c k)) = qc_cap c" by (simp add: cache_get_def Let_def split: option.split)
  with 2 show ?case using get_accounted by simp
next
  case (3 c k v ops)
  have "qc_cap (cache_put c k v) = qc_cap c" by (simp add: cache_put_def Let_def evict_loop_cap)
  with 3 show ?case using put_ok by simp
qed simp

text \<open>
  C7: The cache is bounded, always. From an empty cache of any capacity, every sequence of lookups
  and insertions keeps at most \<open>cap\<close> entries and at most 64 MiB of estimated values, one entry per
  key, and a byte total that is exactly the sum of the entries' estimates.
\<close>

theorem cache_bounded:
  "cache_ok (cache_run (cache_new cap) ops)
   \<and> length (qc_entries (cache_run (cache_new cap) ops)) \<le> max cap 1
   \<and> entries_cost (qc_entries (cache_run (cache_new cap) ops)) \<le> MAX_CACHE_BYTES"
proof -
  have "cache_ok (cache_new cap)"
    by (simp add: cache_new_def cache_ok_def accounted_def entries_cost_def)
  from run_ok [OF this, of ops] show ?thesis
    by (auto simp: cache_ok_def accounted_def cache_new_def)
qed

subsection \<open>What a lookup returns\<close>

text \<open>The specification: the last result accepted for a key.\<close>

fun last_put :: "cache_op list \<Rightarrow> (cache_key \<Rightarrow> json option) \<Rightarrow> cache_key \<Rightarrow> json option" where
  "last_put [] m = m"
| "last_put (Op_Get k # ops) m = last_put ops m"
| "last_put (Op_Put k v # ops) m =
     last_put ops (if approx_value_bytes v \<le> MAX_CACHE_BYTES then m(k \<mapsto> v) else m)"

definition agrees :: "query_cache \<Rightarrow> (cache_key \<Rightarrow> json option) \<Rightarrow> bool" where
  "agrees c m \<longleftrightarrow> (\<forall>k e. map_of (qc_entries c) k = Some e \<longrightarrow> m k = Some (ce_value e))"

lemma evict_lru_entries:
  "evict_lru c = Some c' \<Longrightarrow> map_of (qc_entries c') k = Some e \<Longrightarrow> map_of (qc_entries c) k = Some e"
  by (auto simp: evict_lru_def AList.delete_conv' split: option.splits prod.splits if_splits)

lemma evict_loop_entries:
  "map_of (qc_entries (evict_loop c)) k = Some e \<longrightarrow> map_of (qc_entries c) k = Some e"
  by (rule evict_loop_induct
      [where P = "\<lambda>c d. map_of (qc_entries d) k = Some e \<longrightarrow> map_of (qc_entries c) k = Some e"])
     (auto intro: evict_lru_entries)

lemma run_agrees: "agrees c m \<Longrightarrow> agrees (cache_run c ops) (last_put ops m)"
proof (induction c ops arbitrary: m rule: cache_run.induct)
  case (2 c k ops)
  have "agrees (snd (cache_get c k)) m"
    using "2.prems" by (auto simp: agrees_def cache_get_def Let_def AList.update_conv' split: option.split)
  with 2 show ?case by simp
next
  case (3 c k v ops)
  have "agrees (cache_put c k v) (if approx_value_bytes v \<le> MAX_CACHE_BYTES then m(k \<mapsto> v) else m)"
    using "3.prems"
    by (auto simp: agrees_def cache_put_def Let_def AList.update_conv' dest!: evict_loop_entries [rule_format] split: if_splits)
  with 3 show ?case by simp
qed simp

text \<open>
  The cache never serves a stale result. Whatever was looked up and inserted before, a hit
  returns exactly the last result that was accepted under the same key, so under the same tool,
  arguments, commits and data versions, and never one inserted under any other key.
\<close>

lemma cache_hit_is_last_put:
  assumes "fst (cache_get (cache_run (cache_new cap) ops) k) = Some v"
  shows "last_put ops (\<lambda>_. None) k = Some v"
proof -
  have "agrees (cache_new cap) (\<lambda>_. None)" by (simp add: agrees_def cache_new_def)
  from run_agrees [OF this, of ops] assms show ?thesis
    by (auto simp: agrees_def cache_get_def Let_def split: option.splits)
qed

definition demo_key :: cache_key where
  "demo_key = \<lparr>ck_tool = ''ask'', ck_args = ''{}'', ck_last_commit = ''a'', ck_phase_b_commit = ''a'',
     ck_data_version = 1, ck_embed_data_version = None, ck_embed_generation = None\<rparr>"

lemma demo_put: "cache_put (cache_new 2) demo_key JNull = \<lparr>qc_cap = 2, qc_tick = 1,
    qc_entries = [(demo_key, \<lparr>ce_value = JNull, ce_tick = 1, ce_cost = 32\<rparr>)], qc_total = 32\<rparr>"
  by (simp add: cache_put_def cache_new_def ELEM_OVERHEAD_def MAX_CACHE_BYTES_def evict_loop_stop)

lemma cache_hit_is_last_put_witness:
  "last_put [Op_Put demo_key JNull] (\<lambda>_. None) demo_key = Some JNull"
  by (rule cache_hit_is_last_put [of 2]) (simp add: demo_put cache_get_def)

subsection \<open>Eviction is least recently used\<close>

text \<open>No tick of an entry is ahead of the counter.\<close>

definition ticks_behind :: "query_cache \<Rightarrow> bool" where
  "ticks_behind c \<longleftrightarrow> (\<forall>(k, e)\<in>set (qc_entries c). ce_tick e \<le> qc_tick c)"

definition evicted_before :: "query_cache \<Rightarrow> query_cache \<Rightarrow> bool" where
  "evicted_before c d \<longleftrightarrow> set (qc_entries d) \<subseteq> set (qc_entries c)
     \<and> (\<forall>p\<in>set (qc_entries c) - set (qc_entries d). \<forall>q\<in>set (qc_entries d).
          ce_tick (snd p) \<le> ce_tick (snd q))"

lemma set_delete: "set (AList.delete k es) = {p \<in> set es. fst p \<noteq> k}"
  by (auto simp: AList.delete_eq)

lemma evict_lru_step:
  assumes "evict_lru c = Some c'" "accounted c"
  obtains p where "p \<in> set (qc_entries c)" "set (qc_entries c') = set (qc_entries c) - {p}"
    "\<And>q. q \<in> set (qc_entries c) \<Longrightarrow> ce_tick (snd p) \<le> ce_tick (snd q)" "accounted c'"
proof -
  from evict_lru_Some [OF assms] obtain k e where v: "lru_victim (qc_entries c) = Some (k, e)"
    and c': "qc_entries c' = AList.delete k (qc_entries c)" and acc: "accounted c'" by auto
  have mem: "(k, e) \<in> set (qc_entries c)" by (rule lru_victim_mem [OF v])
  have "{p \<in> set (qc_entries c). fst p \<noteq> k} = set (qc_entries c) - {(k, e)}"
    using mem assms(2) by (auto simp: accounted_def dest: eq_key_imp_eq_value)
  then show ?thesis
    using that [OF mem] lru_victim_least [OF v] acc by (simp add: c' set_delete)
qed

lemma evict_loop_lru: "accounted c \<longrightarrow> evicted_before c (evict_loop c)"
proof (rule evict_loop_induct [where P = "\<lambda>c d. accounted c \<longrightarrow> evicted_before c d"])
  fix c c' d
  assume e: "evict_lru c = Some c'" and ih: "accounted c' \<longrightarrow> evicted_before c' d"
  show "accounted c \<longrightarrow> evicted_before c d"
  proof
    assume "accounted c"
    from evict_lru_step [OF e this] obtain p where p: "p \<in> set (qc_entries c)"
      "set (qc_entries c') = set (qc_entries c) - {p}"
      "\<And>q. q \<in> set (qc_entries c) \<Longrightarrow> ce_tick (snd p) \<le> ce_tick (snd q)" "accounted c'" by blast
    with ih show "evicted_before c d" unfolding evicted_before_def by blast
  qed
qed (simp add: evicted_before_def)

lemma newest_survives:
  "accounted c \<longrightarrow> p \<in> set (qc_entries c)
     \<longrightarrow> (\<forall>q\<in>set (qc_entries c). q \<noteq> p \<longrightarrow> ce_tick (snd q) < ce_tick (snd p))
     \<longrightarrow> ce_cost (snd p) \<le> MAX_CACHE_BYTES \<longrightarrow> p \<in> set (qc_entries (evict_loop c))"
proof (rule evict_loop_induct [where P = "\<lambda>c d. accounted c \<longrightarrow> p \<in> set (qc_entries c)
     \<longrightarrow> (\<forall>q\<in>set (qc_entries c). q \<noteq> p \<longrightarrow> ce_tick (snd q) < ce_tick (snd p))
     \<longrightarrow> ce_cost (snd p) \<le> MAX_CACHE_BYTES \<longrightarrow> p \<in> set (qc_entries d)"], blast, intro impI)
  fix c c' d
  assume guard: "qc_cap c < length (qc_entries c) \<or> MAX_CACHE_BYTES < qc_total c"
    and e: "evict_lru c = Some c'"
    and ih: "accounted c' \<longrightarrow> p \<in> set (qc_entries c')
     \<longrightarrow> (\<forall>q\<in>set (qc_entries c'). q \<noteq> p \<longrightarrow> ce_tick (snd q) < ce_tick (snd p))
     \<longrightarrow> ce_cost (snd p) \<le> MAX_CACHE_BYTES \<longrightarrow> p \<in> set (qc_entries d)"
    and acc: "accounted c" and p: "p \<in> set (qc_entries c)"
    and newest: "\<forall>q\<in>set (qc_entries c). q \<noteq> p \<longrightarrow> ce_tick (snd q) < ce_tick (snd p)"
    and cost: "ce_cost (snd p) \<le> MAX_CACHE_BYTES"
  from evict_lru_step [OF e acc] obtain v where v: "v \<in> set (qc_entries c)"
      "set (qc_entries c') = set (qc_entries c) - {v}"
      "\<And>q. q \<in> set (qc_entries c) \<Longrightarrow> ce_tick (snd v) \<le> ce_tick (snd q)" "accounted c'" by blast
  have "v \<noteq> p"
  proof
    assume "v = p"
    then have all: "q = p" if "q \<in> set (qc_entries c)" for q
      using v(3) [OF that] newest that by (meson not_le)
    have "distinct (qc_entries c)" using acc by (auto simp: accounted_def distinct_map)
    then have "qc_entries c = [p]"
    proof (cases "qc_entries c")
      case (Cons x xs)
      then have "x = p" using all by simp
      moreover have "xs = []"
      proof (rule ccontr)
        assume "xs \<noteq> []"
        then obtain y where "y \<in> set xs" by (cases xs) auto
        with all [of y] Cons \<open>x = p\<close> \<open>distinct (qc_entries c)\<close> show False by auto
      qed
      ultimately show ?thesis using Cons by simp
    qed (use p in simp)
    with guard acc cost show False by (auto simp: accounted_def entries_cost_def split: prod.splits)
  qed
  with v p newest cost ih show "p \<in> set (qc_entries d)" by auto
qed

text \<open>
  Insertion keeps the new result and evicts in order of use. In a cache whose ticks have not
  wrapped, an accepted insertion is found by the next lookup of its key, the entries that stay were
  all there before, and every entry that was dropped was used no later than every one that stayed.
\<close>

lemma put_is_lru:
  assumes "cache_ok c" "ticks_behind c" "qc_tick c + 1 \<noteq> 0" "approx_value_bytes v \<le> MAX_CACHE_BYTES"
  shows "fst (cache_get (cache_put c k v) k) = Some v
    \<and> (\<forall>p q. p \<in> set (qc_entries c) \<and> fst p \<noteq> k \<and> p \<notin> set (qc_entries (cache_put c k v))
          \<and> q \<in> set (qc_entries (cache_put c k v)) \<longrightarrow> ce_tick (snd p) \<le> ce_tick (snd q))"
proof -
  let ?e = "\<lparr>ce_value = v, ce_tick = qc_tick c + 1, ce_cost = approx_value_bytes v\<rparr>"
  obtain c' where c': "cache_put c k v = evict_loop c'" "accounted c'" "qc_cap c' = qc_cap c"
    "qc_entries c' = AList.update k ?e (qc_entries c)"
    using put_accounted assms by (metis cache_ok_def)
  have ev: "evicted_before c' (evict_loop c')" using evict_loop_lru c'(2) by blast
  have "unat (1 + qc_tick c) = Suc (unat (qc_tick c))"
    using assms(3) by (intro unatSuc) (simp add: add.commute)
  then have lt: "qc_tick c < qc_tick c + 1" by (simp add: word_less_nat_alt add.commute)
  have old: "ce_tick (snd p) < qc_tick c + 1" if "p \<in> set (qc_entries c)" for p
    using that assms(2) lt by (auto simp: ticks_behind_def intro: le_less_trans)
  have dist: "distinct (map fst (qc_entries c))" "distinct (map fst (qc_entries c'))"
    using assms(1) c'(2) by (simp_all add: cache_ok_def accounted_def)
  have mem: "p \<in> set (qc_entries c') \<longleftrightarrow> p = (k, ?e) \<or> (p \<in> set (qc_entries c) \<and> fst p \<noteq> k)" for p
  proof -
    have "p \<in> set (qc_entries c') \<longleftrightarrow> map_of (qc_entries c') (fst p) = Some (snd p)"
      using map_of_eq_Some_iff [OF dist(2)] by simp
    also have "\<dots> \<longleftrightarrow> (if fst p = k then snd p = ?e else map_of (qc_entries c) (fst p) = Some (snd p))"
      by (auto simp: c'(4) AList.update_conv')
    also have "\<dots> \<longleftrightarrow> p = (k, ?e) \<or> (p \<in> set (qc_entries c) \<and> fst p \<noteq> k)"
      using map_of_eq_Some_iff [OF dist(1), of "fst p" "snd p"] by (cases p) auto
    finally show ?thesis .
  qed
  let ?d = "evict_loop c'"
  have keep: "(k, ?e) \<in> set (qc_entries ?d)"
    by (rule newest_survives [rule_format, OF c'(2)]) (use mem old assms(4) in auto)
  moreover have "cache_ok ?d" by (rule evict_loop_ok [OF c'(2)])
  ultimately have "map_of (qc_entries ?d) k = Some ?e"
    by (simp add: cache_ok_def accounted_def)
  then have "fst (cache_get ?d k) = Some v" by (simp add: cache_get_def Let_def)
  moreover have "ce_tick (snd p) \<le> ce_tick (snd q)"
    if "p \<in> set (qc_entries c)" "fst p \<noteq> k" "p \<notin> set (qc_entries ?d)" "q \<in> set (qc_entries ?d)" for p q
  proof -
    have "p \<in> set (qc_entries c') - set (qc_entries ?d)" using that mem by simp
    with ev that(4) show ?thesis unfolding evicted_before_def by blast
  qed
  ultimately show ?thesis unfolding c'(1) by blast
qed

lemma put_is_lru_witness:
  "fst (cache_get (cache_put (cache_new 2) demo_key JNull) demo_key) = Some JNull"
  by (rule conjunct1 [OF put_is_lru])
     (simp_all add: cache_new_def cache_ok_def accounted_def entries_cost_def ticks_behind_def
       ELEM_OVERHEAD_def MAX_CACHE_BYTES_def)

end
