(* ===== verification/Phase_B_Sched.thy ===== *)
theory Phase_B_Sched
  imports Rust_Prelude
begin

section \<open>The Phase B scheduler\<close>

text \<open>
  \<open>crates/travsr-daemon/src/phase_b_sched.rs\<close>: debounce, staleness ceiling, single flight, crash
  retry cap and back-off of the background re-runs. Instants and durations are milliseconds, the
  clock reading of each call is its argument, and the two counters are the 32-bit words of the
  code. Each operation is a function on the state; where a claim is not one critical section in
  the code its parts are separate definitions, and \<open>sched_step\<close> interleaves them over threads.
\<close>

datatype run_outcome = Success | Partial | AllCrashed

record dirty_state =
  ds_deadline :: nat
  ds_first_arm :: nat

record scheduler =
  sc_dirty :: "dirty_state option"
  sc_running :: bool
  sc_debounce :: nat
  sc_max_defer :: nat
  sc_failures :: "32 word"
  sc_partials :: "32 word"
  sc_backoff :: "nat option"

definition MAX_FAILURES :: "32 word" where "MAX_FAILURES = 3"
definition DEFAULT_MAX_DEFER :: nat where "DEFAULT_MAX_DEFER = 300 * 1000"
definition PARTIAL_BACKOFF_BASE :: nat where "PARTIAL_BACKOFF_BASE = 60 * 1000"
definition PARTIAL_BACKOFF_CAP :: nat where "PARTIAL_BACKOFF_CAP = 900 * 1000"

definition with_max_defer :: "nat \<Rightarrow> nat \<Rightarrow> scheduler" where
  "with_max_defer debounce max_defer =
     \<lparr>sc_dirty = None, sc_running = False, sc_debounce = debounce, sc_max_defer = max_defer,
      sc_failures = 0, sc_partials = 0, sc_backoff = None\<rparr>"

definition sched_new :: "nat \<Rightarrow> scheduler" where
  "sched_new debounce = with_max_defer debounce DEFAULT_MAX_DEFER"

definition mark_dirty :: "nat \<Rightarrow> scheduler \<Rightarrow> scheduler" where
  "mark_dirty now s = s\<lparr>sc_dirty := Some (case sc_dirty s of
       Some st \<Rightarrow> st\<lparr>ds_deadline := now + sc_debounce s\<rparr>
     | None \<Rightarrow> \<lparr>ds_deadline = now + sc_debounce s, ds_first_arm = now\<rparr>)\<rparr>"

definition arm_immediate :: "nat \<Rightarrow> scheduler \<Rightarrow> scheduler" where
  "arm_immediate now s = (case sc_dirty s of
       None \<Rightarrow> s\<lparr>sc_dirty := Some \<lparr>ds_deadline = now, ds_first_arm = now\<rparr>\<rparr>
     | Some st \<Rightarrow> s)"

text \<open>The three parts of a claim: the retry cap, the back-off gate, the section under the lock.\<close>

definition failures_ok :: "scheduler \<Rightarrow> bool" where
  "failures_ok s \<longleftrightarrow> \<not> MAX_FAILURES \<le> sc_failures s"

definition backoff_clear :: "nat \<Rightarrow> scheduler \<Rightarrow> bool" where
  "backoff_clear now s \<longleftrightarrow> (case sc_backoff s of Some until \<Rightarrow> \<not> now < until | None \<Rightarrow> True)"

definition due :: "nat \<Rightarrow> scheduler \<Rightarrow> bool" where
  "due now s \<longleftrightarrow> (case sc_dirty s of
       Some st \<Rightarrow> ds_deadline st \<le> now \<or> sc_max_defer s \<le> now - ds_first_arm st
     | None \<Rightarrow> False)"

definition claim_section :: "nat \<Rightarrow> scheduler \<Rightarrow> bool \<times> scheduler" where
  "claim_section now s =
     (if \<not> due now s then (False, s)
      else if \<not> sc_running s then (True, s\<lparr>sc_running := True, sc_dirty := None\<rparr>)
      else (False, s))"

definition try_claim_at :: "nat \<Rightarrow> scheduler \<Rightarrow> bool \<times> scheduler" where
  "try_claim_at now s =
     (if \<not> failures_ok s then (False, s)
      else if \<not> backoff_clear now s then (False, s)
      else claim_section now s)"

text \<open>The back-off after the run that finds \<open>n\<close> earlier partial runs.\<close>

definition partial_delay :: "32 word \<Rightarrow> nat" where
  "partial_delay n = min (PARTIAL_BACKOFF_BASE * 2 ^ min (unat n) 31) PARTIAL_BACKOFF_CAP"

definition record_outcome :: "run_outcome \<Rightarrow> nat \<Rightarrow> scheduler \<Rightarrow> scheduler" where
  "record_outcome outcome now s = (case outcome of
       Success \<Rightarrow> s\<lparr>sc_failures := 0, sc_partials := 0, sc_backoff := None\<rparr>
     | Partial \<Rightarrow> s\<lparr>sc_failures := 0, sc_partials := sc_partials s + 1,
                    sc_backoff := Some (now + partial_delay (sc_partials s))\<rparr>
     | AllCrashed \<Rightarrow> s\<lparr>sc_failures := sc_failures s + 1\<rparr>)"

definition finish_run :: "scheduler \<Rightarrow> scheduler" where
  "finish_run s = s\<lparr>sc_running := False\<rparr>"

definition finish_with_outcome_at :: "run_outcome \<Rightarrow> nat \<Rightarrow> scheduler \<Rightarrow> scheduler" where
  "finish_with_outcome_at outcome now s = finish_run (record_outcome outcome now s)"

definition finish_with_result :: "bool \<Rightarrow> nat \<Rightarrow> scheduler \<Rightarrow> scheduler" where
  "finish_with_result succeeded now s =
     finish_with_outcome_at (if succeeded then Success else AllCrashed) now s"

definition is_pending :: "scheduler \<Rightarrow> bool" where
  "is_pending s \<longleftrightarrow> sc_dirty s \<noteq> None"

lemmas sched_defs = mark_dirty_def arm_immediate_def claim_section_def due_def failures_ok_def
  backoff_clear_def record_outcome_def finish_run_def

subsection \<open>When a claim succeeds\<close>

text \<open>
  A claim starts a run exactly when fewer than three runs in a row crashed entirely, no
  back-off is in force, no run is in flight and the pending mark is past its debounce deadline or
  past the staleness ceiling; it then takes the slot and consumes the mark, and otherwise changes
  nothing.
\<close>

lemma claim_iff:
  "try_claim_at now s =
     (if unat (sc_failures s) < 3 \<and> (\<forall>until. sc_backoff s = Some until \<longrightarrow> until \<le> now)
         \<and> \<not> sc_running s
         \<and> (\<exists>st. sc_dirty s = Some st \<and> (ds_deadline st \<le> now \<or> ds_first_arm st + sc_max_defer s \<le> now
              \<or> sc_max_defer s = 0))
      then (True, s\<lparr>sc_running := True, sc_dirty := None\<rparr>) else (False, s))"
  by (auto simp: try_claim_at_def sched_defs MAX_FAILURES_def word_le_nat_alt le_diff_conv2
      split: option.splits)

lemma claim_iff_witness:
  "try_claim_at 31000 (mark_dirty 1000 (sched_new 30000))
     = (True, (mark_dirty 1000 (sched_new 30000))\<lparr>sc_running := True, sc_dirty := None\<rparr>)"
  by (subst claim_iff) (simp add: mark_dirty_def sched_new_def with_max_defer_def)

subsection \<open>Bursts of commits\<close>

definition commits :: "nat list \<Rightarrow> scheduler \<Rightarrow> scheduler" where
  "commits ts s = fold mark_dirty ts s"

lemma mark_keeps:
  "sc_running (mark_dirty t s) = sc_running s" "sc_failures (mark_dirty t s) = sc_failures s"
  "sc_backoff (mark_dirty t s) = sc_backoff s" "sc_max_defer (mark_dirty t s) = sc_max_defer s"
  "sc_debounce (mark_dirty t s) = sc_debounce s"
  by (simp_all add: mark_dirty_def)

lemma commits_keep:
  "sc_running (commits ts s) = sc_running s \<and> sc_failures (commits ts s) = sc_failures s
   \<and> sc_backoff (commits ts s) = sc_backoff s \<and> sc_max_defer (commits ts s) = sc_max_defer s
   \<and> sc_debounce (commits ts s) = sc_debounce s"
  by (induction ts arbitrary: s) (simp_all add: commits_def mark_keeps)

lemma commits_dirty:
  "sc_dirty s = Some st \<Longrightarrow> \<exists>st'. sc_dirty (commits ts s) = Some st' \<and> ds_first_arm st' = ds_first_arm st
     \<and> ds_deadline st' = (if ts = [] then ds_deadline st else last ts + sc_debounce s)"
proof (induction ts arbitrary: s st)
  case (Cons t ts)
  have "sc_dirty (mark_dirty t s) = Some (st\<lparr>ds_deadline := t + sc_debounce s\<rparr>)"
    using Cons.prems by (simp add: mark_dirty_def)
  from Cons.IH [OF this] show ?case by (auto simp: commits_def mark_keeps)
qed (simp add: commits_def)

lemma commits_from_idle:
  assumes "sc_dirty s = None"
  shows "\<exists>st. sc_dirty (commits (t # ts) s) = Some st \<and> ds_first_arm st = t
    \<and> ds_deadline st = last (t # ts) + sc_debounce s"
proof -
  have "sc_dirty (mark_dirty t s) = Some \<lparr>ds_deadline = t + sc_debounce s, ds_first_arm = t\<rparr>"
    using assms by (simp add: mark_dirty_def)
  from commits_dirty [OF this, of ts] show ?thesis by (auto simp: commits_def mark_keeps)
qed

lemma claim_when_due:
  assumes "failures_ok s" "sc_backoff s = None" "\<not> sc_running s" "due now s"
  shows "try_claim_at now s = (True, s\<lparr>sc_running := True, sc_dirty := None\<rparr>)"
  using assms by (simp add: try_claim_at_def claim_section_def backoff_clear_def)

text \<open>
  A burst of commits is one run, and it is neither early nor starved. From an idle healthy
  scheduler, after any sequence of commits a claim before both the last commit's debounce deadline
  and the ceiling on the first commit is refused; once either is reached it succeeds, however many
  commits re-armed it; and after it finishes there is nothing left to claim.
\<close>

lemma burst_coalesces:
  assumes "sc_dirty s = None" "failures_ok s" "sc_backoff s = None" "\<not> sc_running s" "0 < sc_max_defer s"
  shows "fst (try_claim_at now (commits (t # ts) s))
       = (last (t # ts) + sc_debounce s \<le> now \<or> t + sc_max_defer s \<le> now)
    \<and> (fst (try_claim_at now (commits (t # ts) s)) \<longrightarrow>
         \<not> fst (try_claim_at later (finish_with_outcome_at Success later
              (snd (try_claim_at now (commits (t # ts) s))))))"
proof -
  let ?c = "commits (t # ts) s"
  obtain st where st: "sc_dirty ?c = Some st" "ds_first_arm st = t"
    "ds_deadline st = last (t # ts) + sc_debounce s"
    using commits_from_idle [OF assms(1)] by blast
  have keep: "failures_ok ?c" "sc_backoff ?c = None" "\<not> sc_running ?c" "sc_max_defer ?c = sc_max_defer s"
    using commits_keep [of "t # ts" s] assms by (simp_all add: failures_ok_def)
  have "due now ?c \<longleftrightarrow> last (t # ts) + sc_debounce s \<le> now \<or> t + sc_max_defer s \<le> now"
    using st keep(4) assms(5) by (auto simp: due_def)
  moreover have "fst (try_claim_at now ?c) \<longleftrightarrow> due now ?c"
    using keep by (simp add: try_claim_at_def claim_section_def backoff_clear_def)
  moreover have "\<not> fst (try_claim_at later (finish_with_outcome_at Success later
      (snd (try_claim_at now ?c))))" if "due now ?c"
    using claim_when_due [OF keep(1-3) that]
    by (simp add: finish_with_outcome_at_def finish_run_def record_outcome_def try_claim_at_def
        claim_section_def due_def)
  ultimately show ?thesis by blast
qed

lemma burst_coalesces_witness:
  "fst (try_claim_at 301000 (commits (1000 # [290000, 300500]) (sched_new 30000)))
   \<and> \<not> fst (try_claim_at 31000 (commits (1000 # [2000]) (sched_new 30000)))"
proof -
  have h: "sc_dirty (sched_new 30000) = None" "failures_ok (sched_new 30000)"
    "sc_backoff (sched_new 30000) = None" "\<not> sc_running (sched_new 30000)"
    "0 < sc_max_defer (sched_new 30000)"
    by (simp_all add: sched_new_def with_max_defer_def failures_ok_def MAX_FAILURES_def
        DEFAULT_MAX_DEFER_def)
  have d: "sc_debounce (sched_new 30000) = 30000" "sc_max_defer (sched_new 30000) = 300000"
    by (simp_all add: sched_new_def with_max_defer_def DEFAULT_MAX_DEFER_def)
  show ?thesis
    using burst_coalesces [OF h, of 301000 1000 "[290000, 300500]"]
      burst_coalesces [OF h, of 31000 1000 "[2000]"] d by simp
qed

subsection \<open>Crashes\<close>

lemma partial_delay_bounds: "PARTIAL_BACKOFF_BASE \<le> partial_delay n \<and> partial_delay n \<le> PARTIAL_BACKOFF_CAP"
  by (simp add: partial_delay_def PARTIAL_BACKOFF_BASE_def PARTIAL_BACKOFF_CAP_def)

lemma partial_delay_mono: "m \<le> n \<Longrightarrow> partial_delay m \<le> partial_delay n"
proof -
  assume "m \<le> n"
  then have "min (unat m) 31 \<le> min (unat n) 31" by (auto simp: word_le_nat_alt)
  then have "(2::nat) ^ min (unat m) 31 \<le> 2 ^ min (unat n) 31" by (intro power_increasing) auto
  then show ?thesis unfolding partial_delay_def by (intro min.mono mult_le_mono2) auto
qed

fun partial_runs :: "nat list \<Rightarrow> scheduler \<Rightarrow> scheduler" where
  "partial_runs [] s = s"
| "partial_runs (t # ts) s = partial_runs ts (finish_with_outcome_at Partial t s)"

lemma partial_runs_count: "sc_partials (partial_runs ts s) = sc_partials s + of_nat (length ts)"
  by (induction ts arbitrary: s)
     (simp_all add: finish_with_outcome_at_def finish_run_def record_outcome_def)

lemma partial_runs_snoc: "partial_runs (ts @ [t]) s = finish_with_outcome_at Partial t (partial_runs ts s)"
  by (induction ts arbitrary: s) simp_all

text \<open>
  Partial crashes back off exponentially within bounds. After the \<open>n+1\<close>-st partial run in a row
  every claim is refused until \<open>60 s * 2^n\<close>, at most 15 minutes, after its end, also past the
  staleness ceiling; and a clean run lifts the gate.
\<close>

lemma partial_backoff:
  assumes "sc_partials s = 0" "length ts < 2 ^ 32"
    "now < t + min (60000 * 2 ^ min (length ts) 31) 900000"
  shows "\<not> fst (try_claim_at now (commits cs (partial_runs (ts @ [t]) s)))
    \<and> sc_backoff (finish_with_outcome_at Success now (partial_runs (ts @ [t]) s)) = None"
proof -
  let ?s = "partial_runs (ts @ [t]) s"
  have "sc_partials (partial_runs ts s) = of_nat (length ts)"
    using assms(1) by (simp add: partial_runs_count)
  moreover have "unat (of_nat (length ts) :: 32 word) = length ts"
    using assms(2) by (simp add: unsigned_of_nat take_bit_nat_eq_self)
  ultimately have "sc_backoff ?s = Some (t + min (60000 * 2 ^ min (length ts) 31) 900000)"
    by (simp add: partial_runs_snoc finish_with_outcome_at_def finish_run_def record_outcome_def
        partial_delay_def PARTIAL_BACKOFF_BASE_def PARTIAL_BACKOFF_CAP_def)
  then have "sc_backoff (commits cs ?s) = Some (t + min (60000 * 2 ^ min (length ts) 31) 900000)"
    using commits_keep [of cs ?s] by simp
  then show ?thesis
    using assms(3) by (simp add: try_claim_at_def backoff_clear_def finish_with_outcome_at_def
        finish_run_def record_outcome_def)
qed

lemma partial_backoff_witness:
  "\<not> fst (try_claim_at 240000 (commits [200000] (partial_runs ([1000, 70000] @ [200000]) (sched_new 0))))"
  by (rule conjunct1 [OF partial_backoff]) (simp_all add: sched_new_def with_max_defer_def)

datatype sched_op = Op_Commit nat | Op_Arm nat | Op_Claim nat

fun claims :: "sched_op list \<Rightarrow> scheduler \<Rightarrow> bool list" where
  "claims [] s = []"
| "claims (Op_Commit t # ops) s = claims ops (mark_dirty t s)"
| "claims (Op_Arm t # ops) s = claims ops (arm_immediate t s)"
| "claims (Op_Claim t # ops) s = (let (b, s') = try_claim_at t s in b # claims ops s')"

lemma claims_blocked: "\<not> failures_ok s \<Longrightarrow> True \<notin> set (claims ops s)"
proof (induction ops s rule: claims.induct)
  case (3 t ops s)
  have "\<not> failures_ok (arm_immediate t s)"
    using "3.prems" by (simp add: arm_immediate_def failures_ok_def split: option.split)
  with 3 show ?case by simp
next
  case (4 t ops s)
  have "try_claim_at t s = (False, s)" using "4.prems" by (simp add: try_claim_at_def)
  with "4.IH" [OF this [symmetric] refl] "4.prems" show ?case by simp
qed (simp_all add: mark_dirty_def failures_ok_def)

text \<open>
  Broken tools are not hammered. Once three runs in a row have crashed entirely, no claim ever
  succeeds again, whatever commits, arms and claims follow; one run that is not a full crash
  before the third resets the count.
\<close>

lemma crash_cap_is_final:
  assumes "sc_failures s = 0" "ops1 = finish_with_outcome_at AllCrashed t1 s"
    "ops2 = finish_with_outcome_at AllCrashed t2 (commits cs1 ops1)"
  shows "True \<notin> set (claims ops (finish_with_outcome_at AllCrashed t3 (commits cs2 ops2)))
    \<and> (outcome \<noteq> AllCrashed \<longrightarrow>
         failures_ok (finish_with_outcome_at AllCrashed t4 (finish_with_outcome_at outcome t3 (commits cs2 ops2))))"
proof -
  have f: "sc_failures (finish_with_outcome_at AllCrashed t x) = sc_failures x + 1" for t x
    by (simp add: finish_with_outcome_at_def finish_run_def record_outcome_def)
  have "sc_failures ops2 = 2"
    using commits_keep [of cs1 ops1] assms by (simp add: f)
  then have "sc_failures (finish_with_outcome_at AllCrashed t3 (commits cs2 ops2)) = 3"
    using commits_keep [of cs2 ops2] by (simp add: f)
  then have "True \<notin> set (claims ops (finish_with_outcome_at AllCrashed t3 (commits cs2 ops2)))"
    by (intro claims_blocked) (simp add: failures_ok_def MAX_FAILURES_def)
  moreover have "sc_failures (finish_with_outcome_at outcome t3 x) = 0" if "outcome \<noteq> AllCrashed" for x
    using that by (cases outcome) (simp_all add: finish_with_outcome_at_def finish_run_def record_outcome_def)
  ultimately show ?thesis by (simp add: f failures_ok_def MAX_FAILURES_def word_le_nat_alt)
qed

lemma crash_cap_is_final_witness:
  "True \<notin> set (claims [Op_Commit 9, Op_Claim 99999] (finish_with_outcome_at AllCrashed 3 (commits []
      (finish_with_outcome_at AllCrashed 2 (commits [] (finish_with_outcome_at AllCrashed 1 (sched_new 0)))))))"
  by (rule conjunct1 [OF crash_cap_is_final [OF _ refl refl]]) (simp add: sched_new_def with_max_defer_def)

subsection \<open>Interleavings\<close>

text \<open>
  Threads reading one scheduler. A claim is three steps (the counter, the gate, the locked section)
  between which others run; finishing is two (the outcome, then the slot).
\<close>

datatype thread_pc = Pc_Idle | Pc_Failures_Ok nat | Pc_Gate_Ok nat | Pc_Run | Pc_Recorded

type_synonym sched_config = "scheduler \<times> (nat \<Rightarrow> thread_pc)"

inductive sched_step :: "sched_config \<Rightarrow> sched_config \<Rightarrow> bool" where
  step_commit: "sched_step (s, p) (mark_dirty now s, p)"
| step_arm: "sched_step (s, p) (arm_immediate now s, p)"
| step_failures: "p t = Pc_Idle \<Longrightarrow> failures_ok s \<Longrightarrow> sched_step (s, p) (s, p(t := Pc_Failures_Ok now))"
| step_gate: "p t = Pc_Failures_Ok now \<Longrightarrow>
    sched_step (s, p) (s, p(t := if backoff_clear now s then Pc_Gate_Ok now else Pc_Idle))"
| step_section: "p t = Pc_Gate_Ok now \<Longrightarrow> claim_section now s = (claimed, s') \<Longrightarrow>
    sched_step (s, p) (s', p(t := if claimed then Pc_Run else Pc_Idle))"
| step_record: "p t = Pc_Run \<Longrightarrow> sched_step (s, p) (record_outcome outcome now s, p(t := Pc_Recorded))"
| step_release: "p t = Pc_Recorded \<Longrightarrow> sched_step (s, p) (finish_run s, p(t := Pc_Idle))"

inductive_cases sched_stepE: "sched_step c c'"

definition in_run :: "thread_pc \<Rightarrow> bool" where
  "in_run pc \<longleftrightarrow> pc = Pc_Run \<or> pc = Pc_Recorded"

definition single_flight :: "sched_config \<Rightarrow> bool" where
  "single_flight c \<longleftrightarrow> (sc_running (fst c) \<longleftrightarrow> (\<exists>t. in_run (snd c t)))
     \<and> (\<forall>t u. in_run (snd c t) \<and> in_run (snd c u) \<longrightarrow> t = u)"

lemma arm_keeps_running: "sc_running (arm_immediate now s) = sc_running s"
  by (simp add: arm_immediate_def split: option.split)

lemma record_keeps_running: "sc_running (record_outcome outcome now s) = sc_running s"
  by (simp add: record_outcome_def split: run_outcome.split)

lemma claim_section_cases:
  assumes "claim_section now s = (b, s')"
  shows "(b \<and> \<not> sc_running s \<and> sc_running s') \<or> (\<not> b \<and> s' = s)"
  using assms by (auto simp: claim_section_def split: if_splits)

lemma single_flight_frame:
  assumes "single_flight (s, p)" "\<not> in_run (p t)" "\<not> in_run x"
  shows "single_flight (s, p(t := x))"
proof -
  have "in_run ((p(t := x)) u) \<longleftrightarrow> in_run (p u)" for u using assms(2,3) by simp
  with assms(1) show ?thesis unfolding single_flight_def fst_conv snd_conv by simp
qed

lemma in_run_simps [simp]: "\<not> in_run Pc_Idle" "\<not> in_run (Pc_Failures_Ok n)" "\<not> in_run (Pc_Gate_Ok n)"
  "in_run Pc_Run" "in_run Pc_Recorded"
  by (simp_all add: in_run_def)

lemma step_single_flight:
  assumes "sched_step c c'" "single_flight c"
  shows "single_flight c'"
  using assms
proof (induction rule: sched_step.induct)
  case (step_section p t now s claimed s')
  show ?case
  proof (cases claimed)
    case True
    with claim_section_cases [OF step_section(2)] step_section(3) show ?thesis
      by (auto simp: single_flight_def in_run_def)
  next
    case False
    with claim_section_cases [OF step_section(2)] have "s' = s" by simp
    with False step_section show ?thesis by (simp add: single_flight_frame)
  qed
next
  case (step_gate p t now s)
  then show ?case by (simp add: single_flight_frame)
next
  case (step_failures p t s now)
  then show ?case by (simp add: single_flight_frame)
qed (auto simp: single_flight_def in_run_def mark_keeps arm_keeps_running record_keeps_running
      finish_run_def)

text \<open>
  C8: Single flight under every interleaving. From a fresh scheduler with all threads idle, in every
  reachable configuration at most one thread is between a successful claim and the release of the
  slot, and the running flag is set exactly while there is one.
\<close>

theorem at_most_one_run:
  assumes "sched_step\<^sup>*\<^sup>* (with_max_defer debounce max_defer, \<lambda>_. Pc_Idle) (s, p)"
  shows "(in_run (p t) \<and> in_run (p u) \<longrightarrow> t = u) \<and> (sc_running s \<longleftrightarrow> (\<exists>t. in_run (p t)))"
proof -
  have "single_flight (with_max_defer debounce max_defer, \<lambda>_. Pc_Idle)"
    by (simp add: single_flight_def with_max_defer_def in_run_def)
  with assms have "single_flight (s, p)"
    by (induction rule: rtranclp_induct) (auto intro: step_single_flight)
  then show ?thesis by (simp add: single_flight_def)
qed

theorem at_most_one_run_witness:
  "sc_running (with_max_defer 0 1) \<longleftrightarrow> (\<exists>t. in_run ((\<lambda>_. Pc_Idle) (t :: nat)))"
  by (rule conjunct2 [OF at_most_one_run [of 0 1]]) simp

end
