(* ===== verification/Graph_Core.thy ===== *)
theory Graph_Core
  imports Complex_Main Rust_Prelude
begin

section \<open>Nodes, edges and their store\<close>

text \<open>
  \<open>crates/travsr-core/src/lib.rs\<close>: the five-field \<open>VName\<close> with the byte stream its 64-bit id is the
  digest of, the edge kinds with their storage names and weights, and the fields of \<open>Node\<close> and
  \<open>Edge\<close> that the traversals read. The \<open>f32\<close> weights are kept as the exact rationals of their
  literals. BLAKE3 is the argument \<open>blake\<close>. The \<open>Store\<close> trait is the record of its read operations,
  each of which can fail.
\<close>

type_synonym node_id = "64 word"

record vname =
  vn_corpus :: string
  vn_root :: string
  vn_path :: string
  vn_language :: string
  vn_signature :: string

definition SIGNATURE_FORMAT_VERSION :: nat where "SIGNATURE_FORMAT_VERSION = 4"

definition u32_le_bytes :: "nat \<Rightarrow> string" where
  "u32_le_bytes n = map char_of [n mod 256, n div 256 mod 256, n div 65536 mod 256, n div 16777216 mod 256]"

text \<open>The cast \<open>bytes.len() as u32\<close> keeps the low 32 bits, and so do the four bytes.\<close>

definition field_bytes :: "string \<Rightarrow> string" where
  "field_bytes f = u32_le_bytes (length f) @ f"

definition vname_bytes :: "vname \<Rightarrow> string" where
  "vname_bytes v = char_of SIGNATURE_FORMAT_VERSION #
     concat (map field_bytes [vn_corpus v, vn_root v, vn_path v, vn_language v, vn_signature v])"

definition u64_from_le :: "string \<Rightarrow> node_id" where
  "u64_from_le bs = word_of_nat (foldr (\<lambda>b acc. byte b + 256 * acc) bs 0)"

definition vname_id :: "(string \<Rightarrow> string) \<Rightarrow> vname \<Rightarrow> node_id" where
  "vname_id blake v = u64_from_le (take 8 (blake (vname_bytes v)))"

datatype edge_kind = Depends | RefCall | RefField | DefinesBinding | Exports | ResolvesTo
  | RefImports | IsImplementation | Overrides | FFICall | Configures | ExternalDependency

fun edge_kind_as_str :: "edge_kind \<Rightarrow> string" where
  "edge_kind_as_str Depends = ''depends''"
| "edge_kind_as_str RefCall = ''ref/call''"
| "edge_kind_as_str RefField = ''ref/field''"
| "edge_kind_as_str DefinesBinding = ''defines/binding''"
| "edge_kind_as_str Exports = ''exports''"
| "edge_kind_as_str ResolvesTo = ''resolves-to''"
| "edge_kind_as_str RefImports = ''ref/imports''"
| "edge_kind_as_str IsImplementation = ''is-implementation''"
| "edge_kind_as_str Overrides = ''overrides''"
| "edge_kind_as_str FFICall = ''ffi/call''"
| "edge_kind_as_str Configures = ''configures''"
| "edge_kind_as_str ExternalDependency = ''external-dependency''"

definition edge_kind_from_str :: "string \<Rightarrow> edge_kind option" where
  "edge_kind_from_str s =
     (if s = ''depends'' then Some Depends
      else if s = ''ref/call'' then Some RefCall
      else if s = ''ref/field'' then Some RefField
      else if s = ''defines/binding'' then Some DefinesBinding
      else if s = ''exports'' then Some Exports
      else if s = ''resolves-to'' then Some ResolvesTo
      else if s = ''ref/imports'' then Some RefImports
      else if s = ''is-implementation'' then Some IsImplementation
      else if s = ''overrides'' then Some Overrides
      else if s = ''ffi/call'' then Some FFICall
      else if s = ''configures'' then Some Configures
      else if s = ''external-dependency'' then Some ExternalDependency
      else None)"

fun ppr_weight :: "edge_kind \<Rightarrow> rat" where
  "ppr_weight RefCall = 1"
| "ppr_weight RefField = 50/100"
| "ppr_weight DefinesBinding = 70/100"
| "ppr_weight Exports = 60/100"
| "ppr_weight Depends = 50/100"
| "ppr_weight ResolvesTo = 50/100"
| "ppr_weight RefImports = 40/100"
| "ppr_weight IsImplementation = 40/100"
| "ppr_weight Overrides = 30/100"
| "ppr_weight FFICall = 85/100"
| "ppr_weight Configures = 35/100"
| "ppr_weight ExternalDependency = 30/100"

record gnode =
  gn_id :: node_id
  gn_vname :: vname
  gn_kind :: string

record gedge =
  ge_src :: node_id
  ge_dst :: node_id
  ge_kind :: edge_kind

abbreviation node_corpus :: "gnode \<Rightarrow> string" where
  "node_corpus n \<equiv> vn_corpus (gn_vname n)"

record 'e graph_db =
  db_get_node :: "node_id \<Rightarrow> ('e, gnode option) rust_result"
  db_get_nodes :: "node_id list \<Rightarrow> ('e, gnode list) rust_result"
  db_edges_from :: "node_id \<Rightarrow> ('e, gedge list) rust_result"
  db_edges_to :: "node_id \<Rightarrow> ('e, gedge list) rust_result"

text \<open>The default \<open>iter_edges_from_batch\<close> of the trait: the edges of the sources one after another.\<close>

fun db_edges_from_batch :: "'e graph_db \<Rightarrow> node_id list \<Rightarrow> ('e, gedge list) rust_result" where
  "db_edges_from_batch db [] = Inr []"
| "db_edges_from_batch db (s # ss) =
     (case db_edges_from db s of
        Inl e \<Rightarrow> Inl e
      | Inr es \<Rightarrow> (case db_edges_from_batch db ss of Inl e \<Rightarrow> Inl e | Inr out \<Rightarrow> Inr (es @ out)))"

fun result_or :: "'a \<Rightarrow> ('e, 'a) rust_result \<Rightarrow> 'a" where
  "result_or d (Inl e) = d"
| "result_or d (Inr x) = x"

fun result_ok :: "('e, 'a option) rust_result \<Rightarrow> 'a option" where
  "result_ok (Inl e) = None"
| "result_ok (Inr x) = x"

text \<open>What the documentation of the trait says of a read: a node is the one that was asked for, the
  batch returns stored nodes, and the edges are those of the node that was asked for.\<close>

definition db_honest :: "'e graph_db \<Rightarrow> bool" where
  "db_honest db \<longleftrightarrow>
     (\<forall>i n. db_get_node db i = Inr (Some n) \<longrightarrow> gn_id n = i) \<and>
     (\<forall>is ns. db_get_nodes db is = Inr ns \<longrightarrow>
        list_all (\<lambda>n. db_get_node db (gn_id n) = Inr (Some n)) ns) \<and>
     (\<forall>i es. db_edges_from db i = Inr es \<longrightarrow> list_all (\<lambda>e. ge_src e = i) es) \<and>
     (\<forall>i es. db_edges_to db i = Inr es \<longrightarrow> list_all (\<lambda>e. ge_dst e = i) es)"

definition TOKEN_CHARS_PER_TOKEN :: nat where "TOKEN_CHARS_PER_TOKEN = 4"

definition token_cost :: "gnode \<Rightarrow> nat" where
  "token_cost n = max 1 ((length (vn_signature (gn_vname n)) + length (gn_kind n)
     + length (vn_path (gn_vname n))) div TOKEN_CHARS_PER_TOKEN)"

subsection \<open>Lemmas\<close>

lemma token_cost_pos [simp]: "0 < token_cost n"
  by (simp add: token_cost_def)

lemma ppr_weight_range: "0 < ppr_weight k \<and> ppr_weight k \<le> 1"
  by (cases k) simp_all

lemma edge_kind_roundtrip: "edge_kind_from_str (edge_kind_as_str k) = Some k"
  by (cases k) (simp_all add: edge_kind_from_str_def)

lemma edge_kind_from_str_exact: "edge_kind_from_str s = Some k \<Longrightarrow> edge_kind_as_str k = s"
  by (auto simp: edge_kind_from_str_def split: if_splits)

lemma u32_le_length [simp]: "length (u32_le_bytes n) = 4"
  by (simp add: u32_le_bytes_def)

lemma char_of_eq_iff: "a < 256 \<Longrightarrow> b < 256 \<Longrightarrow> (char_of a = (char_of b :: char)) \<longleftrightarrow> a = (b :: nat)"
  by (metis of_char_of mod_less)

lemma u32_digits:
  assumes "n < 4294967296"
  shows "(n :: nat) = n mod 256 + 256 * (n div 256 mod 256) + 65536 * (n div 65536 mod 256)
      + 16777216 * (n div 16777216 mod 256)"
proof -
  have "256 * (n div 256) + n mod 256 = n"
    by (rule mult_div_mod_eq)
  moreover have "256 * (n div 65536) + n div 256 mod 256 = n div 256"
    using mult_div_mod_eq[of 256 "n div 256"] by (simp add: div_mult2_eq[symmetric])
  moreover have "256 * (n div 16777216) + n div 65536 mod 256 = n div 65536"
    using mult_div_mod_eq[of 256 "n div 65536"] by (simp add: div_mult2_eq[symmetric])
  moreover have "n div 16777216 mod 256 = n div 16777216"
    using assms by (intro mod_less) (simp add: less_mult_imp_div_less)
  ultimately show ?thesis
    by linarith
qed

lemma u32_le_inj: "m < 4294967296 \<Longrightarrow> n < 4294967296 \<Longrightarrow> u32_le_bytes m = u32_le_bytes n \<Longrightarrow> m = n"
  using u32_digits[of m] u32_digits[of n] by (simp add: u32_le_bytes_def char_of_eq_iff)

lemma field_bytes_cancel:
  assumes "length f < 4294967296" "length g < 4294967296" "field_bytes f @ s = field_bytes g @ t"
  shows "f = g \<and> s = t"
proof -
  from assms(3) have "u32_le_bytes (length f) = u32_le_bytes (length g)" "f @ s = g @ t"
    by (simp_all add: field_bytes_def append_eq_append_conv)
  with u32_le_inj assms(1,2) show ?thesis
    by (metis append_eq_append_conv)
qed

definition vname_small :: "vname \<Rightarrow> bool" where
  "vname_small v \<longleftrightarrow> list_all (\<lambda>f. length f < 4294967296)
     [vn_corpus v, vn_root v, vn_path v, vn_language v, vn_signature v]"

lemma vname_bytes_inj:
  assumes "vname_small u" "vname_small v" "vname_bytes u = vname_bytes v"
  shows "u = v"
proof -
  obtain a b c d e where u: "u = \<lparr>vn_corpus = a, vn_root = b, vn_path = c, vn_language = d, vn_signature = e\<rparr>"
    by (cases u)
  obtain a' b' c' d' e' where v: "v = \<lparr>vn_corpus = a', vn_root = b', vn_path = c', vn_language = d', vn_signature = e'\<rparr>"
    by (cases v)
  have e: "field_bytes a @ field_bytes b @ field_bytes c @ field_bytes d @ field_bytes e @ [] =
        field_bytes a' @ field_bytes b' @ field_bytes c' @ field_bytes d' @ field_bytes e' @ []"
    using assms(3) by (simp add: u v vname_bytes_def)
  from assms(1,2) have small: "length a < 4294967296" "length a' < 4294967296"
    "length b < 4294967296" "length b' < 4294967296" "length c < 4294967296" "length c' < 4294967296"
    "length d < 4294967296" "length d' < 4294967296" "length e < 4294967296" "length e' < 4294967296"
    by (simp_all add: u v vname_small_def)
  have 1: "a = a'" "field_bytes b @ field_bytes c @ field_bytes d @ field_bytes e @ [] =
        field_bytes b' @ field_bytes c' @ field_bytes d' @ field_bytes e' @ []"
    using field_bytes_cancel[OF small(1,2) e] by simp_all
  have 2: "b = b'" "field_bytes c @ field_bytes d @ field_bytes e @ [] =
        field_bytes c' @ field_bytes d' @ field_bytes e' @ []"
    using field_bytes_cancel[OF small(3,4) 1(2)] by simp_all
  have 3: "c = c'" "field_bytes d @ field_bytes e @ [] = field_bytes d' @ field_bytes e' @ []"
    using field_bytes_cancel[OF small(5,6) 2(2)] by simp_all
  have 4: "d = d'" "field_bytes e @ [] = field_bytes e' @ []"
    using field_bytes_cancel[OF small(7,8) 3(2)] by simp_all
  have "e = e'" using field_bytes_cancel[OF small(9,10) 4(2)] by simp
  with 1 2 3 4 show ?thesis by (simp add: u v)
qed

end
