(* ===== verification/Retrieval_Knapsack.thy ===== *)
theory Retrieval_Knapsack
  imports Graph_Core "HOL-Library.Multiset"
begin

section \<open>The token-budget knapsack\<close>

text \<open>
  \<open>crates/travsr-retrieval/src/knapsack.rs\<close>: the exact dynamic program over integer values, its
  backtracking pass, and the greedy fallback above \<open>DP_CELL_LIMIT\<close> cells. The flat table is kept as
  the list of its rows. The values are \<open>u32\<close> with saturating addition, so optimality is stated for
  totals that fit; scores are exact rationals in place of \<open>f32\<close>. Both sorts of the code are stable
  and descending, which is a stable ascending sort by the negated key.
\<close>

definition DP_CELL_LIMIT :: nat where "DP_CELL_LIMIT = 1000000"
definition SCORE_SCALE :: rat where "SCORE_SCALE = 1000000"
definition MAX_CONTEXT_BUDGET :: nat where "MAX_CONTEXT_BUDGET = 32000"

definition sat_add_u32 :: "nat \<Rightarrow> nat \<Rightarrow> nat" where
  "sat_add_u32 a b = min u32_max (a + b)"

definition sat_mul_usize :: "nat \<Rightarrow> nat \<Rightarrow> nat" where
  "sat_mul_usize a b = min u64_max (a * b)"

text \<open>\<open>(score * SCALE).round() as u32\<close>, where the cast saturates at both ends, and \<open>max(1)\<close>.\<close>

definition score_value :: "rat \<Rightarrow> nat" where
  "score_value s = max 1 (min u32_max (nat (round (s * SCORE_SCALE))))"

definition next_row :: "nat \<Rightarrow> nat \<Rightarrow> nat \<Rightarrow> nat list \<Rightarrow> nat list" where
  "next_row budget cost val row =
     map (\<lambda>w. let skip = row ! w;
                  take = (if cost \<le> w then sat_add_u32 (row ! (w - cost)) val else 0)
              in max skip take) [0..<Suc budget]"

fun dp_rows :: "nat \<Rightarrow> (nat \<times> nat) list \<Rightarrow> nat list \<Rightarrow> nat list list" where
  "dp_rows budget [] row = [row]"
| "dp_rows budget ((cost, val) # rest) row = row # dp_rows budget rest (next_row budget cost val row)"

fun backtrack :: "nat list list \<Rightarrow> nat list \<Rightarrow> nat \<Rightarrow> nat \<Rightarrow> nat list" where
  "backtrack dp costs 0 w = []"
| "backtrack dp costs (Suc i) w =
     (if dp ! Suc i ! w \<noteq> dp ! i ! w then i # backtrack dp costs i (w - costs ! i)
      else backtrack dp costs i w)"

definition item_costs :: "(gnode \<times> rat) list \<Rightarrow> nat list" where
  "item_costs items = map (token_cost \<circ> fst) items"

definition item_values :: "(gnode \<times> rat) list \<Rightarrow> nat list" where
  "item_values items = map (score_value \<circ> snd) items"

definition dp_select :: "(gnode \<times> rat) list \<Rightarrow> nat \<Rightarrow> nat list" where
  "dp_select items budget =
     (let costs = item_costs items; vals = item_values items;
          dp = dp_rows budget (zip costs vals) (replicate (Suc budget) 0)
      in sort_key (\<lambda>i. - int (vals ! i)) (backtrack dp costs (length items) budget))"

fun greedy_fill :: "(gnode \<times> rat) list \<Rightarrow> nat \<Rightarrow> gnode list" where
  "greedy_fill [] left = []"
| "greedy_fill ((n, s) # items) left =
     (if token_cost n \<le> left then n # greedy_fill items (left - token_cost n)
      else greedy_fill items left)"

definition value_ratio :: "gnode \<times> rat \<Rightarrow> rat" where
  "value_ratio = (\<lambda>(n, s). if 0 < token_cost n then s / of_nat (token_cost n) else s)"

definition knapsack_greedy :: "(gnode \<times> rat) list \<Rightarrow> nat \<Rightarrow> gnode list" where
  "knapsack_greedy items budget = greedy_fill (sort_key (\<lambda>it. - value_ratio it) items) budget"

definition knapsack :: "(gnode \<times> rat) list \<Rightarrow> nat \<Rightarrow> gnode list" where
  "knapsack items budget =
     (if MAX_CONTEXT_BUDGET < budget then []
      else if items = [] \<or> budget = 0 then []
      else if DP_CELL_LIMIT < sat_mul_usize (length items) budget then knapsack_greedy items budget
      else map (\<lambda>i. fst (items ! i)) (dp_select items budget))"

subsection \<open>The table\<close>

lemma next_row_nth:
  "w \<le> budget \<Longrightarrow> next_row budget c v row ! w
     = max (row ! w) (if c \<le> w then sat_add_u32 (row ! (w - c)) v else 0)"
  by (simp add: next_row_def Let_def nth_append)

lemma dp_rows_0: "dp_rows budget cvs row ! 0 = row"
  by (cases "(budget, cvs, row)" rule: dp_rows.cases) simp_all

lemma dp_rows_Suc:
  "i < length cvs \<Longrightarrow> w \<le> budget \<Longrightarrow>
   dp_rows budget cvs row ! Suc i ! w =
     max (dp_rows budget cvs row ! i ! w)
       (if fst (cvs ! i) \<le> w
        then sat_add_u32 (dp_rows budget cvs row ! i ! (w - fst (cvs ! i))) (snd (cvs ! i)) else 0)"
proof (induction budget cvs row arbitrary: i rule: dp_rows.induct)
  case (2 budget c v rest row)
  show ?case
  proof (cases i)
    case 0
    with 2 show ?thesis
      by (simp add: dp_rows_0 next_row_nth)
  next
    case (Suc j)
    with 2 show ?thesis by simp
  qed
qed simp

definition dp_of :: "(gnode \<times> rat) list \<Rightarrow> nat \<Rightarrow> nat list list" where
  "dp_of items budget = dp_rows budget (zip (item_costs items) (item_values items)) (replicate (Suc budget) 0)"

lemma dp_of_0: "w \<le> budget \<Longrightarrow> dp_of items budget ! 0 ! w = 0"
  by (simp add: dp_of_def dp_rows_0 del: replicate_Suc)

lemma dp_of_Suc:
  "i < length items \<Longrightarrow> w \<le> budget \<Longrightarrow>
   dp_of items budget ! Suc i ! w =
     max (dp_of items budget ! i ! w)
       (if item_costs items ! i \<le> w
        then sat_add_u32 (dp_of items budget ! i ! (w - item_costs items ! i)) (item_values items ! i)
        else 0)"
  unfolding dp_of_def by (subst dp_rows_Suc) (simp_all add: item_costs_def item_values_def)

definition picks :: "(gnode \<times> rat) list \<Rightarrow> nat \<Rightarrow> nat \<Rightarrow> nat \<Rightarrow> nat list" where
  "picks items budget i w = backtrack (dp_of items budget) (item_costs items) i w"

definition sum_over :: "nat list \<Rightarrow> nat set \<Rightarrow> nat" where
  "sum_over xs I = (\<Sum>i\<in>I. xs ! i)"

lemma picks_below: "x \<in> set (picks items budget i w) \<Longrightarrow> x < i"
  by (induction i arbitrary: w) (auto simp: picks_def split: if_splits dest: less_SucI)

lemma picks_distinct: "distinct (picks items budget i w)"
proof (induction i arbitrary: w)
  case (Suc i)
  then show ?case
    using picks_below[of i items budget i] by (auto simp: picks_def)
qed (simp add: picks_def)

lemma picks_Suc:
  "picks items budget (Suc i) w =
     (if dp_of items budget ! Suc i ! w \<noteq> dp_of items budget ! i ! w
      then i # picks items budget i (w - item_costs items ! i) else picks items budget i w)"
  by (simp add: picks_def)

lemma picks_cost:
  "i \<le> length items \<Longrightarrow> w \<le> budget \<Longrightarrow> sum_list (map (nth (item_costs items)) (picks items budget i w)) \<le> w"
proof (induction i arbitrary: w)
  case (Suc i)
  show ?case
  proof (cases "dp_of items budget ! Suc i ! w = dp_of items budget ! i ! w")
    case True
    with Suc show ?thesis by (simp add: picks_Suc)
  next
    case False
    with Suc dp_of_Suc[of i items w budget] have "item_costs items ! i \<le> w"
      by (auto split: if_splits)
    moreover have "sum_list (map (nth (item_costs items)) (picks items budget i (w - item_costs items ! i)))
        \<le> w - item_costs items ! i"
      using Suc by simp
    ultimately show ?thesis
      using False by (simp add: picks_Suc)
  qed
qed (simp add: picks_def)

text \<open>While the totals fit in a \<open>u32\<close> the table holds the best value, and the backtracking pass
  finds indices of that value.\<close>

lemma dp_bound:
  "i \<le> length items \<Longrightarrow> w \<le> budget \<Longrightarrow> dp_of items budget ! i ! w \<le> sum_over (item_values items) {..<i}"
proof (induction i arbitrary: w)
  case (Suc i)
  have 1: "dp_of items budget ! i ! w \<le> sum_over (item_values items) {..<i}"
    and 2: "dp_of items budget ! i ! (w - item_costs items ! i) \<le> sum_over (item_values items) {..<i}"
    using Suc by simp_all
  have "sum_over (item_values items) {..<Suc i} = sum_over (item_values items) {..<i} + item_values items ! i"
    by (simp add: sum_over_def)
  with 1 2 Suc(2,3) show ?case
    by (auto simp: dp_of_Suc sat_add_u32_def intro: min.coboundedI2)
qed (simp add: dp_of_0)

lemma total_mono: "i \<le> n \<Longrightarrow> sum_over xs {..<i} \<le> sum_over xs {..<n}"
  unfolding sum_over_def by (rule sum_mono2) auto

lemma dp_no_saturation:
  assumes "sum_over (item_values items) {..<length items} \<le> u32_max" "i < length items" "w \<le> budget"
  shows "sat_add_u32 (dp_of items budget ! i ! w) (item_values items ! i)
     = dp_of items budget ! i ! w + item_values items ! i"
proof -
  have "dp_of items budget ! i ! w + item_values items ! i \<le> sum_over (item_values items) {..<Suc i}"
    using dp_bound[of i items w budget] assms(2,3) by (simp add: sum_over_def)
  also have "\<dots> \<le> u32_max"
    using total_mono[of "Suc i" "length items" "item_values items"] assms(1,2) by simp
  finally show ?thesis
    by (simp add: sat_add_u32_def)
qed

lemma picks_value:
  assumes "sum_over (item_values items) {..<length items} \<le> u32_max"
  shows "i \<le> length items \<Longrightarrow> w \<le> budget \<Longrightarrow>
    sum_list (map (nth (item_values items)) (picks items budget i w)) = dp_of items budget ! i ! w"
proof (induction i arbitrary: w)
  case 0
  then show ?case by (simp add: picks_def dp_of_0)
next
  case (Suc i)
  show ?case
  proof (cases "dp_of items budget ! Suc i ! w = dp_of items budget ! i ! w")
    case True
    with Suc show ?thesis by (simp add: picks_Suc)
  next
    case False
    with Suc(2,3) dp_of_Suc[of i items w budget]
    have "dp_of items budget ! Suc i ! w
        = dp_of items budget ! i ! (w - item_costs items ! i) + item_values items ! i"
      using dp_no_saturation[OF assms, of i "w - item_costs items ! i" budget]
      by (auto split: if_splits)
    with False Suc show ?thesis by (simp add: picks_Suc)
  qed
qed

lemma dp_optimal:
  assumes "sum_over (item_values items) {..<length items} \<le> u32_max"
  shows "i \<le> length items \<Longrightarrow> w \<le> budget \<Longrightarrow> I \<subseteq> {..<i} \<Longrightarrow> sum_over (item_costs items) I \<le> w \<Longrightarrow>
    sum_over (item_values items) I \<le> dp_of items budget ! i ! w"
proof (induction i arbitrary: w I)
  case 0
  then show ?case by (simp add: sum_over_def)
next
  case (Suc i)
  have fin: "finite I"
    using Suc(4) finite_subset by blast
  show ?case
  proof (cases "i \<in> I")
    case False
    with Suc(4) have "I \<subseteq> {..<i}"
      by (auto simp: less_Suc_eq)
    with Suc(1)[of w I] Suc(2,3,5) show ?thesis
      by (simp add: dp_of_Suc)
  next
    case True
    have split: "sum_over xs I = xs ! i + sum_over xs (I - {i})" for xs
      unfolding sum_over_def using fin True by (simp add: sum.remove)
    have sub: "I - {i} \<subseteq> {..<i}"
      using Suc(4) by (auto simp: less_Suc_eq)
    have cost: "item_costs items ! i \<le> w" "sum_over (item_costs items) (I - {i}) \<le> w - item_costs items ! i"
      using Suc(5) split[of "item_costs items"] by simp_all
    from Suc(1)[OF _ _ sub cost(2)] Suc(2,3)
    have "sum_over (item_values items) (I - {i}) \<le> dp_of items budget ! i ! (w - item_costs items ! i)"
      by simp
    with Suc(2,3) cost(1) split[of "item_values items"] show ?thesis
      using dp_no_saturation[OF assms, of i "w - item_costs items ! i" budget] by (simp add: dp_of_Suc)
  qed
qed

subsection \<open>The selection\<close>

lemma sum_list_map_distinct: "distinct is \<Longrightarrow> sum_list (map (nth xs) is) = sum_over xs (set is)"
  by (simp add: sum_over_def sum_list_distinct_conv_sum_set)

lemma dp_select_eq:
  "dp_select items budget = sort_key (\<lambda>i. - int (item_values items ! i)) (picks items budget (length items) budget)"
  by (simp add: dp_select_def Let_def picks_def dp_of_def)

lemma dp_select_distinct: "distinct (dp_select items budget)"
  by (simp add: dp_select_eq picks_distinct)

lemma dp_select_set:
  "set (dp_select items budget) = set (picks items budget (length items) budget)"
  by (simp add: dp_select_eq)

lemma dp_select_below: "set (dp_select items budget) \<subseteq> {..<length items}"
  using picks_below by (auto simp: dp_select_set)

lemma dp_select_cost: "sum_over (item_costs items) (set (dp_select items budget)) \<le> budget"
  using picks_cost[of "length items" items budget budget]
  by (simp add: dp_select_set sum_list_map_distinct[OF picks_distinct])

lemma dp_select_best:
  assumes "sum_over (item_values items) {..<length items} \<le> u32_max"
    "I \<subseteq> {..<length items}" "sum_over (item_costs items) I \<le> budget"
  shows "sum_over (item_values items) I \<le> sum_over (item_values items) (set (dp_select items budget))"
  using dp_optimal[OF assms(1), of "length items" budget budget I] assms(2,3)
    picks_value[OF assms(1), of "length items" budget budget]
  by (simp add: dp_select_set sum_list_map_distinct[OF picks_distinct])

lemma dp_select_sorted: "sorted (rev (map (nth (item_values items)) (dp_select items budget)))"
proof -
  have "sorted (map (\<lambda>i. - int (item_values items ! i)) (dp_select items budget))"
    by (simp add: dp_select_eq)
  then have "sorted_wrt (\<lambda>i j. item_values items ! j \<le> item_values items ! i) (dp_select items budget)"
    by (simp add: sorted_map)
  then show ?thesis
    by (simp add: sorted_wrt_rev sorted_wrt_map)
qed

lemma greedy_fill_budget: "sum_list (map token_cost (greedy_fill items left)) \<le> left"
  by (induction items left rule: greedy_fill.induct) (simp_all, fastforce)

lemma greedy_fill_sub: "mset (greedy_fill items left) \<subseteq># mset (map fst items)"
  by (induction items left rule: greedy_fill.induct) (auto intro: subset_mset.order_trans)

lemma selected_sub:
  assumes "distinct is" "set is \<subseteq> {..<length xs}"
  shows "mset (map (nth xs) is) \<subseteq># mset xs"
proof -
  have "mset_set (set is) \<subseteq># mset_set {0..<length xs}"
    using assms(2) by (intro subset_imp_msubset_mset_set) auto
  then have "mset is \<subseteq># mset [0..<length xs]"
    using mset_set_set[OF assms(1)] mset_set_set[of "[0..<length xs]"] by simp
  then have "image_mset (nth xs) (mset is) \<subseteq># image_mset (nth xs) (mset [0..<length xs])"
    by (rule image_mset_subseteq_mono)
  then show ?thesis
    by (metis map_nth mset_map)
qed

lemma selected_cost:
  assumes "distinct is" "set is \<subseteq> {..<length items}"
  shows "sum_list (map token_cost (map (\<lambda>i. fst (items ! i)) is)) = sum_over (item_costs items) (set is)"
proof -
  have eq: "map token_cost (map (\<lambda>i. fst (items ! i)) is) = map (nth (item_costs items)) is"
    using assms(2) by (auto simp: item_costs_def)
  show ?thesis
    unfolding eq by (rule sum_list_map_distinct[OF assms(1)])
qed

text \<open>
  Whatever branch is taken, the nodes that are selected are items, none of them more often than it
  was offered, and their token costs add up to at most the budget.
\<close>

lemma knapsack_within_budget:
  "sum_list (map token_cost (knapsack items budget)) \<le> budget \<and>
   mset (knapsack items budget) \<subseteq># mset (map fst items)"
proof -
  have dp: "mset (map (\<lambda>i. fst (items ! i)) (dp_select items budget)) \<subseteq># mset (map fst items)"
  proof -
    have eq: "map (\<lambda>i. fst (items ! i)) (dp_select items budget) = map (nth (map fst items)) (dp_select items budget)"
      using dp_select_below[of items budget] by auto
    show ?thesis
      unfolding eq by (rule selected_sub[OF dp_select_distinct]) (simp add: dp_select_below)
  qed
  have greedy: "mset (greedy_fill (sort_key f items) budget) \<subseteq># mset (map fst items)" for f :: "_ \<Rightarrow> rat"
    using greedy_fill_sub[of "sort_key f items" budget] by simp
  show ?thesis
    using dp greedy greedy_fill_budget dp_select_cost[of items budget]
      selected_cost[OF dp_select_distinct dp_select_below, of items budget]
    by (simp add: knapsack_def knapsack_greedy_def)
qed


definition sample_items :: "(gnode \<times> rat) list" where
  "sample_items =
     (let n = (\<lambda>i sig. \<lparr>gn_id = i, gn_vname = \<lparr>vn_corpus = [], vn_root = [], vn_path = ''a.rs'',
               vn_language = [], vn_signature = sig\<rparr>, gn_kind = ''func''\<rparr>)
      in [(n 1 ''abcdefgh'', 5/1000000), (n 2 ''abcd'', 3/1000000), (n 3 ''abcd'', 3/1000000)])"

lemma sample_values: "item_values sample_items = [5, 3, 3]" "item_costs sample_items = [4, 3, 3]"
  by (simp_all add: item_values_def item_costs_def sample_items_def Let_def score_value_def
      SCORE_SCALE_def u32_max_def token_cost_def TOKEN_CHARS_PER_TOKEN_def)

lemma sample_all: "sum_over [5, 3, 3] {..<3} \<le> u32_max" "sum_over [4, 3, 3] {1, 2} \<le> 6"
  by (simp_all add: sum_over_def u32_max_def numeral_3_eq_3)

lemma sample_length: "length sample_items = 3"
  by (simp add: sample_items_def Let_def)


end
