(* ===== verification/Retrieval_Kcore.thy ===== *)
theory Retrieval_Kcore
  imports Graph_Core "HOL-Library.AList"
begin

section \<open>k-core decomposition\<close>

text \<open>
  \<open>crates/travsr-retrieval/src/kcore.rs\<close>: the bucket peeling of Batagelj and Zaversnik on dense
  indices and the propagation of a package's shell to its symbols. The arrays are lists updated by
  index; the invariant \<open>buckets_ok\<close> keeps every index in range. A \<open>HashSet\<close> of neighbours is a
  distinct list, and the results on peeling hold for every order of it. Degrees are \<open>u32\<close> values
  below the number of nodes.
\<close>

subsection \<open>Peeling\<close>

record peel_state =
  pk_degree :: "nat list"
  pk_bin :: "nat list"
  pk_order :: "nat list"
  pk_pos :: "nat list"
  pk_shell :: "nat list"

definition count_degrees :: "nat list \<Rightarrow> nat \<Rightarrow> nat list" where
  "count_degrees degree max_degree = fold (\<lambda>d b. b[d := b ! d + 1]) degree (replicate (max_degree + 1) 0)"

fun bin_starts :: "nat \<Rightarrow> nat list \<Rightarrow> nat list" where
  "bin_starts start [] = []"
| "bin_starts start (cnt # bs) = start # bin_starts (start + cnt) bs"

fun place :: "nat list \<Rightarrow> nat \<Rightarrow> nat list \<times> nat list \<times> nat list \<Rightarrow> nat list \<times> nat list \<times> nat list" where
  "place degree v (order, pos, bin_cur) =
     (let d = degree ! v
      in (order[bin_cur ! d := v], pos[v := bin_cur ! d], bin_cur[d := bin_cur ! d + 1]))"

definition peel_init :: "nat list list \<Rightarrow> peel_state" where
  "peel_init nb =
     (let n = length nb;
          degree = map length nb;
          max_degree = fold max degree 0;
          bin = bin_starts 0 (count_degrees degree max_degree);
          (order, pos, bin_cur) = fold (place degree) [0..<n] (replicate n 0, replicate n 0, bin)
      in \<lparr>pk_degree = degree, pk_bin = bin, pk_order = order, pk_pos = pos, pk_shell = replicate n 0\<rparr>)"

definition lower_degree :: "nat \<Rightarrow> nat \<Rightarrow> nat \<Rightarrow> peel_state \<Rightarrow> peel_state" where
  "lower_degree v i u st =
     (if pk_pos st ! u \<le> i then st
      else if pk_degree st ! v < pk_degree st ! u
      then (let du = pk_degree st ! u;
                pu = pk_pos st ! u;
                bs = pk_bin st ! du;
                w = pk_order st ! bs
            in st\<lparr>pk_order := (pk_order st)[pu := w, bs := u],
                  pk_pos := (pk_pos st)[w := pu, u := bs],
                  pk_bin := (pk_bin st)[du := bs + 1],
                  pk_degree := (pk_degree st)[u := du - 1]\<rparr>)
      else st)"

definition peel_step :: "nat list list \<Rightarrow> nat \<Rightarrow> peel_state \<Rightarrow> peel_state" where
  "peel_step nb i st =
     (let v = pk_order st ! i
      in fold (lower_degree v i) (nb ! v) (st\<lparr>pk_shell := (pk_shell st)[v := pk_degree st ! v]\<rparr>))"

definition peel :: "nat list list \<Rightarrow> nat list" where
  "peel nb = pk_shell (fold (peel_step nb) [0..<length nb] (peel_init nb))"

subsection \<open>The reference: cores\<close>

definition core_set :: "nat list list \<Rightarrow> nat \<Rightarrow> nat set \<Rightarrow> bool" where
  "core_set nb k S \<longleftrightarrow> S \<subseteq> {..<length nb} \<and> (\<forall>w\<in>S. k \<le> card (set (nb ! w) \<inter> S))"

definition in_core :: "nat list list \<Rightarrow> nat \<Rightarrow> nat \<Rightarrow> bool" where
  "in_core nb k v \<longleftrightarrow> (\<exists>S. core_set nb k S \<and> v \<in> S)"

definition neighbours_ok :: "nat list list \<Rightarrow> bool" where
  "neighbours_ok nb \<longleftrightarrow>
     (\<forall>v<length nb. distinct (nb ! v) \<and> v \<notin> set (nb ! v) \<and>
        (\<forall>u\<in>set (nb ! v). u < length nb \<and> v \<in> set (nb ! u)))"

subsection \<open>The buckets\<close>

definition below :: "nat list \<Rightarrow> nat \<Rightarrow> nat" where
  "below degree d = card {w. w < length degree \<and> degree ! w < d}"

text \<open>\<open>order\<close> and \<open>pos\<close> are inverse permutations, \<open>order\<close> is sorted by degree, and above the level \<open>c\<close>
  the bins hold the start of each degree.\<close>

definition buckets_ok :: "nat \<Rightarrow> nat \<Rightarrow> peel_state \<Rightarrow> bool" where
  "buckets_ok n c st \<longleftrightarrow>
     length (pk_degree st) = n \<and> length (pk_order st) = n \<and> length (pk_pos st) = n \<and>
     length (pk_shell st) = n \<and>
     (\<forall>w<n. pk_pos st ! w < n \<and> pk_order st ! (pk_pos st ! w) = w) \<and>
     (\<forall>j<n. pk_order st ! j < n \<and> pk_pos st ! (pk_order st ! j) = j) \<and>
     (\<forall>j j'. j \<le> j' \<longrightarrow> j' < n \<longrightarrow> pk_degree st ! (pk_order st ! j) \<le> pk_degree st ! (pk_order st ! j')) \<and>
     (\<forall>w<n. pk_degree st ! w < length (pk_bin st)) \<and>
     (\<forall>d. c < d \<longrightarrow> d < length (pk_bin st) \<longrightarrow> pk_bin st ! d = below (pk_degree st) d)"

lemma down_closed_lessThan:
  assumes "A \<subseteq> {..<n :: nat}" "\<And>j j'. j' \<in> A \<Longrightarrow> j \<le> j' \<Longrightarrow> j \<in> A"
  shows "A = {..<card A}"
proof -
  have fin: "finite A"
    using assms(1) finite_subset by blast
  have "{..<j} \<subseteq> A" if "j \<in> A" for j
    using assms(2)[OF that] by auto
  then have 1: "j < card A" if "j \<in> A" for j
  proof -
    have "insert j {..<j} \<subseteq> A"
      using that \<open>\<And>j. j \<in> A \<Longrightarrow> {..<j} \<subseteq> A\<close> by auto
    then have "card (insert j {..<j}) \<le> card A"
      by (rule card_mono[OF fin])
    then show ?thesis by simp
  qed
  then have "A \<subseteq> {..<card A}" by auto
  then show ?thesis
    by (intro card_subset_eq) simp_all
qed

lemma below_position:
  assumes "buckets_ok n c st" "j < n"
  shows "pk_degree st ! (pk_order st ! j) < d \<longleftrightarrow> j < below (pk_degree st) d"
proof -
  let ?A = "{j. j < n \<and> pk_degree st ! (pk_order st ! j) < d}"
  have perm: "\<forall>w<n. pk_pos st ! w < n \<and> pk_order st ! (pk_pos st ! w) = w"
      "\<forall>j<n. pk_order st ! j < n \<and> pk_pos st ! (pk_order st ! j) = j"
    and sorted: "\<And>j j'. j \<le> j' \<Longrightarrow> j' < n \<Longrightarrow> pk_degree st ! (pk_order st ! j) \<le> pk_degree st ! (pk_order st ! j')"
    and len: "length (pk_degree st) = n"
    using assms(1) unfolding buckets_ok_def by blast+
  have "bij_betw (nth (pk_order st)) ?A {w. w < n \<and> pk_degree st ! w < d}"
    using perm by (intro bij_betw_byWitness[of _ "nth (pk_pos st)"]) auto
  then have "below (pk_degree st) d = card ?A"
    by (simp add: below_def len bij_betw_same_card)
  moreover have "?A = {..<card ?A}"
    by (rule down_closed_lessThan[of _ n]) (auto intro: le_less_trans[OF sorted])
  ultimately show ?thesis
    using assms(2) by auto
qed

text \<open>Lowering one degree: the node trades places with the first of its bucket, which then starts
  one further on.\<close>

lemma lower_degree_ok:
  assumes ok: "buckets_ok n c st" and v: "v < n" "pk_pos st ! v = i" "c \<le> pk_degree st ! v"
    and c: "c = pk_degree st ! v"
    and u: "u < n" "i < pk_pos st ! u" "pk_degree st ! v < pk_degree st ! u"
  shows "buckets_ok n c (lower_degree v i u st) \<and>
    pk_degree (lower_degree v i u st) = (pk_degree st)[u := pk_degree st ! u - 1] \<and>
    (\<forall>j\<le>i. pk_order (lower_degree v i u st) ! j = pk_order st ! j) \<and>
    (\<forall>w<n. pk_pos (lower_degree v i u st) ! w \<le> i \<longleftrightarrow> pk_pos st ! w \<le> i) \<and>
    pk_shell (lower_degree v i u st) = pk_shell st"
proof -
  define du pu bs w where "du = pk_degree st ! u" and "pu = pk_pos st ! u" and "bs = pk_bin st ! du"
    and "w = pk_order st ! bs"
  note defs = du_def[symmetric] pu_def[symmetric] bs_def[symmetric] w_def[symmetric]
  have len: "length (pk_degree st) = n" "length (pk_order st) = n" "length (pk_pos st) = n"
      "length (pk_shell st) = n"
    and perm: "\<And>x. x < n \<Longrightarrow> pk_pos st ! x < n" "\<And>x. x < n \<Longrightarrow> pk_order st ! (pk_pos st ! x) = x"
      "\<And>j. j < n \<Longrightarrow> pk_order st ! j < n" "\<And>j. j < n \<Longrightarrow> pk_pos st ! (pk_order st ! j) = j"
    and sorted: "\<And>j j'. j \<le> j' \<Longrightarrow> j' < n \<Longrightarrow> pk_degree st ! (pk_order st ! j) \<le> pk_degree st ! (pk_order st ! j')"
    and small: "\<And>x. x < n \<Longrightarrow> pk_degree st ! x < length (pk_bin st)"
    and bins: "\<And>d. c < d \<Longrightarrow> d < length (pk_bin st) \<Longrightarrow> pk_bin st ! d = below (pk_degree st) d"
    using ok unfolding buckets_ok_def by blast+
  have du: "c < du" "du < length (pk_bin st)" and bs: "bs = below (pk_degree st) du"
    using u c small bins by (simp_all add: du_def bs_def)
  have pu: "pu < n" "pk_order st ! pu = u"
    using perm u by (simp_all add: pu_def)
  have "bs \<le> pu"
    using below_position[OF ok pu(1), of du] pu(2) by (simp add: bs du_def)
  then have bsn: "bs < n" using pu(1) by simp
  have w: "w < n" "pk_pos st ! w = bs"
    using perm bsn by (simp_all add: w_def)
  have dw: "pk_degree st ! w = du"
  proof -
    have "\<not> pk_degree st ! (pk_order st ! bs) < du"
      using below_position[OF ok bsn, of du] bs by simp
    with sorted[OF \<open>bs \<le> pu\<close> pu(1)] pu(2) show ?thesis
      by (simp add: w_def du_def)
  qed
  have i: "i < n" "pk_order st ! i = v"
    using perm v by auto
  have "i < bs"
    using below_position[OF ok i(1), of du] i(2) du c by (simp add: bs)
  let ?st = "lower_degree v i u st"
  have st: "pk_order ?st = (pk_order st)[pu := w, bs := u]" "pk_pos ?st = (pk_pos st)[w := pu, u := bs]"
      "pk_bin ?st = (pk_bin st)[du := bs + 1]" "pk_degree ?st = (pk_degree st)[u := du - 1]"
      "pk_shell ?st = pk_shell st"
    using u by (simp_all add: lower_degree_def Let_def defs)
  have order: "pk_order ?st ! j = (if j = bs then u else if j = pu then w else pk_order st ! j)" if "j < n" for j
    using that bsn pu(1) by (auto simp: st len nth_list_update)
  have pos: "pk_pos ?st ! x = (if x = u then bs else if x = w then pu else pk_pos st ! x)" if "x < n" for x
    using that u(1) w(1) by (auto simp: st len nth_list_update)
  have degree: "pk_degree ?st ! x = (if x = u then du - 1 else pk_degree st ! x)" if "x < n" for x
    using that u(1) by (simp add: st len nth_list_update)
  have key: "pk_degree ?st ! (pk_order ?st ! j) = (if j = bs then du - 1 else pk_degree st ! (pk_order st ! j))"
    if "j < n" for j
  proof -
    have "pk_order st ! j \<noteq> u" if "j \<noteq> pu" using perm(4)[OF \<open>j < n\<close>] that pu_def by auto
    moreover have "w = u \<Longrightarrow> bs = pu" using w(2) pu_def by simp
    ultimately show ?thesis
      using order[OF that] degree u(1) w(1) perm(3)[OF that] dw pu(2) du_def by auto
  qed
  have sorted': "pk_degree ?st ! (pk_order ?st ! j) \<le> pk_degree ?st ! (pk_order ?st ! j')"
    if "j \<le> j'" "j' < n" for j j'
  proof -
    have "pk_degree st ! (pk_order st ! j) \<le> du - 1" if "j < bs"
      using below_position[OF ok, of j du] that bsn by (simp add: bs)
    moreover have "du \<le> pk_degree st ! (pk_order st ! j')" if "bs \<le> j'"
      using sorted[OF that \<open>j' < n\<close>] dw by (simp add: w_def)
    ultimately show ?thesis
      using that sorted[OF that] key[of j] key[of j'] by auto
  qed
  have below': "below (pk_degree ?st) d = (if d = du then below (pk_degree st) d + 1 else below (pk_degree st) d)" for d
  proof (cases "d = du")
    case True
    have "{x. x < n \<and> pk_degree ?st ! x < d} = insert u {x. x < n \<and> pk_degree st ! x < d}"
      using True u(1,3) degree du_def by (auto split: if_splits)
    moreover have "u \<notin> {x. x < n \<and> pk_degree st ! x < d}"
      using True du_def by simp
    ultimately show ?thesis
      using True by (simp add: below_def st len)
  next
    case False
    have "{x. x < n \<and> pk_degree ?st ! x < d} = {x. x < n \<and> pk_degree st ! x < d}"
      using False u(1,3) degree du_def by (auto split: if_splits)
    with False show ?thesis
      by (simp add: below_def st len)
  qed
  have "buckets_ok n c ?st"
    unfolding buckets_ok_def
  proof (intro conjI allI impI)
    fix x assume x: "x < n"
    show "pk_pos ?st ! x < n"
      using pos[OF x] bsn pu(1) perm(1)[OF x] by simp
    then show "pk_order ?st ! (pk_pos ?st ! x) = x"
      using pos[OF x] order perm(2)[OF x] w pu pu_def w_def by (auto split: if_splits)
    show "pk_degree ?st ! x < length (pk_bin ?st)"
      using degree[OF x] small[OF x] du(2) by (auto simp: st)
  next
    fix j assume j: "j < n"
    show "pk_order ?st ! j < n"
      using order[OF j] u(1) w(1) perm(3)[OF j] by simp
    then show "pk_pos ?st ! (pk_order ?st ! j) = j"
      using order[OF j] pos perm(4)[OF j] w pu pu_def w_def by (auto split: if_splits)
  next
    fix d assume "c < d" "d < length (pk_bin ?st)"
    then show "pk_bin ?st ! d = below (pk_degree ?st) d"
      using bins below' bs by (auto simp: st nth_list_update)
  qed (use sorted' in \<open>simp_all add: st len\<close>)
  moreover have "\<forall>j\<le>i. pk_order ?st ! j = pk_order st ! j"
    using order i(1) \<open>i < bs\<close> \<open>bs \<le> pu\<close> by auto
  moreover have "\<forall>x<n. pk_pos ?st ! x \<le> i \<longleftrightarrow> pk_pos st ! x \<le> i"
    using pos \<open>i < bs\<close> \<open>bs \<le> pu\<close> w(2) pu_def by auto
  ultimately show ?thesis
    by (simp add: st du_def)
qed

lemma lower_degree_skip:
  "pk_pos st ! u \<le> i \<or> pk_degree st ! u \<le> pk_degree st ! v \<Longrightarrow> lower_degree v i u st = st"
  by (auto simp: lower_degree_def)

lemma lower_all:
  assumes ok: "buckets_ok n c st" and v: "v < n" "pk_pos st ! v = i" "c = pk_degree st ! v"
    and us: "distinct us" "v \<notin> set us" "set us \<subseteq> {..<n}"
  shows "buckets_ok n c (fold (lower_degree v i) us st) \<and>
    (\<forall>j\<le>i. pk_order (fold (lower_degree v i) us st) ! j = pk_order st ! j) \<and>
    (\<forall>w<n. pk_pos (fold (lower_degree v i) us st) ! w \<le> i \<longleftrightarrow> pk_pos st ! w \<le> i) \<and>
    pk_shell (fold (lower_degree v i) us st) = pk_shell st \<and>
    (\<forall>w<n. pk_degree (fold (lower_degree v i) us st) ! w =
       (if w \<in> set us \<and> i < pk_pos st ! w \<and> c < pk_degree st ! w then pk_degree st ! w - 1
        else pk_degree st ! w))"
  using ok v us
proof (induction us arbitrary: st)
  case (Cons u us)
  have u: "u < n" "u \<noteq> v" "u \<notin> set us"
    using Cons.prems by auto
  let ?st = "lower_degree v i u st"
  show ?case
  proof (cases "i < pk_pos st ! u \<and> c < pk_degree st ! u")
    case True
    have step: "buckets_ok n c ?st" "pk_degree ?st = (pk_degree st)[u := pk_degree st ! u - 1]"
        "\<forall>j\<le>i. pk_order ?st ! j = pk_order st ! j"
        "\<forall>w<n. pk_pos ?st ! w \<le> i \<longleftrightarrow> pk_pos st ! w \<le> i" "pk_shell ?st = pk_shell st"
      using lower_degree_ok[OF Cons.prems(1-3) _ Cons.prems(4) u(1)] True Cons.prems(4) by auto
    have len: "length (pk_degree st) = n" and i: "i < n" "pk_order st ! i = v"
      using Cons.prems(1-3) unfolding buckets_ok_def by auto
    have deg: "pk_degree ?st ! w = (if w = u then pk_degree st ! u - 1 else pk_degree st ! w)" if "w < n" for w
      using that len u(1) by (simp add: step(2) nth_list_update)
    have "pk_order ?st ! i = v"
      using step(3) i(2) by simp
    with step(1) i(1) have "pk_pos ?st ! v = i"
      unfolding buckets_ok_def by auto
    moreover have "c = pk_degree ?st ! v"
      using deg[OF Cons.prems(2)] u(2) Cons.prems(4) by simp
    ultimately have IH: "buckets_ok n c (fold (lower_degree v i) us ?st)"
        "\<forall>j\<le>i. pk_order (fold (lower_degree v i) us ?st) ! j = pk_order ?st ! j"
        "\<forall>w<n. pk_pos (fold (lower_degree v i) us ?st) ! w \<le> i \<longleftrightarrow> pk_pos ?st ! w \<le> i"
        "pk_shell (fold (lower_degree v i) us ?st) = pk_shell ?st"
        "\<And>w. w < n \<Longrightarrow> pk_degree (fold (lower_degree v i) us ?st) ! w =
           (if w \<in> set us \<and> i < pk_pos ?st ! w \<and> c < pk_degree ?st ! w then pk_degree ?st ! w - 1
            else pk_degree ?st ! w)"
      using Cons.IH[OF step(1) Cons.prems(2)] Cons.prems(5-7) by auto
    have "pk_degree (fold (lower_degree v i) us ?st) ! w =
       (if w \<in> set (u # us) \<and> i < pk_pos st ! w \<and> c < pk_degree st ! w then pk_degree st ! w - 1
        else pk_degree st ! w)" if "w < n" for w
    proof -
      have "i < pk_pos ?st ! w \<longleftrightarrow> i < pk_pos st ! w"
        using step(4) that by (meson not_le)
      then show ?thesis
        using IH(5)[OF that] deg[OF that] True u(3) by auto
    qed
    with IH step show ?thesis by simp
  next
    case False
    with Cons.prems(4) have skip: "?st = st"
      by (intro lower_degree_skip) auto
    have IH: "buckets_ok n c (fold (lower_degree v i) us st)"
        "\<forall>j\<le>i. pk_order (fold (lower_degree v i) us st) ! j = pk_order st ! j"
        "\<forall>w<n. pk_pos (fold (lower_degree v i) us st) ! w \<le> i \<longleftrightarrow> pk_pos st ! w \<le> i"
        "pk_shell (fold (lower_degree v i) us st) = pk_shell st"
        "\<And>w. w < n \<Longrightarrow> pk_degree (fold (lower_degree v i) us st) ! w =
           (if w \<in> set us \<and> i < pk_pos st ! w \<and> c < pk_degree st ! w then pk_degree st ! w - 1
            else pk_degree st ! w)"
      using Cons.IH[OF Cons.prems(1-4)] Cons.prems(5-7) by auto
    with skip False show ?thesis by auto
  qed
qed simp

subsection \<open>The invariant of peeling\<close>

definition waiting :: "nat \<Rightarrow> nat \<Rightarrow> peel_state \<Rightarrow> nat set" where
  "waiting n i st = {w. w < n \<and> i \<le> pk_pos st ! w}"

definition peel_inv :: "nat list list \<Rightarrow> nat \<Rightarrow> nat \<Rightarrow> peel_state \<Rightarrow> bool" where
  "peel_inv nb i c st \<longleftrightarrow>
     (let n = length nb; U = waiting n i st; degree = nth (pk_degree st)
      in buckets_ok n c st \<and>
         (\<forall>w\<in>U. card (set (nb ! w) \<inter> U) \<le> degree w \<and> c \<le> degree w \<and>
            (c < degree w \<longrightarrow> degree w = card (set (nb ! w) \<inter> U))) \<and>
         (\<forall>w<n. w \<notin> U \<longrightarrow> degree w \<le> c \<and> pk_shell st ! w = degree w) \<and>
         (\<forall>k\<le>c. core_set nb k {w. w < n \<and> k \<le> degree w}) \<and>
         (\<forall>S k. core_set nb k S \<longrightarrow> (S \<subseteq> U \<or> k \<le> c) \<and> (\<forall>w\<in>S. w \<notin> U \<longrightarrow> k \<le> degree w)))"

lemma buckets_ok_level: "buckets_ok n c st \<Longrightarrow> c \<le> c' \<Longrightarrow> buckets_ok n c' st"
  unfolding buckets_ok_def by auto

lemma buckets_ok_shell: "buckets_ok n c st \<Longrightarrow> buckets_ok n c (st\<lparr>pk_shell := (pk_shell st)[v := x]\<rparr>)"
  by (simp add: buckets_ok_def)

lemma neighbours_card:
  assumes "neighbours_ok nb" "w < length nb" "v < length nb"
  shows "card (set (nb ! w) \<inter> (U - {v})) = card (set (nb ! w) \<inter> U) - (if w \<in> set (nb ! v) \<and> v \<in> U then 1 else 0)"
proof -
  have "v \<in> set (nb ! w) \<longleftrightarrow> w \<in> set (nb ! v)"
    using assms unfolding neighbours_ok_def by blast
  moreover have "set (nb ! w) \<inter> (U - {v}) = set (nb ! w) \<inter> U - {v}" by blast
  ultimately show ?thesis
    by (simp add: card_Diff_singleton_if)
qed

lemma peel_step_inv:
  assumes nb: "neighbours_ok nb" and inv: "peel_inv nb i c st" and i: "i < length nb"
  shows "peel_inv nb (Suc i) (pk_degree st ! (pk_order st ! i)) (peel_step nb i st)"
proof -
  define n U v dv where "n = length nb" and "U = waiting n i st" and "v = pk_order st ! i"
    and "dv = pk_degree st ! v"
  have buckets: "buckets_ok n c st"
    and R: "\<And>w. w \<in> U \<Longrightarrow> card (set (nb ! w) \<inter> U) \<le> pk_degree st ! w \<and> c \<le> pk_degree st ! w \<and>
            (c < pk_degree st ! w \<longrightarrow> pk_degree st ! w = card (set (nb ! w) \<inter> U))"
    and P: "\<And>w. w < n \<Longrightarrow> w \<notin> U \<Longrightarrow> pk_degree st ! w \<le> c \<and> pk_shell st ! w = pk_degree st ! w"
    and L: "\<And>k. k \<le> c \<Longrightarrow> core_set nb k {w. w < n \<and> k \<le> pk_degree st ! w}"
    and H: "\<And>S k. core_set nb k S \<Longrightarrow> (S \<subseteq> U \<or> k \<le> c) \<and> (\<forall>w\<in>S. w \<notin> U \<longrightarrow> k \<le> pk_degree st ! w)"
    using inv unfolding peel_inv_def Let_def n_def[symmetric] U_def[symmetric] by blast+
  have perm: "\<And>x. x < n \<Longrightarrow> pk_pos st ! x < n \<and> pk_order st ! (pk_pos st ! x) = x"
      "\<And>j. j < n \<Longrightarrow> pk_order st ! j < n \<and> pk_pos st ! (pk_order st ! j) = j"
    and sorted: "\<And>j j'. j \<le> j' \<Longrightarrow> j' < n \<Longrightarrow> pk_degree st ! (pk_order st ! j) \<le> pk_degree st ! (pk_order st ! j')"
    and len: "length (pk_shell st) = n"
    using buckets unfolding buckets_ok_def by blast+
  have i: "i < n" using i by (simp add: n_def)
  have v: "v < n" "pk_pos st ! v = i" "v \<in> U"
    using perm(2)[OF i] by (auto simp: v_def U_def waiting_def)
  have dv: "c \<le> dv" "\<And>w. w \<in> U \<Longrightarrow> dv \<le> pk_degree st ! w"
  proof -
    show "c \<le> dv" using R[OF v(3)] by (simp add: dv_def)
    show "dv \<le> pk_degree st ! w" if "w \<in> U" for w
      using sorted[of i "pk_pos st ! w"] that perm(1) by (auto simp: U_def waiting_def dv_def v_def)
  qed
  define st0 where "st0 = st\<lparr>pk_shell := (pk_shell st)[v := dv]\<rparr>"
  define st' where "st' = peel_step nb i st"
  have st': "st' = fold (lower_degree v i) (nb ! v) st0"
    by (simp add: st'_def peel_step_def Let_def v_def st0_def dv_def)
  have nbv: "distinct (nb ! v)" "v \<notin> set (nb ! v)" "set (nb ! v) \<subseteq> {..<n}"
    using nb v(1) by (auto simp: neighbours_ok_def n_def)
  have "buckets_ok n dv st0"
    unfolding st0_def by (rule buckets_ok_shell[OF buckets_ok_level[OF buckets dv(1)]])
  from lower_all[OF this v(1) _ _ nbv(1,2,3), of i, folded st'] v(2)
  have B: "buckets_ok n dv st'" "\<And>w. w < n \<Longrightarrow> pk_pos st' ! w \<le> i \<longleftrightarrow> pk_pos st ! w \<le> i"
      "pk_shell st' = (pk_shell st)[v := dv]"
    and D: "\<And>w. w < n \<Longrightarrow> pk_degree st' ! w = (if w \<in> set (nb ! v) \<and> i < pk_pos st ! w \<and> dv < pk_degree st ! w
         then pk_degree st ! w - 1 else pk_degree st ! w)"
    by (simp_all add: st0_def dv_def)
  define U' where "U' = waiting n (Suc i) st'"
  have U': "U' = U - {v}"
  proof -
    have at: "pk_pos st ! w = i \<longleftrightarrow> w = v" if "w < n" for w
      using perm(1)[OF that] v(2) by (auto simp: v_def)
    have "w \<in> U' \<longleftrightarrow> w \<in> U - {v}" if w: "w < n" for w
    proof -
      have "w \<in> U' \<longleftrightarrow> \<not> pk_pos st' ! w \<le> i"
        using w by (auto simp: U'_def waiting_def)
      also have "\<dots> \<longleftrightarrow> i \<le> pk_pos st ! w \<and> pk_pos st ! w \<noteq> i"
        using B(2)[OF w] by linarith
      finally show ?thesis
        using w at[OF w] by (simp add: U_def waiting_def)
    qed
    moreover have "U' \<subseteq> {..<n}" "U \<subseteq> {..<n}"
      by (auto simp: U'_def U_def waiting_def)
    ultimately show ?thesis by blast
  qed
  have settled: "pk_degree st' ! w = pk_degree st ! w" if "w < n" "w \<notin> U'" for w
    using D[OF that(1)] that v(2) by (auto simp: U' U_def waiting_def)
  have same: "k \<le> pk_degree st' ! w \<longleftrightarrow> k \<le> pk_degree st ! w" if "w < n" "k \<le> dv" for w k
    using D[OF that(1)] that(2) by auto
  have R': "card (set (nb ! w) \<inter> U') \<le> pk_degree st' ! w \<and> dv \<le> pk_degree st' ! w \<and>
      (dv < pk_degree st' ! w \<longrightarrow> pk_degree st' ! w = card (set (nb ! w) \<inter> U'))" if w: "w \<in> U'" for w
  proof -
    have wU: "w \<in> U" "w < n" "i < pk_pos st ! w"
      using w v perm(1)[of w] v_def by (auto simp: U' U_def waiting_def le_less)
    have rem: "card (set (nb ! w) \<inter> U') = card (set (nb ! w) \<inter> U) - (if w \<in> set (nb ! v) then 1 else 0)"
      using neighbours_card[OF nb, of w v U] wU(2) v by (simp add: U' n_def)
    show ?thesis
      using R[OF wU(1)] dv(1) dv(2)[OF wU(1)] D[OF wU(2)] wU(3) rem by auto
  qed
  have P': "pk_degree st' ! w \<le> dv \<and> pk_shell st' ! w = pk_degree st' ! w" if "w < n" "w \<notin> U'" for w
  proof (cases "w = v")
    case True
    with settled[OF that] v(1) show ?thesis by (simp add: B(3) len dv_def)
  next
    case False
    with that have "w \<notin> U" by (simp add: U')
    with P[OF that(1)] settled[OF that] False dv(1) show ?thesis by (simp add: B(3))
  qed
  have L': "core_set nb k {w. w < n \<and> k \<le> pk_degree st' ! w}" if k: "k \<le> dv" for k
  proof -
    have eq: "{w. w < n \<and> k \<le> pk_degree st' ! w} = {w. w < n \<and> k \<le> pk_degree st ! w}"
      using same[OF _ k] by blast
    show ?thesis
    proof (cases "k \<le> c")
      case True
      with L eq show ?thesis by simp
    next
      case False
      have "{w. w < n \<and> k \<le> pk_degree st ! w} = U"
        using P dv(2) k False by (force simp: U_def waiting_def)
      moreover have "core_set nb k U"
        unfolding core_set_def
      proof (intro conjI ballI)
        fix w assume "w \<in> U"
        with R[OF this] dv(2)[OF this] k False show "k \<le> card (set (nb ! w) \<inter> U)" by auto
      qed (auto simp: U_def waiting_def n_def)
      ultimately show ?thesis using eq by simp
    qed
  qed
  have H': "(S \<subseteq> U' \<or> k \<le> dv) \<and> (\<forall>w\<in>S. w \<notin> U' \<longrightarrow> k \<le> pk_degree st' ! w)" if S: "core_set nb k S" for S k
  proof -
    have kdv: "k \<le> dv" if "v \<in> S"
    proof (cases "S \<subseteq> U")
      case True
      have "k \<le> card (set (nb ! v) \<inter> S)" using S that by (simp add: core_set_def)
      also have "\<dots> \<le> card (set (nb ! v) \<inter> U)" using True by (intro card_mono) auto
      also have "\<dots> \<le> dv" using R[OF v(3)] by (simp add: dv_def)
      finally show ?thesis .
    next
      case False
      with H[OF S] dv(1) show ?thesis by simp
    qed
    have "S \<subseteq> {..<n}" using S by (simp add: core_set_def n_def)
    then have "k \<le> pk_degree st' ! w" if "w \<in> S" "w \<notin> U'" for w
      using H[OF S] kdv settled[of w] that by (cases "w = v") (auto simp: U' dv_def)
    moreover have "S \<subseteq> U' \<or> k \<le> dv"
      using H[OF S] kdv dv(1) by (auto simp: U')
    ultimately show ?thesis by blast
  qed
  show ?thesis
    unfolding peel_inv_def Let_def n_def[symmetric] st'_def[symmetric] U'_def[symmetric]
      v_def[symmetric] dv_def[symmetric]
    using B(1) R' P' L' H' by blast
qed

subsection \<open>The counting sort that fills the buckets\<close>

definition same :: "nat list \<Rightarrow> nat \<Rightarrow> nat \<Rightarrow> nat" where
  "same degree d m = card {x. x < m \<and> degree ! x = d}"

definition slot :: "nat list \<Rightarrow> nat \<Rightarrow> nat" where
  "slot degree w = below degree (degree ! w) + same degree (degree ! w) w"

lemma same_Suc: "same degree d (Suc m) = same degree d m + (if degree ! m = d then 1 else 0)"
proof -
  have "{x. x < Suc m \<and> degree ! x = d} =
      (if degree ! m = d then insert m {x. x < m \<and> degree ! x = d} else {x. x < m \<and> degree ! x = d})"
    by (auto simp: less_Suc_eq)
  then show ?thesis
    by (simp add: same_def)
qed

lemma same_mono: "m \<le> m' \<Longrightarrow> same degree d m \<le> same degree d m'"
  unfolding same_def by (intro card_mono) auto

lemma below_Suc: "below degree (Suc d) = below degree d + same degree d (length degree)"
proof -
  have "{w. w < length degree \<and> degree ! w < Suc d} =
      {w. w < length degree \<and> degree ! w < d} \<union> {w. w < length degree \<and> degree ! w = d}"
    by auto
  then show ?thesis
    by (simp add: below_def same_def card_Un_disjoint disjoint_iff)
qed

lemma below_mono: "d \<le> d' \<Longrightarrow> below degree d \<le> below degree d'"
  unfolding below_def by (intro card_mono) auto

lemma below_le_length: "below degree d \<le> length degree"
proof -
  have "below degree d \<le> card {..<length degree}"
    unfolding below_def by (intro card_mono) auto
  then show ?thesis by simp
qed

lemma slot_less:
  assumes "w < length degree" "degree ! w < degree ! w'"
  shows "slot degree w < slot degree w'"
proof -
  have "same degree (degree ! w) (Suc w) \<le> same degree (degree ! w) (length degree)"
    using assms(1) by (intro same_mono) simp
  then have "slot degree w < below degree (Suc (degree ! w))"
    by (simp add: slot_def below_Suc same_Suc)
  also have "\<dots> \<le> below degree (degree ! w')"
    using assms(2) by (intro below_mono) simp
  finally show ?thesis
    by (simp add: slot_def)
qed

lemma slot_less_same:
  assumes "w < w'" "degree ! w = degree ! w'"
  shows "slot degree w < slot degree w'"
proof -
  have "same degree (degree ! w) (Suc w) \<le> same degree (degree ! w) w'"
    using assms(1) by (intro same_mono) simp
  with assms(2) show ?thesis
    by (simp add: slot_def same_Suc)
qed

lemma slot_bound: "w < length degree \<Longrightarrow> slot degree w < length degree"
proof -
  assume w: "w < length degree"
  have "same degree (degree ! w) (Suc w) \<le> same degree (degree ! w) (length degree)"
    using w by (intro same_mono) simp
  then have "slot degree w < below degree (Suc (degree ! w))"
    by (simp add: slot_def below_Suc same_Suc)
  with below_le_length[of degree "Suc (degree ! w)"] show ?thesis by simp
qed

lemma slot_inj: "inj_on (slot degree) {..<length degree}"
proof (rule inj_onI)
  fix w w' assume "w \<in> {..<length degree}" "w' \<in> {..<length degree}" "slot degree w = slot degree w'"
  then show "w = w'"
    using slot_less[of w degree w'] slot_less[of w' degree w] slot_less_same[of w w' degree]
      slot_less_same[of w' w degree]
    by (metis lessThan_iff less_irrefl linorder_neqE_nat)
qed

lemma slot_onto: "j < length degree \<Longrightarrow> \<exists>w<length degree. slot degree w = j"
proof -
  assume "j < length degree"
  have "slot degree ` {..<length degree} = {..<length degree}"
    using slot_bound slot_inj by (intro endo_inj_surj) auto
  with \<open>j < length degree\<close> show ?thesis by (metis imageE lessThan_iff)
qed

lemma count_fold:
  "\<forall>d\<in>set ds. d < length b \<Longrightarrow>
   length (fold (\<lambda>d b. b[d := b ! d + 1]) ds b) = length b \<and>
   (\<forall>d<length b. fold (\<lambda>d b. b[d := b ! d + 1]) ds b ! d = b ! d + count_list ds d)"
proof (induction ds arbitrary: b)
  case (Cons x ds)
  have "length (b[x := b ! x + 1]) = length b" by simp
  with Cons.IH[of "b[x := b ! x + 1]"] Cons.prems show ?case
    by (auto simp: nth_list_update)
qed simp

lemma count_same: "count_list degree d = same degree d (length degree)"
proof -
  have "count_list degree d = length (filter (\<lambda>x. x = d) degree)"
    by (induction degree) auto
  then show ?thesis
    by (simp add: same_def length_filter_conv_card)
qed

lemma bin_starts_nth: "d < length bs \<Longrightarrow> bin_starts s bs ! d = s + sum_list (take d bs)"
proof (induction s bs arbitrary: d rule: bin_starts.induct)
  case (2 s cnt bs)
  then show ?case by (cases d) simp_all
qed simp

lemma bin_starts_length [simp]: "length (bin_starts s bs) = length bs"
  by (induction s bs rule: bin_starts.induct) simp_all

lemma fold_max_ge: "x \<in> set xs \<Longrightarrow> (x :: nat) \<le> fold max xs a"
  by (metis Max.set_eq_fold Max_ge List.finite_set list.set_intros(2))

lemma bins_below:
  assumes "\<forall>d\<in>set degree. d \<le> mx" "d \<le> mx"
  shows "bin_starts 0 (count_degrees degree mx) ! d = below degree d"
proof -
  have cnt: "length (count_degrees degree mx) = mx + 1"
      "\<And>e. e \<le> mx \<Longrightarrow> count_degrees degree mx ! e = same degree e (length degree)"
    using count_fold[of degree "replicate (mx + 1) 0"] assms(1)
    by (auto simp: count_degrees_def count_same less_Suc_eq_le simp del: replicate.simps)
  have "sum_list (take e (count_degrees degree mx)) = below degree e" if "e \<le> mx" for e
    using that
  proof (induction e)
    case 0
    show ?case by (simp add: below_def)
  next
    case (Suc e)
    then show ?case
      by (simp add: take_Suc_conv_app_nth cnt below_Suc)
  qed
  with assms(2) show ?thesis
    by (simp add: bin_starts_nth cnt)
qed

lemma place_fold:
  assumes deg: "length degree = n" "\<forall>w<n. degree ! w < length bin"
    and bin: "\<forall>d<length bin. bin ! d = below degree d" and m: "m \<le> n"
    and f: "fold (place degree) [0..<m] (replicate n 0, replicate n 0, bin) = (order, pos, bin_cur)"
  shows "length order = n \<and> length pos = n \<and> length bin_cur = length bin \<and>
     (\<forall>w<m. pos ! w = slot degree w \<and> order ! slot degree w = w) \<and>
     (\<forall>d<length bin. bin_cur ! d = below degree d + same degree d m)"
  using m f
proof (induction m arbitrary: order pos bin_cur)
  case 0
  with bin show ?case by (auto simp: same_def)
next
  case (Suc m)
  obtain order0 pos0 bin0
    where f0: "fold (place degree) [0..<m] (replicate n 0, replicate n 0, bin) = (order0, pos0, bin0)"
    by (metis prod_cases3)
  have m: "m < n" "degree ! m < length bin"
    using Suc.prems(1) deg(2) by auto
  have IH: "length order0 = n" "length pos0 = n" "length bin0 = length bin"
      "\<And>w. w < m \<Longrightarrow> pos0 ! w = slot degree w \<and> order0 ! slot degree w = w"
      "\<And>d. d < length bin \<Longrightarrow> bin0 ! d = below degree d + same degree d m"
    using Suc.IH[OF _ f0] Suc.prems(1) by auto
  have slot_m: "bin0 ! (degree ! m) = slot degree m"
    using IH(5)[OF m(2)] by (simp add: slot_def)
  have out: "order = order0[slot degree m := m]" "pos = pos0[m := slot degree m]"
      "bin_cur = bin0[degree ! m := slot degree m + 1]"
    using Suc.prems(2) f0 slot_m by (simp_all add: Let_def)
  have "pos ! w = slot degree w \<and> order ! slot degree w = w" if "w < Suc m" for w
  proof (cases "w = m")
    case True
    with m(1) slot_bound[of m degree] deg(1) show ?thesis by (simp add: out IH(1,2))
  next
    case False
    with that have "w < m" by simp
    then have "slot degree w \<noteq> slot degree m"
      using slot_inj[of degree] m(1) deg(1) by (auto simp: inj_on_def)
    with IH(4)[OF \<open>w < m\<close>] False show ?thesis by (simp add: out)
  qed
  moreover have "bin_cur ! d = below degree d + same degree d (Suc m)" if "d < length bin" for d
    using IH(5)[OF that] that slot_m IH(3) by (auto simp: out same_Suc nth_list_update slot_def)
  ultimately show ?case
    using IH(1-3) by (simp add: out)
qed

lemma peel_init_buckets:
  fixes nb :: "nat list list"
  defines "st \<equiv> peel_init nb" and "n \<equiv> length nb"
  shows "buckets_ok n 0 st" and "w < n \<Longrightarrow> pk_degree st ! w = length (nb ! w)"
proof -
  define degree mx bin where "degree = map length nb" and "mx = fold max degree 0"
    and "bin = bin_starts 0 (count_degrees degree mx)"
  obtain order pos bin_cur
    where f: "fold (place degree) [0..<n] (replicate n 0, replicate n 0, bin) = (order, pos, bin_cur)"
    by (metis prod_cases3)
  have st: "st = \<lparr>pk_degree = degree, pk_bin = bin, pk_order = order, pk_pos = pos, pk_shell = replicate n 0\<rparr>"
    using f by (simp add: st_def peel_init_def Let_def n_def degree_def mx_def bin_def)
  have le: "\<forall>d\<in>set degree. d \<le> mx"
    by (simp add: mx_def fold_max_ge)
  have bl: "length bin = mx + 1"
    using count_fold[of degree "replicate (mx + 1) 0"] le
    by (auto simp: bin_def count_degrees_def less_Suc_eq_le simp del: replicate.simps)
  have bin: "\<forall>d<length bin. bin ! d = below degree d"
    using bins_below[OF le] bl by (simp add: bin_def less_Suc_eq_le)
  have dl: "length degree = n" "\<forall>w<n. degree ! w < length bin"
    using le bl by (auto simp: degree_def n_def less_Suc_eq_le)
  have pl: "length order = n" "length pos = n" "\<And>w. w < n \<Longrightarrow> pos ! w = slot degree w \<and> order ! slot degree w = w"
    using place_fold[OF dl bin order.refl f] by auto
  have ord: "order ! j < n \<and> slot degree (order ! j) = j" if "j < n" for j
    using slot_onto[of j degree] that pl(3) dl(1) by metis
  have sorted: "degree ! (order ! j) \<le> degree ! (order ! j')" if "j \<le> j'" "j' < n" for j j'
    using slot_less[of "order ! j'" degree "order ! j"] ord[of j] ord[of j'] that dl(1)
    by (metis le_less_trans not_less)
  show "buckets_ok n 0 st"
    unfolding buckets_ok_def st
    using pl dl ord sorted bin slot_bound[of _ degree] by simp
  show "w < n \<Longrightarrow> pk_degree st ! w = length (nb ! w)"
    by (simp add: st degree_def n_def)
qed

lemma peel_init_inv:
  assumes nb: "neighbours_ok nb"
  shows "peel_inv nb 0 0 (peel_init nb)"
proof -
  define n where "n = length nb"
  have U: "waiting n 0 st = {..<n}" for st
    by (auto simp: waiting_def)
  have "card (set (nb ! w) \<inter> {..<n}) = length (nb ! w)" if "w < n" for w
  proof -
    have "set (nb ! w) \<inter> {..<n} = set (nb ! w)" "distinct (nb ! w)"
      using nb that by (auto simp: neighbours_ok_def n_def)
    then show ?thesis by (simp add: distinct_card)
  qed
  then show ?thesis
    unfolding peel_inv_def Let_def n_def[symmetric] U
    using peel_init_buckets(1)[of nb, folded n_def] peel_init_buckets(2)[of _ nb, folded n_def] by (auto simp: core_set_def n_def)
qed

lemma peel_loop_inv:
  assumes "neighbours_ok nb" "i \<le> length nb"
  shows "\<exists>c. peel_inv nb i c (fold (peel_step nb) [0..<i] (peel_init nb))"
  using assms(2)
proof (induction i)
  case 0
  with peel_init_inv[OF assms(1)] show ?case by auto
next
  case (Suc i)
  then obtain c where "peel_inv nb i c (fold (peel_step nb) [0..<i] (peel_init nb))" by auto
  from peel_step_inv[OF assms(1) this] Suc.prems show ?case by auto
qed

text \<open>The shell of a node is its coreness: the node lies in the k-core exactly for the k up to it.\<close>

lemma peel_coreness:
  assumes nb: "neighbours_ok nb" and v: "v < length nb"
  shows "k \<le> peel nb ! v \<longleftrightarrow> in_core nb k v"
proof -
  define n st where "n = length nb" and "st = fold (peel_step nb) [0..<n] (peel_init nb)"
  obtain c where inv: "peel_inv nb n c st"
    using peel_loop_inv[OF nb, of n] by (auto simp: n_def st_def)
  have "waiting n n st = {}"
    using inv by (auto simp: peel_inv_def Let_def buckets_ok_def waiting_def n_def)
  with inv have P: "\<And>w. w < n \<Longrightarrow> pk_degree st ! w \<le> c \<and> pk_shell st ! w = pk_degree st ! w"
    and L: "\<And>k. k \<le> c \<Longrightarrow> core_set nb k {w. w < n \<and> k \<le> pk_degree st ! w}"
    and H: "\<And>S k w. core_set nb k S \<Longrightarrow> w \<in> S \<Longrightarrow> k \<le> pk_degree st ! w"
    unfolding peel_inv_def Let_def n_def[symmetric] by auto
  have shell: "peel nb ! v = pk_degree st ! v"
    using P v by (simp add: peel_def st_def n_def)
  show ?thesis
  proof
    assume "k \<le> peel nb ! v"
    with L[of k] P[of v] v shell show "in_core nb k v"
      unfolding in_core_def n_def by fastforce
  next
    assume "in_core nb k v"
    with H shell show "k \<le> peel nb ! v" by (auto simp: in_core_def)
  qed
qed

lemma peel_length [simp]: "neighbours_ok nb \<Longrightarrow> length (peel nb) = length nb"
  using peel_loop_inv[of nb "length nb"]
  by (auto simp: peel_def peel_inv_def Let_def buckets_ok_def)

subsection \<open>The graph and the propagation of package shells\<close>

type_synonym edge_row = "node_id \<times> node_id \<times> string"

record scan_state =
  sc_neighbours :: "nat list list"
  sc_file_to_pkg :: "node_id \<rightharpoonup> node_id"
  sc_container :: "(node_id \<times> node_id) list"

definition kind_of :: "(node_id \<times> string) list \<Rightarrow> node_id \<Rightarrow> string" where
  "kind_of pairs v = (case map_of (rev pairs) v of Some k \<Rightarrow> k | None \<Rightarrow> '''')"

definition dense_index :: "node_id list \<Rightarrow> node_id \<rightharpoonup> nat" where
  "dense_index ids = map_of (rev (zip ids [0..<length ids]))"

definition link_nodes :: "nat \<Rightarrow> nat \<Rightarrow> nat list list \<Rightarrow> nat list list" where
  "link_nodes si di nb =
     (if si \<noteq> di
      then (let nb' = nb[si := List.insert di (nb ! si)] in nb'[di := List.insert si (nb' ! di)])
      else nb)"

definition scan_edge :: "(node_id \<Rightarrow> string) \<Rightarrow> (node_id \<rightharpoonup> nat) \<Rightarrow> edge_row \<Rightarrow> scan_state \<Rightarrow> scan_state" where
  "scan_edge kinds idx = (\<lambda>(src, dst, kind) st.
     let st1 = (case (idx src, idx dst) of
                  (Some si, Some di) \<Rightarrow> st\<lparr>sc_neighbours := link_nodes si di (sc_neighbours st)\<rparr>
                | _ \<Rightarrow> st)
     in if kind = ''defines/binding''
        then if kinds src = ''file'' \<and> kinds dst = ''go-pkg''
             then st1\<lparr>sc_file_to_pkg := (sc_file_to_pkg st1)(src \<mapsto> dst)\<rparr>
             else if kinds src = ''file'' \<and>
                     kinds dst \<in> {''function'', ''var'', ''class'', ''interface'', ''type''}
             then st1\<lparr>sc_container := AList.update dst src (sc_container st1)\<rparr>
             else if kinds src = ''class'' \<and> kinds dst = ''method''
             then st1\<lparr>sc_container := AList.update dst src (sc_container st1)\<rparr>
             else st1
        else st1)"

definition scan_edges :: "(node_id \<times> string) list \<Rightarrow> edge_row list \<Rightarrow> scan_state" where
  "scan_edges pairs edges =
     fold (scan_edge (kind_of pairs) (dense_index (map fst pairs))) edges
       \<lparr>sc_neighbours = replicate (length pairs) [], sc_file_to_pkg = Map.empty, sc_container = []\<rparr>"

definition package_of :: "(node_id \<times> string) list \<Rightarrow> scan_state \<Rightarrow> node_id \<Rightarrow> node_id \<Rightarrow> node_id option" where
  "package_of pairs st symb container =
     (if kind_of pairs symb = ''method''
      then (case map_of (filter (\<lambda>(s, _). map_of (rev pairs) s = Some ''class'') (sc_container st)) container of
              None \<Rightarrow> None
            | Some file \<Rightarrow> sc_file_to_pkg st file)
      else sc_file_to_pkg st container)"

definition or_zero :: "nat option \<Rightarrow> nat" where
  "or_zero x = (case x of Some y \<Rightarrow> y | None \<Rightarrow> 0)"

definition propagate :: "(node_id \<times> string) list \<Rightarrow> scan_state \<Rightarrow> node_id \<times> node_id
    \<Rightarrow> (node_id \<rightharpoonup> nat) \<Rightarrow> (node_id \<rightharpoonup> nat)" where
  "propagate pairs st = (\<lambda>(symb, container) shells.
     case package_of pairs st symb container of
       None \<Rightarrow> shells
     | Some pkg \<Rightarrow> shells(symb \<mapsto> max (or_zero (shells symb)) (or_zero (shells pkg))))"

definition raw_shells :: "(node_id \<times> string) list \<Rightarrow> scan_state \<Rightarrow> (node_id \<rightharpoonup> nat)" where
  "raw_shells pairs st = map_of (rev (zip (map fst pairs) (peel (sc_neighbours st))))"

definition compute_kcore :: "(node_id \<times> string) list \<Rightarrow> edge_row list \<Rightarrow> (node_id \<rightharpoonup> nat)" where
  "compute_kcore pairs edges =
     (if pairs = [] then Map.empty
      else let st = scan_edges pairs edges
           in fold (propagate pairs st) (sc_container st) (raw_shells pairs st))"

subsection \<open>Facts about the scan\<close>

definition linked :: "edge_row list \<Rightarrow> node_id \<Rightarrow> node_id \<Rightarrow> bool" where
  "linked edges a b \<longleftrightarrow> a \<noteq> b \<and> (\<exists>kind. (a, b, kind) \<in> set edges \<or> (b, a, kind) \<in> set edges)"

definition node_in_core :: "node_id list \<Rightarrow> edge_row list \<Rightarrow> nat \<Rightarrow> node_id \<Rightarrow> bool" where
  "node_in_core ids edges k v \<longleftrightarrow>
     (\<exists>S \<subseteq> set ids. v \<in> S \<and> (\<forall>w\<in>S. k \<le> card {u \<in> S. linked edges w u}))"

lemma dense_index_Some:
  assumes "distinct ids"
  shows "dense_index ids v = Some i \<longleftrightarrow> i < length ids \<and> ids ! i = v"
proof -
  have d: "distinct (map fst (rev (zip ids [0..<length ids])))"
    using assms by (simp flip: rev_map)
  show ?thesis
    unfolding dense_index_def map_of_eq_Some_iff[OF d] by (auto simp: in_set_zip)
qed

lemma link_nodes_props:
  assumes "neighbours_ok nb" "si < length nb" "di < length nb"
  shows "neighbours_ok (link_nodes si di nb) \<and> length (link_nodes si di nb) = length nb \<and>
    (\<forall>i<length nb. set (link_nodes si di nb ! i) =
       set (nb ! i) \<union> (if si \<noteq> di then (if i = si then {di} else {}) \<union> (if i = di then {si} else {}) else {}))"
proof (cases "si = di")
  case True
  with assms show ?thesis by (simp add: link_nodes_def)
next
  case False
  have nth: "link_nodes si di nb ! i =
      (if i = si then List.insert di (nb ! i) else if i = di then List.insert si (nb ! i) else nb ! i)"
    if "i < length nb" for i
    using that assms(2,3) False by (simp add: link_nodes_def Let_def nth_list_update)
  have len: "length (link_nodes si di nb) = length nb"
    by (simp add: link_nodes_def Let_def)
  have sets: "set (link_nodes si di nb ! i) =
      set (nb ! i) \<union> ((if i = si then {di} else {}) \<union> (if i = di then {si} else {}))" if "i < length nb" for i
    using nth[OF that] False by auto
  have old: "distinct (nb ! i)" "i \<notin> set (nb ! i)" "\<And>u. u \<in> set (nb ! i) \<Longrightarrow> u < length nb \<and> i \<in> set (nb ! u)"
    if "i < length nb" for i
    using assms(1) that unfolding neighbours_ok_def by blast+
  have "distinct (link_nodes si di nb ! i)" if "i < length nb" for i
    using old(1)[OF that] by (auto simp: nth[OF that] intro: distinct_insert)
  moreover have "i \<notin> set (link_nodes si di nb ! i)" if "i < length nb" for i
    using old(2)[OF that] False by (simp add: sets[OF that])
  moreover have "u < length nb \<and> i \<in> set (link_nodes si di nb ! u)"
    if i: "i < length nb" and u: "u \<in> set (link_nodes si di nb ! i)" for i u
  proof (cases "u \<in> set (nb ! i)")
    case True
    then have "u < length nb" "i \<in> set (nb ! u)"
      using old(3)[OF i] by blast+
    with sets[of u] show ?thesis by simp
  next
    case False
    with u sets[OF i] have "i = si \<and> u = di \<or> i = di \<and> u = si"
      by (simp split: if_splits)
    then show ?thesis
      using assms(2,3) by (elim disjE conjE) (simp_all add: sets)
  qed
  ultimately have "neighbours_ok (link_nodes si di nb)"
    unfolding neighbours_ok_def len by blast
  with len sets False show ?thesis by simp
qed

definition scan_ok :: "node_id list \<Rightarrow> edge_row list \<Rightarrow> scan_state \<Rightarrow> bool" where
  "scan_ok ids edges st \<longleftrightarrow>
     neighbours_ok (sc_neighbours st) \<and> length (sc_neighbours st) = length ids \<and>
     (\<forall>i<length ids. \<forall>j<length ids. j \<in> set (sc_neighbours st ! i) \<longleftrightarrow> linked edges (ids ! i) (ids ! j))"

lemma scan_edge_neighbours:
  "sc_neighbours (scan_edge kinds idx (src, dst, kind) st) =
     (case (idx src, idx dst) of (Some si, Some di) \<Rightarrow> link_nodes si di (sc_neighbours st)
      | _ \<Rightarrow> sc_neighbours st)"
  by (simp add: scan_edge_def Let_def split: option.splits)

lemma linked_snoc:
  "linked (es @ [(src, dst, kind)]) a b \<longleftrightarrow>
     linked es a b \<or> a \<noteq> b \<and> ({a, b} = {src, dst})"
  by (auto simp: linked_def doubleton_eq_iff)

lemma scan_edge_ok:
  assumes ids: "distinct ids" and st: "scan_ok ids es st"
  shows "scan_ok ids (es @ [(src, dst, kind)]) (scan_edge kinds (dense_index ids) (src, dst, kind) st)"
proof -
  have nb: "neighbours_ok (sc_neighbours st)" "length (sc_neighbours st) = length ids"
    and adj: "\<And>i j. i < length ids \<Longrightarrow> j < length ids \<Longrightarrow>
       j \<in> set (sc_neighbours st ! i) \<longleftrightarrow> linked es (ids ! i) (ids ! j)"
    using st unfolding scan_ok_def by blast+
  have eq: "ids ! i = ids ! j \<longleftrightarrow> i = j" if "i < length ids" "j < length ids" for i j
    using ids that by (simp add: nth_eq_iff_index_eq)
  show ?thesis
  proof (cases "\<exists>si di. dense_index ids src = Some si \<and> dense_index ids dst = Some di")
    case True
    then obtain si di where ix: "dense_index ids src = Some si" "dense_index ids dst = Some di" by auto
    then have si: "si < length ids" "ids ! si = src" "di < length ids" "ids ! di = dst"
      by (simp_all add: dense_index_Some ids)
    have link: "neighbours_ok (link_nodes si di (sc_neighbours st))"
        "length (link_nodes si di (sc_neighbours st)) = length ids"
        "\<And>i. i < length ids \<Longrightarrow> set (link_nodes si di (sc_neighbours st) ! i) =
           set (sc_neighbours st ! i) \<union> (if si \<noteq> di then (if i = si then {di} else {}) \<union> (if i = di then {si} else {}) else {})"
      using link_nodes_props[OF nb(1), of si di] si nb(2) by auto
    have "j \<in> set (link_nodes si di (sc_neighbours st) ! i) \<longleftrightarrow>
        linked (es @ [(src, dst, kind)]) (ids ! i) (ids ! j)" if "i < length ids" "j < length ids" for i j
      using that si adj[OF that] eq[OF that] eq[OF that(1) si(1)] eq[OF that(1) si(3)] eq[OF that(2) si(1)] eq[OF that(2) si(3)]
      unfolding link(3)[OF that(1)] linked_snoc doubleton_eq_iff
      by auto
    with link(1,2) show ?thesis
      by (simp add: scan_ok_def scan_edge_neighbours ix)
  next
    case False
    then have "src \<notin> set ids \<or> dst \<notin> set ids"
      by (auto simp: in_set_conv_nth dense_index_Some ids)
    then have "linked (es @ [(src, dst, kind)]) (ids ! i) (ids ! j) \<longleftrightarrow> linked es (ids ! i) (ids ! j)"
      if "i < length ids" "j < length ids" for i j
      using that unfolding linked_snoc doubleton_eq_iff by (metis nth_mem)
    moreover have "sc_neighbours (scan_edge kinds (dense_index ids) (src, dst, kind) st) = sc_neighbours st"
      using False by (auto simp: scan_edge_neighbours split: option.splits)
    ultimately show ?thesis
      using st by (simp add: scan_ok_def)
  qed
qed

lemma scan_edges_ok:
  assumes "distinct (map fst pairs)"
  shows "scan_ok (map fst pairs) edges (scan_edges pairs edges)"
proof -
  have "scan_ok (map fst pairs) es
    (fold (scan_edge (kind_of pairs) (dense_index (map fst pairs))) es
       \<lparr>sc_neighbours = replicate (length pairs) [], sc_file_to_pkg = Map.empty, sc_container = []\<rparr>)" for es
  proof (induction es rule: rev_induct)
    case Nil
    show ?case by (simp add: scan_ok_def neighbours_ok_def linked_def)
  next
    case (snoc e es)
    with scan_edge_ok[OF assms] show ?case
      by (cases e) simp
  qed
  then show ?thesis by (simp add: scan_edges_def)
qed


subsection \<open>Shells of nodes\<close>

lemma core_transfer:
  assumes ids: "distinct ids" and st: "scan_ok ids edges st" and i: "i < length ids"
  shows "in_core (sc_neighbours st) k i \<longleftrightarrow> node_in_core ids edges k (ids ! i)"
proof -
  let ?nb = "sc_neighbours st"
  have nb: "length ?nb = length ids" "neighbours_ok ?nb"
    and adj: "\<And>i j. i < length ids \<Longrightarrow> j < length ids \<Longrightarrow> j \<in> set (?nb ! i) \<longleftrightarrow> linked edges (ids ! i) (ids ! j)"
    using st unfolding scan_ok_def by blast+
  have inj: "inj_on (nth ids) {..<length ids}"
    using ids by (simp add: inj_on_def nth_eq_iff_index_eq)
  have card_eq: "card (set (?nb ! w) \<inter> S) = card {u \<in> nth ids ` S. linked edges (ids ! w) u}"
    if "S \<subseteq> {..<length ids}" "w < length ids" for S w
  proof -
    have "{u \<in> nth ids ` S. linked edges (ids ! w) u} = nth ids ` (set (?nb ! w) \<inter> S)"
      using adj[OF that(2)] that(1) by blast
    moreover have "inj_on (nth ids) (set (?nb ! w) \<inter> S)"
      using inj that(1) by (meson Int_lower2 inj_on_subset)
    ultimately show ?thesis by (simp add: card_image)
  qed
  show ?thesis
  proof
    assume "in_core ?nb k i"
    then obtain S where S: "S \<subseteq> {..<length ids}" "i \<in> S" "\<forall>w\<in>S. k \<le> card (set (?nb ! w) \<inter> S)"
      by (auto simp: in_core_def core_set_def nb)
    then have "k \<le> card {u \<in> nth ids ` S. linked edges (ids ! w) u}" if "w \<in> S" for w
      using card_eq[OF S(1), of w] that by force
    with S show "node_in_core ids edges k (ids ! i)"
      unfolding node_in_core_def by (intro exI[of _ "nth ids ` S"]) auto
  next
    assume "node_in_core ids edges k (ids ! i)"
    then obtain T where T: "T \<subseteq> set ids" "ids ! i \<in> T" "\<forall>w\<in>T. k \<le> card {u \<in> T. linked edges w u}"
      by (auto simp: node_in_core_def)
    let ?S = "{j. j < length ids \<and> ids ! j \<in> T}"
    have "nth ids ` ?S = T"
      using T(1) by (force simp: image_iff in_set_conv_nth)
    then have "k \<le> card (set (?nb ! w) \<inter> ?S)" if "w \<in> ?S" for w
      using card_eq[of ?S w, OF _ _] T(3) that by (simp add: subset_iff)
    then have "core_set ?nb k ?S"
      unfolding core_set_def nb(1) by auto
    with T(2) i show "in_core ?nb k i"
      unfolding in_core_def by blast
  qed
qed

lemma raw_shells_nth:
  assumes "distinct (map fst pairs)" "i < length pairs"
  shows "raw_shells pairs (scan_edges pairs edges) (fst (pairs ! i)) =
    Some (peel (sc_neighbours (scan_edges pairs edges)) ! i)"
proof -
  have "scan_ok (map fst pairs) edges (scan_edges pairs edges)"
    by (rule scan_edges_ok[OF assms(1)])
  then have len: "length (peel (sc_neighbours (scan_edges pairs edges))) = length pairs"
    by (simp add: scan_ok_def)
  define p where "p = peel (sc_neighbours (scan_edges pairs edges))"
  have d: "distinct (map fst (rev (zip (map fst pairs) p)))"
    using assms(1) len by (simp add: p_def flip: rev_map)
  have "(fst (pairs ! i), p ! i) \<in> set (zip (map fst pairs) p)"
    unfolding in_set_zip using assms(2) len by (intro exI[of _ i]) (simp add: p_def)
  then show ?thesis
    unfolding raw_shells_def p_def[symmetric] map_of_eq_Some_iff[OF d] by simp
qed

lemma raw_shell_coreness:
  assumes "distinct (map fst pairs)" "v \<in> set (map fst pairs)"
  shows "\<exists>s. raw_shells pairs (scan_edges pairs edges) v = Some s \<and>
     (\<forall>k. k \<le> s \<longleftrightarrow> node_in_core (map fst pairs) edges k v)"
proof -
  obtain i where i: "i < length pairs" "v = fst (pairs ! i)"
    using assms(2) unfolding in_set_conv_nth by auto
  have ok: "scan_ok (map fst pairs) edges (scan_edges pairs edges)"
    by (rule scan_edges_ok[OF assms(1)])
  then have nb: "neighbours_ok (sc_neighbours (scan_edges pairs edges))"
      "i < length (sc_neighbours (scan_edges pairs edges))"
    using i(1) by (simp_all add: scan_ok_def)
  have "k \<le> peel (sc_neighbours (scan_edges pairs edges)) ! i \<longleftrightarrow> node_in_core (map fst pairs) edges k v" for k
    using peel_coreness[OF nb] core_transfer[OF assms(1) ok, of i k] i by simp
  with raw_shells_nth[OF assms(1) i(1)] i(2) show ?thesis by auto
qed

lemma container_keys:
  assumes "s \<in> fst ` set (sc_container (scan_edges pairs edges))"
  shows "kind_of pairs s \<in> {''function'', ''var'', ''class'', ''interface'', ''type'', ''method''}"
proof -
  let ?K = "{''function'', ''var'', ''class'', ''interface'', ''type'', ''method''}"
  have "fst ` set (sc_container (fold (scan_edge (kind_of pairs) idx) es st)) \<subseteq> {s. kind_of pairs s \<in> ?K}"
    if "fst ` set (sc_container st) \<subseteq> {s. kind_of pairs s \<in> ?K}" for es st idx
    using that
  proof (induction es arbitrary: st)
    case (Cons e es)
    have "fst ` set (sc_container (scan_edge (kind_of pairs) idx e st)) \<subseteq> {s. kind_of pairs s \<in> ?K}"
      using Cons.prems
      by (cases e) (auto simp: scan_edge_def Let_def dom_update split: option.splits)
    with Cons.IH show ?case by simp
  qed simp
  then have "fst ` set (sc_container (scan_edges pairs edges)) \<subseteq> {s. kind_of pairs s \<in> ?K}"
    by (simp add: scan_edges_def)
  with assms show ?thesis by blast
qed

lemma container_distinct: "distinct (map fst (sc_container (scan_edges pairs edges)))"
proof -
  have "distinct (map fst (sc_container (fold (scan_edge kinds idx) es st)))"
    if "distinct (map fst (sc_container st))" for kinds es st idx
    using that
  proof (induction es arbitrary: st)
    case (Cons e es)
    have "distinct (map fst (sc_container (scan_edge kinds idx e st)))"
      using Cons.prems
      by (cases e) (simp add: scan_edge_def Let_def distinct_update split: option.splits)
    with Cons.IH show ?case by simp
  qed simp
  then show ?thesis by (simp add: scan_edges_def)
qed

text \<open>Propagation never touches a package and every symbol is raised once, so the order in which the
  hash map is traversed does not matter.\<close>

lemma propagate_other: "v \<noteq> s \<Longrightarrow> propagate pairs st (s, c) shells v = shells v"
  by (simp add: propagate_def split: option.splits)

lemma propagate_fold_other:
  "v \<notin> fst ` set es \<Longrightarrow> fold (propagate pairs st) es shells v = shells v"
proof (induction es arbitrary: shells)
  case (Cons e es)
  then show ?case by (cases e) (simp add: propagate_other)
qed simp

lemma file_to_pkg_kind:
  "sc_file_to_pkg (scan_edges pairs edges) f = Some p \<Longrightarrow> kind_of pairs p = ''go-pkg''"
proof -
  have "sc_file_to_pkg (fold (scan_edge (kind_of pairs) idx) es st) f = Some p \<Longrightarrow>
      (\<And>f p. sc_file_to_pkg st f = Some p \<Longrightarrow> kind_of pairs p = ''go-pkg'') \<Longrightarrow> kind_of pairs p = ''go-pkg''"
    for es st idx f p
  proof (induction es arbitrary: st)
    case (Cons e es)
    have "kind_of pairs p = ''go-pkg''"
      if "sc_file_to_pkg (scan_edge (kind_of pairs) idx e st) f = Some p" for f p
      using that Cons.prems(2)
      by (cases e) (auto simp: scan_edge_def Let_def split: option.splits if_splits)
    with Cons show ?case by auto
  qed auto
  from this[of "dense_index (map fst pairs)" edges "\<lparr>sc_neighbours = replicate (length pairs) [], sc_file_to_pkg = Map.empty, sc_container = []\<rparr>" f p]
  show "sc_file_to_pkg (scan_edges pairs edges) f = Some p \<Longrightarrow> kind_of pairs p = ''go-pkg''"
    by (simp add: scan_edges_def)
qed

lemma package_of_kind:
  "package_of pairs (scan_edges pairs edges) s c = Some p \<Longrightarrow> kind_of pairs p = ''go-pkg''"
  by (auto simp: package_of_def file_to_pkg_kind split: if_splits option.splits)

lemma kind_of_known: "kind_of pairs v \<noteq> '''' \<Longrightarrow> v \<in> set (map fst pairs)"
  by (auto simp: kind_of_def dest!: map_of_SomeD split: option.splits intro: rev_image_eqI)

lemma propagate_fold:
  assumes "distinct (map fst es)" "(s, c) \<in> set es"
    "\<And>s' c' p. (s', c') \<in> set es \<Longrightarrow> package_of pairs st s' c' = Some p \<Longrightarrow> p \<notin> fst ` set es"
  shows "fold (propagate pairs st) es shells s = propagate pairs st (s, c) shells s"
  using assms
proof (induction es arbitrary: shells)
  case (Cons e es)
  obtain s0 c0 where e: "e = (s0, c0)" by (cases e)
  have IH: "s \<in> fst ` set es \<Longrightarrow> fold (propagate pairs st) es sh s = propagate pairs st (s, c) sh s" for sh
    using Cons.IH[of sh] Cons.prems e by (auto dest: eq_key_imp_eq_value)
  show ?case
  proof (cases "s = s0")
    case True
    with Cons.prems e have "c = c0" "s \<notin> fst ` set es" by force+
    with True e show ?thesis by (simp add: propagate_fold_other)
  next
    case False
    then have mem: "(s, c) \<in> set es" using Cons.prems(2) e by simp
    then have "s \<in> fst ` set es" by force
    moreover have "propagate pairs st (s, c) (propagate pairs st e shells) s = propagate pairs st (s, c) shells s"
    proof (cases "package_of pairs st s c")
      case (Some p)
      with Cons.prems(3)[of s c p] mem e have "p \<noteq> s0" by auto
      with Some False show ?thesis by (simp add: propagate_def e split: option.splits)
    next
      case None
      with False show ?thesis by (simp add: propagate_def e split: option.splits)
    qed
    ultimately show ?thesis using IH by simp
  qed
qed simp

definition inherits :: "(node_id \<times> string) list \<Rightarrow> edge_row list \<Rightarrow> node_id \<Rightarrow> node_id \<Rightarrow> bool" where
  "inherits pairs edges s pkg \<longleftrightarrow>
     (\<exists>c. map_of (sc_container (scan_edges pairs edges)) s = Some c \<and>
          package_of pairs (scan_edges pairs edges) s c = Some pkg)"

lemma kcore_order_free:
  assumes es: "set es = set (sc_container (scan_edges pairs edges))" "distinct (map fst es)"
  shows "fold (propagate pairs (scan_edges pairs edges)) es shells v =
    (case map_of (sc_container (scan_edges pairs edges)) v of
       None \<Rightarrow> shells v
     | Some c \<Rightarrow> propagate pairs (scan_edges pairs edges) (v, c) shells v)"
proof (cases "map_of (sc_container (scan_edges pairs edges)) v")
  case None
  then have "v \<notin> fst ` set es"
    using es(1) by (simp add: map_of_eq_None_iff)
  with None show ?thesis by (simp add: propagate_fold_other)
next
  case (Some c)
  then have "(v, c) \<in> set es"
    using es(1) by (simp add: map_of_SomeD)
  moreover have "p \<notin> fst ` set es" if "package_of pairs (scan_edges pairs edges) s c = Some p" for s c p
    using package_of_kind[OF that] container_keys[of p pairs edges] es(1) by auto
  ultimately show ?thesis
    using propagate_fold[OF es(2)] Some by auto
qed

text \<open>C15: For distinct ids, the shell that \<open>compute_kcore\<close> returns for a node is the greatest k
  such that the node, or the package a symbol is contained in (through its file, a method through
  its class), lies in the k-core of the graph: some set of nodes that holds it and in which every
  node has k neighbours. A self-loop, an edge to an unknown node or a repeated edge adds nothing.\<close>

theorem kcore_shells:
  assumes "distinct (map fst pairs)" "v \<in> set (map fst pairs)"
  shows "\<exists>s. compute_kcore pairs edges v = Some s \<and>
    (\<forall>k. k \<le> s \<longleftrightarrow> node_in_core (map fst pairs) edges k v \<or>
        (\<exists>pkg. inherits pairs edges v pkg \<and> node_in_core (map fst pairs) edges k pkg))"
proof -
  let ?st = "scan_edges pairs edges"
  obtain s where s: "raw_shells pairs ?st v = Some s" "\<And>k. k \<le> s \<longleftrightarrow> node_in_core (map fst pairs) edges k v"
    using raw_shell_coreness[OF assms] by auto
  have out: "compute_kcore pairs edges v =
    (case map_of (sc_container ?st) v of
       None \<Rightarrow> raw_shells pairs ?st v
     | Some c \<Rightarrow> propagate pairs ?st (v, c) (raw_shells pairs ?st) v)"
    using assms(2) kcore_order_free[OF refl container_distinct] by (auto simp: compute_kcore_def Let_def)
  show ?thesis
  proof (cases "\<exists>pkg. inherits pairs edges v pkg")
    case False
    then have "compute_kcore pairs edges v = Some s"
      using out s(1) by (auto simp: inherits_def propagate_def split: option.splits)
    with s(2) False show ?thesis by auto
  next
    case True
    then obtain c pkg where pkg: "map_of (sc_container ?st) v = Some c" "package_of pairs ?st v c = Some pkg"
      by (auto simp: inherits_def)
    have one: "inherits pairs edges v p \<longleftrightarrow> p = pkg" for p
      using pkg by (auto simp: inherits_def)
    have "pkg \<in> set (map fst pairs)"
      using package_of_kind[OF pkg(2)] by (intro kind_of_known) simp
    then obtain t where t: "raw_shells pairs ?st pkg = Some t" "\<And>k. k \<le> t \<longleftrightarrow> node_in_core (map fst pairs) edges k pkg"
      using raw_shell_coreness[OF assms(1), of pkg edges] by auto
    have "compute_kcore pairs edges v = Some (max s t)"
      using out pkg s(1) t(1) by (simp add: propagate_def or_zero_def)
    with s(2) t(2) one show ?thesis by (auto simp: le_max_iff_disj)
  qed
qed

theorem kcore_shells_witness:
  "\<exists>s. compute_kcore [(1, ''file''), (2, ''go-pkg''), (3, ''function'')]
      [(1, 2, ''defines/binding''), (1, 3, ''defines/binding''), (2, 3, ''depends'')] 3 = Some s \<and>
    (\<forall>k. k \<le> s \<longleftrightarrow> node_in_core [1, 2, 3]
       [(1, 2, ''defines/binding''), (1, 3, ''defines/binding''), (2, 3, ''depends'')] k 3 \<or>
        (\<exists>pkg. inherits [(1, ''file''), (2, ''go-pkg''), (3, ''function'')]
            [(1, 2, ''defines/binding''), (1, 3, ''defines/binding''), (2, 3, ''depends'')] 3 pkg \<and>
          node_in_core [1, 2, 3]
            [(1, 2, ''defines/binding''), (1, 3, ''defines/binding''), (2, 3, ''depends'')] k pkg))"
  using kcore_shells[of "[(1, ''file''), (2, ''go-pkg''), (3, ''function'')]" 3
      "[(1, 2, ''defines/binding''), (1, 3, ''defines/binding''), (2, 3, ''depends'')]"]
  by simp

end
