(* ===== verification/Retrieval_Graph.thy ===== *)
theory Retrieval_Graph
  imports Graph_Core "HOL-Library.Product_Lexorder"
begin

section \<open>Traversals under access control\<close>

text \<open>
  \<open>crates/travsr-retrieval\<close>: the edge filters of \<open>rbac.rs\<close>, the bounded breadth-first search of
  \<open>lib.rs\<close>, the weighted subgraph of \<open>ppr.rs\<close> and the execution path of \<open>pcst.rs\<close>.

  A hash map that is only looked up and counted is an association list with distinct keys, a hash
  set is a set. Costs are exact rationals in place of \<open>f32\<close>; no theorem depends on their rounding.
  \<open>petgraph\<close> is the record \<open>petgraph\<close> of the two algorithms used: whatever they answer, the theorems
  on access hold. The loops terminate because an id is queued at most once: the measure is the
  length of the queue plus the number of ids not yet visited.
\<close>

subsection \<open>Filters\<close>

record edge_filter =
  ef_allow :: "node_id \<Rightarrow> node_id \<Rightarrow> string option \<Rightarrow> bool"
  ef_needs_corpus :: bool

definition open_filter :: edge_filter where
  "open_filter = \<lparr>ef_allow = (\<lambda>src dst c. True), ef_needs_corpus = False\<rparr>"

definition rbac_filter :: "string set \<Rightarrow> edge_filter" where
  "rbac_filter allowed =
     \<lparr>ef_allow = (\<lambda>src dst c. case c of Some x \<Rightarrow> x \<in> allowed | None \<Rightarrow> False),
      ef_needs_corpus = True\<rparr>"

subsection \<open>Bounded breadth-first search\<close>

fun discover :: "nat \<Rightarrow> node_id \<Rightarrow> node_id set \<times> (node_id \<times> nat) list
    \<Rightarrow> node_id set \<times> (node_id \<times> nat) list" where
  "discover d i (vis, q) = (if i \<in> vis then (vis, q) else (insert i vis, q @ [(i, d)]))"

definition bfs_expand :: "'e graph_db \<Rightarrow> nat \<Rightarrow> node_id \<Rightarrow> nat
    \<Rightarrow> node_id set \<times> (node_id \<times> nat) list
    \<Rightarrow> ('e, node_id set \<times> (node_id \<times> nat) list) rust_result" where
  "bfs_expand db max_depth cur depth vq =
     (if depth < max_depth
      then (case db_edges_from db cur of
              Inl e \<Rightarrow> Inl e
            | Inr es \<Rightarrow> Inr (fold (discover (depth + 1)) (map ge_dst es) vq))
      else Inr vq)"

definition queue_work :: "node_id set \<Rightarrow> (node_id \<times> nat) list \<Rightarrow> nat" where
  "queue_work vis q = length q + card (- vis)"

lemma queue_work_insert: "i \<notin> vis \<Longrightarrow> queue_work (insert i vis) (q @ [(i, d)]) = queue_work vis q"
proof -
  assume "i \<notin> vis"
  then have "card (- vis) = Suc (card (- insert i vis))"
    by (metis ComplI Compl_insert card_Suc_Diff1 finite)
  then show ?thesis
    by (simp add: queue_work_def)
qed

lemma queue_work_pop [simp]: "queue_work vis (x # q) = Suc (queue_work vis q)"
  by (simp add: queue_work_def)

lemma discover_work: "discover d i (vis, q) = (vis', q') \<Longrightarrow> queue_work vis' q' = queue_work vis q"
  by (auto simp: queue_work_insert split: if_splits)

lemma fold_discover_work:
  "fold (discover d) is (vis, q) = (vis', q') \<Longrightarrow> queue_work vis' q' = queue_work vis q"
proof (induction "is" arbitrary: vis q)
  case (Cons i "is")
  obtain v1 q1 where "discover d i (vis, q) = (v1, q1)"
    by fastforce
  with Cons discover_work[OF this] show ?case
    by (simp del: discover.simps)
qed simp

lemma bfs_expand_work:
  "bfs_expand db m c d (vis, q) = Inr (vis', q') \<Longrightarrow> queue_work vis' q' = queue_work vis q"
  by (auto simp: bfs_expand_def dest: fold_discover_work split: if_splits sum.splits)

function bfs_loop :: "'e graph_db \<Rightarrow> nat \<Rightarrow> nat \<Rightarrow> node_id set \<Rightarrow> (node_id \<times> nat) list \<Rightarrow> gnode list
    \<Rightarrow> nat \<Rightarrow> ('e, gnode list) rust_result" where
  "bfs_loop db max_depth budget vis [] res used = Inr res"
| "bfs_loop db max_depth budget vis ((cur, depth) # q) res used =
     (if max_depth < depth then Inr res
      else case db_get_node db cur of
        Inl e \<Rightarrow> Inl e
      | Inr found \<Rightarrow>
          (let cost = (case found of Some n \<Rightarrow> token_cost n | None \<Rightarrow> 0);
               res' = (case found of Some n \<Rightarrow> res @ [n] | None \<Rightarrow> res)
           in if found \<noteq> None \<and> budget < used + cost then Inr res
              else case bfs_expand db max_depth cur depth (vis, q) of
                Inl e \<Rightarrow> Inl e
              | Inr (vis', q') \<Rightarrow> bfs_loop db max_depth budget vis' q' res' (used + cost)))"
  by pat_completeness auto
termination
  by (relation "measure (\<lambda>(db, m, b, vis, q, res, used). queue_work vis q)")
    (auto dest: bfs_expand_work)

definition bfs :: "'e graph_db \<Rightarrow> node_id \<Rightarrow> nat \<Rightarrow> nat \<Rightarrow> ('e, gnode list) rust_result" where
  "bfs db seed max_depth token_budget =
     bfs_loop db max_depth token_budget {seed} [(seed, 0)] [] 0"

subsection \<open>The weighted subgraph of personalised PageRank\<close>

definition PPR_BFS_DEPTH :: nat where "PPR_BFS_DEPTH = 6"
definition MAX_SUBGRAPH_NODES :: nat where "MAX_SUBGRAPH_NODES = 250000"
definition EDGE_BATCH_SIZE :: nat where "EDGE_BATCH_SIZE = 500"

type_synonym weighted_adj = "(node_id \<times> (node_id \<times> rat) list) list"

record subgraph =
  sg_adj :: weighted_adj
  sg_reverse :: "node_id set"
  sg_visited :: "node_id set"

fun slice_chunks :: "nat \<Rightarrow> 'a list \<Rightarrow> 'a list list" where
  "slice_chunks k [] = []"
| "slice_chunks k (x # xs) = (x # take (k - 1) xs) # slice_chunks k (drop (k - 1) xs)"

fun adj_entry :: "node_id \<Rightarrow> weighted_adj \<Rightarrow> weighted_adj" where
  "adj_entry u [] = [(u, [])]"
| "adj_entry u ((v, es) # adj) = (if u = v then (v, es) # adj else (v, es) # adj_entry u adj)"

definition adj_push :: "node_id \<Rightarrow> node_id \<times> rat \<Rightarrow> weighted_adj \<Rightarrow> weighted_adj" where
  "adj_push u e adj = map (\<lambda>(v, es). if v = u then (v, es @ [e]) else (v, es)) (adj_entry u adj)"

definition dst_corpora :: "'e graph_db \<Rightarrow> edge_filter \<Rightarrow> gedge list
    \<Rightarrow> ('e, node_id \<rightharpoonup> string) rust_result" where
  "dst_corpora db F es =
     (if ef_needs_corpus F
      then (case db_get_nodes db (remdups_adj (sort (map ge_dst es))) of
              Inl e \<Rightarrow> Inl e
            | Inr ns \<Rightarrow> Inr (map_of (rev (map (\<lambda>n. (gn_id n, node_corpus n)) ns))))
      else Inr Map.empty)"

fun add_weighted :: "edge_filter \<Rightarrow> (node_id \<rightharpoonup> string) \<Rightarrow> gedge \<Rightarrow> subgraph \<times> node_id list
    \<Rightarrow> subgraph \<times> node_id list" where
  "add_weighted F corpus e (g, next) =
     (if ef_needs_corpus F \<and> \<not> ef_allow F (ge_src e) (ge_dst e) (corpus (ge_dst e)) then (g, next)
      else (\<lparr>sg_adj = adj_push (ge_src e) (ge_dst e, ppr_weight (ge_kind e)) (sg_adj g),
             sg_reverse = insert (ge_dst e) (sg_reverse g),
             sg_visited = insert (ge_dst e) (sg_visited g)\<rparr>,
            if ge_dst e \<in> sg_visited g then next else next @ [ge_dst e]))"

fun chunk_loop :: "'e graph_db \<Rightarrow> edge_filter \<Rightarrow> node_id list list \<Rightarrow> subgraph \<times> node_id list
    \<Rightarrow> ('e, subgraph \<times> node_id list) rust_result" where
  "chunk_loop db F [] st = Inr st"
| "chunk_loop db F (ch # chs) st =
     (case db_edges_from_batch db ch of
        Inl e \<Rightarrow> Inl e
      | Inr es \<Rightarrow>
          (case dst_corpora db F es of
             Inl e \<Rightarrow> Inl e
           | Inr corpus \<Rightarrow>
               (let (g, next) = fold (add_weighted F corpus) es st;
                    g' = g\<lparr>sg_adj := fold adj_entry ch (sg_adj g)\<rparr>
                in if MAX_SUBGRAPH_NODES < card (sg_visited g') then Inr (g', next)
                   else chunk_loop db F chs (g', next))))"

fun depth_loop :: "nat \<Rightarrow> 'e graph_db \<Rightarrow> edge_filter \<Rightarrow> node_id list \<Rightarrow> subgraph
    \<Rightarrow> ('e, subgraph) rust_result" where
  "depth_loop 0 db F frontier g = Inr g"
| "depth_loop (Suc k) db F frontier g =
     (if frontier = [] \<or> MAX_SUBGRAPH_NODES \<le> card (sg_visited g) then Inr g
      else case chunk_loop db F (slice_chunks EDGE_BATCH_SIZE frontier) (g, []) of
        Inl e \<Rightarrow> Inl e
      | Inr (g', next) \<Rightarrow>
          if MAX_SUBGRAPH_NODES < card (sg_visited g') then Inr g'
          else depth_loop k db F next g')"

definition build_weighted_subgraph :: "'e graph_db \<Rightarrow> node_id list \<Rightarrow> edge_filter
    \<Rightarrow> ('e, weighted_adj \<times> node_id set) rust_result" where
  "build_weighted_subgraph db seeds F =
     (case depth_loop PPR_BFS_DEPTH db F (rev (remdups (rev seeds)))
        \<lparr>sg_adj = [], sg_reverse = {}, sg_visited = set seeds\<rparr> of
        Inl e \<Rightarrow> Inl e
      | Inr g \<Rightarrow> Inr (sg_adj g, sg_reverse g))"

subsection \<open>The execution path: expansion of the local graph\<close>

definition MAX_EDGE_COST :: rat where "MAX_EDGE_COST = 10"
definition MAX_LOCAL_NODES :: nat where "MAX_LOCAL_NODES = 2000"
definition EXPAND_DEPTH :: nat where "EXPAND_DEPTH = 5"

definition cost_from_weight :: "rat \<Rightarrow> rat" where
  "cost_from_weight w = (if 0 < w then 1 / w else MAX_EDGE_COST)"

definition edge_cost :: "edge_kind \<Rightarrow> rat" where
  "edge_cost k = cost_from_weight (ppr_weight k)"

record local_graph =
  lg_nodes :: "(node_id \<times> gnode) list"
  lg_edges :: "(node_id \<times> node_id \<times> rat) list"
  lg_edge_set :: "(node_id \<times> node_id) set"

definition include_node :: "'e graph_db \<Rightarrow> edge_filter \<Rightarrow> node_id \<Rightarrow> local_graph \<Rightarrow> local_graph" where
  "include_node db F i g =
     (case result_ok (db_get_node db i) of
        Some n \<Rightarrow>
          if ef_allow F i i (Some (node_corpus n)) \<and> map_of (lg_nodes g) i = None
          then g\<lparr>lg_nodes := lg_nodes g @ [(i, n)]\<rparr> else g
      | None \<Rightarrow> g)"

definition known_corpus :: "'e graph_db \<Rightarrow> (node_id \<times> gnode) list \<Rightarrow> node_id \<Rightarrow> string option" where
  "known_corpus db nodes i =
     (case map_of nodes i of
        Some n \<Rightarrow> Some (node_corpus n)
      | None \<Rightarrow> map_option node_corpus (result_ok (db_get_node db i)))"

text \<open>A hop is the edge that is recorded, the end of it the search moves to, and its kind: the
  destination on the forward pass, the source on the reverse pass.\<close>

type_synonym hop = "(node_id \<times> node_id) \<times> node_id \<times> edge_kind"

definition fwd_hops :: "'e graph_db \<Rightarrow> node_id \<Rightarrow> hop list" where
  "fwd_hops db cur =
     map (\<lambda>e. ((cur, ge_dst e), ge_dst e, ge_kind e)) (result_or [] (db_edges_from db cur))"

definition rev_hops :: "'e graph_db \<Rightarrow> node_id \<Rightarrow> hop list" where
  "rev_hops db cur =
     map (\<lambda>e. ((ge_src e, cur), ge_src e, ge_kind e)) (result_or [] (db_edges_to db cur))"

definition add_edge :: "node_id \<times> node_id \<Rightarrow> edge_kind \<Rightarrow> local_graph \<Rightarrow> local_graph" where
  "add_edge sd k g =
     (if sd \<in> lg_edge_set g then g
      else g\<lparr>lg_edges := lg_edges g @ [(fst sd, snd sd, edge_cost k)],
             lg_edge_set := insert sd (lg_edge_set g)\<rparr>)"

fun cross :: "'e graph_db \<Rightarrow> edge_filter \<Rightarrow> nat \<Rightarrow> nat \<Rightarrow> hop
    \<Rightarrow> local_graph \<times> node_id set \<times> (node_id \<times> nat) list
    \<Rightarrow> local_graph \<times> node_id set \<times> (node_id \<times> nat) list" where
  "cross db F max_depth depth (sd, nb, k) (g, vis, q) =
     (if \<not> ef_allow F (fst sd) (snd sd) (known_corpus db (lg_nodes g) nb) then (g, vis, q)
      else if depth < max_depth then (add_edge sd k g, discover (depth + 1) nb (vis, q))
      else (add_edge sd k g, vis, q))"

lemma cross_work:
  "cross db F m d h (g, vis, q) = (g', vis', q') \<Longrightarrow> queue_work vis' q' = queue_work vis q"
  by (cases h) (auto simp: queue_work_insert split: if_splits)

lemma fold_cross_work:
  "fold (cross db F m d) hs (g, vis, q) = (g', vis', q') \<Longrightarrow> queue_work vis' q' = queue_work vis q"
proof (induction hs arbitrary: g vis q)
  case (Cons h hs)
  obtain g1 v1 q1 where "cross db F m d h (g, vis, q) = (g1, v1, q1)"
    by (metis prod_cases3)
  with Cons cross_work[OF this] show ?case
    by (simp del: cross.simps)
qed simp

function expand_loop :: "'e graph_db \<Rightarrow> edge_filter \<Rightarrow> nat \<Rightarrow> nat \<Rightarrow> (node_id \<Rightarrow> hop list)
    \<Rightarrow> local_graph \<Rightarrow> node_id set \<Rightarrow> (node_id \<times> nat) list \<Rightarrow> local_graph" where
  "expand_loop db F max_depth cap hops g vis [] = g"
| "expand_loop db F max_depth cap hops g vis ((cur, depth) # q) =
     (if cap \<le> length (lg_nodes g) then g
      else case fold (cross db F max_depth depth) (hops cur) (include_node db F cur g, vis, q) of
        (g', vis', q') \<Rightarrow> expand_loop db F max_depth cap hops g' vis' q')"
  by pat_completeness auto
termination
  by (relation "measure (\<lambda>(db, F, m, cap, hops, g, vis, q). queue_work vis q)")
    (simp_all, metis (no_types, lifting) case_prod_conv fold_cross_work lessI)

definition expand_local_subgraph :: "'e graph_db \<Rightarrow> node_id \<Rightarrow> node_id \<Rightarrow> edge_filter \<Rightarrow> nat
    \<Rightarrow> local_graph" where
  "expand_local_subgraph db source sink F max_depth =
     (let g0 = fold (include_node db F) [source, sink] \<lparr>lg_nodes = [], lg_edges = [], lg_edge_set = {}\<rparr>;
          g1 = expand_loop db F max_depth (MAX_LOCAL_NODES div 2) (fwd_hops db) g0 {source} [(source, 0)]
      in expand_loop db F max_depth MAX_LOCAL_NODES (rev_hops db) g1 {sink} [(sink, 0)])"

subsection \<open>The execution path\<close>

record digraph =
  dg_ids :: "node_id list"
  dg_edges :: "(nat \<times> nat \<times> rat) list"

definition node_to_idx :: "digraph \<Rightarrow> node_id \<Rightarrow> nat option" where
  "node_to_idx dg i = find_byte (\<lambda>x. x = i) (dg_ids dg)"

definition idx_to_node :: "digraph \<Rightarrow> nat \<Rightarrow> node_id option" where
  "idx_to_node dg k = (if k < length (dg_ids dg) then Some (dg_ids dg ! k) else None)"

definition build_graph :: "(node_id \<times> gnode) list \<Rightarrow> (node_id \<times> node_id \<times> rat) list \<Rightarrow> digraph" where
  "build_graph nodes es =
     (let g = \<lparr>dg_ids = sort (map fst nodes), dg_edges = []\<rparr>
      in g\<lparr>dg_edges := List.map_filter (\<lambda>(s, d, c).
             case (node_to_idx g s, node_to_idx g d) of
               (Some si, Some di) \<Rightarrow> Some (si, di, c) | _ \<Rightarrow> None) es\<rparr>)"

text \<open>\<open>dijkstra\<close> without a goal and \<open>astar\<close> to one goal with a zero heuristic.\<close>

record petgraph =
  pg_dijkstra :: "digraph \<Rightarrow> nat \<Rightarrow> (nat \<times> rat) list"
  pg_astar :: "digraph \<Rightarrow> nat \<Rightarrow> nat \<Rightarrow> (rat \<times> nat list) option"

definition fallback_step :: "'e graph_db \<Rightarrow> edge_filter \<Rightarrow> node_id \<Rightarrow> nat \<Rightarrow> gedge
    \<Rightarrow> node_id set \<times> (node_id \<times> nat) list \<Rightarrow> node_id set \<times> (node_id \<times> nat) list" where
  "fallback_step db F cur depth e vq =
     (if \<not> ef_allow F cur (ge_dst e) (map_option node_corpus (result_ok (db_get_node db (ge_dst e))))
      then vq else discover (depth + 1) (ge_dst e) vq)"

definition fallback_expand :: "'e graph_db \<Rightarrow> edge_filter \<Rightarrow> node_id \<Rightarrow> nat
    \<Rightarrow> node_id set \<times> (node_id \<times> nat) list \<Rightarrow> node_id set \<times> (node_id \<times> nat) list" where
  "fallback_expand db F cur depth vq =
     (if depth < 3 then fold (fallback_step db F cur depth) (result_or [] (db_edges_from db cur)) vq
      else vq)"

lemma fallback_step_work:
  "fallback_step db F c d e (vis, q) = (vis', q') \<Longrightarrow> queue_work vis' q' = queue_work vis q"
  by (auto simp: fallback_step_def queue_work_insert split: if_splits)

lemma fallback_expand_work:
  "fallback_expand db F c d (vis, q) = (vis', q') \<Longrightarrow> queue_work vis' q' = queue_work vis q"
proof -
  have "fold (fallback_step db F c d) es (vis, q) = (vis', q') \<Longrightarrow> queue_work vis' q' = queue_work vis q"
    for es
  proof (induction es arbitrary: vis q)
    case (Cons e es)
    obtain v1 q1 where "fallback_step db F c d e (vis, q) = (v1, q1)"
      by fastforce
    with Cons fallback_step_work[OF this] show ?case
      by simp
  qed simp
  then show "fallback_expand db F c d (vis, q) = (vis', q') \<Longrightarrow> queue_work vis' q' = queue_work vis q"
    by (auto simp: fallback_expand_def split: if_splits)
qed

function fallback_loop :: "'e graph_db \<Rightarrow> edge_filter \<Rightarrow> nat \<Rightarrow> node_id set \<Rightarrow> (node_id \<times> nat) list
    \<Rightarrow> gnode list \<Rightarrow> nat \<Rightarrow> ('e, gnode list) rust_result" where
  "fallback_loop db F budget vis [] res used = Inr res"
| "fallback_loop db F budget vis ((cur, depth) # q) res used =
     (if 3 < depth then Inr res
      else case db_get_node db cur of
        Inl e \<Rightarrow> Inl e
      | Inr None \<Rightarrow>
          (case fallback_expand db F cur depth (vis, q) of
             (vis', q') \<Rightarrow> fallback_loop db F budget vis' q' res used)
      | Inr (Some n) \<Rightarrow>
          if \<not> ef_allow F cur cur (Some (node_corpus n)) then fallback_loop db F budget vis q res used
          else if budget < used + token_cost n then Inr res
          else (case fallback_expand db F cur depth (vis, q) of
             (vis', q') \<Rightarrow> fallback_loop db F budget vis' q' (res @ [n]) (used + token_cost n)))"
  by pat_completeness auto
termination
  by (relation "measure (\<lambda>(db, F, b, vis, q, res, used). queue_work vis q)")
    (simp_all, (metis (no_types, lifting) case_prod_conv fallback_expand_work lessI)+)

definition bfs_fallback :: "'e graph_db \<Rightarrow> node_id \<Rightarrow> edge_filter \<Rightarrow> nat
    \<Rightarrow> ('e, gnode list) rust_result" where
  "bfs_fallback db seed F token_budget = fallback_loop db F token_budget {seed} [(seed, 0)] [] 0"

fun take_within :: "'e graph_db \<Rightarrow> nat \<Rightarrow> node_id list \<Rightarrow> gnode list \<Rightarrow> nat
    \<Rightarrow> ('e, gnode list) rust_result" where
  "take_within db budget [] res used = Inr res"
| "take_within db budget (i # is) res used =
     (case db_get_node db i of
        Inl e \<Rightarrow> Inl e
      | Inr None \<Rightarrow> take_within db budget is res used
      | Inr (Some n) \<Rightarrow>
          if budget < used + token_cost n then Inr res
          else take_within db budget is (res @ [n]) (used + token_cost n))"

definition corridor :: "digraph \<Rightarrow> rat \<Rightarrow> node_id list \<Rightarrow> (nat \<times> rat) list \<Rightarrow> node_id list" where
  "corridor dg threshold route_ids costs =
     map snd (sort (filter (\<lambda>(c, i). i \<notin> set route_ids)
       (List.map_filter (\<lambda>(k, c). if c \<le> threshold then map_option (Pair c) (idx_to_node dg k)
                                   else None) costs)))"

definition with_endpoints :: "node_id \<Rightarrow> gnode \<Rightarrow> node_id \<Rightarrow> gnode \<Rightarrow> gnode list \<Rightarrow> gnode list" where
  "with_endpoints source source_node sink sink_node res =
     (let r = (if list_ex (\<lambda>n. gn_id n = source) res then res else source_node # res)
      in if list_ex (\<lambda>n. gn_id n = sink) r then r else r @ [sink_node])"

definition accessible :: "'e graph_db \<Rightarrow> edge_filter \<Rightarrow> node_id \<Rightarrow> ('e, gnode option) rust_result" where
  "accessible db F i =
     (case db_get_node db i of
        Inl e \<Rightarrow> Inl e
      | Inr None \<Rightarrow> Inr None
      | Inr (Some n) \<Rightarrow> Inr (if ef_allow F i i (Some (node_corpus n)) then Some n else None))"

definition connect :: "petgraph \<Rightarrow> rat \<Rightarrow> 'e graph_db \<Rightarrow> node_id \<Rightarrow> gnode \<Rightarrow> node_id \<Rightarrow> gnode
    \<Rightarrow> edge_filter \<Rightarrow> nat \<Rightarrow> ('e, gnode list) rust_result" where
  "connect pg lam db source source_node sink sink_node F token_budget =
     (let g = expand_local_subgraph db source sink F EXPAND_DEPTH;
          dg = build_graph (lg_nodes g) (lg_edges g)
      in case (node_to_idx dg source, node_to_idx dg sink) of
           (Some si, Some di) \<Rightarrow>
             (let costs = pg_dijkstra pg dg si
              in case pg_astar pg dg si di of
                   None \<Rightarrow> bfs_fallback db source F token_budget
                 | Some (total_cost, route) \<Rightarrow>
                     (let route_ids = List.map_filter (idx_to_node dg) route;
                          threshold = total_cost * (1 + lam)
                      in case take_within db token_budget
                                (route_ids @ corridor dg threshold route_ids costs) [] 0 of
                           Inl e \<Rightarrow> Inl e
                         | Inr res \<Rightarrow> Inr (with_endpoints source source_node sink sink_node res)))
         | _ \<Rightarrow> bfs_fallback db source F token_budget)"

definition pcst_path :: "petgraph \<Rightarrow> rat \<Rightarrow> 'e graph_db \<Rightarrow> node_id \<Rightarrow> node_id \<Rightarrow> edge_filter \<Rightarrow> nat
    \<Rightarrow> ('e, gnode list) rust_result" where
  "pcst_path pg lam db source sink F token_budget =
     (case accessible db F source of
        Inl e \<Rightarrow> Inl e
      | Inr None \<Rightarrow> Inr []
      | Inr (Some source_node) \<Rightarrow>
          (case accessible db F sink of
             Inl e \<Rightarrow> Inl e
           | Inr None \<Rightarrow> Inr []
           | Inr (Some sink_node) \<Rightarrow>
               if source = sink then Inr [source_node]
               else connect pg lam db source source_node sink sink_node F token_budget))"

subsection \<open>Breadth-first search finds exactly what is near\<close>

definition succs :: "'e graph_db \<Rightarrow> node_id \<Rightarrow> node_id set" where
  "succs db u = (case db_edges_from db u of Inl e \<Rightarrow> {} | Inr es \<Rightarrow> ge_dst ` set es)"

inductive reaches :: "'e graph_db \<Rightarrow> node_id \<Rightarrow> nat \<Rightarrow> node_id \<Rightarrow> bool" for db where
  here: "reaches db u 0 u"
| onward: "v \<in> succs db u \<Longrightarrow> reaches db v j w \<Longrightarrow> reaches db u (Suc j) w"

inductive_simps reaches_0 [simp]: "reaches db u 0 w"
inductive_cases reaches_SucE: "reaches db u (Suc j) w"

lemma reaches_snoc: "reaches db s k u \<Longrightarrow> v \<in> succs db u \<Longrightarrow> reaches db s (Suc k) v"
  by (induction rule: reaches.induct) (auto intro: reaches.intros)

lemma fold_discover:
  "\<exists>new. fold (discover d) is (vis, q) = (vis \<union> set is, q @ map (\<lambda>i. (i, d)) new)
     \<and> distinct new \<and> set new = set is - vis"
proof (induction "is" arbitrary: vis q)
  case Nil
  show ?case by (rule exI[of _ "[]"]) simp
next
  case (Cons i "is")
  show ?case
  proof (cases "i \<in> vis")
    case True
    with Cons[of vis q] show ?thesis
      by (auto simp: insert_absorb)
  next
    case False
    from Cons[of "insert i vis" "q @ [(i, d)]"] obtain new
      where "fold (discover d) is (insert i vis, q @ [(i, d)])
          = (insert i vis \<union> set is, (q @ [(i, d)]) @ map (\<lambda>i. (i, d)) new)"
        "distinct new" "set new = set is - insert i vis" by blast
    with False show ?thesis
      by (intro exI[of _ "i # new"]) auto
  qed
qed

lemma bfs_expand_new:
  assumes "bfs_expand db m c d (vis, q) = Inr (vis', q')"
  obtains new where "vis' = (if d < m then vis \<union> succs db c else vis)"
    "q' = q @ map (\<lambda>i. (i, Suc d)) new" "distinct new"
    "set new = (if d < m then succs db c - vis else {})"
proof (cases "d < m")
  case True
  with assms obtain es where es: "db_edges_from db c = Inr es"
    and f: "fold (discover (Suc d)) (map ge_dst es) (vis, q) = (vis', q')"
    by (auto simp: bfs_expand_def split: sum.splits)
  with fold_discover[of "Suc d" "map ge_dst es" vis q] that True show ?thesis
    by (auto simp: succs_def)
next
  case False
  with assms that[of "[]"] show ?thesis
    by (simp add: bfs_expand_def)
qed

text \<open>The invariant of the search. The ids that were popped are \<open>vis - fst ` set q\<close>; everything
  near the seed is one of them or is near, by what is left of the depth, to an id in the queue.\<close>

definition bfs_frontier :: "'e graph_db \<Rightarrow> node_id \<Rightarrow> nat \<Rightarrow> node_id set \<Rightarrow> (node_id \<times> nat) list \<Rightarrow> bool"
where
  "bfs_frontier db s m vis q \<longleftrightarrow>
     (\<forall>k i. reaches db s k i \<longrightarrow> k \<le> m \<longrightarrow>
        i \<in> vis - fst ` set q \<or> (\<exists>(u, d)\<in>set q. \<exists>j. reaches db u j i \<and> d + j \<le> k)) \<and>
     ((\<exists>(u, d)\<in>set q. d < m) \<longrightarrow> (\<forall>v\<in>vis - fst ` set q. succs db v \<subseteq> vis))"

definition bfs_queue :: "'e graph_db \<Rightarrow> node_id \<Rightarrow> nat \<Rightarrow> node_id set \<Rightarrow> (node_id \<times> nat) list \<Rightarrow> bool"
where
  "bfs_queue db s m vis q \<longleftrightarrow>
     sorted (map snd q) \<and> (\<forall>(u, d)\<in>set q. d \<le> m \<and> d \<le> Suc (snd (hd q)) \<and> reaches db s d u) \<and>
     distinct (map fst q) \<and> fst ` set q \<subseteq> vis"

text \<open>The last popped vertex of a path leads to a queued one, one step later.\<close>

lemma path_leaves_done:
  assumes "reaches db c j i" "c \<in> D" "\<forall>v\<in>D. succs db v \<subseteq> D \<union> Q"
  shows "i \<in> D \<or> (\<exists>x\<in>Q. \<exists>j'. reaches db x j' i \<and> Suc j' \<le> j)"
  using assms
proof (induction rule: reaches.induct)
  case (onward v u j w)
  then consider "v \<in> D" | "v \<in> Q" by blast
  then show ?case
  proof cases
    case 1
    with onward show ?thesis by (meson le_SucI)
  next
    case 2
    with onward show ?thesis by blast
  qed
qed simp

lemma bfs_queue_step:
  assumes "bfs_queue db s m vis ((c, d) # q)"
    "distinct new" "set new = (if d < m then succs db c - vis else {})"
    "vis' = (if d < m then vis \<union> succs db c else vis)"
  shows "bfs_queue db s m vis' (q @ map (\<lambda>i. (i, Suc d)) new)"
proof -
  have q: "sorted (d # map snd q)" "\<forall>(u, e)\<in>set q. e \<le> m \<and> e \<le> Suc d \<and> reaches db s e u"
    "distinct (map fst q)" "fst ` set q \<subseteq> vis" "reaches db s d c" "d \<le> m"
    using assms(1) by (auto simp: bfs_queue_def)
  have new: "set new \<inter> vis = {}" "set new \<subseteq> succs db c" "new \<noteq> [] \<Longrightarrow> d < m" "set new \<subseteq> vis'" "vis \<subseteq> vis'"
    using assms(3,4) by (auto split: if_splits)
  have r: "\<forall>i\<in>set new. reaches db s (Suc d) i"
    using new(2) q(5) reaches_snoc by blast
  have low: "\<forall>x\<in>set q. d \<le> snd x"
    using q(1) by auto
  have hd_low: "d \<le> snd (hd (q @ map (\<lambda>i. (i, Suc d)) new))" if "q @ map (\<lambda>i. (i, Suc d)) new \<noteq> []"
    using that low by (cases q; cases new) auto
  have "sorted (map snd (q @ map (\<lambda>i. (i, Suc d)) new))"
    using q(1,2) by (auto simp: sorted_append comp_def map_replicate_const)
  moreover have "\<forall>(u, e)\<in>set (q @ map (\<lambda>i. (i, Suc d)) new).
      e \<le> m \<and> e \<le> Suc (snd (hd (q @ map (\<lambda>i. (i, Suc d)) new))) \<and> reaches db s e u"
  proof (intro ballI, clarify)
    fix u e assume "(u, e) \<in> set (q @ map (\<lambda>i. (i, Suc d)) new)"
    then have "e \<le> m \<and> e \<le> Suc d \<and> reaches db s e u"
      using q(2) r new(3) by (cases new) auto
    moreover have "q @ map (\<lambda>i. (i, Suc d)) new \<noteq> []"
      using \<open>(u, e) \<in> _\<close> by fastforce
    ultimately show "e \<le> m \<and> e \<le> Suc (snd (hd (q @ map (\<lambda>i. (i, Suc d)) new))) \<and> reaches db s e u"
      using hd_low by (meson Suc_le_mono le_trans)
  qed
  moreover have "distinct (map fst (q @ map (\<lambda>i. (i, Suc d)) new))"
    using q(3,4) new(1) assms(2) by (auto simp: comp_def)
  moreover have "fst ` set (q @ map (\<lambda>i. (i, Suc d)) new) \<subseteq> vis'"
    using q(4) new(4,5) by auto
  ultimately show ?thesis
    by (simp add: bfs_queue_def)
qed
lemma bfs_frontier_step:
  assumes inv: "bfs_queue db s m vis ((c, d) # q)" "bfs_frontier db s m vis ((c, d) # q)"
    and new: "distinct new" "set new = (if d < m then succs db c - vis else {})"
    and vis': "vis' = (if d < m then vis \<union> succs db c else vis)"
  shows "bfs_frontier db s m vis' (q @ map (\<lambda>i. (i, Suc d)) new)"
proof -
  let ?q' = "q @ map (\<lambda>i. (i, Suc d)) new"
  let ?D = "vis - fst ` set ((c, d) # q)" and ?D' = "vis' - fst ` set ?q'"
  have q: "\<forall>(u, e)\<in>set q. e \<le> Suc d" "\<forall>(u, e)\<in>set q. d \<le> e" "c \<notin> fst ` set q"
      "fst ` set q \<subseteq> vis" "c \<in> vis" "d \<le> m"
    using inv(1) by (auto simp: bfs_queue_def)
  have q'_depth: "\<forall>(u, e)\<in>set ?q'. e \<le> Suc d"
    using q(1) by auto
  have "fst ` set ?q' = fst ` set q \<union> set new"
    by (simp add: image_Un image_image)
  then have D': "?D' = insert c ?D"
    using new(2) vis' q(3,4,5) by (auto split: if_splits)
  have f: "i \<in> ?D \<or> (\<exists>(u, e)\<in>set ((c, d) # q). \<exists>j. reaches db u j i \<and> e + j \<le> k)"
    if "reaches db s k i" "k \<le> m" for k i
    using inv(2) that unfolding bfs_frontier_def by blast
  have old: "\<forall>v\<in>?D. succs db v \<subseteq> vis" if "d < m"
    using inv(2) that unfolding bfs_frontier_def by auto
  have closed: "\<forall>v\<in>?D'. succs db v \<subseteq> ?D' \<union> fst ` set ?q'" if "d < m"
    using old[OF that] that vis' unfolding D' using D' by auto
  have near: "i \<in> ?D' \<or> (\<exists>(u, e)\<in>set ?q'. \<exists>j. reaches db u j i \<and> e + j \<le> k)"
    if "reaches db s k i" "k \<le> m" for k i
  proof -
    have via: "i \<in> ?D' \<or> (\<exists>(u, e)\<in>set ?q'. \<exists>j. reaches db u j i \<and> e + j \<le> k)"
      if c: "reaches db c j i" "d + j \<le> k" for j
    proof (cases "d < m")
      case True
      from path_leaves_done[OF c(1) _ closed[OF True]] D'
      have "i \<in> ?D' \<or> (\<exists>x\<in>fst ` set ?q'. \<exists>j'. reaches db x j' i \<and> Suc j' \<le> j)" by blast
      then show ?thesis
      proof
        assume "\<exists>x\<in>fst ` set ?q'. \<exists>j'. reaches db x j' i \<and> Suc j' \<le> j"
        then obtain x e j' where x: "(x, e) \<in> set ?q'" "reaches db x j' i" "Suc j' \<le> j" by fastforce
        with q'_depth c(2) have "e + j' \<le> k" by fastforce
        with x show ?thesis by blast
      qed blast
    next
      case False
      with q(6) c(2) \<open>k \<le> m\<close> have "j = 0" by simp
      with c(1) D' show ?thesis by simp
    qed
    from f[OF that] consider "i \<in> ?D" | u e j where "(u, e) \<in> set q" "reaches db u j i" "e + j \<le> k"
      | j where "reaches db c j i" "d + j \<le> k" by auto
    then show ?thesis
    proof cases
      case 1
      then show ?thesis unfolding D' by blast
    next
      case 2
      then show ?thesis by auto
    next
      case 3
      then show ?thesis by (rule via)
    qed
  qed
  have "\<forall>v\<in>?D'. succs db v \<subseteq> vis'" if "\<exists>(u, e)\<in>set ?q'. e < m"
  proof -
    from that q(2) new(2) have "d < m" by (fastforce split: if_splits)
    with old vis' D' show ?thesis by auto
  qed
  with near show ?thesis
    unfolding bfs_frontier_def by blast
qed

lemma bfs_start: "bfs_queue db s m {s} [(s, 0)] \<and> bfs_frontier db s m {s} [(s, 0)]"
  by (auto simp: bfs_queue_def bfs_frontier_def)

definition bfs_progress :: "'e graph_db \<Rightarrow> nat \<Rightarrow> node_id set \<Rightarrow> (node_id \<times> nat) list \<Rightarrow> gnode list
    \<Rightarrow> nat \<Rightarrow> bool" where
  "bfs_progress db budget vis q res used \<longleftrightarrow>
     used = sum_list (map token_cost res) \<and> used \<le> budget \<and> distinct (map gn_id res) \<and>
     gn_id ` set res \<subseteq> vis - fst ` set q \<and>
     (\<forall>n\<in>set res. db_get_node db (gn_id n) = Inr (Some n)) \<and>
     (\<forall>i\<in>vis - fst ` set q. \<forall>n. db_get_node db i = Inr (Some n) \<longrightarrow> n \<in> set res)"

definition bfs_near :: "'e graph_db \<Rightarrow> node_id \<Rightarrow> nat \<Rightarrow> gnode \<Rightarrow> bool" where
  "bfs_near db s m n \<longleftrightarrow> (\<exists>k\<le>m. reaches db s k (gn_id n)) \<and> db_get_node db (gn_id n) = Inr (Some n)"

definition bfs_answer :: "'e graph_db \<Rightarrow> node_id \<Rightarrow> nat \<Rightarrow> nat \<Rightarrow> gnode list \<Rightarrow> bool" where
  "bfs_answer db s m budget res \<longleftrightarrow>
     sum_list (map token_cost res) \<le> budget \<and> distinct (map gn_id res) \<and>
     (\<forall>n\<in>set res. bfs_near db s m n) \<and>
     ((\<forall>n. bfs_near db s m n \<longrightarrow> n \<in> set res) \<or>
      (\<exists>n. bfs_near db s m n \<and> n \<notin> set res \<and> budget < sum_list (map token_cost res) + token_cost n))"
lemma bfs_loop_answer:
  assumes "db_honest db" "bfs_loop db m budget vis q res used = Inr out"
    "bfs_queue db s m vis q" "bfs_frontier db s m vis q" "bfs_progress db budget vis q res used"
    "\<forall>n\<in>set res. bfs_near db s m n"
  shows "bfs_answer db s m budget out"
  using assms
proof (induction db m budget vis q res used rule: bfs_loop.induct)
  case (1 db m budget vis res used)
  have "n \<in> set res" if "bfs_near db s m n" for n
    using that 1(4,5) unfolding bfs_near_def bfs_frontier_def bfs_progress_def by fastforce
  with 1 show ?case
    by (simp add: bfs_answer_def bfs_progress_def)
next
  case (2 db m budget vis cur depth q res used)
  note IH = 2(1) and honest = 2(2) and run = 2(3) and queue = 2(4) and frontier = 2(5)
    and progress = 2(6) and near = 2(7)
  have d: "depth \<le> m" "reaches db s depth cur" "cur \<notin> fst ` set q" "fst ` set q \<subseteq> vis" "cur \<in> vis"
    using queue by (auto simp: bfs_queue_def)
  from run d(1) obtain found where found: "db_get_node db cur = Inr found"
    by (auto split: sum.splits)
  have id: "gn_id n = cur" if "found = Some n" for n
    using honest found that by (auto simp: db_honest_def)
  have near_cur: "bfs_near db s m n" if "found = Some n" for n
    using found d that id[OF that] by (auto simp: bfs_near_def)
  define cost where "cost = (case found of Some n \<Rightarrow> token_cost n | None \<Rightarrow> 0)"
  define res' where "res' = (case found of Some n \<Rightarrow> res @ [n] | None \<Rightarrow> res)"
  have new_cur: "n \<notin> set res" if "found = Some n" for n
    using progress id[OF that] by (force simp: bfs_progress_def)
  show ?case
  proof (cases "found \<noteq> None \<and> budget < used + cost")
    case True
    then obtain n where n: "found = Some n" by blast
    with True run d(1) found have "out = res" by (simp add: cost_def)
    with True n near near_cur[OF n] new_cur[OF n] progress show ?thesis
      by (auto simp: bfs_answer_def bfs_progress_def cost_def)
  next
    case False
    with run d(1) found obtain vis' q' where ex: "bfs_expand db m cur depth (vis, q) = Inr (vis', q')"
      and out: "bfs_loop db m budget vis' q' res' (used + cost) = Inr out"
      unfolding cost_def res'_def by (auto split: sum.splits simp: Let_def)
    obtain new where new: "vis' = (if depth < m then vis \<union> succs db cur else vis)"
        "q' = q @ map (\<lambda>i. (i, Suc depth)) new" "distinct new"
        "set new = (if depth < m then succs db cur - vis else {})"
      using bfs_expand_new[OF ex] by blast
    have fq: "fst ` set q' = fst ` set q \<union> set new"
      by (simp add: new(2) image_Un image_image)
    have D: "vis' - fst ` set q' = insert cur (vis - fst ` set ((cur, depth) # q))"
      unfolding fq using new(1,4) d by (auto split: if_splits)
    have progress': "bfs_progress db budget vis' q' res' (used + cost)"
      using progress False found id new_cur unfolding bfs_progress_def D
      by (cases found) (auto simp: cost_def res'_def)
    have near': "\<forall>n\<in>set res'. bfs_near db s m n"
      using near near_cur by (auto simp: res'_def split: option.splits)
    show ?thesis
      by (rule IH[OF _ found cost_def res'_def False ex refl honest out
            bfs_queue_step[OF queue new(3,4,1), folded new(2)]
            bfs_frontier_step[OF queue frontier new(3,4,1), folded new(2)] progress' near'])
        (use d(1) in simp)
  qed
qed

text \<open>
  C9: \<open>bfs\<close> answers with distinct stored nodes, all within \<open>max_depth\<close> edges of the seed, whose costs
  sum to at most the budget; and it leaves out a node within that distance only when some such node
  does not fit what is left of the budget.
\<close>

theorem bfs_exact:
  assumes "db_honest db" "bfs db seed max_depth budget = Inr out"
  shows "sum_list (map token_cost out) \<le> budget \<and> distinct (map gn_id out) \<and>
     list_all (bfs_near db seed max_depth) out \<and>
     ({n. bfs_near db seed max_depth n} = set out \<or>
      (\<exists>n. bfs_near db seed max_depth n \<and> n \<notin> set out \<and>
         budget < sum_list (map token_cost out) + token_cost n))"
proof -
  have "bfs_progress db budget {seed} [(seed, 0)] [] 0"
    by (simp add: bfs_progress_def)
  with assms bfs_start[of db seed max_depth] have "bfs_answer db seed max_depth budget out"
    unfolding bfs_def by (intro bfs_loop_answer[of db max_depth budget "{seed}" "[(seed, 0)]" "[]" 0]) auto
  then show ?thesis
    by (auto simp: bfs_answer_def list_all_iff)
qed
text \<open>A small store: three nodes of two corpora on a cycle.\<close>

definition sample_node :: "node_id \<Rightarrow> string \<Rightarrow> gnode" where
  "sample_node i c = \<lparr>gn_id = i,
     gn_vname = \<lparr>vn_corpus = c, vn_root = [], vn_path = ''a.rs'', vn_language = ''rust'', vn_signature = ''f''\<rparr>,
     gn_kind = ''function''\<rparr>"

definition sample_db :: "nat graph_db" where
  "sample_db =
     (let node = (\<lambda>i. if i = 1 then Some (sample_node 1 ''own'') else if i = 2 then Some (sample_node 2 ''own'')
                      else if i = 3 then Some (sample_node 3 ''other'') else None)
      in \<lparr>db_get_node = (\<lambda>i. Inr (node i)),
          db_get_nodes = (\<lambda>is. Inr (List.map_filter node is)),
          db_edges_from = (\<lambda>i. Inr (if i = 1 then [\<lparr>ge_src = 1, ge_dst = 2, ge_kind = RefCall\<rparr>,
                                                     \<lparr>ge_src = 1, ge_dst = 3, ge_kind = RefCall\<rparr>] else [])),
          db_edges_to = (\<lambda>i. Inr (if i = 2 \<or> i = 3 then [\<lparr>ge_src = 1, ge_dst = i, ge_kind = RefCall\<rparr>]
                                    else []))\<rparr>)"

lemma sample_db_honest: "db_honest sample_db"
  by (auto simp: db_honest_def sample_db_def sample_node_def List.map_filter_def list_all_iff
      split: if_splits)

lemma bfs_sample: "bfs sample_db 1 2 8 = Inr [sample_node 1 ''own'', sample_node 2 ''own'']"
  by (simp add: bfs_def sample_db_def sample_node_def bfs_expand_def Let_def token_cost_def
      TOKEN_CHARS_PER_TOKEN_def)

theorem bfs_exact_witness:
  "sum_list (map token_cost [sample_node 1 ''own'', sample_node 2 ''own'']) \<le> 8 \<and>
   list_all (bfs_near sample_db 1 2) [sample_node 1 ''own'', sample_node 2 ''own'']"
  using bfs_exact[OF sample_db_honest bfs_sample] by blast

subsection \<open>Access control\<close>

text \<open>What a traversal asks of a filter: what it lets through, by the corpus it is shown, is
  permitted; and a filter that declines the corpus permits everything.\<close>

locale edge_gate =
  fixes F :: edge_filter and permitted :: "string \<Rightarrow> bool"
  assumes shown: "ef_allow F s d (Some c) \<Longrightarrow> permitted c"
    and fail_closed: "ef_needs_corpus F \<Longrightarrow> \<not> ef_allow F s d None"
    and declines: "\<not> ef_needs_corpus F \<Longrightarrow> permitted x"
begin

definition nodes_ok :: "'e graph_db \<Rightarrow> (node_id \<times> gnode) list \<Rightarrow> bool" where
  "nodes_ok db nodes \<longleftrightarrow>
     (\<forall>(i, n)\<in>set nodes. db_get_node db i = Inr (Some n) \<and> permitted (node_corpus n))"

lemma include_node_ok:
  "nodes_ok db (lg_nodes g) \<Longrightarrow> nodes_ok db (lg_nodes (include_node db F i g))"
  by (cases "db_get_node db i")
    (auto simp: include_node_def nodes_ok_def dest: shown split: option.splits)

lemma cross_nodes: "cross db F m d h (g, vis, q) = (g', vis', q') \<Longrightarrow> lg_nodes g' = lg_nodes g"
  by (cases h) (auto simp: add_edge_def split: if_splits)

lemma fold_cross_nodes:
  "fold (cross db F m d) hs (g, vis, q) = (g', vis', q') \<Longrightarrow> lg_nodes g' = lg_nodes g"
proof (induction hs arbitrary: g vis q)
  case (Cons h hs)
  obtain g1 v1 q1 where "cross db F m d h (g, vis, q) = (g1, v1, q1)"
    by (metis prod_cases3)
  with Cons cross_nodes[OF this] show ?case
    by (simp del: cross.simps)
qed simp

lemma expand_loop_ok:
  "H = F \<Longrightarrow> nodes_ok db (lg_nodes g) \<Longrightarrow> nodes_ok db (lg_nodes (expand_loop db H m cap hops g vis q))"
proof (induction db H m cap hops g vis q rule: expand_loop.induct)
  case (2 db H m cap hops g vis cur depth q)
  obtain g' vis' q' where f: "fold (cross db F m depth) (hops cur) (include_node db F cur g, vis, q) = (g', vis', q')"
    by (metis prod_cases3)
  then have "lg_nodes g' = lg_nodes (include_node db F cur g)"
    by (rule fold_cross_nodes)
  with 2 f include_node_ok[of db g cur] show ?case
    by auto
qed simp

lemma expand_ok: "nodes_ok db (lg_nodes (expand_local_subgraph db s t F m))"
proof -
  have "nodes_ok db []"
    by (simp add: nodes_ok_def)
  then show ?thesis
    by (auto simp: expand_local_subgraph_def Let_def simp del: expand_loop.simps
        intro!: expand_loop_ok include_node_ok)
qed

lemma idx_to_node_ok:
  "nodes_ok db nodes \<Longrightarrow> idx_to_node (build_graph nodes es) k = Some i \<Longrightarrow>
   \<exists>n. db_get_node db i = Inr (Some n) \<and> permitted (node_corpus n)"
proof -
  assume ok: "nodes_ok db nodes" and "idx_to_node (build_graph nodes es) k = Some i"
  then have "k < length (sort (map fst nodes))" "i = sort (map fst nodes) ! k"
    by (auto simp: idx_to_node_def build_graph_def Let_def split: if_splits)
  then have "i \<in> set (sort (map fst nodes))"
    by (metis nth_mem)
  with ok show ?thesis
    by (fastforce simp: nodes_ok_def)
qed

definition ids_ok :: "'e graph_db \<Rightarrow> node_id list \<Rightarrow> bool" where
  "ids_ok db is \<longleftrightarrow> (\<forall>i\<in>set is. \<exists>n. db_get_node db i = Inr (Some n) \<and> permitted (node_corpus n))"

lemma route_ok: "nodes_ok db nodes \<Longrightarrow> ids_ok db (List.map_filter (idx_to_node (build_graph nodes es)) route)"
  using idx_to_node_ok by (fastforce simp: ids_ok_def List.map_filter_def)

lemma corridor_ok: "nodes_ok db nodes \<Longrightarrow> ids_ok db (corridor (build_graph nodes es) th rs costs)"
  using idx_to_node_ok by (fastforce simp: ids_ok_def corridor_def List.map_filter_def split: if_splits)

lemma take_within_ok:
  "ids_ok db is \<Longrightarrow> take_within db b is res used = Inr out \<Longrightarrow> n \<in> set out \<Longrightarrow>
   n \<in> set res \<or> permitted (node_corpus n)"
proof (induction db b "is" res used rule: take_within.induct)
  case (2 db b i "is" res used)
  then obtain m where "db_get_node db i = Inr (Some m)" "permitted (node_corpus m)"
    by (auto simp: ids_ok_def)
  with 2 show ?case
    by (force simp: ids_ok_def split: if_splits)
qed simp

lemma fallback_loop_ok:
  "H = F \<Longrightarrow> fallback_loop db H b vis q res used = Inr out \<Longrightarrow> n \<in> set out \<Longrightarrow>
   n \<in> set res \<or> permitted (node_corpus n)"
proof (induction db H b vis q res used rule: fallback_loop.induct)
  case (2 db H b vis cur depth q res used)
  obtain vis' q' where ex: "fallback_expand db F cur depth (vis, q) = (vis', q')"
    by fastforce
  show ?case
  proof (cases "db_get_node db cur")
    case (Inl e)
    with 2 show ?thesis by (simp split: if_splits)
  next
    case (Inr found)
    show ?thesis
    proof (cases found)
      case None
      with 2 Inr ex show ?thesis by (simp split: if_splits)
    next
      case (Some m)
      consider "3 < depth \<or> (ef_allow H cur cur (Some (node_corpus m)) \<and> b < used + token_cost m)"
        | "\<not> 3 < depth" "\<not> ef_allow H cur cur (Some (node_corpus m))"
        | "\<not> 3 < depth" "ef_allow H cur cur (Some (node_corpus m))" "\<not> b < used + token_cost m"
        by blast
      then show ?thesis
      proof cases
        case 1
        with 2(5,6) Inr Some show ?thesis by (auto split: if_splits)
      next
        case c: 2
        with 2(5) Inr Some have "fallback_loop db H b vis q res used = Inr out" by simp
        with 2(2)[OF c(1) Inr Some c(2) 2(4)] 2(6) show ?thesis by blast
      next
        case c: 3
        with 2(5) Inr Some ex 2(4)
        have "fallback_loop db H b vis' q' (res @ [m]) (used + token_cost m) = Inr out" by simp
        moreover have "(vis', q') = fallback_expand db H cur depth (vis, q)"
          by (simp add: ex 2(4))
        ultimately have "n \<in> set (res @ [m]) \<or> permitted (node_corpus n)"
          using 2(3)[OF c(1) Inr Some _ c(3) _ 2(4) _ 2(6)] c(2) by blast
        with c(2) 2(4) shown show ?thesis by fastforce
      qed
    qed
  qed
qed simp

lemma accessible_ok: "accessible db F i = Inr (Some n) \<Longrightarrow> permitted (node_corpus n)"
  by (auto simp: accessible_def dest: shown split: sum.splits option.splits if_splits)

lemma with_endpoints_set:
  "n \<in> set (with_endpoints s sn t tn res) \<Longrightarrow> n \<in> insert sn (insert tn (set res))"
  by (auto simp: with_endpoints_def Let_def split: if_splits)

lemma pcst_path_ok:
  assumes "pcst_path pg lam db s t F b = Inr out" "n \<in> set out"
  shows "permitted (node_corpus n)"
proof -
  from assms obtain sn tn where ends: "accessible db F s = Inr (Some sn)" "accessible db F t = Inr (Some tn)"
    and run: "(if s = t then Inr [sn] else connect pg lam db s sn t tn F b) = Inr out"
    by (auto simp: pcst_path_def split: sum.splits option.splits)
  define g where "g = expand_local_subgraph db s t F EXPAND_DEPTH"
  define dg where "dg = build_graph (lg_nodes g) (lg_edges g)"
  have ok: "nodes_ok db (lg_nodes g)"
    by (simp add: g_def expand_ok)
  have joined: "ids_ok db (is @ js)" if "ids_ok db is" "ids_ok db js" for "is" js
    using that by (auto simp: ids_ok_def)
  show ?thesis
  proof (cases "s = t")
    case True
    with run assms(2) accessible_ok[OF ends(1)] show ?thesis by auto
  next
    case False
    with run have "connect pg lam db s sn t tn F b = Inr out" by simp
    then consider "bfs_fallback db s F b = Inr out"
      | route cor res where "take_within db b (List.map_filter (idx_to_node dg) route @ corridor dg cor (List.map_filter (idx_to_node dg) route) (pg_dijkstra pg dg (the (node_to_idx dg s)))) [] 0 = Inr res"
        "out = with_endpoints s sn t tn res"
      by (auto simp: connect_def Let_def g_def[symmetric] dg_def[symmetric]
          split: option.splits prod.splits sum.splits)
    then show ?thesis
    proof cases
      case 1
      then have "fallback_loop db F b {s} [(s, 0)] [] 0 = Inr out"
        by (simp add: bfs_fallback_def del: fallback_loop.simps)
      from fallback_loop_ok[OF refl this assms(2)] show ?thesis
        by simp
    next
      case 2
      from take_within_ok[OF joined[OF route_ok[OF ok] corridor_ok[OF ok]] 2(1)[unfolded dg_def]]
      have "\<forall>n\<in>set res. permitted (node_corpus n)" by auto
      moreover have "n \<in> insert sn (insert tn (set res))"
        using with_endpoints_set assms(2) 2(2) by blast
      ultimately show ?thesis
        using accessible_ok[OF ends(1)] accessible_ok[OF ends(2)] by blast
    qed
  qed
qed
definition node_ok :: "'e graph_db \<Rightarrow> node_id \<Rightarrow> bool" where
  "node_ok db i \<longleftrightarrow> (\<exists>n. db_get_node db i = Inr (Some n) \<and> permitted (node_corpus n))"

definition sub_ok :: "'e graph_db \<Rightarrow> node_id set \<Rightarrow> subgraph \<Rightarrow> bool" where
  "sub_ok db seeds g \<longleftrightarrow>
     (\<forall>(u, es)\<in>set (sg_adj g). (u \<in> seeds \<or> node_ok db u) \<and> (\<forall>(v, w)\<in>set es. node_ok db v)) \<and>
     (\<forall>v\<in>sg_reverse g. node_ok db v)"

lemma adj_entry_set: "set (adj_entry u adj) \<subseteq> insert (u, []) (set adj)"
  by (induction u adj rule: adj_entry.induct) auto

lemma adj_entry_ok:
  "sub_ok db seeds g \<Longrightarrow> u \<in> seeds \<or> node_ok db u \<Longrightarrow>
   sub_ok db seeds (g\<lparr>sg_adj := adj_entry u (sg_adj g)\<rparr>)"
  using adj_entry_set[of u "sg_adj g"] by (fastforce simp: sub_ok_def)

lemma fold_entry_ok:
  "sub_ok db seeds g \<Longrightarrow> \<forall>u\<in>set us. u \<in> seeds \<or> node_ok db u \<Longrightarrow>
   sub_ok db seeds (g\<lparr>sg_adj := fold adj_entry us (sg_adj g)\<rparr>)"
proof (induction us arbitrary: g)
  case (Cons u us)
  from Cons(1)[OF adj_entry_ok[OF Cons(2)]] Cons(3) show ?case
    by simp
qed simp

lemma adj_push_ok:
  assumes "sub_ok db seeds g" "u \<in> seeds \<or> node_ok db u" "node_ok db v"
  shows "sub_ok db seeds \<lparr>sg_adj = adj_push u (v, w) (sg_adj g),
     sg_reverse = insert v (sg_reverse g), sg_visited = vis\<rparr>"
proof -
  have "\<forall>(x, es)\<in>set (adj_entry u (sg_adj g)).
      (x \<in> seeds \<or> node_ok db x) \<and> (\<forall>(y, w)\<in>set es. node_ok db y)"
    using adj_entry_ok[OF assms(1,2)] by (simp add: sub_ok_def)
  then have "\<forall>(x, es)\<in>set (adj_push u (v, w) (sg_adj g)).
      (x \<in> seeds \<or> node_ok db x) \<and> (\<forall>(y, w)\<in>set es. node_ok db y)"
    using assms(3) by (force simp: adj_push_def split: if_splits)
  with assms(1,3) show ?thesis
    by (simp add: sub_ok_def)
qed

lemma dst_corpora_ok:
  assumes "db_honest db" "ef_needs_corpus F" "dst_corpora db F es = Inr corpus"
    "ef_allow F s d (corpus d)"
  shows "node_ok db d"
proof -
  from assms(2,3) obtain ns ids where ns: "db_get_nodes db ids = Inr ns"
    and c: "corpus = map_of (rev (map (\<lambda>n. (gn_id n, node_corpus n)) ns))"
    by (auto simp: dst_corpora_def split: sum.splits)
  from fail_closed[OF assms(2)] assms(4) obtain x where x: "corpus d = Some x"
    by (cases "corpus d") auto
  with c obtain n where "n \<in> set ns" "gn_id n = d" "node_corpus n = x"
    by (auto dest!: map_of_SomeD)
  with assms(1) ns shown[of s d x] assms(4) x show ?thesis
    by (auto simp: db_honest_def list_all_iff node_ok_def)
qed

lemma fold_add_weighted_ok:
  assumes "db_honest db" "ef_needs_corpus F" "dst_corpora db F all = Inr corpus"
    "fold (add_weighted F corpus) es (g, next) = (g', next')"
    "sub_ok db seeds g" "\<forall>i\<in>set next. node_ok db i"
    "\<forall>e\<in>set es. ge_src e \<in> seeds \<or> node_ok db (ge_src e)"
  shows "sub_ok db seeds g' \<and> (\<forall>i\<in>set next'. node_ok db i)"
  using assms(4-)
proof (induction es arbitrary: g "next")
  case (Cons e es)
  show ?case
  proof (cases "ef_allow F (ge_src e) (ge_dst e) (corpus (ge_dst e))")
    case True
    from dst_corpora_ok[OF assms(1-3) True] have d: "node_ok db (ge_dst e)" .
    have "sub_ok db seeds (fst (add_weighted F corpus e (g, next)))"
      using adj_push_ok[OF Cons(3) _ d] Cons(5) True by simp
    moreover have "\<forall>i\<in>set (snd (add_weighted F corpus e (g, next))). node_ok db i"
      using Cons(4) d by simp
    ultimately show ?thesis
      using Cons(1)[of "fst (add_weighted F corpus e (g, next))" "snd (add_weighted F corpus e (g, next))"]
        Cons(2,5) by simp
  next
    case False
    with Cons assms(2) show ?thesis by simp
  qed
qed simp

lemma batch_sources:
  "db_honest db \<Longrightarrow> db_edges_from_batch db is = Inr es \<Longrightarrow> e \<in> set es \<Longrightarrow> ge_src e \<in> set is"
  by (induction db "is" arbitrary: es rule: db_edges_from_batch.induct)
    (fastforce simp: db_honest_def list_all_iff split: sum.splits)+

lemma chunk_loop_ok:
  assumes "db_honest db" "ef_needs_corpus F" "chunk_loop db F chs (g, next) = Inr (g', next')"
    "sub_ok db seeds g" "\<forall>i\<in>set next. node_ok db i"
    "\<forall>ch\<in>set chs. \<forall>i\<in>set ch. i \<in> seeds \<or> node_ok db i"
  shows "sub_ok db seeds g' \<and> (\<forall>i\<in>set next'. node_ok db i)"
  using assms(3-)
proof (induction chs arbitrary: g "next")
  case (Cons ch chs)
  from Cons(2) obtain es corpus where es: "db_edges_from_batch db ch = Inr es"
    and corpus: "dst_corpora db F es = Inr corpus"
    by (auto split: sum.splits)
  obtain g1 n1 where f: "fold (add_weighted F corpus) es (g, next) = (g1, n1)"
    by fastforce
  have "\<forall>e\<in>set es. ge_src e \<in> seeds \<or> node_ok db (ge_src e)"
    using batch_sources[OF assms(1) es] Cons(5) by auto
  from fold_add_weighted_ok[OF assms(1,2) corpus f Cons(3,4) this]
  have 1: "sub_ok db seeds g1" "\<forall>i\<in>set n1. node_ok db i" by auto
  define g2 where "g2 = g1\<lparr>sg_adj := fold adj_entry ch (sg_adj g1)\<rparr>"
  have 2: "sub_ok db seeds g2"
    using fold_entry_ok[OF 1(1)] Cons(5) by (simp add: g2_def)
  have run: "(if MAX_SUBGRAPH_NODES < card (sg_visited g2) then Inr (g2, n1) else chunk_loop db F chs (g2, n1))
      = Inr (g', next')"
    using Cons(2) by (simp add: es corpus f Let_def g2_def cong: if_cong split del: if_split)
  show ?case
  proof (cases "MAX_SUBGRAPH_NODES < card (sg_visited g2)")
    case True
    with run 1 2 show ?thesis by simp
  next
    case False
    with run have "chunk_loop db F chs (g2, n1) = Inr (g', next')" by simp
    from Cons(1)[OF this 2 1(2)] Cons(5) show ?thesis by simp
  qed
qed simp

lemma slice_chunks_set: "ch \<in> set (slice_chunks k xs) \<Longrightarrow> x \<in> set ch \<Longrightarrow> x \<in> set xs"
  by (induction k xs rule: slice_chunks.induct) (auto dest: in_set_takeD in_set_dropD)

lemma depth_loop_ok:
  assumes "db_honest db" "ef_needs_corpus F" "depth_loop k db F frontier g = Inr g'"
    "sub_ok db seeds g" "\<forall>i\<in>set frontier. i \<in> seeds \<or> node_ok db i"
  shows "sub_ok db seeds g'"
  using assms(3-)
proof (induction k arbitrary: frontier g)
  case (Suc k)
  show ?case
  proof (cases "chunk_loop db F (slice_chunks EDGE_BATCH_SIZE frontier) (g, [])")
    case (Inl e)
    with Suc show ?thesis by (auto split: if_splits)
  next
    case (Inr r)
    obtain g1 n1 where r: "r = (g1, n1)" by fastforce
    have run: "(if frontier = [] \<or> MAX_SUBGRAPH_NODES \<le> card (sg_visited g) then Inr g
        else if MAX_SUBGRAPH_NODES < card (sg_visited g1) then Inr g1 else depth_loop k db F n1 g1) = Inr g'"
      using Suc(2) unfolding depth_loop.simps Inr r sum.case prod.case .
    have "\<forall>ch\<in>set (slice_chunks EDGE_BATCH_SIZE frontier). \<forall>i\<in>set ch. i \<in> seeds \<or> node_ok db i"
      by (intro ballI) (rule Suc(4)[rule_format, OF slice_chunks_set])
    from chunk_loop_ok[OF assms(1,2) Inr[unfolded r] Suc(3) _ this]
    have ok: "sub_ok db seeds g1" "\<forall>i\<in>set n1. i \<in> seeds \<or> node_ok db i" by simp_all
    from run consider "g' = g" | "g' = g1" | "depth_loop k db F n1 g1 = Inr g'"
      by (metis sum.inject(2))
    then show ?thesis
      using Suc(1)[OF _ ok] Suc(3) ok by cases auto
  qed
qed simp

lemma subgraph_permitted:
  assumes "db_honest db" "ef_needs_corpus F" "build_weighted_subgraph db seeds F = Inr (adj, rev_adj)"
  shows "(\<forall>(u, es)\<in>set adj. (u \<in> set seeds \<or> node_ok db u) \<and> (\<forall>(v, w)\<in>set es. node_ok db v))
     \<and> (\<forall>v\<in>rev_adj. node_ok db v)"
proof -
  from assms(3) obtain g where d: "depth_loop PPR_BFS_DEPTH db F (rev (remdups (rev seeds)))
        \<lparr>sg_adj = [], sg_reverse = {}, sg_visited = set seeds\<rparr> = Inr g"
    and g: "adj = sg_adj g" "rev_adj = sg_reverse g"
    by (auto simp: build_weighted_subgraph_def split: sum.splits)
  have "sub_ok db (set seeds) g"
    by (rule depth_loop_ok[OF assms(1,2) d]) (simp_all add: sub_ok_def)
  with g show ?thesis
    by (simp add: sub_ok_def)
qed

end

interpretation open_gate: edge_gate open_filter "\<lambda>c. True"
  by unfold_locales (simp_all add: open_filter_def)

subsection \<open>Denied nodes leave no trace\<close>

text \<open>The store without the nodes that are not permitted and without their edges.\<close>

definition node_visible :: "(string \<Rightarrow> bool) \<Rightarrow> 'e graph_db \<Rightarrow> node_id \<Rightarrow> bool" where
  "node_visible P db i =
     (case db_get_node db i of Inr (Some n) \<Rightarrow> P (node_corpus n) | _ \<Rightarrow> False)"

definition keep_edges :: "(node_id \<Rightarrow> bool) \<Rightarrow> (gedge \<Rightarrow> node_id) \<Rightarrow> ('e, gedge list) rust_result
    \<Rightarrow> ('e, gedge list) rust_result" where
  "keep_edges ok end r = (case r of Inl e \<Rightarrow> Inl e | Inr es \<Rightarrow> Inr (filter (\<lambda>e. ok (end e)) es))"

definition hide :: "(string \<Rightarrow> bool) \<Rightarrow> 'e graph_db \<Rightarrow> 'e graph_db" where
  "hide P db =
     (let ok = node_visible P db
      in \<lparr>db_get_node = (\<lambda>i. case db_get_node db i of
             Inl e \<Rightarrow> Inl e
           | Inr found \<Rightarrow> Inr (if ok i then found else None)),
          db_get_nodes = (\<lambda>is. case db_get_nodes db is of
             Inl e \<Rightarrow> Inl e
           | Inr ns \<Rightarrow> Inr (filter (\<lambda>n. P (node_corpus n)) ns)),
          db_edges_from = (\<lambda>i. if ok i then keep_edges ok ge_dst (db_edges_from db i) else Inr []),
          db_edges_to = (\<lambda>i. if ok i then keep_edges ok ge_src (db_edges_to db i) else Inr [])\<rparr>)"

lemma hide_get_node:
  "db_get_node (hide P db) i = (case db_get_node db i of
     Inl e \<Rightarrow> Inl e | Inr found \<Rightarrow> Inr (if node_visible P db i then found else None))"
  by (simp add: hide_def Let_def)

lemma hide_visible: "node_visible P db i \<Longrightarrow> db_get_node (hide P db) i = db_get_node db i"
  by (auto simp: hide_get_node split: sum.splits)

lemma keep_edges_or: "result_or [] (keep_edges ok f r) = filter (\<lambda>e. ok (f e)) (result_or [] r)"
  by (cases r) (simp_all add: keep_edges_def)

lemma hide_edges:
  "node_visible P db i \<Longrightarrow> result_or [] (db_edges_from (hide P db) i)
     = filter (\<lambda>e. node_visible P db (ge_dst e)) (result_or [] (db_edges_from db i))"
  "node_visible P db i \<Longrightarrow> result_or [] (db_edges_to (hide P db) i)
     = filter (\<lambda>e. node_visible P db (ge_src e)) (result_or [] (db_edges_to db i))"
  by (simp_all add: hide_def Let_def keep_edges_or)

lemma hide_hops:
  "node_visible P db c \<Longrightarrow> fwd_hops (hide P db) c = filter (\<lambda>h. node_visible P db (fst (snd h))) (fwd_hops db c)"
  "node_visible P db c \<Longrightarrow> rev_hops (hide P db) c = filter (\<lambda>h. node_visible P db (fst (snd h))) (rev_hops db c)"
  by (simp_all add: fwd_hops_def rev_hops_def hide_edges filter_map comp_def)

locale corpus_gate = edge_gate +
  assumes needs: "ef_needs_corpus F"
begin

lemma visible_iff: "node_visible permitted db i \<longleftrightarrow> node_ok db i"
  by (auto simp: node_visible_def node_ok_def split: sum.splits option.splits)

lemma nodes_ok_mem: "nodes_ok db nodes \<Longrightarrow> map_of nodes i = Some n \<Longrightarrow> node_ok db i"
  by (auto simp: nodes_ok_def node_ok_def dest!: map_of_SomeD)

lemma known_corpus_denied:
  assumes "nodes_ok db nodes" "\<not> node_ok db i"
  shows "\<not> ef_allow F s d (known_corpus db nodes i)"
proof (cases "result_ok (db_get_node db i)")
  case None
  with assms nodes_ok_mem fail_closed[OF needs] show ?thesis
    by (fastforce simp: known_corpus_def split: option.splits)
next
  case (Some n)
  then have "db_get_node db i = Inr (Some n)"
    by (cases "db_get_node db i") auto
  with assms nodes_ok_mem Some shown show ?thesis
    by (fastforce simp: known_corpus_def node_ok_def split: option.splits)
qed

lemma known_corpus_hide:
  "node_ok db i \<Longrightarrow> known_corpus (hide permitted db) nodes i = known_corpus db nodes i"
  by (simp add: known_corpus_def hide_visible visible_iff split: option.splits)

lemma include_node_hide: "node_ok db i \<Longrightarrow> include_node (hide permitted db) F i g = include_node db F i g"
  by (simp add: include_node_def hide_visible visible_iff)

abbreviation queue_ok :: "'e graph_db \<Rightarrow> (node_id \<times> nat) list \<Rightarrow> bool" where
  "queue_ok db q \<equiv> \<forall>(i, d)\<in>set q. node_ok db i"

lemma fold_cross_hide:
  "nodes_ok db (lg_nodes g) \<Longrightarrow> queue_ok db q \<Longrightarrow>
   fold (cross db F m d) hs (g, vis, q) = (g', vis', q') \<Longrightarrow>
   fold (cross (hide permitted db) F m d) (filter (\<lambda>h. node_ok db (fst (snd h))) hs) (g, vis, q) = (g', vis', q')
     \<and> queue_ok db q'"
proof (induction hs arbitrary: g vis q)
  case (Cons h hs)
  obtain sd nb k where h: "h = (sd, nb, k)" by (metis prod_cases3)
  obtain g1 v1 q1 where c: "cross db F m d h (g, vis, q) = (g1, v1, q1)" by (metis prod_cases3)
  show ?case
  proof (cases "node_ok db nb")
    case True
    have "cross (hide permitted db) F m d h (g, vis, q) = (g1, v1, q1)"
      using c True by (simp add: h known_corpus_hide)
    moreover have "queue_ok db q1"
      using c True Cons(3) by (auto simp: h split: if_splits)
    moreover have "nodes_ok db (lg_nodes g1)"
      using Cons(2) cross_nodes[OF c] by simp
    ultimately show ?thesis
      using Cons(1)[of g1 q1 v1] Cons(4) c True by (simp add: h del: cross.simps)
  next
    case False
    with known_corpus_denied[OF Cons(2) False] c have "g1 = g" "v1 = vis" "q1 = q"
      by (simp_all add: h)
    with Cons c False show ?thesis
      by (simp add: h del: cross.simps)
  qed
qed simp

lemma expand_loop_hide:
  "H = F \<Longrightarrow> nodes_ok db (lg_nodes g) \<Longrightarrow> queue_ok db q \<Longrightarrow>
   (\<And>c. node_ok db c \<Longrightarrow> hops' c = filter (\<lambda>h. node_ok db (fst (snd h))) (hops c)) \<Longrightarrow>
   expand_loop (hide permitted db) H m cap hops' g vis q = expand_loop db H m cap hops g vis q"
proof (induction db H m cap hops g vis q rule: expand_loop.induct)
  case (2 db H m cap hops g vis cur depth q)
  have cur: "node_ok db cur" and q: "queue_ok db q"
    using 2(4) by auto
  obtain g' vis' q' where f: "fold (cross db F m depth) (hops cur) (include_node db F cur g, vis, q) = (g', vis', q')"
    by (metis prod_cases3)
  have ok: "nodes_ok db (lg_nodes (include_node db F cur g))"
    by (rule include_node_ok[OF 2(3)])
  note f' = fold_cross_hide[OF ok q f]
  have "nodes_ok db (lg_nodes g')"
    using fold_cross_nodes[OF f] ok by simp
  then show ?case
    using 2(1)[OF _ f[symmetric, folded 2(2)] refl 2(2) _ _ 2(5)] f f' 2(2) 2(5)[OF cur] cur
    by (simp add: include_node_hide)
qed simp

lemma expand_hide:
  assumes "node_ok db s" "node_ok db t"
  shows "expand_local_subgraph (hide permitted db) s t F m = expand_local_subgraph db s t F m"
proof -
  have 0: "nodes_ok db []"
    by (simp add: nodes_ok_def)
  define g0 where "g0 = fold (include_node db F) [s, t] \<lparr>lg_nodes = [], lg_edges = [], lg_edge_set = {}\<rparr>"
  have ok0: "nodes_ok db (lg_nodes g0)"
    using 0 by (simp add: g0_def include_node_ok)
  have eq0: "fold (include_node (hide permitted db) F) [s, t] \<lparr>lg_nodes = [], lg_edges = [], lg_edge_set = {}\<rparr> = g0"
    using assms by (simp add: g0_def include_node_hide)
  define g1 where "g1 = expand_loop db F m (MAX_LOCAL_NODES div 2) (fwd_hops db) g0 {s} [(s, 0)]"
  have eq1: "expand_loop (hide permitted db) F m (MAX_LOCAL_NODES div 2) (fwd_hops (hide permitted db)) g0 {s} [(s, 0)] = g1"
    unfolding g1_def using assms
    by (intro expand_loop_hide[OF refl ok0]) (simp_all add: hide_hops visible_iff)
  have ok1: "nodes_ok db (lg_nodes g1)"
    unfolding g1_def by (rule expand_loop_ok[OF refl ok0])
  have "expand_loop (hide permitted db) F m MAX_LOCAL_NODES (rev_hops (hide permitted db)) g1 {t} [(t, 0)]
      = expand_loop db F m MAX_LOCAL_NODES (rev_hops db) g1 {t} [(t, 0)]"
    using assms by (intro expand_loop_hide[OF refl ok1]) (simp_all add: hide_hops visible_iff)
  then show ?thesis
    unfolding expand_local_subgraph_def Let_def eq0 eq1 g0_def[symmetric] g1_def[symmetric] .
qed

lemma take_within_hide:
  "ids_ok db is \<Longrightarrow> take_within (hide permitted db) b is res used = take_within db b is res used"
proof (induction db b "is" res used rule: take_within.induct)
  case (2 db b i "is" res used)
  then have i: "node_ok db i" and "ids_ok db is"
    by (auto simp: ids_ok_def node_ok_def)
  then obtain n where "db_get_node db i = Inr (Some n)" "db_get_node (hide permitted db) i = Inr (Some n)"
    by (auto simp: node_ok_def hide_visible visible_iff)
  with 2 \<open>ids_ok db is\<close> show ?case
    by simp
qed simp

lemma accessible_hide: "accessible (hide permitted db) F i = accessible db F i"
  by (auto simp: accessible_def hide_get_node node_visible_def dest: shown
      split: sum.splits option.splits if_splits)

lemma accessible_visible: "accessible db F i = Inr (Some n) \<Longrightarrow> node_ok db i"
  by (auto simp: accessible_def node_ok_def dest: shown split: sum.splits option.splits if_splits)
lemma fallback_fold_hide:
  assumes cur: "node_ok db cur" and q: "queue_ok db q"
    and f: "fold (fallback_step db F cur d) es (vis, q) = (vis', q')"
  shows "fold (fallback_step (hide permitted db) F cur d) (filter (\<lambda>e. node_ok db (ge_dst e)) es) (vis, q)
     = (vis', q') \<and> queue_ok db q'"
  using q f
proof (induction es arbitrary: vis q)
  case (Cons e es)
  obtain v1 q1 where s: "fallback_step db F cur d e (vis, q) = (v1, q1)" by fastforce
  show ?case
  proof (cases "node_ok db (ge_dst e)")
    case True
    then have "fallback_step (hide permitted db) F cur d e (vis, q) = (v1, q1)"
      using s by (simp add: fallback_step_def hide_visible visible_iff)
    moreover have "queue_ok db q1"
      using s True Cons(2) by (auto simp: fallback_step_def split: if_splits)
    ultimately show ?thesis
      using Cons s True by simp
  next
    case False
    have "map_option node_corpus (result_ok (db_get_node db (ge_dst e))) = known_corpus db [] (ge_dst e)"
      by (simp add: known_corpus_def)
    with known_corpus_denied[of db "[]", OF _ False] s have "v1 = vis" "q1 = q"
      by (simp_all add: fallback_step_def nodes_ok_def)
    with Cons s False show ?thesis by simp
  qed
qed simp

lemma fallback_expand_hide:
  "node_ok db cur \<Longrightarrow> queue_ok db q \<Longrightarrow> fallback_expand db F cur d (vis, q) = (vis', q') \<Longrightarrow>
   fallback_expand (hide permitted db) F cur d (vis, q) = (vis', q') \<and> queue_ok db q'"
  using fallback_fold_hide[of db cur q d _ vis vis' q']
  by (auto simp: fallback_expand_def hide_edges visible_iff split: if_splits)

lemma fallback_loop_hide:
  "H = F \<Longrightarrow> queue_ok db q \<Longrightarrow>
   fallback_loop (hide permitted db) H b vis q res used = fallback_loop db H b vis q res used"
proof (induction db H b vis q res used rule: fallback_loop.induct)
  case (2 db H b vis cur depth q res used)
  have cur: "node_ok db cur" and q: "queue_ok db q"
    using 2(5) by auto
  then obtain n where n: "db_get_node db cur = Inr (Some n)"
    by (auto simp: node_ok_def)
  then have n': "db_get_node (hide permitted db) cur = Inr (Some n)"
    using cur by (simp add: hide_visible visible_iff)
  obtain vis' q' where ex: "fallback_expand db F cur depth (vis, q) = (vis', q')" by fastforce
  note ex' = fallback_expand_hide[OF cur q ex]
  show ?case
  proof (cases "3 < depth \<or> \<not> ef_allow F cur cur (Some (node_corpus n)) \<or> b < used + token_cost n")
    case True
    with 2(2)[OF _ n refl _ 2(4) q] n n' 2(4) show ?thesis by auto
  next
    case False
    with 2(3)[OF _ n refl _ _ ex[symmetric, folded 2(4)] 2(4)] n n' ex ex' 2(4) show ?thesis
      by simp
  qed
qed simp

lemma connect_hide:
  assumes "node_ok db s" "node_ok db t"
  shows "connect pg lam (hide permitted db) s sn t tn F b = connect pg lam db s sn t tn F b"
proof -
  define g where "g = expand_local_subgraph db s t F EXPAND_DEPTH"
  have ok: "nodes_ok db (lg_nodes g)"
    by (simp add: g_def expand_ok)
  have joined: "ids_ok db (is @ js)" if "ids_ok db is" "ids_ok db js" for "is" js
    using that by (auto simp: ids_ok_def)
  have fallback: "bfs_fallback (hide permitted db) s F b = bfs_fallback db s F b"
    unfolding bfs_fallback_def by (rule fallback_loop_hide[OF refl]) (use assms(1) in simp)
  show ?thesis
    unfolding connect_def expand_hide[OF assms] g_def[symmetric] fallback Let_def
      take_within_hide[OF joined[OF route_ok[OF ok] corridor_ok[OF ok]]] ..
qed

lemma pcst_path_hide: "pcst_path pg lam (hide permitted db) s t F b = pcst_path pg lam db s t F b"
  by (auto simp: pcst_path_def accessible_hide intro: connect_hide accessible_visible
      split: sum.splits option.splits)

end

interpretation rbac: corpus_gate "rbac_filter allowed" "\<lambda>c. c \<in> allowed" for allowed
  by unfold_locales (simp_all add: rbac_filter_def)

subsection \<open>What a caller limited to some corpora can learn\<close>

definition in_corpora :: "string set \<Rightarrow> 'e graph_db \<Rightarrow> node_id \<Rightarrow> bool" where
  "in_corpora allowed db i = node_visible (\<lambda>c. c \<in> allowed) db i"

lemma in_corpora_iff: "in_corpora allowed db i \<longleftrightarrow> rbac.node_ok allowed db i"
  by (simp add: in_corpora_def rbac.visible_iff)

text \<open>
  C10: With an RBAC filter no node of a path answer is of a corpus that was not allowed, whatever the
  route search answers and however the store is linked.
\<close>

theorem pcst_path_confined:
  "case pcst_path pg lam db source sink (rbac_filter allowed) budget of
     Inl e \<Rightarrow> True
   | Inr out \<Rightarrow> list_all (\<lambda>n. node_corpus n \<in> allowed) out"
  using rbac.pcst_path_ok by (fastforce simp: list_all_iff split: sum.splits)

text \<open>
  C11: A path query answers exactly what it would answer on the store from which every node of another
  corpus had been deleted with its edges: a denied node cannot be told from a missing one, by the
  nodes returned, by their order, by the budget spent or by an error.
\<close>

theorem pcst_path_blind:
  "pcst_path pg lam db source sink (rbac_filter allowed) budget =
   pcst_path pg lam (hide (\<lambda>c. c \<in> allowed) db) source sink (rbac_filter allowed) budget"
  by (rule rbac.pcst_path_hide[symmetric])

text \<open>
  Every destination in the subgraph that PageRank walks is a stored node of an allowed corpus, and
  every other id that has an entry is one of the seeds.
\<close>

lemma subgraph_confined:
  assumes "db_honest db" "build_weighted_subgraph db seeds (rbac_filter allowed) = Inr (adj, rev_adj)"
  shows "list_all (\<lambda>(u, es). (u \<in> set seeds \<or> in_corpora allowed db u) \<and>
           list_all (\<lambda>(v, w). in_corpora allowed db v) es) adj \<and> (rev_adj \<subseteq> {v. in_corpora allowed db v})"
  using rbac.subgraph_permitted[OF assms(1) rbac.needs assms(2)]
  by (force simp: in_corpora_iff list_all_iff)

lemma PPR_BFS_DEPTH_Suc: "PPR_BFS_DEPTH = Suc (Suc (Suc (Suc (Suc (Suc 0)))))"
  by (simp add: PPR_BFS_DEPTH_def)

lemma subgraph_sample:
  "build_weighted_subgraph sample_db [1] (rbac_filter {''own''}) = Inr ([(1, [(2, 1)]), (2, [])], {2})"
  by (simp add: build_weighted_subgraph_def PPR_BFS_DEPTH_Suc MAX_SUBGRAPH_NODES_def
      EDGE_BATCH_SIZE_def sample_db_def sample_node_def dst_corpora_def rbac_filter_def Let_def
      List.map_filter_def adj_push_def)

lemma subgraph_confined_witness:
  "list_all (\<lambda>(u, es). (u \<in> set [1] \<or> in_corpora {''own''} sample_db u) \<and>
     list_all (\<lambda>(v, w). in_corpora {''own''} sample_db v) es) [(1, [(2, 1 :: rat)]), (2, [])]"
  using subgraph_confined[OF sample_db_honest subgraph_sample] by blast

text \<open>The comment on \<open>pcst_path\<close> promises both end points whenever they exist and are accessible. The
  breadth-first fallback does not keep the promise: in the sample store nothing leads from node 2 to
  node 3, so no route search can find one, and node 3 is not in the answer.\<close>

definition no_route :: petgraph where
  "no_route = \<lparr>pg_dijkstra = (\<lambda>g s. [(s, 0)]), pg_astar = (\<lambda>g s d. None)\<rparr>"

lemma fallback_drops_sink:
  "pcst_path no_route (1/2) sample_db 2 3 open_filter 100 = Inr [sample_node 2 ''own'']"
  by (simp add: pcst_path_def accessible_def connect_def expand_local_subgraph_def Let_def no_route_def
      include_node_def known_corpus_def fwd_hops_def rev_hops_def sample_db_def sample_node_def
      open_filter_def add_edge_def MAX_LOCAL_NODES_def EXPAND_DEPTH_def build_graph_def node_to_idx_def
      List.map_filter_def bfs_fallback_def fallback_expand_def fallback_step_def token_cost_def
      TOKEN_CHARS_PER_TOKEN_def split: option.splits)

end
