(* ===== verification/Mcp_Access.thy ===== *)
theory Mcp_Access
  imports Retrieval_Graph
begin

section \<open>Who may ask: bearer tokens and sessions\<close>

text \<open>
  \<open>crates/travsr-mcp/src/auth.rs\<close> and \<open>session.rs\<close>: the verification of a bearer token, the signing
  keys, the HTTP status of an error, the session ids and the session store with its lazy and its
  periodic expiry. Base64 and HMAC-SHA256 are the arguments \<open>b64\<close> and \<open>mac_ok\<close>, the clock and the
  random ids are arguments of the operations. An error text is the name of the text. The store is an
  association list; an \<open>Instant\<close> is a natural number.
\<close>

subsection \<open>Bearer tokens\<close>

datatype token_scope = McpScope | MetricsScope

datatype token_fault = MissingDot | MacBase64 | FieldCount | TenantBase64 | TenantUtf8 | TimestampParse

datatype auth_error = MissingHeader | BadHeaderFormat | BadTokenFormat token_fault
  | InvalidTenantId string | TokenExpired | BadMac | UnknownScope string
  | InsufficientScope string string | NoSigningKeys

record verified_token =
  vt_tenant_id :: string
  vt_scope :: token_scope

definition TIMESTAMP_WINDOW :: nat where "TIMESTAMP_WINDOW = 60"

definition is_valid_tenant_id :: "string \<Rightarrow> bool" where
  "is_valid_tenant_id s \<longleftrightarrow>
     (if s = [] \<or> 64 < length s then False
      else list_all (\<lambda>c. is_ascii_lower c \<or> is_ascii_digit c \<or> c = CHR ''-'') s)"

text \<open>\<open>payload.splitn(3, ':')\<close>, when it has three parts.\<close>

definition three_fields :: "string \<Rightarrow> (string \<times> string \<times> string) option" where
  "three_fields p =
     (case split_once (CHR '':'') p of
        None \<Rightarrow> None
      | Some (a, r) \<Rightarrow> (case split_once (CHR '':'') r of
            None \<Rightarrow> None | Some (b, c) \<Rightarrow> Some (a, b, c)))"

definition parse_scope :: "string \<Rightarrow> token_scope option" where
  "parse_scope s = (if s = ''mcp'' then Some McpScope else if s = ''metrics'' then Some MetricsScope else None)"

definition abs_diff :: "nat \<Rightarrow> nat \<Rightarrow> nat" where
  "abs_diff a b = (if a < b then b - a else a - b)"

definition verify_token :: "(string \<Rightarrow> string option) \<Rightarrow> ('k \<Rightarrow> string \<Rightarrow> string \<Rightarrow> bool) \<Rightarrow> nat \<Rightarrow> string
    \<Rightarrow> 'k list \<Rightarrow> (auth_error, verified_token) rust_result" where
  "verify_token b64 mac_ok now token signing_keys =
     (if signing_keys = [] then Inl NoSigningKeys
      else case rsplit_once (CHR ''.'') token of
        None \<Rightarrow> Inl (BadTokenFormat MissingDot)
      | Some (payload, mac_b64) \<Rightarrow>
      (case b64 mac_b64 of
        None \<Rightarrow> Inl (BadTokenFormat MacBase64)
      | Some mac_bytes \<Rightarrow>
      (case three_fields payload of
        None \<Rightarrow> Inl (BadTokenFormat FieldCount)
      | Some (tenant_b64, scope_str, unix_ts_str) \<Rightarrow>
      (case b64 tenant_b64 of
        None \<Rightarrow> Inl (BadTokenFormat TenantBase64)
      | Some tenant_id \<Rightarrow>
        if \<not> utf8_ok tenant_id then Inl (BadTokenFormat TenantUtf8)
        else if \<not> is_valid_tenant_id tenant_id then Inl (InvalidTenantId tenant_id)
        else (case parse_scope scope_str of
          None \<Rightarrow> Inl (UnknownScope scope_str)
        | Some scope \<Rightarrow>
        (case parse_uint u64_max unix_ts_str of
          None \<Rightarrow> Inl (BadTokenFormat TimestampParse)
        | Some unix_ts \<Rightarrow>
          if TIMESTAMP_WINDOW < abs_diff now unix_ts then Inl TokenExpired
          else if \<not> list_ex (\<lambda>key. mac_ok key payload mac_bytes) signing_keys then Inl BadMac
          else Inr \<lparr>vt_tenant_id = tenant_id, vt_scope = scope\<rparr>))))))"

fun auth_error_status :: "auth_error \<Rightarrow> nat" where
  "auth_error_status MissingHeader = 401"
| "auth_error_status BadMac = 401"
| "auth_error_status TokenExpired = 401"
| "auth_error_status BadHeaderFormat = 400"
| "auth_error_status (BadTokenFormat f) = 400"
| "auth_error_status (InvalidTenantId t) = 403"
| "auth_error_status (InsufficientScope r g) = 403"
| "auth_error_status (UnknownScope s) = 403"
| "auth_error_status NoSigningKeys = 500"

subsection \<open>Signing keys\<close>

datatype key_error = KeyLength nat | KeyUtf8 | KeyHex nat | VaultUnsupported | NoKeyConfigured

fun hex_digit :: "char \<Rightarrow> nat option" where
  "hex_digit b =
     (if is_ascii_digit b then Some (byte b - 48)
      else if 97 \<le> byte b \<and> byte b \<le> 102 then Some (byte b - 97 + 10)
      else if 65 \<le> byte b \<and> byte b \<le> 70 then Some (byte b - 65 + 10)
      else None)"

fun radix16_digits :: "nat \<Rightarrow> string \<Rightarrow> nat option" where
  "radix16_digits acc [] = Some acc"
| "radix16_digits acc (c # s) =
     (case hex_digit c of None \<Rightarrow> None
      | Some d \<Rightarrow> if acc * 16 + d < 256 then radix16_digits (acc * 16 + d) s else None)"

text \<open>\<open>u8::from_str_radix(s, 16)\<close>: one leading plus sign is accepted before a digit.\<close>

definition u8_from_radix16 :: "string \<Rightarrow> nat option" where
  "u8_from_radix16 s =
     (case s of [] \<Rightarrow> None
      | c # t \<Rightarrow> if c = CHR ''+'' \<and> t \<noteq> [] then radix16_digits 0 t else radix16_digits 0 s)"

fun hex_pairs :: "string \<Rightarrow> string list" where
  "hex_pairs (a # b # s) = [a, b] # hex_pairs s"
| "hex_pairs [a] = [[a]]"
| "hex_pairs [] = []"

fun decode_key :: "nat \<Rightarrow> string list \<Rightarrow> (key_error, string) rust_result" where
  "decode_key i [] = Inr []"
| "decode_key i (ch # chs) =
     (if \<not> utf8_ok ch then Inl KeyUtf8
      else case u8_from_radix16 ch of
        None \<Rightarrow> Inl (KeyHex i)
      | Some n \<Rightarrow> (case decode_key (Suc i) chs of Inl e \<Rightarrow> Inl e | Inr bs \<Rightarrow> Inr (char_of n # bs)))"

definition fetch_signing_keys :: "string option \<Rightarrow> string option \<Rightarrow> (key_error, string list) rust_result" where
  "fetch_signing_keys signing_key_hex vault_ocid =
     (case signing_key_hex of
        Some raw \<Rightarrow>
          (let hex = trim raw
           in if length hex \<noteq> 64 then Inl (KeyLength (length hex))
              else case decode_key 0 (hex_pairs hex) of Inl e \<Rightarrow> Inl e | Inr key \<Rightarrow> Inr [key])
      | None \<Rightarrow> if vault_ocid \<noteq> None then Inl VaultUnsupported else Inl NoKeyConfigured)"

subsection \<open>Session ids\<close>

definition hex_char :: "nat \<Rightarrow> char" where
  "hex_char d = char_of (if d < 10 then 48 + d else 87 + d)"

text \<open>\<open>format!("{b:02x}")\<close>.\<close>

definition hex2 :: "char \<Rightarrow> string" where
  "hex2 b = [hex_char (byte b div 16), hex_char (byte b mod 16)]"

definition to_hex :: "string \<Rightarrow> string" where
  "to_hex bs = concat (map hex2 bs)"

definition hex_nibble :: "char \<Rightarrow> nat option" where
  "hex_nibble b =
     (if 48 \<le> byte b \<and> byte b \<le> 57 then Some (byte b - 48)
      else if 97 \<le> byte b \<and> byte b \<le> 102 then Some (byte b - 97 + 10)
      else if 65 \<le> byte b \<and> byte b \<le> 70 then Some (byte b - 65 + 10)
      else None)"

text \<open>The nibbles are below 16, so \<open>(hi << 4) | lo\<close> is \<open>16 * hi + lo\<close>.\<close>

fun nibble_pairs :: "string \<Rightarrow> string option" where
  "nibble_pairs (a # b # s) =
     (case (hex_nibble a, hex_nibble b) of
        (Some hi, Some lo) \<Rightarrow> map_option (\<lambda>r. char_of (16 * hi + lo) # r) (nibble_pairs s)
      | _ \<Rightarrow> None)"
| "nibble_pairs [] = Some []"
| "nibble_pairs [a] = None"

definition from_hex :: "string \<Rightarrow> string option" where
  "from_hex hex = (if length hex \<noteq> 64 then None else nibble_pairs hex)"

definition session_id_log_hash :: "(string \<Rightarrow> string) \<Rightarrow> string \<Rightarrow> string" where
  "session_id_log_hash blake bs = ''session:'' @ concat (map hex2 (take 8 (blake bs)))"

subsection \<open>The session store\<close>

record session =
  ss_id :: string
  ss_corpora :: "string set"
  ss_expires_at :: nat

definition is_expired :: "nat \<Rightarrow> session \<Rightarrow> bool" where
  "is_expired now s \<longleftrightarrow> ss_expires_at s < now"

definition session_filter :: "session \<Rightarrow> edge_filter" where
  "session_filter s = rbac_filter (ss_corpora s)"

definition DEFAULT_SESSION_TTL :: nat where "DEFAULT_SESSION_TTL = 24 * 60 * 60"

type_synonym session_store = "(string \<times> session) list"

definition store_remove :: "string \<Rightarrow> session_store \<Rightarrow> session_store" where
  "store_remove i st = filter (\<lambda>(k, s). k \<noteq> i) st"

definition session_create :: "string \<Rightarrow> string set \<Rightarrow> nat \<Rightarrow> nat \<Rightarrow> session_store \<Rightarrow> session \<times> session_store" where
  "session_create fresh corpora ttl now st =
     (let s = \<lparr>ss_id = fresh, ss_corpora = corpora, ss_expires_at = now + ttl\<rparr>
      in (s, (fresh, s) # store_remove fresh st))"

definition session_get :: "string \<Rightarrow> nat \<Rightarrow> session_store \<Rightarrow> session option \<times> session_store" where
  "session_get i now st =
     (case map_of st i of
        None \<Rightarrow> (None, st)
      | Some s \<Rightarrow> if is_expired now s then (None, store_remove i st) else (Some s, st))"

definition session_revoke :: "string \<Rightarrow> session_store \<Rightarrow> session_store" where
  "session_revoke i st = store_remove i st"

definition evict_expired :: "nat \<Rightarrow> session_store \<Rightarrow> session_store" where
  "evict_expired now st = filter (\<lambda>(k, s). now < ss_expires_at s) st"

definition active_count :: "session_store \<Rightarrow> nat" where
  "active_count st = length st"

text \<open>The calls a server makes, in any order and with any clock readings.\<close>

datatype session_op = Create string "string set" nat nat | Get string nat | Revoke string | Evict nat

fun session_step :: "session_op \<Rightarrow> session_store \<Rightarrow> session_store" where
  "session_step (Create i corpora ttl now) st = snd (session_create i corpora ttl now st)"
| "session_step (Get i now) st = snd (session_get i now st)"
| "session_step (Revoke i) st = session_revoke i st"
| "session_step (Evict now) st = evict_expired now st"

text \<open>The contract: what becomes of one id, by the calls that concern it.\<close>

fun id_step :: "string \<Rightarrow> session_op \<Rightarrow> session option \<Rightarrow> session option" where
  "id_step i (Create j corpora ttl now) cur =
     (if i = j then Some \<lparr>ss_id = i, ss_corpora = corpora, ss_expires_at = now + ttl\<rparr> else cur)"
| "id_step i (Get j now) cur =
     (if i = j then (case cur of Some s \<Rightarrow> if ss_expires_at s < now then None else cur | None \<Rightarrow> None) else cur)"
| "id_step i (Revoke j) cur = (if i = j then None else cur)"
| "id_step i (Evict now) cur = (case cur of Some s \<Rightarrow> if ss_expires_at s \<le> now then None else cur | None \<Rightarrow> None)"

definition session_of :: "string \<Rightarrow> session_op list \<Rightarrow> session option" where
  "session_of i ops = fold (id_step i) ops None"

definition store_after :: "session_op list \<Rightarrow> session_store" where
  "store_after ops = fold session_step ops []"

subsection \<open>Lemmas\<close>

lemma map_of_filter_snd:
  "distinct (map fst st) \<Longrightarrow> map_of (filter (\<lambda>(k, s). P k s) st) i
     = (case map_of st i of Some s \<Rightarrow> if P i s then Some s else None | None \<Rightarrow> None)"
proof (induction st)
  case (Cons e st)
  obtain k s where e: "e = (k, s)" by fastforce
  have "map_of st k = None" if "distinct (map fst (e # st))"
    using that by (auto simp: e map_of_eq_None_iff)
  with Cons e show ?case
    by (auto split: option.splits)
qed simp

lemma distinct_filter_keys: "distinct (map fst st) \<Longrightarrow> distinct (map fst (filter P st))"
  by (induction st) auto

lemma session_step_refines:
  assumes "distinct (map fst st)"
  shows "distinct (map fst (session_step oper st)) \<and>
    map_of (session_step oper st) i = id_step i oper (map_of st i)"
  using assms
  by (cases oper)
    (auto simp: session_create_def session_get_def session_revoke_def evict_expired_def store_remove_def
      is_expired_def Let_def map_of_filter_snd distinct_filter_keys not_less split: option.splits)

lemma store_after_refines:
  "distinct (map fst (store_after ops)) \<and> map_of (store_after ops) i = session_of i ops"
proof (induction ops rule: rev_induct)
  case (snoc oper ops)
  with session_step_refines[of "store_after ops" oper i] show ?case
    by (simp add: store_after_def session_of_def)
qed (simp add: store_after_def session_of_def)

lemma active_count_dom: "distinct (map fst st) \<Longrightarrow> active_count st = card (dom (map_of st))"
  using distinct_card[of "map fst st"] by (simp add: active_count_def dom_map_of_conv_image_fst)

text \<open>
  C14: After any sequence of calls the store refines the contract of every single id: a lookup serves the
  session the contract holds, exactly up to its expiry, and the count is that of the ids that have a
  session.
\<close>

theorem session_store_refines:
  "fst (session_get i now (store_after ops))
     = (case session_of i ops of
          Some s \<Rightarrow> if now \<le> ss_expires_at s then Some s else None
        | None \<Rightarrow> None) \<and>
   active_count (store_after ops) = card {j. session_of j ops \<noteq> None}"
proof -
  have "dom (map_of (store_after ops)) = {j. session_of j ops \<noteq> None}"
    using store_after_refines by (auto simp: dom_def)
  with active_count_dom[of "store_after ops"] store_after_refines[of ops i] show ?thesis
    by (auto simp: session_get_def is_expired_def not_less split: option.splits)
qed

text \<open>The two expiry tests disagree at the very instant of expiry: a lookup still serves the session,
  the periodic sweep already drops it.\<close>

lemma expiry_instant:
  "fst (session_get i (now + ttl) (snd (session_create i c ttl now []))) \<noteq> None \<and>
   evict_expired (now + ttl) (snd (session_create i c ttl now [])) = []"
  by (simp add: session_create_def session_get_def evict_expired_def is_expired_def store_remove_def Let_def)

subsection \<open>What an accepted token is\<close>

lemma three_fields_Some:
  "three_fields p = Some (a, b, c) \<longleftrightarrow>
     p = a @ CHR '':'' # b @ CHR '':'' # c \<and> CHR '':'' \<notin> set a \<and> CHR '':'' \<notin> set b"
proof -
  have "three_fields p = Some (a, b, c) \<longleftrightarrow>
      (\<exists>r. split_once (CHR '':'') p = Some (a, r) \<and> split_once (CHR '':'') r = Some (b, c))"
    by (auto simp: three_fields_def split: option.splits)
  then show ?thesis
    by (auto simp: split_once_Some)
qed

text \<open>What the token says: tenant, scope and time, and the code that authenticates just that.\<close>

definition token_grants :: "(string \<Rightarrow> string option) \<Rightarrow> ('k \<Rightarrow> string \<Rightarrow> string \<Rightarrow> bool) \<Rightarrow> nat \<Rightarrow> string
    \<Rightarrow> 'k list \<Rightarrow> verified_token \<Rightarrow> bool" where
  "token_grants b64 mac_ok now token keys vt \<longleftrightarrow>
     (\<exists>tenant scope ts mac_b64 mac t key.
        token = tenant @ '':'' @ scope @ '':'' @ ts @ ''.'' @ mac_b64 \<and>
        CHR '':'' \<notin> set tenant \<and> CHR '':'' \<notin> set scope \<and> CHR ''.'' \<notin> set mac_b64 \<and>
        b64 mac_b64 = Some mac \<and> key \<in> set keys \<and>
        mac_ok key (tenant @ '':'' @ scope @ '':'' @ ts) mac \<and>
        b64 tenant = Some (vt_tenant_id vt) \<and> utf8_ok (vt_tenant_id vt) \<and>
        is_valid_tenant_id (vt_tenant_id vt) \<and> parse_scope scope = Some (vt_scope vt) \<and>
        parse_uint u64_max ts = Some t \<and> now \<le> t + TIMESTAMP_WINDOW \<and> t \<le> now + TIMESTAMP_WINDOW)"

lemma abs_diff_le: "\<not> w < abs_diff a b \<longleftrightarrow> a \<le> b + w \<and> b \<le> a + w"
  by (auto simp: abs_diff_def)

lemma verify_token_stages:
  "verify_token b64 mac_ok now token keys = Inr vt \<longleftrightarrow>
     keys \<noteq> [] \<and> (\<exists>payload m64 mac tenant scope ts t.
       rsplit_once (CHR ''.'') token = Some (payload, m64) \<and> b64 m64 = Some mac \<and>
       three_fields payload = Some (tenant, scope, ts) \<and> b64 tenant = Some (vt_tenant_id vt) \<and>
       utf8_ok (vt_tenant_id vt) \<and> is_valid_tenant_id (vt_tenant_id vt) \<and>
       parse_scope scope = Some (vt_scope vt) \<and> parse_uint u64_max ts = Some t \<and>
       \<not> TIMESTAMP_WINDOW < abs_diff now t \<and> list_ex (\<lambda>key. mac_ok key payload mac) keys)"
  unfolding verify_token_def
  by (cases vt) (auto split: option.splits prod.splits)

text \<open>
  C13: \<open>verify_token\<close> accepts a token exactly when it is \<open>tenant:scope:time.mac\<close> with a MAC over the
  whole part before the dot under one of the keys, a well-formed tenant id, a known scope and a
  time within a minute of now; and it answers with that tenant and scope.
\<close>

theorem verify_token_iff:
  "verify_token b64 mac_ok now token keys = Inr vt \<longleftrightarrow> token_grants b64 mac_ok now token keys vt"
proof
  assume "verify_token b64 mac_ok now token keys = Inr vt"
  then show "token_grants b64 mac_ok now token keys vt"
    unfolding verify_token_stages token_grants_def rsplit_once_Some three_fields_Some list_ex_iff abs_diff_le
    by (elim exE conjE bexE) (intro exI conjI; force)
next
  assume "token_grants b64 mac_ok now token keys vt"
  then show "verify_token b64 mac_ok now token keys = Inr vt"
    unfolding verify_token_stages token_grants_def rsplit_once_Some three_fields_Some list_ex_iff abs_diff_le
    by (elim exE conjE) (intro exI conjI; force)
qed

subsection \<open>Hexadecimal ids and keys\<close>

lemma hex_nibble_char: "d < 16 \<Longrightarrow> hex_nibble (hex_char d) = Some d"
  by (simp add: hex_nibble_def hex_char_def)

lemma nibble_pairs_hex: "nibble_pairs (concat (map hex2 bs)) = Some bs"
proof (induction bs)
  case (Cons b bs)
  have "byte b < 256"
    by (metis of_char_mod_256 mod_less_divisor zero_less_numeral)
  then have "byte b div 16 < 16"
    by (simp add: less_mult_imp_div_less)
  with Cons show ?case
    by (simp add: hex2_def hex_nibble_char)
qed simp

lemma from_hex_to_hex: "length bs = 32 \<Longrightarrow> from_hex (to_hex bs) = Some bs"
  by (simp add: from_hex_def to_hex_def nibble_pairs_hex length_concat comp_def hex2_def sum_list_triv)

lemma nibble_pairs_length: "nibble_pairs h = Some bs \<Longrightarrow> length h = 2 * length bs"
  by (induction h arbitrary: bs rule: nibble_pairs.induct) (auto split: option.splits)

lemma from_hex_length: "from_hex h = Some bs \<Longrightarrow> length bs = 32"
  by (auto simp: from_hex_def dest: nibble_pairs_length split: if_splits)

text \<open>A signing key of 32 pairs \<open>+f\<close> is not hexadecimal, and it is accepted as 32 bytes 15:
  \<open>from_str_radix\<close> takes a leading plus sign in each pair.\<close>

lemma hex_pairs_concat: "hex_pairs (concat (replicate n [a, b])) = replicate n [a, b]"
  by (induction n) simp_all

lemma decode_plus: "decode_key i (replicate n ''+f'') = Inr (replicate n (CHR 0x0F))"
proof -
  have "u8_from_radix16 ''+f'' = Some 15" "utf8_ok ''+f''"
    by (simp_all add: u8_from_radix16_def is_ascii_digit_def)
  moreover have "char_of (15 :: nat) = CHR 0x0F"
    using char_of_char[of "CHR 0x0F"] by simp
  ultimately show ?thesis
    by (induction n arbitrary: i) simp_all
qed

lemma plus_key_accepted:
  "trim raw = concat (replicate 32 ''+f'') \<Longrightarrow>
   fetch_signing_keys (Some raw) vault = Inr [replicate 32 (CHR 0x0F)]"
  by (simp add: fetch_signing_keys_def Let_def hex_pairs_concat decode_plus length_concat comp_def
      sum_list_replicate del: replicate.simps)

end
