(* ===== verification/Jsonc_Edit.thy ===== *)
theory Jsonc_Edit
  imports Rust_Prelude "HOL-Library.AList"
begin

section \<open>Editing JSONC in place\<close>

text \<open>
  \<open>crates/travsr-cli/src/jsonc.rs\<close>: the text editor behind \<open>travsr connect\<close>. Offsets are list
  positions, a loop over an index is a recursive function with the index as argument and a measure,
  and a slice that panics is \<open>None\<close>: \<open>upsert\<close> and \<open>remove_entry\<close> are \<open>option\<close>-valued for that reason
  alone. \<open>serde_json\<close>'s parsers and printers are the record \<open>json_lib\<close>; its \<open>Map\<close> keeps insertion
  order (the lock file has \<open>indexmap\<close>) and compares without regard to it.
\<close>

subsection \<open>Scanning\<close>

function skip_string_from :: "string \<Rightarrow> nat \<Rightarrow> nat option" where
  "skip_string_from b j =
     (if length b \<le> j then None
      else if b ! j = backslash then skip_string_from b (j + 2)
      else if b ! j = dquote then Some (j + 1)
      else skip_string_from b (j + 1))"
  by pat_completeness auto
termination by (relation "measure (\<lambda>(b, j). length b - j)") auto

declare skip_string_from.simps [simp del]

definition skip_string :: "string \<Rightarrow> nat \<Rightarrow> nat option" where
  "skip_string b i = skip_string_from b (i + 1)"

definition skip_string_lenient :: "string \<Rightarrow> nat \<Rightarrow> nat" where
  "skip_string_lenient b i = (case skip_string b i of Some j \<Rightarrow> j | None \<Rightarrow> length b)"

function skip_ws :: "string \<Rightarrow> nat \<Rightarrow> nat" where
  "skip_ws b i = (if i < length b \<and> is_ascii_ws (b ! i) then skip_ws b (i + 1) else i)"
  by pat_completeness auto
termination by (relation "measure (\<lambda>(b, i). length b - i)") auto

declare skip_ws.simps [simp del]

lemma skip_string_from_bounds: "skip_string_from b j = Some e \<Longrightarrow> j < e \<and> e \<le> length b \<and> b ! (e - 1) = dquote"
proof (induction b j rule: skip_string_from.induct)
  case (1 b j)
  from "1.prems" show ?case
    unfolding skip_string_from.simps[of b j] using "1.IH" by (auto split: if_splits)
qed

lemma skip_string_bounds: "skip_string b i = Some e \<Longrightarrow> i + 1 < e \<and> e \<le> length b \<and> b ! (e - 1) = dquote"
  using skip_string_from_bounds[of b "i + 1" e] by (simp add: skip_string_def)

lemma skip_string_lenient_bounds: "i < length b \<Longrightarrow> i < skip_string_lenient b i \<and> skip_string_lenient b i \<le> length b"
  using skip_string_bounds[of b i] by (auto simp: skip_string_lenient_def split: option.splits)

lemma skip_ws_bounds: "i \<le> length b \<Longrightarrow> i \<le> skip_ws b i \<and> skip_ws b i \<le> length b"
  by (induction b i rule: skip_ws.induct) (subst (1 2) skip_ws.simps, auto)

subsection \<open>Blanking comments and trailing commas\<close>

function blank_line :: "string \<Rightarrow> nat \<Rightarrow> string \<Rightarrow> nat \<times> string" where
  "blank_line b i out =
     (if i < length b \<and> b ! i \<noteq> newline
      then blank_line b (i + 1) (if b ! i \<noteq> carriage then out[i := CHR '' ''] else out)
      else (i, out))"
  by pat_completeness auto
termination by (relation "measure (\<lambda>(b, i, out). length b - i)") auto

declare blank_line.simps [simp del]

function block_end :: "string \<Rightarrow> nat \<Rightarrow> nat option" where
  "block_end b j =
     (if length b \<le> j + 1 then None
      else if b ! j = CHR ''*'' \<and> b ! (j + 1) = CHR ''/'' then Some (j + 2)
      else block_end b (j + 1))"
  by pat_completeness auto
termination by (relation "measure (\<lambda>(b, j). length b - j)") auto

declare block_end.simps [simp del]

definition blank_byte :: "char \<Rightarrow> char" where
  "blank_byte c = (if c \<noteq> newline \<and> c \<noteq> carriage then CHR '' '' else c)"

definition blank_block :: "nat \<Rightarrow> nat \<Rightarrow> string \<Rightarrow> string" where
  "blank_block i j out = take i out @ map blank_byte (take (j - i) (drop i out)) @ drop j out"

definition byte_is :: "string \<Rightarrow> nat \<Rightarrow> char \<Rightarrow> bool" where
  "byte_is b i c \<longleftrightarrow> i < length b \<and> b ! i = c"

lemma blank_line_bounds: "i \<le> length b \<Longrightarrow> i \<le> fst (blank_line b i out) \<and> fst (blank_line b i out) \<le> length b"
  by (induction b i out rule: blank_line.induct) (subst (1 2) blank_line.simps, auto)

lemma blank_line_progress: "i < length b \<Longrightarrow> b ! i \<noteq> newline \<Longrightarrow> i < fst (blank_line b i out)"
  by (subst blank_line.simps) (use blank_line_bounds[of "i + 1" b] in \<open>auto simp: Suc_le_eq\<close>)

lemma block_end_bounds: "block_end b j = Some e \<Longrightarrow> j < e \<and> e \<le> length b"
proof (induction b j rule: block_end.induct)
  case (1 b j)
  from "1.prems" show ?case
    unfolding block_end.simps[of b j] using "1.IH" by (auto split: if_splits)
qed

function strip_loop :: "string \<Rightarrow> nat \<Rightarrow> string \<Rightarrow> string option" where
  "strip_loop b i out =
     (if length b \<le> i then Some out
      else if b ! i = dquote then strip_loop b (skip_string_lenient b i) out
      else if b ! i = CHR ''/'' \<and> byte_is b (i + 1) (CHR ''/'')
      then strip_loop b (fst (blank_line b i out)) (snd (blank_line b i out))
      else if b ! i = CHR ''/'' \<and> byte_is b (i + 1) (CHR ''*'')
      then (case block_end b (i + 2) of
              None \<Rightarrow> None
            | Some j \<Rightarrow> strip_loop b j (blank_block i j out))
      else strip_loop b (i + 1) out)"
  by pat_completeness auto
termination
proof (relation "measure (\<lambda>(b, i, out). length b - i)", goal_cases)
  case (2 b i out)
  then show ?case using skip_string_lenient_bounds[of i b] by auto
next
  case (3 b i out)
  then show ?case using blank_line_progress[of i b out] by (auto simp: case_prod_beta)
next
  case (4 b i out j)
  then show ?case using block_end_bounds[of b "i + 2" j] by auto
qed auto

declare strip_loop.simps [simp del]

definition from_utf8 :: "string \<Rightarrow> string option" where
  "from_utf8 b = (if utf8_ok b then Some b else None)"

definition strip_comments :: "string \<Rightarrow> string option" where
  "strip_comments text = (case strip_loop text 0 text of None \<Rightarrow> None | Some out \<Rightarrow> from_utf8 out)"

function mask_loop :: "string \<Rightarrow> nat \<Rightarrow> string" where
  "mask_loop out i =
     (if length out \<le> i then out
      else if out ! i = dquote then mask_loop out (skip_string_lenient out i)
      else if out ! i = CHR '',''
      then (let j = skip_ws out (i + 1)
            in mask_loop (if byte_is out j (CHR ''}'') \<or> byte_is out j (CHR '']'')
                          then out[i := CHR '' ''] else out) (i + 1))
      else mask_loop out (i + 1))"
  by pat_completeness auto
termination
proof (relation "measure (\<lambda>(out, i). length out - i)", goal_cases)
  case (2 out i)
  then show ?case using skip_string_lenient_bounds[of i out] by auto
qed auto

declare mask_loop.simps [simp del]

definition mask :: "string \<Rightarrow> string option" where
  "mask text = (case strip_comments text of None \<Rightarrow> None | Some stripped \<Rightarrow> from_utf8 (mask_loop stripped 0))"

subsection \<open>The reference: a lexer that reads the text once\<close>

text \<open>The modes of a JSONC lexer. \<open>Open\<close> and \<open>Close\<close> stand before the second byte of the comment
  delimiters. An unclosed block comment has no result.\<close>

datatype lex = Code | Str | Esc | Line | Open | Block | Close

definition next_is :: "string \<Rightarrow> char \<Rightarrow> bool" where
  "next_is s c \<longleftrightarrow> (case s of [] \<Rightarrow> False | d # _ \<Rightarrow> d = c)"

fun lex_next :: "lex \<Rightarrow> char \<Rightarrow> string \<Rightarrow> lex" where
  "lex_next Code c s =
     (if c = dquote then Str
      else if c = CHR ''/'' \<and> next_is s (CHR ''/'') then Line
      else if c = CHR ''/'' \<and> next_is s (CHR ''*'') then Open
      else Code)"
| "lex_next Str c s = (if c = backslash then Esc else if c = dquote then Code else Str)"
| "lex_next Esc c s = Str"
| "lex_next Line c s = (if c = newline then Code else Line)"
| "lex_next Open c s = Block"
| "lex_next Block c s = (if c = CHR ''*'' \<and> next_is s (CHR ''/'') then Close else Block)"
| "lex_next Close c s = Code"

definition commented :: "lex \<Rightarrow> bool" where
  "commented m \<longleftrightarrow> m \<in> {Line, Open, Block, Close}"

fun uncomment :: "lex \<Rightarrow> string \<Rightarrow> string option" where
  "uncomment m [] = (if m \<in> {Open, Block} then None else Some [])"
| "uncomment m (c # s) =
     (let m' = lex_next m c s
      in map_option ((#) (if commented m \<or> commented m' then blank_byte c else c)) (uncomment m' s))"

fun untrail :: "lex \<Rightarrow> string \<Rightarrow> string" where
  "untrail m [] = []"
| "untrail m (c # s) =
     (if m = Str then c # untrail (if c = backslash then Esc else if c = dquote then Code else Str) s
      else if m = Esc then c # untrail Str s
      else if c = dquote then c # untrail Str s
      else (if c = CHR '','' \<and> (case dropWhile is_ascii_ws s of [] \<Rightarrow> False | d # _ \<Rightarrow> d \<in> {CHR ''}'', CHR '']''})
            then CHR '' '' else c) # untrail Code s)"

lemma drop_Cons: "i < length b \<Longrightarrow> drop i b = b ! i # drop (Suc i) b"
  by (simp add: Cons_nth_drop_Suc)

lemma next_is_drop: "next_is (drop i b) c \<longleftrightarrow> byte_is b i c"
  by (cases "i < length b") (simp_all add: next_is_def byte_is_def drop_Cons)

lemma take_Suc_snoc: "i < length b \<Longrightarrow> take (Suc i) b = take i b @ [b ! i]"
  by (rule take_Suc_conv_app_nth)

lemma commented_simps [simp]:
  "\<not> commented Code" "\<not> commented Str" "\<not> commented Esc"
  "commented Line" "commented Open" "commented Block" "commented Close"
  by (simp_all add: commented_def)

definition prepend :: "string \<Rightarrow> string option \<Rightarrow> string option" where
  "prepend xs r = map_option ((@) xs) r"

lemma prepend_simps [simp]:
  "prepend [] r = r" "prepend xs None = None" "prepend xs (Some s) = Some (xs @ s)"
  "prepend xs (prepend ys r) = prepend (xs @ ys) r"
  by (cases r; simp add: prepend_def)+

lemma prepend_Cons: "map_option ((#) c) r = prepend [c] r"
  by (cases r) (simp_all add: prepend_def)

definition seg :: "'a list \<Rightarrow> nat \<Rightarrow> nat \<Rightarrow> 'a list" where
  "seg b i j = take (j - i) (drop i b)"

lemma seg_refl [simp]: "seg b i i = []"
  by (simp add: seg_def)

lemma seg_append: "i \<le> j \<Longrightarrow> j \<le> k \<Longrightarrow> seg b i j @ seg b j k = seg b i k"
proof -
  assume "i \<le> j" "j \<le> k"
  then obtain d d' where "j = i + d" "k = i + d + d'"
    using le_Suc_ex by blast
  then show ?thesis
    using take_add[of d d' "drop i b"] by (simp add: seg_def add.commute)
qed

lemma seg_Suc: "i < length b \<Longrightarrow> seg b i (Suc i) = [b ! i]"
  by (simp add: seg_def drop_Cons)

lemma seg_two: "Suc i < length b \<Longrightarrow> seg b i (Suc (Suc i)) = [b ! i, b ! Suc i]"
  by (simp add: seg_def drop_Cons)

lemma seg_last: "length b = Suc i \<Longrightarrow> seg b i (Suc (Suc i)) = [b ! i]"
  by (simp add: seg_def drop_Cons)

lemma uncomment_Cons:
  "i < length b \<Longrightarrow> uncomment m (drop i b) =
     (let m' = lex_next m (b ! i) (drop (Suc i) b)
      in prepend [if commented m \<or> commented m' then blank_byte (b ! i) else b ! i] (uncomment m' (drop (Suc i) b)))"
  by (simp add: drop_Cons Let_def prepend_Cons)

text \<open>Every lexer that copies strings steps over one the way \<open>skip_string\<close> does.\<close>

definition copies_strings :: "(lex \<Rightarrow> string \<Rightarrow> string option) \<Rightarrow> bool" where
  "copies_strings g \<longleftrightarrow> (\<forall>m\<in>{Code, Str, Esc}. g m [] = Some []) \<and>
     (\<forall>c s. g Str (c # s) = prepend [c] (g (lex_next Str c s) s) \<and> g Esc (c # s) = prepend [c] (g Str s))"

lemma skip_over_string:
  assumes "copies_strings g"
  shows "e = (case skip_string_from b j of None \<Rightarrow> max j (length b) | Some e \<Rightarrow> e) \<Longrightarrow>
    g Str (drop j b) = prepend (seg b j e) (g Code (drop e b))"
proof (induction b j arbitrary: e rule: skip_string_from.induct)
  case (1 b j)
  have g: "g Str [] = Some []" "g Esc [] = Some []" "g Code [] = Some []"
      "\<And>j. j < length b \<Longrightarrow> g Str (drop j b) = prepend [b ! j] (g (lex_next Str (b ! j) (drop (Suc j) b)) (drop (Suc j) b))"
      "\<And>j. j < length b \<Longrightarrow> g Esc (drop j b) = prepend [b ! j] (g Str (drop (Suc j) b))"
    using assms by (simp_all add: copies_strings_def drop_Cons)
  show ?case
  proof (cases "j < length b")
    case False
    with "1.prems" g show ?thesis by (simp add: skip_string_from.simps[of b j])
  next
    case j: True
    show ?thesis
    proof (cases "b ! j = backslash \<or> b ! j \<noteq> dquote")
      case False
      with "1.prems" j show ?thesis
        by (simp add: skip_string_from.simps[of b j] g seg_Suc)
    next
      case True
      define k where "k = (if b ! j = backslash then j + 2 else j + 1)"
      have f: "skip_string_from b j = skip_string_from b k"
        using j True by (auto simp: skip_string_from.simps[of b j] k_def)
      define e' where "e' = (case skip_string_from b k of None \<Rightarrow> max k (length b) | Some e \<Rightarrow> e)"
      have IH: "g Str (drop k b) = prepend (seg b k e') (g Code (drop e' b))"
        using "1.IH"(1)[of e'] "1.IH"(2)[of e'] j True
        by (cases "b ! j = backslash") (simp_all add: k_def e'_def cong: option.case_cong)
      have ke: "j \<le> k" "k \<le> e'"
        using skip_string_from_bounds[of b k] by (auto simp: k_def e'_def split: option.splits)
      have "drop e' b = drop e b \<and> seg b j e' = seg b j e"
        using f "1.prems" j by (auto simp: e'_def seg_def split: option.splits)
      moreover have "g Str (drop j b) = prepend (seg b j k) (g Str (drop k b))"
      proof (cases "b ! j = backslash")
        case False
        with True j show ?thesis by (simp add: k_def g seg_Suc)
      next
        case bs: True
        show ?thesis
        proof (cases "Suc j < length b")
          case True
          with bs j show ?thesis by (simp add: k_def g seg_two)
        next
          case False
          with j have "length b = Suc j" by simp
          with bs j show ?thesis by (simp add: k_def g seg_last)
        qed
      qed
      ultimately show ?thesis
        using IH ke by (simp add: seg_append)
    qed
  qed
qed

lemma uncomment_string:
  "e = (case skip_string_from b j of None \<Rightarrow> max j (length b) | Some e \<Rightarrow> e) \<Longrightarrow>
    uncomment Str (drop j b) = prepend (seg b j e) (uncomment Code (drop e b))"
  by (rule skip_over_string) (simp_all add: copies_strings_def prepend_Cons)

lemma untrail_string:
  "e = (case skip_string_from b j of None \<Rightarrow> max j (length b) | Some e \<Rightarrow> e) \<Longrightarrow>
    untrail Str (drop j b) = seg b j e @ untrail Code (drop e b)"
  using skip_over_string[of "\<lambda>m s. Some (untrail m s)"] by (simp add: copies_strings_def)

lemma blank_line_spec:
  assumes "length out = length b" "drop i out = drop i b" "i \<le> length b"
    and "(k, out') = blank_line b i out"
  shows "length out' = length b \<and> take i out' = take i out \<and> drop k out' = drop k b \<and> i \<le> k \<and>
    uncomment Line (drop i b) = prepend (seg out' i k) (uncomment Code (drop k b))"
  using assms
proof (induction b i out arbitrary: k out' rule: blank_line.induct)
  case (1 b i out)
  show ?case
  proof (cases "i < length b \<and> b ! i \<noteq> newline")
    case True
    let ?out = "if b ! i \<noteq> carriage then out[i := CHR '' ''] else out"
    have k: "(k, out') = blank_line b (i + 1) ?out"
      using True "1.prems"(4) by (simp add: blank_line.simps[of b i])
    have "length ?out = length b" "drop (i + 1) ?out = drop (i + 1) b" "i + 1 \<le> length b"
      using "1.prems" True by (auto simp: drop_Cons)
    from "1.IH"[OF True this k]
    have IH: "length out' = length b" "take (Suc i) out' = take (Suc i) ?out" "drop k out' = drop k b" "Suc i \<le> k"
        "uncomment Line (drop (Suc i) b) = prepend (seg out' (Suc i) k) (uncomment Code (drop k b))"
      by simp_all
    have io: "i < length out" "i < length out'" "out ! i = b ! i"
      using True "1.prems"(1,2) IH(1) by (simp_all add: drop_Cons)
    have "take i out' = take i out"
      using arg_cong[OF IH(2), of "take i"] by (simp add: min_def)
    moreover have "out' ! i = blank_byte (b ! i)"
      using arg_cong[OF IH(2), of "\<lambda>xs. xs ! i"] io True by (auto simp: blank_byte_def)
    then have "seg out' i k = blank_byte (b ! i) # seg out' (Suc i) k"
      using seg_append[of i "Suc i" k out'] IH(4) io(2) by (simp add: seg_Suc)
    ultimately show ?thesis
      using True IH by (simp add: uncomment_Cons)
  next
    case False
    then have "k = i" "out' = out"
      using "1.prems"(4) unfolding blank_line.simps[of b i] by (auto split: if_splits)
    moreover have "uncomment Line (drop i b) = uncomment Code (drop i b)"
    proof (cases "i < length b")
      case True
      with False show ?thesis by (simp add: uncomment_Cons blank_byte_def)
    qed simp
    ultimately show ?thesis using "1.prems" by simp
  qed
qed

lemma block_end_spec:
  "uncomment Block (drop j b) =
     (case block_end b j of
        None \<Rightarrow> None
      | Some e \<Rightarrow> prepend (map blank_byte (seg b j e)) (uncomment Code (drop e b)))"
proof (induction b j rule: block_end.induct)
  case (1 b j)
  consider "length b \<le> j" | "length b = Suc j" | "Suc j < length b" by linarith
  then show ?case
  proof cases
    case 1
    then show ?thesis by (simp add: block_end.simps[of b j])
  next
    case 2
    then show ?thesis by (simp add: block_end.simps[of b j] uncomment_Cons next_is_def)
  next
    case 3
    show ?thesis
    proof (cases "b ! j = CHR ''*'' \<and> b ! (j + 1) = CHR ''/''")
      case True
      with 3 have "seg b j (j + 2) = [b ! j, b ! Suc j]"
        by (simp add: seg_def drop_Cons)
      with True 3 show ?thesis
        by (simp add: block_end.simps[of b j] uncomment_Cons next_is_drop byte_is_def)
    next
      case False
      have e: "block_end b j = block_end b (j + 1)"
        using False 3 by (auto simp: block_end.simps[of b j])
      have IH: "uncomment Block (drop (j + 1) b) =
         (case block_end b (j + 1) of None \<Rightarrow> None
          | Some e \<Rightarrow> prepend (map blank_byte (seg b (j + 1) e)) (uncomment Code (drop e b)))"
        using "1.IH" False 3 by simp
      have "uncomment Block (drop j b) = prepend [blank_byte (b ! j)] (uncomment Block (drop (Suc j) b))"
        using False 3 by (auto simp: uncomment_Cons next_is_drop byte_is_def)
      moreover have "seg b j e' = b ! j # seg b (Suc j) e'" if "block_end b (j + 1) = Some e'" for e'
        using seg_append[of j "Suc j" e' b] block_end_bounds[OF that] 3 by (simp add: seg_Suc)
      ultimately show ?thesis
        using IH by (auto simp: e split: option.splits)
    qed
  qed
qed

lemma take_seg: "i \<le> k \<Longrightarrow> take k xs = take i xs @ seg xs i k"
  using seg_append[of 0 i k xs] by (simp add: seg_def)

lemma seg_cong: "drop i xs = drop i ys \<Longrightarrow> i \<le> j \<Longrightarrow> seg xs j k = seg ys j k"
  unfolding seg_def by (metis drop_drop le_add_diff_inverse2)

lemma drop_cong: "drop i xs = drop i ys \<Longrightarrow> i \<le> j \<Longrightarrow> drop j xs = drop j ys"
  by (metis drop_drop le_add_diff_inverse2)

lemma strip_loop_spec:
  assumes "length out = length b" "drop i out = drop i b" "i \<le> length b"
  shows "strip_loop b i out = prepend (take i out) (uncomment Code (drop i b))"
  using assms
proof (induction b i out rule: strip_loop.induct)
  case (1 b i out)
  note prems = "1.prems"
  consider (stop) "length b \<le> i"
    | (string) "i < length b" "b ! i = dquote"
    | (line) "i < length b" "b ! i = CHR ''/''" "byte_is b (i + 1) (CHR ''/'')"
    | (block) "i < length b" "b ! i = CHR ''/''" "byte_is b (i + 1) (CHR ''*'')"
    | (other) "i < length b" "b ! i \<noteq> dquote"
        "\<not> (b ! i = CHR ''/'' \<and> byte_is b (i + 1) (CHR ''/''))"
        "\<not> (b ! i = CHR ''/'' \<and> byte_is b (i + 1) (CHR ''*''))"
    by linarith
  then show ?case
  proof cases
    case stop
    with prems show ?thesis by (simp add: strip_loop.simps[of b "length b"])
  next
    case string
    define k where "k = skip_string_lenient b i"
    have k: "i < k" "k \<le> length b"
      using skip_string_lenient_bounds[OF string(1)] by (simp_all add: k_def)
    have "k = (case skip_string_from b (Suc i) of None \<Rightarrow> max (Suc i) (length b) | Some e \<Rightarrow> e)"
      using string(1) by (simp add: k_def skip_string_lenient_def skip_string_def split: option.splits)
    from uncomment_string[OF this]
    have "uncomment Code (drop i b) = prepend (seg b i k) (uncomment Code (drop k b))"
      using seg_append[of i "Suc i" k b] string k by (simp add: uncomment_Cons seg_Suc)
    moreover have "strip_loop b k out = prepend (take k out) (uncomment Code (drop k b))"
      unfolding k_def using "1.IH"(1) string prems(1) k drop_cong[OF prems(2), of k] by (simp add: k_def)
    ultimately show ?thesis
      using string k take_seg[of i k out] seg_cong[OF prems(2) order.refl, of k]
      by (simp add: strip_loop.simps[of b i] k_def)
  next
    case line
    define k out' where "k = fst (blank_line b i out)" and "out' = snd (blank_line b i out)"
    then have "(k, out') = blank_line b i out" by simp
    from blank_line_spec[OF prems this]
    have sp: "length out' = length b" "take i out' = take i out" "drop k out' = drop k b" "i \<le> k"
        "uncomment Line (drop i b) = prepend (seg out' i k) (uncomment Code (drop k b))"
      by auto
    have "k \<le> length b"
      using blank_line_bounds[of i b out] prems(3) by (simp add: k_def)
    then have "strip_loop b k out' = prepend (take k out') (uncomment Code (drop k b))"
      using "1.IH"(2) line sp(1,3) by (simp add: k_def out'_def)
    moreover have "uncomment Code (drop i b) = uncomment Line (drop i b)"
      using line by (simp add: uncomment_Cons next_is_drop)
    ultimately show ?thesis
      using line sp(2,4,5) take_seg[of i k out'] by (simp add: strip_loop.simps[of b i] k_def out'_def)
  next
    case block
    then have i2: "Suc i < length b" "b ! Suc i = CHR ''*''" by (simp_all add: byte_is_def)
    have u: "uncomment Code (drop i b) = prepend (map blank_byte (seg b i (i + 2))) (uncomment Block (drop (i + 2) b))"
      using block i2 by (simp add: uncomment_Cons next_is_drop byte_is_def seg_two)
    show ?thesis
    proof (cases "block_end b (i + 2)")
      case None
      with block u block_end_spec[of "i + 2" b] show ?thesis
        by (simp add: strip_loop.simps[of b i] byte_is_def)
    next
      case (Some j)
      have j: "i + 2 < j" "j \<le> length b"
        using block_end_bounds[OF Some] by simp_all
      let ?out = "blank_block i j out"
      have out: "?out = take i out @ map blank_byte (seg b i j) @ drop j b"
        using seg_cong[OF prems(2) order.refl, of j] drop_cong[OF prems(2), of j] j
        by (simp add: blank_block_def seg_def)
      have len: "length (take i out @ map blank_byte (seg b i j)) = j"
        using j prems by (simp add: seg_def)
      then have cut: "take j ?out = take i out @ map blank_byte (seg b i j)" "drop j ?out = drop j b"
        unfolding out by (metis append.assoc append_eq_conv_conj)+
      have "length ?out = length b"
        using len j unfolding out by simp
      then have "strip_loop b j ?out = prepend (take j ?out) (uncomment Code (drop j b))"
        using "1.IH"(3) block Some cut(2) j by (simp add: byte_is_def)
      moreover have "map blank_byte (seg b i (i + 2)) @ map blank_byte (seg b (i + 2) j) = map blank_byte (seg b i j)"
        using seg_append[of i "i + 2" j b] j by (metis le_add1 less_imp_le map_append)
      ultimately show ?thesis
        using block u Some block_end_spec[of "i + 2" b] cut(1)
        by (simp add: strip_loop.simps[of b i] byte_is_def)
    qed
  next
    case other
    have "uncomment Code (drop i b) = prepend [b ! i] (uncomment Code (drop (Suc i) b))"
      using other by (auto simp: uncomment_Cons next_is_drop Let_def)
    moreover have "strip_loop b (i + 1) out = prepend (take (Suc i) out) (uncomment Code (drop (Suc i) b))"
      using "1.IH"(4) other prems drop_cong[OF prems(2), of "Suc i"] by simp
    moreover have "take (Suc i) out = take i out @ [b ! i]"
      using other(1) take_seg[of i "Suc i" out] seg_cong[OF prems(2) order.refl, of "Suc i"] by (simp add: seg_Suc)
    moreover have "strip_loop b i out = strip_loop b (i + 1) out"
      using other by (auto simp: strip_loop.simps[of b i])
    ultimately show ?thesis by simp
  qed
qed

lemma drop_skip_ws: "i \<le> length b \<Longrightarrow> drop (skip_ws b i) b = dropWhile is_ascii_ws (drop i b)"
proof (induction b i rule: skip_ws.induct)
  case (1 b i)
  then show ?case
    by (cases "i < length b") (simp_all add: skip_ws.simps[of b i] drop_Cons skip_ws.simps[of b "length b"])
qed

lemma mask_loop_spec: "i \<le> length out \<Longrightarrow> mask_loop out i = take i out @ untrail Code (drop i out)"
proof (induction out i rule: mask_loop.induct)
  case (1 out i)
  consider (stop) "i = length out"
    | (string) "i < length out" "out ! i = dquote"
    | (comma) "i < length out" "out ! i = CHR '',''"
    | (other) "i < length out" "out ! i \<noteq> dquote" "out ! i \<noteq> CHR '',''"
    using "1.prems" by linarith
  then show ?case
  proof cases
    case stop
    then show ?thesis by (simp add: mask_loop.simps[of out "length out"])
  next
    case string
    define k where "k = skip_string_lenient out i"
    have k: "i < k" "k \<le> length out"
      using skip_string_lenient_bounds[OF string(1)] by (simp_all add: k_def)
    have "k = (case skip_string_from out (Suc i) of None \<Rightarrow> max (Suc i) (length out) | Some e \<Rightarrow> e)"
      using string(1) by (simp add: k_def skip_string_lenient_def skip_string_def split: option.splits)
    from untrail_string[OF this]
    have "untrail Code (drop i out) = seg out i k @ untrail Code (drop k out)"
      using seg_append[of i "Suc i" k out] string k by (simp add: drop_Cons[of i] seg_Suc)
    then show ?thesis
      using "1.IH"(1) string k take_seg[of i k out] by (simp add: mask_loop.simps[of out i] k_def)
  next
    case comma
    define j where "j = skip_ws out (i + 1)"
    define hit where "hit \<longleftrightarrow> byte_is out j (CHR ''}'') \<or> byte_is out j (CHR '']'')"
    have "hit \<longleftrightarrow> (case dropWhile is_ascii_ws (drop (Suc i) out) of [] \<Rightarrow> False | d # _ \<Rightarrow> d \<in> {CHR ''}'', CHR '']''})"
    proof -
      define rest where "rest = dropWhile is_ascii_ws (drop (Suc i) out)"
      have "drop j out = rest"
        using drop_skip_ws[of "Suc i" out] comma(1) by (simp add: j_def rest_def)
      then have "hit \<longleftrightarrow> next_is rest (CHR ''}'') \<or> next_is rest (CHR '']'')"
        by (simp add: hit_def flip: next_is_drop)
      then show ?thesis
        unfolding rest_def[symmetric] by (cases rest) (auto simp: next_is_def)
    qed
    then have "untrail Code (drop i out) = (if hit then CHR '' '' else CHR '','') # untrail Code (drop (Suc i) out)"
      using comma by (simp add: drop_Cons[of i])
    moreover have "mask_loop out i = mask_loop (if hit then out[i := CHR '' ''] else out) (i + 1)"
      using comma by (simp add: mask_loop.simps[of out i] hit_def j_def Let_def)
    moreover have "mask_loop (if hit then out[i := CHR '' ''] else out) (i + 1) =
        take (i + 1) (if hit then out[i := CHR '' ''] else out) @ untrail Code (drop (i + 1) out)"
      using "1.IH"(2)[OF _ _ _ j_def] comma by (simp add: hit_def)
    ultimately show ?thesis
      using comma by (simp add: take_Suc_snoc)
  next
    case other
    then have "mask_loop out i = mask_loop out (i + 1)"
        "untrail Code (drop i out) = out ! i # untrail Code (drop (Suc i) out)"
      by (simp_all add: mask_loop.simps[of out i] drop_Cons[of i])
    with "1.IH"(3) other show ?thesis by (simp add: take_Suc_snoc)
  qed
qed

subsection \<open>What the masked text keeps\<close>

lemma uncomment_length: "uncomment m s = Some r \<Longrightarrow> length r = length s"
  by (induction m s arbitrary: r rule: uncomment.induct) (auto simp: Let_def split: if_splits)

lemma uncomment_Some_Cons:
  "uncomment m (c # s) = Some r \<longleftrightarrow>
     (\<exists>r'. uncomment (lex_next m c s) s = Some r' \<and>
        r = (if commented m \<or> commented (lex_next m c s) then blank_byte c else c) # r')"
  by (auto simp: Let_def)

declare uncomment.simps(2) [simp del]

lemma uncomment_nth:
  "uncomment m s = Some r \<Longrightarrow> i < length s \<Longrightarrow> r ! i = s ! i \<or> r ! i = CHR '' '' \<and> s ! i \<notin> {newline, carriage}"
proof (induction s arbitrary: m r i)
  case (Cons c s)
  then obtain r' where r': "uncomment (lex_next m c s) s = Some r'"
      "r = (if commented m \<or> commented (lex_next m c s) then blank_byte c else c) # r'"
    by (auto simp: uncomment_Some_Cons)
  with Cons.prems(2) Cons.IH[OF r'(1)] show ?case
    by (cases i) (auto simp: blank_byte_def)
qed simp

text \<open>A blanked byte that is not ASCII stands inside a comment, after a blank or a line end.\<close>

lemma uncomment_nonascii:
  "uncomment m s = Some r \<Longrightarrow> i < length s \<Longrightarrow> r ! i \<noteq> s ! i \<Longrightarrow> 128 \<le> byte (s ! i) \<Longrightarrow>
     (m \<in> {Open, Close} \<longrightarrow> byte (s ! 0) < 128) \<Longrightarrow>
     (if i = 0 then m \<in> {Line, Block} else is_ascii_ws (r ! (i - 1)))"
proof (induction s arbitrary: m r i)
  case (Cons c s)
  obtain r' where r': "uncomment (lex_next m c s) s = Some r'"
      "r = (if commented m \<or> commented (lex_next m c s) then blank_byte c else c) # r'"
    using Cons.prems(1) by (auto simp: uncomment_Some_Cons)
  have blank: "is_ascii_ws (blank_byte c)"
    by (auto simp: blank_byte_def is_ascii_ws_def)
  have ahead: "lex_next m c s \<in> {Open, Close} \<Longrightarrow> byte (s ! 0) < 128"
    by (cases m; cases s) (auto simp: next_is_def split: if_splits)
  have moved: "lex_next m c s \<in> {Line, Block} \<Longrightarrow> commented m \<or> commented (lex_next m c s)"
    by (auto simp: commented_def)
  show ?case
  proof (cases i)
    case 0
    with Cons.prems r'(2) show ?thesis
      by (cases m) (auto simp: blank_byte_def split: if_splits)
  next
    case (Suc k)
    with Cons.prems r' Cons.IH[OF r'(1), of k] ahead moved blank show ?thesis
      by (cases k) (auto split: if_splits)
  qed
qed simp

lemma uncomment_nonascii_run:
  "cs \<noteq> [] \<Longrightarrow> \<forall>x\<in>set cs. 128 \<le> byte x \<Longrightarrow> m \<notin> {Open, Close} \<Longrightarrow>
    uncomment m (cs @ t) =
      prepend (if m \<in> {Line, Block} then replicate (length cs) (CHR '' '') else cs)
        (uncomment (if m = Esc then Str else m) t)"
proof (induction cs arbitrary: m)
  case (Cons c cs)
  have c: "c \<noteq> dquote" "c \<noteq> backslash" "c \<noteq> CHR ''/''" "c \<noteq> CHR ''*''" "c \<noteq> newline" "c \<noteq> carriage"
    using Cons.prems(2) by auto
  have next_m: "lex_next m c (cs @ t) = (if m = Esc then Str else m)"
    using c Cons.prems(3) by (cases m) auto
  have out: "uncomment m (c # cs @ t) =
      prepend [if m \<in> {Line, Block} then CHR '' '' else c] (uncomment (if m = Esc then Str else m) (cs @ t))"
    using c Cons.prems(3) by (cases m) (auto simp: uncomment.simps(2) next_m Let_def prepend_Cons blank_byte_def)
  show ?case
  proof (cases "cs = []")
    case True
    with out show ?thesis by simp
  next
    case False
    with Cons.IH[of "if m = Esc then Str else m"] Cons.prems out show ?thesis by auto
  qed
qed simp

lemma uncomment_utf8:
  "utf8_ok s \<Longrightarrow> uncomment m s = Some r \<Longrightarrow> (m \<in> {Open, Close} \<longrightarrow> s = [] \<or> byte (s ! 0) < 128) \<Longrightarrow> utf8_ok r"
proof (induction "length s" arbitrary: s m r rule: less_induct)
  case less
  show ?case
  proof (cases s)
    case Nil
    with less.prems show ?thesis by (auto split: if_splits)
  next
    case (Cons c s')
    show ?thesis
    proof (cases "byte c < 128")
      case True
      obtain r' where r': "uncomment (lex_next m c s') s' = Some r'"
          "r = (if commented m \<or> commented (lex_next m c s') then blank_byte c else c) # r'"
        using less.prems(2) unfolding Cons by (auto simp: uncomment_Some_Cons)
      have "lex_next m c s' \<in> {Open, Close} \<longrightarrow> s' = [] \<or> byte (s' ! 0) < 128"
        by (cases m; cases s') (auto simp: next_is_def)
      then have "utf8_ok r'"
        using less.hyps[OF _ _ r'(1)] less.prems(1) Cons True by simp
      then show ?thesis
        using True by (simp add: r'(2) blank_byte_def)
    next
      case False
      then obtain cs t where s: "c # s' = (c # cs) @ t" "utf8_ok (c # cs)" "utf8_ok t" "\<forall>x\<in>set (c # cs). 128 \<le> byte x"
        using less.prems(1) Cons by (metis not_less utf8_first_char)
      have m: "m \<notin> {Open, Close}" using less.prems(3) Cons False by auto
      let ?m = "if m = Esc then Str else m"
      from less.prems(2) obtain r' where r': "uncomment ?m t = Some r'"
          "r = (if m \<in> {Line, Block} then replicate (length (c # cs)) (CHR '' '') else c # cs) @ r'"
        unfolding Cons s(1) uncomment_nonascii_run[OF _ s(4) m, of t, simplified]
        by (cases "uncomment ?m t") (auto simp: uncomment_nonascii_run[OF _ s(4) m, of t, simplified])
      have "length t < length s"
        using arg_cong[OF s(1), of length] Cons by simp
      from less.hyps[OF this s(3) r'(1)] m have "utf8_ok r'" by auto
      moreover have "utf8_ok (replicate k (CHR '' ''))" for k
        by (induction k) simp_all
      ultimately show ?thesis
        using s(2) by (simp add: r'(2) del: replicate.simps)
    qed
  qed
qed

lemma untrail_rel: "list_all2 (\<lambda>x y. x = y \<or> x = CHR '' '' \<and> y = CHR '','') (untrail m s) s"
  by (induction m s rule: untrail.induct) auto

lemma mask_eq:
  assumes "utf8_ok text"
  shows "mask text = map_option (untrail Code) (uncomment Code text)"
proof (cases "uncomment Code text")
  case None
  with strip_loop_spec[of "text" "text" 0] show ?thesis
    by (simp add: mask_def strip_comments_def)
next
  case (Some r)
  have "utf8_ok r"
    by (rule uncomment_utf8[OF assms Some]) simp
  moreover from this have "utf8_ok (untrail Code r)"
    by (rule ascii_swap_utf8) (auto intro: list_all2_mono[OF untrail_rel])
  ultimately show ?thesis
    using Some strip_loop_spec[of "text" "text" 0]
    by (simp add: mask_def strip_comments_def from_utf8_def mask_loop_spec)
qed

lemma mask_shape:
  assumes "utf8_ok text" "mask text = Some m"
  shows mask_length: "length m = length text"
    and mask_utf8: "utf8_ok m"
    and mask_nth: "i < length text \<Longrightarrow> m ! i = text ! i \<or> m ! i = CHR '' '' \<and> text ! i \<notin> {newline, carriage}"
    and mask_nonascii: "i < length text \<Longrightarrow> m ! i \<noteq> text ! i \<Longrightarrow> 128 \<le> byte (text ! i) \<Longrightarrow>
      0 < i \<and> is_ascii_ws (m ! (i - 1))"
proof -
  obtain r where r: "uncomment Code text = Some r" "m = untrail Code r"
    using assms by (auto simp: mask_eq)
  have rel: "list_all2 (\<lambda>x y. x = y \<or> x = CHR '' '' \<and> y = CHR '','') m r"
    unfolding r(2) by (rule untrail_rel)
  have len: "length m = length r" "length r = length text"
    using list_all2_lengthD[OF rel] uncomment_length[OF r(1)] by simp_all
  then show "length m = length text" by simp
  have "utf8_ok r"
    by (rule uncomment_utf8[OF assms(1) r(1)]) simp
  then show "utf8_ok m"
    by (rule ascii_swap_utf8) (auto intro: list_all2_mono[OF rel])
  have step: "m ! i = r ! i \<or> m ! i = CHR '' '' \<and> r ! i = CHR '',''" if "i < length text" for i
    using list_all2_nthD[OF rel, of i] that len by simp
  show "m ! i = text ! i \<or> m ! i = CHR '' '' \<and> text ! i \<notin> {newline, carriage}" if "i < length text"
    using step[OF that] uncomment_nth[OF r(1) that] by auto
  show "0 < i \<and> is_ascii_ws (m ! (i - 1))" if "i < length text" "m ! i \<noteq> text ! i" "128 \<le> byte (text ! i)"
  proof -
    have "r ! i \<noteq> text ! i"
      using step[OF that(1)] that(2,3) by (auto dest: sym)
    from uncomment_nonascii[OF r(1) that(1) this that(3)]
    have "0 < i" "is_ascii_ws (r ! (i - 1))" by (auto split: if_splits)
    moreover have "m ! (i - 1) = r ! (i - 1) \<or> m ! (i - 1) = CHR '' ''"
      using step[of "i - 1"] that(1) by auto
    moreover have "is_ascii_ws (CHR '' '')" by (simp add: is_ascii_ws_def)
    ultimately show ?thesis by metis
  qed
qed

subsection \<open>Values and members\<close>

function skip_brackets :: "string \<Rightarrow> nat \<Rightarrow> nat \<Rightarrow> nat option" where
  "skip_brackets b depth j =
     (if length b \<le> j then None
      else if b ! j = dquote
      then (case skip_string b j of None \<Rightarrow> None | Some j' \<Rightarrow> skip_brackets b depth j')
      else if b ! j \<in> {CHR ''{'', CHR ''[''} then skip_brackets b (depth + 1) (j + 1)
      else if b ! j \<in> {CHR ''}'', CHR '']''}
      then (if depth = 0 then None
            else if depth - 1 = 0 then Some (j + 1)
            else skip_brackets b (depth - 1) (j + 1))
      else skip_brackets b depth (j + 1))"
  by pat_completeness auto
termination
proof (relation "measure (\<lambda>(b, depth, j). length b - j)", goal_cases)
  case (2 b depth j e)
  then show ?case using skip_string_bounds[of b j e] by auto
qed auto

declare skip_brackets.simps [simp del]

function scalar_end :: "string \<Rightarrow> nat \<Rightarrow> nat" where
  "scalar_end b j =
     (if j < length b \<and> b ! j \<notin> {CHR '','', CHR ''}'', CHR '']''} \<and> \<not> is_ascii_ws (b ! j)
      then scalar_end b (j + 1) else j)"
  by pat_completeness auto
termination by (relation "measure (\<lambda>(b, j). length b - j)") auto

declare scalar_end.simps [simp del]

definition skip_value :: "string \<Rightarrow> nat \<Rightarrow> nat option" where
  "skip_value b i =
     (if length b \<le> i then None
      else if b ! i = dquote then skip_string b i
      else if b ! i \<in> {CHR ''{'', CHR ''[''} then skip_brackets b 0 i
      else let j = scalar_end b i in if i < j then Some j else None)"

record jmember =
  mb_key :: string
  mb_key_start :: nat
  mb_value_start :: nat
  mb_value_end :: nat

record json_lib =
  jl_value :: "string \<Rightarrow> json option"
  jl_string :: "string \<Rightarrow> string option"
  jl_print :: "json \<Rightarrow> string option"
  jl_pretty :: "json \<Rightarrow> string option"

lemma ascii_ws_small: "is_ascii_ws c \<Longrightarrow> byte c < 128"
  by (auto simp: is_ascii_ws_def)

lemma dquote_plain [simp]: "\<not> is_ascii_ws dquote"
  by (simp add: is_ascii_ws_def)

definition ends_well :: "string \<Rightarrow> nat \<Rightarrow> bool" where
  "ends_well b e \<longleftrightarrow> 0 < e \<and> e \<le> length b \<and> \<not> is_ascii_ws (b ! (e - 1)) \<and>
     (e = length b \<or> byte (b ! (e - 1)) < 128 \<or> byte (b ! e) < 128)"

lemma skip_brackets_end: "skip_brackets b d j = Some e \<Longrightarrow> j < e \<and> ends_well b e"
proof (induction b d j rule: skip_brackets.induct)
  case (1 b d j)
  note IH = "1.IH"
  have j: "j < length b" using "1.prems" by (auto simp: skip_brackets.simps[of b d j] split: if_splits)
  consider (str) "b ! j = dquote" | (op) "b ! j \<in> {CHR ''{'', CHR ''[''}" | (cl) "b ! j \<in> {CHR ''}'', CHR '']''}"
    | (other) "b ! j \<noteq> dquote" "b ! j \<notin> {CHR ''{'', CHR ''[''}" "b ! j \<notin> {CHR ''}'', CHR '']''}"
    by blast
  then show ?case
  proof cases
    case str
    then obtain k where k: "skip_string b j = Some k" "skip_brackets b d k = Some e"
      using "1.prems" j by (auto simp: skip_brackets.simps[of b d j] split: option.splits)
    with IH(1)[OF _ _ k(1)] str j skip_string_bounds[OF k(1)] show ?thesis by auto
  next
    case op
    then have "skip_brackets b (d + 1) (j + 1) = Some e"
      using "1.prems" j by (auto simp: skip_brackets.simps[of b d j])
    with IH(2) op j show ?thesis by auto
  next
    case cl
    have c: "\<not> is_ascii_ws (b ! j)" "byte (b ! j) < 128" "b ! j \<noteq> dquote" "b ! j \<notin> {CHR ''{'', CHR ''[''}"
      using cl by (auto simp: is_ascii_ws_def)
    show ?thesis
    proof (cases "d - 1 = 0")
      case True
      with "1.prems" cl c j have "e = Suc j"
        by (auto simp: skip_brackets.simps[of b d j] split: if_splits)
      with j c show ?thesis by (simp add: ends_well_def)
    next
      case False
      with "1.prems" cl c j have "skip_brackets b (d - 1) (j + 1) = Some e"
        by (auto simp: skip_brackets.simps[of b d j] split: if_splits)
      with IH(3) False cl c j show ?thesis by auto
    qed
  next
    case other
    then have "skip_brackets b d (j + 1) = Some e"
      using "1.prems" j by (auto simp: skip_brackets.simps[of b d j])
    with IH(4) other j show ?thesis by auto
  qed
qed

lemma scalar_end_stop:
  "scalar_end b i < length b \<Longrightarrow> b ! scalar_end b i \<in> {CHR '','', CHR ''}'', CHR '']''} \<or> is_ascii_ws (b ! scalar_end b i)"
proof (induction b i rule: scalar_end.induct)
  case (1 b j)
  show ?case
  proof (cases "j < length b \<and> b ! j \<notin> {CHR '','', CHR ''}'', CHR '']''} \<and> \<not> is_ascii_ws (b ! j)")
    case True
    then have "scalar_end b j = scalar_end b (j + 1)" by (simp add: scalar_end.simps[of b j])
    with "1.IH"[OF True] "1.prems" show ?thesis by simp
  next
    case False
    then have "scalar_end b j = j" by (auto simp: scalar_end.simps[of b j])
    with False "1.prems" show ?thesis by simp
  qed
qed

lemma scalar_end_end:
  "i \<le> length b \<Longrightarrow> i \<le> scalar_end b i \<and> scalar_end b i \<le> length b \<and>
     (i < scalar_end b i \<longrightarrow> \<not> is_ascii_ws (b ! i) \<and> ends_well b (scalar_end b i))"
proof (induction b i rule: scalar_end.induct)
  case (1 b j)
  show ?case
  proof (cases "j < length b \<and> b ! j \<notin> {CHR '','', CHR ''}'', CHR '']''} \<and> \<not> is_ascii_ws (b ! j)")
    case True
    then have e: "scalar_end b j = scalar_end b (Suc j)" by (simp add: scalar_end.simps[of b j])
    have IH: "Suc j \<le> scalar_end b (Suc j) \<and> scalar_end b (Suc j) \<le> length b \<and>
       (Suc j < scalar_end b (Suc j) \<longrightarrow> ends_well b (scalar_end b (Suc j)))"
      using "1.IH" True by simp
    have "ends_well b (Suc j)" if "scalar_end b (Suc j) = Suc j"
    proof -
      have "Suc j < length b \<Longrightarrow> b ! Suc j \<in> {CHR '','', CHR ''}'', CHR '']''} \<or> is_ascii_ws (b ! Suc j)"
        using that scalar_end_stop[of b "Suc j"] by simp
      then show ?thesis
        using True by (auto simp: ends_well_def dest: ascii_ws_small)
    qed
    with IH e True show ?thesis by (cases "scalar_end b (Suc j) = Suc j") auto
  next
    case False
    then show ?thesis using "1.prems" by (auto simp: scalar_end.simps[of b j])
  qed
qed

lemma skip_value_end:
  assumes "skip_value b i = Some e"
  shows "i < e" "\<not> is_ascii_ws (b ! i)" "ends_well b e"
proof -
  have i: "i < length b"
    using assms by (auto simp: skip_value_def split: if_splits)
  consider (str) "b ! i = dquote" | (br) "b ! i \<in> {CHR ''{'', CHR ''[''}" "b ! i \<noteq> dquote"
    | (sc) "b ! i \<noteq> dquote" "b ! i \<notin> {CHR ''{'', CHR ''[''}" by blast
  then have "i < e \<and> \<not> is_ascii_ws (b ! i) \<and> ends_well b e"
  proof cases
    case str
    with assms i have "skip_string b i = Some e" by (simp add: skip_value_def)
    from skip_string_bounds[OF this] str show ?thesis by (auto simp: ends_well_def)
  next
    case br
    with assms i have "skip_brackets b 0 i = Some e" by (auto simp: skip_value_def)
    from skip_brackets_end[OF this] br show ?thesis by (auto simp: is_ascii_ws_def)
  next
    case sc
    with assms i have "e = scalar_end b i" "i < scalar_end b i"
      by (auto simp: skip_value_def Let_def split: if_splits)
    with scalar_end_end[of i b] i show ?thesis by simp
  qed
  then show "i < e" "\<not> is_ascii_ws (b ! i)" "ends_well b e" by simp_all
qed

lemma skip_ws_ge: "i \<le> skip_ws b i"
  by (induction b i rule: skip_ws.induct) (subst skip_ws.simps, auto)

function members_loop :: "json_lib \<Rightarrow> string \<Rightarrow> nat \<Rightarrow> jmember list \<Rightarrow> jmember list option" where
  "members_loop lib b i0 out =
     (let i = skip_ws b i0
      in if length b \<le> i then None
         else if b ! i = CHR ''}'' then Some out
         else if b ! i = CHR '','' then members_loop lib b (i + 1) out
         else if b ! i \<noteq> dquote then None
         else (case skip_string b i of
                 None \<Rightarrow> None
               | Some key_end \<Rightarrow>
                   (case jl_string lib (seg b i key_end) of
                      None \<Rightarrow> None
                    | Some key \<Rightarrow>
                        (let colon = skip_ws b key_end
                         in if \<not> byte_is b colon (CHR '':'') then None
                            else (let value_start = skip_ws b (colon + 1)
                                  in case skip_value b value_start of
                                       None \<Rightarrow> None
                                     | Some value_end \<Rightarrow>
                                         members_loop lib b value_end
                                           (out @ [\<lparr>mb_key = key, mb_key_start = i,
                                                    mb_value_start = value_start, mb_value_end = value_end\<rparr>]))))))"
  by pat_completeness auto

termination
proof (relation "measure (\<lambda>(lib, b, i, out). length b - i)", goal_cases)
  case (2 lib b i0 out i)
  then show ?case using skip_ws_ge[of i0 b] by auto
next
  case (3 lib b i0 out i key_end key colon vs ve)
  then show ?case
    using skip_ws_ge[of i0 b] skip_string_bounds[of b i key_end] skip_ws_ge[of key_end b]
      skip_ws_ge[of "colon + 1" b] skip_value_end(1,3)[of b vs ve]
    by (auto simp: ends_well_def)
qed auto

declare members_loop.simps [simp del]

definition members :: "json_lib \<Rightarrow> string \<Rightarrow> nat \<Rightarrow> jmember list option" where
  "members lib b start = (if byte_is b start (CHR ''{'') then members_loop lib b (start + 1) [] else None)"

definition find_unique :: "jmember list \<Rightarrow> string \<Rightarrow> (unit, jmember option) rust_result" where
  "find_unique ms key = (case filter (\<lambda>m. mb_key m = key) ms of
     [] \<Rightarrow> Inr None | [m] \<Rightarrow> Inr (Some m) | _ \<Rightarrow> Inl ())"

definition member_ok :: "string \<Rightarrow> jmember \<Rightarrow> bool" where
  "member_ok b m \<longleftrightarrow> byte_is b (mb_key_start m) dquote \<and> mb_key_start m < mb_value_start m \<and>
     byte (b ! (mb_value_start m - 1)) < 128 \<and> \<not> is_ascii_ws (b ! mb_value_start m) \<and>
     mb_value_start m < mb_value_end m \<and> ends_well b (mb_value_end m)"

definition members_ok :: "string \<Rightarrow> nat \<Rightarrow> nat \<Rightarrow> jmember list \<Rightarrow> bool" where
  "members_ok b lo hi ms \<longleftrightarrow> (\<forall>m\<in>set ms. member_ok b m \<and> lo \<le> mb_key_start m \<and> mb_value_end m \<le> hi) \<and>
     sorted_wrt (\<lambda>m m'. mb_value_end m \<le> mb_key_start m') ms"

lemma skip_ws_before: "i < skip_ws b i \<Longrightarrow> is_ascii_ws (b ! (skip_ws b i - 1))"
proof (induction b i rule: skip_ws.induct)
  case (1 b i)
  show ?case
  proof (cases "i < length b \<and> is_ascii_ws (b ! i)")
    case True
    then have e: "skip_ws b i = skip_ws b (i + 1)" by (simp add: skip_ws.simps[of b i])
    with "1.IH"[OF True] True show ?thesis
      by (cases "i + 1 < skip_ws b (i + 1)") (use skip_ws_ge[of "i + 1" b] in \<open>auto simp: e\<close>)
  next
    case False
    with "1.prems" show ?thesis by (auto simp: skip_ws.simps[of b i])
  qed
qed

lemma members_loop_ok:
  "members_loop lib b i0 out = Some ms \<Longrightarrow> lo \<le> i0 \<Longrightarrow> members_ok b lo i0 out \<Longrightarrow> \<exists>hi. members_ok b lo hi ms"
proof (induction lib b i0 out rule: members_loop.induct)
  case (1 lib b i0 out)
  define i where "i = skip_ws b i0"
  have i0: "i0 \<le> i" by (simp add: i_def skip_ws_ge)
  have grow: "members_ok b lo j out" if "i0 \<le> j" for j
    using "1.prems"(3) that unfolding members_ok_def by fastforce
  note unf = members_loop.simps[of lib b i0, folded i_def]
  show ?case
  proof (cases "length b \<le> i \<or> b ! i = CHR ''}''")
    case True
    with "1.prems" show ?thesis by (auto simp: unf Let_def split: if_splits)
  next
    case a: False
    show ?thesis
    proof (cases "b ! i = CHR '',''")
      case True
      with "1.prems" a have "members_loop lib b (i + 1) out = Some ms" by (simp add: unf Let_def)
      with "1.IH"(1)[OF i_def] True a "1.prems"(2) i0 grow[of "i + 1"] show ?thesis by simp
    next
      case b: False
      with "1.prems"(1) a obtain key_end key ve where
        k: "b ! i = dquote" "skip_string b i = Some key_end" "jl_string lib (seg b i key_end) = Some key"
          "byte_is b (skip_ws b key_end) (CHR '':'')"
          "skip_value b (skip_ws b (skip_ws b key_end + 1)) = Some ve"
        and rec: "members_loop lib b ve
           (out @ [\<lparr>mb_key = key, mb_key_start = i, mb_value_start = skip_ws b (skip_ws b key_end + 1), mb_value_end = ve\<rparr>]) = Some ms"
        by (auto simp: unf Let_def split: if_splits option.splits)
      define vs where "vs = skip_ws b (skip_ws b key_end + 1)"
      have pos: "i < key_end" "key_end \<le> skip_ws b key_end" "skip_ws b key_end + 1 \<le> vs"
        using skip_string_bounds[OF k(2)] by (simp_all add: vs_def skip_ws_ge)
      have "byte (b ! (vs - 1)) < 128"
      proof (cases "vs = skip_ws b key_end + 1")
        case True
        with k(4) show ?thesis by (simp add: byte_is_def)
      next
        case False
        with pos(3) skip_ws_before[of "skip_ws b key_end + 1" b] show ?thesis
          by (simp add: vs_def ascii_ws_small)
      qed
      then have "member_ok b \<lparr>mb_key = key, mb_key_start = i, mb_value_start = vs, mb_value_end = ve\<rparr>"
        using a k(1) pos skip_value_end[OF k(5)] by (simp add: member_ok_def byte_is_def vs_def)
      moreover have vsve: "vs < ve"
        using skip_value_end(1)[OF k(5)] by (simp add: vs_def)
      moreover from this have "i0 \<le> ve" using i0 pos by simp
      ultimately have "members_ok b lo ve (out @ [\<lparr>mb_key = key, mb_key_start = i, mb_value_start = vs, mb_value_end = ve\<rparr>])"
        using grow[OF \<open>i0 \<le> ve\<close>] "1.prems"(2,3) i0 pos vsve
        by (auto simp: members_ok_def sorted_wrt_append)
      with "1.IH"(2)[OF i_def _ _ _ _ k(2,3) refl _ refl k(5)] a b k(1,4) rec "1.prems"(2) i0 pos
        skip_value_end(1)[OF k(5)] show ?thesis
        by (simp add: vs_def)
    qed
  qed
qed

lemma members_facts:
  assumes "members lib b start = Some ms"
  shows "byte_is b start (CHR ''{'')" "\<exists>hi. members_ok b (start + 1) hi ms"
  using assms members_loop_ok[of lib b "start + 1" "[]" ms "start + 1"]
  by (auto simp: members_def members_ok_def split: if_splits)

lemma find_unique_mem: "find_unique ms key = Inr (Some m) \<Longrightarrow> m \<in> set ms \<and> mb_key m = key"
  by (auto simp: find_unique_def filter_eq_Cons_iff split: list.splits)

subsection \<open>Documents\<close>

text \<open>\<open>Value\<close>'s equality: the order of an object's members does not count.\<close>

lemma size_member: "(k, v) \<in> set a \<Longrightarrow> size v < size (JObject a)"
  by (induction a) auto

lemma size_element: "v \<in> set a \<Longrightarrow> size v < size (JArray a)"
  by (induction a) auto

function json_eq :: "json \<Rightarrow> json \<Rightarrow> bool" where
  "json_eq (JObject x) b =
     (case b of
        JObject y \<Rightarrow> length x = length y \<and>
          list_all (\<lambda>(k, v). case map_of y k of None \<Rightarrow> False | Some w \<Rightarrow> json_eq v w) x
      | _ \<Rightarrow> False)"
| "json_eq (JArray x) b =
     (case b of
        JArray y \<Rightarrow> length x = length y \<and> list_all (\<lambda>(v, w). json_eq v w) (zip x y)
      | _ \<Rightarrow> False)"
| "json_eq JNull b = (b = JNull)"
| "json_eq (JBool x) b = (b = JBool x)"
| "json_eq (JNumber s) b = (b = JNumber s)"
| "json_eq (JString s) b = (b = JString s)"
  by pat_completeness auto
termination
  by (relation "measure (size \<circ> fst)")
     (auto dest!: set_zip_leftD simp del: json.size intro: size_member size_element)

type_synonym json_obj = "(string \<times> json) list"

definition SERVER :: string where "SERVER = ''travsr''"
definition NOT_JSONC :: string where
  "NOT_JSONC = ''existing file is not valid JSON or JSONC (left untouched)''"
definition NOT_OBJECT :: string where "NOT_OBJECT = ''top level is not a JSON object''"
definition UNSAFE_EDIT :: string where "UNSAFE_EDIT = ''could not edit safely (left untouched)''"

datatype upsert_result = Changed string | Unchanged | Refused | Skipped string

datatype removal = Cut string | DeleteFile | Absent | Kept string

definition parses_to :: "json_lib \<Rightarrow> string \<Rightarrow> json \<Rightarrow> bool" where
  "parses_to lib t expected =
     (case mask t of
        None \<Rightarrow> False
      | Some m \<Rightarrow> (case jl_value lib m of None \<Rightarrow> False | Some v \<Rightarrow> json_eq v expected))"

definition rfind_newline :: "string \<Rightarrow> nat option" where
  "rfind_newline s =
     (case find_byte (\<lambda>c. c = newline) (rev s) of None \<Rightarrow> None | Some k \<Rightarrow> Some (length s - 1 - k))"

definition insert_lead :: "string \<Rightarrow> nat \<Rightarrow> jmember list \<Rightarrow> (string \<times> string) option" where
  "insert_lead masked start ms =
     (case ms of
        [] \<Rightarrow> Some ('''', '''')
      | first # _ \<Rightarrow>
          do { gap \<leftarrow> str_slice masked (start + 1) (mb_key_start first);
               lead \<leftarrow> (case rfind_newline gap of
                          Some p \<Rightarrow> do { g \<leftarrow> str_slice gap (p + 1) (length gap); Some (newline # g) }
                        | None \<Rightarrow> Some gap);
               Some (lead, '','') })"

definition insert_member :: "string \<Rightarrow> string \<Rightarrow> nat \<Rightarrow> jmember list \<Rightarrow> string \<Rightarrow> string option" where
  "insert_member t masked start ms member_src =
     do { (lead, comma) \<leftarrow> insert_lead masked start ms;
          a \<leftarrow> str_slice t 0 (start + 1);
          b \<leftarrow> str_slice t (start + 1) (length t);
          Some (a @ lead @ member_src @ comma @ b) }"

definition replace_value :: "string \<Rightarrow> jmember \<Rightarrow> string \<Rightarrow> string option" where
  "replace_value t m src =
     do { a \<leftarrow> str_slice t 0 (mb_value_start m);
          b \<leftarrow> str_slice t (mb_value_end m) (length t);
          Some (a @ src @ b) }"

text \<open>The edit of an object that may hold the entry already: an early result on the left, the new
  text on the right.\<close>

definition upsert_in :: "json_lib \<Rightarrow> string \<Rightarrow> string \<Rightarrow> json \<Rightarrow> string \<Rightarrow> bool \<Rightarrow> nat \<Rightarrow> jmember list
    \<Rightarrow> (upsert_result + string) option" where
  "upsert_in lib t masked entry entry_src refuse_new start mcp_members =
     (case find_unique mcp_members SERVER of
        Inl _ \<Rightarrow> Some (Inl (Skipped UNSAFE_EDIT))
      | Inr (Some existing) \<Rightarrow>
          do { cur_src \<leftarrow> str_slice masked (mb_value_start existing) (mb_value_end existing);
               if (case jl_value lib cur_src of None \<Rightarrow> False | Some v \<Rightarrow> json_eq v entry)
               then Some (Inl Unchanged)
               else if refuse_new then Some (Inl Refused)
               else map_option Inr (replace_value t existing entry_src) }
      | Inr None \<Rightarrow>
          if refuse_new then Some (Inl Refused)
          else map_option Inr
                 (insert_member t masked start mcp_members
                    (dquote # SERVER @ dquote # '': '' @ entry_src)))"

definition upsert_text :: "json_lib \<Rightarrow> string \<Rightarrow> string \<Rightarrow> json_obj \<Rightarrow> nat \<Rightarrow> jmember list \<Rightarrow> string
    \<Rightarrow> json \<Rightarrow> string \<Rightarrow> bool \<Rightarrow> (upsert_result + string) option" where
  "upsert_text lib t masked root_obj root_open root_members top_key entry entry_src refuse_new =
     (case find_unique root_members top_key of
        Inl _ \<Rightarrow> Some (Inl (Skipped UNSAFE_EDIT))
      | Inr (Some mcp) \<Rightarrow>
          (case map_of root_obj top_key of
             Some (JObject _) \<Rightarrow>
               (case members lib masked (mb_value_start mcp) of
                  None \<Rightarrow> Some (Inl (Skipped UNSAFE_EDIT))
                | Some mcp_members \<Rightarrow>
                    upsert_in lib t masked entry entry_src refuse_new (mb_value_start mcp) mcp_members)
           | _ \<Rightarrow> Some (Inl (Skipped ''`mcp` is not a JSON object'')))
      | Inr None \<Rightarrow>
          if refuse_new then Some (Inl Refused)
          else map_option Inr
                 (insert_member t masked root_open root_members
                    (dquote # top_key @ dquote # '': {'' @ dquote # SERVER @ dquote # '': '' @ entry_src @ ''}'')))"

definition with_entry :: "string \<Rightarrow> json \<Rightarrow> json_obj \<Rightarrow> json option" where
  "with_entry top_key entry root =
     (case map_of root top_key of
        None \<Rightarrow> Some (JObject (AList.update top_key (JObject [(SERVER, entry)]) root))
      | Some (JObject m) \<Rightarrow> Some (JObject (AList.update top_key (JObject (AList.update SERVER entry m)) root))
      | Some _ \<Rightarrow> None)"

definition fresh_file :: "string \<Rightarrow> json \<Rightarrow> string option \<Rightarrow> json" where
  "fresh_file top_key v schema =
     JObject (AList.update top_key v (case schema of Some s \<Rightarrow> [(''$schema'', JString s)] | None \<Rightarrow> []))"

definition upsert :: "json_lib \<Rightarrow> string \<Rightarrow> string \<Rightarrow> json \<Rightarrow> string option \<Rightarrow> bool \<Rightarrow> upsert_result option" where
  "upsert lib t top_key entry schema refuse_new =
     (if trim t = []
      then Some (if refuse_new then Refused
                 else (case jl_pretty lib (fresh_file top_key (JObject [(SERVER, entry)]) schema) of
                         Some s \<Rightarrow> Changed (s @ [newline])
                       | None \<Rightarrow> Skipped UNSAFE_EDIT))
      else
        (case mask t of
           None \<Rightarrow> Some (Skipped NOT_JSONC)
         | Some masked \<Rightarrow>
             (case jl_value lib masked of
                None \<Rightarrow> Some (Skipped NOT_JSONC)
              | Some (JObject root_obj) \<Rightarrow>
                  (case members lib masked (skip_ws masked 0) of
                     None \<Rightarrow> Some (Skipped UNSAFE_EDIT)
                   | Some root_members \<Rightarrow>
                       (case jl_print lib entry of
                          None \<Rightarrow> Some (Skipped UNSAFE_EDIT)
                        | Some entry_src \<Rightarrow>
                            do { edit \<leftarrow> upsert_text lib t masked root_obj (skip_ws masked 0) root_members
                                           top_key entry entry_src refuse_new;
                                 Some (case edit of
                                         Inl res \<Rightarrow> res
                                       | Inr new_text \<Rightarrow>
                                           (case with_entry top_key entry root_obj of
                                              None \<Rightarrow> Skipped UNSAFE_EDIT
                                            | Some expected \<Rightarrow>
                                                if parses_to lib new_text expected then Changed new_text
                                                else Skipped UNSAFE_EDIT)) }))
              | Some _ \<Rightarrow> Some (Skipped NOT_OBJECT))))"

fun back_ws :: "string \<Rightarrow> nat \<Rightarrow> nat" where
  "back_ws ob 0 = 0"
| "back_ws ob (Suc s) = (if is_ascii_ws (ob ! s) then back_ws ob s else Suc s)"

text \<open>The ranges to cut, or a reason not to.\<close>

definition entry_cuts :: "string \<Rightarrow> string \<Rightarrow> jmember list \<Rightarrow> jmember \<Rightarrow> (nat \<times> nat) list option" where
  "entry_cuts t masked ms target =
     (let idx = (case find_byte (\<lambda>m. mb_key_start m = mb_key_start target) ms of Some i \<Rightarrow> i | None \<Rightarrow> 0);
          after = skip_ws masked (mb_value_end target)
      in if byte_is masked after (CHR '','')
         then Some [(mb_key_start target, skip_ws t (after + 1))]
         else (let cut = (back_ws t (mb_key_start target), mb_value_end target)
               in if 0 < idx
                  then (let comma = skip_ws masked (mb_value_end (ms ! (idx - 1)))
                        in if byte_is masked comma (CHR '','') then Some [cut, (comma, comma + 1)] else None)
                  else Some [cut]))"

definition cut_range :: "string \<Rightarrow> nat \<times> nat \<Rightarrow> string option" where
  "cut_range t = (\<lambda>(s, e).
     if s \<le> e then do { a \<leftarrow> str_slice t 0 s; b \<leftarrow> str_slice t e (length t); Some (a @ b) } else None)"

fun cut_all :: "string \<Rightarrow> (nat \<times> nat) list \<Rightarrow> string option" where
  "cut_all t [] = Some t"
| "cut_all t (c # cs) = do { t' \<leftarrow> cut_range t c; cut_all t' cs }"

definition without_entry :: "string \<Rightarrow> json_obj \<Rightarrow> json" where
  "without_entry top_key root =
     JObject (case map_of root top_key of
                Some (JObject m) \<Rightarrow> AList.update top_key (JObject (AList.delete SERVER m)) root
              | _ \<Rightarrow> root)"

definition has_entry :: "string \<Rightarrow> json \<Rightarrow> json_obj option" where
  "has_entry top_key root =
     (case root of
        JObject o' \<Rightarrow> (case map_of o' top_key of
                       Some (JObject m) \<Rightarrow> if map_of m SERVER \<noteq> None then Some o' else None
                     | _ \<Rightarrow> None)
      | _ \<Rightarrow> None)"

definition only_ours :: "string \<Rightarrow> string option \<Rightarrow> json \<Rightarrow> bool" where
  "only_ours top_key schema expected \<longleftrightarrow>
     json_eq (fresh_file top_key (JObject []) None) expected \<or>
     schema \<noteq> None \<and> json_eq (fresh_file top_key (JObject []) schema) expected"

definition remove_target :: "json_lib \<Rightarrow> string \<Rightarrow> string \<Rightarrow> (jmember list \<times> jmember) option" where
  "remove_target lib masked top_key =
     (case members lib masked (skip_ws masked 0) of
        None \<Rightarrow> None
      | Some root_members \<Rightarrow>
          (case find_unique root_members top_key of
             Inr (Some mcp) \<Rightarrow>
               (case members lib masked (mb_value_start mcp) of
                  None \<Rightarrow> None
                | Some mcp_members \<Rightarrow>
                    (case find_unique mcp_members SERVER of
                       Inr (Some target) \<Rightarrow> Some (mcp_members, target)
                     | _ \<Rightarrow> None))
           | _ \<Rightarrow> None))"

definition remove_entry :: "json_lib \<Rightarrow> string \<Rightarrow> string \<Rightarrow> string option \<Rightarrow> removal option" where
  "remove_entry lib t top_key schema =
     (case mask t of
        None \<Rightarrow> Some (Kept NOT_JSONC)
      | Some masked \<Rightarrow>
          (case jl_value lib masked of
             None \<Rightarrow> Some (Kept NOT_JSONC)
           | Some root \<Rightarrow>
               (case has_entry top_key root of
                  None \<Rightarrow> Some Absent
                | Some root_obj \<Rightarrow>
                    (case remove_target lib masked top_key of
                       None \<Rightarrow> Some (Kept UNSAFE_EDIT)
                     | Some (ms, target) \<Rightarrow>
                         (case entry_cuts t masked ms target of
                            None \<Rightarrow> Some (Kept UNSAFE_EDIT)
                          | Some cuts \<Rightarrow>
                              do { new_text \<leftarrow> cut_all t (rev (sort_key fst cuts));
                                   Some (let expected = without_entry top_key root_obj
                                         in if \<not> parses_to lib new_text expected then Kept UNSAFE_EDIT
                                            else if strip_comments t = Some t \<and> only_ours top_key schema expected
                                            then DeleteFile
                                            else Cut new_text) })))))"

subsection \<open>No slice is out of range or inside a character\<close>

lemma mask_same:
  "utf8_ok t \<Longrightarrow> mask t = Some m \<Longrightarrow> i < length t \<Longrightarrow> \<not> is_ascii_ws (m ! i) \<Longrightarrow> m ! i = t ! i"
  using mask_nth[of t m i] by (auto simp: is_ascii_ws_def)

lemma mask_boundary:
  assumes "utf8_ok t" "mask t = Some m" "is_char_boundary m i" "i \<le> length m"
    "i < length m \<Longrightarrow> \<not> is_ascii_ws (m ! i)"
  shows "is_char_boundary t i"
proof (cases "i = length m")
  case True
  with mask_length[OF assms(1,2)] show ?thesis by simp
next
  case False
  then have i: "i < length t" using assms(4) mask_length[OF assms(1,2)] by simp
  have "m ! i = t ! i"
    using mask_same[OF assms(1,2) i] assms(5) False assms(4) by auto
  with assms(3) i False mask_length[OF assms(1,2)] show ?thesis
    by (auto simp: is_char_boundary_def)
qed

lemma ends_well_boundary:
  assumes "utf8_ok t" "mask t = Some m" "ends_well m e"
  shows "is_char_boundary m e" "is_char_boundary t e"
proof -
  note len = mask_length[OF assms(1,2)] and mu = mask_utf8[OF assms(1,2)]
  from assms(3) have e: "0 < e" "e \<le> length m" "\<not> is_ascii_ws (m ! (e - 1))"
      "e = length m \<or> byte (m ! (e - 1)) < 128 \<or> byte (m ! e) < 128"
    by (auto simp: ends_well_def)
  have "m ! (e - 1) = t ! (e - 1)"
    using mask_same[OF assms(1,2), of "e - 1"] e len by simp
  then consider "e = length t" | "e < length t" "byte (t ! (e - 1)) < 128" "byte (m ! (e - 1)) < 128"
    | "e < length t" "byte (m ! e) < 128"
    using e len by fastforce
  then have "is_char_boundary m e \<and> is_char_boundary t e"
  proof cases
    case 1
    then show ?thesis using len by (metis is_char_boundary_len)
  next
    case 2
    then show ?thesis
      using ascii_boundary_Suc[OF assms(1), of "e - 1"] ascii_boundary_Suc[OF mu, of "e - 1"] e len by simp
  next
    case 3
    have "byte (t ! e) < 128"
    proof (rule ccontr)
      assume n: "\<not> byte (t ! e) < 128"
      with 3 have "m ! e \<noteq> t ! e" by auto
      from mask_nonascii[OF assms(1,2) 3(1) this] n e(3) show False by simp
    qed
    with 3 len show ?thesis by (simp add: ascii_boundary)
  qed
  then show "is_char_boundary m e" "is_char_boundary t e" by auto
qed

lemma member_boundaries:
  assumes "utf8_ok t" "mask t = Some m" "member_ok m mb"
  shows "mb_key_start mb < mb_value_start mb" "mb_value_start mb < mb_value_end mb" "mb_value_end mb \<le> length t"
    "t ! mb_key_start mb = dquote" "is_char_boundary t (mb_value_start mb)" "is_char_boundary m (mb_value_start mb)"
    "is_char_boundary t (mb_value_end mb)" "is_char_boundary m (mb_value_end mb)"
proof -
  note len = mask_length[OF assms(1,2)] and mu = mask_utf8[OF assms(1,2)]
  note mb = assms(3)[unfolded member_ok_def]
  then show 1: "mb_key_start mb < mb_value_start mb" "mb_value_start mb < mb_value_end mb" "mb_value_end mb \<le> length t"
    using len by (auto simp: ends_well_def)
  have ks: "mb_key_start mb < length t" "m ! mb_key_start mb = dquote"
    using mb len by (auto simp: byte_is_def)
  then show "t ! mb_key_start mb = dquote"
    using mask_nth[OF assms(1,2) ks(1)] by auto
  show vm: "is_char_boundary m (mb_value_start mb)"
    using ascii_boundary_Suc[OF mu, of "mb_value_start mb - 1"] mb 1 len by auto
  show "is_char_boundary t (mb_value_start mb)"
    by (rule mask_boundary[OF assms(1,2) vm]) (use mb 1 len in auto)
  show "is_char_boundary t (mb_value_end mb)" "is_char_boundary m (mb_value_end mb)"
    using ends_well_boundary[OF assms(1,2)] mb by auto
qed

lemma mask_keeps:
  assumes "utf8_ok t" "mask t = Some m" "byte_is m i c" "\<not> is_ascii_ws c"
  shows "byte_is t i c"
  using mask_nth[OF assms(1,2), of i] mask_length[OF assms(1,2)] assms(3,4)
  by (auto simp: byte_is_def is_ascii_ws_def)

lemma replace_value_Some:
  assumes "utf8_ok t" "mask t = Some m" "member_ok m mb"
  shows "replace_value t mb src = Some (take (mb_value_start mb) t @ src @ drop (mb_value_end mb) t)"
  using member_boundaries[OF assms] by (simp add: replace_value_def str_slice_def)

lemma rfind_newline_Some: "rfind_newline s = Some p \<Longrightarrow> p < length s \<and> s ! p = newline"
  by (auto simp: rfind_newline_def rev_nth dest!: find_byte_Some split: option.splits)

lemma insert_lead_Some:
  assumes "utf8_ok t" "mask t = Some m" "byte_is m start (CHR ''{'')" "members_ok m (start + 1) hi ms"
  shows "\<exists>lead comma. insert_lead m start ms = Some (lead, comma)"
proof (cases ms)
  case Nil
  then show ?thesis by (simp add: insert_lead_def)
next
  case (Cons mb rest)
  have mb: "member_ok m mb" "start + 1 \<le> mb_key_start mb"
    using assms(4) Cons by (auto simp: members_ok_def)
  have mu: "utf8_ok m" by (rule mask_utf8[OF assms(1,2)])
  have b1: "is_char_boundary m (start + 1)"
    using ascii_boundary_Suc[OF mu, of start] assms(3) by (simp add: byte_is_def)
  have b2: "is_char_boundary m (mb_key_start mb)" "mb_key_start mb < length m"
    using mb(1) by (auto simp: member_ok_def byte_is_def intro: ascii_boundary)
  obtain gap where gap: "str_slice m (start + 1) (mb_key_start mb) = Some gap"
    using b1 b2 mb(2) by (simp add: str_slice_def)
  have gu: "utf8_ok gap" by (rule str_slice_utf8_ok[OF gap mu])
  have "\<exists>g. str_slice gap (p + 1) (length gap) = Some g" if "rfind_newline gap = Some p" for p
    using rfind_newline_Some[OF that] ascii_boundary_Suc[OF gu, of p] by (simp add: str_slice_def)
  with gap Cons show ?thesis
    by (auto simp: insert_lead_def split: option.splits)
qed

lemma insert_member_Some:
  assumes "utf8_ok t" "mask t = Some m" "byte_is m start (CHR ''{'')" "members_ok m (start + 1) hi ms"
  shows "\<exists>src'. insert_member t m start ms src = Some (take (start + 1) t @ src' @ drop (start + 1) t) \<and> start + 1 \<le> length t"
proof -
  obtain lead comma where l: "insert_lead m start ms = Some (lead, comma)"
    using insert_lead_Some[OF assms] by auto
  have "byte_is t start (CHR ''{'')"
    by (rule mask_keeps[OF assms(1-3)]) (simp add: is_ascii_ws_def)
  then have "is_char_boundary t (start + 1)" "start + 1 \<le> length t"
    using ascii_boundary_Suc[OF assms(1), of start] by (auto simp: byte_is_def)
  then show ?thesis
    by (auto simp: insert_member_def l str_slice_def intro!: exI[of _ "lead @ src @ comma"])
qed

lemma skip_ws_reach: "i \<le> j \<Longrightarrow> j < length b \<Longrightarrow> \<not> is_ascii_ws (b ! j) \<Longrightarrow> skip_ws b i \<le> j"
proof (induction b i rule: skip_ws.induct)
  case (1 b i)
  show ?case
  proof (cases "i < length b \<and> is_ascii_ws (b ! i)")
    case True
    with "1.prems" have "i < j" by (metis le_neq_implies_less)
    with "1.IH" True "1.prems" show ?thesis by (simp add: skip_ws.simps[of b i])
  next
    case False
    with "1.prems" show ?thesis by (auto simp: skip_ws.simps[of b i])
  qed
qed

lemma skip_ws_boundary:
  assumes "utf8_ok t" "i \<le> length t" "is_char_boundary t i"
  shows "is_char_boundary t (skip_ws t i)"
proof (cases "i < skip_ws t i")
  case True
  then have "byte (t ! (skip_ws t i - 1)) < 128" "skip_ws t i - 1 < length t"
    using skip_ws_before[of i t] skip_ws_bounds[OF assms(2)] ascii_ws_small by auto
  from ascii_boundary_Suc[OF assms(1) this(2,1)] True show ?thesis by simp
next
  case False
  with skip_ws_ge[of i t] assms(3) show ?thesis by simp
qed

lemma back_ws_boundary:
  "is_char_boundary t s \<Longrightarrow> s \<le> length t \<Longrightarrow> is_char_boundary t (back_ws t s) \<and> back_ws t s \<le> s"
proof (induction t s rule: back_ws.induct)
  case (2 t s)
  show ?case
  proof (cases "is_ascii_ws (t ! s)")
    case True
    with "2.prems" have "is_char_boundary t s"
      by (simp add: ascii_boundary ascii_ws_small)
    with "2.IH" True "2.prems" show ?thesis by simp
  next
    case False
    with "2.prems" show ?thesis by simp
  qed
qed simp

lemma back_ws_stops: "i < s \<Longrightarrow> \<not> is_ascii_ws (t ! i) \<Longrightarrow> i < back_ws t s"
  by (induction t s rule: back_ws.induct) (auto simp: less_Suc_eq)

lemma cut_range_Some:
  "s \<le> e \<Longrightarrow> e \<le> length t \<Longrightarrow> is_char_boundary t s \<Longrightarrow> is_char_boundary t e \<Longrightarrow>
     cut_range t (s, e) = Some (take s t @ drop e t)"
  by (simp add: cut_range_def str_slice_def)

text \<open>The cuts lie apart, the last one first, and every end is a character boundary.\<close>

lemma entry_cuts_ok:
  assumes t: "utf8_ok t" "mask t = Some m"
    and ms: "members_ok m lo hi ms" "target \<in> set ms"
    and cuts: "entry_cuts t m ms target = Some cuts"
  shows "(\<exists>s e. cuts = [(s, e)] \<and> s \<le> e \<and> e \<le> length t \<and> is_char_boundary t s \<and> is_char_boundary t e) \<or>
    (\<exists>s e c. cuts = [(s, e), (c, c + 1)] \<and> c < s \<and> s \<le> e \<and> e \<le> length t \<and>
       is_char_boundary t s \<and> is_char_boundary t e \<and> byte_is t c (CHR '',''))"
proof -
  note len = mask_length[OF t]
  have ok: "member_ok m target" using ms by (simp add: members_ok_def)
  note bd = member_boundaries[OF t ok]
  define after where "after = skip_ws m (mb_value_end target)"
  define idx where "idx = (case find_byte (\<lambda>m. mb_key_start m = mb_key_start target) ms of Some i \<Rightarrow> i | None \<Rightarrow> 0)"
  have ks: "mb_key_start target < length t" "is_char_boundary t (mb_key_start target)"
    using bd ascii_boundary[of "mb_key_start target" t] by auto
  note unf = cuts[unfolded entry_cuts_def Let_def after_def[symmetric] idx_def[symmetric]]
  show ?thesis
  proof (cases "byte_is m after (CHR '','')")
    case True
    then have a: "byte_is t after (CHR '','')"
      by (rule mask_keeps[OF t]) (simp add: is_ascii_ws_def)
    then have "is_char_boundary t (after + 1)" "after + 1 \<le> length t"
      using ascii_boundary_Suc[OF t(1), of after] by (auto simp: byte_is_def)
    from skip_ws_boundary[OF t(1) this(2,1)] skip_ws_bounds[OF this(2)]
    have "is_char_boundary t (skip_ws t (after + 1))" "after + 1 \<le> skip_ws t (after + 1)"
        "skip_ws t (after + 1) \<le> length t" by auto
    moreover have "mb_key_start target \<le> after"
      using skip_ws_ge[of "mb_value_end target" m] bd by (simp add: after_def)
    ultimately show ?thesis using unf True ks by auto
  next
    case False
    define start where "start = back_ws t (mb_key_start target)"
    have start: "is_char_boundary t start" "start \<le> mb_key_start target"
      using back_ws_boundary[OF ks(2)] ks(1) by (simp_all add: start_def)
    show ?thesis
    proof (cases "0 < idx")
      case False
      with unf \<open>\<not> byte_is m after (CHR '','')\<close> start bd show ?thesis by (auto simp: start_def)
    next
      case True
      define prev where "prev = ms ! (idx - 1)"
      define comma where "comma = skip_ws m (mb_value_end prev)"
      have c: "byte_is m comma (CHR '','')" "cuts = [(start, mb_value_end target), (comma, comma + 1)]"
        using unf True \<open>\<not> byte_is m after (CHR '','')\<close>
        by (auto simp: prev_def comma_def start_def split: if_splits)
      have i: "idx < length ms" "mb_key_start (ms ! idx) = mb_key_start target"
        using True find_byte_Some[of "\<lambda>m. mb_key_start m = mb_key_start target" ms idx]
        by (auto simp: idx_def split: option.splits)
      have "mb_value_end prev \<le> mb_key_start target"
        using ms(1) i True unfolding members_ok_def prev_def
        by (metis diff_less less_numeral_extra(1) sorted_wrt_nth_less)
      moreover have "byte_is m (mb_key_start target) dquote"
        using ok by (simp add: member_ok_def)
      ultimately have "comma \<le> mb_key_start target"
        unfolding comma_def by (intro skip_ws_reach) (auto simp: byte_is_def)
      then have "comma < mb_key_start target"
        using c(1) ok by (auto simp: byte_is_def member_ok_def le_less)
      moreover have tc: "byte_is t comma (CHR '','')"
        by (rule mask_keeps[OF t c(1)]) (simp add: is_ascii_ws_def)
      ultimately have "comma < start"
        unfolding start_def by (intro back_ws_stops) (auto simp: byte_is_def is_ascii_ws_def)
      with c(2) tc start bd show ?thesis by auto
    qed
  qed
qed

lemma subseq_cut: "s \<le> e \<Longrightarrow> subseq (take s t @ drop e t) t"
proof -
  assume "s \<le> e"
  then have "drop s t = take (e - s) (drop s t) @ drop e t"
    by (metis append_take_drop_id drop_drop le_add_diff_inverse2)
  then have "subseq (drop e t) (drop s t)"
    by (metis subseq_drop_many subseq_order.order_refl)
  then have "subseq (take s t @ drop e t) (take s t @ drop s t)"
    by (intro list_emb_append_mono) simp_all
  then show ?thesis by simp
qed

lemma cut_all_Some:
  assumes "utf8_ok t" "mask t = Some m" "members_ok m lo hi ms" "target \<in> set ms"
    "entry_cuts t m ms target = Some cuts"
  shows "\<exists>t'. cut_all t (rev (sort_key fst cuts)) = Some t' \<and> subseq t' t"
  using entry_cuts_ok[OF assms]
proof (elim disjE exE conjE)
  fix s e assume c: "cuts = [(s, e)]" "s \<le> e" "e \<le> length t" "is_char_boundary t s" "is_char_boundary t e"
  then show ?thesis by (auto simp: cut_range_Some subseq_cut)
next
  fix s e c assume c: "cuts = [(s, e), (c, c + 1)]" "c < s" "s \<le> e" "e \<le> length t"
    "is_char_boundary t s" "is_char_boundary t e" "byte_is t c (CHR '','')"
  let ?t = "take s t @ drop e t"
  have u: "utf8_ok ?t"
    using utf8_ok_split[OF assms(1) c(5)] utf8_ok_split[OF assms(1) c(6)] by simp
  have at: "c < length ?t" "?t ! c = CHR '',''"
    using c by (auto simp: byte_is_def nth_append)
  have "cut_range ?t (c, c + 1) = Some (take c ?t @ drop (c + 1) ?t)"
    using at ascii_boundary_Suc[OF u at(1)] ascii_boundary[OF at(1)] by (intro cut_range_Some) auto
  moreover have "cut_range t (s, e) = Some ?t"
    using c by (intro cut_range_Some)
  moreover have "rev (sort_key fst cuts) = [(s, e), (c, c + 1)]"
    using c(1,2) by simp
  moreover have "subseq (take c ?t @ drop (c + 1) ?t) t"
    using subseq_cut[of c "c + 1" ?t] subseq_cut[OF c(3), of t] by (metis le_add1 subseq_order.order_trans)
  ultimately show ?thesis by auto
qed

definition spliced :: "json_lib \<Rightarrow> string \<Rightarrow> string \<Rightarrow> string \<Rightarrow> bool" where
  "spliced lib t m t' \<longleftrightarrow>
     (\<exists>i src. i \<le> length t \<and> t' = take i t @ src @ drop i t) \<or>
     (\<exists>start ms mb src. members lib m start = Some ms \<and> mb \<in> set ms \<and> mb_key mb = SERVER \<and>
        t' = take (mb_value_start mb) t @ src @ drop (mb_value_end mb) t)"

lemma upsert_in_Some:
  assumes "utf8_ok t" "mask t = Some m" "members lib m start = Some ms"
  shows "\<exists>res. upsert_in lib t m entry src refuse_new start ms = Some res \<and>
    (\<forall>t'. res = Inr t' \<longrightarrow> spliced lib t m t' \<and> \<not> refuse_new) \<and> (\<forall>t'. res \<noteq> Inl (Changed t'))"
proof -
  obtain hi where ms: "members_ok m (start + 1) hi ms" "byte_is m start (CHR ''{'')"
    using members_facts[OF assms(3)] by auto
  show ?thesis
  proof (cases "find_unique ms SERVER")
    case (Inr res)
    show ?thesis
    proof (cases res)
      case None
      with Inr insert_member_Some[OF assms(1,2) ms(2,1)] show ?thesis
        unfolding upsert_in_def spliced_def by fastforce
    next
      case (Some mb)
      then have mb: "mb \<in> set ms" "mb_key mb = SERVER" "member_ok m mb"
        using find_unique_mem Inr ms(1) by (auto simp: members_ok_def)
      obtain s where s: "str_slice m (mb_value_start mb) (mb_value_end mb) = Some s"
        using member_boundaries[OF assms(1,2) mb(3)] mask_length[OF assms(1,2)] by (simp add: str_slice_def)
      have "spliced lib t m (take (mb_value_start mb) t @ src @ drop (mb_value_end mb) t)"
        using mb(1,2) assms(3) unfolding spliced_def by blast
      with Inr Some s show ?thesis
        by (simp add: upsert_in_def replace_value_Some[OF assms(1,2) mb(3)])
    qed
  qed (simp add: upsert_in_def)
qed

lemma upsert_text_Some:
  assumes "utf8_ok t" "mask t = Some m" "members lib m start = Some ms"
  shows "\<exists>res. upsert_text lib t m root_obj start ms top_key entry src refuse_new = Some res \<and>
    (\<forall>t'. res = Inr t' \<longrightarrow> spliced lib t m t' \<and> \<not> refuse_new) \<and> (\<forall>t'. res \<noteq> Inl (Changed t'))"
proof -
  obtain hi where ms: "members_ok m (start + 1) hi ms" "byte_is m start (CHR ''{'')"
    using members_facts[OF assms(3)] by auto
  show ?thesis
  proof (cases "find_unique ms top_key")
    case (Inr res)
    show ?thesis
    proof (cases res)
      case None
      with Inr insert_member_Some[OF assms(1,2) ms(2,1)] show ?thesis
        unfolding upsert_text_def spliced_def by fastforce
    next
      case (Some mb)
      with Inr upsert_in_Some[OF assms(1,2), of lib "mb_value_start mb"] show ?thesis
        by (auto simp: upsert_text_def split: option.splits json.splits)
    qed
  qed (simp add: upsert_text_def)
qed

lemma upsert_returns:
  assumes "utf8_ok t"
  shows "\<exists>res. upsert lib t top_key entry schema refuse_new = Some res \<and>
    (\<forall>t'. res = Changed t' \<longrightarrow> \<not> refuse_new \<and> (trim t \<noteq> [] \<longrightarrow>
       (\<exists>m root expected. mask t = Some m \<and> jl_value lib m = Some (JObject root) \<and>
          with_entry top_key entry root = Some expected \<and> parses_to lib t' expected \<and> spliced lib t m t')))"
proof (cases "trim t = []")
  case False
  show ?thesis
  proof (cases "mask t")
    case m: (Some m)
    show ?thesis
    proof (cases "\<exists>root ms src. jl_value lib m = Some (JObject root) \<and> members lib m (skip_ws m 0) = Some ms \<and>
        jl_print lib entry = Some src")
      case True
      then obtain root ms src where r: "jl_value lib m = Some (JObject root)"
          "members lib m (skip_ws m 0) = Some ms" "jl_print lib entry = Some src" by auto
      obtain res where res: "upsert_text lib t m root (skip_ws m 0) ms top_key entry src refuse_new = Some res"
          "\<And>t'. res = Inr t' \<Longrightarrow> spliced lib t m t' \<and> \<not> refuse_new" "\<And>t'. res \<noteq> Inl (Changed t')"
        using upsert_text_Some[OF assms m r(2)] by blast
      have u: "upsert lib t top_key entry schema refuse_new =
          Some (case res of
                  Inl x \<Rightarrow> x
                | Inr new_text \<Rightarrow>
                    (case with_entry top_key entry root of
                       None \<Rightarrow> Skipped UNSAFE_EDIT
                     | Some expected \<Rightarrow>
                         if parses_to lib new_text expected then Changed new_text else Skipped UNSAFE_EDIT))"
        using False m r res(1) by (simp add: upsert_def)
      show ?thesis
      proof (cases res)
        case (Inl x)
        with u res(3) show ?thesis by auto
      next
        case (Inr t')
        with u res(2) m r(1) show ?thesis by (auto split: option.splits if_splits)
      qed
    next
      case no: False
      then show ?thesis
        using False m by (auto simp: upsert_def split: option.splits json.splits)
    qed
  qed (simp add: upsert_def False)
qed (simp add: upsert_def split: option.splits)

lemma remove_target_facts:
  assumes "remove_target lib m top_key = Some (ms, target)"
  shows "target \<in> set ms \<and> mb_key target = SERVER \<and> (\<exists>lo hi. members_ok m lo hi ms)"
  using assms members_facts(2) find_unique_mem
  by (fastforce simp: remove_target_def split: option.splits sum.splits)

lemma remove_returns:
  assumes "utf8_ok t"
  shows "\<exists>res. remove_entry lib t top_key schema = Some res \<and>
    (\<forall>t'. res = Cut t' \<longrightarrow> subseq t' t \<and>
       (\<exists>m root. mask t = Some m \<and> jl_value lib m = Some (JObject root) \<and>
          parses_to lib t' (without_entry top_key root)))"
proof (cases "mask t")
  case (Some m)
  show ?thesis
  proof (cases "jl_value lib m")
    case root: (Some root)
    show ?thesis
    proof (cases "has_entry top_key root")
      case obj: (Some root_obj)
      then have "root = JObject root_obj"
        by (auto simp: has_entry_def split: json.splits option.splits if_splits)
      show ?thesis
      proof (cases "remove_target lib m top_key")
        case tgt: (Some p)
        obtain ms target where p: "p = (ms, target)" by (cases p)
        with tgt obtain lo hi where "target \<in> set ms" "members_ok m lo hi ms"
          using remove_target_facts by blast
        show ?thesis
        proof (cases "entry_cuts t m ms target")
          case cuts: (Some cuts)
          from cut_all_Some[OF assms Some \<open>members_ok m lo hi ms\<close> \<open>target \<in> set ms\<close> cuts]
          obtain t' where "cut_all t (rev (sort_key fst cuts)) = Some t'" "subseq t' t" by auto
          with Some root obj tgt p cuts \<open>root = JObject root_obj\<close> show ?thesis
            by (auto simp: remove_entry_def Let_def split: if_splits)
        qed (simp add: remove_entry_def Some root obj tgt p)
      qed (simp add: remove_entry_def Some root obj)
    qed (simp add: remove_entry_def Some root)
  qed (simp add: remove_entry_def Some)
qed (simp add: remove_entry_def)

subsection \<open>Properties\<close>

text \<open>C16: On every valid text the in-place scanner computes what a one-pass lexer computes: comments
  outside strings are blanked byte for byte except for line ends, then every comma before a closing
  bracket; an unclosed block comment, and nothing else, has no result.\<close>

theorem mask_is_lexer:
  assumes "utf8_ok t"
  shows "mask t = map_option (untrail Code) (uncomment Code t)"
  by (rule mask_eq[OF assms])

theorem mask_is_lexer_witness:
  "mask ''[1,/*,*/]'' = map_option (untrail Code) (uncomment Code ''[1,/*,*/]'') \<and>
   uncomment Code ''[1,/*,*/]'' = Some ''[1,     ]'' \<and> untrail Code ''[1,     ]'' = ''[1      ]''"
  using mask_is_lexer[of "''[1,/*,*/]''"]
  by (simp add: uncomment.simps(2) next_is_def blank_byte_def is_ascii_ws_def)



text \<open>A changed file was asked for, parses to the old document with exactly the entry set, and is
  the old text with one insertion, or with the value of an existing entry replaced.\<close>

lemma upsert_changed:
  assumes "utf8_ok t" "trim t \<noteq> []" "upsert lib t top_key entry schema refuse_new = Some (Changed t')"
  shows "\<not> refuse_new \<and>
    (\<exists>m root expected. mask t = Some m \<and> jl_value lib m = Some (JObject root) \<and>
       with_entry top_key entry root = Some expected \<and> parses_to lib t' expected \<and> spliced lib t m t')"
  using upsert_returns[OF assms(1), of lib top_key entry schema refuse_new] assms(2,3) by auto

lemma upsert_changed_witness:
  "\<not> False \<and>
    (\<exists>m root expected. mask ''{}'' = Some m \<and>
       jl_value (\<lparr>jl_value = \<lambda>s. Some (JObject (if s = ''{}'' then [] else [(''mcp'', JObject [(SERVER, JNull)])])),
         jl_string = Some, jl_print = \<lambda>v. Some ''null'', jl_pretty = \<lambda>v. None\<rparr>) m = Some (JObject root) \<and>
       with_entry ''mcp'' JNull root = Some expected \<and>
       parses_to (\<lparr>jl_value = \<lambda>s. Some (JObject (if s = ''{}'' then [] else [(''mcp'', JObject [(SERVER, JNull)])])),
         jl_string = Some, jl_print = \<lambda>v. Some ''null'', jl_pretty = \<lambda>v. None\<rparr>) (CHR ''{'' # dquote # ''mcp'' @ dquote # '': {'' @ dquote # SERVER @ dquote # '': null}}'') expected \<and>
       spliced (\<lparr>jl_value = \<lambda>s. Some (JObject (if s = ''{}'' then [] else [(''mcp'', JObject [(SERVER, JNull)])])),
         jl_string = Some, jl_print = \<lambda>v. Some ''null'', jl_pretty = \<lambda>v. None\<rparr>) ''{}'' m (CHR ''{'' # dquote # ''mcp'' @ dquote # '': {'' @ dquote # SERVER @ dquote # '': null}}''))"
proof (rule upsert_changed[where schema = None])
  let ?lib = "(\<lparr>jl_value = \<lambda>s. Some (JObject (if s = ''{}'' then [] else [(''mcp'', JObject [(SERVER, JNull)])])),
         jl_string = Some, jl_print = \<lambda>v. Some ''null'', jl_pretty = \<lambda>v. None\<rparr>)"
  have facts: "trim ''{}'' \<noteq> []" "mask ''{}'' = Some ''{}''" "skip_ws ''{}'' 0 = 0" "members ?lib ''{}'' 0 = Some []"
      "upsert_text ?lib ''{}'' ''{}'' [] 0 [] ''mcp'' JNull ''null'' False = Some (Inr (CHR ''{'' # dquote # ''mcp'' @ dquote # '': {'' @ dquote # SERVER @ dquote # '': null}}''))"
      "with_entry ''mcp'' JNull [] = Some (JObject [(''mcp'', JObject [(SERVER, JNull)])])"
      "parses_to ?lib (CHR ''{'' # dquote # ''mcp'' @ dquote # '': {'' @ dquote # SERVER @ dquote # '': null}}'') (JObject [(''mcp'', JObject [(SERVER, JNull)])])"
    by code_simp+
  have "jl_value ?lib ''{}'' = Some (JObject [])" "jl_print ?lib JNull = Some ''null''"
    by simp_all
  with facts show "upsert ?lib ''{}'' ''mcp'' JNull None False = Some (Changed (CHR ''{'' # dquote # ''mcp'' @ dquote # '': {'' @ dquote # SERVER @ dquote # '': null}}''))"
    unfolding upsert_def by (simp only: option.case json.case sum.case if_False if_True Option.bind.bind_lunit)
  show "utf8_ok ''{}''" "trim ''{}'' \<noteq> []"
    by (simp, rule facts)
qed

text \<open>A removal only cuts: the new text is a subsequence of the old one, and it parses to the old
  document without the entry.\<close>

lemma removal_only_cuts:
  assumes "utf8_ok t" "remove_entry lib t top_key schema = Some (Cut t')"
  shows "subseq t' t \<and>
    (\<exists>m root. mask t = Some m \<and> jl_value lib m = Some (JObject root) \<and>
       parses_to lib t' (without_entry top_key root))"
  using remove_returns[OF assms(1), of lib top_key schema] assms(2) by auto

lemma removal_only_cuts_witness:
  "subseq (CHR ''{'' # dquote # ''mcp'' @ dquote # '':{/*'' @ [CHR 0xC3, CHR 0xA9] @ ''*/,}}'') (CHR ''{'' # dquote # ''mcp'' @ dquote # '':{/*'' @ [CHR 0xC3, CHR 0xA9] @ ''*/'' @ dquote # SERVER @ dquote # '':1,}}'') \<and>
    (\<exists>m root. mask (CHR ''{'' # dquote # ''mcp'' @ dquote # '':{/*'' @ [CHR 0xC3, CHR 0xA9] @ ''*/'' @ dquote # SERVER @ dquote # '':1,}}'') = Some m \<and>
       jl_value (\<lparr>jl_value = \<lambda>s. Some (JObject [(''mcp'', JObject (if 20 < length s then [(SERVER, JNull)] else []))]),
         jl_string = \<lambda>s. Some (butlast (tl s)), jl_print = \<lambda>v. Some ''null'', jl_pretty = \<lambda>v. None\<rparr>) m = Some (JObject root) \<and>
       parses_to (\<lparr>jl_value = \<lambda>s. Some (JObject [(''mcp'', JObject (if 20 < length s then [(SERVER, JNull)] else []))]),
         jl_string = \<lambda>s. Some (butlast (tl s)), jl_print = \<lambda>v. Some ''null'', jl_pretty = \<lambda>v. None\<rparr>) (CHR ''{'' # dquote # ''mcp'' @ dquote # '':{/*'' @ [CHR 0xC3, CHR 0xA9] @ ''*/,}}'') (without_entry ''mcp'' root))"
  by (rule removal_only_cuts[where schema = None]) code_simp+

end
