(* ===== verification/Sidecar_Version.thy ===== *)
theory Sidecar_Version
  imports Rust_Path
begin

section \<open>The version contract of the side-car binaries\<close>

text \<open>
  \<open>crates/travsr-plugin-host/src/sidecar_version.rs\<close>: versions, the compatibility floor, the
  transition-only log and the cache of latest releases. Version numbers are natural numbers that
  \<open>parse_uint\<close> keeps within \<open>u64\<close>. The subprocess of \<open>--version\<close> is the argument \<open>probe\<close>, the
  recorded version file and the cache file are their contents, \<open>serde_json\<close> is a pair of functions,
  and the three process-wide maps of the log are the record \<open>log_memory\<close>.
\<close>

subsection \<open>Versions\<close>

datatype semver = Semver (sv_major: nat) (sv_minor: nat) (sv_patch: nat)

instantiation semver :: linorder
begin

definition less_eq_semver :: "semver \<Rightarrow> semver \<Rightarrow> bool" where
  "less_eq_semver a b \<longleftrightarrow>
     sv_major a < sv_major b \<or> sv_major a = sv_major b \<and>
       (sv_minor a < sv_minor b \<or> sv_minor a = sv_minor b \<and> sv_patch a \<le> sv_patch b)"

definition less_semver :: "semver \<Rightarrow> semver \<Rightarrow> bool" where
  "less_semver a b \<longleftrightarrow> a \<le> b \<and> \<not> b \<le> (a :: semver)"

instance
  by intro_classes (auto simp: less_eq_semver_def less_semver_def semver.expand)

end

definition ZERO :: semver where "ZERO = Semver 0 0 0"

definition semver_ok :: "semver \<Rightarrow> bool" where
  "semver_ok v \<longleftrightarrow> sv_major v \<le> u64_max \<and> sv_minor v \<le> u64_max \<and> sv_patch v \<le> u64_max"

definition semver_fmt :: "semver \<Rightarrow> string" where
  "semver_fmt v = show_nat (sv_major v) @ ''.'' @ show_nat (sv_minor v) @ ''.'' @ show_nat (sv_patch v)"

definition leading_u64 :: "string \<Rightarrow> nat option" where
  "leading_u64 s = parse_uint u64_max (takeWhile is_ascii_digit s)"

definition parse_semver_token :: "string \<Rightarrow> semver option" where
  "parse_semver_token tok =
     do { start \<leftarrow> find_byte is_ascii_digit tok;
          case split_on (\<lambda>c. c = CHR ''.'') (drop start tok) of
            p # q # r # _ \<Rightarrow>
              do { major \<leftarrow> leading_u64 p; minor \<leftarrow> leading_u64 q; patch \<leftarrow> leading_u64 r;
                   Some (Semver major minor patch) }
          | _ \<Rightarrow> None }"

definition parse_sidecar_version :: "string \<Rightarrow> semver option" where
  "parse_sidecar_version s = find_map parse_semver_token (split_whitespace s)"

subsection \<open>Reading an installed version\<close>

datatype probe_outcome = Parsed semver | Unreadable_Probe | TimedOut

definition read_version_file :: "string option \<Rightarrow> semver option" where
  "read_version_file recorded = (case recorded of None \<Rightarrow> None | Some s \<Rightarrow> parse_sidecar_version s)"

definition read_version_with :: "string option \<Rightarrow> string option \<Rightarrow> probe_outcome \<Rightarrow> probe_outcome" where
  "read_version_with recorded live probe =
     (case (case live of None \<Rightarrow> None | Some v \<Rightarrow> parse_sidecar_version v) of
        Some s \<Rightarrow> Parsed s
      | None \<Rightarrow>
          (case probe of
             Parsed s \<Rightarrow>
               if s = Semver 0 0 0
               then (case read_version_file recorded of None \<Rightarrow> Unreadable_Probe | Some f \<Rightarrow> Parsed f)
               else Parsed s
           | other \<Rightarrow> other))"

definition installed_version :: "string option \<Rightarrow> string option \<Rightarrow> probe_outcome \<Rightarrow> semver option" where
  "installed_version recorded live probe =
     (case read_version_with recorded live probe of Parsed s \<Rightarrow> Some s | _ \<Rightarrow> None)"

subsection \<open>The floor\<close>

record sidecar_spec =
  sp_install_name :: string
  sp_github_repo :: string
  sp_min_version :: semver
  sp_version_fallback :: string
  sp_pinned :: bool

datatype floor_verdict = Floor_Ok semver | BelowFloor semver semver | Unreadable semver
  | UnreadableNoFloor | ProbeTimeout semver

definition is_usable :: "floor_verdict \<Rightarrow> bool" where
  "is_usable st \<longleftrightarrow> (case st of Floor_Ok _ \<Rightarrow> True | UnreadableNoFloor \<Rightarrow> True | ProbeTimeout _ \<Rightarrow> True | _ \<Rightarrow> False)"

definition floor_status :: "sidecar_spec \<Rightarrow> probe_outcome \<Rightarrow> floor_verdict" where
  "floor_status spec seen =
     (let required = sp_min_version spec
      in case seen of
           Parsed v \<Rightarrow> if required \<le> v then Floor_Ok v else BelowFloor v required
         | other \<Rightarrow>
             if required = ZERO then UnreadableNoFloor
             else if other = TimedOut then ProbeTimeout required
             else Unreadable required)"

definition below_floor_message :: "string \<Rightarrow> semver \<Rightarrow> semver \<Rightarrow> string \<Rightarrow> string" where
  "below_floor_message install_name installed required remedy =
     install_name @ '' v'' @ semver_fmt installed @ '' is below the required v'' @ semver_fmt required
       @ '' - run: '' @ remedy"

definition unreadable_message :: "string \<Rightarrow> semver \<Rightarrow> string \<Rightarrow> string" where
  "unreadable_message install_name required remedy =
     install_name @ '' version could not be read, so it cannot be confirmed at or above the required v''
       @ semver_fmt required @ '' - run: '' @ remedy"

subsection \<open>The log\<close>

record log_memory =
  lm_below :: "string \<rightharpoonup> semver"
  lm_stale :: "string \<rightharpoonup> semver \<times> semver"
  lm_names :: "(string \<times> string) set"

definition fresh_memory :: log_memory where
  "fresh_memory = \<lparr>lm_below = Map.empty, lm_stale = Map.empty, lm_names = {}\<rparr>"

definition note_below_floor_transition :: "string \<Rightarrow> semver \<Rightarrow> log_memory \<Rightarrow> bool \<times> log_memory" where
  "note_below_floor_transition name installed lm =
     (if lm_below lm name = Some installed then (False, lm)
      else (True, lm\<lparr>lm_below := (lm_below lm)(name \<mapsto> installed)\<rparr>))"

definition note_stale_transition :: "string \<Rightarrow> semver \<Rightarrow> semver \<Rightarrow> log_memory \<Rightarrow> bool \<times> log_memory" where
  "note_stale_transition name installed latest lm =
     (if lm_stale lm name = Some (installed, latest) then (False, lm)
      else (True, lm\<lparr>lm_stale := (lm_stale lm)(name \<mapsto> (installed, latest))\<rparr>))"

definition note_name_transition :: "string \<Rightarrow> string \<Rightarrow> log_memory \<Rightarrow> bool \<times> log_memory" where
  "note_name_transition kind name lm =
     ((kind, name) \<notin> lm_names lm, lm\<lparr>lm_names := insert (kind, name) (lm_names lm)\<rparr>)"

datatype log_event =
    Ev_Checked string string string semver string
  | Ev_Below string semver semver string
  | Ev_Unreadable string semver
  | Ev_Timeout string semver
  | Ev_Stale string semver semver

definition checked_event :: "string \<Rightarrow> sidecar_spec \<Rightarrow> floor_verdict \<Rightarrow> log_event" where
  "checked_event family spec status =
     (let (installed, disposition) =
        (case status of
           Floor_Ok v \<Rightarrow> (semver_fmt v, ''ok'')
         | BelowFloor v _ \<Rightarrow> (semver_fmt v, ''below_floor'')
         | Unreadable _ \<Rightarrow> (''unreadable'', ''unreadable'')
         | UnreadableNoFloor \<Rightarrow> (''unreadable'', ''unreadable_no_floor'')
         | ProbeTimeout _ \<Rightarrow> (''timeout'', ''probe_timeout''))
      in Ev_Checked family (sp_install_name spec) installed (sp_min_version spec) disposition)"

definition log_if :: "bool \<times> log_memory \<Rightarrow> log_event \<Rightarrow> log_event list \<times> log_memory" where
  "log_if r ev = (if fst r then [ev] else [], snd r)"

definition status_events :: "sidecar_spec \<Rightarrow> semver option \<Rightarrow> string \<Rightarrow> floor_verdict \<Rightarrow> log_memory
    \<Rightarrow> log_event list \<times> log_memory" where
  "status_events spec latest remedy status lm =
     (let name = sp_install_name spec
      in case status of
           BelowFloor installed required \<Rightarrow>
             log_if (note_below_floor_transition name installed lm) (Ev_Below name installed required remedy)
         | Unreadable required \<Rightarrow>
             log_if (note_name_transition ''unreadable'' name lm) (Ev_Unreadable name required)
         | ProbeTimeout required \<Rightarrow>
             log_if (note_name_transition ''probe_timeout'' name lm) (Ev_Timeout name required)
         | UnreadableNoFloor \<Rightarrow> ([], lm)
         | Floor_Ok installed \<Rightarrow>
             (case latest of
                None \<Rightarrow> ([], lm)
              | Some l \<Rightarrow>
                  if installed < l
                  then log_if (note_stale_transition name installed l lm) (Ev_Stale name installed l)
                  else ([], lm)))"

text \<open>One check: what the binary's version reads as and what the cache holds are its inputs.\<close>

definition check_and_log :: "string \<Rightarrow> sidecar_spec \<Rightarrow> probe_outcome \<Rightarrow> semver option \<Rightarrow> string
    \<Rightarrow> log_memory \<Rightarrow> floor_verdict \<times> log_event list \<times> log_memory" where
  "check_and_log family spec seen latest remedy lm =
     (let status = floor_status spec seen;
          (evs, lm') = status_events spec latest remedy status lm
      in (status, checked_event family spec status # evs, lm'))"

subsection \<open>The cache of latest releases\<close>

definition LATEST_TTL_SECS :: nat where "LATEST_TTL_SECS = 86400"

type_synonym latest_cache = "string \<rightharpoonup> string \<times> nat"

definition load_cache_at :: "(string \<Rightarrow> latest_cache option) \<Rightarrow> string option \<Rightarrow> latest_cache" where
  "load_cache_at de file =
     (case file of
        Some s \<Rightarrow> (case de s of Some c \<Rightarrow> c | None \<Rightarrow> Map.empty)
      | None \<Rightarrow> Map.empty)"

definition read_cached_latest_at :: "(string \<Rightarrow> latest_cache option) \<Rightarrow> string option \<Rightarrow> string \<Rightarrow> nat
    \<Rightarrow> semver option" where
  "read_cached_latest_at de file name now =
     (case load_cache_at de file name of
        None \<Rightarrow> None
      | Some (latest, fetched_at) \<Rightarrow>
          if LATEST_TTL_SECS < now - fetched_at then None else parse_sidecar_version latest)"

definition write_cached_latest_at :: "(string \<Rightarrow> latest_cache option) \<Rightarrow> (latest_cache \<Rightarrow> string option)
    \<Rightarrow> (string option \<Rightarrow> string \<Rightarrow> string option) \<Rightarrow> string option \<Rightarrow> string \<Rightarrow> string \<Rightarrow> nat \<Rightarrow> string option" where
  "write_cached_latest_at de ser write file name tag now =
     (case ser ((load_cache_at de file)(name \<mapsto> (tag, now))) of
        Some s \<Rightarrow> write file s
      | None \<Rightarrow> file)"

subsection \<open>Reading back what is printed\<close>

definition ascii_text :: "string \<Rightarrow> bool" where
  "ascii_text s \<longleftrightarrow> (\<forall>c\<in>set s. byte c < 128)"

lemma chars_ascii: "ascii_text s \<Longrightarrow> chars s = map (\<lambda>c. [c]) s"
  by (induction s) (auto simp: ascii_text_def)

lemma digit_ascii: "is_ascii_digit c \<Longrightarrow> byte c < 128 \<and> \<not> is_whitespace [c] \<and> c \<noteq> CHR ''.''"
  by (auto simp: is_ascii_digit_def is_whitespace_def Let_def)

lemma leading_u64_show:
  "n \<le> u64_max \<Longrightarrow> t = [] \<or> \<not> is_ascii_digit (hd t) \<Longrightarrow> leading_u64 (show_nat n @ t) = Some n"
proof -
  assume n: "n \<le> u64_max" and t: "t = [] \<or> \<not> is_ascii_digit (hd t)"
  have "takeWhile is_ascii_digit (show_nat n @ t) = show_nat n @ takeWhile is_ascii_digit t"
    using show_nat_digits[of n] by (intro takeWhile_append2) auto
  moreover have "takeWhile is_ascii_digit t = []"
    using t by (cases t) auto
  moreover have "show_nat n \<noteq> CHR ''+'' # u" for u
    using show_nat_digits[of n] by (auto simp: is_ascii_digit_def)
  then have "(case show_nat n of CHR ''+'' # u \<Rightarrow> u | _ \<Rightarrow> show_nat n) = show_nat n"
    by (auto split: list.splits char.splits bool.splits)
  ultimately show ?thesis
    using n show_nat_digits[of n] by (simp add: leading_u64_def parse_uint_def Let_def digits_value_show)
qed

lemma hd_split_on: "\<exists>rest. split_on P s = takeWhile (\<lambda>c. \<not> P c) s # rest"
  by (induction s) (auto split: list.splits)

lemma find_byte_skip: "\<forall>c\<in>set p. \<not> P c \<Longrightarrow> P d \<Longrightarrow> find_byte P (p @ d # s) = Some (length p)"
  by (induction p) auto

lemma token_read:
  assumes "semver_ok v" "\<forall>c\<in>set p. \<not> is_ascii_digit c" "s = [] \<or> \<not> is_ascii_digit (hd s)"
  shows "parse_semver_token (p @ semver_fmt v @ s) = Some v"
proof -
  obtain a b c where v: "v = Semver a b c" by (cases v)
  have dig: "\<forall>x\<in>set (show_nat n). x \<noteq> CHR ''.''" for n
    using show_nat_digits[of n] digit_ascii by blast
  obtain d ds where d: "show_nat a = d # ds" "is_ascii_digit d"
    using show_nat_digits[of a] by (cases "show_nat a") auto
  have start: "find_byte is_ascii_digit (p @ semver_fmt v @ s) = Some (length p)"
    using find_byte_skip[OF assms(2) d(2)] by (simp add: semver_fmt_def v d(1))
  obtain rest where r: "split_on (\<lambda>c. c = CHR ''.'') (show_nat c @ s) =
      takeWhile (\<lambda>x. x \<noteq> CHR ''.'') (show_nat c @ s) # rest"
    using hd_split_on by blast
  have parts: "split_on (\<lambda>c. c = CHR ''.'') (semver_fmt v @ s) =
      show_nat a # show_nat b # (show_nat c @ takeWhile (\<lambda>x. x \<noteq> CHR ''.'') s) # rest"
    using dig r by (simp add: semver_fmt_def v split_on_sep)
  have tail: "takeWhile (\<lambda>x. x \<noteq> CHR ''.'') s = [] \<or> \<not> is_ascii_digit (hd (takeWhile (\<lambda>x. x \<noteq> CHR ''.'') s))"
    using assms(3) by (cases s) auto
  have "a \<le> u64_max" "b \<le> u64_max" "c \<le> u64_max"
    using assms(1) by (simp_all add: v semver_ok_def)
  then show ?thesis
    using start parts leading_u64_show[of a "[]"] leading_u64_show[of b "[]"] leading_u64_show[OF _ tail]
    by (simp add: parse_semver_token_def v)
qed

lemma no_digit_no_version: "\<forall>c\<in>set w. \<not> is_ascii_digit c \<Longrightarrow> parse_semver_token w = None"
  using find_byte_None[of is_ascii_digit w] by (simp add: parse_semver_token_def)

lemma ws_split_ascii:
  "w \<noteq> [] \<Longrightarrow> \<forall>c\<in>set w. \<not> is_whitespace [c] \<Longrightarrow>
    \<exists>rest. ws_split (map (\<lambda>c. [c]) (w @ s)) cur =
      (cur @ w @ takeWhile (\<lambda>c. \<not> is_whitespace [c]) s) # rest"
proof (induction w arbitrary: cur)
  case (Cons c w)
  show ?case
  proof (cases "w = []")
    case False
    with Cons.IH[of "cur @ [c]"] Cons.prems show ?thesis by simp
  next
    case True
    have "cur' \<noteq> [] \<Longrightarrow> \<exists>rest. ws_split (map (\<lambda>c. [c]) s) cur' = (cur' @ takeWhile (\<lambda>c. \<not> is_whitespace [c]) s) # rest" for cur'
    proof (induction s arbitrary: cur')
      case (Cons x s)
      then show ?case using Cons.IH[of "cur' @ [x]"] by simp
    qed simp
    from this[of "cur @ [c]"] True Cons.prems show ?thesis by simp
  qed
qed simp

text \<open>A printed version reads back: in ASCII text without a digit before it (a program name, a
  tag prefix) and whatever follows it but a further digit, it is the version found.\<close>

lemma version_read_back:
  assumes "semver_ok v" "\<forall>c\<in>set p. byte c < 128 \<and> \<not> is_ascii_digit c"
    "ascii_text s" "s = [] \<or> \<not> is_ascii_digit (hd s)"
  shows "parse_sidecar_version (p @ semver_fmt v @ s) = Some v"
proof -
  let ?sing = "map (\<lambda>c :: char. [c])"
  have fmt: "semver_fmt v \<noteq> []" "\<forall>c\<in>set (semver_fmt v). byte c < 128 \<and> \<not> is_whitespace [c]"
    using show_nat_digits digit_ascii
    by (auto simp: semver_fmt_def is_whitespace_def Let_def)
  have "ascii_text (p @ semver_fmt v @ s)"
    using assms(2,3) fmt(2) by (auto simp: ascii_text_def)
  then have split: "split_whitespace (p @ semver_fmt v @ s) = ws_split (?sing (p @ semver_fmt v @ s)) []"
    by (simp add: split_whitespace_def chars_ascii)
  have "\<forall>c\<in>set cur. \<not> is_ascii_digit c \<Longrightarrow>
      find_map parse_semver_token (ws_split (?sing (p @ semver_fmt v @ s)) cur) = Some v" for cur
    using assms(2)
  proof (induction p arbitrary: cur)
    case Nil
    obtain rest where r: "ws_split (?sing (semver_fmt v @ s)) cur =
        (cur @ semver_fmt v @ takeWhile (\<lambda>c. \<not> is_whitespace [c]) s) # rest"
      using ws_split_ascii fmt by blast
    have "takeWhile (\<lambda>c. \<not> is_whitespace [c]) s = [] \<or>
        \<not> is_ascii_digit (hd (takeWhile (\<lambda>c. \<not> is_whitespace [c]) s))"
      using assms(4) by (cases s) auto
    from token_read[OF assms(1) Nil.prems(1) this] r show ?case by simp
  next
    case (Cons c p)
    show ?case
    proof (cases "is_whitespace [c]")
      case True
      with Cons.IH[of "[]"] Cons.prems show ?thesis
        by (auto simp: no_digit_no_version)
    next
      case False
      with Cons.IH[of "cur @ [c]"] Cons.prems show ?thesis by simp
    qed
  qed
  from this[of "[]"] split show ?thesis
    by (simp add: parse_sidecar_version_def)
qed

lemma version_read_back_witness:
  "parse_sidecar_version (''scip-ruby-v'' @ semver_fmt (Semver 0 4 17) @ ''-rc1 git 1.2.3'') = Some (Semver 0 4 17)"
  by (rule version_read_back)
     (simp_all add: semver_ok_def u64_max_def is_ascii_digit_def ascii_text_def)

subsection \<open>The floor on raw inputs\<close>

text \<open>A side-car may be used exactly when the version it reports (in the handshake, else by
  \<open>--version\<close>) is at least the required one, or its probe timed out, or no version can be read and
  none is required. The recorded version file decides only where the probe says 0.0.0.\<close>

lemma sidecar_usable_iff:
  "is_usable (floor_status spec (read_version_with recorded live probe)) \<longleftrightarrow>
     (case Option.bind live parse_sidecar_version of
        Some v \<Rightarrow> sp_min_version spec \<le> v
      | None \<Rightarrow>
          if probe = Parsed ZERO
          then (case Option.bind recorded parse_sidecar_version of
                  Some v \<Rightarrow> sp_min_version spec \<le> v
                | None \<Rightarrow> sp_min_version spec = ZERO)
          else probe = TimedOut \<or> (\<exists>v. probe = Parsed v \<and> sp_min_version spec \<le> v) \<or>
               (probe = Unreadable_Probe \<and> sp_min_version spec = ZERO))"
  by (auto simp: is_usable_def floor_status_def read_version_with_def read_version_file_def ZERO_def Let_def
      split: option.splits probe_outcome.splits Option.bind_splits)

subsection \<open>What is logged\<close>

record check_input =
  ci_family :: string
  ci_spec :: sidecar_spec
  ci_seen :: probe_outcome
  ci_latest :: "semver option"
  ci_remedy :: string

abbreviation ci_name :: "check_input \<Rightarrow> string" where
  "ci_name c \<equiv> sp_install_name (ci_spec c)"

definition ci_status :: "check_input \<Rightarrow> floor_verdict" where
  "ci_status c = floor_status (ci_spec c) (ci_seen c)"

fun run_checks :: "check_input list \<Rightarrow> log_memory \<Rightarrow> log_event list \<times> log_memory" where
  "run_checks [] lm = ([], lm)"
| "run_checks (c # cs) lm =
     (let (status, evs, lm1) = check_and_log (ci_family c) (ci_spec c) (ci_seen c) (ci_latest c) (ci_remedy c) lm;
          (evs', lm2) = run_checks cs lm1
      in (evs @ evs', lm2))"

fun below_of :: "string \<Rightarrow> log_event \<Rightarrow> semver option" where
  "below_of n (Ev_Below m v r h) = (if m = n then Some v else None)"
| "below_of n _ = None"

fun stale_of :: "string \<Rightarrow> log_event \<Rightarrow> (semver \<times> semver) option" where
  "stale_of n (Ev_Stale m v l) = (if m = n then Some (v, l) else None)"
| "stale_of n _ = None"

fun unreadable_of :: "string \<Rightarrow> log_event \<Rightarrow> unit option" where
  "unreadable_of n (Ev_Unreadable m r) = (if m = n then Some () else None)"
| "unreadable_of n _ = None"

definition seen_below :: "string \<Rightarrow> check_input \<Rightarrow> semver option" where
  "seen_below n c = (case ci_status c of BelowFloor v _ \<Rightarrow> if ci_name c = n then Some v else None | _ \<Rightarrow> None)"

definition seen_stale :: "string \<Rightarrow> check_input \<Rightarrow> (semver \<times> semver) option" where
  "seen_stale n c =
     (case (ci_status c, ci_latest c) of
        (Floor_Ok v, Some l) \<Rightarrow> if ci_name c = n \<and> v < l then Some (v, l) else None
      | _ \<Rightarrow> None)"

definition seen_unreadable :: "string \<Rightarrow> check_input \<Rightarrow> unit option" where
  "seen_unreadable n c = (case ci_status c of Unreadable _ \<Rightarrow> if ci_name c = n then Some () else None | _ \<Rightarrow> None)"

text \<open>The observations with every repetition of the previous one left out.\<close>

fun changes :: "'a option \<Rightarrow> 'a list \<Rightarrow> 'a list" where
  "changes prev [] = []"
| "changes prev (x # xs) = (if prev = Some x then changes prev xs else x # changes (Some x) xs)"

lemma changes_remdups: "changes None xs = remdups_adj xs"
proof -
  have "changes (Some x) xs = tl (remdups_adj (x # xs))" for x :: 'a and xs
    by (induction xs arbitrary: x) (auto simp: remdups_adj_Cons split: list.splits)
  then show ?thesis
    by (cases xs) (auto simp: remdups_adj_Cons split: list.splits)
qed

lemmas note_defs = log_if_def note_below_floor_transition_def note_stale_transition_def note_name_transition_def

definition events_of :: "check_input \<Rightarrow> log_memory \<Rightarrow> log_event list \<times> log_memory" where
  "events_of c lm = status_events (ci_spec c) (ci_latest c) (ci_remedy c) (ci_status c) lm"

definition known_unreadable :: "string \<Rightarrow> log_memory \<Rightarrow> unit option" where
  "known_unreadable n lm = (if (''unreadable'', n) \<in> lm_names lm then Some () else None)"

definition prefixed :: "'a option \<Rightarrow> 'a list \<Rightarrow> 'a list" where
  "prefixed x xs = (case x of Some y \<Rightarrow> y # xs | None \<Rightarrow> xs)"

lemma map_filter_Cons: "List.map_filter f (x # xs) = prefixed (f x) (List.map_filter f xs)"
  by (simp add: map_filter_simps prefixed_def)

lemmas events_defs = events_of_def status_events_def Let_def note_defs map_filter_simps prefixed_def

lemma below_step:
  "List.map_filter (below_of n) (fst (events_of c lm)) @ changes (lm_below (snd (events_of c lm)) n) xs =
     changes (lm_below lm n) (prefixed (seen_below n c) xs)"
  by (cases "ci_status c") (simp_all add: events_defs seen_below_def split: option.splits)

lemma stale_step:
  "List.map_filter (stale_of n) (fst (events_of c lm)) @ changes (lm_stale (snd (events_of c lm)) n) xs =
     changes (lm_stale lm n) (prefixed (seen_stale n c) xs)"
  by (cases "ci_status c"; cases "ci_latest c") (simp_all add: events_defs seen_stale_def)

lemma unreadable_step:
  "List.map_filter (unreadable_of n) (fst (events_of c lm)) @ changes (known_unreadable n (snd (events_of c lm))) xs =
     changes (known_unreadable n lm) (prefixed (seen_unreadable n c) xs)"
  by (cases "ci_status c"; cases "ci_latest c")
     (simp_all add: events_defs seen_unreadable_def known_unreadable_def)

lemma run_checks_Cons:
  "\<exists>a b d e f. fst (run_checks (c # cs) lm) =
     Ev_Checked a b d e f # fst (events_of c lm) @ fst (run_checks cs (snd (events_of c lm)))"
  by (auto simp: check_and_log_def events_of_def ci_status_def checked_event_def Let_def split: prod.splits)

lemma log_matches:
  assumes "\<And>c lm xs. List.map_filter g (fst (events_of c lm)) @ changes (mem (snd (events_of c lm))) xs =
      changes (mem lm) (prefixed (seen c) xs)"
    and "\<And>a b d e f. g (Ev_Checked a b d e f) = None"
  shows "List.map_filter g (fst (run_checks cs lm)) = changes (mem lm) (List.map_filter seen cs)"
proof (induction cs arbitrary: lm)
  case (Cons c cs)
  obtain a b d e f where run: "fst (run_checks (c # cs) lm) =
     Ev_Checked a b d e f # fst (events_of c lm) @ fst (run_checks cs (snd (events_of c lm)))"
    using run_checks_Cons by blast
  have "List.map_filter g (fst (run_checks (c # cs) lm)) =
      List.map_filter g (fst (events_of c lm)) @ changes (mem (snd (events_of c lm))) (List.map_filter seen cs)"
    unfolding run map_filter_Cons assms(2) map_filter_append Cons.IH by (simp add: prefixed_def)
  also have "\<dots> = changes (mem lm) (List.map_filter seen (c # cs))"
    unfolding assms(1) map_filter_Cons ..
  finally show ?case .
qed (simp add: map_filter_simps)

lemma changes_unit: "length (changes p (us :: unit list)) \<le> 1"
proof -
  have "changes (Some ()) us = []" for us
    by (induction us) simp_all
  then show ?thesis
    by (cases us; cases p) simp_all
qed

text \<open>Over any run of checks from a fresh process, the warnings of a side-car below the floor are
  its observed versions without immediate repetitions, the advisories the observed pairs of
  installed and latest version without immediate repetitions, and an unreadable version is warned of
  once. So a version seen again after another one is logged again.\<close>

lemma log_is_transitions:
  "List.map_filter (below_of n) (fst (run_checks cs fresh_memory)) = remdups_adj (List.map_filter (seen_below n) cs) \<and>
   List.map_filter (stale_of n) (fst (run_checks cs fresh_memory)) = remdups_adj (List.map_filter (seen_stale n) cs) \<and>
   length (List.map_filter (unreadable_of n) (fst (run_checks cs fresh_memory))) \<le> 1"
  unfolding log_matches[where mem = "\<lambda>lm. lm_below lm n", OF below_step below_of.simps(2)]
    log_matches[where mem = "\<lambda>lm. lm_stale lm n", OF stale_step stale_of.simps(2)]
    log_matches[where mem = "known_unreadable n", OF unreadable_step unreadable_of.simps(2)]
  by (simp add: fresh_memory_def changes_remdups changes_unit[unfolded One_nat_def])

subsection \<open>Properties of the cache\<close>

text \<open>Where the cache file is written and its text reads back, the release just recorded is what a
  reader finds for 24 hours after (or before) the recording and not later; the entries of other
  side-cars stay as they were.\<close>

lemma latest_cache_ttl:
  assumes "ser ((load_cache_at de file)(name \<mapsto> (tag, now))) = Some s"
    "de s = Some ((load_cache_at de file)(name \<mapsto> (tag, now)))" "write file s = Some s"
  shows "read_cached_latest_at de (write_cached_latest_at de ser write file name tag now) other t =
    (if other = name then (if t \<le> now + LATEST_TTL_SECS then parse_sidecar_version tag else None)
     else read_cached_latest_at de file other t)"
  using assms by (auto simp: write_cached_latest_at_def read_cached_latest_at_def load_cache_at_def)

lemma latest_cache_ttl_witness:
  "read_cached_latest_at (\<lambda>s. if s = ''x'' then Some [''e'' \<mapsto> (''v1.2.3'', 5)] else None)
     (write_cached_latest_at (\<lambda>s. if s = ''x'' then Some [''e'' \<mapsto> (''v1.2.3'', 5)] else None)
        (\<lambda>c. Some ''x'') (\<lambda>f s. Some s) None ''e'' ''v1.2.3'' 5) ''e'' 86406 =
     (if ''e'' = ''e'' then (if (86406 :: nat) \<le> 5 + LATEST_TTL_SECS then parse_sidecar_version ''v1.2.3'' else None)
      else read_cached_latest_at (\<lambda>s. if s = ''x'' then Some [''e'' \<mapsto> (''v1.2.3'', 5)] else None) None ''e'' 86406)"
  by (rule latest_cache_ttl) (simp_all add: load_cache_at_def)

end
