(* ===== verification/Fts_Tokens.thy ===== *)
theory Fts_Tokens
  imports Rust_Prelude
begin

section \<open>Identifier segments and full-text queries\<close>

text \<open>
  \<open>crates/travsr-core/src/ident.rs\<close>, \<open>crates/travsr-store/src/fts_tokenize.rs\<close> and
  \<open>crates/travsr-store/src/seed_lexicon.rs\<close>: the segmenter shared by the index and the queries, the
  tokens of an identifier, the query tokens with their synonyms and the FTS5 match expression. The
  segmenter's tests are on ASCII letters and digits, so it is run on the bytes: every byte of a
  multi-byte character delimits. The synonyms table in the database is the argument \<open>alias\<close>.
\<close>

subsection \<open>Segments\<close>

definition flush :: "string \<Rightarrow> string list \<Rightarrow> string list" where
  "flush cur toks = (if cur = [] then toks else toks @ [cur])"

definition cuts_before :: "char option \<Rightarrow> char \<Rightarrow> bool" where
  "cuts_before prev c \<longleftrightarrow>
     (case prev of
        None \<Rightarrow> False
      | Some p \<Rightarrow>
          if is_ascii_upper c then is_ascii_lower p \<or> is_ascii_digit p
          else if is_ascii_digit c then is_ascii_alpha p
          else is_ascii_digit p)"

fun seg_loop :: "char option \<Rightarrow> string \<Rightarrow> string list \<Rightarrow> string \<Rightarrow> string list" where
  "seg_loop prev cur toks [] = flush cur toks"
| "seg_loop prev cur toks (c # s) =
     (if \<not> is_ascii_alnum c then seg_loop (Some c) [] (flush cur toks) s
      else if cuts_before prev c then seg_loop (Some c) [ascii_lower c] (flush cur toks) s
      else seg_loop (Some c) (cur @ [ascii_lower c]) toks s)"

definition raw_segments :: "string \<Rightarrow> string list" where
  "raw_segments s = seg_loop None [] [] s"

definition push_new :: "string \<Rightarrow> string list \<Rightarrow> string list" where
  "push_new tok toks = (if tok \<in> set toks then toks else toks @ [tok])"

definition segments :: "string \<Rightarrow> string list" where
  "segments s = fold push_new (raw_segments s) []"

text \<open>The inner loop of \<open>contains_token\<close>: join segments until they are the token or too long.\<close>

fun run_matches :: "string \<Rightarrow> string \<Rightarrow> string list \<Rightarrow> bool" where
  "run_matches norm acc [] = False"
| "run_matches norm acc (seg # segs) =
     (if acc @ seg = norm then True
      else if length norm < length (acc @ seg) then False
      else run_matches norm (acc @ seg) segs)"

definition token_norm :: "string \<Rightarrow> string" where
  "token_norm token = map ascii_lower (filter is_ascii_alnum token)"

definition contains_token :: "string \<Rightarrow> string \<Rightarrow> bool" where
  "contains_token token s =
     (if token = [] then False
      else if token_norm token = [] then False
      else let segs = raw_segments s
           in list_ex (\<lambda>start. run_matches (token_norm token) [] (drop start segs)) [0..<length segs])"

definition leaf_of :: "string \<Rightarrow> string" where
  "leaf_of sig =
     (let body = (case split_once (CHR '':'') sig of Some (_, r) \<Rightarrow> r | None \<Rightarrow> sig)
      in last (split_on (\<lambda>c. c = CHR ''.'') body))"

definition selector_head :: "string \<Rightarrow> string" where
  "selector_head name =
     (if ends_with name '':'' then hd (split_on (\<lambda>c. c = CHR '':'') name) else name)"

subsection \<open>Tokens and match expressions\<close>

definition has_whitespace :: "string \<Rightarrow> bool" where
  "has_whitespace s \<longleftrightarrow> list_ex is_whitespace (chars s)"

definition tokenize_list :: "string \<Rightarrow> string list" where
  "tokenize_list s =
     (let toks = segments s;
          low = to_ascii_lowercase s;
          toks1 = (if 3 \<le> length low \<and> \<not> has_whitespace low \<and> low \<notin> set toks then toks @ [low] else toks)
      in take 64 (remdups_adj (filter (\<lambda>t. 3 \<le> length t) toks1)))"

definition tokenize_identifier :: "string \<Rightarrow> string" where
  "tokenize_identifier s = join_with '' '' (tokenize_list s)"

definition STOPWORDS :: "string list" where
  "STOPWORDS =
    [''about'', ''and'', ''any'', ''are'', ''can'', ''did'', ''does'', ''find'', ''for'', ''from'', ''give'', ''how'',
     ''into'', ''its'', ''our'', ''please'', ''runs'', ''show'', ''tell'', ''that'', ''the'', ''then'', ''this'', ''uses'',
     ''using'', ''was'', ''were'', ''what'', ''when'', ''where'', ''which'', ''who'', ''whose'', ''why'', ''with'',
     ''works'']"

definition SYNONYMS :: "(string \<times> string list) list" where
  "SYNONYMS =
    [(''auth'', [''rbac'', ''session'', ''login'', ''token'']),
     (''config'', [''settings'', ''options'', ''cfg'']),
     (''database'', [''sqlite'', ''store'', ''storage'']),
     (''delete'', [''remove'', ''retract'', ''drop'']),
     (''error'', [''err'', ''failure'', ''panic'']),
     (''remove'', [''delete'', ''retract'']),
     (''store'', [''database'', ''sqlite'', ''storage'']),
     (''traversal'', [''bfs'', ''ppr'', ''pagerank'', ''walk''])]"

text \<open>\<open>slice::binary_search\<close> on a sorted slice answers membership: the list is strictly ascending
  (\<open>stopwords_sorted\<close>).\<close>

definition is_stopword :: "string \<Rightarrow> bool" where
  "is_stopword tok \<longleftrightarrow> tok \<in> set STOPWORDS"

lemma stopwords_sorted: "sorted_wrt (<) STOPWORDS"
  by (simp add: STOPWORDS_def less_char_def)

definition synonyms_for :: "string \<Rightarrow> string list" where
  "synonyms_for term = (case map_of SYNONYMS term of None \<Rightarrow> [] | Some v \<Rightarrow> v)"

definition push_tok :: "string \<Rightarrow> string list \<Rightarrow> string list" where
  "push_tok s v = (if 3 \<le> length s \<and> s \<notin> set v then v @ [s] else v)"

definition expand_with :: "(string \<Rightarrow> string list) \<Rightarrow> string list \<Rightarrow> string list" where
  "expand_with alias raw =
     (let content = filter (\<lambda>t. \<not> is_stopword t) raw;
          lits = fold push_tok content [];
          out = fold (\<lambda>t v. fold push_tok (alias t) v) content lits
      in if out = [] then fold push_tok raw out else out)"

definition expand_tokens :: "string list \<Rightarrow> string list" where
  "expand_tokens raw = expand_with synonyms_for raw"

definition quote_tok :: "string \<Rightarrow> string" where
  "quote_tok t = dquote # t @ [dquote]"

definition or_expr :: "string list \<Rightarrow> string" where
  "or_expr ts = join_with '' OR '' (map quote_tok ts)"

definition build_match_expr :: "string \<Rightarrow> string option" where
  "build_match_expr query =
     (let tokens = tokenize_identifier query
      in if tokens = [] then None
         else let expr = or_expr (split_whitespace tokens)
              in if expr = [] then None else Some expr)"

definition build_fuzzy_match_expr :: "string \<Rightarrow> string option" where
  "build_fuzzy_match_expr query =
     (let raw_str = tokenize_identifier query
      in if raw_str = [] then None
         else let toks = expand_tokens (split_whitespace raw_str)
              in if toks = [] then None
                 else let expr = or_expr toks in if expr = [] then None else Some expr)"

text \<open>The database variant: a failing query is the error, the first one met.\<close>

fun lookup_all :: "(string \<Rightarrow> ('e, string list) rust_result) \<Rightarrow> string list
    \<Rightarrow> ('e, (string \<times> string list) list) rust_result" where
  "lookup_all alias [] = Inr []"
| "lookup_all alias (t # ts) =
     (case alias t of
        Inl e \<Rightarrow> Inl e
      | Inr as \<Rightarrow> (case lookup_all alias ts of Inl e \<Rightarrow> Inl e | Inr r \<Rightarrow> Inr ((t, as) # r)))"

definition expand_tokens_db :: "(string \<Rightarrow> ('e, string list) rust_result) \<Rightarrow> string list
    \<Rightarrow> ('e, string list) rust_result" where
  "expand_tokens_db alias raw =
     (let content = filter (\<lambda>t. \<not> is_stopword t) raw;
          lits = fold push_tok content []
      in case lookup_all alias content of
           Inl e \<Rightarrow> Inl e
         | Inr rows \<Rightarrow>
             (let out = fold (\<lambda>(t, as) v. fold push_tok as v) rows lits
              in Inr (if out = [] then fold push_tok raw out else out)))"

definition build_fuzzy_match_expr_db :: "(string \<Rightarrow> ('e, string list) rust_result) \<Rightarrow> string
    \<Rightarrow> ('e, string option) rust_result" where
  "build_fuzzy_match_expr_db alias query =
     (let raw_str = tokenize_identifier query
      in if raw_str = [] then Inr None
         else case expand_tokens_db alias (split_whitespace raw_str) of
                Inl e \<Rightarrow> Inl e
              | Inr toks \<Rightarrow>
                  if toks = [] then Inr None
                  else let expr = or_expr toks in Inr (if expr = [] then None else Some expr))"

definition trailing_punct :: "string \<Rightarrow> bool" where
  "trailing_punct c \<longleftrightarrow> c \<in> {''?'', ''!'', ''.'', '','', '';'', '':''}"

definition strip_punct :: "string \<Rightarrow> string" where
  "strip_punct w = concat (rev (dropWhile trailing_punct (rev (chars w))))"

definition normalize_nl_query :: "string \<Rightarrow> string" where
  "normalize_nl_query query =
     join_with '' '' (filter (\<lambda>w. w \<noteq> []) (map strip_punct (split_whitespace query)))"

subsection \<open>Segmentation loses nothing\<close>

definition homogeneous :: "string \<Rightarrow> bool" where
  "homogeneous t \<longleftrightarrow> t \<noteq> [] \<and> (list_all is_ascii_digit t \<or> list_all is_ascii_lower t)"

lemma ascii_lower_class:
  "is_ascii_upper c \<Longrightarrow> is_ascii_lower (ascii_lower c)"
  "is_ascii_lower c \<Longrightarrow> is_ascii_lower (ascii_lower c)"
  "is_ascii_digit c \<Longrightarrow> is_ascii_digit (ascii_lower c)"
  by (auto simp: ascii_lower_def ascii_defs)

lemma seg_loop_concat:
  "concat (seg_loop prev cur toks s) = concat toks @ cur @ token_norm s"
  by (induction prev cur toks s rule: seg_loop.induct) (auto simp: flush_def token_norm_def)

text \<open>The byte before agrees with what is being collected.\<close>

definition cur_ok :: "char option \<Rightarrow> string \<Rightarrow> bool" where
  "cur_ok prev cur \<longleftrightarrow>
     (cur \<noteq> [] \<longrightarrow> (\<exists>p. prev = Some p \<and>
        (is_ascii_digit p \<and> list_all is_ascii_digit cur \<or> is_ascii_alpha p \<and> list_all is_ascii_lower cur)))"

lemma cur_ok_homogeneous: "cur_ok prev cur \<Longrightarrow> cur \<noteq> [] \<Longrightarrow> homogeneous cur"
  by (auto simp: cur_ok_def homogeneous_def)

lemma digit_not_alpha: "is_ascii_digit c \<Longrightarrow> \<not> is_ascii_alpha c"
  by (auto simp: ascii_defs)

lemma cur_ok_step:
  assumes "cur_ok prev cur" "is_ascii_alnum c" "\<not> cuts_before prev c"
  shows "cur_ok (Some c) (cur @ [ascii_lower c])"
proof (cases "is_ascii_digit c")
  case True
  then have "\<not> is_ascii_upper c" by (auto simp: ascii_defs)
  with assms True show ?thesis
    by (auto simp: cur_ok_def cuts_before_def ascii_lower_class)
next
  case False
  then have c: "is_ascii_alpha c" "is_ascii_lower (ascii_lower c)"
    using assms(2) ascii_lower_class by (auto simp: is_ascii_alnum_def is_ascii_alpha_def)
  have "cur \<noteq> [] \<Longrightarrow> list_all is_ascii_lower cur"
    using assms(1,3) False by (auto simp: cur_ok_def cuts_before_def split: if_splits)
  with c show ?thesis by (cases "cur = []") (auto simp: cur_ok_def)
qed

lemma cur_ok_start: "is_ascii_alnum c \<Longrightarrow> cur_ok (Some c) [ascii_lower c]"
  by (auto simp: cur_ok_def is_ascii_alnum_def is_ascii_alpha_def ascii_lower_class)

lemma seg_loop_homogeneous:
  "cur_ok prev cur \<Longrightarrow> \<forall>t\<in>set toks. homogeneous t \<Longrightarrow> \<forall>t\<in>set (seg_loop prev cur toks s). homogeneous t"
proof (induction prev cur toks s rule: seg_loop.induct)
  case (1 prev cur toks)
  then show ?case by (auto simp: flush_def cur_ok_homogeneous)
next
  case (2 prev cur toks c s)
  have fl: "\<forall>t\<in>set (flush cur toks). homogeneous t"
    using "2.prems" by (auto simp: flush_def cur_ok_homogeneous)
  consider "\<not> is_ascii_alnum c" | "is_ascii_alnum c" "cuts_before prev c" | "is_ascii_alnum c" "\<not> cuts_before prev c"
    by blast
  then show ?case
  proof cases
    case 1
    with "2.IH"(1) fl show ?thesis by (simp add: cur_ok_def)
  next
    case 2
    with "2.IH"(2) fl cur_ok_start[of c] show ?thesis by simp
  next
    case 3
    with "2.IH"(3) "2.prems" cur_ok_step[of prev cur c] show ?thesis by simp
  qed
qed

lemma raw_segments_concat: "concat (raw_segments s) = token_norm s"
  by (simp add: raw_segments_def seg_loop_concat)

lemma raw_segments_homogeneous: "t \<in> set (raw_segments s) \<Longrightarrow> homogeneous t"
  using seg_loop_homogeneous[of None "[]" "[]" s] by (auto simp: raw_segments_def cur_ok_def)

lemma push_new_fold:
  "distinct ys \<Longrightarrow> distinct (fold push_new xs ys) \<and> set (fold push_new xs ys) = set ys \<union> set xs"
  by (induction xs arbitrary: ys) (auto simp: push_new_def)

lemma segments_set: "distinct (segments s)" "set (segments s) = set (raw_segments s)"
  using push_new_fold[of "[]" "raw_segments s"] by (simp_all add: segments_def)

lemma run_matches_iff:
  "run_matches norm acc segs \<longleftrightarrow> (\<exists>k. 0 < k \<and> k \<le> length segs \<and> acc @ concat (take k segs) = norm)"
proof (induction norm acc segs rule: run_matches.induct)
  case (2 norm acc seg segs)
  have all: "(\<exists>k. 0 < k \<and> k \<le> length (seg # segs) \<and> acc @ concat (take k (seg # segs)) = norm) \<longleftrightarrow>
      acc @ seg = norm \<or> (\<exists>k. 0 < k \<and> k \<le> length segs \<and> (acc @ seg) @ concat (take k segs) = norm)"
  proof (intro iffI; elim exE disjE conjE)
    fix k assume k: "0 < k" "k \<le> length (seg # segs)" "acc @ concat (take k (seg # segs)) = norm"
    then show "acc @ seg = norm \<or> (\<exists>k. 0 < k \<and> k \<le> length segs \<and> (acc @ seg) @ concat (take k segs) = norm)"
      by (cases k; cases "k - 1") auto
  next
    assume "acc @ seg = norm"
    then show "\<exists>k. 0 < k \<and> k \<le> length (seg # segs) \<and> acc @ concat (take k (seg # segs)) = norm"
      by (intro exI[of _ 1]) simp
  next
    fix k assume "0 < k" "k \<le> length segs" "(acc @ seg) @ concat (take k segs) = norm"
    then show "\<exists>k. 0 < k \<and> k \<le> length (seg # segs) \<and> acc @ concat (take k (seg # segs)) = norm"
      by (intro exI[of _ "Suc k"]) simp
  qed
  show ?case
  proof (cases "acc @ seg = norm")
    case False
    show ?thesis
    proof (cases "length norm < length (acc @ seg)")
      case True
      then have "(acc @ seg) @ concat (take k segs) \<noteq> norm" for k by auto
      with True False all show ?thesis by simp
    next
      case small: False
      with False "2.IH" all show ?thesis by simp
    qed
  next
    case True
    with all show ?thesis by simp
  qed
qed simp

text \<open>The segmenter loses no letter or digit and invents none: the raw segments in order are the
  letters and digits of the input in lower case; every segment is a run of digits or of lower-case
  letters, and \<open>segments\<close> holds each of them once.\<close>

lemma segments_faithful:
  "concat (raw_segments s) = map ascii_lower (filter is_ascii_alnum s) \<and>
   (\<forall>t\<in>set (raw_segments s). t \<noteq> [] \<and> (list_all is_ascii_digit t \<or> list_all is_ascii_lower t)) \<and>
   distinct (segments s) \<and> set (segments s) = set (raw_segments s)"
  using raw_segments_concat[of s] raw_segments_homogeneous[of _ s] segments_set[of s]
  by (auto simp: token_norm_def homogeneous_def)

text \<open>\<open>contains_token\<close> holds exactly when the token, stripped of everything but letters and digits
  and lower-cased, is not empty and is the concatenation of consecutive segments of the text. The
  early exit of its loop loses nothing.\<close>

lemma contains_token_iff:
  "contains_token token s \<longleftrightarrow>
     token_norm token \<noteq> [] \<and>
     (\<exists>pre mid post. raw_segments s = pre @ mid @ post \<and> concat mid = token_norm token)"
proof -
  let ?segs = "raw_segments s" and ?n = "token_norm token"
  have "(\<exists>start<length ?segs. run_matches ?n [] (drop start ?segs)) \<longleftrightarrow>
      (\<exists>pre mid post. ?segs = pre @ mid @ post \<and> concat mid = ?n)" if n: "?n \<noteq> []"
  proof
    assume "\<exists>start<length ?segs. run_matches ?n [] (drop start ?segs)"
    then obtain start k where "concat (take k (drop start ?segs)) = ?n"
      by (auto simp: run_matches_iff)
    moreover have "?segs = take start ?segs @ take k (drop start ?segs) @ drop k (drop start ?segs)"
      by (metis append_take_drop_id)
    ultimately show "\<exists>pre mid post. ?segs = pre @ mid @ post \<and> concat mid = ?n" by blast
  next
    assume "\<exists>pre mid post. ?segs = pre @ mid @ post \<and> concat mid = ?n"
    then obtain pre mid post where m: "?segs = pre @ mid @ post" "concat mid = ?n" by blast
    then have "mid \<noteq> []" using n by auto
    with m have "length pre < length ?segs" "run_matches ?n [] (drop (length pre) ?segs)"
      by (auto simp: run_matches_iff intro!: exI[of _ "length mid"])
    then show "\<exists>start<length ?segs. run_matches ?n [] (drop start ?segs)" by blast
  qed
  moreover have "contains_token token s \<longleftrightarrow>
      ?n \<noteq> [] \<and> (\<exists>start<length ?segs. run_matches ?n [] (drop start ?segs))"
    by (cases "token = []") (auto simp: contains_token_def list_ex_iff token_norm_def Let_def)
  ultimately show ?thesis by blast
qed

subsection \<open>Match expressions\<close>

lemma ws_split_word: "\<forall>c\<in>set w. \<not> is_whitespace c \<Longrightarrow> ws_split (w @ cs) cur = ws_split cs (cur @ concat w)"
  by (induction w arbitrary: cur) auto

definition plain_token :: "string \<Rightarrow> bool" where
  "plain_token t \<longleftrightarrow> t \<noteq> [] \<and> utf8_ok t \<and> \<not> has_whitespace t"

lemma blank_whitespace [simp]: "is_whitespace '' ''"
  by (simp add: is_whitespace_def)

lemma split_join_tokens: "\<forall>t\<in>set ts. plain_token t \<Longrightarrow> split_whitespace (join_with '' '' ts) = ts"
proof (induction "'' ''" ts rule: join_with.induct)
  case 1
  show ?case by (simp add: split_whitespace_def)
next
  case (2 w)
  then show ?case
    using ws_split_word[of "chars w" "[]" "[]"]
    by (simp add: split_whitespace_def plain_token_def has_whitespace_def list_ex_iff)
next
  case (3 w v ws)
  have w: "utf8_ok w" "w \<noteq> []" "\<forall>c\<in>set (chars w). \<not> is_whitespace c"
    using "3.prems" by (auto simp: plain_token_def has_whitespace_def list_ex_iff)
  then show ?case
    using 3 ws_split_word[of "chars w" "'' '' # chars (join_with '' '' (v # ws))" "[]"]
    by (simp add: split_whitespace_def chars_append)
qed

lemma homogeneous_ascii: "homogeneous t \<Longrightarrow> c \<in> set t \<Longrightarrow> byte c < 128 \<and> \<not> is_whitespace [c] \<and> c \<noteq> dquote"
  by (auto simp: homogeneous_def list_all_iff ascii_defs is_whitespace_def Let_def)

lemma homogeneous_plain: "homogeneous t \<Longrightarrow> plain_token t"
proof -
  assume h: "homogeneous t"
  have "\<forall>c\<in>set u. byte c < 128 \<Longrightarrow> chars u = map (\<lambda>c. [c]) u \<and> utf8_ok u" for u
    by (induction u) auto
  from this[of t] h show ?thesis
    using homogeneous_ascii[OF h] by (auto simp: plain_token_def has_whitespace_def list_ex_iff homogeneous_def)
qed

lemma ascii_lower_swap: "list_all2 (\<lambda>x y. x = y \<or> byte x < 128 \<and> byte y < 128) (to_ascii_lowercase s) s"
  by (induction s) (auto simp: ascii_lower_def is_ascii_upper_def)

lemma ascii_lower_quote: "dquote = ascii_lower c \<Longrightarrow> c = dquote"
proof (rule ccontr)
  assume "dquote = ascii_lower c" "c \<noteq> dquote"
  then have "is_ascii_upper c" "byte dquote = byte (char_of (byte c + 32) :: char)"
    by (auto simp: ascii_lower_def split: if_splits)
  then show False by (simp add: is_ascii_upper_def)
qed

lemma tokenize_list_facts:
  assumes "utf8_ok s"
  shows "length (tokenize_list s) \<le> 64" "distinct (tokenize_list s)"
    "t \<in> set (tokenize_list s) \<Longrightarrow> plain_token t \<and> 3 \<le> length t \<and> (dquote \<in> set t \<longrightarrow> dquote \<in> set s)"
proof -
  define low where "low = to_ascii_lowercase s"
  define toks where "toks = (if 3 \<le> length low \<and> \<not> has_whitespace low \<and> low \<notin> set (segments s)
      then segments s @ [low] else segments s)"
  have tl: "tokenize_list s = take 64 (remdups_adj (filter (\<lambda>t. 3 \<le> length t) toks))"
    by (simp add: tokenize_list_def low_def toks_def Let_def)
  have "distinct toks"
    using segments_set(1) by (auto simp: toks_def)
  then have dist: "distinct (filter (\<lambda>t. 3 \<le> length t) toks)" by simp
  then have "remdups_adj (filter (\<lambda>t. 3 \<le> length t) toks) = filter (\<lambda>t. 3 \<le> length t) toks"
    by (rule remdups_adj_distinct)
  then have eq: "tokenize_list s = take 64 (filter (\<lambda>t. 3 \<le> length t) toks)"
    using tl by simp
  show "length (tokenize_list s) \<le> 64" by (simp add: eq)
  show "distinct (tokenize_list s)" using dist by (simp add: eq)
  have "utf8_ok low"
    unfolding low_def by (rule ascii_swap_utf8[OF assms ascii_lower_swap])
  moreover have "dquote \<in> set low \<Longrightarrow> dquote \<in> set s"
    using ascii_lower_quote unfolding low_def by (metis (no_types, lifting) image_iff list.set_map)
  moreover have "t \<in> set toks \<Longrightarrow> t \<in> set (raw_segments s) \<or> t = low \<and> \<not> has_whitespace low \<and> 3 \<le> length low"
    using segments_set(2) by (auto simp: toks_def split: if_splits)
  moreover have "t \<in> set (raw_segments s) \<Longrightarrow> plain_token t \<and> dquote \<notin> set t"
    using raw_segments_homogeneous homogeneous_plain homogeneous_ascii by blast
  ultimately show "t \<in> set (tokenize_list s) \<Longrightarrow> plain_token t \<and> 3 \<le> length t \<and> (dquote \<in> set t \<longrightarrow> dquote \<in> set s)"
    unfolding eq by (auto simp: plain_token_def dest!: in_set_takeD)
qed

lemma tokenize_split:
  "utf8_ok s \<Longrightarrow> split_whitespace (tokenize_identifier s) = tokenize_list s"
  using tokenize_list_facts(3) by (auto simp: tokenize_identifier_def intro!: split_join_tokens)

lemma join_empty_iff: "\<forall>t\<in>set ts. t \<noteq> [] \<Longrightarrow> join_with sep ts = [] \<longleftrightarrow> ts = []"
  by (induction sep ts rule: join_with.induct) auto

lemma or_expr_nonempty: "or_expr ts = [] \<longleftrightarrow> ts = []"
  using join_empty_iff[of "map quote_tok ts" "'' OR ''"] by (auto simp: or_expr_def quote_tok_def)

lemma match_expr_eq:
  assumes "utf8_ok q"
  shows "build_match_expr q = (if tokenize_list q = [] then None else Some (or_expr (tokenize_list q)))"
  using tokenize_split[OF assms] join_empty_iff[of "tokenize_list q" "'' ''"] tokenize_list_facts(3)[OF assms]
  by (auto simp: build_match_expr_def Let_def or_expr_nonempty tokenize_identifier_def plain_token_def)

definition phrases :: "string list \<Rightarrow> bool" where
  "phrases ts \<longleftrightarrow> ts \<noteq> [] \<and> (\<forall>t\<in>set ts. 3 \<le> length t \<and> dquote \<notin> set t)"

text \<open>A query without a double quote gives a match expression made only of quoted phrases joined
  by OR, so no FTS5 operator of the query survives: at most 64 different phrases of at least three
  bytes without a quote, or no expression when there is no such token.\<close>

lemma match_expr_quoted:
  assumes "utf8_ok q" "dquote \<notin> set q"
  shows "(build_match_expr q = None \<longleftrightarrow> tokenize_list q = []) \<and>
    (\<forall>e. build_match_expr q = Some e \<longrightarrow>
       (\<exists>ts. e = or_expr ts \<and> phrases ts \<and> distinct ts \<and> length ts \<le> 64))"
  using match_expr_eq[OF assms(1)] tokenize_list_facts[OF assms(1)] assms(2)
  by (auto simp: phrases_def)

lemma match_expr_quoted_witness:
  "(build_match_expr ''fnA*b'' = None \<longleftrightarrow> tokenize_list ''fnA*b'' = []) \<and>
    (\<forall>e. build_match_expr ''fnA*b'' = Some e \<longrightarrow>
       (\<exists>ts. e = or_expr ts \<and> phrases ts \<and> distinct ts \<and> length ts \<le> 64))"
  by (rule match_expr_quoted) simp_all

text \<open>A quote in the query is not neutralised: the whole query in lower case is one of the tokens
  and is quoted as it stands. The query \<open>foo"bar\<close> gives an expression with an odd number of quotes,
  which is no FTS5 expression, and the query \<open>abc"*"def\<close> puts the prefix operator outside the quotes.\<close>

lemma quote_escapes:
  "(\<exists>e. build_match_expr (''foo'' @ dquote # ''bar'') = Some e \<and> odd (count_list e dquote)) \<and>
   build_match_expr (''abc'' @ dquote # ''*'' @ dquote # ''def'') =
     Some (or_expr [''abc'', ''def''] @ '' OR '' @ dquote # ''abc'' @ dquote # ''*'' @ dquote # ''def'' @ [dquote])"
proof -
  note ds = tokenize_list_def segments_def raw_segments_def flush_def cuts_before_def push_new_def ascii_defs
    ascii_lower_def has_whitespace_def is_whitespace_def Let_def
  have "tokenize_list (''foo'' @ dquote # ''bar'') = [''foo'', ''bar'', ''foo'' @ dquote # ''bar'']"
    by (simp add: ds)
  then have 1: "build_match_expr (''foo'' @ dquote # ''bar'') = Some (or_expr [''foo'', ''bar'', ''foo'' @ dquote # ''bar''])"
    by (simp add: match_expr_eq)
  have "odd (count_list (or_expr [''foo'', ''bar'', ''foo'' @ dquote # ''bar'']) dquote)"
    by (simp add: or_expr_def quote_tok_def)
  moreover have "tokenize_list (''abc'' @ dquote # ''*'' @ dquote # ''def'') =
      [''abc'', ''def'', ''abc'' @ dquote # ''*'' @ dquote # ''def'']"
    by (simp add: ds)
  then have "build_match_expr (''abc'' @ dquote # ''*'' @ dquote # ''def'') =
      Some (or_expr [''abc'', ''def'', ''abc'' @ dquote # ''*'' @ dquote # ''def''])"
    by (simp add: match_expr_eq)
  ultimately show ?thesis
    using 1 by (simp add: or_expr_def quote_tok_def)
qed

subsection \<open>Synonyms only add\<close>

lemma push_tok_fold:
  "set (fold push_tok ts v) = set v \<union> {t \<in> set ts. 3 \<le> length t} \<and> (distinct v \<longrightarrow> distinct (fold push_tok ts v))"
  by (induction ts arbitrary: v) (auto simp: push_tok_def)

lemma rows_fold:
  "set (fold (\<lambda>(t, as) v. fold push_tok as v) rows v) =
     set v \<union> {a. \<exists>t as. (t, as) \<in> set rows \<and> a \<in> set as \<and> 3 \<le> length a}"
proof (induction rows arbitrary: v)
  case (Cons r rows)
  obtain t as where r: "r = (t, as)" by (cases r)
  have "fold (\<lambda>(t, as) v. fold push_tok as v) (r # rows) v =
      fold (\<lambda>(t, as) v. fold push_tok as v) rows (fold push_tok as v)"
    by (simp add: r)
  then have "set (fold (\<lambda>(t, as) v. fold push_tok as v) (r # rows) v) =
      set (fold push_tok as v) \<union> {a. \<exists>t as. (t, as) \<in> set rows \<and> a \<in> set as \<and> 3 \<le> length a}"
    using Cons.IH[of "fold push_tok as v"] by metis
  then show ?case
    by (auto simp: r push_tok_fold)
qed simp

lemma lookup_all_rows:
  "lookup_all al ts = Inr rows \<Longrightarrow> (t, as) \<in> set rows \<longleftrightarrow> t \<in> set ts \<and> al t = Inr as"
proof (induction al ts arbitrary: rows rule: lookup_all.induct)
  case (2 al x xs)
  then show ?case by (auto split: sum.splits)
qed simp

text \<open>The query expansion only adds: when the synonym queries succeed, the expansion of raw tokens
  of at least three bytes holds every token that is no stopword and every alias of one that is long
  enough, and nothing else, or all raw tokens when that is nothing. It is empty only for an empty
  input.\<close>

lemma expansion_additive:
  assumes "expand_tokens_db alias raw = Inr out" "\<forall>t\<in>set raw. 3 \<le> length t"
  shows "set out =
      (let content = {t \<in> set raw. \<not> is_stopword t};
           added = {a. \<exists>t\<in>content. \<exists>as. alias t = Inr as \<and> a \<in> set as \<and> 3 \<le> length a}
       in if content = {} then set raw else content \<union> added) \<and>
    (out = [] \<longleftrightarrow> raw = [])"
proof -
  let ?content = "filter (\<lambda>t. \<not> is_stopword t) raw"
  obtain rows where rows: "lookup_all alias ?content = Inr rows"
      "out = (let o' = fold (\<lambda>(t, as) v. fold push_tok as v) rows (fold push_tok ?content [])
              in if o' = [] then fold push_tok raw o' else o')"
    using assms(1) by (auto simp: expand_tokens_db_def Let_def split: sum.splits)
  define o' where "o' = fold (\<lambda>(t, as) v. fold push_tok as v) rows (fold push_tok ?content [])"
  have out: "out = (if o' = [] then fold push_tok raw o' else o')"
    using rows(2) by (simp add: o'_def Let_def)
  have so: "set o' = set ?content \<union> {a. \<exists>t\<in>set ?content. \<exists>as. alias t = Inr as \<and> a \<in> set as \<and> 3 \<le> length a}"
    using assms(2) by (auto simp: o'_def rows_fold push_tok_fold lookup_all_rows[OF rows(1)])
  show ?thesis
  proof (cases "o' = []")
    case True
    have c: "?content = []" using so True by auto
    have "out = fold push_tok raw []" using out True by simp
    then have "set out = set raw"
      using assms(2) by (auto simp: push_tok_fold)
    moreover have "{t \<in> set raw. \<not> is_stopword t} = {}"
      using c by (auto simp: filter_empty_conv)
    ultimately show ?thesis
      unfolding Let_def by auto
  next
    case False
    then have "out = o'"
      using out by simp
    moreover have "set ?content \<noteq> {}"
    proof
      assume none: "set ?content = {}"
      then have "set o' = {}" unfolding so none by simp
      with False show "False" by simp
    qed
    ultimately show ?thesis
      using so False by (auto simp: Let_def)
  qed
qed

lemma expansion_additive_witness:
  "set [''auth'', ''rbac''] =
      (let content = {t \<in> set [''the'', ''auth'']. \<not> is_stopword t};
           added = {a. \<exists>t\<in>content. \<exists>as. (\<lambda>t. Inr (if t = ''auth'' then [''rbac'', ''id''] else []) :: unit + string list) t = Inr as
                      \<and> a \<in> set as \<and> 3 \<le> length a}
       in if content = {} then set [''the'', ''auth''] else content \<union> added) \<and>
    ([''auth'', ''rbac''] = [] \<longleftrightarrow> [''the'', ''auth''] = [])"
  by (rule expansion_additive)
     (simp_all add: expand_tokens_db_def is_stopword_def STOPWORDS_def push_tok_def)

end
