(* ===== verification/Store_Migration.thy ===== *)
theory Store_Migration
  imports Rust_Prelude
begin

section \<open>Schema migrations\<close>

text \<open>
  \<open>crates/travsr-store/src/migration.rs\<close>: the versioned runner. A backend is the record of the three
  operations the runner calls, each a state transformer with a result; a migration is its version,
  its \<open>up\<close> and whether it runs in a transaction. \<open>anyhow\<close>'s context is a string put in front of the
  error. A duplicate registration panics and is \<open>None\<close>. Versions are \<open>u32\<close> values.
\<close>

type_synonym ('s, 'e, 'a) op = "'s \<Rightarrow> ('e, 'a) rust_result \<times> 's"

record ('s, 'e) migratable =
  exec_ddl :: "string \<Rightarrow> ('s, 'e, unit) op"
  schema_version :: "'s \<Rightarrow> ('e, nat) rust_result"
  set_schema_version :: "nat \<Rightarrow> ('s, 'e, unit) op"

record ('s, 'e) migration =
  mg_version :: nat
  mg_up :: "('s, 'e, unit) op"
  mg_transactional :: bool

type_synonym 'e with_context = "string \<times> 'e"

definition ctx :: "string \<Rightarrow> ('e, 'a) rust_result \<times> 's \<Rightarrow> ('e with_context, 'a) rust_result \<times> 's" where
  "ctx label r = (case r of (Inl e, s) \<Rightarrow> (Inl (label, e), s) | (Inr x, s) \<Rightarrow> (Inr x, s))"

definition label_v :: "string \<Rightarrow> nat \<Rightarrow> string" where
  "label_v what v = what @ '' migration v'' @ show_nat v"

subsection \<open>The runner\<close>

definition register :: "('s, 'e) migration \<Rightarrow> ('s, 'e) migration list \<Rightarrow> ('s, 'e) migration list option" where
  "register m ms = (if list_ex (\<lambda>m'. mg_version m' = mg_version m) ms then None else Some (ms @ [m]))"

definition latest_version :: "('s, 'e) migration list \<Rightarrow> nat" where
  "latest_version ms = fold max (map mg_version ms) 0"

text \<open>\<open>up\<close> and then the record of the version.\<close>

definition apply_body :: "('s, 'e) migratable \<Rightarrow> ('s, 'e) migration \<Rightarrow> ('s, 'e with_context, unit) op" where
  "apply_body ops m s =
     (case ctx (label_v ''applying'' (mg_version m)) (mg_up m s) of
        (Inl e, s1) \<Rightarrow> (Inl e, s1)
      | (Inr _, s1) \<Rightarrow> ctx (label_v ''recording'' (mg_version m)) (set_schema_version ops (mg_version m) s1))"

definition apply_one :: "('s, 'e) migratable \<Rightarrow> ('s, 'e) migration \<Rightarrow> ('s, 'e with_context, unit) op" where
  "apply_one ops m s =
     (if mg_transactional m
      then (case ctx (label_v ''begin transaction for'' (mg_version m)) (exec_ddl ops ''BEGIN'' s) of
              (Inl e, s1) \<Rightarrow> (Inl e, s1)
            | (Inr _, s1) \<Rightarrow>
                (case apply_body ops m s1 of
                   (Inl e, s2) \<Rightarrow> (Inl e, snd (exec_ddl ops ''ROLLBACK'' s2))
                 | (Inr _, s2) \<Rightarrow> ctx (label_v ''commit transaction for'' (mg_version m)) (exec_ddl ops ''COMMIT'' s2)))
      else apply_body ops m s)"

fun apply_all :: "('s, 'e) migratable \<Rightarrow> ('s, 'e) migration list \<Rightarrow> ('s, 'e with_context, unit) op" where
  "apply_all ops [] s = (Inr (), s)"
| "apply_all ops (m # ms) s =
     (case apply_one ops m s of
        (Inl e, s1) \<Rightarrow> (Inl e, s1)
      | (Inr _, s1) \<Rightarrow> apply_all ops ms s1)"

definition pending :: "nat \<Rightarrow> ('s, 'e) migration list \<Rightarrow> ('s, 'e) migration list" where
  "pending current ms = sort_key mg_version (filter (\<lambda>m. current < mg_version m) ms)"

definition run_migrations :: "('s, 'e) migratable \<Rightarrow> ('s, 'e) migration list \<Rightarrow> ('s, 'e with_context, unit) op" where
  "run_migrations ops ms s =
     (case schema_version ops s of
        Inl e \<Rightarrow> (Inl (''reading schema version'', e), s)
      | Inr current \<Rightarrow> apply_all ops (pending current ms) s)"

subsection \<open>What a backend promises\<close>

text \<open>A recorded version is the one read back, and a commit does not change it.\<close>

definition keeps_version :: "('s, 'e) migratable \<Rightarrow> bool" where
  "keeps_version ops \<longleftrightarrow>
     (\<forall>v s s'. set_schema_version ops v s = (Inr (), s') \<longrightarrow> schema_version ops s' = Inr v) \<and>
     (\<forall>s s'. exec_ddl ops ''COMMIT'' s = (Inr (), s') \<longrightarrow> schema_version ops s' = schema_version ops s)"

text \<open>A transaction that cannot be opened changes nothing, and a rollback undoes what the body of the
  migration did since it was opened.\<close>

definition rolls_back :: "('s, 'e) migratable \<Rightarrow> ('s, 'e) migration \<Rightarrow> bool" where
  "rolls_back ops m \<longleftrightarrow>
     (\<forall>s e s'. exec_ddl ops ''BEGIN'' s = (Inl e, s') \<longrightarrow> s' = s) \<and>
     (\<forall>s s1 e s2. exec_ddl ops ''BEGIN'' s = (Inr (), s1) \<longrightarrow> apply_body ops m s1 = (Inl e, s2) \<longrightarrow>
        snd (exec_ddl ops ''ROLLBACK'' s2) = s)"

subsection \<open>Properties\<close>

lemma ctx_Inr: "ctx l r = (Inr x, s) \<longleftrightarrow> r = (Inr x, s)"
  by (cases r; cases "fst r") (auto simp: ctx_def)

lemma apply_one_version:
  assumes "keeps_version ops" "apply_one ops m s = (Inr (), s')"
  shows "schema_version ops s' = Inr (mg_version m)"
proof -
  have body: "schema_version ops s2 = Inr (mg_version m)" if "apply_body ops m s1 = (Inr (), s2)" for s1 s2
    using that assms(1) by (auto simp: apply_body_def keeps_version_def ctx_Inr split: prod.splits sum.splits)
  show ?thesis
  proof (cases "mg_transactional m")
    case False
    with assms(2) body show ?thesis by (simp add: apply_one_def)
  next
    case True
    with assms(2) obtain s1 s2 where "apply_body ops m s1 = (Inr (), s2)" "exec_ddl ops ''COMMIT'' s2 = (Inr (), s')"
      by (auto simp: apply_one_def ctx_Inr split: prod.splits sum.splits)
    with body assms(1) show ?thesis by (auto simp: keeps_version_def)
  qed
qed

lemma apply_all_version:
  "keeps_version ops \<Longrightarrow> apply_all ops ms s = (Inr (), s') \<Longrightarrow>
     schema_version ops s' = (if ms = [] then schema_version ops s else Inr (mg_version (last ms)))"
proof (induction ops ms s rule: apply_all.induct)
  case (2 ops m ms s)
  then obtain s1 where one: "apply_one ops m s = (Inr (), s1)" "apply_all ops ms s1 = (Inr (), s')"
    by (auto split: prod.splits sum.splits)
  with 2 apply_one_version[OF "2.prems"(1) one(1)] show ?case by auto
qed simp

lemma latest_ge: "m \<in> set ms \<Longrightarrow> mg_version m \<le> latest_version ms"
proof -
  have "x \<in> set xs \<Longrightarrow> x \<le> fold max xs a" for x a :: nat and xs
    by (metis Max.set_eq_fold Max_ge List.finite_set list.set_intros(2))
  then show "m \<in> set ms \<Longrightarrow> mg_version m \<le> latest_version ms"
    by (simp add: latest_version_def)
qed

lemma latest_mem: "ms \<noteq> [] \<Longrightarrow> \<exists>m\<in>set ms. latest_version ms \<le> mg_version m"
proof -
  have "fold max xs a = a \<or> fold max xs a \<in> set xs" for a :: nat and xs
    by (metis Max.set_eq_fold Max_in List.finite_set list.discI list.set_intros set_ConsD set_empty)
  from this[of "map mg_version ms" 0] show "ms \<noteq> [] \<Longrightarrow> ?thesis"
    by (cases ms) (auto simp: latest_version_def)
qed

lemma last_pending:
  assumes "pending current ms \<noteq> []"
  shows "mg_version (last (pending current ms)) = latest_version ms"
proof -
  let ?p = "pending current ms"
  have mem: "last ?p \<in> set ms" "current < mg_version (last ?p)"
    using last_in_set[OF assms] by (auto simp: pending_def)
  have top: "mg_version m \<le> mg_version (last ?p)" if mp: "m \<in> set ?p" for m
  proof -
    have srt: "sorted (map mg_version ?p)" by (simp add: pending_def)
    obtain i where i: "i < length ?p" "m = ?p ! i"
      using mp by (metis in_set_conv_nth)
    have "map mg_version ?p ! i \<le> map mg_version ?p ! (length ?p - 1)"
      using i(1) by (intro sorted_nth_mono[OF srt]) simp_all
    moreover have "length ?p - 1 < length ?p" using i(1) by simp
    ultimately show ?thesis
      using i assms by (simp add: last_conv_nth)
  qed
  have "ms \<noteq> []" using mem by auto
  then obtain m where m: "m \<in> set ms" "latest_version ms \<le> mg_version m"
    using latest_mem by blast
  have "latest_version ms \<le> mg_version (last ?p)"
  proof (cases "current < mg_version m")
    case True
    with m top[of m] show ?thesis by (auto simp: pending_def)
  next
    case False
    with m(2) mem(2) show ?thesis by simp
  qed
  with latest_ge[OF mem(1)] show ?thesis by simp
qed

text \<open>After a successful run the store is at the highest registered version, or still at its own
  where that is higher, and a second run succeeds and changes nothing.\<close>

lemma migrations_idempotent:
  assumes "keeps_version ops" "schema_version ops s = Inr current"
    "run_migrations ops ms s = (Inr (), s')"
  shows "schema_version ops s' = Inr (max current (latest_version ms)) \<and> run_migrations ops ms s' = (Inr (), s')"
proof -
  have run: "apply_all ops (pending current ms) s = (Inr (), s')"
    using assms(2,3) by (simp add: run_migrations_def)
  have le: "latest_version ms \<le> current" if "pending current ms = []"
  proof (cases "ms = []")
    case False
    then obtain m where m: "m \<in> set ms" "latest_version ms \<le> mg_version m" using latest_mem by blast
    have "set (pending current ms) = {m \<in> set ms. current < mg_version m}" by (simp add: pending_def)
    with m that show ?thesis by force
  qed (simp add: latest_version_def)
  have "current < latest_version ms" if "pending current ms \<noteq> []"
    using last_pending[OF that] last_in_set[OF that] by (auto simp: pending_def)
  then have v: "schema_version ops s' = Inr (max current (latest_version ms))"
    using apply_all_version[OF assms(1) run] assms(2) le last_pending[of current ms]
    by (cases "pending current ms = []") (auto simp: max_def)
  have none: "filter (\<lambda>m. max current (latest_version ms) < mg_version m) ms = []"
    using latest_ge by (fastforce simp: filter_empty_conv)
  show ?thesis
    using v by (simp add: run_migrations_def pending_def none del: max_less_iff_conj)
qed

lemma apply_one_fails:
  assumes "mg_transactional m" "rolls_back ops m" "apply_one ops m s = (Inl e, s')"
  shows "s' = s \<or> fst e = label_v ''commit transaction for'' (mg_version m)"
proof -
  obtain r s1 where b: "exec_ddl ops ''BEGIN'' s = (r, s1)" by (cases "exec_ddl ops ''BEGIN'' s")
  show ?thesis
  proof (cases r)
    case (Inl e0)
    with b assms(1,3) have "s' = s1" by (simp add: apply_one_def ctx_def)
    with b Inl assms(2) show ?thesis by (auto simp: rolls_back_def)
  next
    case (Inr u)
    obtain r2 s2 where body: "apply_body ops m s1 = (r2, s2)" by (cases "apply_body ops m s1")
    show ?thesis
    proof (cases r2)
      case (Inl e0)
      with b Inr body assms(1,3) have "s' = snd (exec_ddl ops ''ROLLBACK'' s2)"
        by (simp add: apply_one_def ctx_def)
      moreover have "snd (exec_ddl ops ''ROLLBACK'' s2) = s"
        using assms(2) b Inr body Inl unfolding rolls_back_def by (cases u) blast
      ultimately show ?thesis by simp
    next
      case ok: (Inr u2)
      with b Inr body assms(1,3) show ?thesis
        by (auto simp: apply_one_def ctx_def split: prod.splits sum.splits)
    qed
  qed
qed

lemma apply_all_fails:
  "apply_all ops ms s = (Inl e, s') \<Longrightarrow> \<forall>m\<in>set ms. mg_transactional m \<and> rolls_back ops m \<Longrightarrow>
     \<exists>done m rest s0. ms = done @ m # rest \<and> apply_all ops done s = (Inr (), s0) \<and>
       (s' = s0 \<or> fst e = label_v ''commit transaction for'' (mg_version m))"
proof (induction ops ms s rule: apply_all.induct)
  case (2 ops m ms s)
  show ?case
  proof (cases "apply_one ops m s")
    case (Pair r s1)
    show ?thesis
    proof (cases r)
      case (Inl e1)
      with 2 Pair have "e1 = e" "s1 = s'" by auto
      with Inl Pair 2 apply_one_fails[of m ops s e s'] have "s' = s \<or> fst e = label_v ''commit transaction for'' (mg_version m)"
        by auto
      then show ?thesis
        by (intro exI[of _ "[]"] exI[of _ m] exI[of _ ms] exI[of _ s]) simp
    next
      case (Inr u)
      with 2 Pair obtain don m' rest s0 where "ms = don @ m' # rest" "apply_all ops don s1 = (Inr (), s0)"
          "s' = s0 \<or> fst e = label_v ''commit transaction for'' (mg_version m')"
        by auto
      with Inr Pair show ?thesis
        by (intro exI[of _ "m # don"] exI[of _ m'] exI[of _ rest] exI[of _ s0]) simp
    qed
  qed
qed simp


text \<open>A store for the witnesses: its version, and the copy a transaction keeps.\<close>

abbreviation small_store :: "(nat \<times> nat option, string) migratable" where
  "small_store \<equiv>
     \<lparr>exec_ddl = (\<lambda>ddl (v, saved).
        if ddl = ''BEGIN'' then (if saved = None then (Inr (), (v, Some v)) else (Inl ''nested'', (v, saved)))
        else if ddl = ''COMMIT'' then (Inr (), (v, None))
        else if ddl = ''ROLLBACK'' then (Inr (), (case saved of Some w \<Rightarrow> w | None \<Rightarrow> v, None))
        else (Inr (), (v, saved))),
      schema_version = (\<lambda>(v, saved). Inr v),
      set_schema_version = (\<lambda>n (v, saved). (Inr (), (n, saved)))\<rparr>"

abbreviation two_up :: "(nat \<times> nat option, string) migration list" where
  "two_up \<equiv> [\<lparr>mg_version = 3, mg_up = Pair (Inr ()), mg_transactional = True\<rparr>,
            \<lparr>mg_version = 2, mg_up = Pair (Inr ()), mg_transactional = False\<rparr>]"

abbreviation one_bad :: "(nat \<times> nat option, string) migration list" where
  "one_bad \<equiv> [\<lparr>mg_version = 1, mg_up = Pair (Inr ()), mg_transactional = True\<rparr>,
             \<lparr>mg_version = 2, mg_up = (\<lambda>(v, saved). (Inl ''bad'', (9, saved))), mg_transactional = True\<rparr>]"

lemma migrations_idempotent_witness:
  "schema_version small_store (3, None) = Inr (max 1 (latest_version two_up)) \<and>
   run_migrations small_store two_up (3, None) = (Inr (), (3, None))"
  by (rule migrations_idempotent[of small_store "(1, None)"])
     (auto simp: keeps_version_def run_migrations_def pending_def apply_one_def apply_body_def ctx_def)


end
