(* ===== verification/Parse_Cache.thy ===== *)
theory Parse_Cache
  imports Graph_Core
begin

section \<open>The parse cache of the plug-in host\<close>

text \<open>
  \<open>crates/travsr-plugin-host/src/cache.rs\<close>: a first-in first-out cache of parse responses under a
  byte budget. The hash map is a function to \<open>option\<close>; sizes are \<open>usize\<close> values below twice the
  budget. Of a response the model keeps the nodes and the numbers of edges and FFI markers, which is
  what \<open>approx_bytes\<close> reads.
\<close>

record parse_key =
  ck_plugin_version :: string
  ck_file_hash :: string

record parsed_node = gnode +
  pn_package :: string

record parse_response =
  pr_nodes :: "parsed_node list"
  pr_edges :: "gedge list"
  pr_ffi_markers :: "string list"

definition MAX_PARSE_CACHE_BYTES :: nat where "MAX_PARSE_CACHE_BYTES = 67108864"

definition NODE_OVERHEAD :: nat where "NODE_OVERHEAD = 128"
definition EDGE_OVERHEAD :: nat where "EDGE_OVERHEAD = 48"
definition FFI_OVERHEAD :: nat where "FFI_OVERHEAD = 160"

definition approx_bytes :: "parse_response \<Rightarrow> nat" where
  "approx_bytes resp =
     sum_list (map (\<lambda>n. length (vn_corpus (gn_vname n)) + length (vn_root (gn_vname n))
         + length (vn_path (gn_vname n)) + length (vn_language (gn_vname n))
         + length (vn_signature (gn_vname n)) + length (gn_kind n) + length (pn_package n) + NODE_OVERHEAD)
       (pr_nodes resp))
     + length (pr_edges resp) * EDGE_OVERHEAD + length (pr_ffi_markers resp) * FFI_OVERHEAD"

record parse_cache =
  pc_store :: "parse_key \<rightharpoonup> parse_response"
  pc_bytes :: nat
  pc_order :: "parse_key list"

definition parse_cache_new :: parse_cache where
  "parse_cache_new = \<lparr>pc_store = Map.empty, pc_bytes = 0, pc_order = []\<rparr>"

definition parse_cache_lookup :: "parse_cache \<Rightarrow> string \<Rightarrow> string \<Rightarrow> parse_response option" where
  "parse_cache_lookup c version hash = pc_store c \<lparr>ck_plugin_version = version, ck_file_hash = hash\<rparr>"

text \<open>The eviction loop: the store, the byte count, what is left of the order and whether the key's own
  slot was popped.\<close>

fun parse_evict :: "nat \<Rightarrow> parse_key \<Rightarrow> (parse_key \<rightharpoonup> parse_response) \<Rightarrow> nat \<Rightarrow> parse_key list \<Rightarrow> bool
    \<Rightarrow> (parse_key \<rightharpoonup> parse_response) \<times> nat \<times> parse_key list \<times> bool" where
  "parse_evict cost key store bytes [] popped = (store, bytes, [], popped)"
| "parse_evict cost key store bytes (oldest # order) popped =
     (if \<not> MAX_PARSE_CACHE_BYTES < bytes + cost then (store, bytes, oldest # order, popped)
      else if oldest = key then parse_evict cost key store bytes order True
      else (case store oldest of
              Some evicted \<Rightarrow> parse_evict cost key (store(oldest := None)) (bytes - approx_bytes evicted) order popped
            | None \<Rightarrow> parse_evict cost key store bytes order popped))"

definition parse_cache_insert :: "parse_key \<Rightarrow> parse_response \<Rightarrow> parse_cache \<Rightarrow> parse_cache" where
  "parse_cache_insert key resp c =
     (let cost = approx_bytes resp
      in if MAX_PARSE_CACHE_BYTES < cost then c
         else
           (let (store0, bytes0, existed) =
                  (case pc_store c key of
                     Some prev \<Rightarrow> ((pc_store c)(key := None), pc_bytes c - approx_bytes prev, True)
                   | None \<Rightarrow> (pc_store c, pc_bytes c, False));
                (store1, bytes1, order1, popped) = parse_evict cost key store0 bytes0 (pc_order c) False
            in \<lparr>pc_store = store1(key \<mapsto> resp),
                pc_bytes = bytes1 + cost,
                pc_order = (if \<not> existed \<or> popped then order1 @ [key] else order1)\<rparr>))"

subsection \<open>The invariant\<close>

definition held :: "(parse_key \<rightharpoonup> parse_response) \<Rightarrow> parse_key list \<Rightarrow> nat" where
  "held store ks = sum_list (map (\<lambda>k. case store k of Some r \<Rightarrow> approx_bytes r | None \<Rightarrow> 0) ks)"

definition parse_cache_ok :: "parse_cache \<Rightarrow> bool" where
  "parse_cache_ok c \<longleftrightarrow> distinct (pc_order c) \<and> set (pc_order c) = dom (pc_store c) \<and>
     pc_bytes c = held (pc_store c) (pc_order c) \<and> pc_bytes c \<le> MAX_PARSE_CACHE_BYTES"

lemma held_Cons: "held store (k # ks) = (case store k of Some r \<Rightarrow> approx_bytes r | None \<Rightarrow> 0) + held store ks"
  by (simp add: held_def)

lemma held_other: "k \<notin> set ks \<Longrightarrow> held (store(k := x)) ks = held store ks"
  unfolding held_def by (rule arg_cong[where f = sum_list]) (auto intro: map_cong)

lemma held_remove: "distinct ks \<Longrightarrow> k \<in> set ks \<Longrightarrow> store k = Some r \<Longrightarrow>
    held store ks = approx_bytes r + held (store(k := None)) ks"
proof (induction ks)
  case (Cons k' ks)
  show ?case
  proof (cases "k' = k")
    case True
    with Cons.prems have "held (store(k := None)) ks = held store ks" by (intro held_other) simp
    with True Cons.prems(3) show ?thesis unfolding held_Cons by simp
  next
    case False
    with Cons show ?thesis by (simp add: held_Cons)
  qed
qed simp

text \<open>The loop on a store without the key itself: it drops the oldest slots, and no more than it must.\<close>

lemma parse_evict_spec:
  assumes "distinct order" "dom store = set order - {key}" "bytes = held store order" "cost \<le> MAX_PARSE_CACHE_BYTES"
    and "parse_evict cost key store bytes order popped = (store', bytes', order', popped')"
  shows "\<exists>n \<le> length order. order' = drop n order \<and> store' = store |` set order' \<and> bytes' = held store' order' \<and>
    bytes' + cost \<le> MAX_PARSE_CACHE_BYTES \<and> popped' = (popped \<or> key \<in> set (take n order)) \<and>
    (\<forall>i<n. MAX_PARSE_CACHE_BYTES < held store (drop i order) + cost)"
  using assms
proof (induction cost key store bytes order popped rule: parse_evict.induct)
  case (1 cost key store bytes popped)
  then have "store = Map.empty" by auto
  with 1 show ?case by (simp add: held_def)
next
  case (2 cost key store bytes oldest order popped)
  note prems = "2.prems"
  show ?case
  proof (cases "MAX_PARSE_CACHE_BYTES < bytes + cost")
    case False
    have "store |` set (oldest # order) = store"
      using prems(2) by (auto simp: restrict_map_def fun_eq_iff domIff)
    moreover have "store' = store" "bytes' = bytes" "order' = oldest # order" "popped' = popped"
      using prems(5) False by simp_all
    ultimately show ?thesis
      using False prems(3) by (intro exI[of _ 0]) simp
  next
    case over: True
    have pop: "\<exists>n \<le> length order. order' = drop n order \<and> store' = store |` set order' \<and> bytes' = held store' order' \<and>
        bytes' + cost \<le> MAX_PARSE_CACHE_BYTES \<and> popped' = (popped1 \<or> key \<in> set (take n order)) \<and>
        (\<forall>i<n. MAX_PARSE_CACHE_BYTES < held store (drop i order) + cost) \<Longrightarrow>
        popped1 = (popped \<or> oldest = key) \<Longrightarrow> ?thesis" for popped1
    proof (elim exE conjE)
      fix n assume n: "n \<le> length order" "order' = drop n order" "store' = store |` set order'" "bytes' = held store' order'"
        "bytes' + cost \<le> MAX_PARSE_CACHE_BYTES" "popped' = (popped1 \<or> key \<in> set (take n order))"
        "\<forall>i<n. MAX_PARSE_CACHE_BYTES < held store (drop i order) + cost" and p: "popped1 = (popped \<or> oldest = key)"
      have "MAX_PARSE_CACHE_BYTES < held store (drop i (oldest # order)) + cost" if "i < Suc n" for i
        using that over prems(3) n(7) by (cases i) auto
      with n p show ?thesis by (intro exI[of _ "Suc n"]) auto
    qed
    show ?thesis
    proof (cases "oldest = key")
      case True
      have h: "held store (oldest # order) = held store order" "dom store = set order - {key}"
        using prems(1,2) True by (auto simp: held_Cons domIff split: option.splits)
      show ?thesis
        by (rule pop[OF "2.IH"(1)]) (use over True prems h in auto)
    next
      case False
      then obtain r where r: "store oldest = Some r" using prems(2) by auto
      define s1 where "s1 = store(oldest := None)"
      have h: "held s1 order = held store order"
        using prems(1) by (simp add: s1_def held_other)
      have dom1: "dom s1 = set order - {key}"
        using prems(1,2) False by (auto simp: s1_def)
      have held_all: "held store (oldest # order) = approx_bytes r + held store order"
        using r by (simp add: held_Cons)
      have bytes1: "bytes - approx_bytes r = held s1 order"
        using prems(3) held_all h by simp
      have loop1: "parse_evict cost key s1 (bytes - approx_bytes r) order popped = (store', bytes', order', popped')"
        using prems(5) over False r unfolding s1_def by (simp del: fun_upd_apply)
      have over': "\<not> \<not> MAX_PARSE_CACHE_BYTES < bytes + cost" using over by simp
      note IH = "2.IH"(3)[OF over' False r, folded s1_def]
      have "distinct order" using prems(1) by simp
      from IH[OF this dom1 bytes1 prems(4) loop1]
      have "\<exists>n \<le> length order. order' = drop n order \<and> store' = s1 |` set order' \<and> bytes' = held store' order' \<and>
        bytes' + cost \<le> MAX_PARSE_CACHE_BYTES \<and> popped' = (popped \<or> key \<in> set (take n order)) \<and>
        (\<forall>i<n. MAX_PARSE_CACHE_BYTES < held s1 (drop i order) + cost)" .
      moreover have "s1 |` set (drop n order) = store |` set (drop n order)" for n
        using prems(1) by (auto simp: s1_def restrict_map_def fun_eq_iff dest: in_set_dropD)
      moreover have "held s1 (drop i order) = held store (drop i order)" for i
        unfolding s1_def using prems(1) by (intro held_other) (auto dest: in_set_dropD)
      ultimately show ?thesis
        by (intro pop) (use False in auto)
    qed
  qed
qed

subsection \<open>Properties\<close>

lemma parse_cache_insert_spec:
  assumes ok: "parse_cache_ok c" and fits: "approx_bytes resp \<le> MAX_PARSE_CACHE_BYTES"
  shows "parse_cache_ok (parse_cache_insert key resp c) \<and> pc_store (parse_cache_insert key resp c) key = Some resp \<and>
    (\<exists>n \<le> length (pc_order c).
       (\<forall>k. k \<noteq> key \<longrightarrow> pc_store (parse_cache_insert key resp c) k =
          (if k \<in> set (drop n (pc_order c)) then pc_store c k else None)) \<and>
       (\<forall>i<n. MAX_PARSE_CACHE_BYTES < held ((pc_store c)(key := None)) (drop i (pc_order c)) + approx_bytes resp))"
proof -
  define store0 where "store0 = (pc_store c)(key := None)"
  have inv: "distinct (pc_order c)" "set (pc_order c) = dom (pc_store c)" "pc_bytes c = held (pc_store c) (pc_order c)"
    using ok by (simp_all add: parse_cache_ok_def)
  define existed where "existed \<longleftrightarrow> pc_store c key \<noteq> None"
  define bytes0 where "bytes0 = (case pc_store c key of Some prev \<Rightarrow> pc_bytes c - approx_bytes prev | None \<Rightarrow> pc_bytes c)"
  obtain store1 bytes1 order1 popped
    where loop: "parse_evict (approx_bytes resp) key store0 bytes0 (pc_order c) False = (store1, bytes1, order1, popped)"
    by (metis prod_cases4)
  have b0: "bytes0 = held store0 (pc_order c)"
  proof (cases "pc_store c key")
    case None
    then have "store0 = pc_store c" by (auto simp: store0_def)
    with None inv(3) show ?thesis by (simp add: bytes0_def)
  next
    case (Some prev)
    then have "key \<in> set (pc_order c)" using inv(2) by auto
    have "held (pc_store c) (pc_order c) = approx_bytes prev + held ((pc_store c)(key := None)) (pc_order c)"
      by (rule held_remove[where store = "pc_store c" and k = key and r = prev, OF inv(1) \<open>key \<in> set (pc_order c)\<close> Some])
    with Some inv(3) show ?thesis
      by (simp add: bytes0_def store0_def del: fun_upd_apply)
  qed
  have d0: "dom store0 = set (pc_order c) - {key}"
    using inv(2) by (auto simp: store0_def)
  from parse_evict_spec[OF inv(1) d0 b0 fits loop] obtain n where
    n: "n \<le> length (pc_order c)" "order1 = drop n (pc_order c)" "store1 = store0 |` set order1" "bytes1 = held store1 order1"
      "bytes1 + approx_bytes resp \<le> MAX_PARSE_CACHE_BYTES" "popped \<longleftrightarrow> key \<in> set (take n (pc_order c))"
      "\<forall>i<n. MAX_PARSE_CACHE_BYTES < held store0 (drop i (pc_order c)) + approx_bytes resp"
    by auto
  have out: "parse_cache_insert key resp c =
    \<lparr>pc_store = store1(key \<mapsto> resp), pc_bytes = bytes1 + approx_bytes resp,
     pc_order = (if \<not> existed \<or> popped then order1 @ [key] else order1)\<rparr>"
  proof (cases "pc_store c key")
    case None
    then have "store0 = pc_store c" by (auto simp: store0_def)
    with None fits loop show ?thesis by (simp add: parse_cache_insert_def existed_def bytes0_def)
  next
    case (Some prev)
    with fits loop show ?thesis by (simp add: parse_cache_insert_def existed_def bytes0_def store0_def)
  qed
  have split: "set (pc_order c) = set (take n (pc_order c)) \<union> set order1"
    unfolding n(2) by (metis append_take_drop_id set_append)
  have key_in: "key \<in> set (pc_order c) \<longleftrightarrow> existed" using inv(2) by (auto simp: existed_def)
  have apart: "set (take n (pc_order c)) \<inter> set order1 = {}"
    unfolding n(2) by (rule set_take_disj_set_drop_if_distinct[OF inv(1) order_refl])
  have dist1: "distinct order1" unfolding n(2) by (rule distinct_drop[OF inv(1)])
  have key1: "key \<in> set order1 \<longleftrightarrow> \<not> (\<not> existed \<or> popped)"
    using key_in apart n(6) split by blast
  let ?order = "if \<not> existed \<or> popped then order1 @ [key] else order1"
  have keyset: "set ?order = insert key (set order1)" "distinct ?order"
    using key1 dist1 by auto
  have dom1: "dom store1 = set order1 - {key}"
    using d0 split unfolding n(3) dom_restrict by blast
  have "held (store1(key \<mapsto> resp)) ?order = bytes1 + approx_bytes resp"
  proof (cases "key \<in> set order1")
    case False
    then have "held (store1(key \<mapsto> resp)) (order1 @ [key]) = held store1 order1 + approx_bytes resp"
      using held_other[OF False, of store1 "Some resp"] by (simp add: held_def)
    with False key1 n(4) show ?thesis by simp
  next
    case True
    have "(store1(key \<mapsto> resp))(key := None) = store1"
      using dom1 by (auto simp: fun_eq_iff)
    with held_remove[OF dist1 True, of "store1(key \<mapsto> resp)" resp]
    have "held (store1(key \<mapsto> resp)) order1 = approx_bytes resp + held store1 order1" by simp
    with True key1 n(4) show ?thesis by simp
  qed
  then have "parse_cache_ok (parse_cache_insert key resp c)"
    unfolding parse_cache_ok_def out using keyset dom1 n(5) by auto
  moreover have "pc_store (parse_cache_insert key resp c) k = (if k \<in> set (drop n (pc_order c)) then pc_store c k else None)"
    if "k \<noteq> key" for k
    using that n(2,3) by (simp add: out store0_def restrict_map_def)
  ultimately show ?thesis
    using n(1,7) by (auto simp: out store0_def)
qed

lemma parse_cache_insert_too_big: "MAX_PARSE_CACHE_BYTES < approx_bytes resp \<Longrightarrow> parse_cache_insert key resp c = c"
  by (simp add: parse_cache_insert_def)

definition insert_all :: "(parse_key \<times> parse_response) list \<Rightarrow> parse_cache" where
  "insert_all rs = fold (\<lambda>(k, r). parse_cache_insert k r) rs parse_cache_new"

lemma insert_all_ok: "parse_cache_ok (insert_all rs)"
proof (induction rs rule: rev_induct)
  case Nil
  show ?case by (simp add: insert_all_def parse_cache_new_def parse_cache_ok_def held_def)
next
  case (snoc r rs)
  then show ?case
    using parse_cache_insert_spec[of "insert_all rs" "snd r" "fst r"] parse_cache_insert_too_big[of "snd r" "fst r"]
    by (cases "approx_bytes (snd r) \<le> MAX_PARSE_CACHE_BYTES") (auto simp: insert_all_def case_prod_beta)
qed

text \<open>Whatever is inserted, the byte count is the sum of the sizes of the responses held, at most
  the budget, every key held has exactly one place in the order of eviction, and no other key has one.\<close>

lemma parse_cache_invariant:
  "pc_bytes (insert_all rs) \<le> MAX_PARSE_CACHE_BYTES \<and> distinct (pc_order (insert_all rs)) \<and>
   set (pc_order (insert_all rs)) = dom (pc_store (insert_all rs)) \<and>
   pc_bytes (insert_all rs) = sum_list (map (\<lambda>k. approx_bytes (the (pc_store (insert_all rs) k))) (pc_order (insert_all rs)))"
proof -
  have ok: "parse_cache_ok (insert_all rs)" by (rule insert_all_ok)
  then have "\<forall>k\<in>set (pc_order (insert_all rs)). \<exists>r. pc_store (insert_all rs) k = Some r"
    by (auto simp: parse_cache_ok_def)
  then have "held (pc_store (insert_all rs)) (pc_order (insert_all rs)) =
      sum_list (map (\<lambda>k. approx_bytes (the (pc_store (insert_all rs) k))) (pc_order (insert_all rs)))"
    unfolding held_def by (intro arg_cong[where f = sum_list] map_cong) auto
  with ok show ?thesis by (simp add: parse_cache_ok_def)
qed

text \<open>Inserting a response that fits the budget makes it what its key answers and takes away other
  keys only from the old end of the order, each only while the responses that were left, without the
  replaced one, did not leave room.\<close>

lemma parse_cache_fifo:
  assumes "c = insert_all rs" "approx_bytes resp \<le> MAX_PARSE_CACHE_BYTES"
  shows "pc_store (parse_cache_insert key resp c) key = Some resp \<and>
    (\<exists>n \<le> length (pc_order c).
       (\<forall>k. k \<noteq> key \<longrightarrow> pc_store (parse_cache_insert key resp c) k =
          (if k \<in> set (drop n (pc_order c)) then pc_store c k else None)) \<and>
       (\<forall>i<n. MAX_PARSE_CACHE_BYTES < held ((pc_store c)(key := None)) (drop i (pc_order c)) + approx_bytes resp))"
  using parse_cache_insert_spec[OF _ assms(2), of c key] insert_all_ok[of rs] assms(1) by blast

lemma parse_cache_fifo_witness:
  "pc_store (parse_cache_insert \<lparr>ck_plugin_version = ''1'', ck_file_hash = ''h''\<rparr>
       \<lparr>pr_nodes = [], pr_edges = [], pr_ffi_markers = [''m'']\<rparr> (insert_all []))
     \<lparr>ck_plugin_version = ''1'', ck_file_hash = ''h''\<rparr> =
     Some \<lparr>pr_nodes = [], pr_edges = [], pr_ffi_markers = [''m'']\<rparr> \<and>
    (\<exists>n \<le> length (pc_order (insert_all [])).
       (\<forall>k. k \<noteq> \<lparr>ck_plugin_version = ''1'', ck_file_hash = ''h''\<rparr> \<longrightarrow>
          pc_store (parse_cache_insert \<lparr>ck_plugin_version = ''1'', ck_file_hash = ''h''\<rparr>
            \<lparr>pr_nodes = [], pr_edges = [], pr_ffi_markers = [''m'']\<rparr> (insert_all [])) k =
          (if k \<in> set (drop n (pc_order (insert_all []))) then pc_store (insert_all []) k else None)) \<and>
       (\<forall>i<n. MAX_PARSE_CACHE_BYTES <
          held ((pc_store (insert_all []))(\<lparr>ck_plugin_version = ''1'', ck_file_hash = ''h''\<rparr> := None))
            (drop i (pc_order (insert_all []))) + approx_bytes \<lparr>pr_nodes = [], pr_edges = [], pr_ffi_markers = [''m'']\<rparr>))"
  by (rule parse_cache_fifo[OF refl]) (simp add: approx_bytes_def FFI_OVERHEAD_def MAX_PARSE_CACHE_BYTES_def)

end
