(* ===== verification/Core_Noise.thy ===== *)
theory Core_Noise
  imports Graph_Core
begin

section \<open>Nodes that are never an answer\<close>

text \<open>
  The structural noise predicates: \<open>is_noise_node\<close> and the test role of
  \<open>crates/travsr-core/src/lib.rs\<close>, \<open>noise.rs\<close> of the same crate, and the anchor and context
  predicates and \<open>kind_boost\<close> of \<open>crates/travsr-mcp/src/tools.rs\<close>. The Unicode upper-case test is the
  argument \<open>upper\<close>, a predicate of a character's bytes.
\<close>

datatype test_role = Role_None | Role_Entry | Role_Support

definition is_test :: "test_role \<Rightarrow> bool" where
  "is_test r \<longleftrightarrow> r \<noteq> Role_None"

fun role_as_i64 :: "test_role \<Rightarrow> int" where
  "role_as_i64 Role_None = 0"
| "role_as_i64 Role_Entry = 1"
| "role_as_i64 Role_Support = 2"

definition role_from_i64 :: "int \<Rightarrow> test_role" where
  "role_from_i64 v = (if v = 1 then Role_Entry else if v = 2 then Role_Support else Role_None)"

lemma role_roundtrip: "role_from_i64 (role_as_i64 r) = r"
  by (cases r) (simp_all add: role_from_i64_def)

record core_node = gnode +
  cn_line :: "nat option"
  cn_end_line :: "nat option"
  cn_test_role :: test_role

fun rfind_str :: "'a list \<Rightarrow> 'a list \<Rightarrow> nat option" where
  "rfind_str [] p = (if p = [] then Some 0 else None)"
| "rfind_str (c # cs) p =
     (case rfind_str cs p of
        Some i \<Rightarrow> Some (Suc i)
      | None \<Rightarrow> if starts_with (c # cs) p then Some 0 else None)"

definition is_scip_anonymous_local :: "string \<Rightarrow> bool" where
  "is_scip_anonymous_local sig =
     (case rfind_str sig ''local '' of
        Some pos \<Rightarrow> (let suffix = drop (pos + 6) sig in suffix \<noteq> [] \<and> list_all is_ascii_digit suffix)
      | None \<Rightarrow> False)"

abbreviation node_path :: "'a gnode_scheme \<Rightarrow> string" where
  "node_path n \<equiv> vn_path (gn_vname n)"

abbreviation node_sig :: "'a gnode_scheme \<Rightarrow> string" where
  "node_sig n \<equiv> vn_signature (gn_vname n)"

definition is_noise_node :: "core_node \<Rightarrow> bool" where
  "is_noise_node n =
     (let p = node_path n
      in if starts_with p ''third_party/'' \<or> starts_with p ''vendor/'' \<or> starts_with p ''node_modules/''
            \<or> contains_str p ''/node_modules/'' then True
         else if starts_with p ''../'' then True
         else if contains_str p ''/Library/Caches/'' \<or> contains_str p ''/.cache/''
            \<or> contains_str p ''/go-build/'' \<or> contains_str p ''/go/pkg/mod/'' then True
         else is_scip_anonymous_local (node_sig n))"

definition noise_path :: "string \<Rightarrow> bool" where
  "noise_path p \<longleftrightarrow>
     contains_str p ''/tests/'' \<or> contains_str p ''/benches/''
   \<or> contains_str p ''/fixtures/'' \<or> starts_with p ''fixtures/''
   \<or> contains_str p ''/fuzz/'' \<or> starts_with p ''fuzz/''
   \<or> ends_with p ''_test.go'' \<or> contains_str p ''/_test/''
   \<or> starts_with p ''tests/'' \<or> starts_with p ''benches/''
   \<or> contains_str p ''/target/debug/'' \<or> contains_str p ''/target/release/''
   \<or> contains_str p ''/node_modules/'' \<or> (contains_str p ''/dist/'' \<and> ends_with p ''.js'')
   \<or> contains_str p ''/testdata/'' \<or> starts_with p ''testdata/''
   \<or> contains_str p ''/__pycache__/'' \<or> ends_with p ''.pyc''
   \<or> contains_str p ''/src/test/java/'' \<or> starts_with p ''src/test/java/''
   \<or> contains_str p ''/src/test/kotlin/'' \<or> starts_with p ''src/test/kotlin/''
   \<or> contains_str p ''/src/test/scala/'' \<or> starts_with p ''src/test/scala/''
   \<or> contains_str p ''/build/classes/'' \<or> starts_with p ''build/classes/''
   \<or> contains_str p ''/build/generated/'' \<or> starts_with p ''build/generated/''
   \<or> contains_str p ''/target/classes/'' \<or> contains_str p ''/target/generated-sources/''
   \<or> contains_str p ''/target/scala-'' \<or> ends_with p ''.class''
   \<or> contains_str p ''/spec/'' \<or> starts_with p ''spec/''
   \<or> contains_str p ''/vendor/bundle/''
   \<or> (contains_str p ''/vendor/'' \<and> ends_with p ''.php'')
   \<or> ends_with p ''.o'' \<or> ends_with p ''.obj''
   \<or> contains_str p ''/CMakeFiles/'' \<or> contains_str p ''/_deps/''
   \<or> contains_str p ''/.dart_tool/'' \<or> contains_str p ''/.pub-cache/''
   \<or> contains_str p ''/obj/Debug/'' \<or> contains_str p ''/obj/Release/''
   \<or> starts_with p ''obj/Debug/'' \<or> starts_with p ''obj/Release/''
   \<or> contains_str p ''/bin/Debug/'' \<or> contains_str p ''/bin/Release/''
   \<or> starts_with p ''bin/Debug/'' \<or> starts_with p ''bin/Release/''
   \<or> ends_with p ''.AssemblyInfo.cs'' \<or> ends_with p ''.GlobalUsings.g.cs''"

definition is_structural_noise :: "core_node \<Rightarrow> bool" where
  "is_structural_noise n =
     (if is_noise_node n then True
      else if gn_kind n = ''doc-chunk'' then True
      else if gn_kind n = ''crate'' then True
      else if starts_with (node_sig n) ''scip:'' then True
      else noise_path (node_path n))"

definition is_noise_seed :: "core_node \<Rightarrow> bool" where
  "is_noise_seed n = is_structural_noise n"

definition is_context_result_noise :: "core_node \<Rightarrow> bool" where
  "is_context_result_noise n \<longleftrightarrow>
     is_noise_seed n \<or> gn_kind n = ''package'' \<or> starts_with (node_sig n) ''pkg:'' \<or> gn_kind n = ''file''"

definition upper_after :: "(string \<Rightarrow> bool) \<Rightarrow> string \<Rightarrow> string \<Rightarrow> bool" where
  "upper_after upper pre name \<longleftrightarrow>
     starts_with name pre \<and>
     (case chars (drop (length pre) name) of c # _ \<Rightarrow> upper c | [] \<Rightarrow> False)"

definition is_test_symbol :: "(string \<Rightarrow> bool) \<Rightarrow> core_node \<Rightarrow> bool" where
  "is_test_symbol upper n =
     (if gn_kind n \<noteq> ''function'' \<and> gn_kind n \<noteq> ''method'' then False
      else
        (let name = last (split_on (\<lambda>c. c = CHR ''#'' \<or> c = CHR '':'') (node_sig n));
             lower = to_ascii_lowercase name
         in starts_with lower ''test_'' \<or> ends_with lower ''_test'' \<or> contains_str lower ''_test_''
            \<or> upper_after upper ''Test'' name \<or> upper_after upper ''Benchmark'' name
            \<or> upper_after upper ''Fuzz'' name))"

definition is_anchor_noise :: "(string \<Rightarrow> bool) \<Rightarrow> core_node \<Rightarrow> bool" where
  "is_anchor_noise upper n \<longleftrightarrow>
     is_context_result_noise n \<or> is_test (cn_test_role n) \<or> is_test_symbol upper n"

definition kind_boost :: "string \<Rightarrow> string \<Rightarrow> rat" where
  "kind_boost kind language =
     (if kind \<in> {''method'', ''function'', ''constructor''} then 2
      else if kind \<in> {''class'', ''interface'', ''struct'', ''enum'', ''trait'', ''union''} then 3 / 2
      else if kind \<in> {''constant'', ''static''} then 6 / 5
      else if kind \<in> {''impl'', ''type''} then 1
      else if kind \<in> {''field'', ''var'', ''variable'', ''property''} then 7 / 10
      else if kind \<in> {''import'', ''file-module'', ''crate''} then 3 / 10
      else if kind = ''go-pkg'' then 1 / 20
      else if kind = ''module'' \<and> language = ''go'' then 1 / 20
      else 1)"

lemma kind_boost_bounds: "1 / 20 \<le> kind_boost kind language \<and> kind_boost kind language \<le> 2"
  by (auto simp: kind_boost_def)

lemma anchor_noise_seed: "is_noise_seed n \<Longrightarrow> is_anchor_noise upper n"
  by (simp add: is_anchor_noise_def is_context_result_noise_def)

end
