(* ===== verification/Seed_Query.thy ===== *)
theory Seed_Query
  imports Core_Noise Fts_Tokens "HOL-Library.Product_Lexorder"
begin

section \<open>Reading a query\<close>

text \<open>
  The text side of \<open>crates/travsr-mcp/src/seed.rs\<close>: the content tokens of a query, the inflectional
  stems tried for a token that names nothing, the intent keywords, the text sent for document recall,
  package roots, and the order of the candidates of one token.
\<close>

definition STOP_WORDS :: "string list" where
  "STOP_WORDS =
    [''a'', ''an'', ''the'', ''of'', ''in'', ''to'', ''is'', ''for'', ''and'', ''or'', ''with'', ''that'', ''this'', ''how'',
     ''what'', ''where'', ''when'', ''which'', ''does'', ''are'', ''by'', ''my'', ''from'', ''at'', ''it'', ''its'', ''be'',
     ''as'', ''on'', ''so'', ''all'', ''me'', ''i'', ''you'', ''we'', ''they'', ''he'', ''she'', ''was'', ''were'', ''had'',
     ''has'', ''have'', ''been'', ''do'', ''did'', ''would'', ''could'', ''should'']"

definition edge_punct :: "char \<Rightarrow> bool" where
  "edge_punct c \<longleftrightarrow> is_ascii_punct c \<and> c \<noteq> CHR ''_'' \<and> c \<noteq> CHR ''.''"

definition trim_punct :: "string \<Rightarrow> string" where
  "trim_punct w = rev (dropWhile edge_punct (rev (dropWhile edge_punct w)))"

definition content_token :: "string \<Rightarrow> string option" where
  "content_token w =
     (let stripped = trim_punct w
      in if stripped = [] then None
         else (let lower = to_ascii_lowercase stripped
               in if length lower < 2 \<or> lower \<in> set STOP_WORDS then None else Some stripped))"

definition tokenize_query :: "string \<Rightarrow> string list" where
  "tokenize_query query = List.map_filter content_token (split_whitespace query)"

definition doc_lane_query :: "string \<Rightarrow> string" where
  "doc_lane_query query =
     (let tokens = tokenize_query query
      in if tokens \<noteq> [] then join_with '' '' tokens
         else (let normalized = normalize_nl_query query
               in if normalized \<noteq> [] then normalized else trim query))"

subsection \<open>Stems\<close>

definition MIN_STEM :: nat where "MIN_STEM = 4"

definition sibilant :: "string \<Rightarrow> bool" where
  "sibilant b \<longleftrightarrow> ends_with b ''s'' \<or> ends_with b ''x'' \<or> ends_with b ''z'' \<or> ends_with b ''ch'' \<or> ends_with b ''sh''"

definition strip_inflection :: "string \<Rightarrow> string option" where
  "strip_inflection lower =
     (case or_else (strip_suffix lower ''ies'') (strip_suffix lower ''ied'') of
        Some base \<Rightarrow> Some (base @ ''y'')
      | None \<Rightarrow>
     (case strip_suffix lower ''ing'' of
        Some base \<Rightarrow> Some base
      | None \<Rightarrow>
     (case strip_suffix lower ''ed'' of
        Some base \<Rightarrow> Some base
      | None \<Rightarrow>
     (case (case strip_suffix lower ''es'' of Some b \<Rightarrow> if sibilant b then Some b else None | None \<Rightarrow> None) of
        Some base \<Rightarrow> Some base
      | None \<Rightarrow>
          if ends_with lower ''s'' \<and> \<not> ends_with lower ''ss'' then Some (take (length lower - 1) lower)
          else None))))"

definition inflectional_stem :: "string \<Rightarrow> string option" where
  "inflectional_stem token =
     (if length token < 5 \<or> \<not> list_all is_ascii_alpha token then None
      else (let lower = to_ascii_lowercase token
            in case strip_inflection lower of
                 None \<Rightarrow> None
               | Some stem \<Rightarrow> if length stem < MIN_STEM \<or> stem = lower then None else Some stem))"

definition inflectional_stem_restoring_e :: "string \<Rightarrow> string \<Rightarrow> string option" where
  "inflectional_stem_restoring_e token stem =
     (let lower = to_ascii_lowercase token
      in if list_ex (\<lambda>base. base = stem) (List.map_filter (strip_suffix lower) [''es'', ''ed'', ''ing''])
         then Some (stem @ ''e'') else None)"

subsection \<open>Intent, roots and document text\<close>

datatype query_intent = Lookup | Callers | Deps | Explain | Relation | Conceptual

definition classify_intent :: "string \<Rightarrow> query_intent" where
  "classify_intent query =
     (let lower = to_ascii_lowercase query
      in if contains_str lower ''calls '' \<or> contains_str lower ''callers'' \<or> contains_str lower ''who calls''
            \<or> contains_str lower ''called by'' then Callers
         else if contains_str lower ''import'' \<or> contains_str lower ''depends'' \<or> contains_str lower ''dependency''
            \<or> contains_str lower ''dependencies'' then Deps
         else (let first_word = (case split_whitespace lower of w # _ \<Rightarrow> w | [] \<Rightarrow> [])
               in if first_word = ''how'' \<or> contains_str lower ''explain'' \<or> contains_str lower ''describe'' then Explain
                  else if contains_str lower ''between'' \<or> contains_str lower ''relationship''
                    \<or> contains_str lower ''relation'' then Relation
                  else Lookup))"

fun second_slash :: "nat \<Rightarrow> nat \<Rightarrow> string \<Rightarrow> nat option" where
  "second_slash i slashes [] = None"
| "second_slash i slashes (c # cs) =
     (if c = CHR ''/'' then (if slashes + 1 = 2 then Some i else second_slash (i + 1) (slashes + 1) cs)
      else second_slash (i + 1) slashes cs)"

definition package_root :: "string \<Rightarrow> string option" where
  "package_root path = map_option (\<lambda>i. take i path) (second_slash 0 0 path)"

definition rerank_doc_text :: "string \<Rightarrow> string" where
  "rerank_doc_text embed_text =
     (case find_str embed_text ''| doc:'' of
        Some i \<Rightarrow> trim (drop (i + 6) embed_text)
      | None \<Rightarrow> [])"

subsection \<open>Candidates of one token\<close>

definition kind_logic_rank :: "string \<Rightarrow> nat" where
  "kind_logic_rank kind =
     (if kind \<in> {''method'', ''function'', ''constructor'', ''impl''} then 0
      else if kind \<in> {''field'', ''var'', ''variable'', ''property'', ''constant'', ''static'', ''import'', ''file-module''} then 2
      else 1)"

definition span_size :: "core_node \<Rightarrow> nat" where
  "span_size n =
     (case (cn_line n, cn_end_line n) of
        (Some a, Some b) \<Rightarrow> if a \<le> b then b - a else 0
      | _ \<Rightarrow> 0)"

definition order_anchor_candidates :: "core_node list \<Rightarrow> nat \<Rightarrow> core_node list" where
  "order_anchor_candidates exact_nodes window =
     sort_key (\<lambda>n. (kind_logic_rank (gn_kind n), - int (span_size n))) (take window exact_nodes)"

definition is_named_by :: "core_node \<Rightarrow> string \<Rightarrow> bool" where
  "is_named_by n name \<longleftrightarrow> gn_kind n \<noteq> ''impl'' \<and> gn_kind n \<noteq> ''import'' \<and> leaf_of (node_sig n) = name"

subsection \<open>Properties\<close>

lemma strip_suffix_Some: "strip_suffix s p = Some b \<longleftrightarrow> s = b @ p"
  by (auto simp: strip_suffix_def ends_with_iff split: if_splits)

lemma sublist_trans: "sublist a b \<Longrightarrow> sublist b c \<Longrightarrow> sublist a c"
  by (metis append.assoc sublist_def)

lemma strip_suffix_append [simp]: "strip_suffix (b @ p) p = Some b"
  by (simp add: strip_suffix_Some)

lemma strip_inflection_Some:
  assumes "strip_inflection lower = Some stem"
  shows "(\<exists>base. stem = base @ ''y'' \<and> lower \<in> {base @ ''ies'', base @ ''ied''}) \<or>
    lower \<in> {stem @ ''ing'', stem @ ''ed'', stem @ ''es'', stem @ ''s''}"
proof -
  have s: "lower = take (length lower - 1) lower @ ''s''" if "ends_with lower ''s''"
    using that by (auto simp: ends_with_iff)
  show ?thesis
    using assms s unfolding strip_inflection_def
    by (auto simp: or_else_def strip_suffix_Some split: option.splits if_splits)
qed

lemma lower_alpha: "is_ascii_alpha c \<Longrightarrow> is_ascii_lower (ascii_lower c)"
  by (auto simp: ascii_defs ascii_lower_def)

lemma stem_shape:
  assumes "inflectional_stem token = Some stem"
  shows "4 \<le> length stem \<and> list_all is_ascii_lower stem \<and>
    ((\<exists>base. stem = base @ ''y'' \<and> to_ascii_lowercase token \<in> {base @ ''ies'', base @ ''ied''}) \<or>
     to_ascii_lowercase token \<in> {stem @ ''ing'', stem @ ''ed'', stem @ ''es'', stem @ ''s''})"
proof -
  have f: "list_all is_ascii_alpha token" "strip_inflection (to_ascii_lowercase token) = Some stem" "4 \<le> length stem"
    using assms by (auto simp: inflectional_stem_def MIN_STEM_def Let_def split: if_splits option.splits)
  have low: "list_all is_ascii_lower (to_ascii_lowercase token)"
    using f(1) by (auto simp: list_all_iff lower_alpha)
  from strip_inflection_Some[OF f(2)] f(3) low show ?thesis
    by (auto simp: ascii_defs)
qed

lemma restoring_e_shape:
  "inflectional_stem_restoring_e token stem = Some alt \<longleftrightarrow>
     alt = stem @ ''e'' \<and> to_ascii_lowercase token \<in> {alt @ ''s'', alt @ ''d'', stem @ ''ing''}"
proof -
  have "list_ex (\<lambda>base. base = stem) (List.map_filter (strip_suffix lower) [''es'', ''ed'', ''ing'']) \<longleftrightarrow>
      lower \<in> {stem @ ''es'', stem @ ''ed'', stem @ ''ing''}" for lower
    by (auto simp: List.map_filter_simps strip_suffix_Some split: option.splits)
  then show ?thesis
    by (auto simp: inflectional_stem_restoring_e_def Let_def)
qed

text \<open>A stem tried for a token is at least four lower-case letters and the token is the stem with one
  regular ending, or its final y was written ie. The second attempt restores an e exactly where the
  token ends in es or ed after the restored word's other letters, or in ing.\<close>

lemma stem_is_regular:
  "(\<forall>stem. inflectional_stem token = Some stem \<longrightarrow>
      4 \<le> length stem \<and> list_all is_ascii_lower stem \<and>
      ((\<exists>base. stem = base @ ''y'' \<and> to_ascii_lowercase token \<in> {base @ ''ies'', base @ ''ied''}) \<or>
       to_ascii_lowercase token \<in> {stem @ ''ing'', stem @ ''ed'', stem @ ''es'', stem @ ''s''})) \<and>
   (inflectional_stem_restoring_e token stem = Some alt \<longleftrightarrow>
      alt = stem @ ''e'' \<and> to_ascii_lowercase token \<in> {alt @ ''s'', alt @ ''d'', stem @ ''ing''})"
  using stem_shape restoring_e_shape by blast

subsection \<open>Tokens\<close>

lemma ws_split_sublist: "w \<in> set (ws_split cs cur) \<Longrightarrow> sublist w (cur @ concat cs)"
proof (induction cs arbitrary: cur)
  case (Cons c cs)
  have tail: "sublist w (cur @ c @ concat cs)" if "sublist w (concat cs)"
    using that by (metis sublist_appendI sublist_trans append.assoc append.right_neutral)
  from Cons.prems Cons.IH[of "[]"] Cons.IH[of "cur @ c"] tail show ?case
    by (auto split: if_splits)
qed (auto split: if_splits)

lemma split_whitespace_sublist: "w \<in> set (split_whitespace q) \<Longrightarrow> sublist w q"
  using ws_split_sublist[of w "chars q" "[]"] by (simp add: split_whitespace_def)

lemma ws_split_empty_iff:
  "\<forall>c\<in>set cs. c \<noteq> [] \<Longrightarrow> ws_split cs cur = [] \<longleftrightarrow> cur = [] \<and> (\<forall>c\<in>set cs. is_whitespace c)"
  by (induction cs arbitrary: cur) auto

lemma trim_empty_iff: "trim s = [] \<longleftrightarrow> (\<forall>c\<in>set (chars s). is_whitespace c)"
proof -
  let ?d = "dropWhile is_whitespace (chars s)"
  have nonempty: "concat (rev xs) = [] \<longleftrightarrow> xs = []" if "set xs \<subseteq> set (chars s)" for xs
    using that chars_nonempty[of _ s] by (cases xs) (auto simp: subset_iff)
  have "set (dropWhile is_whitespace (rev ?d)) \<subseteq> set (chars s)"
    by (auto dest!: set_dropWhileD)
  then have "trim s = [] \<longleftrightarrow> dropWhile is_whitespace (rev ?d) = []"
    unfolding trim_def by (rule nonempty)
  also have "\<dots> \<longleftrightarrow> (\<forall>c\<in>set ?d. is_whitespace c)"
    by (simp add: dropWhile_eq_Nil_conv)
  also have "\<dots> \<longleftrightarrow> ?d = []"
    using hd_dropWhile[of is_whitespace "chars s"] hd_in_set[of ?d] by (metis empty_iff empty_set)
  finally show ?thesis by (simp add: dropWhile_eq_Nil_conv)
qed

lemma split_whitespace_empty_iff: "split_whitespace s = [] \<longleftrightarrow> trim s = []"
  unfolding split_whitespace_def trim_empty_iff using ws_split_empty_iff[of "chars s" "[]"] chars_nonempty by blast

lemma trim_punct_prefix: "prefix (trim_punct w) (dropWhile edge_punct w)"
  unfolding trim_punct_def suffix_to_prefix[symmetric] by (metis rev_rev_ident suffix_dropWhile suffix_to_prefix)

lemma trim_punct_sublist: "sublist (trim_punct w) w"
proof -
  have "prefix (trim_punct w) (dropWhile edge_punct w)" "suffix (dropWhile edge_punct w) w"
    by (rule trim_punct_prefix, rule suffix_dropWhile)
  then show ?thesis
    by (meson prefix_imp_sublist suffix_imp_sublist sublist_trans)
qed

lemma trim_punct_ends:
  assumes "trim_punct w \<noteq> []"
  shows "\<not> edge_punct (last (trim_punct w))" "\<not> edge_punct (hd (trim_punct w))"
proof -
  let ?d = "dropWhile edge_punct w"
  let ?r = "dropWhile edge_punct (rev ?d)"
  have r: "?r \<noteq> []" using assms by (simp add: trim_punct_def)
  then show "\<not> edge_punct (last (trim_punct w))"
    using hd_dropWhile[OF r] by (simp add: trim_punct_def last_rev)
  have d: "?d \<noteq> []"
  proof
    assume "?d = []"
    then have "?r = []" by (simp only: rev.simps dropWhile.simps)
    with r show False by simp
  qed
  have "hd (trim_punct w) = hd ?d"
    using assms trim_punct_prefix[of w] by (auto simp: prefix_def)
  with hd_dropWhile[OF d] show "\<not> edge_punct (hd (trim_punct w))" by simp
qed

lemma content_token_Some:
  assumes "content_token w = Some t"
  shows "sublist t w" "2 \<le> length t" "to_ascii_lowercase t \<notin> set STOP_WORDS"
    "\<not> edge_punct (hd t)" "\<not> edge_punct (last t)"
  using assms trim_punct_sublist[of w] trim_punct_ends[of w]
  by (auto simp: content_token_def Let_def split: if_splits)

lemma tokenize_query_mem:
  "t \<in> set (tokenize_query q) \<longleftrightarrow> (\<exists>w\<in>set (split_whitespace q). content_token w = Some t)"
  by (force simp: tokenize_query_def map_filter_def)

lemma doc_lane_query_empty: "doc_lane_query q = [] \<longleftrightarrow> trim q = []"
proof (cases "split_whitespace q = []")
  case True
  then have "tokenize_query q = []" "normalize_nl_query q = []"
    by (simp_all add: tokenize_query_def normalize_nl_query_def map_filter_def)
  with True show ?thesis
    by (simp add: doc_lane_query_def split_whitespace_empty_iff)
next
  case False
  have "\<forall>t\<in>set (tokenize_query q). t \<noteq> []"
    using content_token_Some(2) by (fastforce simp: tokenize_query_mem)
  then have "tokenize_query q \<noteq> [] \<Longrightarrow> join_with '' '' (tokenize_query q) \<noteq> []"
    using join_empty_iff[of "tokenize_query q" "'' ''"] by blast
  with False show ?thesis
    by (auto simp: doc_lane_query_def Let_def split_whitespace_empty_iff simp del: join_with.simps)
qed

text \<open>Every content token of a query is a contiguous piece of it, at least two bytes long, no stop
  word in any case, and starts and ends with no ASCII punctuation but underscore and dot. The document
  lane never searches for an empty text where the query is not blank.\<close>

lemma content_tokens:
  "(\<forall>t\<in>set (tokenize_query q). sublist t q \<and> 2 \<le> length t \<and> to_ascii_lowercase t \<notin> set STOP_WORDS \<and>
      \<not> edge_punct (hd t) \<and> \<not> edge_punct (last t)) \<and>
   (doc_lane_query q = [] \<longleftrightarrow> trim q = [])"
proof -
  have "sublist t q" if "content_token w = Some t" "w \<in> set (split_whitespace q)" for t w
    using content_token_Some(1)[OF that(1)] split_whitespace_sublist[OF that(2)] by (rule sublist_trans)
  then show ?thesis
    using content_token_Some doc_lane_query_empty by (auto simp: tokenize_query_mem)
qed

end
