(* ===== verification/Seed_Confidence.thy ===== *)
theory Seed_Confidence
  imports Graph_Core
begin

section \<open>How sure an answer is\<close>

text \<open>
  The verdict of \<open>crates/travsr-mcp/src/seed.rs\<close> on a query: the tuning knobs, the calibration of the
  cosine floors to the embedding model, the lexical lattice, the floors of the cross-encoder, the
  deterministic bypass for a literally named rare symbol, and the two rescues of an abstention.

  Scores and cosines are exact rationals in place of \<open>f32\<close>. An environment variable is read as text;
  \<open>en_f32\<close> is its value as a finite number where the text parses as one. A hash map from nodes to
  cosines is an association list. The manifest of the reranker is the pair of its floors.
\<close>

subsection \<open>Knobs\<close>

record environment =
  en_var :: "string \<Rightarrow> string option"
  en_f32 :: "string \<Rightarrow> rat option"

definition knob :: "('a \<Rightarrow> bool) \<Rightarrow> 'a \<Rightarrow> 'a option \<Rightarrow> 'a" where
  "knob valid fallback x = (case x of Some v \<Rightarrow> if valid v then v else fallback | None \<Rightarrow> fallback)"

definition usize_var :: "environment \<Rightarrow> string \<Rightarrow> nat option" where
  "usize_var en name = (case en_var en name of Some v \<Rightarrow> parse_uint u64_max v | None \<Rightarrow> None)"

definition unit_interval :: "rat \<Rightarrow> bool" where
  "unit_interval x \<longleftrightarrow> 0 \<le> x \<and> x \<le> 1"

definition positive_share :: "rat \<Rightarrow> bool" where
  "positive_share x \<longleftrightarrow> 0 < x \<and> x \<le> 1"

definition rare_anchor_max :: "environment \<Rightarrow> nat" where
  "rare_anchor_max en = knob (\<lambda>_. True) 3 (usize_var en ''TRAVSR_RARE_ANCHOR_MAX'')"

definition g1_subject_idf_share :: "environment \<Rightarrow> rat" where
  "g1_subject_idf_share en = knob unit_interval (55 / 100) (en_f32 en ''TRAVSR_G1_SUBJECT_IDF_SHARE'')"

definition coverage_strong :: "environment \<Rightarrow> rat" where
  "coverage_strong en = knob (\<lambda>_. True) (6 / 10) (en_f32 en ''TRAVSR_COVERAGE_STRONG'')"

definition coverage_weak :: "environment \<Rightarrow> rat" where
  "coverage_weak en = knob (\<lambda>_. True) (25 / 100) (en_f32 en ''TRAVSR_COVERAGE_WEAK'')"

definition bm25_strong_floor :: "environment \<Rightarrow> rat" where
  "bm25_strong_floor en = knob (\<lambda>x. 0 < x) (5 / 10) (en_f32 en ''TRAVSR_BM25_STRONG_FLOOR'')"

definition idf_coverage_min :: "environment \<Rightarrow> rat" where
  "idf_coverage_min en = knob positive_share (55 / 100) (en_f32 en ''TRAVSR_IDF_COVERAGE_MIN'')"

definition semantic_promote_strong :: "environment \<Rightarrow> rat" where
  "semantic_promote_strong en = knob positive_share (72 / 100) (en_f32 en ''TRAVSR_SEMANTIC_PROMOTE_STRONG'')"

definition semantic_promote_min_near :: "environment \<Rightarrow> nat" where
  "semantic_promote_min_near en = knob (\<lambda>_. True) 3 (usize_var en ''TRAVSR_SEMANTIC_PROMOTE_MIN_NEAR'')"

definition confirm_anchor_floor :: "environment \<Rightarrow> rat" where
  "confirm_anchor_floor en = knob unit_interval (66 / 100) (en_f32 en ''TRAVSR_CONFIRM_ANCHOR_FLOOR'')"

definition semantic_veto_floor :: "environment \<Rightarrow> rat" where
  "semantic_veto_floor en = knob unit_interval (55 / 100) (en_f32 en ''TRAVSR_SEMANTIC_VETO_FLOOR'')"

definition floor_env :: "environment \<Rightarrow> string \<Rightarrow> rat option" where
  "floor_env en name =
     (case en_f32 en name of Some x \<Rightarrow> if unit_interval x then Some x else None | None \<Rightarrow> None)"

definition switched_off :: "environment \<Rightarrow> string \<Rightarrow> bool" where
  "switched_off en name \<longleftrightarrow> en_var en name \<in> {Some ''0'', Some ''false'', Some ''off''}"

definition anchor_rescue_enabled :: "environment \<Rightarrow> bool" where
  "anchor_rescue_enabled en \<longleftrightarrow> \<not> switched_off en ''TRAVSR_ANCHOR_RESCUE''"

definition rerank_recall_floor :: "environment \<Rightarrow> rat" where
  "rerank_recall_floor en = (case floor_env en ''TRAVSR_RERANK_RECALL_FLOOR'' of Some x \<Rightarrow> x | None \<Rightarrow> 15 / 100)"

definition DEFAULT_STRONG_FLOOR :: rat where "DEFAULT_STRONG_FLOOR = 8 / 10"
definition DEFAULT_WEAK_FLOOR :: rat where "DEFAULT_WEAK_FLOOR = 5 / 10"

text \<open>\<open>env\<close>, else a manifest floor in range, else the compiled default.\<close>

definition model_floor :: "rat option \<Rightarrow> rat option \<Rightarrow> rat \<Rightarrow> rat" where
  "model_floor env manifest compiled =
     (case env of
        Some x \<Rightarrow> x
      | None \<Rightarrow> (case manifest of Some x \<Rightarrow> if unit_interval x then x else compiled | None \<Rightarrow> compiled))"

definition rerank_strong_floor :: "environment \<Rightarrow> rat option \<Rightarrow> rat" where
  "rerank_strong_floor en manifest = model_floor (floor_env en ''TRAVSR_RERANK_STRONG_FLOOR'') manifest DEFAULT_STRONG_FLOOR"

definition rerank_weak_floor :: "environment \<Rightarrow> rat option \<Rightarrow> rat" where
  "rerank_weak_floor en manifest = model_floor (floor_env en ''TRAVSR_RERANK_WEAK_FLOOR'') manifest DEFAULT_WEAK_FLOOR"

subsection \<open>Calibration\<close>

record calibration =
  ca_lo :: rat
  ca_hi :: rat

definition REF_LO :: rat where "REF_LO = 55 / 100"
definition REF_HI :: rat where "REF_HI = 77 / 100"

definition IDENTITY :: calibration where
  "IDENTITY = \<lparr>ca_lo = REF_LO, ca_hi = REF_HI\<rparr>"

text \<open>\<open>meta\<close> is the store's table of settings, \<open>parse\<close> the finite number a trimmed text denotes.\<close>

definition calibration_load :: "(string \<Rightarrow> string option) \<Rightarrow> (string \<Rightarrow> rat option) \<Rightarrow> calibration" where
  "calibration_load meta parse =
     (let g = (\<lambda>k. case meta k of Some s \<Rightarrow> parse (trim s) | None \<Rightarrow> None)
      in case (g ''embed_cos_lo'', g ''embed_cos_hi'') of
           (Some lo, Some hi) \<Rightarrow> if lo < hi then \<lparr>ca_lo = lo, ca_hi = hi\<rparr> else IDENTITY
         | _ \<Rightarrow> IDENTITY)"

definition clamp :: "rat \<Rightarrow> rat \<Rightarrow> rat \<Rightarrow> rat" where
  "clamp lo hi x = (if x < lo then lo else if hi < x then hi else x)"

definition cal_map :: "calibration \<Rightarrow> rat \<Rightarrow> rat" where
  "cal_map cal ref_cos =
     (let frac = (ref_cos - REF_LO) / (REF_HI - REF_LO)
      in clamp (-1) 1 (ca_lo cal + frac * (ca_hi cal - ca_lo cal)))"

definition cal_map_delta :: "calibration \<Rightarrow> rat \<Rightarrow> rat" where
  "cal_map_delta cal ref_delta = ref_delta * (ca_hi cal - ca_lo cal) / (REF_HI - REF_LO)"

definition SEMANTIC_RECALL_FLOOR_REF :: rat where "SEMANTIC_RECALL_FLOOR_REF = 65 / 100"
definition RECALL_FLOOR_IDENTITY :: rat where "RECALL_FLOOR_IDENTITY = 75 / 100"
definition SEMANTIC_ORACLE_MIN :: rat where "SEMANTIC_ORACLE_MIN = 58 / 100"
definition SEMANTIC_REL_DELTA :: rat where "SEMANTIC_REL_DELTA = 13 / 100"
definition SEMANTIC_ABS_FLOOR :: rat where "SEMANTIC_ABS_FLOOR = 55 / 100"

definition semantic_recall_floor :: "environment \<Rightarrow> calibration \<Rightarrow> rat" where
  "semantic_recall_floor en cal =
     (case floor_env en ''TRAVSR_SEMANTIC_RECALL_FLOOR'' of
        Some x \<Rightarrow> x
      | None \<Rightarrow> if cal = IDENTITY then RECALL_FLOOR_IDENTITY else cal_map cal SEMANTIC_RECALL_FLOOR_REF)"

subsection \<open>Terms and verdicts\<close>

record resolved_term =
  rt_token :: string
  rt_resolved :: bool
  rt_symbol_freq :: nat
  rt_idf_w :: rat
  rt_top_node :: "node_id option"
  rt_anchors_emitted :: nat

datatype confidence = Conf_None | Conf_Weak | Conf_Strong | Conf_Exact

fun conf_label :: "confidence \<Rightarrow> string" where
  "conf_label Conf_Exact = ''exact''"
| "conf_label Conf_Strong = ''strong''"
| "conf_label Conf_Weak = ''weak''"
| "conf_label Conf_None = ''none''"

text \<open>The order of trust, for the statements only.\<close>

fun conf_rank :: "confidence \<Rightarrow> nat" where
  "conf_rank Conf_None = 0"
| "conf_rank Conf_Weak = 1"
| "conf_rank Conf_Strong = 2"
| "conf_rank Conf_Exact = 3"

lemma conf_rank_inj: "conf_rank a = conf_rank b \<longleftrightarrow> a = b"
  by (cases a; cases b) simp_all

instantiation confidence :: linorder
begin

definition less_eq_confidence :: "confidence \<Rightarrow> confidence \<Rightarrow> bool" where
  "less_eq_confidence a b \<longleftrightarrow> conf_rank a \<le> conf_rank b"

definition less_confidence :: "confidence \<Rightarrow> confidence \<Rightarrow> bool" where
  "less_confidence a b \<longleftrightarrow> conf_rank a < conf_rank b"

instance
  by intro_classes (auto simp: less_eq_confidence_def less_confidence_def conf_rank_inj)

end

type_synonym cosines = "(node_id \<times> rat) list"

definition oracle_top :: "cosines \<Rightarrow> rat" where
  "oracle_top cs = fold max (map snd cs) 0"

record evidence =
  ev_terms :: "resolved_term list"
  ev_coverage :: rat
  ev_top_bm25 :: rat
  ev_has_seeds :: bool
  ev_knn :: cosines
  ev_anchor :: cosines
  ev_scored :: "node_id set"

subsection \<open>The lexical lattice\<close>

definition oracle_confident :: "calibration \<Rightarrow> evidence \<Rightarrow> bool" where
  "oracle_confident cal ev \<longleftrightarrow> cal_map cal SEMANTIC_ORACLE_MIN \<le> oracle_top (ev_knn ev)"

definition cosine_floor :: "calibration \<Rightarrow> rat \<Rightarrow> rat" where
  "cosine_floor cal peak = max (peak - cal_map_delta cal SEMANTIC_REL_DELTA) (cal_map cal SEMANTIC_ABS_FLOOR)"

definition embed_agrees :: "calibration \<Rightarrow> evidence \<Rightarrow> resolved_term \<Rightarrow> bool" where
  "embed_agrees cal ev t \<longleftrightarrow>
     (if \<not> oracle_confident cal ev then True
      else case rt_top_node t of
             Some n \<Rightarrow>
               (case map_of (ev_anchor ev) n of
                  Some c \<Rightarrow> cosine_floor cal (oracle_top (ev_knn ev)) \<le> c
                | None \<Rightarrow> n \<in> ev_scored ev)
           | None \<Rightarrow> False)"

definition has_rare_anchor :: "environment \<Rightarrow> calibration \<Rightarrow> evidence \<Rightarrow> bool" where
  "has_rare_anchor en cal ev \<longleftrightarrow>
     list_ex (\<lambda>t. rt_resolved t \<and> rt_symbol_freq t \<le> rare_anchor_max en \<and> embed_agrees cal ev t) (ev_terms ev)"

definition has_specific_anchor :: "environment \<Rightarrow> calibration \<Rightarrow> evidence \<Rightarrow> bool" where
  "has_specific_anchor en cal ev \<longleftrightarrow>
     list_ex (\<lambda>t. rt_resolved t \<and> idf_coverage_min en \<le> rt_idf_w t \<and> embed_agrees cal ev t) (ev_terms ev)"

definition confirm_floor :: "environment \<Rightarrow> calibration \<Rightarrow> evidence \<Rightarrow> rat" where
  "confirm_floor en cal ev =
     max (cosine_floor cal (oracle_top (ev_knn ev))) (cal_map cal (confirm_anchor_floor en))"

definition embed_confirmed_specific :: "environment \<Rightarrow> calibration \<Rightarrow> evidence \<Rightarrow> bool" where
  "embed_confirmed_specific en cal ev \<longleftrightarrow>
     oracle_confident cal ev \<and>
     list_ex (\<lambda>t. rt_resolved t \<and> idf_coverage_min en \<le> rt_idf_w t \<and>
         (case Option.bind (rt_top_node t) (map_of (ev_anchor ev)) of
            Some c \<Rightarrow> confirm_floor en cal ev \<le> c
          | None \<Rightarrow> False)) (ev_terms ev)"

definition semantic_strong :: "environment \<Rightarrow> calibration \<Rightarrow> evidence \<Rightarrow> bool" where
  "semantic_strong en cal ev \<longleftrightarrow>
     ev_has_seeds ev \<and>
     cal_map cal (semantic_promote_strong en) \<le> oracle_top (ev_knn ev) \<and>
     semantic_promote_min_near en \<le>
       length (filter (\<lambda>p. cosine_floor cal (oracle_top (ev_knn ev)) \<le> snd p) (ev_knn ev))"

definition semantic_veto :: "environment \<Rightarrow> calibration \<Rightarrow> evidence \<Rightarrow> bool" where
  "semantic_veto en cal ev \<longleftrightarrow>
     ev_knn ev \<noteq> [] \<and> oracle_top (ev_knn ev) < cal_map cal (semantic_veto_floor en) \<and>
     \<not> has_rare_anchor en cal ev"

definition lexical_fallback :: "environment \<Rightarrow> calibration \<Rightarrow> evidence \<Rightarrow> confidence" where
  "lexical_fallback en cal ev =
     (if has_rare_anchor en cal ev \<and> coverage_strong en \<le> ev_coverage ev then Conf_Exact
      else if has_specific_anchor en cal ev \<and> coverage_strong en \<le> ev_coverage ev then Conf_Strong
      else if embed_confirmed_specific en cal ev \<and> coverage_weak en \<le> ev_coverage ev then Conf_Strong
      else if semantic_strong en cal ev then Conf_Strong
      else if \<not> oracle_confident cal ev \<and> bm25_strong_floor en \<le> ev_top_bm25 ev
        \<and> coverage_strong en \<le> ev_coverage ev then Conf_Strong
      else if semantic_veto en cal ev then Conf_None
      else if ev_has_seeds ev \<and> (coverage_weak en \<le> ev_coverage ev \<or> has_specific_anchor en cal ev) then Conf_Weak
      else Conf_None)"

subsection \<open>The cross-encoder and the rescues\<close>

record trusted_anchors =
  ta_exact :: "node_id set"
  ta_corrected :: "node_id set"

definition is_rare_anchor :: "trusted_anchors \<Rightarrow> nat \<Rightarrow> resolved_term \<Rightarrow> bool" where
  "is_rare_anchor anchors rare_max t \<longleftrightarrow>
     rt_resolved t \<and>
     (case rt_top_node t of
        Some n \<Rightarrow> n \<in> ta_exact anchors \<and> (rt_symbol_freq t \<le> rare_max \<or> n \<in> ta_corrected anchors)
      | None \<Rightarrow> False)"

definition g1_bypass_decision :: "resolved_term list \<Rightarrow> trusted_anchors \<Rightarrow> nat \<Rightarrow> rat \<Rightarrow> bool" where
  "g1_bypass_decision terms anchors rare_max subject_share =
     (if \<not> list_ex (is_rare_anchor anchors rare_max) terms then False
      else (let total_idf = sum_list (map rt_idf_w terms)
            in if total_idf \<le> 0 then False
               else subject_share * total_idf \<le>
                 sum_list (map (\<lambda>t. if is_rare_anchor anchors rare_max t then rt_idf_w t else 0) terms)))"

definition compute_g1_bypass :: "environment \<Rightarrow> resolved_term list \<Rightarrow> trusted_anchors \<Rightarrow> bool" where
  "compute_g1_bypass en terms anchors =
     g1_bypass_decision terms anchors (rare_anchor_max en) (g1_subject_idf_share en)"

record rerank_floors =
  rf_strong :: "rat option"
  rf_weak :: "rat option"

definition base_verdict :: "environment \<Rightarrow> rerank_floors \<Rightarrow> calibration \<Rightarrow> evidence \<Rightarrow> bool \<Rightarrow> rat option
    \<Rightarrow> confidence" where
  "base_verdict en mf cal ev g1_bypass rerank_score =
     (if g1_bypass then lexical_fallback en cal ev
      else (let weak = rerank_weak_floor en (rf_weak mf);
                strong = max (rerank_strong_floor en (rf_strong mf)) weak
            in case rerank_score of
                 Some r \<Rightarrow> if strong \<le> r then Conf_Strong else if weak \<le> r then Conf_Weak else Conf_None
               | None \<Rightarrow> lexical_fallback en cal ev))"

definition classify_confidence :: "environment \<Rightarrow> rerank_floors \<Rightarrow> calibration \<Rightarrow> evidence \<Rightarrow> bool \<Rightarrow> rat option
    \<Rightarrow> confidence" where
  "classify_confidence en mf cal ev g1_bypass rerank_score =
     (let base = base_verdict en mf cal ev g1_bypass rerank_score
      in if base = Conf_None \<and> \<not> g1_bypass \<and> cal \<noteq> IDENTITY
            \<and> semantic_recall_floor en cal \<le> oracle_top (ev_knn ev)
         then Conf_Weak else base)"

definition contentless_query_confidence :: "confidence \<Rightarrow> rat option \<Rightarrow> bool \<Rightarrow> confidence" where
  "contentless_query_confidence base max_rerank has_content_tokens =
     (if max_rerank = None \<and> \<not> has_content_tokens then Conf_None else base)"

definition anchor_rescued_confidence :: "confidence \<Rightarrow> bool \<Rightarrow> rat option \<Rightarrow> bool \<Rightarrow> bool \<Rightarrow> rat \<Rightarrow> confidence" where
  "anchor_rescued_confidence base g1_bypass max_rerank exact_anchor_present coverage_ok recall_floor =
     (if base = Conf_None \<and> \<not> g1_bypass \<and> coverage_ok \<and> exact_anchor_present
         \<and> (case max_rerank of Some r \<Rightarrow> recall_floor \<le> r | None \<Rightarrow> True)
      then Conf_Weak else base)"

text \<open>The end of \<open>build_seed_set\<close>: the numbers of the query and the composition of the stages.\<close>

definition n_resolved :: "environment \<Rightarrow> resolved_term list \<Rightarrow> nat" where
  "n_resolved en terms = length (filter (\<lambda>t. rt_resolved t \<and> idf_coverage_min en \<le> rt_idf_w t) terms)"

definition query_coverage :: "environment \<Rightarrow> resolved_term list \<Rightarrow> rat" where
  "query_coverage en terms =
     (if terms = [] then 5 / 10 else of_nat (n_resolved en terms) / of_nat (length terms))"

definition coverage_ok :: "environment \<Rightarrow> resolved_term list \<Rightarrow> rat option \<Rightarrow> bool" where
  "coverage_ok en terms max_rerank \<longleftrightarrow>
     1 \<le> n_resolved en terms \<or>
     (max_rerank = None \<and> length terms = 1 \<and> rt_resolved (terms ! 0))"

definition final_verdict :: "environment \<Rightarrow> rerank_floors \<Rightarrow> calibration \<Rightarrow> evidence \<Rightarrow> bool \<Rightarrow> rat option \<Rightarrow> bool
    \<Rightarrow> confidence" where
  "final_verdict en mf cal ev g1_bypass max_rerank exact_anchor_present =
     (let confidence = classify_confidence en mf cal ev g1_bypass max_rerank;
          base = contentless_query_confidence confidence max_rerank (ev_terms ev \<noteq> [])
      in if anchor_rescue_enabled en
         then anchor_rescued_confidence base g1_bypass max_rerank exact_anchor_present
                (coverage_ok en (ev_terms ev) max_rerank) (rerank_recall_floor en)
         else base)"

definition confidence_display_ceiling :: "environment \<Rightarrow> confidence \<Rightarrow> rat" where
  "confidence_display_ceiling en c =
     (if en_var en ''TRAVSR_DISPLAY_TIER_CAP'' = Some ''0'' then 1
      else case c of Conf_Exact \<Rightarrow> 1 | Conf_Strong \<Rightarrow> 1 | Conf_Weak \<Rightarrow> 60 / 100 | Conf_None \<Rightarrow> 40 / 100)"

definition display_score :: "environment \<Rightarrow> node_id \<Rightarrow> rat \<Rightarrow> (node_id \<rightharpoonup> rat) \<Rightarrow> bool \<Rightarrow> rat option \<Rightarrow> confidence
    \<Rightarrow> rat" where
  "display_score en node normalized_ppr seed_rerank is_primary_seed expanded_cap c =
     (case seed_rerank node of
        Some r \<Rightarrow> r
      | None \<Rightarrow>
          if is_primary_seed then min normalized_ppr (confidence_display_ceiling en c)
          else (case expanded_cap of Some cap \<Rightarrow> min normalized_ppr cap | None \<Rightarrow> normalized_ppr))"

subsection \<open>Properties\<close>

lemma knob_valid: "valid d \<Longrightarrow> valid (knob valid d x)"
  by (simp add: knob_def split: option.splits)

lemma floors_in_unit:
  "unit_interval (rerank_weak_floor en m)" "unit_interval (rerank_strong_floor en m)"
  "unit_interval (rerank_recall_floor en)" "unit_interval (g1_subject_idf_share en)"
  by (auto simp: rerank_weak_floor_def rerank_strong_floor_def rerank_recall_floor_def model_floor_def floor_env_def
      g1_subject_idf_share_def knob_def unit_interval_def DEFAULT_WEAK_FLOOR_def DEFAULT_STRONG_FLOOR_def
      split: option.splits if_splits)

subsubsection \<open>Calibration\<close>

lemma ref_band: "0 < REF_HI - REF_LO"
  by (simp add: REF_HI_def REF_LO_def)

lemma clamp_mono: "lo \<le> hi \<Longrightarrow> x \<le> y \<Longrightarrow> clamp lo hi x \<le> clamp lo hi y"
  by (auto simp: clamp_def)

lemma cal_map_identity: "-1 \<le> x \<Longrightarrow> x \<le> 1 \<Longrightarrow> cal_map IDENTITY x = x"
  using ref_band by (simp add: cal_map_def IDENTITY_def clamp_def)

lemma cal_map_mono:
  assumes "ca_lo cal \<le> ca_hi cal" "x \<le> y"
  shows "cal_map cal x \<le> cal_map cal y"
proof -
  have "(x - REF_LO) / (REF_HI - REF_LO) * (ca_hi cal - ca_lo cal) \<le> (y - REF_LO) / (REF_HI - REF_LO) * (ca_hi cal - ca_lo cal)"
    using assms ref_band by (intro mult_right_mono divide_right_mono) auto
  then show ?thesis
    by (simp add: cal_map_def clamp_mono)
qed

lemma calibration_load_band: "ca_lo (calibration_load meta parse) < ca_hi (calibration_load meta parse)"
  by (auto simp: calibration_load_def Let_def IDENTITY_def REF_LO_def REF_HI_def split: option.splits)

text \<open>Whatever the index stores as its calibration, the mapping of the floors preserves their order and
  stays a cosine, takes the two reference anchors to the stored ones, and without a usable calibration
  is the identity.\<close>

lemma calibration_keeps_order:
  assumes "cal = calibration_load meta parse"
  shows "(x \<le> y \<longrightarrow> cal_map cal x \<le> cal_map cal y) \<and> -1 \<le> cal_map cal x \<and> cal_map cal x \<le> 1 \<and>
    (-1 \<le> ca_lo cal \<and> ca_hi cal \<le> 1 \<longrightarrow> cal_map cal REF_LO = ca_lo cal \<and> cal_map cal REF_HI = ca_hi cal) \<and>
    (meta ''embed_cos_lo'' = None \<and> -1 \<le> x \<and> x \<le> 1 \<longrightarrow> cal_map cal x = x)"
proof -
  have band: "ca_lo cal < ca_hi cal" using calibration_load_band assms by simp
  have "x \<le> y \<longrightarrow> cal_map cal x \<le> cal_map cal y" using band by (simp add: cal_map_mono)
  moreover have "-1 \<le> cal_map cal x \<and> cal_map cal x \<le> 1"
    by (simp add: cal_map_def clamp_def Let_def)
  moreover have "cal_map cal REF_LO = ca_lo cal \<and> cal_map cal REF_HI = ca_hi cal" if "-1 \<le> ca_lo cal" "ca_hi cal \<le> 1"
    using that band ref_band by (simp add: cal_map_def clamp_def)
  moreover have "cal_map cal x = x" if "meta ''embed_cos_lo'' = None" "-1 \<le> x" "x \<le> 1"
  proof -
    have "cal = IDENTITY" using assms that(1) by (simp add: calibration_load_def)
    with cal_map_identity[OF that(2,3)] show ?thesis by simp
  qed
  ultimately show ?thesis by blast
qed

lemma calibration_keeps_order_witness:
  "(1 / 2 \<le> (6 / 10 :: rat) \<longrightarrow> cal_map IDENTITY (1 / 2) \<le> cal_map IDENTITY (6 / 10)) \<and>
   -1 \<le> cal_map IDENTITY (1 / 2) \<and> cal_map IDENTITY (1 / 2) \<le> 1 \<and>
    (-1 \<le> ca_lo IDENTITY \<and> ca_hi IDENTITY \<le> 1 \<longrightarrow>
       cal_map IDENTITY REF_LO = ca_lo IDENTITY \<and> cal_map IDENTITY REF_HI = ca_hi IDENTITY) \<and>
    (None = (None :: string option) \<and> -1 \<le> (1 / 2 :: rat) \<and> 1 / 2 \<le> (1 :: rat) \<longrightarrow> cal_map IDENTITY (1 / 2) = 1 / 2)"
  by (rule calibration_keeps_order[where meta = "\<lambda>_. None" and parse = "\<lambda>_. None"]) (simp add: calibration_load_def)

subsubsection \<open>The verdict\<close>

lemma fallback_exact:
  "lexical_fallback en cal ev = Conf_Exact \<longleftrightarrow> has_rare_anchor en cal ev \<and> coverage_strong en \<le> ev_coverage ev"
  by (simp add: lexical_fallback_def)

lemma final_exact:
  "final_verdict en mf cal ev g1 r present = Conf_Exact \<longleftrightarrow>
     (g1 \<or> r = None) \<and> \<not> (r = None \<and> ev_terms ev = []) \<and> lexical_fallback en cal ev = Conf_Exact"
  by (auto simp: final_verdict_def classify_confidence_def contentless_query_confidence_def
      anchor_rescued_confidence_def base_verdict_def Let_def split: option.splits if_splits)

text \<open>An answer is called exact only where the query names a symbol: some content token resolved to a
  symbol no more frequent than the bar and, where embeddings are confident, near the query or beyond
  their reach; enough of the tokens resolved; and the cross-encoder was bypassed or had no opinion.\<close>

lemma exact_names_a_rare_symbol:
  assumes "final_verdict en mf cal ev g1 r present = Conf_Exact"
  shows "(g1 \<or> r = None) \<and> coverage_strong en \<le> ev_coverage ev \<and>
    (\<exists>t\<in>set (ev_terms ev). rt_resolved t \<and> rt_symbol_freq t \<le> rare_anchor_max en \<and>
       (oracle_confident cal ev \<longrightarrow>
          (\<exists>n. rt_top_node t = Some n \<and>
             (case map_of (ev_anchor ev) n of
                Some c \<Rightarrow> cosine_floor cal (oracle_top (ev_knn ev)) \<le> c
              | None \<Rightarrow> n \<in> ev_scored ev))))"
proof -
  have e: "g1 \<or> r = None" "has_rare_anchor en cal ev" "coverage_strong en \<le> ev_coverage ev"
    using assms by (auto simp: final_exact fallback_exact)
  then obtain t where t: "t \<in> set (ev_terms ev)" "rt_resolved t" "rt_symbol_freq t \<le> rare_anchor_max en"
      "embed_agrees cal ev t"
    by (auto simp: has_rare_anchor_def list_ex_iff)
  from t(4) have "oracle_confident cal ev \<longrightarrow>
      (\<exists>n. rt_top_node t = Some n \<and>
         (case map_of (ev_anchor ev) n of
            Some c \<Rightarrow> cosine_floor cal (oracle_top (ev_knn ev)) \<le> c
          | None \<Rightarrow> n \<in> ev_scored ev))"
    by (auto simp: embed_agrees_def split: option.splits)
  with e t show ?thesis by blast
qed

definition default_env :: environment where
  "default_env = \<lparr>en_var = \<lambda>_. None, en_f32 = \<lambda>_. None\<rparr>"

definition one_term :: resolved_term where
  "one_term = \<lparr>rt_token = ''GetWarningsForPod'', rt_resolved = True, rt_symbol_freq = 1, rt_idf_w = 9 / 10,
     rt_top_node = Some 7, rt_anchors_emitted = 1\<rparr>"

definition lexical_evidence :: "resolved_term list \<Rightarrow> evidence" where
  "lexical_evidence terms = \<lparr>ev_terms = terms, ev_coverage = query_coverage default_env terms, ev_top_bm25 = 0,
     ev_has_seeds = True, ev_knn = [], ev_anchor = [], ev_scored = {}\<rparr>"

lemma default_floors:
  "coverage_strong default_env = 6 / 10" "coverage_weak default_env = 25 / 100" "idf_coverage_min default_env = 55 / 100"
  "rare_anchor_max default_env = 3"
  by (simp_all add: default_env_def coverage_strong_def coverage_weak_def idf_coverage_min_def rare_anchor_max_def
      usize_var_def knob_def)

lemma one_term_covered: "query_coverage default_env [one_term] = 1"
  by (simp add: query_coverage_def n_resolved_def default_floors one_term_def)

lemma no_oracle: "ev_knn ev = [] \<Longrightarrow> \<not> oracle_confident IDENTITY ev"
  by (simp add: oracle_confident_def oracle_top_def cal_map_identity SEMANTIC_ORACLE_MIN_def)

lemma exact_names_a_rare_symbol_witness:
  "final_verdict default_env \<lparr>rf_strong = None, rf_weak = None\<rparr> IDENTITY (lexical_evidence [one_term]) False None True
      = Conf_Exact \<and>
    6 / 10 \<le> ev_coverage (lexical_evidence [one_term]) \<and> rt_resolved one_term \<and> rt_symbol_freq one_term \<le> 3"
proof -
  have "has_rare_anchor default_env IDENTITY (lexical_evidence [one_term])"
    using no_oracle[of "lexical_evidence [one_term]"]
    by (simp add: has_rare_anchor_def embed_agrees_def lexical_evidence_def default_floors one_term_def)
  then have verdict: "final_verdict default_env \<lparr>rf_strong = None, rf_weak = None\<rparr> IDENTITY (lexical_evidence [one_term])
      False None True = Conf_Exact"
    by (simp add: final_exact fallback_exact default_floors) (simp add: lexical_evidence_def one_term_covered)
  have terms: "ev_terms (lexical_evidence [one_term]) = [one_term]" by (simp add: lexical_evidence_def)
  show ?thesis using exact_names_a_rare_symbol[OF verdict] verdict by (simp add: terms default_floors)
qed

lemma reranked:
  "final_verdict en mf cal ev False (Some r) present =
     (let weak = rerank_weak_floor en (rf_weak mf); strong = max (rerank_strong_floor en (rf_strong mf)) weak
      in if strong \<le> r then Conf_Strong
         else if weak \<le> r then Conf_Weak
         else if cal \<noteq> IDENTITY \<and> semantic_recall_floor en cal \<le> oracle_top (ev_knn ev)
           \<or> anchor_rescue_enabled en \<and> 1 \<le> n_resolved en (ev_terms ev) \<and> present \<and> rerank_recall_floor en \<le> r
         then Conf_Weak else Conf_None)"
  by (simp add: final_verdict_def classify_confidence_def contentless_query_confidence_def
      anchor_rescued_confidence_def base_verdict_def coverage_ok_def Let_def)

text \<open>Where the cross-encoder scores a query it alone decides: its verdict is never exact, strong exactly
  from the strong floor on, and does not fall as the score rises, also under floors in the wrong order.
  Embeddings and lexical scores have no say without a calibration (G2), and on a calibrated model they
  can only turn an abstention into a weak answer.\<close>

lemma cross_encoder_decides:
  assumes "ev_terms ev' = ev_terms ev" and "r \<le> r'"
  shows "final_verdict en mf cal ev False (Some r) present \<noteq> Conf_Exact \<and>
    (final_verdict en mf cal ev False (Some r) present = Conf_Strong \<longleftrightarrow>
       max (rerank_strong_floor en (rf_strong mf)) (rerank_weak_floor en (rf_weak mf)) \<le> r) \<and>
    final_verdict en mf cal ev False (Some r) present \<le> final_verdict en mf cal ev False (Some r') present \<and>
    final_verdict en mf IDENTITY ev' False (Some r) present = final_verdict en mf IDENTITY ev False (Some r) present \<and>
    final_verdict en mf cal ev' False (Some r) present \<in>
      {final_verdict en mf IDENTITY ev False (Some r) present, max Conf_Weak (final_verdict en mf IDENTITY ev False (Some r) present)}"
  unfolding reranked using assms by (auto simp: Let_def less_eq_confidence_def max_def)

lemma cross_encoder_decides_witness:
  "final_verdict default_env \<lparr>rf_strong = None, rf_weak = None\<rparr> \<lparr>ca_lo = 0, ca_hi = 1\<rparr> (lexical_evidence []) False (Some (1 / 3)) True \<noteq> Conf_Exact \<and>
    (final_verdict default_env \<lparr>rf_strong = None, rf_weak = None\<rparr> \<lparr>ca_lo = 0, ca_hi = 1\<rparr> (lexical_evidence []) False (Some (1 / 3)) True = Conf_Strong \<longleftrightarrow>
       max (rerank_strong_floor default_env (rf_strong \<lparr>rf_strong = None, rf_weak = None\<rparr>))
         (rerank_weak_floor default_env (rf_weak \<lparr>rf_strong = None, rf_weak = None\<rparr>)) \<le> 1 / 3) \<and>
    final_verdict default_env \<lparr>rf_strong = None, rf_weak = None\<rparr> \<lparr>ca_lo = 0, ca_hi = 1\<rparr> (lexical_evidence []) False (Some (1 / 3)) True
         \<le> final_verdict default_env \<lparr>rf_strong = None, rf_weak = None\<rparr> \<lparr>ca_lo = 0, ca_hi = 1\<rparr> (lexical_evidence []) False (Some (9 / 10)) True \<and>
    final_verdict default_env \<lparr>rf_strong = None, rf_weak = None\<rparr> IDENTITY ((lexical_evidence [])\<lparr>ev_knn := [(1, 1)]\<rparr>) False (Some (1 / 3)) True =
      final_verdict default_env \<lparr>rf_strong = None, rf_weak = None\<rparr> IDENTITY (lexical_evidence []) False (Some (1 / 3)) True \<and>
    final_verdict default_env \<lparr>rf_strong = None, rf_weak = None\<rparr> \<lparr>ca_lo = 0, ca_hi = 1\<rparr> ((lexical_evidence [])\<lparr>ev_knn := [(1, 1)]\<rparr>) False (Some (1 / 3)) True \<in>
      {final_verdict default_env \<lparr>rf_strong = None, rf_weak = None\<rparr> IDENTITY (lexical_evidence []) False (Some (1 / 3)) True,
       max Conf_Weak (final_verdict default_env \<lparr>rf_strong = None, rf_weak = None\<rparr> IDENTITY (lexical_evidence []) False (Some (1 / 3)) True)}"
  by (rule cross_encoder_decides) simp_all

lemma n_resolved_zero: "\<forall>t\<in>set terms. \<not> rt_resolved t \<Longrightarrow> n_resolved en terms = 0"
  by (simp add: n_resolved_def filter_empty_conv)

text \<open>A query none of whose content tokens names anything is answered with an abstention where neither
  embeddings nor the cross-encoder have an opinion, whatever the full-text score; a query of stop words
  alone among them.\<close>

lemma ungrounded_abstains:
  assumes "\<forall>t\<in>set (ev_terms ev). \<not> rt_resolved t" "ev_knn ev = []" "ev_coverage ev = query_coverage en (ev_terms ev)"
    "0 < coverage_weak en" "0 < coverage_strong en" "0 < cal_map cal (semantic_promote_strong en)"
    "cal = IDENTITY \<or> 0 < semantic_recall_floor en cal"
  shows "final_verdict en mf cal ev g1 None present = Conf_None"
proof (cases "ev_terms ev = []")
  case True
  have "length (ev_terms ev) \<noteq> 1" using True by simp
  with True show ?thesis
    by (simp add: final_verdict_def contentless_query_confidence_def anchor_rescued_confidence_def coverage_ok_def
        n_resolved_def)
next
  case False
  have cov: "ev_coverage ev = 0"
    using False assms(1,3) by (simp add: query_coverage_def n_resolved_zero)
  have none: "\<not> has_rare_anchor en cal ev" "\<not> has_specific_anchor en cal ev" "\<not> embed_confirmed_specific en cal ev"
    using assms(1) by (auto simp: has_rare_anchor_def has_specific_anchor_def embed_confirmed_specific_def list_ex_iff)
  have top: "oracle_top (ev_knn ev) = 0" using assms(2) by (simp add: oracle_top_def)
  have "\<not> semantic_strong en cal ev" using assms(6) top by (simp add: semantic_strong_def)
  then have fb: "lexical_fallback en cal ev = Conf_None"
    using none cov assms(4,5) by (simp add: lexical_fallback_def)
  have "\<not> coverage_ok en (ev_terms ev) None"
    using assms(1) n_resolved_zero[OF assms(1)] by (auto simp: coverage_ok_def length_Suc_conv)
  then show ?thesis
    using False fb assms(7) top
    by (auto simp: final_verdict_def classify_confidence_def base_verdict_def contentless_query_confidence_def
        anchor_rescued_confidence_def Let_def)
qed

lemma ungrounded_abstains_witness:
  "final_verdict default_env \<lparr>rf_strong = None, rf_weak = None\<rparr> IDENTITY
     (lexical_evidence [one_term\<lparr>rt_resolved := False\<rparr>]) False None True = Conf_None"
proof (rule ungrounded_abstains)
  have "semantic_promote_strong default_env = 72 / 100"
    by (simp add: semantic_promote_strong_def default_env_def knob_def)
  then show "0 < cal_map IDENTITY (semantic_promote_strong default_env)" by (simp add: cal_map_identity)
qed (simp_all add: default_floors lexical_evidence_def)

end
