(* ===== verification/Seed_Rank.thy ===== *)
theory Seed_Rank
  imports Seed_Confidence "HOL-Library.AList" "HOL-Library.Multiset" "HOL-Library.Product_Lexorder"
begin

section \<open>Fusing and ordering seeds\<close>

text \<open>
  The ranking side of \<open>crates/travsr-mcp/src/seed.rs\<close>: reciprocal rank fusion, the cosine filter that
  spares exact anchors, the order after the cross-encoder, the weights it feeds to PageRank, and the
  provenance of an answer. The hash maps that are iterated are association lists; the fused list is
  sorted by a key that tells any two entries apart, so their order does not matter.
\<close>

datatype seed_source = Src_Exact | Src_Lexical | Src_Knn

record seed =
  sd_node :: node_id
  sd_weight :: rat
  sd_source :: seed_source
  sd_score :: rat
  sd_rerank :: "rat option"

type_synonym ranked = "(node_id \<times> rat) list"

subsection \<open>Reciprocal rank fusion\<close>

definition rrf_k :: "environment \<Rightarrow> rat" where
  "rrf_k en = knob (\<lambda>x. 0 < x) 60 (en_f32 en ''TRAVSR_RRF_K'')"

definition entry_or :: "'k \<Rightarrow> 'v \<Rightarrow> ('k \<times> 'v) list \<Rightarrow> 'v" where
  "entry_or k d m = (case map_of m k of Some v \<Rightarrow> v | None \<Rightarrow> d)"

fun rrf_accumulate :: "rat \<Rightarrow> rat \<Rightarrow> nat \<Rightarrow> ranked \<Rightarrow> ranked \<Rightarrow> ranked" where
  "rrf_accumulate k w rank [] scores = scores"
| "rrf_accumulate k w rank ((n, _) # source) scores =
     rrf_accumulate k w (rank + 1) source (AList.update n (entry_or n 0 scores + w / (k + of_nat rank + 1)) scores)"

definition by_score :: "ranked \<Rightarrow> ranked" where
  "by_score scores = sort_key (\<lambda>(n, s). (- s, n)) scores"

definition rrf_fuse :: "ranked list \<Rightarrow> rat \<Rightarrow> ranked" where
  "rrf_fuse sources k = by_score (fold (rrf_accumulate k 1 0) sources [])"

definition rrf_fuse_weighted :: "(rat \<times> ranked) list \<Rightarrow> rat \<Rightarrow> ranked" where
  "rrf_fuse_weighted sources k = by_score (fold (\<lambda>(w, source). rrf_accumulate k w 0 source) sources [])"

definition rrf_weighted_enabled :: "environment \<Rightarrow> bool" where
  "rrf_weighted_enabled en \<longleftrightarrow> en_var en ''TRAVSR_RRF_WEIGHTED'' \<in> {Some ''1'', Some ''true'', Some ''on''}"

definition rrf_source_weights :: "environment \<Rightarrow> rat \<times> rat \<times> rat \<times> rat" where
  "rrf_source_weights en =
     (let g = (\<lambda>name d. knob (\<lambda>x. 0 \<le> x) d (en_f32 en name))
      in (g ''TRAVSR_RRF_W_SPECIFIC_ANCHOR'' 2, g ''TRAVSR_RRF_W_BM25'' 1,
          g ''TRAVSR_RRF_W_EMBED'' 1, g ''TRAVSR_RRF_W_GENERIC_ANCHOR'' (4 / 10)))"

subsection \<open>Gates\<close>

definition scope_strong_floor :: "environment \<Rightarrow> rat" where
  "scope_strong_floor en = knob (\<lambda>x. 0 \<le> x \<and> x \<le> 2) (3 / 10) (en_f32 en ''TRAVSR_SCOPE_STRONG_FLOOR'')"

definition scope_gate_drops :: "bool \<Rightarrow> bool \<Rightarrow> rat \<Rightarrow> rat \<Rightarrow> bool" where
  "scope_gate_drops has_anchor_scope in_scope strength bar \<longleftrightarrow> has_anchor_scope \<and> \<not> in_scope \<and> strength < bar"

definition SEMANTIC_MIN_KEEP :: nat where "SEMANTIC_MIN_KEEP = 5"

definition keep_floor :: "environment \<Rightarrow> calibration \<Rightarrow> cosines \<Rightarrow> rat" where
  "keep_floor en cal cs =
     (let floor = cosine_floor cal (oracle_top cs)
      in if cal = IDENTITY then floor else min floor (semantic_recall_floor en cal))"

definition semantic_validate :: "environment \<Rightarrow> seed list \<Rightarrow> cosines \<Rightarrow> calibration \<Rightarrow> seed list" where
  "semantic_validate en seeds cs cal =
     (if cs = [] \<or> seeds = [] then seeds
      else if oracle_top cs < cal_map cal SEMANTIC_ORACLE_MIN then seeds
      else (let keep = keep_floor en cal cs;
                scored = map (\<lambda>s. (s, entry_or (sd_node s) 0 cs)) seeds;
                n_above = length (filter (\<lambda>p. keep \<le> snd p) scored)
            in map fst
                 (if n_above < SEMANTIC_MIN_KEEP then take SEMANTIC_MIN_KEEP (sort_key (\<lambda>p. - snd p) scored)
                  else sort_key (\<lambda>p. - snd p) (filter (\<lambda>p. keep \<le> snd p) scored))))"

definition is_exact :: "seed \<Rightarrow> bool" where
  "is_exact s \<longleftrightarrow> sd_source s = Src_Exact"

definition semantic_validate_preserving_exact :: "environment \<Rightarrow> seed list \<Rightarrow> cosines \<Rightarrow> calibration \<Rightarrow> seed list" where
  "semantic_validate_preserving_exact en seeds cs cal =
     (let (exact, tail) = partition is_exact seeds
      in exact @ semantic_validate en tail cs cal)"

subsection \<open>After the cross-encoder\<close>

definition band :: "rat \<Rightarrow> seed \<Rightarrow> nat" where
  "band weak_floor s =
     (if is_exact s then 0
      else case sd_rerank s of
             Some r \<Rightarrow> if weak_floor \<le> r then 1 else 3
           | None \<Rightarrow> 2)"

text \<open>\<open>unwrap_or(NEG_INFINITY)\<close>: no score sorts after every score.\<close>

definition rerank_key :: "seed \<Rightarrow> nat \<times> rat" where
  "rerank_key s = (case sd_rerank s of Some r \<Rightarrow> (0, - r) | None \<Rightarrow> (1, 0))"

definition sort_seeds_post_rerank :: "rat \<Rightarrow> seed list \<Rightarrow> seed list" where
  "sort_seeds_post_rerank weak_floor seeds = sort_key (\<lambda>s. (band weak_floor s, rerank_key s)) seeds"

definition rerank_ppr_weight_enabled :: "environment \<Rightarrow> bool" where
  "rerank_ppr_weight_enabled en \<longleftrightarrow> \<not> switched_off en ''TRAVSR_RERANK_PPR_WEIGHT''"

definition rerank_ppr_multiplier :: "rat \<Rightarrow> rat \<Rightarrow> rat" where
  "rerank_ppr_multiplier rerank weak_floor =
     (let wf = clamp (1 / 1000) (999 / 1000) weak_floor;
          m = (if rerank \<le> wf then 1 / 10 + (1 - 1 / 10) * clamp 0 1 (rerank / wf)
               else 1 + (2 - 1) * clamp 0 1 ((rerank - wf) / (1 - wf)))
      in clamp (1 / 10) 2 m)"

subsection \<open>Provenance\<close>

datatype match_tag = Match_Exact | Match_Semantic | Match_Docs | Match_Tests | Match_Relevant

fun trust_rank :: "match_tag \<Rightarrow> nat" where
  "trust_rank Match_Exact = 0"
| "trust_rank Match_Semantic = 1"
| "trust_rank Match_Docs = 2"
| "trust_rank Match_Tests = 3"
| "trust_rank Match_Relevant = 4"

fun match_label :: "match_tag \<Rightarrow> string" where
  "match_label Match_Exact = ''exact''"
| "match_label Match_Semantic = ''semantic''"
| "match_label Match_Docs = ''docs''"
| "match_label Match_Tests = ''tests''"
| "match_label Match_Relevant = ''relevant''"

definition match_source :: "bool \<Rightarrow> bool \<Rightarrow> match_tag" where
  "match_source is_primary_seed is_exact_source =
     (if \<not> is_primary_seed then Match_Relevant else if is_exact_source then Match_Exact else Match_Semantic)"

fun seed_source_rank :: "seed_source \<Rightarrow> nat" where
  "seed_source_rank Src_Exact = 3"
| "seed_source_rank Src_Knn = 2"
| "seed_source_rank Src_Lexical = 1"

definition note_source :: "seed \<Rightarrow> (node_id \<rightharpoonup> seed_source) \<Rightarrow> (node_id \<rightharpoonup> seed_source)" where
  "note_source s m =
     (case m (sd_node s) of
        Some cur \<Rightarrow> if seed_source_rank cur < seed_source_rank (sd_source s) then m(sd_node s \<mapsto> sd_source s) else m
      | None \<Rightarrow> m(sd_node s \<mapsto> sd_source s))"

definition strongest_seed_sources :: "seed list \<Rightarrow> node_id \<rightharpoonup> seed_source" where
  "strongest_seed_sources seeds = fold note_source seeds Map.empty"

definition ppr_seeds :: "seed list \<Rightarrow> (node_id \<times> rat) list" where
  "ppr_seeds seeds = map (\<lambda>s. (sd_node s, sd_weight s)) seeds"

definition rerank_scores :: "seed list \<Rightarrow> (node_id \<times> rat) list" where
  "rerank_scores seeds = List.map_filter (\<lambda>s. map_option (Pair (sd_node s)) (sd_rerank s)) seeds"

subsection \<open>Properties of the fusion\<close>

text \<open>What a source adds to a node, and the sum over the sources.\<close>

definition contribution :: "rat \<Rightarrow> rat \<Rightarrow> nat \<Rightarrow> ranked \<Rightarrow> node_id \<Rightarrow> rat" where
  "contribution k w rank source n =
     (\<Sum>i<length source. if fst (source ! i) = n then w / (k + of_nat (rank + i) + 1) else 0)"

lemma contribution_Cons:
  "contribution k w rank (p # source) n =
     (if fst p = n then w / (k + of_nat rank + 1) else 0) + contribution k w (Suc rank) source n"
  by (simp add: contribution_def sum.lessThan_Suc_shift del: sum.lessThan_Suc cong: if_cong)

lemma entry_or_update: "entry_or n d (AList.update m v al) = (if n = m then v else entry_or n d al)"
  by (simp add: entry_or_def update_conv')

lemma accumulate_entry:
  "entry_or n 0 (rrf_accumulate k w rank source scores) = entry_or n 0 scores + contribution k w rank source n"
proof (induction k w rank source scores rule: rrf_accumulate.induct)
  case (2 k w rank m s source scores)
  then show ?case by (simp add: entry_or_update contribution_Cons)
qed (simp add: contribution_def)

lemma accumulate_keys:
  "distinct (map fst scores) \<Longrightarrow> distinct (map fst (rrf_accumulate k w rank source scores)) \<and>
    set (map fst (rrf_accumulate k w rank source scores)) = set (map fst scores) \<union> fst ` set source"
  by (induction k w rank source scores rule: rrf_accumulate.induct) (auto simp: distinct_update dom_update)

lemma fold_accumulate:
  assumes "distinct (map fst scores)"
  shows "distinct (map fst (fold (\<lambda>(w, source). rrf_accumulate k w 0 source) ws scores)) \<and>
    set (map fst (fold (\<lambda>(w, source). rrf_accumulate k w 0 source) ws scores)) =
      set (map fst scores) \<union> (\<Union>(w, source)\<in>set ws. fst ` set source) \<and>
    entry_or n 0 (fold (\<lambda>(w, source). rrf_accumulate k w 0 source) ws scores) =
      entry_or n 0 scores + (\<Sum>(w, source)\<leftarrow>ws. contribution k w 0 source n)"
  using assms
proof (induction ws arbitrary: scores)
  case (Cons p ws)
  obtain w source where p: "p = (w, source)" by fastforce
  note keys = accumulate_keys[OF Cons.prems, of k w 0 source]
  from Cons.IH[of "rrf_accumulate k w 0 source scores"] keys show ?case
    by (auto simp: p accumulate_entry)
qed simp

definition rrf_score :: "rat \<Rightarrow> (rat \<times> ranked) list \<Rightarrow> node_id \<Rightarrow> rat" where
  "rrf_score k ws n = (\<Sum>(w, source)\<leftarrow>ws. contribution k w 0 source n)"

definition outranks :: "node_id \<times> rat \<Rightarrow> node_id \<times> rat \<Rightarrow> bool" where
  "outranks a b \<longleftrightarrow> snd b < snd a \<or> snd a = snd b \<and> fst a < fst b"

lemma mset_distinct_map: "mset xs = mset ys \<Longrightarrow> distinct (map f xs) \<Longrightarrow> distinct (map f ys)"
  by (metis mset_eq_imp_distinct_iff mset_map)

lemma distinct_sorted_wrt: "distinct (map f xs) \<Longrightarrow> sorted_wrt (\<lambda>a b. f a \<noteq> f b) xs"
  by (induction xs) auto

lemma by_score_sorted:
  assumes "distinct (map fst scores)"
  shows "sorted_wrt outranks (by_score scores)"
proof -
  have "distinct (map fst (by_score scores))"
    using mset_distinct_map[OF _ assms] by (simp add: by_score_def)
  then have ids: "sorted_wrt (\<lambda>a b. fst a \<noteq> fst b) (by_score scores)"
    by (rule distinct_sorted_wrt)
  have "sorted (map (\<lambda>(n, s). (- s, n)) (by_score scores))" by (simp add: by_score_def)
  then have "sorted_wrt (\<lambda>a b. (- snd a, fst a) \<le> (- snd b, fst b)) (by_score scores)"
    by (simp add: sorted_wrt_map case_prod_beta)
  with ids show ?thesis
    unfolding sorted_wrt_iff_nth_less outranks_def less_eq_prod_def by fastforce
qed

lemma rrf_weighted_spec:
  "sorted_wrt outranks (rrf_fuse_weighted ws k) \<and>
   fst ` set (rrf_fuse_weighted ws k) = (\<Union>(w, source)\<in>set ws. fst ` set source) \<and>
   (\<forall>(n, s)\<in>set (rrf_fuse_weighted ws k). s = rrf_score k ws n)"
proof -
  let ?m = "fold (\<lambda>(w, source). rrf_accumulate k w 0 source) ws []"
  have f: "distinct (map fst ?m)" "set (map fst ?m) = (\<Union>(w, source)\<in>set ws. fst ` set source)"
      "entry_or n 0 ?m = rrf_score k ws n" for n
    using fold_accumulate[of "[]" k ws n] by (simp_all add: rrf_score_def entry_or_def)
  have "s = rrf_score k ws n" if "(n, s) \<in> set ?m" for n s
    using f(3)[of n] that f(1) by (simp add: entry_or_def)
  then show ?thesis
    using by_score_sorted[OF f(1)] f(2) by (auto simp: rrf_fuse_weighted_def by_score_def)
qed

lemma rrf_unweighted: "rrf_fuse sources k = rrf_fuse_weighted (map (Pair 1) sources) k"
  by (simp add: rrf_fuse_def rrf_fuse_weighted_def fold_map comp_def)

lemma outranks_iff: "outranks a b \<longleftrightarrow> (- snd a, fst a) < (- snd b, fst b)"
  by (auto simp: outranks_def less_prod_def)

lemma outranks_unique:
  assumes "sorted_wrt outranks xs" "sorted_wrt outranks ys" "set xs = set ys"
  shows "xs = ys"
proof -
  let ?f = "\<lambda>p :: node_id \<times> rat. (- snd p, fst p)"
  have "sorted_wrt (<) (map ?f xs)" "sorted_wrt (<) (map ?f ys)"
    using assms(1,2) unfolding sorted_wrt_map outranks_iff[symmetric] .
  moreover have "set (map ?f xs) = set (map ?f ys)" using assms(3) by simp
  ultimately have "map ?f xs = map ?f ys" by (intro strict_sorted_equal) auto
  moreover have "inj ?f" by (auto simp: inj_def)
  ultimately show ?thesis by (simp add: inj_map_eq_map)
qed


lemma contribution_head:
  assumes "0 \<le> k" "distinct (map fst (p # source))"
  shows "contribution k 1 0 (p # source) (fst p) = 1 / (k + 1)"
    and "m \<noteq> fst p \<Longrightarrow> contribution k 1 0 (p # source) m \<le> 1 / (k + 2)"
proof -
  have none: "contribution k w r xs m = 0" if "m \<notin> fst ` set xs" for w r xs m
    using that by (auto simp: contribution_def intro!: sum.neutral)
  show "contribution k 1 0 (p # source) (fst p) = 1 / (k + 1)"
    using assms(2) by (simp add: contribution_Cons none)
  have le: "contribution k 1 r xs m \<le> 1 / (k + of_nat r + 1)" if "distinct (map fst xs)" for r xs m
    using that
  proof (induction xs arbitrary: r)
    case Nil
    then show ?case using assms(1) by (simp add: contribution_def)
  next
    case (Cons q xs)
    show ?case
    proof (cases "fst q = m")
      case True
      with Cons.prems show ?thesis by (auto simp: contribution_Cons none)
    next
      case False
      have "1 / (k + of_nat (Suc r) + 1) \<le> 1 / (k + of_nat r + 1)"
        using assms(1) by (intro divide_left_mono) (auto intro!: mult_pos_pos)
      moreover have "contribution k 1 (Suc r) xs m \<le> 1 / (k + of_nat (Suc r) + 1)"
        using Cons.IH[of "Suc r"] Cons.prems by (simp del: of_nat_Suc)
      ultimately show ?thesis using False by (simp add: contribution_Cons)
    qed
  qed
  show "contribution k 1 0 (p # source) m \<le> 1 / (k + 2)" if "m \<noteq> fst p"
    using le[of source 1 m] assms(2) that by (simp add: contribution_Cons add.commute)
qed

text \<open>The node that every source puts first comes first.\<close>

lemma rrf_consensus:
  assumes "0 \<le> k" "sources \<noteq> []"
    and first: "\<forall>source\<in>set sources. source \<noteq> [] \<and> fst (hd source) = n \<and> distinct (map fst source)"
  shows "fst (hd (rrf_fuse sources k)) = n"
proof -
  let ?out = "rrf_fuse sources k" and ?ws = "map (Pair 1) sources"
  note spec = rrf_weighted_spec[of ?ws k, folded rrf_unweighted]
  have mine: "contribution k 1 0 source n = 1 / (k + 1)" if "source \<in> set sources" for source
    using first that contribution_head(1)[OF assms(1), of "hd source" "tl source"] by force
  have other: "contribution k 1 0 source m < 1 / (k + 1)" if "source \<in> set sources" "m \<noteq> n" for source m
  proof -
    have "contribution k 1 0 source m \<le> 1 / (k + 2)"
      using first that contribution_head(2)[OF assms(1), of "hd source" "tl source" m] by force
    also have "\<dots> < 1 / (k + 1)" using assms(1) by (intro divide_strict_left_mono) auto
    finally show ?thesis .
  qed
  have less: "rrf_score k ?ws m < rrf_score k ?ws n" if "m \<noteq> n" for m
    using assms(2) mine other[OF _ that] unfolding rrf_score_def map_map comp_def prod.case
    by (intro sum_list_strict_mono) auto
  have "n \<in> fst ` set ?out"
    using spec first assms(2) by (auto simp: image_iff) (metis hd_in_set list.set_sel(1) neq_Nil_conv)
  then obtain p rest where out: "?out = p # rest" by (cases ?out) auto
  show ?thesis
  proof (rule ccontr)
    assume "fst (hd ?out) \<noteq> n"
    then have p: "fst p \<noteq> n" using out by simp
    then obtain s where "(n, s) \<in> set rest" using \<open>n \<in> fst ` set ?out\<close> out by auto
    then have "outranks p (n, s)" using spec out by auto
    moreover have "s = rrf_score k ?ws n" "snd p = rrf_score k ?ws (fst p)"
      using spec out \<open>(n, s) \<in> set rest\<close> by auto
    ultimately show False using less[OF p] by (auto simp: outranks_def)
  qed
qed

subsection \<open>Properties of the gates\<close>

lemma sorted_prefix_filter: "sorted (map f xs) \<Longrightarrow> filter (\<lambda>x. f x \<le> t) xs = takeWhile (\<lambda>x. f x \<le> t) xs"
  for f :: "'a \<Rightarrow> 'b::linorder"
proof (induction xs)
  case (Cons x xs)
  show ?case
  proof (cases "f x \<le> t")
    case False
    with Cons.prems have "\<forall>y\<in>set xs. \<not> f y \<le> t" by fastforce
    with False show ?thesis by (simp add: filter_empty_conv)
  qed (use Cons in simp)
qed simp

lemma take_sorted_keeps:
  fixes f :: "'a \<Rightarrow> 'b::linorder"
  assumes "length (filter (\<lambda>x. f x \<le> t) xs) \<le> n" "x \<in> set xs" "f x \<le> t"
  shows "x \<in> set (take n (sort_key f xs))"
proof -
  let ?ys = "sort_key f xs" and ?P = "\<lambda>x. f x \<le> t"
  have pre: "takeWhile ?P ?ys = filter ?P ?ys"
    by (rule sorted_prefix_filter[symmetric]) simp
  have "mset (filter ?P ?ys) = mset (filter ?P xs)" by simp
  then have "length (takeWhile ?P ?ys) \<le> n"
    using assms(1) unfolding pre by (metis size_mset)
  then have "set (take (length (takeWhile ?P ?ys)) ?ys) \<subseteq> set (take n ?ys)"
    by (rule set_take_subset_set_take)
  moreover have "x \<in> set (takeWhile ?P ?ys)" using assms(2,3) unfolding pre by simp
  ultimately show ?thesis by (subst (asm) (2) takeWhile_eq_take) blast
qed

lemma map_fst_pairs: "map fst (map (\<lambda>s. (s, f s)) xs) = xs"
  by (simp add: comp_def)

lemma take_sort_sub: "mset (take n (sort_key f xs)) \<subseteq># mset xs"
  by (metis append_take_drop_id mset_append mset_sort mset_subset_eq_add_left)

lemma semantic_validate_sub: "mset (semantic_validate en seeds cs cal) \<subseteq># mset seeds"
proof -
  let ?scored = "map (\<lambda>s. (s, entry_or (sd_node s) 0 cs)) seeds"
  have img: "mset (map fst ys) \<subseteq># mset seeds" if "mset ys \<subseteq># mset ?scored" for ys
    using image_mset_subseteq_mono[OF that, of fst] by (simp add: image_mset.compositionality comp_def)
  have "mset (sort_key (\<lambda>p. - snd p) (filter (\<lambda>p. keep_floor en cal cs \<le> snd p) ?scored)) \<subseteq># mset ?scored"
    unfolding mset_sort mset_filter by (rule multiset_filter_subset)
  from img[OF take_sort_sub] img[OF this] show ?thesis
    unfolding semantic_validate_def Let_def by (simp only: split: if_split) blast
qed

lemma semantic_validate_length: "min SEMANTIC_MIN_KEEP (length seeds) \<le> length (semantic_validate en seeds cs cal)"
  by (auto simp: semantic_validate_def Let_def)

lemma semantic_validate_keeps:
  assumes "s \<in> set seeds" "keep_floor en cal cs \<le> entry_or (sd_node s) 0 cs"
  shows "s \<in> set (semantic_validate en seeds cs cal)"
proof -
  let ?keep = "keep_floor en cal cs" and ?scored = "map (\<lambda>s. (s, entry_or (sd_node s) 0 cs)) seeds"
  have mem: "(s, entry_or (sd_node s) 0 cs) \<in> set ?scored" using assms(1) by auto
  have "(s, entry_or (sd_node s) 0 cs) \<in> set (take SEMANTIC_MIN_KEEP (sort_key (\<lambda>p. - snd p) ?scored))"
    if "length (filter (\<lambda>p. ?keep \<le> snd p) ?scored) < SEMANTIC_MIN_KEEP"
    using that mem assms(2) by (intro take_sorted_keeps[where t = "- ?keep"]) auto
  then show ?thesis
    using assms mem by (force simp: semantic_validate_def Let_def)
qed

text \<open>The cosine filter never drops an exact anchor, keeps them in their order in front of the rest,
  adds nothing, never cuts the rest below five seeds, and keeps every seed that clears the floor also
  when it falls back to the five nearest.\<close>

lemma cosine_filter_spares:
  assumes "s \<in> set seeds" "keep_floor en cal cs \<le> entry_or (sd_node s) 0 cs"
  shows "s \<in> set (semantic_validate_preserving_exact en seeds cs cal) \<and>
    (\<exists>tail. semantic_validate_preserving_exact en seeds cs cal = filter is_exact seeds @ tail \<and>
       mset tail \<subseteq># mset (filter (\<lambda>s. \<not> is_exact s) seeds) \<and>
       min 5 (length (filter (\<lambda>s. \<not> is_exact s) seeds)) \<le> length tail)"
proof -
  let ?rest = "filter (\<lambda>s. \<not> is_exact s) seeds"
  have out: "semantic_validate_preserving_exact en seeds cs cal = filter is_exact seeds @ semantic_validate en ?rest cs cal"
    by (simp add: semantic_validate_preserving_exact_def partition_filter_conv comp_def)
  have "s \<in> set (semantic_validate_preserving_exact en seeds cs cal)"
    using semantic_validate_keeps[of s ?rest] assms by (cases "is_exact s") (auto simp: out)
  moreover have "mset (semantic_validate en ?rest cs cal) \<subseteq># mset ?rest" by (rule semantic_validate_sub)
  moreover have "min 5 (length ?rest) \<le> length (semantic_validate en ?rest cs cal)"
    using semantic_validate_length[of ?rest en cs cal] by (simp add: SEMANTIC_MIN_KEEP_def)
  ultimately show ?thesis using out by blast
qed

definition near_seed :: seed where
  "near_seed = \<lparr>sd_node = 1, sd_weight = 1, sd_source = Src_Knn, sd_score = 1, sd_rerank = None\<rparr>"

lemma cosine_filter_spares_witness:
  "near_seed \<in> set (semantic_validate_preserving_exact default_env [near_seed] [(1, 9 / 10)] IDENTITY) \<and>
    (\<exists>tail. semantic_validate_preserving_exact default_env [near_seed] [(1, 9 / 10)] IDENTITY = filter is_exact [near_seed] @ tail \<and>
       mset tail \<subseteq># mset (filter (\<lambda>s. \<not> is_exact s) [near_seed]) \<and>
       min 5 (length (filter (\<lambda>s. \<not> is_exact s) [near_seed])) \<le> length tail)"
proof (rule cosine_filter_spares)
  have "cal_map_delta IDENTITY (13 / 100) = 13 / 100"
    by (simp add: cal_map_delta_def IDENTITY_def REF_LO_def REF_HI_def)
  then show "keep_floor default_env IDENTITY [(1, 9 / 10)] \<le> entry_or (sd_node near_seed) 0 [(1, 9 / 10)]"
    by (simp add: keep_floor_def cosine_floor_def oracle_top_def cal_map_identity SEMANTIC_REL_DELTA_def
        SEMANTIC_ABS_FLOOR_def entry_or_def near_seed_def)
qed simp

subsection \<open>Properties of the order\<close>

lemma sort_seeds_band: "sorted (map (band weak_floor) (sort_seeds_post_rerank weak_floor seeds))"
proof -
  have "sorted (map (\<lambda>s. (band weak_floor s, rerank_key s)) (sort_seeds_post_rerank weak_floor seeds))"
    by (simp add: sort_seeds_post_rerank_def)
  then show ?thesis
    by (auto simp: sorted_map less_eq_prod_def elim!: sorted_wrt_mono_rel[rotated])
qed

lemma unjudged_key: "\<not> is_exact s \<Longrightarrow> sd_rerank s = None \<longleftrightarrow> (band w s, rerank_key s) = (2, 1, 0)"
  by (auto simp: band_def rerank_key_def split: option.splits)

text \<open>After the cross-encoder the seeds are a rearrangement in four bands: exact anchors, seeds it
  approved by descending score, seeds it never judged in the order they came in, and seeds it rejected.
  So no rejected seed comes before one it never saw.\<close>

lemma rerank_bands:
  "mset (sort_seeds_post_rerank w seeds) = mset seeds \<and>
   sorted (map (band w) (sort_seeds_post_rerank w seeds)) \<and>
   filter (\<lambda>s. \<not> is_exact s \<and> sd_rerank s = None) (sort_seeds_post_rerank w seeds) =
     filter (\<lambda>s. \<not> is_exact s \<and> sd_rerank s = None) seeds \<and>
   sorted (map (\<lambda>s. - the (sd_rerank s))
     (filter (\<lambda>s. \<not> is_exact s \<and> band w s = 1) (sort_seeds_post_rerank w seeds)))"
proof -
  let ?key = "\<lambda>s. (band w s, rerank_key s)" and ?out = "sort_seeds_post_rerank w seeds"
  have unjudged: "(\<not> is_exact s \<and> sd_rerank s = None) \<longleftrightarrow> ?key s = (2, 1, 0)" for s
    by (auto simp: band_def rerank_key_def split: option.splits)
  have "filter (\<lambda>s. ?key s = (2, 1, 0)) ?out = filter (\<lambda>s. ?key s = (2, 1, 0)) seeds"
    unfolding sort_seeds_post_rerank_def by (rule sort_key_stable)
  moreover have "sorted (map (\<lambda>s. - the (sd_rerank s)) (filter (\<lambda>s. \<not> is_exact s \<and> band w s = 1) ?out))"
  proof -
    have "sorted (map ?key ?out)" by (simp add: sort_seeds_post_rerank_def)
    then have "sorted_wrt (\<lambda>a b. ?key a \<le> ?key b) (filter (\<lambda>s. \<not> is_exact s \<and> band w s = 1) ?out)"
      unfolding sorted_map by (rule sorted_wrt_filter)
    moreover have "- the (sd_rerank a) \<le> - the (sd_rerank b)"
      if "a \<in> set (filter (\<lambda>s. \<not> is_exact s \<and> band w s = 1) ?out)" "b \<in> set (filter (\<lambda>s. \<not> is_exact s \<and> band w s = 1) ?out)"
        "?key a \<le> ?key b" for a b
      using that by (auto simp: band_def rerank_key_def less_eq_prod_def split: option.splits if_splits)
    ultimately show ?thesis
      unfolding sorted_map by (rule sorted_wrt_mono_rel[rotated]) blast
  qed
  ultimately show ?thesis
    unfolding unjudged using sort_seeds_band by (simp add: sort_seeds_post_rerank_def)
qed

lemma rerank_ppr_multiplier_bounds: "1 / 10 \<le> rerank_ppr_multiplier r w \<and> rerank_ppr_multiplier r w \<le> 2"
  by (simp add: rerank_ppr_multiplier_def clamp_def Let_def)

lemma clamp_range: "lo \<le> hi \<Longrightarrow> lo \<le> clamp lo hi x \<and> clamp lo hi x \<le> hi"
  by (simp add: clamp_def)

text \<open>A higher score never weighs less.\<close>

lemma rerank_ppr_multiplier_mono:
  assumes "r \<le> r'"
  shows "rerank_ppr_multiplier r w \<le> rerank_ppr_multiplier r' w"
proof -
  define wf where "wf = clamp (1 / 1000) (999 / 1000) w"
  have wf: "0 < wf" "wf < 1" using clamp_range[of "1 / 1000" "999 / 1000" w] by (auto simp: wf_def)
  have low: "1 / 10 + (1 - 1 / 10) * clamp 0 1 (x / wf) \<le> 1" for x
    using clamp_range[of 0 1 "x / wf"] by simp
  have high: "1 \<le> 1 + (2 - 1) * clamp 0 1 ((x - wf) / (1 - wf))" for x
    using clamp_range[of 0 1 "(x - wf) / (1 - wf)"] by simp
  have "clamp 0 1 (r / wf) \<le> clamp 0 1 (r' / wf)"
    using assms wf by (intro clamp_mono divide_right_mono) auto
  moreover have "clamp 0 1 ((r - wf) / (1 - wf)) \<le> clamp 0 1 ((r' - wf) / (1 - wf))"
    using assms wf by (intro clamp_mono divide_right_mono) auto
  ultimately show ?thesis
    unfolding rerank_ppr_multiplier_def Let_def wf_def[symmetric]
    using assms low[of r] high[of r'] by (intro clamp_mono) auto
qed

lemma strongest_seed_sources_Some:
  "strongest_seed_sources seeds n = Some src \<Longrightarrow>
     (\<exists>s\<in>set seeds. sd_node s = n \<and> sd_source s = src) \<and>
     (\<forall>s\<in>set seeds. sd_node s = n \<longrightarrow> seed_source_rank (sd_source s) \<le> seed_source_rank src)"
proof (induction seeds arbitrary: src rule: rev_induct)
  case (snoc s seeds)
  show ?case
  proof (cases "sd_node s = n")
    case False
    with snoc show ?thesis
      by (auto simp: strongest_seed_sources_def note_source_def split: option.splits if_splits)
  next
    case True
    have none: "strongest_seed_sources seeds n = None \<Longrightarrow> \<forall>t\<in>set seeds. sd_node t \<noteq> n"
    proof (induction seeds rule: rev_induct)
      case (snoc t seeds)
      then show ?case
        by (auto simp: strongest_seed_sources_def note_source_def split: option.splits if_splits)
    qed simp
    from True snoc.prems snoc.IH none show ?thesis
      by (fastforce simp: strongest_seed_sources_def note_source_def split: option.splits if_splits)
  qed
qed (simp add: strongest_seed_sources_def)

end
