(* ===== verification/Seed_Set.thy ===== *)
theory Seed_Set
  imports Seed_Query Seed_Rank Retrieval_Graph
begin

section \<open>Building the seed set\<close>

text \<open>
  \<open>build_seed_set\<close> of \<open>crates/travsr-mcp/src/seed.rs\<close>, stage by stage: resolving the tokens by name,
  stem, correction or alias; emitting anchors; full-text and embedding seeds; fusion; the direct cosine
  oracle; the contamination gate; anchor callees; the weights; and the cross-encoder.

  The store is a record of its reads; \<open>ss_alias\<close> is \<open>tools::resolve_alias\<close>, a search of the working
  tree. What runs outside is the record \<open>seed_world\<close>: the natural logarithm, the Unicode upper-case
  test, the floors of the reranker's manifest, and the cross-encoder as a function of the
  query and the candidates' ids (the snippets it is shown are not modelled).
  A hash set that is iterated is read in one fixed order.
\<close>

record fused_hit =
  fh_node :: core_node
  fh_bm25 :: "rat option"

record 'e seed_store =
  ss_by_name :: "string \<Rightarrow> ('e, core_node list) rust_result"
  ss_correct :: "string list \<Rightarrow> rat \<Rightarrow> ('e, string \<rightharpoonup> string) rust_result"
  ss_frequency :: "string \<Rightarrow> ('e, nat option) rust_result"
  ss_total :: "('e, nat) rust_result"
  ss_fuzzy :: "string \<Rightarrow> ('e, fused_hit list) rust_result"
  ss_edges_from :: "node_id \<Rightarrow> ('e, gedge list) rust_result"
  ss_edges_to :: "node_id \<Rightarrow> ('e, gedge list) rust_result"
  ss_nodes :: "node_id list \<Rightarrow> ('e, core_node list) rust_result"
  ss_meta :: "string \<Rightarrow> string option"
  ss_alias :: "string \<Rightarrow> core_node list"

record seed_world =
  sw_env :: environment
  sw_ln :: "rat \<Rightarrow> rat"
  sw_upper :: "string \<Rightarrow> bool"
  sw_finite :: "string \<Rightarrow> rat option"
  sw_floors :: rerank_floors
  sw_rerank :: "string \<Rightarrow> node_id list \<Rightarrow> rat list option"

definition MAX_SEEDS_PER_PATH :: nat where "MAX_SEEDS_PER_PATH = 2"
definition MAX_ANCHORS_PER_TOKEN :: nat where "MAX_ANCHORS_PER_TOKEN = 3"
definition MAX_ANCHOR_CALLEE_SEEDS :: nat where "MAX_ANCHOR_CALLEE_SEEDS = 8"
definition ANCHOR_NEIGHBORHOOD_CAP :: nat where "ANCHOR_NEIGHBORHOOD_CAP = 2000"
definition ANCHOR_NEIGHBORHOOD_HOPS :: nat where "ANCHOR_NEIGHBORHOOD_HOPS = 2"
definition ANCHOR_CALLEE_WEIGHT_BASE :: rat where "ANCHOR_CALLEE_WEIGHT_BASE = 8 / 10"
definition EXACT_SEED_PRIORITY :: rat where "EXACT_SEED_PRIORITY = 3 / 2"

definition anchor_emit_cut :: "environment \<Rightarrow> rat" where
  "anchor_emit_cut en = knob positive_share (15 / 100) (en_f32 en ''TRAVSR_ANCHOR_EMIT_CUT'')"

definition fuzzy_correct_jaccard :: "environment \<Rightarrow> rat" where
  "fuzzy_correct_jaccard en = knob positive_share (7 / 10) (en_f32 en ''TRAVSR_FUZZY_CORRECT_JACCARD'')"

definition anchor_kind_priority :: "environment \<Rightarrow> bool" where
  "anchor_kind_priority en \<longleftrightarrow> \<not> switched_off en ''TRAVSR_ANCHOR_KIND_PRIORITY''"

definition anchor_reorder_window :: "environment \<Rightarrow> nat" where
  "anchor_reorder_window en = knob (\<lambda>n. 3 \<le> n) 6 (usize_var en ''TRAVSR_ANCHOR_REORDER_WINDOW'')"

definition disjoint_rescue_cos :: "environment \<Rightarrow> rat" where
  "disjoint_rescue_cos en = knob unit_interval (85 / 100) (en_f32 en ''TRAVSR_DISJOINT_RESCUE_COS'')"

definition idf_weight :: "(rat \<Rightarrow> rat) \<Rightarrow> nat \<Rightarrow> nat \<Rightarrow> rat" where
  "idf_weight lnf freq n_total =
     (if n_total = 0 then 5 / 100
      else clamp (5 / 100) 1 (lnf (of_nat (n_total + 1) / of_nat (freq + 1)) / lnf (of_nat (n_total + 1))))"

definition allows :: "edge_filter \<Rightarrow> core_node \<Rightarrow> bool" where
  "allows F n = ef_allow F (gn_id n) (gn_id n) (Some (vn_corpus (gn_vname n)))"

definition boost :: "core_node \<Rightarrow> rat" where
  "boost n = kind_boost (gn_kind n) (vn_language (gn_vname n))"

subsection \<open>Resolving the tokens\<close>

definition boundary :: "string \<Rightarrow> core_node \<Rightarrow> bool" where
  "boundary tok n \<longleftrightarrow> contains_token tok (node_sig n) \<or> contains_token tok (node_path n)"

definition by_name :: "'e seed_store \<Rightarrow> string \<Rightarrow> core_node list" where
  "by_name db tok = result_or [] (ss_by_name db tok)"

text \<open>By name, by stem, by the stem with its e restored.\<close>

definition resolve_by_name :: "'e seed_store \<Rightarrow> string \<Rightarrow> string \<times> core_node list \<times> bool" where
  "resolve_by_name db token =
     (let nodes = by_name db token; miss = (token, nodes, False)
      in if list_ex (boundary token) nodes then (token, nodes, True)
         else case inflectional_stem token of
                None \<Rightarrow> miss
              | Some stem \<Rightarrow>
                  (let stem_nodes = by_name db stem
                   in if list_ex (boundary stem) stem_nodes then (stem, stem_nodes, True)
                      else case inflectional_stem_restoring_e token stem of
                             None \<Rightarrow> miss
                           | Some alt \<Rightarrow>
                               (let alt_nodes = by_name db alt
                                in if list_ex (boundary alt) alt_nodes then (alt, alt_nodes, True) else miss)))"

definition corrections :: "environment \<Rightarrow> 'e seed_store \<Rightarrow> (string \<times> core_node list \<times> bool) list \<Rightarrow> string \<rightharpoonup> string" where
  "corrections en db by_token =
     (let missed = map fst (filter (\<lambda>(_, _, has_direct). \<not> has_direct) by_token)
      in if missed = [] then Map.empty else result_or Map.empty (ss_correct db missed (fuzzy_correct_jaccard en)))"

text \<open>The nodes, the name they are matched by, whether it is a correction, and the frequency of an alias.\<close>

definition resolve_token :: "'e seed_store \<Rightarrow> nat \<Rightarrow> (string \<rightharpoonup> string) \<Rightarrow> string \<times> core_node list \<times> bool
    \<Rightarrow> core_node list \<times> string \<times> bool \<times> nat option" where
  "resolve_token db n_content repairs = (\<lambda>(token, direct_nodes, has_direct).
     if has_direct then (direct_nodes, token, False, None)
     else case repairs token of
            Some fixed \<Rightarrow>
              (let fixed_nodes = by_name db fixed
               in if list_ex (boundary fixed) fixed_nodes then (fixed_nodes, fixed, True, None)
                  else (direct_nodes, token, False, None))
          | None \<Rightarrow>
              (let aliased = (if n_content = 1
                              then filter (\<lambda>n. gn_kind n \<noteq> ''impl'' \<and> gn_kind n \<noteq> ''import'') (ss_alias db token)
                              else [])
               in case aliased of
                    orig # _ \<Rightarrow> (aliased, leaf_of (node_sig orig), False, Some (length aliased))
                  | [] \<Rightarrow> (direct_nodes, token, False, None)))"

subsection \<open>Anchors\<close>

record anchor_state =
  as_raw :: ranked
  as_paths :: "(string \<times> nat) list"
  as_specific :: "node_id set"
  as_corrected :: "node_id set"
  as_named :: "node_id set"
  as_terms :: "resolved_term list"

definition anchor_start :: anchor_state where
  "anchor_start = \<lparr>as_raw = [], as_paths = [], as_specific = {}, as_corrected = {}, as_named = {}, as_terms = []\<rparr>"

definition count_path :: "string \<Rightarrow> (string \<times> nat) list \<Rightarrow> (string \<times> nat) list" where
  "count_path p counts = AList.update p (entry_or p 0 counts + 1) counts"

definition anchorable :: "seed_world \<Rightarrow> edge_filter \<Rightarrow> string \<Rightarrow> core_node \<Rightarrow> bool" where
  "anchorable w F name n \<longleftrightarrow>
     \<not> is_anchor_noise (sw_upper w) n \<and> allows F n \<and> contains_token name (node_sig n)"

text \<open>One candidate of the emit loop; the number of anchors emitted so far is threaded.\<close>

definition emit_anchor :: "seed_world \<Rightarrow> edge_filter \<Rightarrow> string \<Rightarrow> rat \<Rightarrow> core_node \<Rightarrow> nat \<times> anchor_state
    \<Rightarrow> nat \<times> anchor_state" where
  "emit_anchor w F name idf_w n = (\<lambda>(added, st).
     if \<not> anchorable w F name n then (added, st)
     else if MAX_SEEDS_PER_PATH \<le> entry_or (node_path n) 0 (as_paths st) \<and> 0 < added then (added, st)
     else (added + 1,
           st\<lparr>as_paths := count_path (node_path n) (as_paths st),
              as_raw := as_raw st @ [(gn_id n, idf_w * boost n)],
              as_specific := (if idf_coverage_min (sw_env w) \<le> idf_w then insert (gn_id n) (as_specific st)
                              else as_specific st)\<rparr>))"

definition ordered_candidates :: "environment \<Rightarrow> core_node list \<Rightarrow> core_node list" where
  "ordered_candidates en pool =
     (if anchor_kind_priority en then order_anchor_candidates pool (anchor_reorder_window en)
      else take MAX_ANCHORS_PER_TOKEN pool)"

definition push_term :: "string \<Rightarrow> bool \<Rightarrow> nat \<Rightarrow> rat \<Rightarrow> node_id option \<Rightarrow> nat \<Rightarrow> anchor_state \<Rightarrow> anchor_state" where
  "push_term token resolved freq idf_w head_node emitted st =
     st\<lparr>as_terms := as_terms st @ [\<lparr>rt_token = token, rt_resolved = resolved, rt_symbol_freq = freq,
          rt_idf_w = idf_w, rt_top_node = head_node, rt_anchors_emitted = emitted\<rparr>]\<rparr>"

definition anchor_corrected :: "core_node option \<Rightarrow> rat \<Rightarrow> anchor_state \<Rightarrow> anchor_state" where
  "anchor_corrected pick idf_w st =
     (case pick of
        None \<Rightarrow> st
      | Some n \<Rightarrow>
          st\<lparr>as_raw := as_raw st @ [(gn_id n, idf_w * boost n)],
             as_specific := insert (gn_id n) (as_specific st),
             as_corrected := insert (gn_id n) (as_corrected st),
             as_paths := count_path (node_path n) (as_paths st)\<rparr>)"

definition anchor_token :: "seed_world \<Rightarrow> 'e seed_store \<Rightarrow> edge_filter \<Rightarrow> nat \<Rightarrow> nat \<Rightarrow> (string \<rightharpoonup> string)
    \<Rightarrow> string \<times> core_node list \<times> bool \<Rightarrow> anchor_state \<Rightarrow> anchor_state" where
  "anchor_token w db F n_total n_content repairs entry st =
     (let token = fst entry;
          (exact_nodes, name, corrected, alias_freq) = resolve_token db n_content repairs entry;
          freq = (case alias_freq of
                    Some k \<Rightarrow> k
                  | None \<Rightarrow> (case result_or None (ss_frequency db name) of Some k \<Rightarrow> k | None \<Rightarrow> n_total));
          matched = filter (boundary name) exact_nodes;
          pool = filter (\<lambda>n. contains_token name (node_sig n) \<and> \<not> is_anchor_noise (sw_upper w) n) exact_nodes;
          ordered = ordered_candidates (sw_env w) pool;
          idf_w = idf_weight (sw_ln w) freq n_total
      in if corrected
         then (let pick = find (anchorable w F name) ordered
               in push_term token (matched \<noteq> []) freq idf_w (map_option gn_id pick)
                    (if pick = None then 0 else 1) (anchor_corrected pick idf_w st))
         else (let head_node = (case matched of n # _ \<Rightarrow> Some (gn_id n) | [] \<Rightarrow> None)
               in if idf_w < anchor_emit_cut (sw_env w)
                  then push_term token (matched \<noteq> []) freq idf_w head_node 0 st
                  else (let (added, st') = fold (emit_anchor w F name idf_w) (take MAX_ANCHORS_PER_TOKEN ordered) (0, st);
                            named = filter (\<lambda>n. is_named_by n name \<and> \<not> is_anchor_noise (sw_upper w) n \<and> allows F n) pool
                        in push_term token (matched \<noteq> []) freq idf_w head_node added
                             (st'\<lparr>as_named := as_named st' \<union> set (map gn_id named)\<rparr>))))"

definition anchor_tokens :: "seed_world \<Rightarrow> 'e seed_store \<Rightarrow> edge_filter \<Rightarrow> nat \<Rightarrow> string list \<Rightarrow> anchor_state" where
  "anchor_tokens w db F n_total content_tokens =
     (let by_token = map (resolve_by_name db) content_tokens;
          repairs = corrections (sw_env w) db by_token
      in fold (anchor_token w db F n_total (length content_tokens) repairs) by_token anchor_start)"

subsection \<open>Full-text and embedding seeds\<close>

definition anchor_roots :: "anchor_state \<Rightarrow> string set" where
  "anchor_roots st = set (List.map_filter package_root (map fst (as_paths st)))"

definition max_or :: "rat \<Rightarrow> rat list \<Rightarrow> rat" where
  "max_or base xs = fold max xs base"

definition best_bm25 :: "fused_hit list \<Rightarrow> rat" where
  "best_bm25 hits = max_or 0 (List.map_filter fh_bm25 hits)"

definition in_scope :: "string set \<Rightarrow> core_node \<Rightarrow> bool" where
  "in_scope roots n = (case package_root (node_path n) of Some r \<Rightarrow> r \<in> roots | None \<Rightarrow> True)"

definition lexical_hit :: "seed_world \<Rightarrow> edge_filter \<Rightarrow> string set \<Rightarrow> rat \<Rightarrow> fused_hit \<Rightarrow> (string \<times> nat) list \<times> ranked
    \<Rightarrow> (string \<times> nat) list \<times> ranked" where
  "lexical_hit w F roots max_bm25 hit = (\<lambda>(counts, raw).
     let n = fh_node hit
     in case fh_bm25 hit of
          None \<Rightarrow> (counts, raw)
        | Some bm25 \<Rightarrow>
            if is_noise_seed n then (counts, raw)
            else if \<not> allows F n then (counts, raw)
            else (let strength = clamp (5 / 100) 1 (bm25 / max_bm25)
                  in if scope_gate_drops (roots \<noteq> {}) (in_scope roots n) strength (scope_strong_floor (sw_env w))
                     then (counts, raw)
                     else if MAX_SEEDS_PER_PATH \<le> entry_or (node_path n) 0 counts then (counts, raw)
                     else (count_path (node_path n) counts, raw @ [(gn_id n, strength * boost n)])))"

definition lexical_raw :: "seed_world \<Rightarrow> edge_filter \<Rightarrow> string set \<Rightarrow> fused_hit list \<Rightarrow> ranked" where
  "lexical_raw w F roots hits =
     snd (fold (lexical_hit w F roots (max (best_bm25 hits) (1 / 1000))) hits ([], []))"

definition knn_raw :: "(core_node \<times> rat) list \<Rightarrow> ranked" where
  "knn_raw pairs = map (\<lambda>(n, s). (gn_id n, s * boost n)) (filter (\<lambda>(n, _). \<not> is_noise_seed n) pairs)"

subsection \<open>Fusion\<close>

text \<open>\<open>collect\<close> into a hash map: the last pair of a key wins.\<close>

definition collect_map :: "ranked \<Rightarrow> node_id \<Rightarrow> rat option" where
  "collect_map raw = map_of (rev raw)"

definition or_zero_weight :: "rat option \<Rightarrow> rat" where
  "or_zero_weight x = (case x of Some v \<Rightarrow> v | None \<Rightarrow> 0)"

definition fused_seed :: "ranked \<Rightarrow> ranked \<Rightarrow> ranked \<Rightarrow> node_id set \<Rightarrow> node_id \<times> rat \<Rightarrow> seed" where
  "fused_seed anchors lexical knn named = (\<lambda>(n, rrf_score).
     let anchor_w = collect_map anchors n; lex_w = collect_map lexical n; knn_w = collect_map knn n
     in \<lparr>sd_node = n,
         sd_weight = max (max (max (or_zero_weight anchor_w) (or_zero_weight lex_w)) (or_zero_weight knn_w)) (rrf_score * (5 / 10)),
         sd_source = (if anchor_w \<noteq> None \<or> n \<in> named then Src_Exact
                      else if knn_w \<noteq> None then Src_Knn else Src_Lexical),
         sd_score = rrf_score,
         sd_rerank = None\<rparr>)"

definition fuse :: "environment \<Rightarrow> anchor_state \<Rightarrow> ranked \<Rightarrow> ranked \<Rightarrow> ranked \<Rightarrow> ranked" where
  "fuse en st anchors lexical knn =
     (let k = rrf_k en
      in if rrf_weighted_enabled en
         then (let (specific, generic) = partition (\<lambda>p. fst p \<in> as_specific st) anchors;
                   (w_spec, w_bm25, w_embed, w_generic) = rrf_source_weights en
               in rrf_fuse_weighted [(w_spec, specific), (w_bm25, lexical), (w_embed, knn), (w_generic, generic)] k)
         else rrf_fuse [anchors, lexical, knn] k)"

definition fused_seeds :: "environment \<Rightarrow> anchor_state \<Rightarrow> ranked \<Rightarrow> ranked \<Rightarrow> ranked \<Rightarrow> seed list" where
  "fused_seeds en st anchors lexical knn =
     map (fused_seed anchors lexical knn (as_named st)) (fuse en st anchors lexical knn)"

subsection \<open>The direct cosine oracle\<close>

text \<open>The ids to score: top nodes of the terms, then anchors, each once and not known already.\<close>

definition to_score :: "cosines \<Rightarrow> resolved_term list \<Rightarrow> ranked \<Rightarrow> node_id list" where
  "to_score known terms anchors =
     rev (fold (\<lambda>n acc. if n \<in> fst ` set known \<or> n \<in> set acc then acc else n # acc)
       (List.map_filter rt_top_node terms @ map fst anchors) [])"

definition augment :: "(string \<Rightarrow> node_id list \<Rightarrow> (node_id \<times> rat) list) option \<Rightarrow> string \<Rightarrow> cosines \<Rightarrow> resolved_term list
    \<Rightarrow> ranked \<Rightarrow> cosines \<times> node_id set" where
  "augment score_fn query known terms anchors =
     (case score_fn of
        None \<Rightarrow> (known, {})
      | Some score \<Rightarrow>
          (let ids = to_score known terms anchors
           in if ids = [] then (known, {})
              else (fold (\<lambda>(n, c) m. AList.update n c m) (score query ids) known, set ids)))"

subsection \<open>The contamination gate and the callees\<close>

definition visit :: "node_id \<Rightarrow> node_id set \<times> node_id list \<Rightarrow> node_id set \<times> node_id list" where
  "visit n = (\<lambda>(seen, queue). if n \<in> seen then (seen, queue) else (insert n seen, queue @ [n]))"

fun expand_frontier :: "'e seed_store \<Rightarrow> node_id list \<Rightarrow> node_id set \<times> node_id list \<Rightarrow> node_id set \<times> node_id list" where
  "expand_frontier db [] acc = acc"
| "expand_frontier db (n # rest) acc =
     (let acc1 = (case ss_edges_from db n of Inr es \<Rightarrow> fold (visit \<circ> ge_dst) es acc | Inl _ \<Rightarrow> acc);
          acc2 = (case ss_edges_to db n of Inr es \<Rightarrow> fold (visit \<circ> ge_src) es acc1 | Inl _ \<Rightarrow> acc1)
      in if ANCHOR_NEIGHBORHOOD_CAP \<le> card (fst acc2) then acc2 else expand_frontier db rest acc2)"

fun neighborhood_hops :: "'e seed_store \<Rightarrow> nat \<Rightarrow> node_id set \<Rightarrow> node_id list \<Rightarrow> node_id set" where
  "neighborhood_hops db 0 seen queue = seen"
| "neighborhood_hops db (Suc hops) seen queue =
     (if queue = [] \<or> ANCHOR_NEIGHBORHOOD_CAP \<le> card seen then seen
      else (let (seen', queue') = expand_frontier db queue (seen, [])
            in neighborhood_hops db hops seen' queue'))"

definition anchor_neighborhood :: "'e seed_store \<Rightarrow> node_id list \<Rightarrow> node_id set" where
  "anchor_neighborhood db anchors = neighborhood_hops db ANCHOR_NEIGHBORHOOD_HOPS (set anchors) anchors"

definition keeps_seed :: "environment \<Rightarrow> calibration \<Rightarrow> bool \<Rightarrow> cosines \<Rightarrow> node_id set \<Rightarrow> seed \<Rightarrow> bool" where
  "keeps_seed en cal g1_bypass cs neighborhood s \<longleftrightarrow>
     (if is_exact s then True
      else if cal \<noteq> IDENTITY \<and> \<not> g1_bypass \<and> sd_source s = Src_Knn
        \<and> (case map_of cs (sd_node s) of Some c \<Rightarrow> semantic_recall_floor en cal \<le> c | None \<Rightarrow> False) then True
      else sd_node s \<in> neighborhood
        \<or> (case map_of cs (sd_node s) of Some c \<Rightarrow> cal_map cal (disjoint_rescue_cos en) \<le> c | None \<Rightarrow> True))"

definition callee_ids :: "'e seed_store \<Rightarrow> node_id list \<Rightarrow> node_id set \<Rightarrow> node_id list" where
  "callee_ids db anchors existing =
     remdups (concat (map (\<lambda>a. case ss_edges_from db a of
         Inr es \<Rightarrow> map ge_dst (filter (\<lambda>e. ge_kind e \<in> {RefCall, Depends} \<and> ge_dst e \<notin> existing \<and> ge_dst e \<notin> set anchors) es)
       | Inl _ \<Rightarrow> []) anchors))"

definition anchor_callee_seeds :: "'e seed_store \<Rightarrow> edge_filter \<Rightarrow> node_id list \<Rightarrow> node_id set \<Rightarrow> seed list" where
  "anchor_callee_seeds db F anchors existing =
     (let ids = callee_ids db anchors existing
      in if ids = [] then []
         else case ss_nodes db ids of
                Inl _ \<Rightarrow> []
              | Inr nodes \<Rightarrow>
                  map (\<lambda>(n, weight). \<lparr>sd_node = n, sd_weight = weight, sd_source = Src_Lexical, sd_score = weight,
                         sd_rerank = None\<rparr>)
                    (take MAX_ANCHOR_CALLEE_SEEDS
                      (by_score (map (\<lambda>n. (gn_id n, ANCHOR_CALLEE_WEIGHT_BASE * boost n))
                        (filter (\<lambda>n. \<not> is_noise_seed n \<and> allows F n) nodes)))))"

definition gate_and_extend :: "environment \<Rightarrow> 'e seed_store \<Rightarrow> edge_filter \<Rightarrow> calibration \<Rightarrow> bool \<Rightarrow> cosines \<Rightarrow> seed list
    \<Rightarrow> seed list" where
  "gate_and_extend en db F cal g1_bypass cs seeds =
     (let anchors = remdups (map sd_node (filter is_exact seeds))
      in if anchors = [] then seeds
         else (let kept = filter (keeps_seed en cal g1_bypass cs (anchor_neighborhood db anchors)) seeds
               in kept @ anchor_callee_seeds db F anchors (set (map sd_node kept))))"

subsection \<open>Weights\<close>

definition scale_by_cosine :: "calibration \<Rightarrow> cosines \<Rightarrow> seed list \<Rightarrow> seed list" where
  "scale_by_cosine cal cs seeds =
     (if cal_map cal SEMANTIC_ORACLE_MIN \<le> oracle_top cs
      then map (\<lambda>s. if is_exact s then s
             else case map_of cs (sd_node s) of
                    Some c \<Rightarrow> s\<lparr>sd_weight := sd_weight s * clamp 0 1 c\<rparr>
                  | None \<Rightarrow> s) seeds
      else seeds)"

definition specific_ids :: "environment \<Rightarrow> resolved_term list \<Rightarrow> node_id set" where
  "specific_ids en terms =
     set (List.map_filter rt_top_node (filter (\<lambda>t. rt_resolved t \<and> idf_coverage_min en \<le> rt_idf_w t) terms))"

definition float_exact :: "environment \<Rightarrow> calibration \<Rightarrow> cosines \<Rightarrow> bool \<Rightarrow> node_id set \<Rightarrow> seed list \<Rightarrow> seed list" where
  "float_exact en cal cs g1_bypass specific seeds =
     (let strongest = max_or 0 (map sd_weight (filter (\<lambda>s. \<not> is_exact s) seeds))
      in if 0 < strongest
         then map (\<lambda>s. if is_exact s \<and> (g1_bypass \<or> sd_node s \<in> specific)
                \<and> (oracle_top cs < cal_map cal SEMANTIC_ORACLE_MIN
                    \<or> cosine_floor cal (oracle_top cs) \<le> entry_or (sd_node s) 0 cs)
              then s\<lparr>sd_weight := max (sd_weight s) (strongest * EXACT_SEED_PRIORITY)\<rparr> else s) seeds
         else seeds)"

definition rerank_topk :: "environment \<Rightarrow> nat" where
  "rerank_topk en = knob (\<lambda>n. 0 < n) 30 (usize_var en ''TRAVSR_RERANK_TOPK'')"

fun attach_scores :: "seed list \<Rightarrow> rat list \<Rightarrow> seed list" where
  "attach_scores (s # seeds) (r # rs) = s\<lparr>sd_rerank := Some r\<rparr> # attach_scores seeds rs"
| "attach_scores seeds _ = seeds"

text \<open>The reranked seeds and the best score; where the model answers no score at all the code has
  negative infinity, for which -1, below every floor, stands.\<close>

definition rerank_stage :: "seed_world \<Rightarrow> 'e seed_store \<Rightarrow> string \<Rightarrow> bool \<Rightarrow> seed list \<Rightarrow> seed list \<times> rat option" where
  "rerank_stage w db query g1_bypass seeds =
     (if seeds = [] \<or> g1_bypass then (seeds, None)
      else (let take_n = min (length seeds) (rerank_topk (sw_env w));
                ids = map sd_node (take take_n seeds)
            in case ss_nodes db ids of
                 Inl _ \<Rightarrow> (seeds, None)
               | Inr _ \<Rightarrow>
                   (case sw_rerank w query ids of
                      None \<Rightarrow> (seeds, None)
                    | Some scores \<Rightarrow>
                        (let scored = attach_scores (take take_n seeds) scores @ drop take_n seeds;
                             out = sort_seeds_post_rerank (rerank_weak_floor (sw_env w) (rf_weak (sw_floors w))) scored
                         in (out, case List.map_filter sd_rerank out of [] \<Rightarrow> Some (- 1) | r # rs \<Rightarrow> Some (max_or r rs))))))"

definition weigh_by_rerank :: "environment \<Rightarrow> rerank_floors \<Rightarrow> seed list \<Rightarrow> seed list" where
  "weigh_by_rerank en mf seeds =
     (if rerank_ppr_weight_enabled en
      then map (\<lambda>s. if is_exact s then s
             else case sd_rerank s of
                    Some r \<Rightarrow> s\<lparr>sd_weight := sd_weight s * rerank_ppr_multiplier r (rerank_weak_floor en (rf_weak mf))\<rparr>
                  | None \<Rightarrow> s) seeds
      else seeds)"

subsection \<open>The whole\<close>

record seed_set =
  st_intent :: query_intent
  st_seeds :: "seed list"
  st_terms :: "resolved_term list"
  st_coverage :: rat
  st_n_resolved :: nat
  st_confidence :: confidence
  st_anchor_rescued :: bool

definition n_total_nodes :: "'e seed_store \<Rightarrow> nat" where
  "n_total_nodes db = max (result_or 10000 (ss_total db)) 1000"

definition build_seed_set :: "seed_world \<Rightarrow> 'e seed_store \<Rightarrow> string \<Rightarrow> edge_filter \<Rightarrow> (core_node \<times> rat) list \<Rightarrow> cosines
    \<Rightarrow> (string \<Rightarrow> node_id list \<Rightarrow> (node_id \<times> rat) list) option \<Rightarrow> seed_set" where
  "build_seed_set w db raw_query F knn_pairs knn_oracle score_fn =
     (let en = sw_env w;
          query = normalize_nl_query raw_query;
          content_tokens = tokenize_query query;
          cal = calibration_load (ss_meta db) (sw_finite w);
          st = anchor_tokens w db F (n_total_nodes db) content_tokens;
          terms = as_terms st;
          anchors = sort_key (\<lambda>p. - snd p) (as_raw st);
          early_exact_ids = fst ` set anchors;
          g1_bypass = compute_g1_bypass en terms \<lparr>ta_exact = early_exact_ids, ta_corrected = as_corrected st\<rparr>;
          coverage = query_coverage en terms;
          hits = result_or [] (ss_fuzzy db query);
          lexical = lexical_raw w F (anchor_roots st) hits;
          knn = knn_raw knn_pairs;
          fused = fused_seeds en st anchors lexical knn;
          (cs, scored_ids) = augment score_fn query knn_oracle terms anchors;
          validated = (if g1_bypass then fused else semantic_validate_preserving_exact en fused cs cal);
          gated = gate_and_extend en db F cal g1_bypass cs validated;
          floated = float_exact en cal cs g1_bypass (specific_ids en terms) (scale_by_cosine cal cs gated);
          (reranked, max_rerank) = rerank_stage w db query g1_bypass floated;
          seeds = weigh_by_rerank en (sw_floors w) reranked;
          ev = \<lparr>ev_terms = terms, ev_coverage = coverage, ev_top_bm25 = best_bm25 hits, ev_has_seeds = seeds \<noteq> [],
                ev_knn = knn_oracle, ev_anchor = cs, ev_scored = scored_ids\<rparr>;
          base = contentless_query_confidence
                   (classify_confidence en (sw_floors w) cal ev g1_bypass max_rerank) max_rerank (terms \<noteq> []);
          c = final_verdict en (sw_floors w) cal ev g1_bypass max_rerank (early_exact_ids \<noteq> {})
      in \<lparr>st_intent = classify_intent query, st_seeds = seeds, st_terms = terms, st_coverage = coverage,
          st_n_resolved = n_resolved en terms, st_confidence = c, st_anchor_rescued = (c \<noteq> base)\<rparr>)"

subsection \<open>A small world\<close>

text \<open>Two functions of one name, one of a repository the caller may not see; the full-text index
  answers the hidden one. The natural logarithm is replaced by the identity.\<close>

definition scan_node :: "node_id \<Rightarrow> string \<Rightarrow> core_node" where
  "scan_node i corpus = \<lparr>gn_id = i,
     gn_vname = \<lparr>vn_corpus = corpus, vn_root = [], vn_path = ''src/lex.rs'', vn_language = ''rust'', vn_signature = ''fn:scan''\<rparr>,
     gn_kind = ''function'', cn_line = Some 1, cn_end_line = Some 9, cn_test_role = Role_None\<rparr>"

definition sample_graph :: "node_id \<rightharpoonup> core_node" where
  "sample_graph i = (if i = 1 then Some (scan_node 1 ''app'') else if i = 2 then Some (scan_node 2 ''vault'') else None)"

definition sample_reads :: "unit seed_store" where
  "sample_reads = \<lparr>
     ss_by_name = \<lambda>name. Inr (if name = ''scan'' then [scan_node 1 ''app'', scan_node 2 ''vault''] else []),
     ss_correct = \<lambda>_ _. Inr Map.empty, ss_frequency = \<lambda>_. Inr (Some 2), ss_total = Inr 2,
     ss_fuzzy = \<lambda>_. Inr [\<lparr>fh_node = scan_node 2 ''vault'', fh_bm25 = Some 1\<rparr>],
     ss_edges_from = \<lambda>_. Inr [], ss_edges_to = \<lambda>_. Inr [],
     ss_nodes = \<lambda>_. Inr [scan_node 1 ''app'', scan_node 2 ''vault''], ss_meta = \<lambda>_. None, ss_alias = \<lambda>_. []\<rparr>"

definition sample_world :: seed_world where
  "sample_world = \<lparr>sw_env = default_env, sw_ln = \<lambda>x. x, sw_upper = \<lambda>_. False, sw_finite = \<lambda>_. None,
     sw_floors = \<lparr>rf_strong = None, rf_weak = None\<rparr>, sw_rerank = \<lambda>_ _. None\<rparr>"

end
