(* ===== verification/Seed_Access.thy ===== *)
theory Seed_Access
  imports Seed_Set "HOL-Library.Code_Target_Nat"
begin

section \<open>What the seed set shows and how it is weighed\<close>

text \<open>
  Properties of the pipeline of \<open>Seed_Set\<close>: no stage lets a node past the edge filter, what the float of
  the exact seeds guarantees and where it is undone, and which of its weights an anchor keeps.
\<close>

subsection \<open>Access control of the whole pipeline\<close>

text \<open>A graph behind the reads: every node a read returns is the graph's node of its id.\<close>

definition reads_graph :: "(node_id \<rightharpoonup> core_node) \<Rightarrow> 'e seed_store \<Rightarrow> bool" where
  "reads_graph g db \<longleftrightarrow>
     (\<forall>name. \<forall>n\<in>set (result_or [] (ss_by_name db name)). g (gn_id n) = Some n) \<and>
     (\<forall>name. \<forall>n\<in>set (ss_alias db name). g (gn_id n) = Some n) \<and>
     (\<forall>q. \<forall>h\<in>set (result_or [] (ss_fuzzy db q)). g (gn_id (fh_node h)) = Some (fh_node h)) \<and>
     (\<forall>ids. \<forall>n\<in>set (result_or [] (ss_nodes db ids)). g (gn_id n) = Some n)"

definition permitted :: "(node_id \<rightharpoonup> core_node) \<Rightarrow> edge_filter \<Rightarrow> node_id \<Rightarrow> bool" where
  "permitted g F i \<longleftrightarrow> (\<exists>n. g i = Some n \<and> allows F n)"

lemma resolve_by_name_nodes:
  "reads_graph g db \<Longrightarrow> n \<in> set (fst (snd (resolve_by_name db token))) \<Longrightarrow> g (gn_id n) = Some n"
  by (auto simp: resolve_by_name_def by_name_def Let_def reads_graph_def split: option.splits if_splits)

lemma resolve_token_nodes:
  assumes "reads_graph g db" "\<forall>n\<in>set (fst (snd entry)). g (gn_id n) = Some n"
    "n \<in> set (fst (resolve_token db k repairs entry))"
  shows "g (gn_id n) = Some n"
proof -
  obtain token nodes direct where e: "entry = (token, nodes, direct)" by (cases entry)
  have "n \<in> set nodes \<or> (\<exists>name. n \<in> set (by_name db name)) \<or> n \<in> set (ss_alias db token)"
    using assms(3) unfolding e resolve_token_def prod.case Let_def
    by (auto split: if_splits option.splits list.splits dest: filter_eq_ConsD)
  with assms(1,2) e show ?thesis by (auto simp: reads_graph_def by_name_def)
qed

lemma emit_anchor_raw:
  assumes "i \<in> fst ` set (as_raw (snd (fold (emit_anchor w F name idf_w) ns acc)))"
  shows "i \<in> fst ` set (as_raw (snd acc)) \<or> (\<exists>n\<in>set ns. gn_id n = i \<and> allows F n)"
  using assms
proof (induction ns arbitrary: acc)
  case (Cons n ns)
  have step: "i \<in> fst ` set (as_raw (snd (emit_anchor w F name idf_w n acc))) \<Longrightarrow>
      i \<in> fst ` set (as_raw (snd acc)) \<or> (gn_id n = i \<and> allows F n)"
    by (cases acc) (auto simp: emit_anchor_def anchorable_def split: if_splits)
  from Cons.prems have "i \<in> fst ` set (as_raw (snd (fold (emit_anchor w F name idf_w) ns (emit_anchor w F name idf_w n acc))))"
    by simp
  from Cons.IH[OF this] step show ?case by auto
qed simp

lemma ordered_candidates_sub: "set (ordered_candidates en pool) \<subseteq> set pool"
  by (auto simp: ordered_candidates_def order_anchor_candidates_def dest: in_set_takeD)

lemma anchor_token_raw:
  assumes "reads_graph g db" "\<forall>n\<in>set (fst (snd entry)). g (gn_id n) = Some n"
    "i \<in> fst ` set (as_raw (anchor_token w db F n_total k repairs entry st))"
  shows "i \<in> fst ` set (as_raw st) \<or> permitted g F i"
proof -
  obtain exact name corrected alias_freq where r: "resolve_token db k repairs entry = (exact, name, corrected, alias_freq)"
    by (metis prod_cases4)
  have nodes: "\<And>n. n \<in> set exact \<Longrightarrow> g (gn_id n) = Some n"
    using resolve_token_nodes[OF assms(1,2), of _ k repairs] r by simp
  define pool where "pool = filter (\<lambda>n. contains_token name (node_sig n) \<and> \<not> is_anchor_noise (sw_upper w) n) exact"
  define cands where "cands = ordered_candidates (sw_env w) pool"
  have cands: "g (gn_id n) = Some n" if "n \<in> set cands" for n
    using that ordered_candidates_sub[of "sw_env w" pool] nodes by (auto simp: cands_def pool_def)
  have perm: "permitted g F (gn_id n)" if "n \<in> set cands" "allows F n" for n
    using cands[OF that(1)] that(2) by (auto simp: permitted_def)
  show ?thesis
  proof (cases corrected)
    case True
    have "i \<in> fst ` set (as_raw (anchor_corrected (find (anchorable w F name) cands) x st))
        \<Longrightarrow> i \<in> fst ` set (as_raw st) \<or> permitted g F i" for x
      using perm by (auto simp: anchor_corrected_def anchorable_def find_Some_iff split: option.splits)
    with assms(3) True show ?thesis
      by (simp add: anchor_token_def r Let_def push_term_def flip: pool_def cands_def)
  next
    case False
    have "i \<in> fst ` set (as_raw (snd (fold (emit_anchor w F name x) (take MAX_ANCHORS_PER_TOKEN cands) (0, st))))
        \<Longrightarrow> i \<in> fst ` set (as_raw st) \<or> permitted g F i" for x
      using emit_anchor_raw[of i w F name x "take MAX_ANCHORS_PER_TOKEN cands" "(0, st)"] perm
      by (metis in_set_takeD snd_conv)
    with assms(3) False show ?thesis
      by (auto simp: anchor_token_def r Let_def push_term_def case_prod_beta simp flip: pool_def cands_def split: if_splits)
  qed
qed

lemma anchor_tokens_raw:
  assumes "reads_graph g db" "i \<in> fst ` set (as_raw (anchor_tokens w db F n_total tokens))"
  shows "permitted g F i"
proof -
  have "i \<in> fst ` set (as_raw (fold (anchor_token w db F n_total k repairs) entries st)) \<Longrightarrow>
      \<forall>e\<in>set entries. \<forall>n\<in>set (fst (snd e)). g (gn_id n) = Some n \<Longrightarrow>
      i \<in> fst ` set (as_raw st) \<or> permitted g F i" for k repairs entries st
  proof (induction entries arbitrary: st)
    case (Cons e entries)
    then show ?case using anchor_token_raw[OF assms(1), of e i w F n_total k repairs st] by auto
  qed simp
  from this[where entries = "map (resolve_by_name db) tokens" and st = anchor_start]
    assms(2)[unfolded anchor_tokens_def Let_def] resolve_by_name_nodes[OF assms(1)]
  have "i \<in> fst ` set (as_raw anchor_start) \<or> permitted g F i" by (simp only: length_map set_map) blast
  then show ?thesis by (simp add: anchor_start_def)
qed

lemma lexical_raw_permitted:
  assumes "\<forall>h\<in>set hits. g (gn_id (fh_node h)) = Some (fh_node h)" "i \<in> fst ` set (lexical_raw w F roots hits)"
  shows "permitted g F i"
proof -
  have "i \<in> fst ` set (snd (fold (lexical_hit w F roots m) hs acc)) \<Longrightarrow> set hs \<subseteq> set hits \<Longrightarrow>
      i \<in> fst ` set (snd acc) \<or> permitted g F i" for m hs acc
  proof (induction hs arbitrary: acc)
    case (Cons h hs)
    have step: "i \<in> fst ` set (snd (lexical_hit w F roots m h acc)) \<Longrightarrow> i \<in> fst ` set (snd acc) \<or> permitted g F i"
      using assms(1) Cons.prems(2)
      by (cases acc) (auto simp: lexical_hit_def Let_def permitted_def split: option.splits if_splits)
    from Cons.prems Cons.IH[of "lexical_hit w F roots m h acc"] step show ?case by auto
  qed simp
  with assms(2) show ?thesis by (fastforce simp: lexical_raw_def)
qed

lemma knn_raw_permitted:
  assumes "\<forall>(n, c)\<in>set pairs. g (gn_id n) = Some n \<and> allows F n" "i \<in> fst ` set (knn_raw pairs)"
  shows "permitted g F i"
  using assms by (force simp: knn_raw_def permitted_def)

lemma fuse_ids: "fst ` set (fuse en st anchors lexical knn) \<subseteq> fst ` set anchors \<union> fst ` set lexical \<union> fst ` set knn"
proof (cases "rrf_weighted_enabled en")
  case True
  obtain a b c d where w: "rrf_source_weights en = (a, b, c, d)" by (metis prod_cases4)
  show ?thesis
    using rrf_weighted_spec[of "[(a, filter (\<lambda>p. fst p \<in> as_specific st) anchors), (b, lexical), (c, knn),
        (d, filter (\<lambda>p. fst p \<notin> as_specific st) anchors)]" "rrf_k en"] True
    by (auto simp: fuse_def w partition_filter_conv comp_def)
next
  case False
  then show ?thesis
    using rrf_weighted_spec[of "map (Pair 1) [anchors, lexical, knn]" "rrf_k en", folded rrf_unweighted]
    by (auto simp: fuse_def)
qed

lemma fused_seeds_nodes: "map sd_node (fused_seeds en st anchors lexical knn) = map fst (fuse en st anchors lexical knn)"
  by (simp add: fused_seeds_def fused_seed_def Let_def case_prod_beta comp_def)

lemma validate_nodes: "set (semantic_validate_preserving_exact en seeds cs cal) \<subseteq> set seeds"
proof -
  have "set (semantic_validate en tail cs cal) \<subseteq> set tail" for tail
    using semantic_validate_sub[of en tail cs cal] by (metis set_mset_mono set_mset_mset)
  from this[of "filter (\<lambda>s. \<not> is_exact s) seeds"] show ?thesis
    by (auto simp: semantic_validate_preserving_exact_def partition_filter_conv comp_def)
qed

lemma callee_permitted:
  assumes "reads_graph g db" "s \<in> set (anchor_callee_seeds db F anchors existing)"
  shows "permitted g F (sd_node s)"
proof -
  obtain nodes n where n: "ss_nodes db (callee_ids db anchors existing) = Inr nodes" "n \<in> set nodes" "allows F n" "sd_node s = gn_id n"
    using assms(2)
    by (auto simp: anchor_callee_seeds_def Let_def by_score_def split: sum.splits if_splits dest!: in_set_takeD)
  with assms(1) have "g (gn_id n) = Some n"
    unfolding reads_graph_def by (metis result_or.simps(2))
  with n show ?thesis by (auto simp: permitted_def)
qed

lemma gate_permitted:
  assumes "reads_graph g db" "\<forall>s\<in>set seeds. permitted g F (sd_node s)" "s \<in> set (gate_and_extend en db F cal g1 cs seeds)"
  shows "permitted g F (sd_node s)"
  using assms callee_permitted[OF assms(1)] by (auto simp: gate_and_extend_def Let_def split: if_splits)

lemma scale_nodes: "map sd_node (scale_by_cosine cal cs seeds) = map sd_node seeds"
  by (auto simp: scale_by_cosine_def split: option.splits)

lemma float_nodes: "map sd_node (float_exact en cal cs g1 specific seeds) = map sd_node seeds"
  by (auto simp: float_exact_def Let_def)

lemma weigh_nodes: "map sd_node (weigh_by_rerank en mf seeds) = map sd_node seeds"
  by (auto simp: weigh_by_rerank_def split: option.splits)

lemma attach_nodes: "map sd_node (attach_scores seeds rs) = map sd_node seeds"
  by (induction seeds rs rule: attach_scores.induct) auto

lemma rerank_nodes: "sd_node ` set (fst (rerank_stage w db query g1 seeds)) = sd_node ` set seeds"
proof -
  have "sd_node ` set (attach_scores (take k seeds) rs @ drop k seeds) = sd_node ` set seeds" for k rs
    by (metis attach_nodes append_take_drop_id list.set_map map_append)
  then show ?thesis
    by (auto simp: rerank_stage_def sort_seeds_post_rerank_def Let_def split: option.splits sum.splits)
qed

lemma same_nodes: "map sd_node xs = map sd_node ys \<Longrightarrow> sd_node ` set xs = sd_node ` set ys"
  by (metis list.set_map)

lemma seed_stages_permitted:
  assumes "reads_graph g db"
    "\<forall>i\<in>fst ` set anchors \<union> fst ` set lexical \<union> fst ` set knn. permitted g F i"
    "s \<in> set (weigh_by_rerank en mf (fst (rerank_stage w db query g1 (float_exact en cal cs g1 specific
           (scale_by_cosine cal cs (gate_and_extend en db F cal g1 cs
             (if g1 then fused_seeds en st anchors lexical knn
              else semantic_validate_preserving_exact en (fused_seeds en st anchors lexical knn) cs cal)))))))"
  shows "permitted g F (sd_node s)"
proof -
  let ?fused = "fused_seeds en st anchors lexical knn"
  let ?valid = "if g1 then ?fused else semantic_validate_preserving_exact en ?fused cs cal"
  let ?gated = "gate_and_extend en db F cal g1 cs ?valid"
  have "sd_node ` set ?fused = fst ` set (fuse en st anchors lexical knn)"
    by (metis fused_seeds_nodes list.set_map)
  then have fused: "permitted g F (sd_node x)" if "x \<in> set ?fused" for x
    using subsetD[OF fuse_ids, of "sd_node x" en st anchors lexical knn] imageI[OF that, of sd_node]
      bspec[OF assms(2), of "sd_node x"] by simp
  have "\<forall>x\<in>set ?valid. permitted g F (sd_node x)"
    using subsetD[OF validate_nodes[of en ?fused cs cal]] fused by (simp split: if_split)
  with gate_permitted[OF assms(1)] have gated: "\<forall>x\<in>set ?gated. permitted g F (sd_node x)" by blast
  have "sd_node s \<in> sd_node ` set ?gated"
    using imageI[OF assms(3), of sd_node]
    by (simp only: same_nodes[OF weigh_nodes] rerank_nodes same_nodes[OF float_nodes] same_nodes[OF scale_nodes])
  then obtain y where "sd_node s = sd_node y" "y \<in> set ?gated" by (rule imageE)
  with bspec[OF gated, of y] show ?thesis by simp
qed


lemma sample_seeds:
  "map sd_node (st_seeds (build_seed_set sample_world sample_reads ''scan'' (rbac_filter {''app''}) [] [] None)) = [1]"
  by code_simp


subsection \<open>Literal matches against neighbours\<close>

lemma max_or_ge: "x \<in> set xs \<Longrightarrow> x \<le> max_or b xs"
proof -
  have acc: "b \<le> max_or b xs" for b xs
    unfolding max_or_def by (induction xs arbitrary: b) (auto, metis max.bounded_iff)
  show "x \<in> set xs \<Longrightarrow> x \<le> max_or b xs"
  proof (induction xs arbitrary: b)
    case (Cons y xs)
    then show ?case using acc[of "max y b" xs] by (auto simp: max_or_def)
  qed simp
qed

text \<open>After the float every exact seed the query specifically names, and that the embedding oracle does
  not contradict, weighs at least one and a half times every seed that is not exact.\<close>

lemma exact_floats_first:
  assumes "a \<in> set (float_exact en cal cs g1 specific seeds)" "is_exact a" "0 \<le> sd_weight a"
    "g1 \<or> sd_node a \<in> specific"
    "oracle_top cs < cal_map cal SEMANTIC_ORACLE_MIN \<or> cosine_floor cal (oracle_top cs) \<le> entry_or (sd_node a) 0 cs"
    "b \<in> set (float_exact en cal cs g1 specific seeds)" "\<not> is_exact b"
  shows "EXACT_SEED_PRIORITY * sd_weight b \<le> sd_weight a"
proof -
  define m where "m = max_or 0 (map sd_weight (filter (\<lambda>s. \<not> is_exact s) seeds))"
  show ?thesis
  proof (cases "0 < m")
    case True
    let ?up = "\<lambda>s. if is_exact s \<and> (g1 \<or> sd_node s \<in> specific)
                \<and> (oracle_top cs < cal_map cal SEMANTIC_ORACLE_MIN
                    \<or> cosine_floor cal (oracle_top cs) \<le> entry_or (sd_node s) 0 cs)
              then s\<lparr>sd_weight := max (sd_weight s) (m * EXACT_SEED_PRIORITY)\<rparr> else s"
    have out: "float_exact en cal cs g1 specific seeds = map ?up seeds"
      using True unfolding float_exact_def m_def[symmetric] Let_def by (simp only: if_True)
    obtain a' where a': "a' \<in> set seeds" "a = ?up a'" using assms(1) unfolding out by auto
    have same: "sd_node a = sd_node a'" "is_exact a = is_exact a'" by (simp_all add: a'(2) is_exact_def)
    then have "sd_weight a = max (sd_weight a') (m * EXACT_SEED_PRIORITY)"
      using a'(2) assms(2,4,5) by simp
    moreover obtain b' where b': "b' \<in> set seeds" "b = ?up b'" using assms(6) unfolding out by auto
    then have "b = b'" using assms(7) by (auto simp: is_exact_def split: if_splits)
    then have "sd_weight b \<le> m" using b'(1) assms(7) by (auto simp: m_def intro!: max_or_ge)
    ultimately show ?thesis by (simp add: EXACT_SEED_PRIORITY_def max_def)
  next
    case False
    then have "float_exact en cal cs g1 specific seeds = seeds"
      by (simp add: float_exact_def m_def Let_def)
    then have "sd_weight b \<in> set (map sd_weight (filter (\<lambda>s. \<not> is_exact s) seeds))" using assms(6,7) by auto
    from max_or_ge[OF this, of 0] False have "sd_weight b \<le> 0" by (simp add: m_def)
    then show ?thesis using assms(3) by (simp add: EXACT_SEED_PRIORITY_def)
  qed
qed

definition named_seed :: seed where
  "named_seed = \<lparr>sd_node = 7, sd_weight = 1, sd_source = Src_Exact, sd_score = 1, sd_rerank = None\<rparr>"

lemma exact_floats_first_witness:
  "EXACT_SEED_PRIORITY * sd_weight near_seed \<le> sd_weight (named_seed\<lparr>sd_weight := 3 / 2\<rparr>)"
proof (rule exact_floats_first)
  show "named_seed\<lparr>sd_weight := 3 / 2\<rparr> \<in> set (float_exact default_env IDENTITY [] True {} [named_seed, near_seed])"
    "near_seed \<in> set (float_exact default_env IDENTITY [] True {} [named_seed, near_seed])"
    by (simp_all add: float_exact_def named_seed_def near_seed_def is_exact_def max_or_def EXACT_SEED_PRIORITY_def
        oracle_top_def SEMANTIC_ORACLE_MIN_def cal_map_identity)
  show "oracle_top [] < cal_map IDENTITY SEMANTIC_ORACLE_MIN \<or>
      cosine_floor IDENTITY (oracle_top []) \<le> entry_or (sd_node (named_seed\<lparr>sd_weight := 3 / 2\<rparr>)) 0 []"
    by (simp add: oracle_top_def SEMANTIC_ORACLE_MIN_def cal_map_identity)
qed (simp_all add: named_seed_def near_seed_def is_exact_def)

text \<open>The multiplier of the cross-encoder comes after the float and reaches two, so a neighbour the model
  likes passes the literal match it was floated under.\<close>

lemma neighbour_overtakes:
  "map sd_weight (weigh_by_rerank default_env \<lparr>rf_strong = None, rf_weak = None\<rparr>
     (map (\<lambda>s. if is_exact s then s else s\<lparr>sd_rerank := Some 1\<rparr>)
       (float_exact default_env IDENTITY [] True {} [named_seed, near_seed]))) = [3 / 2, 2]"
proof -
  have floated: "float_exact default_env IDENTITY [] True {} [named_seed, near_seed]
      = [named_seed\<lparr>sd_weight := 3 / 2\<rparr>, near_seed]"
    by (simp add: float_exact_def named_seed_def near_seed_def is_exact_def max_or_def EXACT_SEED_PRIORITY_def
        oracle_top_def SEMANTIC_ORACLE_MIN_def cal_map_identity)
  have "rerank_ppr_multiplier 1 x = 2" for x
    by (simp add: rerank_ppr_multiplier_def clamp_def Let_def)
  moreover have "rerank_ppr_weight_enabled default_env"
    by (simp add: rerank_ppr_weight_enabled_def switched_off_def default_env_def)
  ultimately show ?thesis
    by (simp add: floated weigh_by_rerank_def) (simp add: named_seed_def near_seed_def is_exact_def)
qed

subsection \<open>The weight of an anchor\<close>

text \<open>A node two tokens anchor keeps the smaller of its weights: the pairs are sorted by falling weight
  and the last one of a key survives the collection.\<close>

lemma map_of_rev_least:
  assumes "sorted (map (\<lambda>p. - snd p) (raw :: ranked))" "(i, x) \<in> set raw"
  shows "\<exists>y. map_of (rev raw) i = Some y \<and> y \<le> x"
  using assms
proof (induction raw rule: rev_induct)
  case (snoc p raw)
  obtain k v where p: "p = (k, v)" by (cases p)
  from snoc.prems have "i = k \<and> x = v \<or> (i, x) \<in> set raw" "\<forall>q\<in>set raw. - snd q \<le> - v" "sorted (map (\<lambda>p. - snd p) raw)"
    by (auto simp: p sorted_append)
  with snoc.IH show ?case by (auto simp: p)
qed simp

lemma anchor_weight_is_least:
  assumes "(i, x) \<in> set raw"
  shows "\<exists>y. collect_map (sort_key (\<lambda>p. - snd p) raw) i = Some y \<and> y \<le> x"
  unfolding collect_map_def by (rule map_of_rev_least) (simp_all add: assms)

end
