(* ===== verification/Repo_Registry.thy ===== *)
theory Repo_Registry
  imports Rust_Path "HOL-Library.AList" "HOL-Library.Countable"
begin

section \<open>The global registry of repositories\<close>

text \<open>
  \<open>crates/travsr-store/src/registry.rs\<close>: the file \<open>~/.travsr/registry.json\<close> from repository names to the
  paths of their graphs, with what it records of a repository's indexing.

  A \<open>HashMap\<close> is an association list with distinct keys whose order is the map's order of iteration. The
  file is its text, or \<open>None\<close> where it cannot be read. Paths are UTF-8 text. \<open>serde_json\<close> is a pair of a
  printer and a parser of JSON values; the write is one step, which either leaves the old file and fails
  or puts the new one in place, as the rename does.
\<close>

subsection \<open>Names\<close>

definition VERBATIM :: string where "VERBATIM = [backslash, backslash, CHR ''?'', backslash]"

definition VERBATIM_UNC :: string where "VERBATIM_UNC = VERBATIM @ ''UNC'' @ [backslash]"

definition strip_verbatim_prefix :: "string \<Rightarrow> string" where
  "strip_verbatim_prefix p =
     (case strip_prefix p VERBATIM_UNC of
        Some rest \<Rightarrow> [backslash, backslash] @ rest
      | None \<Rightarrow> (case strip_prefix p VERBATIM of Some rest \<Rightarrow> rest | None \<Rightarrow> p))"

definition trim_seps :: "string \<Rightarrow> string" where
  "trim_seps s = rev (dropWhile is_sep (rev s))"

definition display_name :: "string \<Rightarrow> string" where
  "display_name key =
     (let cleaned = strip_verbatim_prefix key;
          base = last (split_on is_sep (trim_seps cleaned))
      in if base = [] then cleaned else base)"

subsection \<open>Rows\<close>

datatype index_history = Untracked | NeverIndexed | IndexedAt "64 word"

record repo_entry =
  re_db_path :: string
  re_index_history :: index_history

datatype index_status = Indexed | IndexMissing | NotIndexed | Unknown

fun status_as_str :: "index_status \<Rightarrow> string" where
  "status_as_str Indexed = ''indexed''"
| "status_as_str IndexMissing = ''index_missing''"
| "status_as_str NotIndexed = ''not_indexed''"
| "status_as_str Unknown = ''unknown''"

fun status_label :: "index_status \<Rightarrow> string" where
  "status_label Indexed = ''yes''"
| "status_label IndexMissing = ''no (index deleted)''"
| "status_label NotIndexed = ''no (never indexed)''"
| "status_label Unknown = ''no (unknown)''"

definition entry_status :: "(string \<Rightarrow> bool) \<Rightarrow> repo_entry \<Rightarrow> index_status" where
  "entry_status on_disk entry =
     (if on_disk (re_db_path entry) then Indexed
      else case re_index_history entry of
             IndexedAt _ \<Rightarrow> IndexMissing
           | NeverIndexed \<Rightarrow> NotIndexed
           | Untracked \<Rightarrow> Unknown)"

definition json_get :: "string \<Rightarrow> (string \<times> json) list \<Rightarrow> json option" where
  "json_get k members = map_of members k"

definition as_u64 :: "json \<Rightarrow> 64 word option" where
  "as_u64 v = (case v of JNumber t \<Rightarrow> map_option word_of_nat (parse_uint u64_max t) | _ \<Rightarrow> None)"

definition parse_entry :: "json \<Rightarrow> repo_entry option" where
  "parse_entry v =
     (case v of
        JString db_path \<Rightarrow> Some \<lparr>re_db_path = db_path, re_index_history = Untracked\<rparr>
      | JObject row \<Rightarrow>
          (case json_get ''db_path'' row of
             Some (JString db_path) \<Rightarrow>
               Some \<lparr>re_db_path = db_path,
                     re_index_history = (case Option.bind (json_get ''indexed_at'' row) as_u64 of
                        Some secs \<Rightarrow> IndexedAt secs | None \<Rightarrow> NeverIndexed)\<rparr>
           | _ \<Rightarrow> None)
      | _ \<Rightarrow> None)"

definition entry_to_json :: "repo_entry \<Rightarrow> json" where
  "entry_to_json entry =
     (case re_index_history entry of
        Untracked \<Rightarrow> JString (re_db_path entry)
      | NeverIndexed \<Rightarrow> JObject [(''db_path'', JString (re_db_path entry))]
      | IndexedAt secs \<Rightarrow> JObject [(''db_path'', JString (re_db_path entry)), (''indexed_at'', JNumber (show_nat (unat secs)))])"

subsection \<open>The file\<close>

type_synonym repo_table = "(string \<times> repo_entry) list"

record registry_io =
  ri_ser :: "json \<Rightarrow> string"
  ri_de :: "string \<Rightarrow> json option"
  ri_lock :: bool
  ri_write :: bool

definition table_of_json :: "json \<Rightarrow> repo_table option" where
  "table_of_json v =
     (case v of
        JObject members \<Rightarrow>
          (case json_get ''repos'' members of
             Some (JObject repos) \<Rightarrow> Some (List.map_filter (\<lambda>(k, row). map_option (Pair k) (parse_entry row)) repos)
           | _ \<Rightarrow> None)
      | _ \<Rightarrow> None)"

definition read_registry :: "registry_io \<Rightarrow> string option \<Rightarrow> repo_table option" where
  "read_registry io file = Option.bind (Option.bind file (ri_de io)) table_of_json"

text \<open>A \<open>serde_json::Map\<close> is kept and printed in the order of its keys.\<close>

definition json_of_table :: "repo_table \<Rightarrow> json" where
  "json_of_table repos = JObject [(''repos'', JObject (map (\<lambda>(k, entry). (k, entry_to_json entry)) (sort_key fst repos)))]"

definition write_registry_atomic :: "registry_io \<Rightarrow> repo_table \<Rightarrow> string option \<Rightarrow> string option \<times> (unit, unit) rust_result" where
  "write_registry_atomic io repos file =
     (if ri_write io
      then (Some (ri_ser io (json_of_table repos)), Inr ())
      else (file, Inl ()))"

definition table_or_empty :: "repo_table option \<Rightarrow> repo_table" where
  "table_or_empty t = (case t of Some repos \<Rightarrow> repos | None \<Rightarrow> [])"

definition all_entries :: "registry_io \<Rightarrow> string option \<Rightarrow> repo_table" where
  "all_entries io file = table_or_empty (read_registry io file)"

definition all_repos :: "registry_io \<Rightarrow> string option \<Rightarrow> (string \<times> string) list" where
  "all_repos io file = map (\<lambda>(name, entry). (name, re_db_path entry)) (all_entries io file)"

subsection \<open>Operations\<close>

definition same_repo :: "string \<Rightarrow> string \<Rightarrow> bool" where
  "same_repo name k \<longleftrightarrow> strip_verbatim_prefix k = name"

definition history_of :: "string \<Rightarrow> repo_table \<Rightarrow> index_history" where
  "history_of name repos =
     (case find (\<lambda>(k, _). same_repo name k) repos of
        Some (_, entry) \<Rightarrow> re_index_history entry | None \<Rightarrow> NeverIndexed)"

definition upsert_row :: "string \<Rightarrow> string \<Rightarrow> repo_table \<Rightarrow> repo_table" where
  "upsert_row name db_path repos =
     AList.update name \<lparr>re_db_path = db_path, re_index_history = history_of name repos\<rparr>
       (filter (\<lambda>(k, _). \<not> same_repo name k) repos)"

definition register_repo :: "registry_io \<Rightarrow> string \<Rightarrow> string \<Rightarrow> string option \<Rightarrow> string option \<times> (unit, unit) rust_result" where
  "register_repo io repo_name db_path file =
     (if \<not> ri_lock io then (file, Inl ())
      else write_registry_atomic io
             (upsert_row (strip_verbatim_prefix repo_name) (strip_verbatim_prefix db_path) (table_or_empty (read_registry io file)))
             file)"

definition stamp :: "64 word \<Rightarrow> string \<Rightarrow> repo_table \<Rightarrow> repo_table" where
  "stamp now key repos = AList.map_entry key (\<lambda>entry. entry\<lparr>re_index_history := IndexedAt now\<rparr>) repos"

definition mark_indexed :: "registry_io \<Rightarrow> 64 word \<Rightarrow> string \<Rightarrow> string option \<Rightarrow> string option \<times> (unit, unit) rust_result" where
  "mark_indexed io now repo_name file =
     (if \<not> ri_lock io then (file, Inl ())
      else (let key = strip_verbatim_prefix repo_name
            in case read_registry io file of
                 None \<Rightarrow> (file, Inr ())
               | Some repos \<Rightarrow>
                   (if map_of repos key = None then (file, Inr ())
                    else write_registry_atomic io (stamp now key repos) file)))"

text \<open>Reading is a step of its own here and in the next two: no lock is held between the read of the table
  and the write.\<close>

definition unregister_with :: "registry_io \<Rightarrow> repo_table option \<Rightarrow> string \<Rightarrow> string option \<Rightarrow> string option \<times> (unit, bool) rust_result" where
  "unregister_with io seen repo_name file =
     (case seen of
        None \<Rightarrow> (file, Inr False)
      | Some repos \<Rightarrow>
          (if map_of repos repo_name = None then (file, Inr False)
           else (let (file', r) = write_registry_atomic io (AList.delete repo_name repos) file
                 in (file', map_sum id (\<lambda>_. True) r))))"

definition unregister :: "registry_io \<Rightarrow> string \<Rightarrow> string option \<Rightarrow> string option \<times> (unit, bool) rust_result" where
  "unregister io repo_name file = unregister_with io (read_registry io file) repo_name file"

datatype unregister_result = Removed | NotFound | Ambiguous "string list"

definition remove_key :: "registry_io \<Rightarrow> string \<Rightarrow> repo_table \<Rightarrow> string option
    \<Rightarrow> string option \<times> (unit, unregister_result) rust_result" where
  "remove_key io k repos file =
     (let (file', r) = write_registry_atomic io (AList.delete k repos) file
      in (file', map_sum id (\<lambda>_. Removed) r))"

definition unregister_resolving :: "registry_io \<Rightarrow> string \<Rightarrow> string option
    \<Rightarrow> string option \<times> (unit, unregister_result) rust_result" where
  "unregister_resolving io name file =
     (case read_registry io file of
        None \<Rightarrow> (file, Inr NotFound)
      | Some repos \<Rightarrow>
          (if map_of repos name \<noteq> None then remove_key io name repos file
           else (let target = strip_verbatim_prefix name
                 in case filter (same_repo target) (map fst repos) of
                      [k] \<Rightarrow> remove_key io k repos file
                    | _ \<Rightarrow>
                        (let base_matches = filter (\<lambda>k. display_name k = name) (map fst repos)
                         in case base_matches of
                              [] \<Rightarrow> (file, Inr NotFound)
                            | [k] \<Rightarrow> remove_key io k repos file
                            | _ \<Rightarrow> (file, Inr (Ambiguous (map strip_verbatim_prefix base_matches)))))))"

definition prune_with :: "registry_io \<Rightarrow> (string \<Rightarrow> bool) \<Rightarrow> repo_table option \<Rightarrow> string option
    \<Rightarrow> string option \<times> (unit, string list) rust_result" where
  "prune_with io on_disk seen file =
     (case seen of
        None \<Rightarrow> (file, Inr [])
      | Some repos \<Rightarrow>
          (let (kept, removed) = partition (\<lambda>(_, entry). on_disk (re_db_path entry)) repos;
               names = map fst removed
           in if names = [] then (file, Inr [])
              else (let (file', r) = write_registry_atomic io kept file
                    in (file', map_sum id (\<lambda>_. sort names) r))))"

definition prune :: "registry_io \<Rightarrow> (string \<Rightarrow> bool) \<Rightarrow> string option \<Rightarrow> string option \<times> (unit, string list) rust_result" where
  "prune io on_disk file = prune_with io on_disk (read_registry io file) file"

subsection \<open>Reading back\<close>

text \<open>What is relied on of \<open>serde_json\<close>: an object whose keys are in order is read as it was printed.\<close>

definition registry_text_ok :: "registry_io \<Rightarrow> bool" where
  "registry_text_ok io \<longleftrightarrow>
     (\<forall>rows. sorted_wrt (<) (map fst rows) \<longrightarrow>
        ri_de io (ri_ser io (JObject [(''repos'', JObject rows)])) = Some (JObject [(''repos'', JObject rows)]))"

text \<open>A codec of rows reads a whole table of rows back.\<close>

locale row_codec =
  fixes enc :: "'a \<Rightarrow> 'j" and dec :: "'j \<Rightarrow> 'a option"
  assumes dec_enc: "dec (enc x) = Some x"
begin

lemma rows_back:
  "List.map_filter (\<lambda>(k, row). map_option (Pair k) (dec row)) (map (\<lambda>(k, x). (k, enc x)) xs) = xs"
  by (induction xs) (auto simp: List.map_filter_simps dec_enc)

end

lemma u64_text: "parse_uint u64_max (show_nat (unat (w :: 64 word))) = Some (unat w)"
proof (rule parse_uint_show)
  have "unat w < 2 ^ LENGTH(64)" by (rule unsigned_less)
  then show "unat w \<le> u64_max" by (simp add: u64_max_def)
qed

interpretation row: row_codec entry_to_json parse_entry
proof
  show "parse_entry (entry_to_json e) = Some e" for e
    by (cases e)
      (simp add: parse_entry_def entry_to_json_def json_get_def as_u64_def u64_text split: index_history.split)
qed

lemma sort_key_strict: "distinct (map fst xs) \<Longrightarrow> sorted_wrt (<) (map fst (sort_key fst xs))"
  by (rule strict_sorted_iff[THEN iffD2]) (simp add: distinct_map)

lemma map_of_sort_key: "distinct (map fst xs) \<Longrightarrow> map_of (sort_key fst xs) = map_of xs"
  by (subst map_of_inject_set) (simp_all add: distinct_map)

lemma read_back:
  assumes "registry_text_ok io" "distinct (map fst repos)"
  shows "read_registry io (Some (ri_ser io (json_of_table repos))) = Some (sort_key fst repos)"
proof -
  have "sorted_wrt (<) (map fst (map (\<lambda>(k, entry). (k, entry_to_json entry)) (sort_key fst repos)))"
    using sort_key_strict[OF assms(2)] by (simp add: comp_def case_prod_beta)
  with assms(1) show ?thesis
    by (simp add: read_registry_def registry_text_ok_def json_of_table_def table_of_json_def json_get_def row.rows_back)
qed

text \<open>The table after a write, as a function of the table written.\<close>

lemma written_entries:
  assumes "registry_text_ok io" "ri_write io" "distinct (map fst repos)"
  shows "snd (write_registry_atomic io repos file) = Inr ()"
    "map_of (all_entries io (fst (write_registry_atomic io repos file))) = map_of repos"
    "distinct (map fst (all_entries io (fst (write_registry_atomic io repos file))))"
  using assms(2) read_back[OF assms(1,3)] assms(3)
  by (simp_all add: write_registry_atomic_def all_entries_def table_or_empty_def map_of_sort_key distinct_map)

subsection \<open>What the operations do to the table\<close>

definition registry_ok :: "registry_io \<Rightarrow> string option \<Rightarrow> bool" where
  "registry_ok io file \<longleftrightarrow> distinct (map fst (all_entries io file))"

lemma distinct_update: "distinct (map fst xs) \<Longrightarrow> distinct (map fst (AList.update k v xs))"
  by (rule distinct_update)

lemma distinct_keys_filter: "distinct (map fst xs) \<Longrightarrow> distinct (map fst (filter P xs))"
  by (rule distinct_map_filter)

lemma map_of_filter_key: "map_of (filter (\<lambda>(k, _). P k) xs) k = (if P k then map_of xs k else None)"
  by (induction xs) auto

lemma upsert_lookup:
  "map_of (upsert_row name db_path repos) k =
     (if k = name then Some \<lparr>re_db_path = db_path, re_index_history = history_of name repos\<rparr>
      else if same_repo name k then None else map_of repos k)"
  using map_of_filter_key[of "\<lambda>k. \<not> same_repo name k" repos k] by (simp add: upsert_row_def update_conv)

lemma upsert_distinct: "distinct (map fst repos) \<Longrightarrow> distinct (map fst (upsert_row name db_path repos))"
  unfolding upsert_row_def by (intro distinct_update distinct_keys_filter)

text \<open>C21: Registering a repository puts exactly one row for it in the table the next reader sees, under the
  cleaned name and path and with the indexing history its old row had in either spelling, removes the
  other spellings, and leaves every other row.\<close>

theorem register_spec:
  assumes "registry_text_ok io" "ri_lock io" "ri_write io" "registry_ok io file"
  shows "snd (register_repo io repo_name db_path file) = Inr () \<and>
    registry_ok io (fst (register_repo io repo_name db_path file)) \<and>
    (\<forall>k. map_of (all_entries io (fst (register_repo io repo_name db_path file))) k =
       (if k = strip_verbatim_prefix repo_name
        then Some \<lparr>re_db_path = strip_verbatim_prefix db_path,
                   re_index_history = history_of (strip_verbatim_prefix repo_name) (all_entries io file)\<rparr>
        else if same_repo (strip_verbatim_prefix repo_name) k then None
        else map_of (all_entries io file) k))"
proof -
  let ?new = "upsert_row (strip_verbatim_prefix repo_name) (strip_verbatim_prefix db_path) (all_entries io file)"
  have "distinct (map fst ?new)" using assms(4) by (simp add: registry_ok_def upsert_distinct)
  note w = written_entries[OF assms(1,3) this]
  have "register_repo io repo_name db_path file = write_registry_atomic io ?new file"
    using assms(2) by (simp add: register_repo_def all_entries_def)
  with w show ?thesis by (simp add: registry_ok_def upsert_lookup)
qed

text \<open>A corrupt or unreadable registry counts as an empty one, and the next registration replaces it.\<close>

lemma register_over_unreadable:
  assumes "registry_text_ok io" "ri_lock io" "ri_write io" "read_registry io file = None"
  shows "all_entries io (fst (register_repo io repo_name db_path file)) =
    [(strip_verbatim_prefix repo_name, \<lparr>re_db_path = strip_verbatim_prefix db_path, re_index_history = NeverIndexed\<rparr>)]"
proof -
  let ?row = "[(strip_verbatim_prefix repo_name,
      \<lparr>re_db_path = strip_verbatim_prefix db_path, re_index_history = NeverIndexed\<rparr>)]"
  have "register_repo io repo_name db_path file = write_registry_atomic io ?row file"
    using assms(2,4) by (simp add: register_repo_def upsert_row_def table_or_empty_def history_of_def)
  with assms(3) read_back[OF assms(1), of ?row] show ?thesis
    by (simp add: write_registry_atomic_def all_entries_def table_or_empty_def)
qed

lemma stamp_lookup:
  "map_of (stamp now key repos) k =
     (if k = key then map_option (\<lambda>e. e\<lparr>re_index_history := IndexedAt now\<rparr>) (map_of repos k) else map_of repos k)"
  by (simp add: stamp_def map_of_map_entry split: option.split)

lemma stamp_distinct: "distinct (map fst repos) \<Longrightarrow> distinct (map fst (stamp now key repos))"
  unfolding stamp_def by (rule distinct_map_entry)

lemma mark_indexed_lookup:
  assumes "registry_text_ok io" "ri_lock io" "ri_write io" "registry_ok io file"
  shows "snd (mark_indexed io now name file) = Inr ()"
    "registry_ok io (fst (mark_indexed io now name file))"
    "map_of (all_entries io (fst (mark_indexed io now name file))) k =
       (if k = strip_verbatim_prefix name
        then map_option (\<lambda>e. e\<lparr>re_index_history := IndexedAt now\<rparr>) (map_of (all_entries io file) k)
        else map_of (all_entries io file) k)"
proof -
  let ?key = "strip_verbatim_prefix name"
  have "snd (mark_indexed io now name file) = Inr () \<and> registry_ok io (fst (mark_indexed io now name file)) \<and>
    map_of (all_entries io (fst (mark_indexed io now name file))) k =
       (if k = ?key then map_option (\<lambda>e. e\<lparr>re_index_history := IndexedAt now\<rparr>) (map_of (all_entries io file) k)
        else map_of (all_entries io file) k)"
  proof (cases "read_registry io file")
    case None
    then show ?thesis using assms(2,4) by (simp add: mark_indexed_def all_entries_def table_or_empty_def)
  next
    case (Some repos)
    then have all: "all_entries io file = repos" by (simp add: all_entries_def table_or_empty_def)
    show ?thesis
    proof (cases "map_of repos ?key")
      case None
      then show ?thesis using assms(2,4) Some by (simp add: mark_indexed_def all)
    next
      case (Some e)
      have "distinct (map fst (stamp now ?key repos))" using assms(4) all by (simp add: registry_ok_def stamp_distinct)
      note w = written_entries[OF assms(1,3) this]
      have "mark_indexed io now name file = write_registry_atomic io (stamp now ?key repos) file"
        using assms(2) \<open>read_registry io file = Some repos\<close> Some by (simp add: mark_indexed_def)
      with w show ?thesis by (simp add: registry_ok_def all stamp_lookup)
    qed
  qed
  then show "snd (mark_indexed io now name file) = Inr ()"
    "registry_ok io (fst (mark_indexed io now name file))"
    "map_of (all_entries io (fst (mark_indexed io now name file))) k =
       (if k = ?key then map_option (\<lambda>e. e\<lparr>re_index_history := IndexedAt now\<rparr>) (map_of (all_entries io file) k)
        else map_of (all_entries io file) k)"
    by blast+
qed

definition status_in :: "registry_io \<Rightarrow> (string \<Rightarrow> bool) \<Rightarrow> string \<Rightarrow> string option \<Rightarrow> index_status option" where
  "status_in io on_disk name file = map_option (entry_status on_disk) (map_of (all_entries io file) name)"

lemma history_of_unique:
  assumes "strip_verbatim_prefix name = name" "map_of repos name = Some e"
    "\<And>k. k \<noteq> name \<Longrightarrow> same_repo name k \<Longrightarrow> map_of repos k = None"
  shows "history_of name repos = re_index_history e"
proof -
  obtain p where p: "find (\<lambda>(k, _). same_repo name k) repos = Some p"
    using map_of_SomeD[OF assms(2)] assms(1) by (cases "find (\<lambda>(k, _). same_repo name k) repos")
      (auto simp: find_None_iff same_repo_def)
  obtain k e' where ke: "p = (k, e')" by (cases p)
  from p have mem: "(k, e') \<in> set repos" "same_repo name k" by (auto simp: ke find_Some_iff in_set_conv_nth)
  then have "k = name" using assms(3)[of k] by (metis domIff map_of_eq_None_iff fst_conv image_eqI)
  have "map_of repos name = Some e'" if "find (\<lambda>(k, _). same_repo name k) xs = Some (name, e')"
      "\<And>k. k \<noteq> name \<Longrightarrow> same_repo name k \<Longrightarrow> k \<notin> fst ` set xs" "map_of xs name = map_of repos name" for xs
    using that assms(1) by (induction xs) (auto simp: same_repo_def split: if_splits)
  from this[of repos] p ke \<open>k = name\<close> assms(2,3) show ?thesis
    by (simp add: history_of_def map_of_eq_None_iff)
qed

text \<open>A deleted index is told from one that never was: once an index run has been recorded, registering
  the repository again keeps the record, so a listing without the graph on disk answers that the index is
  missing, and not that the repository was never indexed.\<close>

lemma deleted_index_is_reported:
  assumes "registry_text_ok io" "ri_lock io" "ri_write io" "registry_ok io file"
    "strip_verbatim_prefix name = name" "\<not> on_disk (strip_verbatim_prefix db2)"
  shows "status_in io on_disk name
    (fst (register_repo io name db2 (fst (mark_indexed io now name (fst (register_repo io name db1 file)))))) = Some IndexMissing"
proof -
  note ok = assms(1-3)
  let ?f1 = "fst (register_repo io name db1 file)"
  let ?f2 = "fst (mark_indexed io now name ?f1)"
  have f1: "registry_ok io ?f1" "\<And>k. map_of (all_entries io ?f1) k =
       (if k = name then Some \<lparr>re_db_path = strip_verbatim_prefix db1, re_index_history = history_of name (all_entries io file)\<rparr>
        else if same_repo name k then None else map_of (all_entries io file) k)"
    using register_spec[OF ok assms(4), of name db1] assms(5) by simp_all
  note f2 = mark_indexed_lookup[OF ok f1(1), of now name]
  have row: "map_of (all_entries io ?f2) name = Some \<lparr>re_db_path = strip_verbatim_prefix db1, re_index_history = IndexedAt now\<rparr>"
    using f2(3)[of name] f1(2)[of name] assms(5) by simp
  have "history_of name (all_entries io ?f2) = IndexedAt now"
    using history_of_unique[OF assms(5) row] f2(3) f1(2) assms(5) by simp
  with register_spec[OF ok f2(2), of name db2] assms(5,6) show ?thesis
    by (simp add: status_in_def entry_status_def)
qed

definition kept_rows :: "(string \<Rightarrow> bool) \<Rightarrow> repo_table \<Rightarrow> repo_table" where
  "kept_rows on_disk repos = filter (\<lambda>p. on_disk (re_db_path (snd p))) repos"

definition stale_names :: "(string \<Rightarrow> bool) \<Rightarrow> repo_table \<Rightarrow> string list" where
  "stale_names on_disk repos = map fst (filter (\<lambda>p. \<not> on_disk (re_db_path (snd p))) repos)"

lemma prune_with_Some:
  "prune_with io on_disk (Some repos) file =
     (if stale_names on_disk repos = [] then (file, Inr [])
      else (fst (write_registry_atomic io (kept_rows on_disk repos) file),
            map_sum id (\<lambda>_. sort (stale_names on_disk repos)) (snd (write_registry_atomic io (kept_rows on_disk repos) file))))"
  by (simp add: prune_with_def kept_rows_def stale_names_def partition_filter_conv comp_def case_prod_beta' Let_def)

text \<open>Pruning removes exactly the rows whose graph is not on disk, names them in order, and writes nothing
  when there are none.\<close>

lemma prune_spec:
  assumes "registry_text_ok io" "ri_write io" "registry_ok io file"
  shows "(\<exists>names. snd (prune io on_disk file) = Inr names \<and> sorted names \<and> distinct names \<and>
        set names = {k. \<exists>e. map_of (all_entries io file) k = Some e \<and> \<not> on_disk (re_db_path e)} \<and>
        (fst (prune io on_disk file) = file \<or> names \<noteq> [])) \<and>
    map_of (all_entries io (fst (prune io on_disk file))) =
      (\<lambda>k. case map_of (all_entries io file) k of
             Some e \<Rightarrow> if on_disk (re_db_path e) then Some e else None | None \<Rightarrow> None)"
proof (cases "read_registry io file")
  case None
  then have "all_entries io file = []" by (simp add: all_entries_def table_or_empty_def)
  with None show ?thesis by (simp add: prune_def prune_with_def)
next
  case (Some repos)
  have all: "all_entries io file = repos" using Some by (simp add: all_entries_def table_or_empty_def)
  then have dist: "distinct (map fst repos)" using assms(3) by (simp add: registry_ok_def)
  then have dk: "distinct (map fst (kept_rows on_disk repos))" "distinct (stale_names on_disk repos)"
    by (simp_all add: kept_rows_def stale_names_def distinct_keys_filter)
  have lookup: "map_of (kept_rows on_disk repos) k =
      (case map_of repos k of Some e \<Rightarrow> if on_disk (re_db_path e) then Some e else None | None \<Rightarrow> None)" for k
    using dist unfolding kept_rows_def by (induction repos) (auto split: option.split simp: map_of_eq_None_iff)
  have gone: "set (stale_names on_disk repos) = {k. \<exists>e. map_of repos k = Some e \<and> \<not> on_disk (re_db_path e)}"
    using dist by (auto simp: stale_names_def image_iff)
  show ?thesis
  proof (cases "stale_names on_disk repos = []")
    case True
    have "(case map_of repos k of Some e \<Rightarrow> if on_disk (re_db_path e) then Some e else None | None \<Rightarrow> None) = map_of repos k" for k
      using gone True by (auto split: option.split)
    with True gone show ?thesis by (simp add: prune_def Some prune_with_Some all)
  next
    case False
    note w = written_entries[OF assms(1,2) dk(1)]
    have "sort (stale_names on_disk repos) \<noteq> []" using False by (metis set_empty set_sort)
    then show ?thesis using False w dk(2) gone lookup by (simp add: prune_def Some prune_with_Some all fun_eq_iff)
  qed
qed

text \<open>The writers that take no lock lose updates: a prune that read the table before a registration and
  writes it back after, puts the repository registered in between out of the registry.\<close>

lemma unlocked_prune_loses_registration:
  assumes "registry_text_ok io" "ri_lock io" "ri_write io" "registry_ok io file"
    "map_of (all_entries io file) (strip_verbatim_prefix name) = None"
    "\<exists>(k, e)\<in>set (all_entries io file). \<not> on_disk (re_db_path e)"
  shows "map_of (all_entries io (fst (register_repo io name db file))) (strip_verbatim_prefix name) \<noteq> None \<and>
    map_of (all_entries io (fst (prune_with io on_disk (read_registry io file) (fst (register_repo io name db file)))))
      (strip_verbatim_prefix name) = None"
proof -
  let ?key = "strip_verbatim_prefix name" and ?f1 = "fst (register_repo io name db file)"
  obtain repos where repos: "read_registry io file = Some repos" "all_entries io file = repos"
    using assms(6) by (cases "read_registry io file") (auto simp: all_entries_def table_or_empty_def)
  have "distinct (map fst (kept_rows on_disk repos))"
    using assms(4) repos(2) by (simp add: kept_rows_def registry_ok_def distinct_keys_filter)
  note w = written_entries[OF assms(1,3) this]
  have "stale_names on_disk repos \<noteq> []"
    using assms(6) repos(2) by (force simp: stale_names_def filter_empty_conv)
  moreover have "map_of (kept_rows on_disk repos) ?key = None"
    using assms(5) repos(2) by (auto simp: kept_rows_def map_of_eq_None_iff)
  ultimately show ?thesis using w register_spec[OF assms(1-4), of name db] by (simp add: repos(1) prune_with_Some)
qed

subsection \<open>Removing by name\<close>

definition cleaned_matches :: "string \<Rightarrow> repo_table \<Rightarrow> string list" where
  "cleaned_matches name repos = filter (same_repo (strip_verbatim_prefix name)) (map fst repos)"

definition base_matches :: "string \<Rightarrow> repo_table \<Rightarrow> string list" where
  "base_matches name repos = filter (\<lambda>k. display_name k = name) (map fst repos)"

text \<open>The row a name stands for: its own key, else the one key that cleans to the same path, else the one
  key displayed by that name.\<close>

definition resolve_name :: "string \<Rightarrow> repo_table \<Rightarrow> string option" where
  "resolve_name name repos =
     (if map_of repos name \<noteq> None then Some name
      else case cleaned_matches name repos of [k] \<Rightarrow> Some k
           | _ \<Rightarrow> (case base_matches name repos of [k] \<Rightarrow> Some k | _ \<Rightarrow> None))"

lemma singleton_mem: "xs = [k] \<Longrightarrow> k \<in> set xs" by simp

lemma resolve_name_key: "resolve_name name repos = Some k \<Longrightarrow> k \<in> fst ` set repos"
proof -
  assume r: "resolve_name name repos = Some k"
  have "k = name \<and> map_of repos name \<noteq> None \<or> cleaned_matches name repos = [k] \<or> base_matches name repos = [k]"
    using r unfolding resolve_name_def by (auto split: if_splits list.splits)
  then show ?thesis
  proof (elim disjE)
    assume "k = name \<and> map_of repos name \<noteq> None"
    then show ?thesis by (simp add: map_of_eq_None_iff)
  next
    assume "cleaned_matches name repos = [k]"
    from singleton_mem[OF this] show ?thesis by (simp add: cleaned_matches_def)
  next
    assume "base_matches name repos = [k]"
    from singleton_mem[OF this] show ?thesis by (simp add: base_matches_def)
  qed
qed

lemma unregister_resolving_cases:
  "unregister_resolving io name file =
     (case read_registry io file of None \<Rightarrow> (file, Inr NotFound)
      | Some repos \<Rightarrow>
          (case resolve_name name repos of
             Some k \<Rightarrow> remove_key io k repos file
           | None \<Rightarrow> (file, Inr (if base_matches name repos = [] then NotFound
                                else Ambiguous (map strip_verbatim_prefix (base_matches name repos))))))"
proof (cases "read_registry io file")
  case (Some repos)
  have "(case xs of [k] \<Rightarrow> f k | _ \<Rightarrow> g) = (case (case xs of [k] \<Rightarrow> Some k | _ \<Rightarrow> None) of Some k \<Rightarrow> f k | None \<Rightarrow> g)"
    for f :: "string \<Rightarrow> 'c" and g and xs :: "string list"
    by (simp split: list.split)
  show ?thesis
    unfolding unregister_resolving_def Some resolve_name_def cleaned_matches_def[symmetric] base_matches_def[symmetric] Let_def
    by (simp split: list.split option.split)
qed (simp add: unregister_resolving_def)

text \<open>Removing a repository by name takes out the one row the name stands for and nothing else; a name
  that several rows are displayed by removes nothing and answers all of their paths, and a name that
  stands for no row changes nothing.\<close>

lemma unregister_resolving_spec:
  assumes "registry_text_ok io" "ri_write io" "registry_ok io file"
  shows "(\<forall>k. map_of (all_entries io (fst (unregister_resolving io name file))) k =
       (if resolve_name name (all_entries io file) = Some k then None else map_of (all_entries io file) k)) \<and>
    snd (unregister_resolving io name file) = Inr
      (if resolve_name name (all_entries io file) \<noteq> None then Removed
       else if base_matches name (all_entries io file) = [] then NotFound
       else Ambiguous (map strip_verbatim_prefix (base_matches name (all_entries io file))))"
proof (cases "read_registry io file")
  case None
  then have "all_entries io file = []" by (simp add: all_entries_def table_or_empty_def)
  with None show ?thesis
    by (simp add: unregister_resolving_cases resolve_name_def cleaned_matches_def base_matches_def)
next
  case (Some repos)
  then have all: "all_entries io file = repos" by (simp add: all_entries_def table_or_empty_def)
  show ?thesis
  proof (cases "resolve_name name repos")
    case None
    then show ?thesis using Some by (simp add: unregister_resolving_cases all)
  next
    case key: (Some k)
    have "distinct (map fst (AList.delete k repos))"
      using assms(3) by (simp add: registry_ok_def all distinct_delete)
    note w = written_entries[OF assms(1,2) this]
    have "unregister_resolving io name file =
        (fst (write_registry_atomic io (AList.delete k repos) file),
         map_sum id (\<lambda>_. Removed) (snd (write_registry_atomic io (AList.delete k repos) file)))"
      by (simp add: unregister_resolving_cases Some key remove_key_def case_prod_beta Let_def)
    with w key show ?thesis by (simp add: all delete_conv')
  qed
qed

lemma display_name_empty: "display_name key = [] \<longleftrightarrow> strip_verbatim_prefix key = []"
  by (auto simp: display_name_def trim_seps_def Let_def)

subsection \<open>A registry in a text\<close>

text \<open>A printer and a parser that satisfy the law, for the witnesses: the printed text is the JSON value
  itself, coded by an injection of the values into texts.\<close>

instantiation json :: countable
begin

instance by countable_datatype

end

definition sample_ser :: "json \<Rightarrow> string" where
  "sample_ser j = replicate (to_nat j) CHR ''x''"

definition sample_de :: "string \<Rightarrow> json option" where
  "sample_de s = Some (from_nat (length s))"

definition sample_io :: registry_io where
  "sample_io = \<lparr>ri_ser = sample_ser, ri_de = sample_de, ri_lock = True, ri_write = True\<rparr>"

lemma sample_io_ok: "registry_text_ok sample_io"
  by (simp add: registry_text_ok_def sample_io_def sample_ser_def sample_de_def)

definition sample_table :: repo_table where
  "sample_table = [(''/a'', \<lparr>re_db_path = ''/a.db'', re_index_history = NeverIndexed\<rparr>),
     (''/b/p'', \<lparr>re_db_path = ''/b.db'', re_index_history = Untracked\<rparr>),
     (''/c/p'', \<lparr>re_db_path = ''/c.db'', re_index_history = IndexedAt 7\<rparr>)]"

definition sample_file :: "string option" where
  "sample_file = Some (ri_ser sample_io (json_of_table sample_table))"

lemma sample_switches: "ri_lock sample_io" "ri_write sample_io"
  by (simp_all add: sample_io_def)

lemma sample_entries: "all_entries sample_io sample_file = sample_table" "registry_ok sample_io sample_file"
proof -
  have "distinct (map fst sample_table)" "sort_key fst sample_table = sample_table"
    by (simp_all add: sample_table_def sorted_sort_id)
  with read_back[OF sample_io_ok, of sample_table]
  show "all_entries sample_io sample_file = sample_table" by (simp add: all_entries_def sample_file_def table_or_empty_def)
  with \<open>distinct (map fst sample_table)\<close> show "registry_ok sample_io sample_file" by (simp add: registry_ok_def)
qed

lemmas sample_facts = sample_io_ok sample_switches sample_entries(2)

lemma plain_name: "starts_with s ''/'' \<Longrightarrow> strip_verbatim_prefix s = s"
  by (cases s) (auto simp: strip_verbatim_prefix_def strip_prefix_def VERBATIM_def VERBATIM_UNC_def)

theorem register_spec_witness:
  "map_of (all_entries sample_io (fst (register_repo sample_io ''/c/p'' ''/new.db'' sample_file))) ''/c/p'' =
     Some \<lparr>re_db_path = ''/new.db'', re_index_history = IndexedAt 7\<rparr>"
  using register_spec[OF sample_facts, of "''/c/p''" "''/new.db''"]
  by (simp add: plain_name sample_entries history_of_def same_repo_def) (simp add: sample_table_def plain_name)

lemma deleted_index_is_reported_witness:
  "status_in sample_io (\<lambda>p. p = ''/b.db'') ''/a''
     (fst (register_repo sample_io ''/a'' ''/a.db'' (fst (mark_indexed sample_io 9 ''/a''
        (fst (register_repo sample_io ''/a'' ''/a.db'' sample_file)))))) = Some IndexMissing"
  by (rule deleted_index_is_reported[OF sample_facts]) (simp_all add: plain_name)

lemma prune_spec_witness:
  "\<exists>names. snd (prune sample_io (\<lambda>p. p = ''/b.db'') sample_file) = Inr names \<and> set names = {''/a'', ''/c/p''} \<and> sorted names"
proof -
  have "{k. \<exists>e. map_of sample_table k = Some e \<and> re_db_path e \<noteq> ''/b.db''} = {''/a'', ''/c/p''}"
    by (auto simp: sample_table_def split: if_splits)
  with prune_spec[OF sample_io_ok sample_switches(2) sample_entries(2), of "\<lambda>p. p = ''/b.db''"]
  show ?thesis by (auto simp: sample_entries)
qed

lemma unlocked_prune_loses_registration_witness:
  "map_of (all_entries sample_io (fst (prune_with sample_io (\<lambda>p. p = ''/b.db'') (read_registry sample_io sample_file)
      (fst (register_repo sample_io ''/d'' ''/d.db'' sample_file))))) ''/d'' = None"
proof -
  have "map_of (all_entries sample_io sample_file) (strip_verbatim_prefix ''/d'') = None"
    "\<exists>(k, e)\<in>set (all_entries sample_io sample_file). \<not> re_db_path e = ''/b.db''"
    by (simp_all add: sample_entries plain_name sample_table_def)
  from unlocked_prune_loses_registration[OF sample_facts this, of "''/d.db''"] show ?thesis by (simp add: plain_name)
qed

lemma unregister_resolving_spec_witness:
  "snd (unregister_resolving sample_io ''p'' sample_file) = Inr (Ambiguous [''/b/p'', ''/c/p''])"
proof -
  have names: "map fst sample_table = [''/a'', ''/b/p'', ''/c/p'']" by (simp add: sample_table_def)
  have p: "strip_verbatim_prefix ''p'' = ''p''" by code_simp
  have "base_matches ''p'' sample_table = [''/b/p'', ''/c/p'']" unfolding base_matches_def names by code_simp
  moreover have "cleaned_matches ''p'' sample_table = []"
    unfolding cleaned_matches_def names p by (simp add: same_repo_def plain_name)
  moreover have "map_of sample_table ''p'' = None" by (simp add: sample_table_def)
  ultimately have "resolve_name ''p'' sample_table = None" "base_matches ''p'' sample_table = [''/b/p'', ''/c/p'']"
    by (simp_all add: resolve_name_def)
  with unregister_resolving_spec[OF sample_io_ok sample_switches(2) sample_entries(2), of "''p''"]
  show ?thesis by (simp add: sample_entries plain_name)
qed

end
