(* ===== verification/Utf8_Lossy.thy ===== *)
theory Utf8_Lossy
  imports Rust_Path
begin

section \<open>Lossy decoding\<close>

text \<open>
  \<open>String::from_utf8_lossy\<close>: every well-formed character is kept and every maximal ill-formed piece
  becomes one replacement character.
\<close>

definition REPLACEMENT :: string where
  "REPLACEMENT = [CHR 0xEF, CHR 0xBF, CHR 0xBD]"

text \<open>Whether a second byte can follow a lead byte.\<close>

definition second_ok :: "char \<Rightarrow> char \<Rightarrow> bool" where
  "second_ok a b \<longleftrightarrow> 194 \<le> byte a \<and> byte a < 245 \<and> is_cont b
     \<and> (byte a = 224 \<longrightarrow> 160 \<le> byte b) \<and> (byte a = 237 \<longrightarrow> byte b < 160)
     \<and> (byte a = 240 \<longrightarrow> 144 \<le> byte b) \<and> (byte a = 244 \<longrightarrow> byte b < 144)"

text \<open>The bytes of an ill-formed piece after its first.\<close>

fun bad_tail :: "char \<Rightarrow> string \<Rightarrow> nat" where
  "bad_tail a (b # c # _) = (if second_ok a b then (if utf8_extra a = 3 \<and> is_cont c then 2 else 1) else 0)"
| "bad_tail a [b] = (if second_ok a b then 1 else 0)"
| "bad_tail a [] = 0"

fun from_utf8_lossy :: "string \<Rightarrow> string" where
  "from_utf8_lossy [] = []"
| "from_utf8_lossy (b # bs) =
     (let c = b # take (utf8_extra b) bs
      in if wf_utf8_char c then c @ from_utf8_lossy (drop (utf8_extra b) bs)
         else REPLACEMENT @ from_utf8_lossy (drop (bad_tail b bs) bs))"

lemma replacement_char: "wf_utf8_char REPLACEMENT"
  by (simp add: REPLACEMENT_def is_cont_def)

lemma lossy_ok: "utf8_ok (from_utf8_lossy s)"
  by (induction s rule: from_utf8_lossy.induct)
    (auto simp: Let_def wf_utf8_char_ok wf_utf8_char_ok[OF replacement_char] simp flip: append_Cons)

lemma lossy_id: "utf8_ok s \<Longrightarrow> from_utf8_lossy s = s"
  by (induction s rule: from_utf8_lossy.induct) (auto simp: utf8_ok_Cons Let_def)

lemma lossy_length: "length (from_utf8_lossy s) \<le> 3 * length s"
proof (induction s rule: from_utf8_lossy.induct)
  case (2 b bs)
  show ?case
  proof (cases "wf_utf8_char (b # take (utf8_extra b) bs)")
    case True
    with 2 have "length (from_utf8_lossy (drop (utf8_extra b) bs)) \<le> 3 * (length bs - utf8_extra b)" by simp
    with True show ?thesis by (simp add: Let_def min_def) arith
  next
    case False
    with 2 have "length (from_utf8_lossy (drop (bad_tail b bs) bs)) \<le> 3 * (length bs - bad_tail b bs)" by simp
    with False show ?thesis by (simp add: Let_def REPLACEMENT_def)
  qed
qed simp

lemma lossy_ff: "from_utf8_lossy (replicate n CHR 0xFF) = concat (replicate n REPLACEMENT)"
proof (induction n)
  case (Suc n)
  have "\<not> wf_utf8_char (CHR 0xFF # r)" for r by (cases "CHR 0xFF # r" rule: wf_utf8_char.cases) auto
  moreover have "bad_tail CHR 0xFF s = 0" for s by (cases "(CHR 0xFF, s)" rule: bad_tail.cases) (auto simp: second_ok_def)
  ultimately show ?case using Suc by (simp add: Let_def)
qed simp

end
