(* ===== verification/Git_Hook.thy ===== *)
theory Git_Hook
  imports Utf8_Lossy
begin

section \<open>The git hooks\<close>

text \<open>
  \<open>crates/travsr-daemon/src/hook.rs\<close>: the scripts \<open>travsr init\<close> puts in the hooks directory of a repository,
  the backup of a hook it finds there, and how the output of git is read.

  The hooks directory is a map from file names to contents. Which renames, writes and changes of
  permissions succeed is an argument, so a run may stop anywhere; a rename replaces its target. The path
  of the running binary is an argument too. Windows installs a second script beside each hook.
\<close>

subsection \<open>Scripts\<close>

definition EM_DASH :: string where "EM_DASH = [CHR 0xE2, CHR 0x80, CHR 0x94]"

definition MARKER_TEXT :: string where
  "MARKER_TEXT = ''installed by travsr '' @ EM_DASH @ '' do not edit this line''"

definition TRAVSR_MARKER_SH :: string where "TRAVSR_MARKER_SH = ''# '' @ MARKER_TEXT"
definition TRAVSR_MARKER_CMD :: string where "TRAVSR_MARKER_CMD = ''@rem '' @ MARKER_TEXT"

definition HOOKS :: "string list" where
  "HOOKS = [''post-commit'', ''post-merge'', ''post-checkout'']"

definition CRLF :: string where "CRLF = [carriage, newline]"

definition installing_binary :: "string option \<Rightarrow> string" where
  "installing_binary current_exe =
     (case current_exe of Some p \<Rightarrow> if utf8_ok p then p else ''travsr'' | None \<Rightarrow> ''travsr'')"

definition sh_quote :: "string \<Rightarrow> string" where
  "sh_quote s = squote # concat (map (\<lambda>c. if c = squote then [squote, backslash, squote, squote] else [c]) s) @ [squote]"

definition cmd_quote :: "string \<Rightarrow> string" where
  "cmd_quote s = dquote # concat (map (\<lambda>c. if c = dquote then [dquote, dquote] else [c]) s) @ [dquote]"

definition branch_checkout_guard_sh :: "string \<Rightarrow> string" where
  "branch_checkout_guard_sh hook =
     (if hook = ''post-checkout''
      then ''[ '' @ [dquote] @ ''$3'' @ [dquote] @ '' = '' @ [dquote] @ ''1'' @ [dquote] @ '' ] || exit 0'' @ [newline]
      else [])"

definition run_lines :: "string \<Rightarrow> string \<Rightarrow> string" where
  "run_lines hook bin =
     branch_checkout_guard_sh hook @ ''_travsr='' @ sh_quote bin @ [newline]
     @ ''[ -x '' @ [dquote] @ ''$_travsr'' @ [dquote] @ '' ] || _travsr='' @ [dquote] @ ''travsr'' @ [dquote] @ [newline]
     @ ''exec '' @ [dquote] @ ''$_travsr'' @ [dquote] @ '' hook-run --from-hook --event '' @ hook @ [newline]"

definition hook_body :: "string \<Rightarrow> string \<Rightarrow> string" where
  "hook_body hook bin = ''#!/bin/sh'' @ [newline] @ TRAVSR_MARKER_SH @ [newline] @ run_lines hook bin"

definition BAK_SUFFIX :: string where "BAK_SUFFIX = ''.travsr-pre.bak''"

definition chain_lines :: "string \<Rightarrow> string" where
  "chain_lines hook =
     ''# chains the pre-existing hook that was renamed to '' @ hook @ BAK_SUFFIX @ [newline]
     @ ''_dir='' @ [dquote] @ ''$(cd '' @ [dquote] @ ''$(dirname '' @ [dquote] @ ''$0'' @ [dquote] @ '')'' @ [dquote]
     @ '' && pwd)'' @ [dquote] @ [newline]
     @ ''if [ -x '' @ [dquote] @ ''$_dir/'' @ hook @ BAK_SUFFIX @ [dquote] @ '' ]; then'' @ [newline]
     @ ''  '' @ [dquote] @ ''$_dir/'' @ hook @ BAK_SUFFIX @ [dquote] @ '' '' @ [dquote] @ ''$@'' @ [dquote] @ [newline]
     @ ''fi'' @ [newline]"

definition chain_hook_body :: "string \<Rightarrow> string \<Rightarrow> string" where
  "chain_hook_body hook bin =
     ''#!/bin/sh'' @ [newline] @ TRAVSR_MARKER_SH @ [newline] @ chain_lines hook @ run_lines hook bin"

definition branch_checkout_guard_cmd :: "string \<Rightarrow> string" where
  "branch_checkout_guard_cmd hook =
     (if hook = ''post-checkout''
      then ''@if not '' @ [dquote] @ ''%3'' @ [dquote] @ ''=='' @ [dquote] @ ''1'' @ [dquote] @ '' exit /b 0'' @ CRLF
      else [])"

definition cmd_run_line :: "string \<Rightarrow> string \<Rightarrow> string" where
  "cmd_run_line hook bin =
     branch_checkout_guard_cmd hook @ cmd_quote bin @ '' hook-run --from-hook --event '' @ hook @ CRLF"

definition cmd_hook_body :: "string \<Rightarrow> string \<Rightarrow> string" where
  "cmd_hook_body hook bin = ''@echo off'' @ CRLF @ TRAVSR_MARKER_CMD @ CRLF @ cmd_run_line hook bin"

definition cmd_chain_hook_body :: "string \<Rightarrow> string \<Rightarrow> string" where
  "cmd_chain_hook_body hook bin =
     ''@echo off'' @ CRLF @ TRAVSR_MARKER_CMD @ CRLF
     @ ''@if exist '' @ [dquote] @ ''%~dp0'' @ hook @ BAK_SUFFIX @ ''.cmd'' @ [dquote]
     @ '' call '' @ [dquote] @ ''%~dp0'' @ hook @ BAK_SUFFIX @ ''.cmd'' @ [dquote] @ '' %*'' @ CRLF
     @ cmd_run_line hook bin"

subsection \<open>Installing\<close>

type_synonym hooks_dir = "string \<rightharpoonup> string"

record hook_io =
  hk_windows :: bool
  hk_mkdir :: bool
  hk_rename :: "string \<Rightarrow> bool"
  hk_write :: "string \<Rightarrow> bool"
  hk_chmod :: "string \<Rightarrow> bool"

datatype hook_error = Creating_Dir | Reading string | Backing_Up string | Writing string | Setting_Permissions string

text \<open>The choice both scripts of a hook make: what is written, and the directory after the backup.\<close>

definition choose_script :: "hook_io \<Rightarrow> string \<Rightarrow> string \<Rightarrow> string \<Rightarrow> string \<Rightarrow> string \<Rightarrow> hooks_dir
    \<Rightarrow> (hook_error, string \<times> hooks_dir) rust_result" where
  "choose_script io marker body chain path bak fs =
     (case fs path of
        None \<Rightarrow> Inr (body, fs)
      | Some existing \<Rightarrow>
          if \<not> utf8_ok existing then Inl (Reading path)
          else if contains_str existing marker then Inr (body, fs)
          else if fs bak \<noteq> None then Inr (chain, fs)
          else if \<not> hk_rename io path then Inl (Backing_Up path)
          else Inr (chain, (fs(path := None))(bak \<mapsto> existing)))"

definition install_script :: "hook_io \<Rightarrow> string \<Rightarrow> string \<Rightarrow> string \<Rightarrow> string \<Rightarrow> string \<Rightarrow> hooks_dir
    \<Rightarrow> hooks_dir \<times> (hook_error, unit) rust_result" where
  "install_script io marker body chain path bak fs =
     (case choose_script io marker body chain path bak fs of
        Inl e \<Rightarrow> (fs, Inl e)
      | Inr (script, fs') \<Rightarrow>
          if hk_write io path then (fs'(path \<mapsto> script), Inr ()) else (fs', Inl (Writing path)))"

definition set_executable :: "hook_io \<Rightarrow> string \<Rightarrow> (hook_error, unit) rust_result" where
  "set_executable io path =
     (if hk_windows io \<or> hk_chmod io path then Inr () else Inl (Setting_Permissions path))"

definition bak_name :: "string \<Rightarrow> string" where "bak_name hook = hook @ BAK_SUFFIX"
definition cmd_name :: "string \<Rightarrow> string" where "cmd_name hook = hook @ ''.cmd''"
definition cmd_bak_name :: "string \<Rightarrow> string" where "cmd_bak_name hook = hook @ BAK_SUFFIX @ ''.cmd''"

definition install_one :: "hook_io \<Rightarrow> string \<Rightarrow> string \<Rightarrow> hooks_dir \<Rightarrow> hooks_dir \<times> (hook_error, unit) rust_result" where
  "install_one io hook bin fs =
     (case install_script io TRAVSR_MARKER_SH (hook_body hook bin) (chain_hook_body hook bin) hook (bak_name hook) fs of
        (fs1, Inl e) \<Rightarrow> (fs1, Inl e)
      | (fs1, Inr _) \<Rightarrow>
          (case set_executable io hook of
             Inl e \<Rightarrow> (fs1, Inl e)
           | Inr _ \<Rightarrow>
               if hk_windows io
               then install_script io TRAVSR_MARKER_CMD (cmd_hook_body hook bin) (cmd_chain_hook_body hook bin)
                      (cmd_name hook) (cmd_bak_name hook) fs1
               else (fs1, Inr ())))"

fun install_all :: "hook_io \<Rightarrow> string list \<Rightarrow> string \<Rightarrow> hooks_dir \<Rightarrow> hooks_dir \<times> (hook_error, unit) rust_result" where
  "install_all io [] bin fs = (fs, Inr ())"
| "install_all io (hook # hooks) bin fs =
     (case install_one io hook bin fs of
        (fs1, Inl e) \<Rightarrow> (fs1, Inl e)
      | (fs1, Inr _) \<Rightarrow> install_all io hooks bin fs1)"

definition install_hook :: "hook_io \<Rightarrow> string option \<Rightarrow> hooks_dir \<Rightarrow> hooks_dir \<times> (hook_error, unit) rust_result" where
  "install_hook io current_exe fs =
     (if hk_mkdir io then install_all io HOOKS (installing_binary current_exe) fs else (fs, Inl Creating_Dir))"

subsection \<open>Reading git\<close>

text \<open>What a git command answers: whether it ran, whether it succeeded, and its output.\<close>

type_synonym git_output = "(bool \<times> string) option"

definition resolve_hooks_dir :: "git_output \<Rightarrow> string \<Rightarrow> string" where
  "resolve_hooks_dir out repo_root =
     (case out of
        Some (True, stdout) \<Rightarrow>
          if utf8_ok stdout \<and> trim stdout \<noteq> [] then path_join repo_root (trim stdout) else path_join repo_root ''.git/hooks''
      | _ \<Rightarrow> path_join repo_root ''.git/hooks'')"

definition changed_files_from_git :: "git_output \<Rightarrow> string \<Rightarrow> (unit, string list) rust_result" where
  "changed_files_from_git out repo_root =
     (case out of
        None \<Rightarrow> Inl ()
      | Some (False, _) \<Rightarrow> Inr []
      | Some (True, stdout) \<Rightarrow> Inr (map (path_join repo_root) (filter (\<lambda>l. l \<noteq> []) (lines (from_utf8_lossy stdout)))))"

definition tracked_files_from_git :: "git_output \<Rightarrow> string \<Rightarrow> (unit, string list) rust_result" where
  "tracked_files_from_git out repo_root =
     (case out of
        Some (True, stdout) \<Rightarrow>
          Inr (map (path_join repo_root) (filter (\<lambda>l. l \<noteq> []) (split_on (\<lambda>c. c = CHR 0x00) (from_utf8_lossy stdout))))
      | _ \<Rightarrow> Inl ())"

definition commit_is_ancestor_of_head :: "git_output \<Rightarrow> string \<Rightarrow> bool" where
  "commit_is_ancestor_of_head out commit \<longleftrightarrow> commit = [] \<or> (case out of Some (ok, _) \<Rightarrow> ok | None \<Rightarrow> False)"

subsection \<open>Recognising a script\<close>

lemma contains_mid: "contains_str (a @ m @ b) m"
  by (simp add: contains_str_iff) (metis sublist_appendI)

lemma bodies_marked:
  "contains_str (hook_body hook bin) TRAVSR_MARKER_SH" "contains_str (chain_hook_body hook bin) TRAVSR_MARKER_SH"
  "contains_str (cmd_hook_body hook bin) TRAVSR_MARKER_CMD" "contains_str (cmd_chain_hook_body hook bin) TRAVSR_MARKER_CMD"
  unfolding hook_body_def chain_hook_body_def cmd_hook_body_def cmd_chain_hook_body_def
  by (metis append_assoc contains_mid)+

lemma ascii_prefix: "list_all (\<lambda>c. byte c < 128) s \<Longrightarrow> utf8_ok (s @ t) \<longleftrightarrow> utf8_ok t"
  by (induction s) auto

subsection \<open>The shell reads the path back\<close>

text \<open>How a POSIX shell reads one word: single quotes take everything up to the next one literally, a backslash
  outside quotes the next character, and white space or a newline ends the word.\<close>

fun sh_word :: "bool \<Rightarrow> string \<Rightarrow> string \<Rightarrow> (string \<times> string) option" where
  "sh_word quoted acc [] = (if quoted then None else Some (acc, []))"
| "sh_word True acc (c # cs) = (if c = squote then sh_word False acc cs else sh_word True (acc @ [c]) cs)"
| "sh_word False acc (c # cs) =
     (if c = squote then sh_word True acc cs
      else if c = backslash then (case cs of [] \<Rightarrow> None | d # ds \<Rightarrow> sh_word False (acc @ [d]) ds)
      else if c \<in> {newline, CHR '' '', CHR 0x09} then Some (acc, c # cs)
      else sh_word False (acc @ [c]) cs)"

text \<open>The path of the binary reaches the shell verbatim: whatever quotation marks, spaces and operators it
  holds, a shell reads the quoted text as exactly that one word.\<close>

lemma sh_quote_read_back: "sh_word False [] (sh_quote s @ newline # rest) = Some (s, newline # rest)"
proof -
  let ?esc = "\<lambda>s. concat (map (\<lambda>c. if c = squote then [squote, backslash, squote, squote] else [c]) s)"
  have "sh_word True acc (?esc s @ squote # newline # rest) = Some (acc @ s, newline # rest)" for acc
  proof (induction s arbitrary: acc)
    case (Cons c s)
    then show ?case by simp
  qed simp
  from this[of "[]"] show ?thesis by (simp add: sh_quote_def)
qed

subsection \<open>Scripts are text\<close>

lemma utf8_map_ascii:
  assumes "\<And>c. 128 \<le> byte c \<Longrightarrow> f c = [c]" "\<And>c. byte c < 128 \<Longrightarrow> list_all (\<lambda>c. byte c < 128) (f c)"
  shows "utf8_ok s \<Longrightarrow> utf8_ok (concat (map f s))"
proof (induction s rule: chars.induct)
  case (2 b bs)
  show ?case
  proof (cases "byte b < 128")
    case True
    with 2 show ?thesis by (simp add: utf8_extra_ascii utf8_ok_Cons ascii_prefix[OF assms(2)])
  next
    case False
    let ?k = "utf8_extra b"
    have w: "wf_utf8_char (b # take ?k bs)" "utf8_ok (drop ?k bs)" using "2.prems" by (simp_all add: utf8_ok_Cons)
    have "\<forall>c\<in>set (b # take ?k bs). 128 \<le> byte c"
      using False wf_utf8_char_tl[OF w(1)] by (auto simp: list_all_iff is_cont_def)
    moreover have "\<forall>c\<in>set l. 128 \<le> byte c \<Longrightarrow> concat (map f l) = l" for l
      by (induction l) (simp_all add: assms(1))
    ultimately have "concat (map f (b # take ?k bs)) = b # take ?k bs" by blast
    moreover have "concat (map f (b # bs)) = concat (map f ((b # take ?k bs) @ drop ?k bs))" by simp
    ultimately have "concat (map f (b # bs)) = (b # take ?k bs) @ concat (map f (drop ?k bs))"
      by (simp only: map_append concat_append)
    with "2.IH"[OF w(2)] wf_utf8_char_ok[OF w(1)] show ?thesis by (simp del: append_Cons)
  qed
qed simp

lemma utf8_app: "utf8_ok a \<Longrightarrow> utf8_ok b \<Longrightarrow> utf8_ok (a @ b)"
  by simp

lemma quotes_utf8: "utf8_ok bin \<Longrightarrow> utf8_ok (sh_quote bin)" "utf8_ok bin \<Longrightarrow> utf8_ok (cmd_quote bin)"
proof -
  assume b: "utf8_ok bin"
  have "utf8_ok (concat (map (\<lambda>c. if c = squote then [squote, backslash, squote, squote] else [c]) bin))"
    by (rule utf8_map_ascii[OF _ _ b]) auto
  then show "utf8_ok (sh_quote bin)" by (simp add: sh_quote_def)
  have "utf8_ok (concat (map (\<lambda>c. if c = dquote then [dquote, dquote] else [c]) bin))"
    by (rule utf8_map_ascii[OF _ _ b]) auto
  then show "utf8_ok (cmd_quote bin)" by (simp add: cmd_quote_def)
qed

lemma em_dash_utf8: "utf8_ok EM_DASH"
  by (simp add: EM_DASH_def utf8_ok_Cons utf8_extra_def is_cont_def)

lemma hook_utf8: "hook \<in> set HOOKS \<Longrightarrow> utf8_ok hook"
  by (auto simp: HOOKS_def)

lemma markers_utf8: "utf8_ok TRAVSR_MARKER_SH" "utf8_ok TRAVSR_MARKER_CMD"
  unfolding TRAVSR_MARKER_SH_def TRAVSR_MARKER_CMD_def MARKER_TEXT_def
  by (intro utf8_app em_dash_utf8; simp)+

lemma parts_utf8: "utf8_ok CRLF" "utf8_ok BAK_SUFFIX" "utf8_ok (branch_checkout_guard_sh hook)" "utf8_ok (branch_checkout_guard_cmd hook)"
  by (simp_all add: CRLF_def BAK_SUFFIX_def branch_checkout_guard_sh_def branch_checkout_guard_cmd_def)

lemma bodies_utf8:
  assumes "hook \<in> set HOOKS" "utf8_ok bin"
  shows "utf8_ok (hook_body hook bin)" "utf8_ok (chain_hook_body hook bin)"
    "utf8_ok (cmd_hook_body hook bin)" "utf8_ok (cmd_chain_hook_body hook bin)"
proof -
  note parts = utf8_app hook_utf8[OF assms(1)] quotes_utf8[OF assms(2)] parts_utf8 markers_utf8
  have run: "utf8_ok (run_lines hook bin)" unfolding run_lines_def by (intro parts; simp)
  have cmd: "utf8_ok (cmd_run_line hook bin)" unfolding cmd_run_line_def by (intro parts; simp)
  have chain: "utf8_ok (chain_lines hook)" unfolding chain_lines_def by (intro parts; simp)
  show "utf8_ok (hook_body hook bin)" unfolding hook_body_def by (intro parts run; simp)
  show "utf8_ok (chain_hook_body hook bin)" unfolding chain_hook_body_def by (intro parts run chain; simp)
  show "utf8_ok (cmd_hook_body hook bin)" unfolding cmd_hook_body_def by (intro parts cmd; simp)
  show "utf8_ok (cmd_chain_hook_body hook bin)" unfolding cmd_chain_hook_body_def by (intro parts cmd; simp)
qed

lemma installing_binary_utf8: "utf8_ok (installing_binary exe)"
  by (simp add: installing_binary_def split: option.split)

subsection \<open>What an installation touches\<close>

lemma install_script_frame:
  "p \<noteq> path \<Longrightarrow> p \<noteq> bak \<Longrightarrow> fst (install_script io marker body chain path bak fs) p = fs p"
  by (auto simp: install_script_def choose_script_def split: option.split)

text \<open>A foreign hook is where it was, with no backup of another, or it is the backup.\<close>

definition kept :: "string \<Rightarrow> string \<Rightarrow> string \<Rightarrow> hooks_dir \<Rightarrow> bool" where
  "kept path bak c fs \<longleftrightarrow> fs bak = Some c \<or> fs path = Some c \<and> fs bak = None"

lemma install_script_keeps:
  assumes "kept path bak c fs" "\<not> contains_str c marker" "path \<noteq> bak"
  shows "kept path bak c (fst (install_script io marker body chain path bak fs))"
  using assms by (auto simp: kept_def install_script_def choose_script_def split: option.split)

lemma kept_frame:
  assumes "kept path bak c fs" "path \<notin> {p, b}" "bak \<notin> {p, b}"
  shows "kept path bak c (fst (install_script io marker body chain p b fs))"
  using assms by (simp add: kept_def install_script_frame)

definition hook_names :: "string \<Rightarrow> string list" where
  "hook_names hook = [hook, bak_name hook, cmd_name hook, cmd_bak_name hook]"

lemma names_distinct: "distinct (concat (map hook_names HOOKS))"
  by code_simp

lemma own_names:
  "hook \<in> set HOOKS \<Longrightarrow> distinct (hook_names hook)"
  using names_distinct by (auto simp: distinct_concat_iff)

lemma other_names:
  assumes "hook \<in> set HOOKS" "h \<in> set HOOKS" "h \<noteq> hook" "p \<in> set (hook_names hook)"
  shows "p \<notin> set (hook_names h)"
proof -
  have "list_all (\<lambda>x. list_all (\<lambda>y. x = y \<or> set (hook_names x) \<inter> set (hook_names y) = {}) HOOKS) HOOKS"
    by code_simp
  with assms show ?thesis by (auto simp: list_all_iff)
qed

lemma install_one_frame:
  "p \<notin> set (hook_names hook) \<Longrightarrow> fst (install_one io hook bin fs) p = fs p"
  by (auto simp: install_one_def hook_names_def install_script_frame split: sum.split prod.split)
    (metis fst_conv install_script_frame)+

lemma install_one_keeps:
  assumes "hook \<in> set HOOKS" "\<not> contains_str c TRAVSR_MARKER_SH" "kept hook (bak_name hook) c fs"
  shows "kept hook (bak_name hook) c (fst (install_one io hook bin fs))"
proof -
  let ?r = "install_script io TRAVSR_MARKER_SH (hook_body hook bin) (chain_hook_body hook bin) hook (bak_name hook) fs"
  have d: "distinct [hook, bak_name hook, cmd_name hook, cmd_bak_name hook]" using own_names[OF assms(1)] by (simp only: hook_names_def)
  then have k1: "kept hook (bak_name hook) c (fst ?r)" using install_script_keeps[OF assms(3,2)] by simp
  have "kept hook (bak_name hook) c (fst (install_script io TRAVSR_MARKER_CMD (cmd_hook_body hook bin)
      (cmd_chain_hook_body hook bin) (cmd_name hook) (cmd_bak_name hook) (fst ?r)))"
    by (rule kept_frame[OF k1]) (use d in auto)
  with k1 show ?thesis by (cases ?r) (auto simp: install_one_def split: sum.split)
qed

lemma install_all_keeps:
  assumes "hook \<in> set HOOKS" "\<not> contains_str c TRAVSR_MARKER_SH" "set hooks \<subseteq> set HOOKS" "kept hook (bak_name hook) c fs"
  shows "kept hook (bak_name hook) c (fst (install_all io hooks bin fs))"
  using assms(3,4)
proof (induction hooks arbitrary: fs)
  case (Cons h hooks)
  have "kept hook (bak_name hook) c (fst (install_one io h bin fs))"
  proof (cases "h = hook")
    case True
    then show ?thesis using install_one_keeps[OF assms(1,2) Cons.prems(2)] by simp
  next
    case False
    have "hook \<notin> set (hook_names h)" "bak_name hook \<notin> set (hook_names h)"
      using other_names[OF assms(1) _ False] Cons.prems(1) by (simp_all add: hook_names_def[of hook])
    then show ?thesis using Cons.prems(2) by (simp add: kept_def install_one_frame)
  qed
  with Cons show ?case by (cases "install_one io h bin fs") (auto split: sum.split)
qed simp

text \<open>Any number of runs of \<open>travsr init\<close>, each on its own machine state and with its own binary.\<close>

definition init_runs :: "(hook_io \<times> string option) list \<Rightarrow> hooks_dir \<Rightarrow> hooks_dir" where
  "init_runs runs fs = fold (\<lambda>(io, exe) fs. fst (install_hook io exe fs)) runs fs"


subsection \<open>Running init twice\<close>

definition all_works :: "hook_io \<Rightarrow> bool" where
  "all_works io \<longleftrightarrow> hk_mkdir io \<and> (\<forall>p. hk_rename io p \<and> hk_write io p \<and> hk_chmod io p)"

definition all_text :: "hooks_dir \<Rightarrow> bool" where
  "all_text fs \<longleftrightarrow> (\<forall>c\<in>ran fs. utf8_ok c)"

definition chosen :: "string \<Rightarrow> string \<Rightarrow> string \<Rightarrow> string option \<Rightarrow> string" where
  "chosen marker body chain existing =
     (case existing of None \<Rightarrow> body | Some e \<Rightarrow> if contains_str e marker then body else chain)"

definition backup :: "string \<Rightarrow> string option \<Rightarrow> string option \<Rightarrow> string option" where
  "backup marker existing bak =
     (case existing of None \<Rightarrow> bak | Some e \<Rightarrow> if contains_str e marker \<or> bak \<noteq> None then bak else Some e)"

lemma install_script_works:
  assumes "all_works io" "all_text fs" "utf8_ok body" "utf8_ok chain" "path \<noteq> bak"
  shows "\<exists>fs'. install_script io marker body chain path bak fs = (fs', Inr ()) \<and> all_text fs' \<and>
    fs' path = Some (chosen marker body chain (fs path)) \<and> fs' bak = backup marker (fs path) (fs bak)"
proof -
  have io: "hk_rename io p" "hk_write io p" for p using assms(1) by (simp_all add: all_works_def)
  have put: "all_text (f(p \<mapsto> t))" if "all_text f" "utf8_ok t" for f p t
    using that by (auto simp: all_text_def ran_def)
  show ?thesis
  proof (cases "fs path")
    case None
    then show ?thesis
      using put[OF assms(2,3)] assms(5) by (simp add: install_script_def choose_script_def chosen_def backup_def io)
  next
    case (Some e)
    then have e: "utf8_ok e" using assms(2) by (auto simp: all_text_def ran_def)
    show ?thesis
    proof (cases "contains_str e marker \<or> fs bak \<noteq> None")
      case True
      then show ?thesis
        using Some e put[OF assms(2,3)] put[OF assms(2,4)] assms(5)
        by (auto simp: install_script_def choose_script_def chosen_def backup_def io)
    next
      case False
      then show ?thesis
        using Some e put[OF put[OF assms(2) e] assms(4)] assms(5)
        by (simp add: install_script_def choose_script_def chosen_def backup_def io)
    qed
  qed
qed

lemma install_one_works:
  assumes "all_works io" "all_text fs" "hook \<in> set HOOKS" "utf8_ok bin"
  shows "\<exists>fs'. install_one io hook bin fs = (fs', Inr ()) \<and> all_text fs' \<and>
    fs' hook = Some (chosen TRAVSR_MARKER_SH (hook_body hook bin) (chain_hook_body hook bin) (fs hook)) \<and>
    fs' (bak_name hook) = backup TRAVSR_MARKER_SH (fs hook) (fs (bak_name hook))"
proof -
  have d: "distinct [hook, bak_name hook, cmd_name hook, cmd_bak_name hook]" using own_names[OF assms(3)] by (simp only: hook_names_def)
  note utf8 = bodies_utf8[OF assms(3,4)]
  have ne: "hook \<noteq> bak_name hook" "cmd_name hook \<noteq> cmd_bak_name hook" using d by auto
  obtain fs1 where 1: "install_script io TRAVSR_MARKER_SH (hook_body hook bin) (chain_hook_body hook bin) hook (bak_name hook) fs
      = (fs1, Inr ())" "all_text fs1"
    "fs1 hook = Some (chosen TRAVSR_MARKER_SH (hook_body hook bin) (chain_hook_body hook bin) (fs hook))"
    "fs1 (bak_name hook) = backup TRAVSR_MARKER_SH (fs hook) (fs (bak_name hook))"
    using install_script_works[OF assms(1,2) utf8(1,2) ne(1), where marker = TRAVSR_MARKER_SH] by (elim exE conjE) (rule that)
  obtain fs2 where 2: "install_script io TRAVSR_MARKER_CMD (cmd_hook_body hook bin) (cmd_chain_hook_body hook bin)
      (cmd_name hook) (cmd_bak_name hook) fs1 = (fs2, Inr ())" "all_text fs2"
    using install_script_works[OF assms(1) 1(2) utf8(3,4) ne(2), where marker = TRAVSR_MARKER_CMD] by (elim exE conjE) (rule that)
  have "fs2 p = fs1 p" if "p \<in> {hook, bak_name hook}" for p
    using install_script_frame[of p "cmd_name hook" "cmd_bak_name hook" io TRAVSR_MARKER_CMD "cmd_hook_body hook bin"
        "cmd_chain_hook_body hook bin" fs1] that d by (auto simp: 2(1))
  moreover have "set_executable io hook = Inr ()" using assms(1) by (simp add: set_executable_def all_works_def)
  ultimately show ?thesis using 1 2 by (simp add: install_one_def)
qed

lemma install_all_works:
  assumes "all_works io" "utf8_ok bin" "hook \<in> set HOOKS"
  shows "all_text fs \<Longrightarrow> set hooks \<subseteq> set HOOKS \<Longrightarrow> distinct hooks \<Longrightarrow> hook \<in> set hooks \<Longrightarrow>
    \<exists>fs'. install_all io hooks bin fs = (fs', Inr ()) \<and> all_text fs' \<and>
      fs' hook = Some (chosen TRAVSR_MARKER_SH (hook_body hook bin) (chain_hook_body hook bin) (fs hook)) \<and>
      fs' (bak_name hook) = backup TRAVSR_MARKER_SH (fs hook) (fs (bak_name hook))"
proof (induction hooks arbitrary: fs)
  case (Cons h hooks)
  have rest: "\<exists>fs'. install_all io hs bin f = (fs', Inr ()) \<and> all_text fs' \<and>
      fs' hook = f hook \<and> fs' (bak_name hook) = f (bak_name hook)"
    if "all_text f" "set hs \<subseteq> set HOOKS" "hook \<notin> set hs" for hs f
    using that
  proof (induction hs arbitrary: f)
    case (Cons g hs)
    have "hook \<notin> set (hook_names g)" "bak_name hook \<notin> set (hook_names g)"
      using other_names[OF assms(3), of g] Cons.prems by (auto simp: hook_names_def[of hook])
    note frame = install_one_frame[OF this(1), of io bin f] install_one_frame[OF this(2), of io bin f]
    obtain f1 where f1: "install_one io g bin f = (f1, Inr ())" "all_text f1"
      using install_one_works[OF assms(1) Cons.prems(1) _ assms(2), of g] Cons.prems(2) by auto
    show ?case using Cons.IH[OF f1(2)] Cons.prems frame by (simp add: f1)
  qed simp
  obtain fs1 where fs1: "install_one io h bin fs = (fs1, Inr ())" "all_text fs1"
    "fs1 h = Some (chosen TRAVSR_MARKER_SH (hook_body h bin) (chain_hook_body h bin) (fs h))"
    "fs1 (bak_name h) = backup TRAVSR_MARKER_SH (fs h) (fs (bak_name h))"
    using install_one_works[OF assms(1) Cons.prems(1) _ assms(2), of h] Cons.prems(2) by (metis insert_subset list.simps(15))
  show ?case
  proof (cases "h = hook")
    case True
    then show ?thesis using rest[OF fs1(2), of hooks] Cons.prems fs1 by simp
  next
    case False
    have "hook \<notin> set (hook_names h)" "bak_name hook \<notin> set (hook_names h)"
      using other_names[OF assms(3) _ False] Cons.prems(2) by (auto simp: hook_names_def[of hook])
    then have "fs1 hook = fs hook" "fs1 (bak_name hook) = fs (bak_name hook)"
      using install_one_frame[of _ h io bin fs] by (simp_all add: fs1)
    then show ?thesis using Cons.IH[OF fs1(2)] Cons.prems False by (simp add: fs1)
  qed
qed simp

lemma install_hook_works:
  assumes "all_works io" "all_text fs" "hook \<in> set HOOKS"
  obtains fs' where "install_hook io exe fs = (fs', Inr ())" "all_text fs'"
    "fs' hook = Some (chosen TRAVSR_MARKER_SH (hook_body hook (installing_binary exe))
       (chain_hook_body hook (installing_binary exe)) (fs hook))"
    "fs' (bak_name hook) = backup TRAVSR_MARKER_SH (fs hook) (fs (bak_name hook))"
  using install_all_works[OF assms(1) installing_binary_utf8 assms(3,2), of HOOKS exe] assms(1,3)
  by (auto simp: install_hook_def all_works_def HOOKS_def)

text \<open>The first \<open>travsr init\<close> over a hook of the user chains to it; the second finds its own marker and
  writes the plain script in place of the chaining one. The user's hook is then only a backup file, and
  the hook that git runs no longer calls it.\<close>

lemma second_init_drops_the_chain:
  assumes "all_works io1" "all_works io2" "all_text fs" "hook \<in> set HOOKS"
    "fs hook = Some c" "\<not> contains_str c TRAVSR_MARKER_SH" "fs (bak_name hook) = None"
  shows "init_runs [(io1, exe1)] fs hook = Some (chain_hook_body hook (installing_binary exe1)) \<and>
    init_runs [(io1, exe1), (io2, exe2)] fs hook = Some (hook_body hook (installing_binary exe2)) \<and>
    init_runs [(io1, exe1), (io2, exe2)] fs (bak_name hook) = Some c"
proof -
  obtain fs1 where 1: "install_hook io1 exe1 fs = (fs1, Inr ())" "all_text fs1"
    "fs1 hook = Some (chain_hook_body hook (installing_binary exe1))" "fs1 (bak_name hook) = Some c"
    using install_hook_works[OF assms(1,3,4), of exe1] assms(5-7) by (auto simp: chosen_def backup_def)
  obtain fs2 where 2: "install_hook io2 exe2 fs1 = (fs2, Inr ())"
    "fs2 hook = Some (chosen TRAVSR_MARKER_SH (hook_body hook (installing_binary exe2))
       (chain_hook_body hook (installing_binary exe2)) (fs1 hook))"
    "fs2 (bak_name hook) = backup TRAVSR_MARKER_SH (fs1 hook) (fs1 (bak_name hook))"
    by (rule install_hook_works[OF assms(2) 1(2) assms(4), of exe2])
  show ?thesis by (simp add: init_runs_def 1 2 chosen_def backup_def bodies_marked(2))
qed

definition fine_io :: hook_io where
  "fine_io = \<lparr>hk_windows = False, hk_mkdir = True, hk_rename = \<lambda>_. True, hk_write = \<lambda>_. True, hk_chmod = \<lambda>_. True\<rparr>"

definition lint_dir :: hooks_dir where
  "lint_dir = [''post-merge'' \<mapsto> ''make lint'']"

lemma lint_unmarked: "\<not> contains_str ''make lint'' TRAVSR_MARKER_SH"
  by code_simp

lemma lint_facts: "''post-merge'' \<in> set HOOKS" "lint_dir ''post-merge'' = Some ''make lint''" "lint_dir (bak_name ''post-merge'') = None"
  by (simp_all add: HOOKS_def lint_dir_def bak_name_def BAK_SUFFIX_def)


text \<open>The plain script of the witness does not name the backup at all.\<close>

lemma second_init_drops_the_chain_witness:
  "contains_str (the (init_runs [(fine_io, None)] lint_dir ''post-merge'')) (bak_name ''post-merge'') \<and>
   \<not> contains_str (the (init_runs [(fine_io, None), (fine_io, None)] lint_dir ''post-merge'')) (bak_name ''post-merge'') \<and>
   init_runs [(fine_io, None), (fine_io, None)] lint_dir (bak_name ''post-merge'') = Some ''make lint''"
proof -
  have io: "all_works fine_io" by (simp add: all_works_def fine_io_def)
  have "all_text lint_dir" by (simp add: all_text_def lint_dir_def)
  note two = second_init_drops_the_chain[OF io io this lint_facts(1,2) lint_unmarked lint_facts(3), of None None]
  have "contains_str (chain_hook_body ''post-merge'' (installing_binary None)) (bak_name ''post-merge'')"
    "\<not> contains_str (hook_body ''post-merge'' (installing_binary None)) (bak_name ''post-merge'')"
    by code_simp+
  with two show ?thesis by simp
qed

end
