(* ===== verification/Ipc_Wire.thy ===== *)
theory Ipc_Wire
  imports Utf8_Lossy "HOL-Library.Word"
begin

section \<open>What goes over the wire\<close>

text \<open>
  The frames of the plug-in protocol (\<open>crates/travsr-plugin-protocol/src/codec.rs\<close>), and the address and
  the line transport of the daemon's control plane (\<open>crates/travsr-ipc/src/addr.rs\<close>, \<open>transport.rs\<close>).

  A blocking reader is the bytes its peer sends before it closes. A socket with a time-out is the list of
  what its calls answer, in order, each with the time at which the call returns; a list that runs out is a
  call that is still waiting. Times are milliseconds. \<open>serde_json\<close>, BLAKE3 and the environment are arguments.
\<close>

subsection \<open>Frames\<close>

definition MAX_FRAME_LEN :: nat where "MAX_FRAME_LEN = 1024 * 1024 * 1024"

datatype frame_error = Not_Serialisable | Too_Large nat | Unexpected_Eof | Not_Parsable

definition u32_be_bytes :: "nat \<Rightarrow> string" where
  "u32_be_bytes n = map char_of [n div 16777216 mod 256, n div 65536 mod 256, n div 256 mod 256, n mod 256]"

definition u32_from_be :: "string \<Rightarrow> nat" where
  "u32_from_be bs = foldl (\<lambda>acc b. 256 * acc + byte b) 0 bs"

definition encode_message :: "('m \<Rightarrow> string option) \<Rightarrow> 'm \<Rightarrow> (frame_error, string) rust_result" where
  "encode_message to_vec msg =
     (case to_vec msg of
        None \<Rightarrow> Inl Not_Serialisable
      | Some payload \<Rightarrow>
          if MAX_FRAME_LEN < length payload then Inl (Too_Large (length payload))
          else if u32_max < length payload then Inl (Too_Large (length payload))
          else Inr (u32_be_bytes (length payload) @ payload))"

definition read_exact :: "nat \<Rightarrow> string \<Rightarrow> (frame_error, string) rust_result \<times> string" where
  "read_exact n reader = (if length reader < n then (Inl Unexpected_Eof, []) else (Inr (take n reader), drop n reader))"

text \<open>The message, and what is left in the reader; the buffer of the payload is allocated only after the check.\<close>

definition decode_message :: "(string \<Rightarrow> 'm option) \<Rightarrow> string \<Rightarrow> (frame_error, 'm) rust_result \<times> string" where
  "decode_message from_slice reader =
     (case read_exact 4 reader of
        (Inl e, reader') \<Rightarrow> (Inl e, reader')
      | (Inr len_buf, reader') \<Rightarrow>
          (let len = u32_from_be len_buf
           in if MAX_FRAME_LEN < len then (Inl (Too_Large len), reader')
              else case read_exact len reader' of
                     (Inl e, reader'') \<Rightarrow> (Inl e, reader'')
                   | (Inr payload, reader'') \<Rightarrow>
                       (case from_slice payload of
                          Some msg \<Rightarrow> (Inr msg, reader'')
                        | None \<Rightarrow> (Inl Not_Parsable, reader''))))"

text \<open>The loop of a peer: messages until the first error.\<close>

function decode_all :: "(string \<Rightarrow> 'm option) \<Rightarrow> string \<Rightarrow> 'm list \<times> frame_error" where
  "decode_all from_slice reader =
     (case decode_message from_slice reader of
        (Inl e, _) \<Rightarrow> ([], e)
      | (Inr msg, reader') \<Rightarrow> (let (msgs, e) = decode_all from_slice reader' in (msg # msgs, e)))"
  by pat_completeness auto

lemma decode_message_shrinks: "decode_message f reader = (Inr msg, reader') \<Longrightarrow> length reader' < length reader"
  by (auto simp: decode_message_def read_exact_def Let_def split: if_splits option.splits)

termination decode_all
  by (relation "measure (\<lambda>(f, reader). length reader)") (auto dest: decode_message_shrinks[OF sym])

declare decode_all.simps [simp del]

subsection \<open>The address\<close>

definition low_hex_digit :: "nat \<Rightarrow> char" where
  "low_hex_digit n = (if n < 10 then char_of (48 + n) else char_of (87 + n))"

definition hex_byte :: "char \<Rightarrow> string" where
  "hex_byte b = [low_hex_digit (byte b div 16), low_hex_digit (byte b mod 16)]"

text \<open>\<open>canonicalize\<close> fails on a path that does not exist; Windows puts the path in lower case.\<close>

definition normalize_repo_root :: "(string \<Rightarrow> string option) \<Rightarrow> (string \<Rightarrow> string) option \<Rightarrow> string \<Rightarrow> string" where
  "normalize_repo_root canonicalize lowercase repo_root =
     (let s = from_utf8_lossy (case canonicalize repo_root of Some p \<Rightarrow> p | None \<Rightarrow> repo_root)
      in case lowercase of Some f \<Rightarrow> f s | None \<Rightarrow> s)"

definition for_repo :: "(string \<Rightarrow> string) \<Rightarrow> (string \<Rightarrow> string option) \<Rightarrow> (string \<Rightarrow> string) option \<Rightarrow> string \<Rightarrow> string" where
  "for_repo blake canonicalize lowercase repo_root =
     concat (map hex_byte (take 8 (blake (normalize_repo_root canonicalize lowercase repo_root))))"

definition pipe_name :: "string \<Rightarrow> string" where
  "pipe_name hex = [backslash, backslash] @ ''.'' @ [backslash] @ ''pipe'' @ [backslash] @ ''travsr-'' @ hex"

definition SUN_PATH_MAX :: "bool \<Rightarrow> nat" where
  "SUN_PATH_MAX linux = (if linux then 108 else 104)"

definition unix_socket_path_fits :: "bool \<Rightarrow> string \<Rightarrow> bool" where
  "unix_socket_path_fits linux path \<longleftrightarrow> length path < SUN_PATH_MAX linux"

definition runtime_bases :: "(string \<Rightarrow> string option) \<Rightarrow> string list" where
  "runtime_bases env =
     List.map_filter (\<lambda>key. case env key of Some v \<Rightarrow> if v = [] then None else Some v | None \<Rightarrow> None)
       [''XDG_RUNTIME_DIR'', ''TMPDIR''] @ [''/tmp'']"

fun first_fitting :: "bool \<Rightarrow> string \<Rightarrow> string \<Rightarrow> string \<Rightarrow> string list \<Rightarrow> string" where
  "first_fitting linux leaf sock last_try [] = last_try"
| "first_fitting linux leaf sock last_try (base # bases) =
     (let candidate = path_join (path_join base leaf) sock
      in if unix_socket_path_fits linux candidate then candidate else first_fitting linux leaf sock candidate bases)"

definition owner_uid :: "(string \<Rightarrow> 32 word option) \<Rightarrow> string \<Rightarrow> 32 word" where
  "owner_uid stat path = (case stat path of Some uid \<Rightarrow> uid | None \<Rightarrow> 0)"

definition socket_path :: "bool \<Rightarrow> (string \<Rightarrow> 32 word option) \<Rightarrow> (string \<Rightarrow> string option) \<Rightarrow> string \<Rightarrow> string \<Rightarrow> string" where
  "socket_path linux stat env hex travsr_dir =
     (let sock = ''daemon-'' @ hex @ ''.sock'';
          primary = path_join travsr_dir sock
      in if unix_socket_path_fits linux primary then primary
         else first_fitting linux (''travsr-'' @ show_nat (unat (owner_uid stat travsr_dir))) sock [] (runtime_bases env))"

subsection \<open>Lines over a socket with a time-out\<close>

definition WRITE_DEADLINE :: nat where "WRITE_DEADLINE = 5000"
definition READ_DEADLINE :: nat where "READ_DEADLINE = 15000"
definition FIRE_AND_FORGET_DEADLINE :: nat where "FIRE_AND_FORGET_DEADLINE = 50"
definition MAX_RESPONSE_BYTES :: nat where "MAX_RESPONSE_BYTES = 256 * 1024 * 1024"
definition READ_CHUNK_BYTES :: nat where "READ_CHUNK_BYTES = 4096"

datatype 'a io_answer = Done 'a | Interrupted | Would_Block | Io_Failed

datatype ipc_error = Closed_Mid_Request | Timed_Out | Io_Error | Response_Too_Large | No_Response
  | Bad_Response | Not_Encodable

type_synonym 'a io_script = "(nat \<times> 'a io_answer) list"

definition encode_line :: "('m \<Rightarrow> string option) \<Rightarrow> 'm \<Rightarrow> (ipc_error, string) rust_result" where
  "encode_line to_string msg = (case to_string msg of Some s \<Rightarrow> Inr (s @ [newline]) | None \<Rightarrow> Inl Not_Encodable)"

text \<open>The answer of the write and the bytes the kernel took; no answer while it waits.\<close>

fun write_all_before :: "nat \<Rightarrow> string \<Rightarrow> nat io_script \<Rightarrow> ((ipc_error, unit) rust_result \<times> string) option" where
  "write_all_before cutoff [] script = Some (Inr (), [])"
| "write_all_before cutoff buf [] = None"
| "write_all_before cutoff buf ((now, answer) # script) =
     (case answer of
        Done n \<Rightarrow>
          if n = 0 then Some (Inl Closed_Mid_Request, [])
          else map_option (map_prod id ((@) (take n buf))) (write_all_before cutoff (drop n buf) script)
      | Interrupted \<Rightarrow> write_all_before cutoff buf script
      | Would_Block \<Rightarrow> if now < cutoff then write_all_before cutoff buf script else Some (Inl Timed_Out, [])
      | Io_Failed \<Rightarrow> Some (Inl Io_Error, []))"

fun flush_tolerant :: "unit io_answer \<Rightarrow> (ipc_error, unit) rust_result" where
  "flush_tolerant Io_Failed = Inl Io_Error"
| "flush_tolerant _ = Inr ()"

fun read_loop :: "nat \<Rightarrow> string \<Rightarrow> string io_script \<Rightarrow> (ipc_error, string) rust_result option" where
  "read_loop cutoff out [] = None"
| "read_loop cutoff out ((now, answer) # script) =
     (case answer of
        Done chunk \<Rightarrow>
          if chunk = [] then Some (Inr out)
          else if newline \<in> set chunk then Some (Inr (out @ takeWhile (\<lambda>b. b \<noteq> newline) chunk))
          else if MAX_RESPONSE_BYTES < length (out @ chunk) then Some (Inl Response_Too_Large)
          else read_loop cutoff (out @ chunk) script
      | Interrupted \<Rightarrow> read_loop cutoff out script
      | Would_Block \<Rightarrow> if now < cutoff then read_loop cutoff out script else Some (Inl Timed_Out)
      | Io_Failed \<Rightarrow> Some (Inl Io_Error))"

definition read_line_before :: "nat \<Rightarrow> string io_script \<Rightarrow> (ipc_error, string) rust_result option" where
  "read_line_before cutoff script = map_option (map_sum id from_utf8_lossy) (read_loop cutoff [] script)"

text \<open>The whole exchange on a connected socket; the times are those at which the write and the read begin.\<close>

definition request_on :: "(string \<Rightarrow> 'r option) \<Rightarrow> string \<Rightarrow> nat \<Rightarrow> nat \<Rightarrow> nat io_script \<Rightarrow> unit io_answer \<Rightarrow> string io_script
    \<Rightarrow> ((ipc_error, 'r) rust_result \<times> string) option" where
  "request_on from_str line t_write t_read writes flushed reads =
     (case write_all_before (t_write + WRITE_DEADLINE) line writes of
        None \<Rightarrow> None
      | Some (Inl e, sent) \<Rightarrow> Some (Inl e, sent)
      | Some (Inr _, sent) \<Rightarrow>
          (case flush_tolerant flushed of
             Inl e \<Rightarrow> Some (Inl e, sent)
           | Inr _ \<Rightarrow>
               (case read_line_before (t_read + READ_DEADLINE) reads of
                  None \<Rightarrow> None
                | Some (Inl e) \<Rightarrow> Some (Inl e, sent)
                | Some (Inr buf) \<Rightarrow>
                    (let trimmed = trim buf
                     in if trimmed = [] then Some (Inl No_Response, sent)
                        else case from_str trimmed of
                               Some r \<Rightarrow> Some (Inr r, sent) | None \<Rightarrow> Some (Inl Bad_Response, sent)))))"

definition send_request_line :: "('m \<Rightarrow> string option) \<Rightarrow> (string \<Rightarrow> 'r option) \<Rightarrow> 'm \<Rightarrow> nat \<Rightarrow> nat \<Rightarrow> nat io_script
    \<Rightarrow> unit io_answer \<Rightarrow> string io_script \<Rightarrow> ((ipc_error, 'r) rust_result \<times> string) option" where
  "send_request_line to_string from_str msg t_write t_read writes flushed reads =
     (case encode_line to_string msg of
        Inl e \<Rightarrow> Some (Inl e, [])
      | Inr line \<Rightarrow> request_on from_str line t_write t_read writes flushed reads)"

definition write_line_before :: "('m \<Rightarrow> string option) \<Rightarrow> 'm \<Rightarrow> nat \<Rightarrow> nat \<Rightarrow> nat io_script \<Rightarrow> unit io_answer
    \<Rightarrow> ((ipc_error, unit) rust_result \<times> string) option" where
  "write_line_before to_string msg now deadline writes flushed =
     (case encode_line to_string msg of
        Inl e \<Rightarrow> Some (Inl e, [])
      | Inr line \<Rightarrow>
          (case write_all_before (now + deadline) line writes of
             Some (Inr _, sent) \<Rightarrow> Some (flush_tolerant flushed, sent)
           | r \<Rightarrow> r))"

subsection \<open>Frames are read back\<close>

lemma u32_be: "n < 2 ^ 32 \<Longrightarrow> u32_from_be (u32_be_bytes n) = n"
proof -
  assume n: "n < 2 ^ 32"
  have "of_char (char_of (m mod 256) :: char) = m mod 256" for m :: nat by simp
  moreover have d: "n div 65536 = n div 256 div 256" "n div 16777216 = n div 256 div 256 div 256"
    by (simp_all add: div_mult2_eq[symmetric])
  moreover have small: "n div 256 div 256 div 256 < 256"
    using n by (simp add: div_mult2_eq[symmetric] less_mult_imp_div_less)
  then have "n div 16777216 mod 256 = n div 16777216" by (simp add: d)
  moreover have "of_char (char_of (n div 256 div 256 div 256) :: char) = n div 256 div 256 div 256"
    using small by simp
  moreover have "256 * (256 * (256 * (n div 256 div 256 div 256) + n div 256 div 256 mod 256) + n div 256 mod 256) + n mod 256 = n"
    by (simp only: mult_div_mod_eq)
  ultimately show ?thesis by (simp only: u32_from_be_def u32_be_bytes_def list.map foldl.simps mult_0_right add_0)
qed

lemma u32_be_length [simp]: "length (u32_be_bytes n) = 4"
  by (simp add: u32_be_bytes_def)

text \<open>What is relied on of \<open>serde_json\<close>: a message that can be printed is parsed back.\<close>

definition wire_roundtrip :: "('m \<Rightarrow> string option) \<Rightarrow> (string \<Rightarrow> 'm option) \<Rightarrow> bool" where
  "wire_roundtrip to_vec from_slice \<longleftrightarrow> (\<forall>m p. to_vec m = Some p \<longrightarrow> from_slice p = Some m)"

lemma encode_message_Inr:
  "encode_message to_vec m = Inr frame \<Longrightarrow>
     \<exists>p. to_vec m = Some p \<and> length p \<le> MAX_FRAME_LEN \<and> frame = u32_be_bytes (length p) @ p"
  by (auto simp: encode_message_def split: option.splits if_splits)

lemma decode_frame:
  assumes "wire_roundtrip to_vec from_slice" "encode_message to_vec m = Inr frame"
  shows "decode_message from_slice (frame @ rest) = (Inr m, rest)"
proof -
  obtain p where p: "to_vec m = Some p" "length p \<le> MAX_FRAME_LEN" "frame = u32_be_bytes (length p) @ p"
    using encode_message_Inr[OF assms(2)] by blast
  then have "u32_from_be (u32_be_bytes (length p)) = length p" by (intro u32_be) (simp add: MAX_FRAME_LEN_def)
  with p assms(1) show ?thesis by (simp add: decode_message_def read_exact_def wire_roundtrip_def Let_def)
qed

lemma decode_cut_frame:
  assumes "encode_message to_vec m = Inr frame" "n < length frame"
  shows "decode_message from_slice (take n frame) = (Inl Unexpected_Eof, [])"
proof -
  obtain p where p: "length p \<le> MAX_FRAME_LEN" "frame = u32_be_bytes (length p) @ p"
    using encode_message_Inr[OF assms(1)] by blast
  then have "u32_from_be (u32_be_bytes (length p)) = length p" by (intro u32_be) (simp add: MAX_FRAME_LEN_def)
  moreover have "n < 4 \<or> \<not> n < 4 \<and> n - 4 < length p" using assms(2) by (auto simp: p(2))
  ultimately show ?thesis using p by (elim disjE) (simp_all add: decode_message_def read_exact_def Let_def)
qed

text \<open>C23: A stream of frames, cut off anywhere in its last one, is read as exactly the messages whose frames
  are whole, in order, and then as an unexpected end: a peer that dies in a frame adds no message.\<close>

theorem frames_read_back:
  assumes "wire_roundtrip to_vec from_slice"
    "list_all2 (\<lambda>m frame. encode_message to_vec m = Inr frame) msgs frames"
    "encode_message to_vec lost = Inr frame" "n < length frame"
  shows "decode_all from_slice (concat frames @ take n frame) = (msgs, Unexpected_Eof)"
  using assms(2)
proof (induction rule: list_all2_induct)
  case Nil
  show ?case by (simp add: decode_all.simps decode_cut_frame[OF assms(3,4)])
next
  case (Cons m msgs f frames)
  then show ?case using decode_frame[OF assms(1) Cons(1)] by (subst decode_all.simps) (simp add: Let_def)
qed

text \<open>A frame that announces more than one GiB is refused from its four length bytes: nothing of its
  payload is read, whatever the announced length.\<close>

lemma oversized_frame_refused:
  assumes "MAX_FRAME_LEN < u32_from_be prefix4" "length prefix4 = 4"
  shows "decode_message from_slice (prefix4 @ rest) = (Inl (Too_Large (u32_from_be prefix4)), rest)"
  using assms by (simp add: decode_message_def read_exact_def)

subsection \<open>The address fits\<close>

lemma hex_length: "length (for_repo blake canonicalize lowercase root) \<le> 16"
proof -
  have "length (concat (map hex_byte bs)) = 2 * length bs" for bs
    by (induction bs) (simp_all add: hex_byte_def)
  then show ?thesis by (simp add: for_repo_def)
qed

lemma show_nat_length: "n < 10 ^ Suc k \<Longrightarrow> length (show_nat n) \<le> Suc k"
proof (induction k arbitrary: n)
  case 0
  then show ?case by (subst show_nat.simps) simp
next
  case (Suc k)
  have "n div 10 < 10 ^ Suc k" using Suc.prems by (simp add: less_mult_imp_div_less)
  with Suc.IH[of "n div 10"] show ?case by (subst show_nat.simps) simp
qed

lemma first_fitting_fits:
  "bases \<noteq> [] \<Longrightarrow> unix_socket_path_fits linux (path_join (path_join (last bases) leaf) sock) \<Longrightarrow>
     unix_socket_path_fits linux (first_fitting linux leaf sock last_try bases)"
  by (induction bases arbitrary: last_try) (auto simp: Let_def split: if_splits)

text \<open>The control socket of every repository has a path the platform can bind, however deep the
  repository lies and however long the runtime directories of the environment are.\<close>

lemma socket_path_fits:
  "unix_socket_path_fits linux (socket_path linux stat env (for_repo blake canonicalize lowercase root) travsr_dir)"
proof -
  let ?hex = "for_repo blake canonicalize lowercase root" and ?uid = "unat (owner_uid stat travsr_dir)"
  have "?uid < 2 ^ LENGTH(32)" by (rule unsigned_less)
  then have "length (show_nat ?uid) \<le> 10" using show_nat_length[of ?uid 9] by simp
  with hex_length[of blake canonicalize lowercase root]
  have "unix_socket_path_fits linux (path_join (path_join ''/tmp'' (''travsr-'' @ show_nat ?uid)) (''daemon-'' @ ?hex @ ''.sock''))"
    by (simp add: path_join_def is_absolute_def unix_socket_path_fits_def SUN_PATH_MAX_def)
  then have "unix_socket_path_fits linux
      (first_fitting linux (''travsr-'' @ show_nat ?uid) (''daemon-'' @ ?hex @ ''.sock'') [] (runtime_bases env))"
    by (intro first_fitting_fits) (simp_all add: runtime_bases_def)
  then show ?thesis by (simp add: socket_path_def Let_def)
qed

subsection \<open>What the socket carries\<close>

text \<open>A write that succeeds has handed the kernel exactly the request, byte for byte, however its calls
  were cut short, interrupted or told to wait; one that fails has handed over a proper beginning of it.\<close>

lemma write_is_exact:
  "write_all_before cutoff buf script = Some (r, sent) \<Longrightarrow>
     (if r = Inr () then sent = buf else strict_prefix sent buf)"
proof (induction cutoff buf script arbitrary: r sent rule: write_all_before.induct)
  case (3 cutoff b buf now answer script)
  show ?case
  proof (cases answer)
    case (Done n)
    show ?thesis
    proof (cases "n = 0")
      case False
      with "3.prems" Done obtain sent' where s: "write_all_before cutoff (drop n (b # buf)) script = Some (r, sent')"
        "sent = take n (b # buf) @ sent'" by (auto simp: map_prod_def)
      from "3.IH"(1)[OF Done False s(1)] have "if r = Inr () then sent' = drop n (b # buf) else strict_prefix sent' (drop n (b # buf))" .
      then show ?thesis
        unfolding s(2) by (cases "r = Inr ()") (simp_all, metis append_take_drop_id same_prefix_prefix strict_prefix_def append_same_eq append_eq_append_conv)
    qed (use "3.prems" Done in auto)
  qed (use 3 in \<open>auto split: if_splits\<close>)
qed auto

text \<open>An answer after which the reader asks again, apart from the size of what it holds.\<close>

fun keeps_reading :: "nat \<Rightarrow> nat \<times> string io_answer \<Rightarrow> bool" where
  "keeps_reading cutoff (now, Done chunk) \<longleftrightarrow> chunk \<noteq> [] \<and> newline \<notin> set chunk"
| "keeps_reading cutoff (now, Interrupted) \<longleftrightarrow> True"
| "keeps_reading cutoff (now, Would_Block) \<longleftrightarrow> now < cutoff"
| "keeps_reading cutoff (now, Io_Failed) \<longleftrightarrow> False"

fun data_of :: "nat \<times> string io_answer \<Rightarrow> string" where
  "data_of (now, Done chunk) = chunk"
| "data_of _ = []"

definition received :: "string io_script \<Rightarrow> string" where
  "received script = concat (map data_of script)"

lemma read_loop_waits_iff:
  "length out \<le> MAX_RESPONSE_BYTES \<Longrightarrow>
   read_loop cutoff out script = None \<longleftrightarrow>
     list_all (keeps_reading cutoff) script \<and> length out + length (received script) \<le> MAX_RESPONSE_BYTES"
proof (induction cutoff out script rule: read_loop.induct)
  case (2 cutoff out now answer script)
  then show ?case by (cases answer) (auto simp: received_def)
qed (simp add: received_def)

text \<open>C24: A client that reads an answer still waits exactly as long as every call so far brought bytes without
  a newline, was interrupted, or was told to wait before the deadline, and the bytes are within 256 MiB.
  So it returns after the first wait past the deadline, and after at most that many calls that bring bytes.\<close>

theorem read_waits_iff:
  "read_line_before cutoff script = None \<longleftrightarrow>
     list_all (keeps_reading cutoff) script \<and> length (received script) \<le> MAX_RESPONSE_BYTES"
  using read_loop_waits_iff[of "[]" cutoff script] by (simp add: read_line_before_def)

text \<open>The deadline is looked at only when there is nothing to read: a daemon that sends a byte at a time, at
  whatever times, is never timed out.\<close>

lemma dripping_never_times_out:
  "newline \<notin> set bs \<Longrightarrow> length bs \<le> MAX_RESPONSE_BYTES \<Longrightarrow> length ts = length bs \<Longrightarrow>
     read_line_before cutoff (map2 (\<lambda>t b. (t, Done [b])) ts bs) = None"
proof -
  assume a: "newline \<notin> set bs" "length bs \<le> MAX_RESPONSE_BYTES" "length ts = length bs"
  have "received (map2 (\<lambda>t b. (t, Done [b])) ts bs) = bs"
    using a(3) by (induction ts bs rule: list_induct2) (simp_all add: received_def)
  moreover have "list_all (keeps_reading cutoff) (map2 (\<lambda>t b. (t, Done [b])) ts bs)"
    using a(3,1) by (induction ts bs rule: list_induct2) simp_all
  ultimately show ?thesis using a(2) by (simp add: read_waits_iff)
qed

text \<open>The bytes of the connection up to where it closes or its first newline.\<close>

fun until_close :: "string io_script \<Rightarrow> string io_script" where
  "until_close [] = []"
| "until_close ((now, answer) # script) = (if answer = Done [] then [] else (now, answer) # until_close script)"

lemma read_loop_line:
  "read_loop cutoff out script = Some (Inr s) \<Longrightarrow> newline \<notin> set out \<Longrightarrow>
     s = takeWhile (\<lambda>b. b \<noteq> newline) (out @ received (until_close script))"
proof (induction cutoff out script rule: read_loop.induct)
  case (2 cutoff out now answer script)
  show ?case
  proof (cases answer)
    case (Done chunk)
    consider "chunk = []" | "newline \<in> set chunk" | "chunk \<noteq> []" "newline \<notin> set chunk" by blast
    then show ?thesis
    proof cases
      case 1
      have t: "takeWhile (\<lambda>b. b \<noteq> newline) out = out"
        using "2.prems"(2) by (auto simp: takeWhile_eq_all_conv)
      from 1 "2.prems"(1) Done have "s = out" by simp
      with 1 Done show ?thesis by (simp add: received_def t)
    next
      case 2
      then have "chunk \<noteq> []" by auto
      have "takeWhile (\<lambda>b. b \<noteq> newline) (chunk @ y) = takeWhile (\<lambda>b. b \<noteq> newline) chunk" for y
        using 2 by (simp add: takeWhile_append1[of newline chunk])
      moreover have "takeWhile (\<lambda>b. b \<noteq> newline) (out @ y) = out @ takeWhile (\<lambda>b. b \<noteq> newline) y" for y
        using "2.prems"(2) by (intro takeWhile_append2) auto
      moreover have "s = out @ takeWhile (\<lambda>b. b \<noteq> newline) chunk"
        using "2.prems"(1) 2 \<open>chunk \<noteq> []\<close> Done by simp
      ultimately show ?thesis using Done \<open>chunk \<noteq> []\<close> by (simp add: received_def)
    next
      case 3
      with "2.prems" Done have "read_loop cutoff (out @ chunk) script = Some (Inr s)" by (simp split: if_splits)
      with "2.IH"(1)[OF Done] 3 "2.prems" Done show ?thesis by (simp add: received_def split: if_splits)
    qed
  qed (use 2 in \<open>auto simp: received_def split: if_splits\<close>)
qed simp

text \<open>The line a client reads depends only on the bytes of the connection and not on how they were cut into
  reads, interrupted or delayed: it is what comes before the first newline, or before the close.\<close>

lemma line_is_first_line:
  "read_line_before cutoff script = Some (Inr s) \<Longrightarrow>
     s = from_utf8_lossy (takeWhile (\<lambda>b. b \<noteq> newline) (received (until_close script)))"
  using read_loop_line[of cutoff "[]" script]
  by (cases "read_loop cutoff [] script"; cases "the (read_loop cutoff [] script)") (auto simp: read_line_before_def)

subsection \<open>Concrete runs\<close>

definition plain_wire :: "string \<Rightarrow> string option" where
  "plain_wire s = Some s"

theorem frames_read_back_witness:
  "decode_all plain_wire (concat [u32_be_bytes 2 @ ''ab'', u32_be_bytes 0] @ take 5 (u32_be_bytes 2 @ ''cd''))
     = ([''ab'', []], Unexpected_Eof)"
  by (rule frames_read_back[where to_vec = plain_wire and lost = "''cd''"])
    (simp_all add: wire_roundtrip_def plain_wire_def encode_message_def MAX_FRAME_LEN_def u32_max_def numeral_2_eq_2)

lemma oversized_frame_refused_witness:
  "decode_message plain_wire ([CHR 0xFF, CHR 0xFF, CHR 0xFF, CHR 0xFF] @ ''xy'') = (Inl (Too_Large 4294967295), ''xy'')"
proof -
  have len: "u32_from_be [CHR 0xFF, CHR 0xFF, CHR 0xFF, CHR 0xFF] = 4294967295"
    by (simp add: u32_from_be_def)
  then show ?thesis
    using oversized_frame_refused[of "[CHR 0xFF, CHR 0xFF, CHR 0xFF, CHR 0xFF]" plain_wire "''xy''"]
    by (simp add: MAX_FRAME_LEN_def)
qed

lemma write_is_exact_witness:
  "strict_prefix ''a'' ''abc'' \<and>
   write_all_before 9 ''abc'' [(1, Done 1), (2, Would_Block), (3, Interrupted), (4, Done 2)] = Some (Inr (), ''abc'')"
proof -
  have "write_all_before 9 ''abc'' [(1, Done 1), (20, Would_Block)] = Some (Inl Timed_Out, ''a'')" by simp
  from write_is_exact[OF this] show ?thesis by simp
qed

lemma line_is_first_line_witness:
  "''ok'' = from_utf8_lossy (takeWhile (\<lambda>b. b \<noteq> newline)
     (received (until_close [(1, Done ''o''), (2, Would_Block), (3, Done (''k'' @ newline # ''rest''))])))"
proof (rule line_is_first_line)
  show "read_line_before 9 [(1, Done ''o''), (2, Would_Block), (3, Done (''k'' @ newline # ''rest''))] = Some (Inr ''ok'')"
    by (simp add: read_line_before_def MAX_RESPONSE_BYTES_def lossy_id del: from_utf8_lossy.simps)
qed

end
