(* ===== verification/Stderr_Ring.thy ===== *)
theory Stderr_Ring
  imports Utf8_Lossy
begin

section \<open>The captured error output of a side-car\<close>

text \<open>
  \<open>crates/travsr-plugin-host/src/stderr_ring.rs\<close>. The pipe is the bytes the child writes before it closes
  its end; the reader thread takes bounded lines off it and pushes them on the ring. A read error ends the
  capture like the end of the pipe.
\<close>

definition MAX_LINES :: nat where "MAX_LINES = 64"
definition HEAD_LINES :: nat where "HEAD_LINES = 16"
definition MAX_LINE_BYTES :: nat where "MAX_LINE_BYTES = 8192"

record stderr_ring =
  sr_lines :: "string list"
  sr_elided :: nat

text \<open>The bytes after the next newline, or nothing.\<close>

definition skip_to_newline :: "string \<Rightarrow> string" where
  "skip_to_newline s = tl (dropWhile (\<lambda>c. c \<noteq> newline) s)"

definition read_bounded_line :: "string \<Rightarrow> (string \<times> string) option" where
  "read_bounded_line s =
     (if s = [] then None
      else (let chunk = take MAX_LINE_BYTES s
            in case find_byte (\<lambda>c. c = newline) chunk of
                 Some i \<Rightarrow> Some (take (i + 1) s, drop (i + 1) s)
               | None \<Rightarrow> Some (chunk, skip_to_newline (drop MAX_LINE_BYTES s))))"

definition strip_terminator :: "string \<Rightarrow> string" where
  "strip_terminator raw = drop_cr (if raw \<noteq> [] \<and> last raw = newline then butlast raw else raw)"

definition ring_push :: "string \<Rightarrow> stderr_ring \<Rightarrow> stderr_ring" where
  "ring_push line r =
     (let r' = (if length (sr_lines r) = MAX_LINES
                then r\<lparr>sr_lines := take HEAD_LINES (sr_lines r) @ drop (HEAD_LINES + 1) (sr_lines r),
                       sr_elided := sr_elided r + 1\<rparr>
                else r)
      in r'\<lparr>sr_lines := sr_lines r' @ [line]\<rparr>)"

definition ring_new :: stderr_ring where
  "ring_new = \<lparr>sr_lines = [], sr_elided = 0\<rparr>"

lemma read_bounded_line_shrinks: "read_bounded_line s = Some (raw, rest) \<Longrightarrow> length rest < length s"
proof -
  assume r: "read_bounded_line s = Some (raw, rest)"
  have "length (skip_to_newline t) \<le> length t" for t
    by (simp add: skip_to_newline_def) (metis diff_le_self length_dropWhile_le order_trans)
  from this[of "drop MAX_LINE_BYTES s"] r show ?thesis
    by (auto simp: read_bounded_line_def Let_def MAX_LINE_BYTES_def split: if_splits option.splits)
      (cases s, auto)+
qed

function drain :: "string \<Rightarrow> stderr_ring \<Rightarrow> stderr_ring" where
  "drain s r =
     (case read_bounded_line s of
        None \<Rightarrow> r
      | Some (raw, rest) \<Rightarrow> drain rest (ring_push (from_utf8_lossy (strip_terminator raw)) r))"
  by pat_completeness auto
termination drain
  by (relation "measure (\<lambda>(s, r). length s)") (auto dest: read_bounded_line_shrinks)

declare drain.simps [simp del]

definition ring_tail :: "stderr_ring \<Rightarrow> string" where
  "ring_tail r =
     join_with [newline]
       (take HEAD_LINES (sr_lines r)
        @ (if 0 < sr_elided r then [''... '' @ show_nat (sr_elided r) @ '' lines elided ...''] else [])
        @ drop HEAD_LINES (sr_lines r))"

subsection \<open>What is captured\<close>

text \<open>The lines of a text: its pieces between newlines, without the empty one after a last newline.\<close>

definition line_pieces :: "string \<Rightarrow> string list" where
  "line_pieces s = (let ls = split_on (\<lambda>c. c = newline) s in if last ls = [] then butlast ls else ls)"

definition captured_line :: "string \<Rightarrow> string" where
  "captured_line l = from_utf8_lossy (drop_cr (take MAX_LINE_BYTES l))"

definition ring_of :: "string list \<Rightarrow> stderr_ring" where
  "ring_of ls =
     (if length ls \<le> MAX_LINES then \<lparr>sr_lines = ls, sr_elided = 0\<rparr>
      else \<lparr>sr_lines = take HEAD_LINES ls @ drop (length ls - (MAX_LINES - HEAD_LINES)) ls,
            sr_elided = length ls - MAX_LINES\<rparr>)"

lemma ring_push_of: "ring_push l (ring_of ls) = ring_of (ls @ [l])"
proof (cases "length ls < MAX_LINES")
  case True
  then show ?thesis by (simp add: ring_push_def ring_of_def)
next
  case False
  then have n: "64 \<le> length ls" by (simp add: MAX_LINES_def)
  have e: "Suc (length ls - 48) = length ls - 47" using n by arith
  have "drop 17 (take 16 ls @ drop (length ls - 48) ls) = drop (length ls - 47) ls"
    using n by (simp add: drop_drop e)
  then show ?thesis
    using n by (cases "length ls = 64")
      (simp_all add: ring_push_def ring_of_def MAX_LINES_def HEAD_LINES_def Suc_diff_le min_def)
qed

lemma find_newline_None: "newline \<notin> set l \<Longrightarrow> find_byte (\<lambda>c. c = newline) l = None"
  by (induction l) auto

lemma find_newline_Some: "newline \<notin> set l \<Longrightarrow> find_byte (\<lambda>c. c = newline) (l @ newline # t) = Some (length l)"
  by (induction l) auto

lemma line_pieces_Cons: "newline \<notin> set l \<Longrightarrow> line_pieces (l @ newline # t) = l # line_pieces t"
proof -
  assume "newline \<notin> set l"
  then have "split_on (\<lambda>c. c = newline) (l @ newline # t) = l # split_on (\<lambda>c. c = newline) t"
    by (induction l) auto
  then show ?thesis by (simp add: line_pieces_def Let_def split_on_not_Nil)
qed

lemma line_pieces_last: "newline \<notin> set l \<Longrightarrow> line_pieces l = (if l = [] then [] else [l])"
proof -
  assume "newline \<notin> set l"
  then have "split_on (\<lambda>c. c = newline) l = [l]" by (induction l) auto
  then show ?thesis by (simp add: line_pieces_def)
qed

lemma skip_to_newline_eq:
  "newline \<notin> set l \<Longrightarrow> skip_to_newline l = []"
  "newline \<notin> set l \<Longrightarrow> skip_to_newline (l @ newline # t) = t"
  by (induction l) (auto simp: skip_to_newline_def)

lemma strip_plain: "newline \<notin> set l \<Longrightarrow> strip_terminator l = drop_cr l"
  unfolding strip_terminator_def by (metis last_in_set)

lemma text_cases:
  obtains (end_of_pipe) "newline \<notin> set s" | (line) l t where "s = l @ newline # t" "newline \<notin> set l"
  by (metis split_list_first)

text \<open>One line of the pipe, and what it leaves.\<close>

lemma read_bounded_line_pieces:
  assumes "s \<noteq> []"
  obtains raw rest l where "read_bounded_line s = Some (raw, rest)" "line_pieces s = l # line_pieces rest"
    "strip_terminator raw = drop_cr (take MAX_LINE_BYTES l)"
proof (cases s rule: text_cases)
  case end_of_pipe
  have s: "newline \<notin> set (take n s)" "newline \<notin> set (drop n s)" for n
    using end_of_pipe by (auto dest: in_set_takeD in_set_dropD)
  have "read_bounded_line s = Some (take MAX_LINE_BYTES s, [])"
    using assms s by (simp add: read_bounded_line_def find_newline_None skip_to_newline_eq)
  then show ?thesis by (rule that) (simp_all add: line_pieces_last[OF end_of_pipe] line_pieces_last assms strip_plain s)
next
  case (line l t)
  show ?thesis
  proof (cases "length l < MAX_LINE_BYTES")
    case True
    then have "take MAX_LINE_BYTES s = l @ newline # take (MAX_LINE_BYTES - length l - 1) t"
      by (simp add: line take_Cons')
    then have "read_bounded_line s = Some (l @ [newline], t)"
      using assms line(2) by (simp add: read_bounded_line_def find_newline_Some line(1))
    then show ?thesis
    proof (rule that)
      show "line_pieces s = l # line_pieces t" by (simp add: line line_pieces_Cons)
      show "strip_terminator (l @ [newline]) = drop_cr (take MAX_LINE_BYTES l)"
        using True by (simp add: strip_terminator_def)
    qed
  next
    case False
    then have t: "take MAX_LINE_BYTES s = take MAX_LINE_BYTES l" "drop MAX_LINE_BYTES s = drop MAX_LINE_BYTES l @ newline # t"
      by (simp_all add: line)
    have l: "newline \<notin> set (take n l)" "newline \<notin> set (drop n l)" for n
      using line(2) by (auto dest: in_set_takeD in_set_dropD)
    have "read_bounded_line s = Some (take MAX_LINE_BYTES l, t)"
      using assms by (simp add: read_bounded_line_def t find_newline_None[OF l(1)] skip_to_newline_eq(2)[OF l(2)])
    then show ?thesis by (rule that) (simp_all add: line(1) line_pieces_Cons[OF line(2)] strip_plain[OF l(1)])
  qed
qed

lemma drain_captures: "drain s (ring_of ls) = ring_of (ls @ map captured_line (line_pieces s))"
proof (induction "length s" arbitrary: s ls rule: less_induct)
  case less
  show ?case
  proof (cases "s = []")
    case True
    have "line_pieces [] = []" by (simp add: line_pieces_last)
    with True show ?thesis by (simp add: drain.simps[of "[]"] read_bounded_line_def)
  next
    case False
    then obtain raw rest l where r: "read_bounded_line s = Some (raw, rest)" "line_pieces s = l # line_pieces rest"
      "strip_terminator raw = drop_cr (take MAX_LINE_BYTES l)" by (rule read_bounded_line_pieces)
    have "length rest < length s" using r(1) by (rule read_bounded_line_shrinks)
    from less[OF this] show ?thesis
      by (simp add: drain.simps[of s] r ring_push_of captured_line_def)
  qed
qed

lemma ring_new_of: "ring_new = ring_of []"
  by (simp add: ring_new_def ring_of_def)

lemma ring_of_bounded: "length (sr_lines (ring_of ls)) \<le> MAX_LINES"
  by (simp add: ring_of_def MAX_LINES_def HEAD_LINES_def)

lemma ring_of_lines: "set (sr_lines (ring_of ls)) \<subseteq> set ls"
  by (auto simp: ring_of_def dest: in_set_takeD in_set_dropD)

lemma captured_line_length: "length (captured_line l) \<le> 3 * MAX_LINE_BYTES"
proof -
  have "length (drop_cr x) \<le> length x" for x by (simp add: drop_cr_def)
  from this[of "take MAX_LINE_BYTES l"] lossy_length[of "drop_cr (take MAX_LINE_BYTES l)"]
  show ?thesis by (simp add: captured_line_def)
qed

text \<open>Whatever the child writes, the ring ends with the first sixteen lines and the last forty-eight - all
  of them when there are no more than sixty-four - each cut at 8 KiB before it is decoded, and counts
  exactly the lines in between; a kept line takes at most three times the bytes of the cut.\<close>

lemma stderr_captured:
  "drain s ring_new = ring_of (map captured_line (line_pieces s)) \<and>
   length (sr_lines (drain s ring_new)) \<le> 64 \<and>
   sr_elided (drain s ring_new) = length (line_pieces s) - 64 \<and>
   list_all (\<lambda>l. utf8_ok l \<and> length l \<le> 24576) (sr_lines (drain s ring_new))"
proof -
  have d: "drain s ring_new = ring_of (map captured_line (line_pieces s))"
    using drain_captures[of s "[]"] by (simp add: ring_new_of)
  have "list_all (\<lambda>l. utf8_ok l \<and> length l \<le> 24576) (sr_lines (ring_of (map captured_line ls)))" for ls
    using ring_of_lines[of "map captured_line ls"] captured_line_length
    by (auto simp: list_all_iff captured_line_def lossy_ok MAX_LINE_BYTES_def)
  then show ?thesis
    using ring_of_bounded[of "map captured_line (line_pieces s)"] by (simp add: d) (simp add: ring_of_def MAX_LINES_def)
qed

text \<open>The bound on a kept line is reached: 8 KiB that are not UTF-8 are kept as 24 KiB.\<close>

lemma undecodable_line_triples: "length (captured_line (replicate 8192 CHR 0xFF)) = 24576"
proof -
  have "drop_cr (replicate 8192 CHR 0xFF) = replicate 8192 CHR 0xFF" by (simp add: drop_cr_def)
  moreover have "length (concat (replicate n REPLACEMENT)) = 3 * n" for n
    by (induction n) (simp_all add: REPLACEMENT_def)
  ultimately show ?thesis by (simp add: captured_line_def MAX_LINE_BYTES_def lossy_ff)
qed

end
