(* ===== verification/Doc_Chunks.thy ===== *)
theory Doc_Chunks
  imports Core_Noise Rust_Path "HOL-Library.Code_Target_Nat"
begin

section \<open>Chunks of a Markdown document\<close>

text \<open>
  The heading-scoped chunker of \<open>crates/travsr-analysis/src/markdown.rs\<close>: which files are left out,
  the scan for front matter, fences and headings, sections and their merging, the splitting of a long
  section, the text that is embedded, and the anchors that become node identities.

  Lines are numbered from 1. A slice of lines outside the document would panic; every range that is
  sliced is one of the spans that \<open>doc_chunks_tile\<close> shows to lie inside it. The Unicode tests
  \<open>char::is_alphanumeric\<close> and \<open>str::to_lowercase\<close> are the arguments \<open>alnum\<close> and \<open>lower\<close>.
\<close>

definition MERGE_UP_CHARS :: nat where "MERGE_UP_CHARS = 400"
definition SPLIT_CHARS :: nat where "SPLIT_CHARS = 2600"
definition HARD_SPLIT_CHARS :: nat where "HARD_SPLIT_CHARS = SPLIT_CHARS + SPLIT_CHARS div 2"
definition FENCE_ELIDE_THRESHOLD_LINES :: nat where "FENCE_ELIDE_THRESHOLD_LINES = 40"
definition FENCE_KEEP_LINES :: nat where "FENCE_KEEP_LINES = 10"
definition SLUG_SEGMENT_MAX_CHARS :: nat where "SLUG_SEGMENT_MAX_CHARS = 48"
definition SLUG_TRAIL_MAX_CHARS :: nat where "SLUG_TRAIL_MAX_CHARS = 160"

record doc_chunk =
  dc_anchor :: string
  dc_start :: nat
  dc_end :: nat
  dc_text :: string

subsection \<open>Files that are left out\<close>

text \<open>\<open>Path::file_name\<close> and \<open>Path::file_stem\<close>.\<close>

definition path_file_name :: "string \<Rightarrow> string option" where
  "path_file_name p = (case rev (components p) of Normal s # _ \<Rightarrow> Some s | _ \<Rightarrow> None)"

definition path_file_stem :: "string \<Rightarrow> string option" where
  "path_file_stem p = map_option (\<lambda>name. case rsplit_once (CHR ''.'') name of
     Some (before, _) \<Rightarrow> if before = [] then name else before | None \<Rightarrow> name) (path_file_name p)"

text \<open>The search goes on one byte after an occurrence that does not begin a segment, which is a panic
  when that byte is inside a character. The loop is bounded by the offsets that are left.\<close>

function segment_search :: "string \<Rightarrow> string \<Rightarrow> nat \<Rightarrow> bool option" where
  "segment_search text pattern start =
     (case str_slice text start (length text) of
        None \<Rightarrow> None
      | Some tail \<Rightarrow>
          (case find_str tail pattern of
             None \<Rightarrow> Some False
           | Some pos \<Rightarrow>
               (let found = start + pos
                in if found = 0 \<or> text ! (found - 1) = CHR ''/'' then Some True
                   else segment_search text pattern (found + 1))))"
  by pat_completeness auto
termination
  by (relation "measure (\<lambda>(text, _, start). Suc (length text) - start)") (auto simp: str_slice_def split: if_splits)

declare segment_search.simps [simp del]

definition contains_path_segment :: "string \<Rightarrow> string \<Rightarrow> bool option" where
  "contains_path_segment lower_path pattern =
     (if \<not> ends_with pattern ''/'' then Some (contains_str lower_path pattern)
      else segment_search lower_path pattern 0)"

definition EXCLUDED_STEMS :: "string list" where
  "EXCLUDED_STEMS = [''changelog'', ''changes'', ''history'', ''news'', ''releases'', ''license'', ''code_of_conduct'',
     ''security_contacts'', ''maintainers'', ''owners'']"

definition EXCLUDED_PATH_SUBSTRINGS :: "string list" where
  "EXCLUDED_PATH_SUBSTRINGS = [''changelog/'', ''pull_request_template'', ''issue_template'', ''api/'', ''reference/'',
     ''generated/'', ''.vscode-test/'', ''.app/'', ''bench/'']"

text \<open>\<open>Iterator::any\<close> of a test that can panic.\<close>

fun any_segment :: "string \<Rightarrow> string list \<Rightarrow> bool option" where
  "any_segment text [] = Some False"
| "any_segment text (p # ps) =
     (case contains_path_segment text p of
        None \<Rightarrow> None | Some True \<Rightarrow> Some True | Some False \<Rightarrow> any_segment text ps)"

definition doc_stem :: "string \<Rightarrow> string" where
  "doc_stem file_name =
     (case or_else (strip_suffix file_name ''.mdx'')
             (or_else (strip_suffix file_name ''.markdown'') (strip_suffix file_name ''.md'')) of
        Some stem \<Rightarrow> stem | None \<Rightarrow> file_name)"

definition is_excluded :: "(string \<Rightarrow> string) \<Rightarrow> string \<Rightarrow> string list \<Rightarrow> bool option" where
  "is_excluded lower vname_path extra =
     (let path = lower vname_path;
          file_name = (case path_file_name path of Some n \<Rightarrow> n | None \<Rightarrow> [])
      in if doc_stem file_name \<in> set EXCLUDED_STEMS then Some True
         else case any_segment path EXCLUDED_PATH_SUBSTRINGS of
                None \<Rightarrow> None
              | Some True \<Rightarrow> Some True
              | Some False \<Rightarrow> any_segment path (map lower (filter (\<lambda>p. p \<noteq> []) extra)))"

definition BOM :: string where "BOM = [CHR 0xEF, CHR 0xBB, CHR 0xBF]"

definition strip_bom :: "string \<Rightarrow> string" where
  "strip_bom text = (case strip_prefix text BOM of Some rest \<Rightarrow> rest | None \<Rightarrow> text)"

subsection \<open>The scan\<close>

abbreviation hash :: char where "hash \<equiv> CHR 0x23"
abbreviation backtick :: char where "backtick \<equiv> CHR 0x60"
abbreviation tilde :: char where "tilde \<equiv> CHR 0x7E"

record raw_heading =
  rh_level :: nat
  rh_text :: string
  rh_line :: nat

record scan_result =
  sn_title :: "string option"
  sn_content_start :: nat
  sn_headings :: "raw_heading list"
  sn_total :: nat

type_synonym fence = "(char \<times> nat) option"

definition run_length :: "char \<Rightarrow> string \<Rightarrow> nat" where
  "run_length c s = length (takeWhile (\<lambda>b. b = c) s)"

definition fence_open :: "string \<Rightarrow> fence" where
  "fence_open trimmed =
     (case trimmed of
        [] \<Rightarrow> None
      | c # _ \<Rightarrow> if c \<noteq> backtick \<and> c \<noteq> tilde then None
                 else if 3 \<le> run_length c trimmed then Some (c, run_length c trimmed) else None)"

definition is_fence_close :: "string \<Rightarrow> char \<Rightarrow> nat \<Rightarrow> bool" where
  "is_fence_close trimmed c open_len \<longleftrightarrow>
     starts_with trimmed [c] \<and> open_len \<le> run_length c trimmed
     \<and> list_all is_whitespace (chars (drop (run_length c trimmed) trimmed))"

definition trim_end_byte :: "char \<Rightarrow> string \<Rightarrow> string" where
  "trim_end_byte c s = rev (dropWhile (\<lambda>b. b = c) (rev s))"

definition trim_byte :: "char \<Rightarrow> string \<Rightarrow> string" where
  "trim_byte c s = trim_end_byte c (dropWhile (\<lambda>b. b = c) s)"

definition atx_heading :: "string \<Rightarrow> (nat \<times> string) option" where
  "atx_heading trimmed =
     (let hashes = run_length hash trimmed
      in if hashes = 0 \<or> 6 < hashes then None
         else (let rest = drop hashes trimmed
               in if rest \<noteq> [] \<and> \<not> starts_with rest '' '' \<and> \<not> starts_with rest [CHR 0x09] then None
                  else Some (hashes, trim_end (trim_end_byte hash (trim rest)))))"

definition setext_underline :: "string \<Rightarrow> nat option" where
  "setext_underline trimmed =
     (if trimmed \<noteq> [] \<and> list_all (\<lambda>c. c = CHR ''='') trimmed then Some 1
      else if trimmed \<noteq> [] \<and> list_all (\<lambda>c. c = CHR ''-'') trimmed then Some 2 else None)"

fun front_loop :: "nat \<Rightarrow> string list \<Rightarrow> string option \<Rightarrow> string option \<times> nat" where
  "front_loop offset [] title = (None, 0)"
| "front_loop offset (line # rest) title =
     (let t = trim line
      in if t = ''---'' \<or> t = ''...'' then (title, offset + 1)
         else front_loop (offset + 1) rest
                (case or_else (strip_prefix t ''title:'') (strip_prefix t ''Title:'') of
                   None \<Rightarrow> title
                 | Some r \<Rightarrow> (let v = trim_byte squote (trim_byte dquote (trim r)) in if v = [] then title else Some v)))"

definition MAX_SCAN :: nat where "MAX_SCAN = 200"

definition scan_front_matter :: "string list \<Rightarrow> string option \<times> nat" where
  "scan_front_matter ls =
     (case ls of
        [] \<Rightarrow> (None, 0)
      | l # rest \<Rightarrow> if trim l \<noteq> ''---'' then (None, 0) else front_loop 1 (take MAX_SCAN rest) None)"

text \<open>The loop of \<open>ScanResult::scan\<close>; the pending paragraph is the number and the text of its last line.\<close>

fun scan_loop :: "nat \<Rightarrow> string list \<Rightarrow> fence \<Rightarrow> (nat \<times> string) option \<Rightarrow> raw_heading list" where
  "scan_loop i [] fence pending = []"
| "scan_loop i (line # rest) fence pending =
     (let trimmed = trim line
      in case fence of
           Some (c, n) \<Rightarrow> scan_loop (i + 1) rest (if is_fence_close trimmed c n then None else fence) None
         | None \<Rightarrow>
             (case fence_open trimmed of
                Some f \<Rightarrow> scan_loop (i + 1) rest (Some f) None
              | None \<Rightarrow>
                  if trimmed = [] then scan_loop (i + 1) rest None None
                  else (case atx_heading trimmed of
                          Some (level, t) \<Rightarrow>
                            \<lparr>rh_level = level, rh_text = t, rh_line = i + 1\<rparr> # scan_loop (i + 1) rest None None
                        | None \<Rightarrow>
                            (case (setext_underline trimmed, pending) of
                               (Some level, Some (para_line, para_text)) \<Rightarrow>
                                 \<lparr>rh_level = level, rh_text = para_text, rh_line = para_line\<rparr>
                                   # scan_loop (i + 1) rest None None
                             | _ \<Rightarrow> scan_loop (i + 1) rest None (Some (i + 1, trimmed))))))"

definition scan :: "string \<Rightarrow> scan_result" where
  "scan text =
     (let ls = lines text; (title, content_start) = scan_front_matter ls
      in \<lparr>sn_title = title, sn_content_start = content_start,
          sn_headings = scan_loop content_start (drop content_start ls) None None, sn_total = length ls\<rparr>)"

subsection \<open>Splitting a section\<close>

text \<open>The slice \<open>lines[s - 1..e]\<close> and its length in characters, one more for each line end.\<close>

definition line_range :: "string list \<Rightarrow> nat \<Rightarrow> nat \<Rightarrow> string list" where
  "line_range ls s e = take (e - (s - 1)) (drop (s - 1) ls)"

definition raw_char_len :: "string list \<Rightarrow> nat \<Rightarrow> nat \<Rightarrow> nat" where
  "raw_char_len ls s e =
     (if e < s then 0 else sum_list (map (\<lambda>l. length (chars l) + 1) (line_range ls s e)))"

abbreviation line_at :: "string list \<Rightarrow> nat \<Rightarrow> string" where
  "line_at ls n \<equiv> ls ! (n - 1)"

fun hard_loop :: "string list \<Rightarrow> nat list \<Rightarrow> nat \<Rightarrow> nat \<Rightarrow> nat \<Rightarrow> (nat \<times> nat) list" where
  "hard_loop ls [] e cur_start cur_chars = [(cur_start, e)]"
| "hard_loop ls (k # ks) e cur_start cur_chars =
     (let llen = length (chars (line_at ls k)) + 1
      in if SPLIT_CHARS < cur_chars + llen \<and> cur_start < k
         then (cur_start, k - 1) # hard_loop ls ks e k llen
         else hard_loop ls ks e cur_start (cur_chars + llen))"

definition hard_split_block :: "string list \<Rightarrow> nat \<Rightarrow> nat \<Rightarrow> (nat \<times> nat) list" where
  "hard_split_block ls s e = hard_loop ls [s..<e + 1] e s 0"

fun block_loop :: "string list \<Rightarrow> nat list \<Rightarrow> nat \<Rightarrow> fence \<Rightarrow> nat option \<Rightarrow> (nat \<times> nat) list" where
  "block_loop ls [] e fence start = (case start of Some s \<Rightarrow> [(s, e)] | None \<Rightarrow> [])"
| "block_loop ls (k # ks) e fence start =
     (let trimmed = trim (line_at ls k); begun = (case start of None \<Rightarrow> Some k | Some s \<Rightarrow> Some s)
      in case fence of
           Some (c, n) \<Rightarrow> block_loop ls ks e (if is_fence_close trimmed c n then None else fence) begun
         | None \<Rightarrow>
             (case fence_open trimmed of
                Some f \<Rightarrow> block_loop ls ks e (Some f) begun
              | None \<Rightarrow>
                  if trimmed = [] then (case start of Some s \<Rightarrow> [(s, k - 1)] | None \<Rightarrow> []) @ block_loop ls ks e None None
                  else block_loop ls ks e None begun))"

definition paragraph_blocks :: "string list \<Rightarrow> nat \<Rightarrow> nat \<Rightarrow> (nat \<times> nat) list" where
  "paragraph_blocks ls s e =
     (let blocks = block_loop ls [s..<e + 1] e None None in if blocks = [] then [(s, e)] else blocks)"

fun bin_loop :: "string list \<Rightarrow> nat \<Rightarrow> (nat \<times> nat) list \<Rightarrow> nat option \<Rightarrow> nat \<Rightarrow> (nat \<times> nat) list" where
  "bin_loop ls e [] start n = (case start of Some s \<Rightarrow> [(s, e)] | None \<Rightarrow> [])"
| "bin_loop ls e ((b, b') # blocks) start n =
     (let blen = raw_char_len ls b b'
      in if HARD_SPLIT_CHARS \<le> blen
         then (case start of Some s \<Rightarrow> [(s, max (b - 1) s)] | None \<Rightarrow> []) @ hard_split_block ls b b'
                @ bin_loop ls e blocks None (case start of Some s \<Rightarrow> 0 | None \<Rightarrow> n)
         else case start of
                None \<Rightarrow> bin_loop ls e blocks (Some b) blen
              | Some s \<Rightarrow> if SPLIT_CHARS < n + blen then (s, max (b - 1) s) # bin_loop ls e blocks (Some b) blen
                          else bin_loop ls e blocks (Some s) (n + blen))"

text \<open>\<open>stitch_ranges\<close>: the first range begins at the start, every other ends before the next one.\<close>

fun stitch_ends :: "nat \<Rightarrow> (nat \<times> nat) list \<Rightarrow> (nat \<times> nat) list" where
  "stitch_ends e ((s, _) # (s', e') # ps) = (s, max (s' - 1) s) # stitch_ends e ((s', e') # ps)"
| "stitch_ends e [(s, _)] = [(s, e)]"
| "stitch_ends e [] = []"

definition stitch_ranges :: "(nat \<times> nat) list \<Rightarrow> nat \<Rightarrow> nat \<Rightarrow> (nat \<times> nat) list" where
  "stitch_ranges pieces s e =
     (case pieces of [] \<Rightarrow> [(s, e)] | (_, e') # ps \<Rightarrow> stitch_ends e ((s, e') # ps))"

definition split_section :: "string list \<Rightarrow> nat \<Rightarrow> nat \<Rightarrow> (nat \<times> nat) list" where
  "split_section ls s e =
     (if e < s then [(s, e)]
      else if raw_char_len ls s e \<le> SPLIT_CHARS then [(s, e)]
      else stitch_ranges (bin_loop ls e (paragraph_blocks ls s e) None 0) s e)"

subsection \<open>The embedded text\<close>

definition elision_marker :: "nat \<Rightarrow> string" where
  "elision_marker n = [CHR 0xE2, CHR 0x80, CHR 0xA6] @ '' ('' @ show_nat n @ '' more lines elided)''"

definition fence_close_line :: "string list \<Rightarrow> nat \<Rightarrow> nat \<Rightarrow> char \<Rightarrow> nat \<Rightarrow> nat" where
  "fence_close_line ls i e c n =
     (case find (\<lambda>j. is_fence_close (trim (line_at ls j)) c n) [i + 1..<e + 1] of Some j \<Rightarrow> j | None \<Rightarrow> e)"

definition elided_fence :: "string list \<Rightarrow> nat \<Rightarrow> nat \<Rightarrow> string list" where
  "elided_fence ls i close =
     line_at ls i #
     (if FENCE_ELIDE_THRESHOLD_LINES \<le> close - i + 1
      then (let keep_end = min (i + FENCE_KEEP_LINES) (close - 1); elided = close - 1 - keep_end
            in map (line_at ls) [i + 1..<keep_end + 1] @ (if 0 < elided then [elision_marker elided] else []))
      else map (line_at ls) [i + 1..<close])
     @ (if i < close then [line_at ls close] else [])"

lemma fence_close_line_ge: "i \<le> e \<Longrightarrow> i \<le> fence_close_line ls i e c n"
  by (auto simp: fence_close_line_def split: option.splits dest!: find_Some_iff[THEN iffD1] nth_mem)

function elided_lines :: "string list \<Rightarrow> nat \<Rightarrow> nat \<Rightarrow> string list" where
  "elided_lines ls i e =
     (if e < i then []
      else case fence_open (trim (line_at ls i)) of
             Some (c, n) \<Rightarrow> (let close = fence_close_line ls i e c n in elided_fence ls i close @ elided_lines ls (close + 1) e)
           | None \<Rightarrow> line_at ls i # elided_lines ls (i + 1) e)"
  by pat_completeness auto
termination
proof (relation "measure (\<lambda>(ls, i, e). e + 1 - i)")
  fix ls and i e n close :: nat and f c
  assume "\<not> e < i" "close = fence_close_line ls i e c n"
  then have "i \<le> close" using fence_close_line_ge[of i e ls c n] by simp
  then show "((ls, close + 1, e), (ls, i, e)) \<in> measure (\<lambda>(ls, i, e). e + 1 - i)" using \<open>\<not> e < i\<close> by simp
qed simp_all

declare elided_lines.simps [simp del]

definition elided_body :: "string list \<Rightarrow> nat \<Rightarrow> nat \<Rightarrow> string" where
  "elided_body ls s e = (if e < s then [] else trim (join_with [newline] (elided_lines ls s e)))"

subsection \<open>Anchors\<close>

definition trim_dashes :: "string list \<Rightarrow> string list" where
  "trim_dashes cs = rev (dropWhile (\<lambda>c. c = ''-'') (rev cs))"

fun slug_loop :: "(string \<Rightarrow> bool) \<Rightarrow> string list \<Rightarrow> bool \<Rightarrow> string list \<Rightarrow> string list" where
  "slug_loop alnum [] last_was_dash slug = slug"
| "slug_loop alnum (c # cs) last_was_dash slug =
     (if alnum c then slug_loop alnum cs False (slug @ [to_ascii_lowercase c])
      else if \<not> last_was_dash \<and> slug \<noteq> [] then slug_loop alnum cs True (slug @ [''-''])
      else slug_loop alnum cs last_was_dash slug)"

text \<open>The slug is kept as the list of its characters until it is complete.\<close>

definition slugify_segment :: "(string \<Rightarrow> bool) \<Rightarrow> string \<Rightarrow> string" where
  "slugify_segment alnum text =
     (let slug = trim_dashes (slug_loop alnum (chars text) False []);
          named = (if slug = [] then chars ''section'' else slug)
      in concat (if SLUG_SEGMENT_MAX_CHARS < length named then trim_dashes (take SLUG_SEGMENT_MAX_CHARS named) else named))"

definition slugify_trail :: "(string \<Rightarrow> bool) \<Rightarrow> string list \<Rightarrow> string" where
  "slugify_trail alnum trail =
     (let joined = join_with ''/'' (map (slugify_segment alnum) trail)
      in if length (chars joined) \<le> SLUG_TRAIL_MAX_CHARS then joined
         else concat (take SLUG_TRAIL_MAX_CHARS (chars joined)))"

subsection \<open>Sections\<close>

record doc_section =
  ds_trail :: "string list"
  ds_start :: nat
  ds_end :: nat
  ds_preamble :: bool

definition is_strict_prefix :: "string list \<Rightarrow> string list \<Rightarrow> bool" where
  "is_strict_prefix a b \<longleftrightarrow> a \<noteq> [] \<and> length a < length b \<and> list_all (\<lambda>(x, y). x = y) (zip a b)"

definition preamble_section :: "scan_result \<Rightarrow> string list \<Rightarrow> doc_section list" where
  "preamble_section doc ls =
     (let s = sn_content_start doc + 1;
          e = (case sn_headings doc of [] \<Rightarrow> sn_total doc | h # _ \<Rightarrow> rh_line h - 1)
      in if s \<le> e \<and> s \<le> sn_total doc \<and> list_ex (\<lambda>k. trim (line_at ls k) \<noteq> []) [s..<e + 1]
         then [\<lparr>ds_trail = [], ds_start = s, ds_end = e, ds_preamble = True\<rparr>] else [])"

text \<open>The stack of open headings has its top first; the sections are in the order of the document.\<close>

fun section_loop :: "string list \<Rightarrow> nat \<Rightarrow> raw_heading list \<Rightarrow> (nat \<times> string) list \<Rightarrow> doc_section list \<Rightarrow> doc_section list" where
  "section_loop ls n_lines [] stack output = output"
| "section_loop ls n_lines (h # rest) stack output =
     (let stack' = dropWhile (\<lambda>(level, _). rh_level h \<le> level) stack;
          trail = rev (map snd stack') @ [rh_text h];
          is_leaf = (case rest of [] \<Rightarrow> True | nxt # _ \<Rightarrow> rh_level nxt \<le> rh_level h);
          section_end = (case rest of [] \<Rightarrow> n_lines | nxt # _ \<Rightarrow> rh_line nxt - 1);
          body_len = (if rh_line h < section_end then raw_char_len ls (rh_line h + 1) section_end else 0);
          mergeable = (output \<noteq> [] \<and> \<not> ds_preamble (last output) \<and> is_strict_prefix (ds_trail (last output)) trail)
      in section_loop ls n_lines rest ((rh_level h, rh_text h) # stack')
           (if is_leaf \<and> body_len < MERGE_UP_CHARS \<and> mergeable
            then butlast output @ [(last output)\<lparr>ds_end := section_end\<rparr>]
            else output @ [\<lparr>ds_trail = trail, ds_start = rh_line h, ds_end = section_end, ds_preamble = False\<rparr>]))"

definition build_sections :: "scan_result \<Rightarrow> string list \<Rightarrow> doc_section list" where
  "build_sections doc ls = section_loop ls (sn_total doc) (sn_headings doc) [] (preamble_section doc ls)"

subsection \<open>Chunks\<close>

definition doc_title :: "scan_result \<Rightarrow> string \<Rightarrow> string" where
  "doc_title doc vname_path =
     (case or_else (sn_title doc) (map_option rh_text (find (\<lambda>h. rh_level h = 1) (sn_headings doc))) of
        Some t \<Rightarrow> t
      | None \<Rightarrow> (case path_file_stem vname_path of Some s \<Rightarrow> s | None \<Rightarrow> ''untitled''))"

definition base_anchor :: "(string \<Rightarrow> bool) \<Rightarrow> doc_section \<Rightarrow> string" where
  "base_anchor alnum s = (if ds_preamble s then ''_preamble'' else slugify_trail alnum (ds_trail s))"

definition numbered_anchor :: "string \<Rightarrow> nat \<Rightarrow> nat \<Rightarrow> string" where
  "numbered_anchor base count piece =
     (base @ (if count = 1 then [] else ''~'' @ show_nat count)) @ (if piece = 0 then [] else ''#'' @ show_nat (piece + 1))"

definition chunk_header :: "string \<Rightarrow> string \<Rightarrow> doc_section \<Rightarrow> string" where
  "chunk_header title vname_path s =
     (if ds_trail s = [] then ''doc: '' @ title @ '' | path: '' @ vname_path
      else ''doc: '' @ title @ '' > '' @ join_with '' > '' (ds_trail s) @ '' | path: '' @ vname_path)"

definition section_pieces :: "string list \<Rightarrow> doc_section \<Rightarrow> (nat \<times> nat) list" where
  "section_pieces ls s = split_section ls (if ds_preamble s then ds_start s else ds_start s + 1) (ds_end s)"

definition piece_chunk :: "string list \<Rightarrow> string \<Rightarrow> string \<Rightarrow> nat \<Rightarrow> doc_section \<Rightarrow> nat \<Rightarrow> nat \<times> nat \<Rightarrow> doc_chunk" where
  "piece_chunk ls header base count s idx piece =
     (let body = elided_body ls (fst piece) (snd piece)
      in \<lparr>dc_anchor = numbered_anchor base count idx,
          dc_start = (if idx = 0 then ds_start s else fst piece), dc_end = snd piece,
          dc_text = (if body = [] then header else header @ [newline] @ body)\<rparr>)"

text \<open>The counts of the anchors that were used so far are a function to numbers.\<close>

fun section_chunks :: "(string \<Rightarrow> bool) \<Rightarrow> string list \<Rightarrow> string \<Rightarrow> string \<Rightarrow> (string \<Rightarrow> nat) \<Rightarrow> doc_section list \<Rightarrow> doc_chunk list" where
  "section_chunks alnum ls title vname_path counts [] = []"
| "section_chunks alnum ls title vname_path counts (s # sections) =
     (let base = base_anchor alnum s; counts' = counts(base := counts base + 1); pieces = section_pieces ls s
      in map (\<lambda>(idx, piece). piece_chunk ls (chunk_header title vname_path s) base (counts' base) s idx piece) (enumerate 0 pieces)
         @ section_chunks alnum ls title vname_path counts' sections)"

definition build_chunks :: "(string \<Rightarrow> bool) \<Rightarrow> scan_result \<Rightarrow> string \<Rightarrow> string \<Rightarrow> doc_chunk list" where
  "build_chunks alnum doc text vname_path =
     (let ls = lines text; sections = build_sections doc ls
      in if ls = [] then [] else if sections = [] then []
         else section_chunks alnum ls (doc_title doc vname_path) vname_path (\<lambda>_. 0) sections)"

definition chunk_markdown :: "(string \<Rightarrow> bool) \<Rightarrow> string \<Rightarrow> string \<Rightarrow> doc_chunk list" where
  "chunk_markdown alnum text vname_path = (let stripped = strip_bom text in build_chunks alnum (scan stripped) stripped vname_path)"

subsection \<open>Spans\<close>

text \<open>A list of spans tiles the lines from \<open>a\<close> up to, and without, \<open>z\<close>.\<close>

fun tile :: "nat \<Rightarrow> (nat \<times> nat) list \<Rightarrow> nat \<Rightarrow> bool" where
  "tile a [] z \<longleftrightarrow> a = z"
| "tile a ((s, e) # ps) z \<longleftrightarrow> s = a \<and> s \<le> e \<and> tile (e + 1) ps z"

definition chunk_span :: "doc_chunk \<Rightarrow> nat \<times> nat" where
  "chunk_span c = (dc_start c, dc_end c)"

definition section_span :: "doc_section \<Rightarrow> nat \<times> nat" where
  "section_span s = (ds_start s, ds_end s)"

lemma tile_append: "tile a (ps @ qs) z \<longleftrightarrow> (\<exists>m. tile a ps m \<and> tile m qs z)"
  by (induction a ps z rule: tile.induct) auto

lemma tile_le: "tile a ps z \<Longrightarrow> a \<le> z"
  by (induction a ps z rule: tile.induct) auto

text \<open>The starts of a list of pieces increase and lie between two bounds.\<close>

definition starts_in :: "nat \<Rightarrow> nat \<Rightarrow> (nat \<times> nat) list \<Rightarrow> bool" where
  "starts_in a e ps \<longleftrightarrow> sorted_wrt (<) (map fst ps) \<and> set (map fst ps) \<subseteq> {a..e}"

lemma starts_in_Nil [simp]: "starts_in a e []"
  by (simp add: starts_in_def)

lemma starts_in_Cons: "starts_in a e (p # ps) \<longleftrightarrow> a \<le> fst p \<and> fst p \<le> e \<and> starts_in (fst p + 1) e ps"
proof
  assume "starts_in a e (p # ps)"
  then have s: "fst q \<in> {a..e} \<and> fst p < fst q" if "q \<in> set ps" for q using that by (fastforce simp: starts_in_def)
  from \<open>starts_in a e (p # ps)\<close> show "a \<le> fst p \<and> fst p \<le> e \<and> starts_in (fst p + 1) e ps"
    using s by (fastforce simp: starts_in_def)
next
  assume *: "a \<le> fst p \<and> fst p \<le> e \<and> starts_in (fst p + 1) e ps"
  then have "fst q \<in> {fst p + 1..e}" if "q \<in> set ps" for q using that by (auto simp: starts_in_def)
  with * show "starts_in a e (p # ps)" by (fastforce simp: starts_in_def)
qed

lemma starts_in_append:
  assumes "starts_in a m ps" "starts_in (m + 1) e qs" "m \<le> e" "a \<le> m + 1"
  shows "starts_in a e (ps @ qs)"
proof -
  have "fst p \<in> {a..m}" if "p \<in> set ps" for p using assms(1) that by (auto simp: starts_in_def)
  moreover have "fst q \<in> {m + 1..e}" if "q \<in> set qs" for q using assms(2) that by (auto simp: starts_in_def)
  ultimately show ?thesis using assms by (fastforce simp: starts_in_def sorted_wrt_append)
qed

lemma starts_in_mono: "starts_in a e ps \<Longrightarrow> a' \<le> a \<Longrightarrow> starts_in a' e ps"
  by (auto simp: starts_in_def)

lemma stitch_ends_tile:
  "starts_in a e ps \<Longrightarrow> ps \<noteq> [] \<Longrightarrow> tile (fst (hd ps)) (stitch_ends e ps) (e + 1)"
  by (induction e ps arbitrary: a rule: stitch_ends.induct) (auto simp: starts_in_Cons)

lemma stitch_ranges_tile: "starts_in s e ps \<Longrightarrow> s \<le> e \<Longrightarrow> tile s (stitch_ranges ps s e) (e + 1)"
proof (cases ps)
  case (Cons p qs)
  assume *: "starts_in s e ps" "s \<le> e"
  then have "starts_in s e ((s, snd p) # qs)"
    using Cons by (auto simp: starts_in_Cons elim: starts_in_mono)
  from stitch_ends_tile[OF this] Cons show ?thesis by (cases p) (simp add: stitch_ranges_def)
qed (simp add: stitch_ranges_def)

lemma hard_loop_starts:
  "ks = [m..<e + 1] \<Longrightarrow> cur \<le> m \<Longrightarrow> m \<le> e + 1 \<Longrightarrow> cur \<le> e \<Longrightarrow> starts_in cur e (hard_loop ls ks e cur n)"
proof (induction ls ks e cur n arbitrary: m rule: hard_loop.induct)
  case (2 ls k ks e cur n)
  then have k: "k = m" "ks = [m + 1..<e + 1]" "m \<le> e"
    using upt_eq_Cons_conv[of m "e + 1" k ks] by auto
  let ?cut = "SPLIT_CHARS < n + (length (chars (line_at ls k)) + 1) \<and> cur < k"
  show ?case
  proof (cases ?cut)
    case True
    have "starts_in k e (hard_loop ls ks e k (length (chars (line_at ls k)) + 1))"
      using "2.IH"(1)[OF refl True k(2)] k by simp
    with True "2.prems"(2-4) k(1,3) show ?thesis
      by (simp only: hard_loop.simps Let_def if_True starts_in_Cons fst_conv) (auto simp: starts_in_Cons elim: starts_in_mono)
  next
    case False
    have "starts_in cur e (hard_loop ls ks e cur (n + (length (chars (line_at ls k)) + 1)))"
      using "2.IH"(2)[OF refl False k(2)] "2.prems" k by simp
    with False show ?thesis by (simp only: hard_loop.simps Let_def if_False)
  qed
qed (simp add: starts_in_Cons)

lemma hard_split_starts: "s \<le> e \<Longrightarrow> starts_in s e (hard_split_block ls s e)"
  unfolding hard_split_block_def by (rule hard_loop_starts[where m = s]) auto

text \<open>Blocks are apart and in order.\<close>

fun blocks_in :: "nat \<Rightarrow> nat \<Rightarrow> (nat \<times> nat) list \<Rightarrow> bool" where
  "blocks_in a e [] \<longleftrightarrow> True"
| "blocks_in a e ((b, b') # bs) \<longleftrightarrow> a \<le> b \<and> b \<le> b' \<and> b' \<le> e \<and> blocks_in (b' + 1) e bs"

lemma blocks_in_mono: "blocks_in a e bs \<Longrightarrow> a' \<le> a \<Longrightarrow> blocks_in a' e bs"
  by (cases bs) auto

lemma block_loop_in:
  "ks = [m..<e + 1] \<Longrightarrow> m \<le> e + 1 \<Longrightarrow> (case start of Some s \<Rightarrow> a \<le> s \<and> s < m | None \<Rightarrow> a \<le> m)
     \<Longrightarrow> blocks_in a e (block_loop ls ks e fence start)"
proof (induction ls ks e fence start arbitrary: m a rule: block_loop.induct)
  case (2 ls k ks e fence start)
  then have k: "k = m" "ks = [m + 1..<e + 1]" "m \<le> e"
    using upt_eq_Cons_conv[of m "e + 1" k ks] by auto
  let ?t = "trim (line_at ls k)" and ?b = "case start of None \<Rightarrow> Some k | Some s \<Rightarrow> Some s"
  have begun: "case ?b of Some s \<Rightarrow> a \<le> s \<and> s < m + 1 | None \<Rightarrow> a \<le> m + 1"
    using "2.prems"(3) k(1) by (auto split: option.splits)
  show ?case
  proof (cases fence)
    case (Some f)
    obtain c n where f: "f = (c, n)" by (cases f)
    show ?thesis
      using "2.IH"(4)[OF refl refl Some f[symmetric] k(2) _ begun] k(3) Some f by (simp split: if_splits)
  next
    case None
    show ?thesis
    proof (cases "fence_open ?t")
      case (Some f)
      with None show ?thesis using "2.IH"(3)[OF refl refl None Some k(2) _ begun] k(3) by (simp add: Let_def)
    next
      case unopened: None
      show ?thesis
      proof (cases "?t = []")
        case True
        have rest: "blocks_in m e (block_loop ls ks e None None)"
          using "2.IH"(1)[OF refl refl None unopened True k(2), of m] k(3) by simp
        show ?thesis
          using None unopened True rest "2.prems"(3) k by (auto simp: Let_def split: option.splits elim: blocks_in_mono)
      next
        case False
        with None unopened show ?thesis using "2.IH"(2)[OF refl refl None unopened False k(2) _ begun] k(3) by (simp add: Let_def)
      qed
    qed
  qed
qed (auto split: option.splits)

lemma paragraph_blocks_in: "s \<le> e \<Longrightarrow> blocks_in s e (paragraph_blocks ls s e)"
  using block_loop_in[OF refl, where m = s and e = e and start = None and a = s and ls = ls and fence = None] by (simp add: paragraph_blocks_def Let_def)

lemma bin_loop_starts:
  "blocks_in a e bs \<Longrightarrow> (case start of Some s \<Rightarrow> s < a | None \<Rightarrow> True) \<Longrightarrow> a \<le> e + 1
     \<Longrightarrow> starts_in (case start of Some s \<Rightarrow> s | None \<Rightarrow> a) e (bin_loop ls e bs start n)"
proof (induction ls e bs start n arbitrary: a rule: bin_loop.induct)
  case (2 ls e b b' bs start n)
  have b: "a \<le> b" "b \<le> b'" "b' \<le> e" "blocks_in (b' + 1) e bs" using "2.prems"(1) by auto
  show ?case
  proof (cases "HARD_SPLIT_CHARS \<le> raw_char_len ls b b'")
    case True
    have rest: "starts_in (b' + 1) e (bin_loop ls e bs None (case start of Some s \<Rightarrow> 0 | None \<Rightarrow> n))"
      using "2.IH"(1)[OF refl True b(4)] b by simp
    have hard: "starts_in b e (hard_split_block ls b b' @ bin_loop ls e bs None (case start of Some s \<Rightarrow> 0 | None \<Rightarrow> n))"
      using starts_in_append[OF hard_split_starts[OF b(2)] rest b(3)] b by simp
    then show ?thesis
      using True "2.prems"(2) b by (cases start) (auto simp: Let_def starts_in_Cons elim: starts_in_mono)
  next
    case False
    show ?thesis
    proof (cases start)
      case None
      with False show ?thesis using "2.IH"(2)[OF refl False None b(4)] b by (auto simp: Let_def elim: starts_in_mono)
    next
      case (Some s)
      have sa: "s < b" using Some "2.prems"(2) b by simp
      show ?thesis
      proof (cases "SPLIT_CHARS < n + raw_char_len ls b b'")
        case True
        have "starts_in b e (bin_loop ls e bs (Some b) (raw_char_len ls b b'))"
          using "2.IH"(3)[OF refl False Some True b(4)] b by simp
        with sa have "starts_in (s + 1) e (bin_loop ls e bs (Some b) (raw_char_len ls b b'))" by (auto elim: starts_in_mono)
        with Some False True sa b show ?thesis by (simp add: Let_def starts_in_Cons)
      next
        case short: False
        show ?thesis using "2.IH"(4)[OF refl False Some short b(4)] Some False short sa b by (simp add: Let_def)
      qed
    qed
  qed
qed (auto simp: starts_in_Cons split: option.splits)

lemma split_section_tile:
  assumes "s \<le> e"
  shows "tile s (split_section ls s e) (e + 1)"
proof -
  have "starts_in s e (bin_loop ls e (paragraph_blocks ls s e) None 0)"
    using bin_loop_starts[OF paragraph_blocks_in[OF assms], where start = None] assms by simp
  from stitch_ranges_tile[OF this assms] assms show ?thesis by (simp add: split_section_def)
qed

subsection \<open>Chunks tile the document\<close>

definition headings_in :: "nat \<Rightarrow> nat \<Rightarrow> raw_heading list \<Rightarrow> bool" where
  "headings_in lo hi hs \<longleftrightarrow> sorted_wrt (<) (map rh_line hs) \<and> (\<forall>h\<in>set hs. lo \<le> rh_line h \<and> rh_line h \<le> hi)"

lemma headings_in_Cons:
  "headings_in lo hi (h # hs) \<longleftrightarrow> lo \<le> rh_line h \<and> rh_line h \<le> hi \<and> headings_in (rh_line h + 1) hi hs"
  by (fastforce simp: headings_in_def)

lemma headings_in_mono: "headings_in lo hi hs \<Longrightarrow> lo' \<le> lo \<Longrightarrow> headings_in lo' hi hs"
  by (fastforce simp: headings_in_def)

lemma scan_loop_lines:
  "(case pending of Some (p, _) \<Rightarrow> lo \<le> p \<and> p \<le> i | None \<Rightarrow> lo \<le> i + 1) \<Longrightarrow>
     headings_in lo (i + length ls) (scan_loop i ls fence pending)"
proof (induction ls arbitrary: i fence pending lo)
  case Nil
  then show ?case by (simp add: headings_in_def)
next
  case (Cons line rest)
  have lo: "lo \<le> i + 1" using Cons.prems by (auto split: option.splits)
  have skip: "headings_in lo (i + 1 + length rest) (scan_loop (i + 1) rest fence' None)" for fence'
    using Cons.IH[where pending = None and lo = lo and i = "i + 1"] lo by simp
  have next_h: "headings_in (i + 2) (i + 1 + length rest) (scan_loop (i + 1) rest None None)"
    using Cons.IH[where pending = None and lo = "i + 2" and i = "i + 1"] by simp
  have para: "headings_in lo (i + 1 + length rest) (scan_loop (i + 1) rest None (Some (i + 1, t)))" for t
    using Cons.IH[where pending = "Some (i + 1, t)" and lo = lo and i = "i + 1"] lo by simp
  have setext: "headings_in (p + 1) (i + 1 + length rest) (scan_loop (i + 1) rest None None)" if "p \<le> i" for p
    using next_h that by (auto elim: headings_in_mono)
  show ?case
    using skip next_h para lo setext Cons.prems
    by (simp add: Let_def headings_in_Cons split: option.split prod.split) (auto split: option.splits)
qed


lemma front_loop_bound: "snd (front_loop offset ls title) \<le> offset + length ls"
proof (induction offset ls title rule: front_loop.induct)
  case (2 offset line rest title)
  then show ?case by (auto simp: Let_def intro: le_trans)
qed simp

lemma content_start_bound: "sn_content_start (scan t) \<le> length (lines t)"
proof -
  have "snd (scan_front_matter ls) \<le> length ls" for ls
    using front_loop_bound[of 1 "take MAX_SCAN (tl ls)" None] by (cases ls) (auto simp: scan_front_matter_def)
  from this[of "lines t"] show ?thesis by (auto simp: scan_def Let_def split: prod.split)
qed

lemma scan_headings: "headings_in (sn_content_start (scan t) + 1) (length (lines t)) (sn_headings (scan t))"
proof -
  obtain title c where c: "scan_front_matter (lines t) = (title, c)" by fastforce
  have "c \<le> length (lines t)" using content_start_bound[of t] c by (simp add: scan_def Let_def)
  with scan_loop_lines[where pending = None and lo = "c + 1" and i = c and ls = "drop c (lines t)" and fence = None] c
  show ?thesis by (simp add: scan_def Let_def)
qed

lemma scan_total [simp]: "sn_total (scan t) = length (lines t)"
  by (simp add: scan_def Let_def split: prod.split)

definition next_start :: "nat \<Rightarrow> raw_heading list \<Rightarrow> nat" where
  "next_start n hs = (case hs of [] \<Rightarrow> n + 1 | h # _ \<Rightarrow> rh_line h)"

lemma section_loop_tile:
  "headings_in lo n hs \<Longrightarrow> 1 \<le> lo \<Longrightarrow> tile a (map section_span secs) (next_start n hs)
     \<Longrightarrow> tile a (map section_span (section_loop ls n hs stack secs)) (n + 1)"
proof (induction hs arbitrary: lo stack secs)
  case (Cons h hs)
  have h: "lo \<le> rh_line h" "rh_line h \<le> n" "headings_in (rh_line h + 1) n hs" "rh_line h < next_start n hs"
    using Cons.prems(1) by (auto simp: headings_in_Cons next_start_def split: list.split)
  define e where "e = (case hs of [] \<Rightarrow> n | nxt # _ \<Rightarrow> rh_line nxt - 1)"
  have e: "e + 1 = next_start n hs" "rh_line h \<le> e"
    using h(4) by (auto simp: e_def next_start_def split: list.splits)
  have fresh: "tile a (map section_span (secs @ [s])) (next_start n hs)"
    if "section_span s = (rh_line h, e)" for s
    using Cons.prems(3) that e by (auto simp: tile_append next_start_def)
  have merged: "tile a (map section_span (butlast secs @ [(last secs)\<lparr>ds_end := e\<rparr>])) (next_start n hs)"
    if "secs \<noteq> []"
  proof -
    have "secs = butlast secs @ [last secs]" using that by simp
    then have "tile a (map section_span (butlast secs @ [last secs])) (rh_line h)"
      using Cons.prems(3) by (simp add: next_start_def)
    then show ?thesis using e by (auto simp: tile_append section_span_def)
  qed
  have lo: "1 \<le> rh_line h + 1" by simp
  show ?case
    unfolding section_loop.simps Let_def e_def[symmetric]
    by (rule Cons.IH[OF h(3) lo]) (split if_split, intro conjI impI, rule merged, blast, rule fresh, simp add: section_span_def)
qed (simp add: next_start_def)

definition blank_lines :: "string list \<Rightarrow> nat \<Rightarrow> nat \<Rightarrow> bool" where
  "blank_lines ls s e \<longleftrightarrow> list_all (\<lambda>l. trim l = []) (line_range ls s e)"

lemma line_range_nth: "1 \<le> s \<Longrightarrow> e \<le> length ls \<Longrightarrow> line_range ls s e = map (line_at ls) [s..<e + 1]"
  by (rule nth_equalityI) (auto simp: line_range_def Suc_diff_le simp del: upt_Suc)

lemma build_sections_tile:
  fixes t
  defines "ls \<equiv> lines t" and "c \<equiv> sn_content_start (scan t)"
  shows "\<exists>a. c < a \<and> tile a (map section_span (build_sections (scan t) ls)) (length ls + 1) \<and> blank_lines ls (c + 1) (a - 1)"
proof -
  let ?hs = "sn_headings (scan t)" and ?n = "length ls"
  have hs: "headings_in (c + 1) ?n ?hs" using scan_headings[of t] by (simp add: ls_def c_def)
  have c: "c \<le> ?n" using content_start_bound[of t] by (simp add: ls_def c_def)
  define e where "e = (case ?hs of [] \<Rightarrow> ?n | h # _ \<Rightarrow> rh_line h - 1)"
  have e: "e + 1 = next_start ?n ?hs" "c \<le> e" "e \<le> ?n" and e_scan:
      "(case ?hs of [] \<Rightarrow> sn_total (scan t) | h # _ \<Rightarrow> rh_line h - 1) = e"
    using hs c by (auto simp: e_def next_start_def headings_in_Cons ls_def split: list.splits)
  note run = section_loop_tile[OF hs, of _ "preamble_section (scan t) ls" ls "[]"]
  show ?thesis
  proof (cases "preamble_section (scan t) ls")
    case Nil
    have "trim (line_at ls k) = []" if "k \<in> set [c + 1..<e + 1]" for k
      using Nil that e(3)
      by (auto simp: preamble_section_def Let_def e_scan c_def[symmetric] ls_def[symmetric] list_ex_iff
          simp del: upt_Suc split: if_splits)
    then have "blank_lines ls (c + 1) e"
      using line_range_nth[of "c + 1" e ls] e(3) by (auto simp: blank_lines_def list_all_iff simp del: upt_Suc)
    with Nil run[of "next_start ?n ?hs"] e(2) show ?thesis
      unfolding e(1)[symmetric] by (intro exI[of _ "e + 1"]) (auto simp: build_sections_def ls_def)
  next
    case (Cons p ps)
    then have "section_span p = (c + 1, e)" "ps = []" "c + 1 \<le> e"
      by (auto simp: preamble_section_def Let_def e_scan c_def[symmetric] section_span_def split: if_splits)
    with Cons e have "tile (c + 1) (map section_span (preamble_section (scan t) ls)) (next_start ?n ?hs)" by simp
    from run[OF _ this] show ?thesis
      by (intro exI[of _ "c + 1"]) (auto simp: build_sections_def ls_def blank_lines_def line_range_def)
  qed
qed

lemma piece_spans:
  assumes "ds_start s \<le> ds_end s"
  shows "tile (ds_start s) (map chunk_span (map (\<lambda>(idx, piece). piece_chunk ls header base count s idx piece)
           (enumerate 0 (section_pieces ls s)))) (ds_end s + 1)"
proof -
  let ?from = "if ds_preamble s then ds_start s else ds_start s + 1"
  have spans: "map chunk_span (map (\<lambda>(idx, piece). piece_chunk ls header base count s idx piece) (enumerate 0 (p # ps)))
      = (ds_start s, snd p) # ps" for p ps
  proof -
    have "map chunk_span (map (\<lambda>(idx, piece). piece_chunk ls header base count s idx piece) (enumerate n qs)) = qs"
      if "0 < n" for n qs
      using that by (induction qs arbitrary: n) (auto simp: piece_chunk_def chunk_span_def Let_def)
    from this[of 1 ps] show ?thesis by (simp add: piece_chunk_def chunk_span_def Let_def)
  qed
  show ?thesis
  proof (cases "?from \<le> ds_end s")
    case True
    from split_section_tile[OF this, of ls] obtain p ps
      where p: "section_pieces ls s = p # ps" "tile ?from (p # ps) (ds_end s + 1)"
      by (cases "section_pieces ls s") (use True in \<open>auto simp: section_pieces_def\<close>)
    then have "tile (ds_start s) ((ds_start s, snd p) # ps) (ds_end s + 1)" by (cases p) (auto split: if_splits)
    then show ?thesis unfolding p(1) spans .
  next
    case False
    with assms have "ds_end s = ds_start s" "section_pieces ls s = [(ds_start s + 1, ds_end s)]"
      by (auto simp: section_pieces_def split_section_def split: if_splits)
    then show ?thesis by (simp only: spans) simp
  qed
qed

lemma section_chunks_tile:
  "tile a (map section_span secs) z \<Longrightarrow> tile a (map chunk_span (section_chunks alnum ls title path counts secs)) z"
proof (induction secs arbitrary: a counts)
  case (Cons s secs)
  then have s: "ds_start s = a" "a \<le> ds_end s" "tile (ds_end s + 1) (map section_span secs) z"
    by (auto simp: section_span_def[of s])
  show ?case
    unfolding section_chunks.simps Let_def map_append tile_append
    using piece_spans[of s ls] Cons.IH[OF s(3)] s(1,2) by blast
qed simp

text \<open>C25: The chunks of a document partition it: their line ranges are contiguous and do not overlap, the last
  one ends with the document, and what comes before the first, after the front matter, is blank. So every
  line that is not blank is in exactly one chunk, whatever the fences, headings and the merging and
  splitting of sections.\<close>

theorem doc_chunks_tile:
  "\<exists>a. sn_content_start (scan (strip_bom text)) < a \<and>
     tile a (map chunk_span (chunk_markdown alnum text path)) (length (lines (strip_bom text)) + 1) \<and>
     blank_lines (lines (strip_bom text)) (sn_content_start (scan (strip_bom text)) + 1) (a - 1)"
proof -
  let ?t = "strip_bom text"
  obtain a where a: "sn_content_start (scan ?t) < a"
      "tile a (map section_span (build_sections (scan ?t) (lines ?t))) (length (lines ?t) + 1)"
      "blank_lines (lines ?t) (sn_content_start (scan ?t) + 1) (a - 1)"
    using build_sections_tile[of ?t] by blast
  have "tile a (map chunk_span (chunk_markdown alnum text path)) (length (lines ?t) + 1)"
  proof (cases "lines ?t = []")
    case True
    with tile_le[OF a(2)] a(1) have "a = 1" by simp
    with True show ?thesis by (simp add: chunk_markdown_def build_chunks_def)
  next
    case False
    with section_chunks_tile[OF a(2)] a(2) show ?thesis by (auto simp: chunk_markdown_def build_chunks_def Let_def)
  qed
  with a show ?thesis by blast
qed

subsection \<open>Anchors are distinct\<close>

lemma show_nat_inj: "show_nat m = show_nat n \<longleftrightarrow> m = n"
  by (metis digits_value_show option.inject)

definition plain_anchor :: "string \<Rightarrow> bool" where
  "plain_anchor s \<longleftrightarrow> tilde \<notin> set s \<and> hash \<notin> set s"

text \<open>What the code relies on of \<open>char::is_alphanumeric\<close>: it is false of the two marks.\<close>

definition alnum_spares_marks :: "(string \<Rightarrow> bool) \<Rightarrow> bool" where
  "alnum_spares_marks alnum \<longleftrightarrow> (\<forall>c. tilde \<in> set c \<or> hash \<in> set c \<longrightarrow> \<not> alnum c)"

lemma digits_plain: "plain_anchor (show_nat n)"
  using show_nat_digits[of n] by (auto simp: plain_anchor_def is_ascii_digit_def)

lemma mark_inj:
  assumes "plain_anchor b" "plain_anchor b'"
    "numbered_anchor b k i = numbered_anchor b' k' i'" "1 \<le> k" "1 \<le> k'"
  shows "b = b' \<and> k = k' \<and> i = i'"
proof -
  define X where "X = (\<lambda>k :: nat. if k = 1 then [] else tilde # show_nat k)"
  define Y where "Y = (\<lambda>i :: nat. if i = 0 then [] else hash # show_nat (i + 1))"
  have shape: "numbered_anchor b k i = b @ X k @ Y i" for b k i
    by (simp add: numbered_anchor_def X_def Y_def)
  have base: "takeWhile (\<lambda>c. c \<noteq> tilde \<and> c \<noteq> hash) (b @ X k @ Y i) = b" if "plain_anchor b" for b k i
    using that by (subst takeWhile_append2) (auto simp: plain_anchor_def X_def Y_def)
  have "b = b'" using base[OF assms(1)] base[OF assms(2)] assms(3) unfolding shape by metis
  moreover from this assms(3) have rest: "X k @ Y i = X k' @ Y i'" unfolding shape by simp
  have count: "takeWhile (\<lambda>c. c \<noteq> hash) (X k @ Y i) = X k" for k i
    using digits_plain[of k] by (subst takeWhile_append2) (auto simp: plain_anchor_def X_def Y_def split: if_splits)
  have "X k = X k'" using count[of k i] count[of k' i'] rest by metis
  moreover from this rest have "Y i = Y i'" by simp
  ultimately show ?thesis by (auto simp: X_def Y_def show_nat_inj split: if_splits)
qed

lemma ascii_lower_plain: "plain_anchor s \<Longrightarrow> plain_anchor (to_ascii_lowercase s)"
proof -
  have "ascii_lower c = c" if "ascii_lower c \<in> {tilde, hash}" for c
  proof (rule ccontr)
    assume "ascii_lower c \<noteq> c"
    then have c: "is_ascii_upper c" "ascii_lower c = char_of (byte c + 32)" by (auto simp: ascii_lower_def split: if_splits)
    then have "byte (ascii_lower c) = byte c + 32" by (simp add: is_ascii_upper_def)
    with that c(1) show False by (auto simp: is_ascii_upper_def)
  qed
  then show "plain_anchor s \<Longrightarrow> plain_anchor (to_ascii_lowercase s)" by (fastforce simp: plain_anchor_def)
qed

lemma plain_concat: "plain_anchor (concat cs) \<longleftrightarrow> (\<forall>c\<in>set cs. plain_anchor c)"
  by (auto simp: plain_anchor_def)

lemma slug_loop_plain:
  "alnum_spares_marks alnum \<Longrightarrow> \<forall>c\<in>set slug. plain_anchor c \<Longrightarrow> \<forall>c\<in>set (slug_loop alnum cs d slug). plain_anchor c"
proof (induction alnum cs d slug rule: slug_loop.induct)
  case (2 alnum c cs d slug)
  have "plain_anchor (to_ascii_lowercase c)" if "alnum c"
  proof -
    have "plain_anchor c" using that "2.prems"(1) unfolding alnum_spares_marks_def plain_anchor_def by blast
    then show ?thesis by (rule ascii_lower_plain)
  qed
  moreover have "plain_anchor ''-''" by (simp add: plain_anchor_def)
  ultimately have more: "alnum c \<Longrightarrow> \<forall>x\<in>set (slug @ [to_ascii_lowercase c]). plain_anchor x"
      "\<forall>x\<in>set (slug @ [''-'']). plain_anchor x"
    using "2.prems"(2) by auto
  show ?case
  proof (cases "alnum c")
    case True
    with "2.IH"(1)[OF True "2.prems"(1) more(1)[OF True]] show ?thesis by (simp only: slug_loop.simps if_True)
  next
    case False
    show ?thesis
    proof (cases "\<not> d \<and> slug \<noteq> []")
      case True
      from "2.IH"(2)[OF False True "2.prems"(1) more(2)] False True show ?thesis by simp
    next
      case kept: False
      from "2.IH"(3)[OF False kept "2.prems"] False kept show ?thesis by (simp only: slug_loop.simps if_False)
    qed
  qed
qed simp

lemma trim_dashes_subset: "set (trim_dashes cs) \<subseteq> set cs"
  by (auto simp: trim_dashes_def dest: set_dropWhileD)

lemma slugify_segment_plain: "alnum_spares_marks alnum \<Longrightarrow> plain_anchor (slugify_segment alnum t)"
proof -
  assume a: "alnum_spares_marks alnum"
  let ?slug = "trim_dashes (slug_loop alnum (chars t) False [])"
  have "\<forall>c\<in>set ?slug. plain_anchor c"
    using slug_loop_plain[OF a, of "[]" "chars t" False] trim_dashes_subset by fastforce
  moreover have "\<forall>c\<in>set (chars ''section''). plain_anchor c"
    unfolding plain_concat[symmetric] concat_chars by (simp add: plain_anchor_def)
  moreover define named where "named = (if ?slug = [] then chars ''section'' else ?slug)"
  ultimately have named: "\<forall>c\<in>set named. plain_anchor c" by simp
  have "set (trim_dashes (take n named)) \<subseteq> set named" for n
    using trim_dashes_subset set_take_subset by (rule subset_trans)
  then have cut: "\<forall>c\<in>set (trim_dashes (take n named)). plain_anchor c" for n using named by blast
  have "slugify_segment alnum t =
      concat (if SLUG_SEGMENT_MAX_CHARS < length named then trim_dashes (take SLUG_SEGMENT_MAX_CHARS named) else named)"
    by (simp only: slugify_segment_def Let_def named_def)
  then have "slugify_segment alnum t = concat named \<or> (\<exists>n. slugify_segment alnum t = concat (trim_dashes (take n named)))"
    by auto
  then show ?thesis using named cut by (auto simp: plain_concat)
qed

lemma base_anchor_plain: "alnum_spares_marks alnum \<Longrightarrow> plain_anchor (base_anchor alnum s)"
proof -
  assume a: "alnum_spares_marks alnum"
  have join: "plain_anchor sep \<Longrightarrow> \<forall>w\<in>set ws. plain_anchor w \<Longrightarrow> plain_anchor (join_with sep ws)" for sep ws
    by (induction sep ws rule: join_with.induct) (auto simp: plain_anchor_def)
  have trail: "plain_anchor (slugify_trail alnum (ds_trail s))"
  proof -
    let ?j = "join_with ''/'' (map (slugify_segment alnum) (ds_trail s))"
    have j: "plain_anchor ?j" using join[of "''/''"] slugify_segment_plain[OF a] by (simp add: plain_anchor_def)
    have "\<forall>c\<in>set (chars ?j). plain_anchor c" unfolding plain_concat[symmetric] by (simp add: j)
    then have "plain_anchor (concat (take n (chars ?j)))" for n
      unfolding plain_concat using set_take_subset by fastforce
    with j show ?thesis by (simp add: slugify_trail_def Let_def)
  qed
  moreover have "plain_anchor ''_preamble''" by (simp add: plain_anchor_def)
  ultimately show ?thesis by (simp add: base_anchor_def)
qed

lemma section_anchors:
  "map dc_anchor (map (\<lambda>(idx, piece). piece_chunk ls header base count s idx piece) (enumerate n ps))
     = map (numbered_anchor base count) [n..<n + length ps]"
  by (induction ps arbitrary: n) (auto simp: piece_chunk_def Let_def upt_conv_Cons simp del: upt_Suc)

lemma section_chunks_anchors:
  "x \<in> set (map dc_anchor (section_chunks alnum ls title path counts secs)) \<Longrightarrow>
     \<exists>s\<in>set secs. \<exists>k i. x = numbered_anchor (base_anchor alnum s) k i \<and> counts (base_anchor alnum s) < k"
proof (induction secs arbitrary: counts)
  case (Cons s secs)
  let ?b = "base_anchor alnum s"
  consider "x \<in> set (map (numbered_anchor ?b (counts ?b + 1)) [0..<length (section_pieces ls s)])"
    | "x \<in> set (map dc_anchor (section_chunks alnum ls title path (counts(?b := counts ?b + 1)) secs))"
    using Cons.prems unfolding section_chunks.simps Let_def map_append section_anchors by (auto simp del: upt_Suc)
  then show ?case
  proof cases
    case 1
    then show ?thesis by (intro bexI[of _ s]) auto
  next
    case 2
    from Cons.IH[OF this] obtain s' k i where "s' \<in> set secs" "x = numbered_anchor (base_anchor alnum s') k i"
        "(counts(?b := counts ?b + 1)) (base_anchor alnum s') < k" by blast
    then show ?thesis by (intro bexI[of _ s'] exI[of _ k] exI[of _ i]) (auto split: if_splits)
  qed
qed simp

lemma section_chunks_distinct:
  "alnum_spares_marks alnum \<Longrightarrow> distinct (map dc_anchor (section_chunks alnum ls title path counts secs))"
proof (induction secs arbitrary: counts)
  case (Cons s secs)
  note plain = base_anchor_plain[OF Cons.prems]
  let ?b = "base_anchor alnum s" and ?ps = "section_pieces ls s"
  let ?counts = "counts(?b := counts ?b + 1)"
  let ?here = "map (numbered_anchor ?b (counts ?b + 1)) [0..<length ?ps]"
    and ?later = "map dc_anchor (section_chunks alnum ls title path ?counts secs)"
  have "distinct ?here"
    by (simp add: distinct_map inj_on_def) (use mark_inj[OF plain plain] in fastforce)
  moreover have "set ?here \<inter> set ?later = {}"
  proof (rule ccontr)
    assume "set ?here \<inter> set ?later \<noteq> {}"
    then obtain x where x: "x \<in> set ?here" "x \<in> set ?later" by blast
    then obtain i where i: "x = numbered_anchor ?b (counts ?b + 1) i" by auto
    obtain s' k j where s': "x = numbered_anchor (base_anchor alnum s') k j" "?counts (base_anchor alnum s') < k"
      using section_chunks_anchors[OF x(2)] by blast
    have "base_anchor alnum s' = ?b \<and> k = counts ?b + 1 \<and> j = i"
      using mark_inj[OF plain plain, of s' k j s "counts ?b + 1" i] i s' by simp
    with s'(2) show False by simp
  qed
  moreover have "section_chunks alnum ls title path counts (s # secs) =
      map (\<lambda>(idx, piece). piece_chunk ls (chunk_header title path s) ?b (?counts ?b) s idx piece) (enumerate 0 ?ps)
        @ section_chunks alnum ls title path ?counts secs"
    unfolding section_chunks.simps Let_def ..
  ultimately show ?case
    using Cons.IH[OF Cons.prems, of ?counts] by (simp only: map_append section_anchors distinct_append) simp
qed simp

text \<open>No two chunks of a document have the same anchor, so no two of its nodes have the same name: the
  number of a repeated heading trail and the number of a piece of a split section cannot be mistaken for
  each other or for the text of a heading.\<close>

lemma doc_anchors_distinct:
  assumes "alnum_spares_marks alnum"
  shows "distinct (map dc_anchor (chunk_markdown alnum text path))"
  using section_chunks_distinct[OF assms] by (simp add: chunk_markdown_def build_chunks_def Let_def)


lemma ascii_alnum_spares: "alnum_spares_marks (\<lambda>c. c \<noteq> [] \<and> list_all is_ascii_alnum c)"
proof -
  have "\<not> is_ascii_alnum tilde" "\<not> is_ascii_alnum hash" by (simp_all add: ascii_defs)
  then show ?thesis by (auto simp: alnum_spares_marks_def list_all_iff)
qed

definition twice_a :: string where "twice_a = ''# A'' @ [newline] @ ''# A''"

lemma doc_anchors_distinct_witness:
  "distinct (map dc_anchor (chunk_markdown (\<lambda>c. c \<noteq> [] \<and> list_all is_ascii_alnum c) twice_a ''x.md'')) \<and>
    map dc_anchor (chunk_markdown (\<lambda>c. c \<noteq> [] \<and> list_all is_ascii_alnum c) twice_a ''x.md'') = [''a'', ''a~2'']"
proof
  show "distinct (map dc_anchor (chunk_markdown (\<lambda>c. c \<noteq> [] \<and> list_all is_ascii_alnum c) twice_a ''x.md''))"
    by (rule doc_anchors_distinct[OF ascii_alnum_spares])
  show "map dc_anchor (chunk_markdown (\<lambda>c. c \<noteq> [] \<and> list_all is_ascii_alnum c) twice_a ''x.md'') = [''a'', ''a~2'']"
    by code_simp
qed

subsection \<open>Hard splits are bounded\<close>

lemma raw_char_len_extend:
  assumes "1 \<le> s" "s \<le> k" "k \<le> length ls"
  shows "raw_char_len ls s k = raw_char_len ls s (k - 1) + (length (chars (line_at ls k)) + 1)"
proof -
  have "line_range ls s k = line_range ls s (k - 1) @ [line_at ls k]"
  proof (cases "s = k")
    case True
    with assms show ?thesis
      by (auto simp: line_range_def take_Suc_conv_app_nth not_less_eq_eq)
  next
    case False
    have "line_range ls s k = map (line_at ls) [s..<k + 1]" using assms by (simp add: line_range_nth)
    moreover have "line_range ls s (k - 1) = map (line_at ls) [s..<k]" using assms False line_range_nth[of s "k - 1" ls] by simp
    ultimately show ?thesis using assms by simp
  qed
  then show ?thesis using assms by (auto simp: raw_char_len_def line_range_def)
qed

definition piece_fits :: "string list \<Rightarrow> nat \<times> nat \<Rightarrow> bool" where
  "piece_fits ls p \<longleftrightarrow> fst p = snd p \<or> raw_char_len ls (fst p) (snd p) \<le> SPLIT_CHARS"

lemma hard_loop_fits:
  "ks = [m..<e + 1] \<Longrightarrow> 1 \<le> cur \<Longrightarrow> cur \<le> m \<Longrightarrow> cur \<le> e \<Longrightarrow> e \<le> length ls \<Longrightarrow> m \<le> e + 1 \<Longrightarrow>
     n = raw_char_len ls cur (m - 1) \<Longrightarrow> cur = m \<or> cur = m - 1 \<or> n \<le> SPLIT_CHARS \<Longrightarrow>
     \<forall>p\<in>set (hard_loop ls ks e cur n). piece_fits ls p"
proof (induction ks arbitrary: m cur n)
  case Nil
  then have "m = e + 1" by (cases "m < e + 1") (auto simp: upt_conv_Cons)
  with Nil show ?case by (auto simp: piece_fits_def)
next
  case (Cons k ks)
  then have k: "k = m" "ks = [m + 1..<e + 1]" "m \<le> e"
    using upt_eq_Cons_conv[of m "e + 1" k ks] by auto
  let ?len = "length (chars (line_at ls k)) + 1"
  show ?case
  proof (cases "SPLIT_CHARS < n + ?len \<and> cur < k")
    case True
    have "piece_fits ls (cur, m - 1)" using Cons.prems True k by (auto simp: piece_fits_def)
    moreover have "raw_char_len ls m m = ?len"
      using raw_char_len_extend[of m m ls] Cons.prems k by (simp add: raw_char_len_def)
    then have "\<forall>p\<in>set (hard_loop ls ks e m ?len). piece_fits ls p"
      using Cons.IH[OF k(2), of m ?len] Cons.prems k by simp
    ultimately show ?thesis using True k by simp
  next
    case False
    have "n + ?len = raw_char_len ls cur m"
      using raw_char_len_extend[of cur m ls] Cons.prems k by simp
    then have len: "n + ?len = raw_char_len ls cur (m + 1 - 1)" by simp
    have small: "cur = m + 1 \<or> cur = m + 1 - 1 \<or> n + ?len \<le> SPLIT_CHARS" using False Cons.prems(3) k(1) by linarith
    have bounds: "cur \<le> m + 1" "m + 1 \<le> e + 1" using Cons.prems(3) k(3) by simp_all
    have "\<forall>p\<in>set (hard_loop ls ks e cur (n + ?len)). piece_fits ls p"
      by (rule Cons.IH[OF k(2) Cons.prems(2) bounds(1) Cons.prems(4,5) bounds(2) len small])
    with False show ?thesis by (simp only: hard_loop.simps Let_def if_False)
  qed
qed

lemma hard_split_fits:
  "1 \<le> s \<Longrightarrow> s \<le> e \<Longrightarrow> e \<le> length ls \<Longrightarrow> p \<in> set (hard_split_block ls s e) \<Longrightarrow> piece_fits ls p"
  using hard_loop_fits[OF refl, of s s e ls 0] by (auto simp: hard_split_block_def raw_char_len_def)

subsection \<open>Path segments\<close>

text \<open>An occurrence of a pattern at the beginning of a path segment.\<close>

definition at_segment :: "string \<Rightarrow> string \<Rightarrow> nat \<Rightarrow> bool" where
  "at_segment text pattern i \<longleftrightarrow> i + length pattern \<le> length text \<and> starts_with (drop i text) pattern
     \<and> (i = 0 \<or> text ! (i - 1) = CHR ''/'')"

lemma find_str_first: "find_str s p = Some i \<Longrightarrow> j < i \<Longrightarrow> \<not> starts_with (drop j s) p"
proof (induction s arbitrary: i j)
  case (Cons c s)
  then show ?case by (cases j) (auto split: if_splits)
qed (auto split: if_splits)

lemma find_str_None: "find_str s p = None \<Longrightarrow> j \<le> length s \<Longrightarrow> \<not> starts_with (drop j s) p"
proof (induction s arbitrary: j)
  case (Cons c s)
  then show ?case by (cases j) (auto split: if_splits)
qed (auto split: if_splits simp: starts_with_iff)

lemma segment_search_spec:
  assumes "utf8_ok path" "pattern = b # pat" "byte b < 128" "start \<le> length path" "is_char_boundary path start"
  shows "segment_search path pattern start = Some (\<exists>i\<ge>start. at_segment path pattern i)"
  using assms
proof (induction path pattern start rule: segment_search.induct)
  case (1 path pattern start)
  have slice: "str_slice path start (length path) = Some (drop start path)"
    using "1.prems" by (simp add: str_slice_def)
  show ?case
  proof (cases "find_str (drop start path) pattern")
    case None
    have "\<not> at_segment path pattern i" if "start \<le> i" for i
      using find_str_None[OF None, of "i - start"] that diff_le_mono[of i "length path" start] by (auto simp: at_segment_def)
    then show ?thesis by (subst segment_search.simps) (auto simp: slice None)
  next
    case (Some pos)
    let ?f = "start + pos"
    have f: "?f + length pattern \<le> length path" "starts_with (drop ?f path) pattern"
      using find_str_Some[OF Some] "1.prems"(4) by (auto simp: add.commute)
    have none: "\<not> starts_with (drop i path) pattern" if "start \<le> i" "i < ?f" for i
      using find_str_first[OF Some, of "i - start"] that by simp
    show ?thesis
    proof (cases "?f = 0 \<or> path ! (?f - 1) = CHR ''/''")
      case True
      with f have "at_segment path pattern ?f" by (auto simp: at_segment_def)
      then have "\<exists>i\<ge>start. at_segment path pattern i" by (intro exI[of _ ?f]) simp
      with True show ?thesis by (subst segment_search.simps) (simp add: slice Some Let_def)
    next
      case False
      have "?f < length path" "path ! ?f = b"
        using f "1.prems"(2) by (auto simp: Cons_nth_drop_Suc[symmetric])
      then have "is_char_boundary path (?f + 1)" "?f + 1 \<le> length path"
        using ascii_boundary_Suc[OF "1.prems"(1), of ?f] "1.prems"(3) by simp_all
      from "1.IH"[OF slice Some refl False "1.prems"(1-3) this(2,1)]
      have "segment_search path pattern (?f + 1) = Some (\<exists>i\<ge>?f + 1. at_segment path pattern i)" .
      moreover have "(\<exists>i\<ge>?f + 1. at_segment path pattern i) \<longleftrightarrow> (\<exists>i\<ge>start. at_segment path pattern i)"
      proof
        assume "\<exists>i\<ge>start. at_segment path pattern i"
        then obtain i where i: "start \<le> i" "at_segment path pattern i" by blast
        have "?f < i"
        proof (rule ccontr)
          assume "\<not> ?f < i"
          then have "i = ?f" using none[OF i(1)] i(2) by (force simp: at_segment_def)
          with False i(2) show False by (simp add: at_segment_def)
        qed
        with i show "\<exists>i\<ge>?f + 1. at_segment path pattern i" by (intro exI[of _ i]) simp
      next
        assume "\<exists>i\<ge>?f + 1. at_segment path pattern i"
        then show "\<exists>i\<ge>start. at_segment path pattern i" by (meson add_leE)
      qed
      moreover have "segment_search path pattern start = segment_search path pattern (?f + 1)"
        by (subst segment_search.simps) (simp only: slice Some Let_def False if_False option.case)
      ultimately show ?thesis by simp
    qed
  qed
qed

text \<open>A directory pattern that begins with an ASCII character is found in a path exactly where it begins a
  path segment: \<open>api/\<close> in \<open>pkg/api/x.md\<close> and not in \<open>cri-api/x.md\<close>. The search does not panic.\<close>

lemma path_segment_iff:
  assumes "utf8_ok path" "pattern = b # pat" "byte b < 128" "ends_with pattern ''/''"
  shows "contains_path_segment path pattern = Some (\<exists>i. at_segment path pattern i)"
  using segment_search_spec[OF assms(1-3), of 0] assms(4) by (simp add: contains_path_segment_def)

lemma path_segment_iff_witness:
  "contains_path_segment ''cri-api/x.md'' ''api/'' = Some (\<exists>i. at_segment ''cri-api/x.md'' ''api/'' i)"
  by (rule path_segment_iff[where b = "CHR ''a''" and pat = "''pi/''"]) (simp_all add: ends_with_def utf8_ok_def utf8_extra_def)

text \<open>The bytes of the letter u with a diaeresis.\<close>

definition u_umlaut :: string where "u_umlaut = [CHR 0xC3, CHR 0xBC]"

text \<open>A configured pattern that begins with a character of two bytes stops the indexer: where it occurs
  inside a path segment the search goes on in the middle of that character, which is a panic. The module
  promises to leave out what it cannot read and never to panic.\<close>

lemma umlaut_exclusion_panics:
  assumes "lower (''docs/x'' @ u_umlaut @ ''ber/a.md'') = ''docs/x'' @ u_umlaut @ ''ber/a.md''"
    "lower (u_umlaut @ ''ber/'') = u_umlaut @ ''ber/''"
  shows "is_excluded lower (''docs/x'' @ u_umlaut @ ''ber/a.md'') [u_umlaut @ ''ber/''] = None \<and>
    is_excluded lower (''docs/x'' @ u_umlaut @ ''ber/a.md'') [] = Some False"
proof -
  let ?p = "''docs/x'' @ u_umlaut @ ''ber/a.md''"
  have stem: "path_file_name ?p = Some ''a.md''" "doc_stem ''a.md'' = ''a''" by code_simp+
  have kept: "any_segment ?p EXCLUDED_PATH_SUBSTRINGS = Some False" by code_simp
  have "any_segment ?p [u_umlaut @ ''ber/''] = None" by code_simp
  then have panics: "any_segment ?p [lower (u_umlaut @ ''ber/'')] = None" unfolding assms(2) .
  have "''a'' \<notin> set EXCLUDED_STEMS" by (simp add: EXCLUDED_STEMS_def)
  moreover have "u_umlaut @ ''ber/'' \<noteq> []" by simp
  ultimately show ?thesis
    unfolding is_excluded_def assms(1) using stem kept panics by simp
qed

lemma umlaut_exclusion_panics_witness:
  "is_excluded to_ascii_lowercase (''docs/x'' @ u_umlaut @ ''ber/a.md'') [u_umlaut @ ''ber/''] = None \<and>
    is_excluded to_ascii_lowercase (''docs/x'' @ u_umlaut @ ''ber/a.md'') [] = Some False"
  by (rule umlaut_exclusion_panics) code_simp+

subsection \<open>The nodes of a file\<close>

definition markdown_vname :: "string \<Rightarrow> string \<Rightarrow> string \<Rightarrow> vname" where
  "markdown_vname corpus vname_path sig =
     \<lparr>vn_corpus = corpus, vn_root = [], vn_path = vname_path, vn_language = ''markdown'', vn_signature = sig\<rparr>"

definition markdown_node :: "(string \<Rightarrow> string) \<Rightarrow> vname \<Rightarrow> string \<Rightarrow> (nat \<times> nat) option \<Rightarrow> core_node" where
  "markdown_node blake v kind rows =
     \<lparr>gn_id = vname_id blake v, gn_vname = v, gn_kind = kind, cn_line = map_option (\<lambda>(s, _). s mod 2 ^ 32) rows,
      cn_end_line = map_option (\<lambda>(_, e). e mod 2 ^ 32) rows, cn_test_role = Role_None\<rparr>"

definition chunk_node :: "(string \<Rightarrow> string) \<Rightarrow> string \<Rightarrow> string \<Rightarrow> doc_chunk \<Rightarrow> core_node" where
  "chunk_node blake corpus vname_path c =
     markdown_node blake (markdown_vname corpus vname_path (''doc:'' @ dc_anchor c)) ''doc-chunk'' (Some (dc_start c, dc_end c))"

text \<open>\<open>parse\<close>: the file is read by the argument \<open>read\<close>; the outer option is a panic.\<close>

definition markdown_parse :: "(string \<Rightarrow> string) \<Rightarrow> (string \<Rightarrow> bool) \<Rightarrow> (string \<Rightarrow> string) \<Rightarrow> string option \<Rightarrow> string
    \<Rightarrow> string \<Rightarrow> string list \<Rightarrow> (core_node list \<times> gedge list) option" where
  "markdown_parse lower alnum blake read corpus vname_path extra =
     (let file = markdown_node blake (markdown_vname corpus vname_path ''file'') ''file'' None
      in case is_excluded lower vname_path extra of
           None \<Rightarrow> None
         | Some True \<Rightarrow> Some ([file], [])
         | Some False \<Rightarrow>
             (case read of
                None \<Rightarrow> Some ([file], [])
              | Some bytes \<Rightarrow>
                  if \<not> utf8_ok bytes then Some ([file], [])
                  else (let nodes = map (chunk_node blake corpus vname_path) (chunk_markdown alnum bytes vname_path)
                        in Some (file # nodes,
                             map (\<lambda>n. \<lparr>ge_src = gn_id file, ge_dst = gn_id n, ge_kind = DefinesBinding\<rparr>) nodes))))"

lemma markdown_names_distinct:
  assumes "alnum_spares_marks alnum" "markdown_parse lower alnum blake read corpus path extra = Some (nodes, edges)"
  shows "distinct (map gn_vname nodes) \<and> length edges + 1 = length nodes"
proof -
  have names: "map gn_vname (map (chunk_node blake corpus path) cs) = map (markdown_vname corpus path \<circ> (@) ''doc:'' \<circ> dc_anchor) cs" for cs
    by (simp add: chunk_node_def markdown_node_def)
  have "distinct (map (markdown_vname corpus path \<circ> (@) ''doc:'' \<circ> dc_anchor) (chunk_markdown alnum bytes path))" for bytes
    using section_chunks_distinct[OF assms(1)]
    by (simp add: chunk_markdown_def build_chunks_def Let_def distinct_map inj_on_def markdown_vname_def)
  then have "distinct (map gn_vname (map (chunk_node blake corpus path) (chunk_markdown alnum bytes path)))" for bytes
    by (simp only: names)
  then show ?thesis
    using assms(2)
    by (auto simp: markdown_parse_def Let_def markdown_node_def chunk_node_def markdown_vname_def
        simp del: map_map split: option.splits bool.splits if_splits)
qed

end
