(* ===== verification/Layered_Config.thy ===== *)
theory Layered_Config
  imports Rust_Path "HOL-Library.AList" "HOL-Library.Code_Target_Nat"
begin

section \<open>Layered configuration\<close>

text \<open>
  \<open>crates/travsr-config/src/lib.rs\<close>: the registry of keys with their validators, the order of the layers,
  reading and writing a key of a \<open>config.toml\<close>, and the log filter of the daemon.

  A TOML table is an association list. The TOML parser and printer, the text of the values that are
  neither texts, integers nor truth values, the environment, the home directory and the outcomes of the
  file system are the fields of \<open>config_io\<close>. The files are a map from paths to bytes.
\<close>

datatype layer = Layer_Cli | Layer_Env | Layer_Repo | Layer_Global | Layer_Default

record 'a resolved =
  rv_value :: 'a
  rv_source :: layer

definition resolve_layers :: "'a option \<Rightarrow> 'a option \<Rightarrow> 'a option \<Rightarrow> 'a option \<Rightarrow> 'a \<Rightarrow> 'a resolved" where
  "resolve_layers cli env repo global dflt =
     (case cli of Some v \<Rightarrow> \<lparr>rv_value = v, rv_source = Layer_Cli\<rparr>
      | None \<Rightarrow> (case env of Some v \<Rightarrow> \<lparr>rv_value = v, rv_source = Layer_Env\<rparr>
      | None \<Rightarrow> (case repo of Some v \<Rightarrow> \<lparr>rv_value = v, rv_source = Layer_Repo\<rparr>
      | None \<Rightarrow> (case global of Some v \<Rightarrow> \<lparr>rv_value = v, rv_source = Layer_Global\<rparr>
      | None \<Rightarrow> \<lparr>rv_value = dflt, rv_source = Layer_Default\<rparr>))))"

subsection \<open>Values and validators\<close>

datatype toml = TString string | TInteger int | TBool bool | TArray "toml list" | TTable "(string \<times> toml) list" | TOther string

type_synonym toml_table = "(string \<times> toml) list"

datatype value_error = Not_An_Integer | Out_Of_Range int | Not_One_Of "string list"

datatype config_error = Unknown_Key string | Invalid_Value value_error | No_Home | Not_Dotted string
  | Not_Created string | Not_Printed | Not_Written string | Not_Renamed string

text \<open>\<open>str::parse::<i64>\<close>.\<close>

definition parse_i64 :: "string \<Rightarrow> int option" where
  "parse_i64 s =
     (if starts_with s ''-''
      then (case tl s of
              [] \<Rightarrow> None
            | ds \<Rightarrow> (case digits_value 0 ds of
                       Some n \<Rightarrow> if n \<le> 9223372036854775808 then Some (- int n) else None
                     | None \<Rightarrow> None))
      else map_option int (parse_uint 9223372036854775807 s))"

definition show_int :: "int \<Rightarrow> string" where
  "show_int i = (if i < 0 then CHR ''-'' # show_nat (nat (- i)) else show_nat (nat i))"

definition GUARD_MODES :: "string list" where "GUARD_MODES = [''off'', ''advisory'', ''strict'']"
definition LOG_LEVELS :: "string list" where "LOG_LEVELS = [''error'', ''warn'', ''info'', ''debug'', ''trace'']"
definition DEFAULT_LOG_LEVEL :: string where "DEFAULT_LOG_LEVEL = ''info''"

definition validate_percent :: "string \<Rightarrow> (value_error, toml) rust_result" where
  "validate_percent s =
     (case parse_i64 (trim s) of
        None \<Rightarrow> Inl Not_An_Integer
      | Some n \<Rightarrow> if \<not> (1 \<le> n \<and> n \<le> 100) then Inl (Out_Of_Range n) else Inr (TInteger n))"

definition validate_capacity :: "string \<Rightarrow> (value_error, toml) rust_result" where
  "validate_capacity s =
     (if eq_ignore_ascii_case (trim s) ''auto'' then Inr (TString ''auto'')
      else case parse_i64 (trim s) of
             None \<Rightarrow> Inl Not_An_Integer
           | Some n \<Rightarrow> if \<not> (1 \<le> n \<and> n \<le> 100) then Inl (Out_Of_Range n) else Inr (TInteger n))"

definition validate_positive_int :: "string \<Rightarrow> (value_error, toml) rust_result" where
  "validate_positive_int s =
     (case parse_i64 (trim s) of
        None \<Rightarrow> Inl Not_An_Integer
      | Some n \<Rightarrow> if n < 1 then Inl (Out_Of_Range n) else Inr (TInteger n))"

definition validate_log_level :: "string \<Rightarrow> (value_error, toml) rust_result" where
  "validate_log_level s =
     (let t = to_ascii_lowercase (trim s) in if t \<in> set LOG_LEVELS then Inr (TString t) else Inl (Not_One_Of LOG_LEVELS))"

definition validate_guard_mode :: "string \<Rightarrow> (value_error, toml) rust_result" where
  "validate_guard_mode s =
     (let t = to_ascii_lowercase (trim s) in if t \<in> set GUARD_MODES then Inr (TString t) else Inl (Not_One_Of GUARD_MODES))"

definition validate_priority :: "string \<Rightarrow> (value_error, toml) rust_result" where
  "validate_priority s =
     (if trim s \<in> {''normal'', ''low'', ''idle''} then Inr (TString (trim s)) else Inl (Not_One_Of [''normal'', ''low'', ''idle'']))"

definition bool_word :: "string \<Rightarrow> bool option" where
  "bool_word s =
     (let t = to_ascii_lowercase (trim s)
      in if t \<in> {''1'', ''true'', ''yes'', ''on''} then Some True
         else if t \<in> {''0'', ''false'', ''no'', ''off''} then Some False else None)"

definition validate_bool :: "string \<Rightarrow> (value_error, toml) rust_result" where
  "validate_bool s = (case bool_word s of Some b \<Rightarrow> Inr (TBool b) | None \<Rightarrow> Inl (Not_One_Of [''true'', ''false'']))"

text \<open>The comma separated list: its entries are trimmed and the empty ones dropped.\<close>

definition list_items :: "string \<Rightarrow> string list" where
  "list_items s = filter (\<lambda>p. p \<noteq> []) (map trim (split_on (\<lambda>c. c = CHR '','') s))"

definition validate_string_list :: "string \<Rightarrow> (value_error, toml) rust_result" where
  "validate_string_list s = Inr (TArray (map TString (list_items s)))"

record key_spec =
  ks_key :: string
  ks_env :: "string option"
  ks_default :: string
  ks_validate :: "string \<Rightarrow> (value_error, toml) rust_result"

definition KEYS :: "key_spec list" where
  "KEYS =
     [\<lparr>ks_key = ''embed.capacity'', ks_env = Some ''TRAVSR_EMBED_CAPACITY'', ks_default = ''100'', ks_validate = validate_capacity\<rparr>,
      \<lparr>ks_key = ''embed.max_workers'', ks_env = Some ''TRAVSR_EMBED_WORKERS'', ks_default = ''auto'', ks_validate = validate_positive_int\<rparr>,
      \<lparr>ks_key = ''embed.priority'', ks_env = Some ''TRAVSR_EMBED_PRIORITY'', ks_default = ''normal'', ks_validate = validate_priority\<rparr>,
      \<lparr>ks_key = ''docs.enabled'', ks_env = Some ''TRAVSR_DOCS_ENABLED'', ks_default = ''true'', ks_validate = validate_bool\<rparr>,
      \<lparr>ks_key = ''docs.max_results'', ks_env = Some ''TRAVSR_DOCS_MAX_RESULTS'', ks_default = ''3'', ks_validate = validate_positive_int\<rparr>,
      \<lparr>ks_key = ''docs.budget_pct'', ks_env = Some ''TRAVSR_DOCS_BUDGET_PCT'', ks_default = ''20'', ks_validate = validate_percent\<rparr>,
      \<lparr>ks_key = ''docs.exclude'', ks_env = Some ''TRAVSR_DOCS_EXCLUDE'', ks_default = ''(none)'', ks_validate = validate_string_list\<rparr>,
      \<lparr>ks_key = ''guard.mode'', ks_env = Some ''TRAVSR_GUARD'', ks_default = ''off'', ks_validate = validate_guard_mode\<rparr>,
      \<lparr>ks_key = ''log.level'', ks_env = Some ''TRAVSR_LOG_LEVEL'', ks_default = ''info'', ks_validate = validate_log_level\<rparr>]"

definition spec :: "string \<Rightarrow> key_spec option" where
  "spec key = find (\<lambda>k. ks_key k = key) KEYS"

subsection \<open>Tables\<close>

text \<open>\<open>value_display\<close>; the text of a float, a date or a table is the argument \<open>other\<close>.\<close>

fun value_display :: "(toml \<Rightarrow> string) \<Rightarrow> toml \<Rightarrow> string" where
  "value_display other (TString s) = s"
| "value_display other (TArray items) = join_with '','' (map (value_display other) items)"
| "value_display other (TInteger i) = show_int i"
| "value_display other (TBool b) = (if b then ''true'' else ''false'')"
| "value_display other v = other v"

fun as_table :: "toml \<Rightarrow> toml_table option" where
  "as_table (TTable t) = Some t"
| "as_table _ = None"

definition table_value :: "toml_table \<Rightarrow> string \<Rightarrow> toml option" where
  "table_value table key =
     (case split_once (CHR ''.'') key of
        None \<Rightarrow> None
      | Some (sect, name) \<Rightarrow>
          Option.bind (map_of table sect) (\<lambda>v. Option.bind (as_table v) (\<lambda>t. map_of t name)))"

definition table_get :: "(toml \<Rightarrow> string) \<Rightarrow> toml_table \<Rightarrow> string \<Rightarrow> string option" where
  "table_get other table key = map_option (value_display other) (table_value table key)"

definition table_set :: "toml_table \<Rightarrow> string \<Rightarrow> toml \<Rightarrow> (config_error, toml_table) rust_result" where
  "table_set table key v =
     (case split_once (CHR ''.'') key of
        None \<Rightarrow> Inl (Not_Dotted key)
      | Some (sect, name) \<Rightarrow>
          (let entry = (case Option.bind (map_of table sect) as_table of Some t \<Rightarrow> t | None \<Rightarrow> [])
           in Inr (AList.update sect (TTable (AList.update name v entry)) table)))"

definition table_unset :: "toml_table \<Rightarrow> string \<Rightarrow> bool \<times> toml_table" where
  "table_unset table key =
     (case split_once (CHR ''.'') key of
        None \<Rightarrow> (False, table)
      | Some (sect, name) \<Rightarrow>
          (case Option.bind (map_of table sect) as_table of
             None \<Rightarrow> (False, table)
           | Some entry \<Rightarrow>
               (let entry' = AList.delete name entry
                in (map_of entry name \<noteq> None,
                    if entry' = [] then AList.delete sect table else AList.update sect (TTable entry') table))))"

subsection \<open>Files\<close>

record config_io =
  ci_parse :: "string \<Rightarrow> toml_table option"
  ci_print :: "toml_table \<Rightarrow> string option"
  ci_other :: "toml \<Rightarrow> string"
  ci_env :: "string \<Rightarrow> string option"
  ci_home :: "string option"
  ci_mkdir :: "string \<Rightarrow> bool"
  ci_write :: "string \<Rightarrow> bool"
  ci_rename :: "string \<Rightarrow> bool"

type_synonym files = "string \<Rightarrow> string option"

definition repo_config_path :: "string \<Rightarrow> string" where
  "repo_config_path repo_root = path_join (path_join repo_root ''.travsr'') ''config.toml''"

definition global_config_path :: "config_io \<Rightarrow> string option" where
  "global_config_path io = map_option (\<lambda>h. path_join (path_join h ''.travsr'') ''config.toml'') (ci_home io)"

text \<open>A file that is missing, is not UTF-8 or does not parse counts as empty.\<close>

definition load_table :: "config_io \<Rightarrow> files \<Rightarrow> string \<Rightarrow> toml_table" where
  "load_table io fs path =
     (case fs path of
        Some bytes \<Rightarrow> if utf8_ok bytes then (case ci_parse io bytes of Some t \<Rightarrow> t | None \<Rightarrow> []) else []
      | None \<Rightarrow> [])"

definition tmp_path :: "string \<Rightarrow> string" where "tmp_path path = path @ ''.tmp''"

text \<open>\<open>write_table_atomic\<close>; \<open>with_extension\<close> of a path to \<open>config.toml\<close> appends the last part.\<close>

definition write_table_atomic :: "config_io \<Rightarrow> files \<Rightarrow> string \<Rightarrow> toml_table \<Rightarrow> files \<times> (config_error, unit) rust_result" where
  "write_table_atomic io fs path table =
     (if \<not> ci_mkdir io path then (fs, Inl (Not_Created path))
      else case ci_print io table of
             None \<Rightarrow> (fs, Inl Not_Printed)
           | Some out \<Rightarrow>
               if \<not> ci_write io (tmp_path path) then (fs, Inl (Not_Written (tmp_path path)))
               else if \<not> ci_rename io path then (fs(tmp_path path \<mapsto> out), Inl (Not_Renamed path))
               else ((fs(tmp_path path := None))(path \<mapsto> out), Inr ()))"

datatype scope = Scope_Global | Scope_Repo string

definition scope_path :: "config_io \<Rightarrow> scope \<Rightarrow> (config_error, string) rust_result" where
  "scope_path io sc =
     (case sc of
        Scope_Global \<Rightarrow> (case global_config_path io of None \<Rightarrow> Inl No_Home | Some p \<Rightarrow> Inr p)
      | Scope_Repo r \<Rightarrow> Inr (repo_config_path r))"

definition config_set :: "config_io \<Rightarrow> string \<Rightarrow> string \<Rightarrow> scope \<Rightarrow> files \<Rightarrow> files \<times> (config_error, unit) rust_result" where
  "config_set io key v sc fs =
     (case spec key of
        None \<Rightarrow> (fs, Inl (Unknown_Key key))
      | Some ks \<Rightarrow>
          (case ks_validate ks v of
             Inl e \<Rightarrow> (fs, Inl (Invalid_Value e))
           | Inr normalised \<Rightarrow>
               (case scope_path io sc of
                  Inl e \<Rightarrow> (fs, Inl e)
                | Inr path \<Rightarrow>
                    (case table_set (load_table io fs path) key normalised of
                       Inl e \<Rightarrow> (fs, Inl e)
                     | Inr table \<Rightarrow> write_table_atomic io fs path table))))"

definition config_unset :: "config_io \<Rightarrow> string \<Rightarrow> scope \<Rightarrow> files \<Rightarrow> files \<times> (config_error, bool) rust_result" where
  "config_unset io key sc fs =
     (case spec key of
        None \<Rightarrow> (fs, Inl (Unknown_Key key))
      | Some _ \<Rightarrow>
          (case scope_path io sc of
             Inl e \<Rightarrow> (fs, Inl e)
           | Inr path \<Rightarrow>
               if fs path = None then (fs, Inr False)
               else (case table_unset (load_table io fs path) key of
                       (False, _) \<Rightarrow> (fs, Inr False)
                     | (True, table) \<Rightarrow>
                         (case write_table_atomic io fs path table of
                            (fs', Inl e) \<Rightarrow> (fs', Inl e) | (fs', Inr _) \<Rightarrow> (fs', Inr True)))))"

subsection \<open>Reading\<close>

record key_status =
  kt_key :: string
  kt_value :: "string option"
  kt_source :: layer
  kt_default :: string

definition resolve_status :: "key_spec \<Rightarrow> string option \<Rightarrow> string option \<Rightarrow> string option \<Rightarrow> key_status" where
  "resolve_status ks env_val repo_val global_val =
     (let (v, source) = (case env_val of Some v \<Rightarrow> (Some v, Layer_Env)
        | None \<Rightarrow> (case repo_val of Some v \<Rightarrow> (Some v, Layer_Repo)
        | None \<Rightarrow> (case global_val of Some v \<Rightarrow> (Some v, Layer_Global)
        | None \<Rightarrow> (None, Layer_Default))))
      in \<lparr>kt_key = ks_key ks, kt_value = v, kt_source = source, kt_default = ks_default ks\<rparr>)"

definition status_for_tables :: "config_io \<Rightarrow> key_spec \<Rightarrow> toml_table option \<Rightarrow> toml_table option \<Rightarrow> key_status" where
  "status_for_tables io ks repo_table global_table =
     (let env_val = (case Option.bind (ks_env ks) (ci_env io) of Some s \<Rightarrow> if s = [] then None else Some s | None \<Rightarrow> None)
      in resolve_status ks env_val
           (Option.bind repo_table (\<lambda>t. table_get (ci_other io) t (ks_key ks)))
           (Option.bind global_table (\<lambda>t. table_get (ci_other io) t (ks_key ks))))"

definition status_for :: "config_io \<Rightarrow> files \<Rightarrow> key_spec \<Rightarrow> string option \<Rightarrow> key_status" where
  "status_for io fs ks repo_root =
     status_for_tables io ks (map_option (\<lambda>r. load_table io fs (repo_config_path r)) repo_root)
       (map_option (load_table io fs) (global_config_path io))"

definition config_get :: "config_io \<Rightarrow> files \<Rightarrow> string \<Rightarrow> string option \<Rightarrow> (config_error, key_status) rust_result" where
  "config_get io fs key repo_root =
     (case spec key of None \<Rightarrow> Inl (Unknown_Key key) | Some ks \<Rightarrow> Inr (status_for io fs ks repo_root))"

text \<open>\<open>list\<close>: the tables are loaded once.\<close>

definition config_list :: "config_io \<Rightarrow> files \<Rightarrow> string option \<Rightarrow> key_status list" where
  "config_list io fs repo_root =
     (let repo_table = map_option (\<lambda>r. load_table io fs (repo_config_path r)) repo_root;
          global_table = map_option (load_table io fs) (global_config_path io)
      in map (\<lambda>s. status_for_tables io s repo_table global_table) KEYS)"

definition read_key_file :: "config_io \<Rightarrow> files \<Rightarrow> string \<Rightarrow> string \<Rightarrow> string option" where
  "read_key_file io fs path key = table_get (ci_other io) (load_table io fs path) key"

definition effective_value :: "config_io \<Rightarrow> files \<Rightarrow> string \<Rightarrow> string option \<Rightarrow> string option" where
  "effective_value io fs key repo_root =
     (case config_get io fs key repo_root of Inl _ \<Rightarrow> None | Inr s \<Rightarrow> kt_value s)"

definition effective_bool :: "config_io \<Rightarrow> files \<Rightarrow> string \<Rightarrow> string option \<Rightarrow> bool option" where
  "effective_bool io fs key repo_root = Option.bind (effective_value io fs key repo_root) bool_word"

definition effective_list :: "config_io \<Rightarrow> files \<Rightarrow> string \<Rightarrow> string option \<Rightarrow> string list" where
  "effective_list io fs key repo_root =
     (case effective_value io fs key repo_root of Some raw \<Rightarrow> list_items raw | None \<Rightarrow> [])"

datatype filter_source = From_Rust_Log | From_Config | From_Default

definition decide_log_filter :: "string option \<Rightarrow> string option \<Rightarrow> string \<times> filter_source" where
  "decide_log_filter rust_log configured =
     (case (case map_option trim rust_log of Some s \<Rightarrow> if s = [] then None else Some s | None \<Rightarrow> None) of
        Some raw \<Rightarrow> (raw, From_Rust_Log)
      | None \<Rightarrow>
          (case map_option (\<lambda>v. to_ascii_lowercase (trim v)) configured of
             Some v \<Rightarrow> if v \<in> set LOG_LEVELS then (v, From_Config) else (DEFAULT_LOG_LEVEL, From_Default)
           | None \<Rightarrow> (DEFAULT_LOG_LEVEL, From_Default)))"

definition resolve_log_filter :: "config_io \<Rightarrow> files \<Rightarrow> string option \<Rightarrow> string \<times> filter_source" where
  "resolve_log_filter io fs repo_root = decide_log_filter (ci_env io ''RUST_LOG'') (effective_value io fs ''log.level'' repo_root)"

definition resolve_log_level_setting :: "config_io \<Rightarrow> files \<Rightarrow> string option \<Rightarrow> string \<times> filter_source" where
  "resolve_log_level_setting io fs repo_root = decide_log_filter None (effective_value io fs ''log.level'' repo_root)"

subsection \<open>Lemmas: tables\<close>

lemma table_set_value: "table_set t k v = Inr t' \<Longrightarrow> table_value t' k = Some v"
  by (auto simp: table_set_def table_value_def Let_def update_conv' split: option.splits)

lemma table_set_other:
  assumes "table_set t k v = Inr t'" "k' \<noteq> k"
  shows "table_value t' k' = table_value t k'"
proof -
  from assms obtain sect name where k: "split_once (CHR ''.'') k = Some (sect, name)"
    by (auto simp: table_set_def split: option.splits)
  show ?thesis
  proof (cases "split_once (CHR ''.'') k'")
    case (Some p)
    obtain sect' name' where p: "p = (sect', name')" by (cases p)
    have "sect' = sect \<Longrightarrow> name' \<noteq> name" using k Some p assms(2) by (auto simp: split_once_Some)
    then show ?thesis
      using assms(1) k Some p
      by (cases "sect' = sect"; cases "Option.bind (map_of t sect) as_table")
        (auto simp: table_set_def table_value_def Let_def update_conv' split: option.splits bind_splits)
  qed (simp add: table_value_def)
qed

lemma table_unset_value: "table_unset t k = (r, t') \<Longrightarrow> table_value t' k = None \<and> (r \<longleftrightarrow> table_value t k \<noteq> None)"
  by (auto simp: table_unset_def table_value_def Let_def update_conv' delete_conv' bind_eq_None_conv split: option.splits if_splits bind_splits)

lemma table_unset_other:
  assumes "table_unset t k = (r, t')" "k' \<noteq> k"
  shows "table_value t' k' = table_value t k'"
proof (cases "split_once (CHR ''.'') k")
  case None
  with assms show ?thesis by (simp add: table_unset_def)
next
  case (Some q)
  obtain sect name where k: "split_once (CHR ''.'') k = Some (sect, name)" using Some by (cases q) auto
  show ?thesis
  proof (cases "split_once (CHR ''.'') k'")
    case (Some p)
    obtain sect' name' where p: "p = (sect', name')" by (cases p)
    have differ: "sect' = sect \<Longrightarrow> name' \<noteq> name" using k Some p assms(2) by (auto simp: split_once_Some)
    show ?thesis
    proof (cases "Option.bind (map_of t sect) as_table")
      case None
      with assms(1) k show ?thesis by (simp add: table_unset_def)
    next
      case (Some entry)
      have empty: "map_of entry n = None" if "AList.delete name entry = []" "n \<noteq> name" for n
        using that delete_conv'[of name entry] by (metis fun_upd_other map_of.simps(1))
      show ?thesis
        using assms(1) k \<open>split_once (CHR ''.'') k' = Some p\<close> p Some differ empty
        by (cases "sect' = sect"; cases "AList.delete name entry = []")
          (auto simp: table_unset_def table_value_def Let_def update_conv' delete_conv' split: bind_splits)
    qed
  qed (simp add: table_value_def)
qed

text \<open>What the code relies on of the TOML library: a printed table reads back with the same values.\<close>

definition toml_faithful :: "config_io \<Rightarrow> bool" where
  "toml_faithful io \<longleftrightarrow> (\<forall>t out. ci_print io t = Some out \<longrightarrow>
     utf8_ok out \<and> (\<exists>t'. ci_parse io out = Some t' \<and> table_value t' = table_value t))"

lemma written_table:
  assumes "toml_faithful io" "write_table_atomic io fs path table = (fs', Inr ())"
  shows "table_value (load_table io fs' path) = table_value table \<and> (\<forall>p. p \<noteq> path \<and> p \<noteq> tmp_path path \<longrightarrow> fs' p = fs p)"
proof -
  from assms(2) obtain out where out: "ci_print io table = Some out" "fs' = (fs(tmp_path path := None))(path \<mapsto> out)"
    by (auto simp: write_table_atomic_def split: if_splits option.splits)
  with assms(1) obtain t' where "utf8_ok out" "ci_parse io out = Some t'" "table_value t' = table_value table"
    unfolding toml_faithful_def by blast
  with out(2) show ?thesis by (simp add: load_table_def)
qed


text \<open>\<open>config unset\<close> reports whether the key was set in the file; afterwards it is not, and every other key
  reads as before.\<close>

lemma config_unset_forgets:
  assumes "toml_faithful io" "config_unset io key (Scope_Repo r) fs = (fs', Inr removed)"
  shows "read_key_file io fs' (repo_config_path r) key = None \<and>
      (removed \<longleftrightarrow> read_key_file io fs (repo_config_path r) key \<noteq> None) \<and>
      (\<forall>k'. k' = key \<or> read_key_file io fs' (repo_config_path r) k' = read_key_file io fs (repo_config_path r) k')"
proof -
  let ?p = "repo_config_path r" and ?t = "load_table io fs (repo_config_path r)"
  obtain ks where ks: "spec key = Some ks" using assms(2) by (auto simp: config_unset_def split: option.splits)
  obtain b table where u: "table_unset ?t key = (b, table)" by fastforce
  note facts = table_unset_value[OF u] table_unset_other[OF u]
  show ?thesis
  proof (cases "fs ?p = None \<or> \<not> b")
    case True
    have "fs ?p = None \<Longrightarrow> table_value ?t k = None" for k
      by (simp add: load_table_def table_value_def split: option.split prod.split)
    with True facts(1) have none: "table_value ?t key = None" by blast
    have "fs' = fs \<and> \<not> removed"
      using True assms(2) ks u by (cases "fs ?p = None") (simp_all add: config_unset_def scope_path_def)
    with none show ?thesis by (simp add: read_key_file_def table_get_def)
  next
    case False
    then have w: "write_table_atomic io fs ?p table = (fs', Inr ())" "removed"
      using assms(2) ks u by (auto simp: config_unset_def scope_path_def split: prod.splits sum.splits)
    from written_table[OF assms(1) w(1)] have load: "table_value (load_table io fs' ?p) = table_value table" by blast
    have "k' = key \<or> table_value table k' = table_value ?t k'" for k' using facts(2) by blast
    with facts(1) False w(2) show ?thesis by (fastforce simp: read_key_file_def table_get_def load)
  qed
qed

text \<open>A file that does not parse is not repaired by \<open>config set\<close> but replaced: what it held has no influence
  on what is written, so one typing error in it costs every other setting. The documentation of \<open>set\<close>
  promises to preserve the other keys of the file.\<close>

lemma config_set_over_malformed:
  assumes "toml_faithful io" "ci_parse io broken = None"
    "config_set io key v (Scope_Repo r) (fs(repo_config_path r \<mapsto> broken)) = (fs', Inr ())"
  shows "k' = key \<or> read_key_file io fs' (repo_config_path r) k' = None"
proof -
  let ?p = "repo_config_path r" and ?fs = "fs(repo_config_path r \<mapsto> broken)"
  have "load_table io ?fs ?p = []" using assms(2) by (simp add: load_table_def)
  then obtain nv table where
    s: "table_set [] key nv = Inr table" "write_table_atomic io ?fs ?p table = (fs', Inr ())"
    using assms(3) by (auto simp: config_set_def scope_path_def split: option.splits sum.splits)
  from written_table[OF assms(1) s(2)] table_set_other[OF s(1), of k'] show ?thesis
    by (cases "k' = key") (simp_all add: read_key_file_def table_get_def table_value_def[of "[]"] split: option.split)
qed

subsection \<open>Normal forms\<close>

text \<open>The type and the range of the value of a registered key.\<close>

definition key_shape :: "string \<Rightarrow> toml \<Rightarrow> bool" where
  "key_shape key v =
     (case v of
        TInteger n \<Rightarrow> key \<in> {''embed.capacity'', ''docs.budget_pct''} \<and> 1 \<le> n \<and> n \<le> 100
          \<or> key \<in> {''embed.max_workers'', ''docs.max_results''} \<and> 1 \<le> n \<and> n < 2 ^ 63
      | TString w \<Rightarrow> key = ''embed.capacity'' \<and> w = ''auto''
          \<or> key = ''embed.priority'' \<and> w \<in> {''normal'', ''low'', ''idle''}
          \<or> key = ''guard.mode'' \<and> w \<in> set GUARD_MODES \<or> key = ''log.level'' \<and> w \<in> set LOG_LEVELS
      | TBool b \<Rightarrow> key = ''docs.enabled''
      | TArray items \<Rightarrow> key = ''docs.exclude''
          \<and> list_all (\<lambda>i. case i of TString p \<Rightarrow> p \<noteq> [] \<and> trim p = p \<and> CHR '','' \<notin> set p | _ \<Rightarrow> False) items
      | _ \<Rightarrow> False)"

lemma dropWhile_none: "\<forall>x\<in>set xs. \<not> P x \<Longrightarrow> dropWhile P xs = xs"
  by (cases xs) auto

lemma trim_ascii:
  assumes "\<forall>b\<in>set s. byte b < 128 \<and> \<not> is_whitespace [b]"
  shows "trim s = s"
proof -
  have c: "chars s = map (\<lambda>b. [b]) s" using assms by (induction s) (auto simp: chars_ascii_Cons)
  have "dropWhile is_whitespace (chars s) = chars s" "dropWhile is_whitespace (rev (chars s)) = rev (chars s)"
    unfolding c using assms by (auto intro!: dropWhile_none)
  then show ?thesis by (simp only: trim_def rev_rev_ident concat_chars)
qed

lemma trimmed_subset: "set (dropWhile P (rev (dropWhile P cs))) \<subseteq> set cs"
proof
  fix x assume "x \<in> set (dropWhile P (rev (dropWhile P cs)))"
  then have "x \<in> set (dropWhile P cs)" using set_dropWhileD by fastforce
  then show "x \<in> set cs" by (rule set_dropWhileD)
qed

lemma trim_show_nat: "trim (show_nat n) = show_nat n"
  using show_nat_digits[of n] by (intro trim_ascii) (auto simp: is_ascii_digit_def is_whitespace_def Let_def)

lemma parse_i64_show: "1 \<le> n \<Longrightarrow> n < 2 ^ 63 \<Longrightarrow> parse_i64 (show_int n) = Some n \<and> trim (show_int n) = show_int n"
proof -
  assume n: "1 \<le> n" "n < 2 ^ 63"
  have "\<not> starts_with (show_nat (nat n)) ''-''"
    using show_nat_digits[of "nat n"] by (cases "show_nat (nat n)") (auto simp: is_ascii_digit_def)
  with parse_uint_show[of "nat n" 9223372036854775807] n trim_show_nat[of "nat n"] show ?thesis
    by (simp add: show_int_def parse_i64_def)
qed

lemma parse_i64_max: "parse_i64 s = Some n \<Longrightarrow> n < 2 ^ 63"
  by (auto simp: parse_i64_def parse_uint_def Let_def split: list.splits option.splits if_splits)

lemma trim_set: "set (trim s) \<subseteq> set s"
proof -
  have "set (concat (rev (dropWhile is_whitespace (rev (dropWhile is_whitespace cs))))) \<subseteq> set (concat cs)" for cs
    using trimmed_subset[of is_whitespace cs] by auto
  from this[of "chars s"] show ?thesis by (simp add: trim_def)
qed

lemma trim_trim: "utf8_ok s \<Longrightarrow> trim (trim s) = trim s"
proof -
  assume u: "utf8_ok s"
  let ?d = "dropWhile is_whitespace (chars s)"
  let ?t = "rev (dropWhile is_whitespace (rev ?d))"
  have "set ?t \<subseteq> set (chars s)" using trimmed_subset[of is_whitespace "chars s"] by simp
  with u have wf: "list_all wf_utf8_char ?t" by (auto simp: utf8_ok_def list_all_iff)
  have ends: "rev (dropWhile is_whitespace (rev (dropWhile is_whitespace ?t))) = ?t"
  proof (cases "?t = []")
    case False
    then have ne: "dropWhile is_whitespace (rev ?d) \<noteq> []" by simp
    then have l: "\<not> is_whitespace (hd (dropWhile is_whitespace (rev ?d)))" by (rule hd_dropWhile)
    obtain ys where ys: "?d = ?t @ ys"
      using suffix_dropWhile[of is_whitespace "rev ?d"] by (metis rev_append rev_rev_ident suffix_def)
    have "?d \<noteq> []" using False by (metis dropWhile.simps(1) rev.simps(1))
    then have "\<not> is_whitespace (hd ?d)" by (rule hd_dropWhile)
    moreover have "hd ?t = hd ?d" using ys False by (metis hd_append2)
    ultimately have "dropWhile is_whitespace ?t = ?t" using False by (cases ?t) auto
    moreover have "dropWhile is_whitespace (dropWhile is_whitespace (rev ?d)) = dropWhile is_whitespace (rev ?d)"
      using l ne by (cases "dropWhile is_whitespace (rev ?d)") auto
    ultimately show ?thesis by simp
  next
    case True
    show ?thesis unfolding True by simp
  qed
  have "chars (trim s) = ?t" using chars_concat_wf[OF wf] by (simp add: trim_def)
  with ends show ?thesis by (simp add: trim_def)
qed

lemma split_on_utf8: "utf8_ok s \<Longrightarrow> byte d < 128 \<Longrightarrow> p \<in> set (split_on (\<lambda>c. c = d) s) \<Longrightarrow> utf8_ok p"
proof (induction "length s" arbitrary: s rule: less_induct)
  case less
  show ?case
  proof (cases "d \<in> set s")
    case False
    with less.prems(3) show ?thesis using less.prems(1) by (simp add: split_on_eq_no_sep)
  next
    case True
    then obtain a b where s: "s = a @ d # b" "d \<notin> set a" by (meson split_list_first)
    have "is_char_boundary s (length a)" using ascii_boundary[of "length a" s] s less.prems(2) by simp
    then have a: "utf8_ok a" "utf8_ok (d # b)" using utf8_ok_split[OF less.prems(1), of "length a"] s by simp_all
    then have b: "utf8_ok b" using less.prems(2) by simp
    have "split_on (\<lambda>c. c = d) s = a # split_on (\<lambda>c. c = d) b" unfolding s(1) using s(2) by (intro split_on_sep) auto
    with less.prems(3) a(1) less.hyps[OF _ b less.prems(2)] s(1) show ?thesis by auto
  qed
qed

lemma list_items_plain:
  "utf8_ok s \<Longrightarrow> p \<in> set (list_items s) \<Longrightarrow> p \<noteq> [] \<and> trim p = p \<and> CHR '','' \<notin> set p"
  using split_on_utf8[of s "CHR '',''"] trim_trim trim_set split_on_no_sep[of _ "\<lambda>c. c = CHR '',''" s]
  by (fastforce simp: list_items_def)

lemma list_items_join: "\<forall>p\<in>set ps. p \<noteq> [] \<and> trim p = p \<and> CHR '','' \<notin> set p \<Longrightarrow> list_items (join_with '','' ps) = ps"
proof (cases "ps = []")
  case False
  assume *: "\<forall>p\<in>set ps. p \<noteq> [] \<and> trim p = p \<and> CHR '','' \<notin> set p"
  then have "split_on (\<lambda>c. c = CHR '','') (join_with '','' ps) = ps" using False by (intro split_on_join) auto
  moreover have "map trim ps = ps" using * by (simp add: map_idI)
  ultimately show ?thesis using * by (simp add: list_items_def filter_id_conv)
qed (simp add: list_items_def trim_def)

lemma spec_cases:
  assumes "spec key = Some ks"
  shows "(key, ks_validate ks) \<in> {(''embed.capacity'', validate_capacity), (''embed.max_workers'', validate_positive_int),
    (''embed.priority'', validate_priority), (''docs.enabled'', validate_bool), (''docs.max_results'', validate_positive_int),
    (''docs.budget_pct'', validate_percent), (''docs.exclude'', validate_string_list), (''guard.mode'', validate_guard_mode),
    (''log.level'', validate_log_level)}"
proof -
  have "ks \<in> set KEYS \<and> ks_key ks = key" using assms by (auto simp: spec_def find_Some_iff)
  then have "ks \<in> set KEYS" "ks_key ks = key" by simp_all
  then show ?thesis unfolding KEYS_def list.set insert_iff empty_iff by (elim disjE FalseE) simp_all
qed

lemma words_normal:
  "list_all (\<lambda>w. trim w = w \<and> to_ascii_lowercase w = w)
     (LOG_LEVELS @ GUARD_MODES @ [''normal'', ''low'', ''idle'', ''auto'', ''true'', ''false''])"
  by code_simp

lemma word_normal: "w \<in> set (LOG_LEVELS @ GUARD_MODES @ [''normal'', ''low'', ''idle'', ''auto'', ''true'', ''false'']) \<Longrightarrow>
    trim w = w \<and> to_ascii_lowercase w = w"
  using words_normal unfolding list_all_iff by blast

lemma show_not_auto: "1 \<le> n \<Longrightarrow> n < 2 ^ 63 \<Longrightarrow> \<not> eq_ignore_ascii_case (show_int n) ''auto''"
proof -
  assume n: "1 \<le> n" "n < 2 ^ 63"
  obtain c ds where c: "show_nat (nat n) = c # ds" "is_ascii_digit c"
    using show_nat_digits[of "nat n"] by (cases "show_nat (nat n)") auto
  then have "ascii_lower c = c" by (auto simp: ascii_lower_def is_ascii_digit_def is_ascii_upper_def)
  with c n show ?thesis by (auto simp: eq_ignore_ascii_case_def show_int_def is_ascii_digit_def ascii_lower_def is_ascii_upper_def)
qed

lemma positive_int_normal:
  assumes "validate_positive_int s = Inr v"
  shows "\<exists>n. v = TInteger n \<and> 1 \<le> n \<and> n < 2 ^ 63 \<and> validate_positive_int (show_int n) = Inr v"
proof -
  from assms obtain n where n: "v = TInteger n" "parse_i64 (trim s) = Some n" "1 \<le> n"
    by (auto simp: validate_positive_int_def split: option.splits if_splits)
  with parse_i64_max[OF n(2)] parse_i64_show[OF n(3)] show ?thesis by (auto simp: validate_positive_int_def)
qed

lemma percent_normal:
  assumes "validate_percent s = Inr v"
  shows "\<exists>n. v = TInteger n \<and> 1 \<le> n \<and> n \<le> 100 \<and> validate_percent (show_int n) = Inr v"
proof -
  from assms obtain n where n: "v = TInteger n" "1 \<le> n" "n \<le> 100"
    by (auto simp: validate_percent_def split: option.splits if_splits)
  with parse_i64_show[OF n(2)] show ?thesis by (auto simp: validate_percent_def)
qed

lemma capacity_normal:
  assumes "validate_capacity s = Inr v"
  shows "v = TString ''auto'' \<and> validate_capacity ''auto'' = Inr v \<or>
     (\<exists>n. v = TInteger n \<and> 1 \<le> n \<and> n \<le> 100 \<and> validate_capacity (show_int n) = Inr v)"
proof (cases "eq_ignore_ascii_case (trim s) ''auto''")
  case True
  with assms show ?thesis
    using word_normal[of "''auto''"] by (auto simp: validate_capacity_def eq_ignore_ascii_case_def[of "''auto''"])
next
  case False
  with assms obtain n where n: "v = TInteger n" "1 \<le> n" "n \<le> 100"
    by (auto simp: validate_capacity_def split: option.splits if_splits)
  with parse_i64_show[OF n(2)] show_not_auto[OF n(2)] show ?thesis by (auto simp: validate_capacity_def)
qed

lemma log_level_normal: "validate_log_level s = Inr v \<Longrightarrow> \<exists>w\<in>set LOG_LEVELS. v = TString w \<and> validate_log_level w = Inr v"
  using word_normal[of "to_ascii_lowercase (trim s)"] 
  by (intro bexI[of _ "to_ascii_lowercase (trim s)"]) (auto simp: validate_log_level_def Let_def simp del: map_map split: if_splits)

lemma guard_mode_normal: "validate_guard_mode s = Inr v \<Longrightarrow> \<exists>w\<in>set GUARD_MODES. v = TString w \<and> validate_guard_mode w = Inr v"
  using word_normal[of "to_ascii_lowercase (trim s)"] 
  by (intro bexI[of _ "to_ascii_lowercase (trim s)"]) (auto simp: validate_guard_mode_def Let_def simp del: map_map split: if_splits)

lemma priority_normal:
  "validate_priority s = Inr v \<Longrightarrow> \<exists>w\<in>{''normal'', ''low'', ''idle''}. v = TString w \<and> validate_priority w = Inr v"
  using word_normal[of "trim s"] by (simp add: validate_priority_def split: if_splits) auto

lemma bool_normal:
  "validate_bool s = Inr v \<Longrightarrow> \<exists>b. v = TBool b \<and> validate_bool (if b then ''true'' else ''false'') = Inr v"
  using word_normal[of "''true''"] word_normal[of "''false''"]
  by (auto simp: validate_bool_def bool_word_def Let_def split: option.splits if_splits)

lemma string_list_normal:
  assumes "validate_string_list s = Inr v" "utf8_ok s"
  shows "\<exists>ps. v = TArray (map TString ps) \<and> (\<forall>p\<in>set ps. p \<noteq> [] \<and> trim p = p \<and> CHR '','' \<notin> set p) \<and>
    validate_string_list (join_with '','' ps) = Inr v"
  using assms list_items_plain[OF assms(2)] list_items_join[of "list_items s"]
  by (intro exI[of _ "list_items s"]) (simp add: validate_string_list_def)

text \<open>C27: Every registered key has one normal form: what its validator accepts is a value of the type and range of
  the key, and the text of a stored value is accepted again with the same value, so a setting can be moved
  between a file and its environment variable.\<close>

theorem config_normal_form:
  assumes "spec key = Some ks" "ks_validate ks s = Inr v" "utf8_ok s"
  shows "key_shape key v \<and> ks_validate ks (value_display other v) = Inr v"
proof -
  have texts: "map (value_display other) (map TString ps) = ps" for ps by (induction ps) auto
  from spec_cases[OF assms(1)] show ?thesis
  proof (elim insertE emptyE Pair_inject)
    assume k: "key = ''embed.capacity''" "ks_validate ks = validate_capacity"
    with capacity_normal[of s v] assms(2) show ?thesis by (auto simp: key_shape_def)
  next
    assume k: "key = ''docs.exclude''" "ks_validate ks = validate_string_list"
    with string_list_normal[of s v] assms(2,3) obtain ps where
      "v = TArray (map TString ps)" "\<forall>p\<in>set ps. p \<noteq> [] \<and> trim p = p \<and> CHR '','' \<notin> set p"
      "validate_string_list (join_with '','' ps) = Inr v" by auto
    with k texts[of ps] show ?thesis by (auto simp: key_shape_def list_all_iff)
  qed (use assms(2) positive_int_normal[of s v] percent_normal[of s v] log_level_normal[of s v] guard_mode_normal[of s v] priority_normal[of s v] bool_normal[of s v]
       in \<open>auto simp: key_shape_def\<close>)
qed

subsection \<open>Layers\<close>

text \<open>The log filter is \<open>RUST_LOG\<close> as it stands or one of the five levels: an unknown word of a file never
  reaches the filter, which would read it as the name of a target.\<close>

lemma log_filter_known:
  "decide_log_filter rust_log configured = (f, src) \<Longrightarrow>
     src = From_Rust_Log \<and> f \<noteq> [] \<and> map_option trim rust_log = Some f \<or> src \<noteq> From_Rust_Log \<and> f \<in> set LOG_LEVELS"
  by (auto simp: decide_log_filter_def DEFAULT_LOG_LEVEL_def LOG_LEVELS_def split: option.splits if_splits)

lemma stored_level_ignores_rust_log: "snd (resolve_log_level_setting io fs repo) \<noteq> From_Rust_Log"
  by (auto simp: resolve_log_level_setting_def decide_log_filter_def split: option.splits)

text \<open>The environment wins over the repository, the repository over the machine; the list of all keys agrees
  with the keys one by one.\<close>

lemma effective_layers:
  assumes "spec key = Some ks" "ks_env ks = Some var"
  shows "effective_value io fs key (Some r) =
     (case ci_env io var of
        Some (c # s) \<Rightarrow> Some (c # s)
      | _ \<Rightarrow> or_else (read_key_file io fs (repo_config_path r) key)
              (Option.bind (global_config_path io) (\<lambda>p. read_key_file io fs p key)))"
proof -
  have "ks_key ks = key" using assms(1) by (auto simp: spec_def find_Some_iff)
  with assms show ?thesis
    by (cases "global_config_path io") (auto simp: effective_value_def config_get_def status_for_def status_for_tables_def resolve_status_def read_key_file_def
        or_else_def Let_def split: option.split list.split prod.split)
qed

lemma config_list_agrees: "config_list io fs repo = map (\<lambda>ks. status_for io fs ks repo) KEYS"
  by (simp add: config_list_def status_for_def Let_def)

subsection \<open>A machine on which the hypotheses hold\<close>

definition five_results :: toml_table where
  "five_results = [(''docs'', TTable [(''max_results'', TInteger 5)])]"

text \<open>Its TOML library knows one document, and an empty one.\<close>

definition sample_config_io :: config_io where
  "sample_config_io = \<lparr>ci_parse = (\<lambda>s. if s = ''five'' then Some five_results else if s = ''none'' then Some [] else None),
     ci_print = (\<lambda>t. if t = five_results then Some ''five'' else if t = [] then Some ''none'' else None), ci_other = (\<lambda>_. []),
     ci_env = (\<lambda>_. None), ci_home = None, ci_mkdir = (\<lambda>_. True), ci_write = (\<lambda>_. True), ci_rename = (\<lambda>_. True)\<rparr>"

lemma sample_config_faithful: "toml_faithful sample_config_io"
  by (simp add: toml_faithful_def sample_config_io_def utf8_ok_def utf8_extra_def five_results_def)

lemma sample_set:
  "config_set sample_config_io ''docs.max_results'' ''5'' (Scope_Repo ''/r'') fs =
     (if fs ''/r/.travsr/config.toml'' \<in> {None, Some ''broken''}
      then ((fs(''/r/.travsr/config.toml.tmp'' := None))(''/r/.travsr/config.toml'' \<mapsto> ''five''), Inr ())
      else config_set sample_config_io ''docs.max_results'' ''5'' (Scope_Repo ''/r'') fs)"
proof -
  have parts: "repo_config_path ''/r'' = ''/r/.travsr/config.toml''" "tmp_path ''/r/.travsr/config.toml'' = ''/r/.travsr/config.toml.tmp''"
    "map_option ks_key (spec ''docs.max_results'') = Some ''docs.max_results''"
    "split_once (CHR ''.'') ''docs.max_results'' = Some (''docs'', ''max_results'')"
    "validate_positive_int ''5'' = Inr (TInteger 5)" by code_simp+
  then obtain ks where ks: "spec ''docs.max_results'' = Some ks" by auto
  from spec_cases[OF this] have "ks_validate ks = validate_positive_int" by simp
  with parts ks show ?thesis
    by (auto simp: config_set_def scope_path_def load_table_def table_set_def write_table_atomic_def sample_config_io_def
        five_results_def)
qed


lemma config_set_over_malformed_witness:
  "read_key_file sample_config_io
     (fst (config_set sample_config_io ''docs.max_results'' ''5'' (Scope_Repo ''/r'') [repo_config_path ''/r'' \<mapsto> ''broken'']))
     (repo_config_path ''/r'') ''guard.mode'' = None"
proof -
  have "repo_config_path ''/r'' = ''/r/.travsr/config.toml''" by code_simp
  then have "config_set sample_config_io ''docs.max_results'' ''5'' (Scope_Repo ''/r'') [repo_config_path ''/r'' \<mapsto> ''broken''] =
      (fst (config_set sample_config_io ''docs.max_results'' ''5'' (Scope_Repo ''/r'') [repo_config_path ''/r'' \<mapsto> ''broken'']), Inr ())"
    by (subst (1 2) sample_set) simp
  from config_set_over_malformed[OF sample_config_faithful _ this, of "''guard.mode''"] show ?thesis
    by (simp add: sample_config_io_def)
qed

lemma config_unset_forgets_witness:
  "read_key_file sample_config_io
     (fst (config_unset sample_config_io ''docs.max_results'' (Scope_Repo ''/r'') [repo_config_path ''/r'' \<mapsto> ''five'']))
     (repo_config_path ''/r'') ''docs.max_results'' = None"
proof -
  have parts: "repo_config_path ''/r'' = ''/r/.travsr/config.toml''" "map_option ks_key (spec ''docs.max_results'') = Some ''docs.max_results''"
    "split_once (CHR ''.'') ''docs.max_results'' = Some (''docs'', ''max_results'')" by code_simp+
  then have "config_unset sample_config_io ''docs.max_results'' (Scope_Repo ''/r'') [repo_config_path ''/r'' \<mapsto> ''five''] =
      (fst (config_unset sample_config_io ''docs.max_results'' (Scope_Repo ''/r'') [repo_config_path ''/r'' \<mapsto> ''five'']), Inr True)"
    by (auto simp: config_unset_def scope_path_def load_table_def table_unset_def write_table_atomic_def sample_config_io_def
        five_results_def utf8_ok_def utf8_extra_def)
  from config_unset_forgets[OF sample_config_faithful this] show ?thesis by blast
qed

theorem config_normal_form_witness:
  "key_shape ''guard.mode'' (TString ''strict'') \<and> validate_guard_mode ''strict'' = Inr (TString ''strict'')"
proof -
  have "spec ''guard.mode'' \<noteq> None" "validate_guard_mode '' STRICT'' = Inr (TString ''strict'')" "utf8_ok '' STRICT''" by code_simp+
  then obtain ks where ks: "spec ''guard.mode'' = Some ks" by auto
  from spec_cases[OF this] have "ks_validate ks = validate_guard_mode" by simp
  with config_normal_form[OF ks, of "'' STRICT''" "TString ''strict''" "\<lambda>_. []"]
    \<open>validate_guard_mode '' STRICT'' = Inr (TString ''strict'')\<close> \<open>utf8_ok '' STRICT''\<close>
  show ?thesis by simp
qed

end
