(* ===== verification/Live_Store.thy ===== *)
theory Live_Store
  imports Core_Noise
begin

section \<open>The reads of live resolution\<close>

text \<open>
  The node table of \<open>crates/travsr-store/src/lib.rs\<close> and the queries on it that live resolution uses:
  \<open>lookup_nodes_exact\<close>, \<open>enclosing_node_at\<close>, \<open>node_starting_at_or_below\<close>, \<open>file_node_at\<close>,
  \<open>current_spans\<close> and \<open>get_node\<close>. The table is a list of rows and a query is the filter, the order and
  the limit of its SQL text; \<open>ok\<close> says which of them succeed. What the client relies on is the locale
  \<open>live_reads\<close>, which the table satisfies.
\<close>

record live_store =
  lv_node :: "node_id \<Rightarrow> core_node option"
  lv_exact :: "string \<Rightarrow> core_node list option"
  lv_enclosing :: "string \<Rightarrow> string \<Rightarrow> nat \<Rightarrow> string list \<Rightarrow> node_id option"
  lv_below :: "string \<Rightarrow> string \<Rightarrow> nat \<Rightarrow> string list \<Rightarrow> node_id option"
  lv_file :: "string \<Rightarrow> string \<Rightarrow> node_id option"
  lv_spans :: "node_id list \<Rightarrow> node_id \<Rightarrow> (nat \<times> nat option) option"
  lv_edges_to :: "node_id \<Rightarrow> gedge list option"
  lv_put :: "gedge \<Rightarrow> bool"

record changed_occurrence =
  co_src :: node_id
  co_line :: nat
  co_col :: "nat option"
  co_kind :: string
  co_name :: string

datatype ref_state = Resolved | Pending

record ref_resolution =
  rr_src :: node_id
  rr_line :: nat
  rr_col :: nat
  rr_name :: string
  rr_state :: ref_state
  rr_dst :: "node_id option"

definition NODE_EXACT_LOOKUP_LIMIT :: nat where "NODE_EXACT_LOOKUP_LIMIT = 21"
definition LIVE_DECL_HEADER_LINES :: nat where "LIVE_DECL_HEADER_LINES = 64"

definition ENCLOSING_DEFINITION_KINDS :: "string list" where
  "ENCLOSING_DEFINITION_KINDS =
     [''function'', ''method'', ''fn'', ''class'', ''interface'', ''struct'', ''trait'', ''enum'', ''type'', ''typedef'',
      ''union'', ''object'', ''protocol'', ''mixin'', ''extension'', ''namespace'', ''init'']"

definition enclosing_definition_at :: "live_store \<Rightarrow> string \<Rightarrow> string \<Rightarrow> nat \<Rightarrow> node_id option" where
  "enclosing_definition_at db corpus path line = lv_enclosing db corpus path line ENCLOSING_DEFINITION_KINDS"

abbreviation node_signature :: "core_node \<Rightarrow> string" where
  "node_signature n \<equiv> vn_signature (gn_vname n)"

abbreviation row_path :: "core_node \<Rightarrow> string" where
  "row_path n \<equiv> vn_path (gn_vname n)"

abbreviation row_language :: "core_node \<Rightarrow> string" where
  "row_language n \<equiv> vn_language (gn_vname n)"

abbreviation row_corpus :: "core_node \<Rightarrow> string" where
  "row_corpus n \<equiv> vn_corpus (gn_vname n)"

subsection \<open>The table\<close>

text \<open>\<open>INSERT ... ON CONFLICT(id) DO UPDATE\<close>: the row of an id keeps its name; a missing line keeps the old one.\<close>

definition coalesce_row :: "core_node \<Rightarrow> core_node \<Rightarrow> core_node" where
  "coalesce_row old new =
     old\<lparr>gn_kind := gn_kind new, cn_line := or_else (cn_line new) (cn_line old),
         cn_end_line := or_else (cn_end_line new) (cn_end_line old), cn_test_role := cn_test_role new\<rparr>"

definition insert_row :: "core_node \<Rightarrow> core_node list \<Rightarrow> core_node list" where
  "insert_row n rows =
     (if gn_id n \<in> set (map gn_id rows) then map (\<lambda>old. if gn_id old = gn_id n then coalesce_row old n else old) rows
      else rows @ [n])"

definition node_table :: "core_node list \<Rightarrow> core_node list" where
  "node_table ns = fold insert_row ns []"

lemma insert_row_ids: "map gn_id (insert_row n rows) = map gn_id rows @ (if gn_id n \<in> set (map gn_id rows) then [] else [gn_id n])"
  by (auto simp: insert_row_def coalesce_row_def o_def)

lemma node_table_ids: "distinct (map gn_id (node_table ns))"
proof -
  have "distinct (map gn_id rows) \<Longrightarrow> distinct (map gn_id (fold insert_row ns rows))" for rows
    by (induction ns arbitrary: rows) (simp_all add: insert_row_ids)
  then show ?thesis by (simp add: node_table_def)
qed

subsection \<open>The queries\<close>

text \<open>Ids are stored as signed numbers, which is the order of \<open>ORDER BY id\<close>.\<close>

definition by_id :: "core_node \<Rightarrow> int" where
  "by_id n = sint (gn_id n)"

definition spans_line :: "nat \<Rightarrow> core_node \<Rightarrow> bool" where
  "spans_line line n \<longleftrightarrow> (case (cn_line n, cn_end_line n) of
     (Some s, Some e) \<Rightarrow> s \<le> line \<and> line \<le> e | _ \<Rightarrow> False)"

definition starts_below :: "nat \<Rightarrow> core_node \<Rightarrow> bool" where
  "starts_below line n \<longleftrightarrow> (case (cn_line n, cn_end_line n) of
     (Some s, Some e) \<Rightarrow> line \<le> s \<and> s \<le> line + LIVE_DECL_HEADER_LINES | _ \<Rightarrow> False)"

definition span_width :: "core_node \<Rightarrow> int" where
  "span_width n = (case (cn_line n, cn_end_line n) of (Some s, Some e) \<Rightarrow> int e - int s | _ \<Rightarrow> 0)"

definition in_file :: "string \<Rightarrow> string \<Rightarrow> core_node \<Rightarrow> bool" where
  "in_file corpus path n \<longleftrightarrow> row_corpus n = corpus \<and> row_path n = path"

definition sql_exact :: "core_node list \<Rightarrow> string \<Rightarrow> core_node list" where
  "sql_exact rows sig =
     take NODE_EXACT_LOOKUP_LIMIT
       (sort_key by_id (filter (\<lambda>n. node_signature n = sig \<and> gn_kind n \<notin> {''file'', ''import''}) rows))"

definition first_id :: "core_node list \<Rightarrow> node_id option" where
  "first_id rows = (case rows of [] \<Rightarrow> None | n # _ \<Rightarrow> Some (gn_id n))"

definition sql_enclosing :: "core_node list \<Rightarrow> string \<Rightarrow> string \<Rightarrow> nat \<Rightarrow> string list \<Rightarrow> node_id option" where
  "sql_enclosing rows corpus path line kinds =
     (if kinds = [] then None
      else first_id (sort_key span_width (sort_key by_id
             (filter (\<lambda>n. in_file corpus path n \<and> spans_line line n \<and> gn_kind n \<in> set kinds) rows))))"

definition start_line :: "core_node \<Rightarrow> nat" where
  "start_line n = (case cn_line n of Some s \<Rightarrow> s | None \<Rightarrow> 0)"

definition sql_below :: "core_node list \<Rightarrow> string \<Rightarrow> string \<Rightarrow> nat \<Rightarrow> string list \<Rightarrow> node_id option" where
  "sql_below rows corpus path line kinds =
     (if kinds = [] then None
      else first_id (sort_key start_line (sort_key span_width (sort_key by_id
             (filter (\<lambda>n. in_file corpus path n \<and> starts_below line n \<and> gn_kind n \<in> set kinds) rows)))))"

definition sql_file :: "core_node list \<Rightarrow> string \<Rightarrow> string \<Rightarrow> node_id option" where
  "sql_file rows corpus path = first_id (filter (\<lambda>n. in_file corpus path n \<and> gn_kind n = ''file'') rows)"

definition sql_node :: "core_node list \<Rightarrow> node_id \<Rightarrow> core_node option" where
  "sql_node rows i = find (\<lambda>n. gn_id n = i) rows"

definition sql_spans :: "core_node list \<Rightarrow> node_id list \<Rightarrow> node_id \<Rightarrow> (nat \<times> nat option) option" where
  "sql_spans rows ids i =
     (if i \<in> set ids
      then Option.bind (sql_node rows i) (\<lambda>n. map_option (\<lambda>s. (s, cn_end_line n)) (cn_line n)) else None)"

datatype live_query = Q_Node node_id | Q_Exact string | Q_Enclosing string string nat "string list"
  | Q_Below string string nat "string list" | Q_File string string | Q_Spans | Q_Edges node_id | Q_Put gedge

text \<open>The store: a query that fails answers like one that finds nothing, except where the client can tell.\<close>

definition table_store :: "(live_query \<Rightarrow> bool) \<Rightarrow> core_node list \<Rightarrow> gedge list \<Rightarrow> live_store" where
  "table_store ok rows edges =
     \<lparr>lv_node = (\<lambda>i. if ok (Q_Node i) then sql_node rows i else None),
      lv_exact = (\<lambda>sig. if ok (Q_Exact sig) then Some (sql_exact rows sig) else None),
      lv_enclosing = (\<lambda>c p l ks. if ok (Q_Enclosing c p l ks) then sql_enclosing rows c p l ks else None),
      lv_below = (\<lambda>c p l ks. if ok (Q_Below c p l ks) then sql_below rows c p l ks else None),
      lv_file = (\<lambda>c p. if ok (Q_File c p) then sql_file rows c p else None),
      lv_spans = (\<lambda>ids i. if ok Q_Spans then sql_spans rows ids i else None),
      lv_edges_to = (\<lambda>i. if ok (Q_Edges i) then Some (filter (\<lambda>e. ge_dst e = i) edges) else None),
      lv_put = (\<lambda>e. ok (Q_Put e))\<rparr>"

subsection \<open>What a client relies on\<close>

text \<open>An exact lookup that is not full has every definition of the signature, and a row that a query answers
  with satisfies its condition. Rows have distinct ids, the primary key of the table.\<close>

locale live_reads =
  fixes db :: live_store and rows :: "core_node list"
  assumes ids: "distinct (map gn_id rows)"
    and node_row: "lv_node db i = Some n \<Longrightarrow> n \<in> set rows \<and> gn_id n = i"
    and exact_rows: "lv_exact db sig = Some ns \<Longrightarrow> n \<in> set ns \<Longrightarrow>
      n \<in> set rows \<and> node_signature n = sig \<and> gn_kind n \<notin> {''file'', ''import''}"
    and exact_distinct: "lv_exact db sig = Some ns \<Longrightarrow> distinct ns"
    and exact_complete: "lv_exact db sig = Some ns \<Longrightarrow> length ns < NODE_EXACT_LOOKUP_LIMIT \<Longrightarrow> n \<in> set rows \<Longrightarrow>
      node_signature n = sig \<Longrightarrow> gn_kind n \<notin> {''file'', ''import''} \<Longrightarrow> n \<in> set ns"
    and enclosing_row: "lv_enclosing db c p l ks = Some i \<Longrightarrow>
      \<exists>n\<in>set rows. gn_id n = i \<and> in_file c p n \<and> spans_line l n \<and> gn_kind n \<in> set ks"
    and below_row: "lv_below db c p l ks = Some i \<Longrightarrow>
      \<exists>n\<in>set rows. gn_id n = i \<and> in_file c p n \<and> starts_below l n \<and> gn_kind n \<in> set ks"
    and file_row: "lv_file db c p = Some i \<Longrightarrow> \<exists>n\<in>set rows. gn_id n = i \<and> in_file c p n \<and> gn_kind n = ''file''"
begin

lemma row_unique: "m \<in> set rows \<Longrightarrow> n \<in> set rows \<Longrightarrow> gn_id m = gn_id n \<Longrightarrow> m = n"
  using ids by (auto simp: distinct_map inj_on_def)

end

lemma first_id_Some: "first_id ns = Some i \<Longrightarrow> \<exists>n\<in>set ns. gn_id n = i"
  by (cases ns) (auto simp: first_id_def)

lemma table_reads: "distinct (map gn_id rows) \<Longrightarrow> live_reads (table_store ok rows edges) rows"
proof unfold_locales
  fix sig ns n
  assume d: "distinct (map gn_id rows)"
  let ?ns = "sort_key by_id (filter (\<lambda>n. node_signature n = sig \<and> gn_kind n \<notin> {''file'', ''import''}) rows)"
  have rows: "distinct rows" using d by (simp add: distinct_map)
  assume e: "lv_exact (table_store ok rows edges) sig = Some ns"
  then have ns: "ns = take NODE_EXACT_LOOKUP_LIMIT ?ns" by (simp add: table_store_def sql_exact_def split: if_splits)
  show "distinct ns" unfolding ns using rows by (simp add: distinct_take)
  show "n \<in> set rows \<and> node_signature n = sig \<and> gn_kind n \<notin> {''file'', ''import''}" if "n \<in> set ns"
    using that set_take_subset[of NODE_EXACT_LOOKUP_LIMIT ?ns] unfolding ns by fastforce
  assume l: "length ns < NODE_EXACT_LOOKUP_LIMIT"
  assume n: "n \<in> set rows" "node_signature n = sig" "gn_kind n \<notin> {''file'', ''import''}"
  have "ns = ?ns" using l unfolding ns by (simp add: min_def split: if_splits)
  with n show "n \<in> set ns" by simp
qed (auto simp: table_store_def sql_node_def sql_enclosing_def sql_below_def sql_file_def find_Some_iff
    split: if_splits dest!: first_id_Some)

text \<open>Every table that inserts leave is such a store.\<close>

interpretation live_table: live_reads "table_store ok (node_table ns) edges" "node_table ns"
  by (rule table_reads[OF node_table_ids])

end
