(* ===== verification/Live_Resolve.thy ===== *)
theory Live_Resolve
  imports Live_Store Fts_Tokens "HOL-Library.Code_Target_Nat"
begin

section \<open>Live resolution\<close>

text \<open>
  \<open>crates/travsr-daemon/src/live_resolve.rs\<close>: the edges that are written between two commits for the
  references of an edited file. The lexical lane resolves a name that has one definition, the editor lane
  maps the positions an editor resolved, and both abstain where they are not sure. The writes of a pass
  are collected in \<open>live_pass\<close>; a line or column is a number below \<open>2 ^ 32\<close>.
\<close>

record live_resolution =
  lr_line :: nat
  lr_col :: nat
  lr_name :: string
  lr_target_path :: string
  lr_target_line :: nat
  lr_version :: int
  lr_kind :: string

record live_target =
  lt_line :: nat
  lt_col :: "nat option"
  lt_name :: string
  lt_kind :: string
  lt_provider :: string

record unresolved_call =
  uc_src :: node_id
  uc_callee :: string
  uc_alt :: "string option"
  uc_hint :: "string option"
  uc_line :: nat
  uc_col :: "nat option"
  uc_method :: bool
  uc_recv :: "string option"

record inheritance_ref =
  ih_base :: string
  ih_line :: nat

type_synonym edge_site = "node_id \<times> node_id \<times> nat \<times> nat option"

record live_pass =
  lp_emitted :: nat
  lp_pending :: nat
  lp_edges :: "gedge list"
  lp_calls :: "edge_site list"
  lp_fields :: "edge_site list"
  lp_states :: "ref_resolution list"

definition empty_pass :: live_pass where
  "empty_pass = \<lparr>lp_emitted = 0, lp_pending = 0, lp_edges = [], lp_calls = [], lp_fields = [], lp_states = []\<rparr>"

subsection \<open>Gates\<close>

definition target_kinds :: "edge_kind \<Rightarrow> string list" where
  "target_kinds k =
     (case k of
        RefCall \<Rightarrow> ENCLOSING_DEFINITION_KINDS
      | RefField \<Rightarrow> [''field'']
      | RefImports \<Rightarrow> ENCLOSING_DEFINITION_KINDS
      | IsImplementation \<Rightarrow> [''interface'', ''trait'', ''class'', ''struct'', ''protocol'']
      | Overrides \<Rightarrow> [''method'', ''fn'', ''function'']
      | _ \<Rightarrow> [])"

definition live_edge_kind :: "string \<Rightarrow> edge_kind option" where
  "live_edge_kind s =
     (case edge_kind_from_str s of
        None \<Rightarrow> None
      | Some k \<Rightarrow> if k \<in> {RefCall, RefField, IsImplementation} then Some k else None)"

definition edge_if_sound :: "live_store \<Rightarrow> node_id \<Rightarrow> node_id \<Rightarrow> edge_kind \<Rightarrow> gedge option" where
  "edge_if_sound db src dst kind =
     (if src = dst then None
      else case lv_node db src of
             None \<Rightarrow> None
           | Some src_node \<Rightarrow>
               (case lv_node db dst of
                  None \<Rightarrow> None
                | Some dst_node \<Rightarrow>
                    if row_corpus src_node \<noteq> row_corpus dst_node then None
                    else Some \<lparr>ge_src = src, ge_dst = dst, ge_kind = kind\<rparr>))"

definition CONSTRUCTOR_LEAVES :: "string list" where "CONSTRUCTOR_LEAVES = [''init'', ''new'', ''constructor'']"

text \<open>Whether a signature names \<open>name\<close>: by its leaf, or by its qualifier where the leaf is a constructor.\<close>

definition signature_names :: "string \<Rightarrow> string \<Rightarrow> bool" where
  "signature_names sig name \<longleftrightarrow>
     (if leaf_of sig = name then True
      else if leaf_of sig \<notin> set CONSTRUCTOR_LEAVES then False
      else (let body = (case split_once (CHR '':'') sig of Some (_, b) \<Rightarrow> b | None \<Rightarrow> sig)
            in case rsplit_once (CHR ''.'') body of
                 Some (qual, _) \<Rightarrow> last (split_on (\<lambda>c. c = CHR ''.'') qual) = name
               | None \<Rightarrow> False))"

definition names_match :: "live_store \<Rightarrow> node_id \<Rightarrow> string \<Rightarrow> bool" where
  "names_match db dst name \<longleftrightarrow> (case lv_node db dst of None \<Rightarrow> False | Some n \<Rightarrow> signature_names (node_signature n) name)"

definition truncated :: "core_node list \<Rightarrow> bool" where
  "truncated candidates \<longleftrightarrow> NODE_EXACT_LOOKUP_LIMIT \<le> length candidates"

definition language_admits :: "string option \<Rightarrow> core_node \<Rightarrow> bool" where
  "language_admits language n \<longleftrightarrow> (case language of None \<Rightarrow> True | Some l \<Rightarrow> row_language n = l)"

definition unique_definition :: "live_store \<Rightarrow> string \<Rightarrow> edge_kind \<Rightarrow> string option \<Rightarrow> core_node option" where
  "unique_definition db sig edge language =
     (case lv_exact db sig of
        None \<Rightarrow> None
      | Some candidates \<Rightarrow>
          if truncated candidates then None
          else case filter (language_admits language) (filter (\<lambda>n. gn_kind n \<in> set (target_kinds edge)) candidates) of
                 [n] \<Rightarrow> Some n
               | _ \<Rightarrow> None)"

text \<open>The loops of \<open>unique_base_definition\<close>; the outer option is the early return.\<close>

fun base_rows :: "string option \<Rightarrow> core_node list \<Rightarrow> node_id option \<Rightarrow> node_id option option" where
  "base_rows language [] found = Some found"
| "base_rows language (n # ns) found =
     (if gn_kind n \<notin> set (target_kinds IsImplementation) then base_rows language ns found
      else if \<not> language_admits language n then base_rows language ns found
      else case found of
             Some i \<Rightarrow> if i \<noteq> gn_id n then None else base_rows language ns found
           | None \<Rightarrow> base_rows language ns (Some (gn_id n)))"

fun base_kinds :: "live_store \<Rightarrow> string option \<Rightarrow> string \<Rightarrow> string list \<Rightarrow> node_id option \<Rightarrow> node_id option option" where
  "base_kinds db language base [] found = Some found"
| "base_kinds db language base (k # ks) found =
     (case lv_exact db (k @ '':'' @ base) of
        None \<Rightarrow> base_kinds db language base ks found
      | Some nodes \<Rightarrow>
          if truncated nodes then None
          else case base_rows language nodes found of
                 None \<Rightarrow> None
               | Some found' \<Rightarrow> base_kinds db language base ks found')"

definition unique_base_definition :: "live_store \<Rightarrow> string \<Rightarrow> string option \<Rightarrow> node_id option" where
  "unique_base_definition db base language =
     (case base_kinds db language base (target_kinds IsImplementation) None of Some found \<Rightarrow> found | None \<Rightarrow> None)"

definition candidate_signatures :: "unresolved_call \<Rightarrow> string list" where
  "candidate_signatures call =
     (let leaf = leaf_of (uc_callee call); is_field = starts_with (uc_callee call) ''field:''
      in case uc_recv call of
           Some recv \<Rightarrow> [(if is_field then ''field'' else ''method'') @ '':'' @ recv @ ''.'' @ leaf]
         | None \<Rightarrow>
             if uc_method call \<or> is_field then []
             else uc_callee call # (case uc_alt call of Some alt \<Rightarrow> [alt] | None \<Rightarrow> []))"

definition lexical_edge_kind :: "unresolved_call \<Rightarrow> edge_kind" where
  "lexical_edge_kind call = (if starts_with (uc_callee call) ''field:'' then RefField else RefCall)"

definition hint_crate_reaches :: "string option \<Rightarrow> core_node \<Rightarrow> bool" where
  "hint_crate_reaches hint dst \<longleftrightarrow>
     (case hint of
        None \<Rightarrow> True
      | Some h \<Rightarrow>
          if h \<in> {''self'', ''super'', ''crate''} then True
          else (let dashed = map (\<lambda>c. if c = CHR ''_'' then CHR ''-'' else c) h
                in list_ex (\<lambda>seg. seg = h \<or> seg = dashed) (split_on (\<lambda>c. c = CHR ''/'' \<or> c = CHR ''.'') (row_path dst))))"

definition src_language :: "core_node \<Rightarrow> string option" where
  "src_language n = (if row_language n \<noteq> [] then Some (row_language n) else None)"

definition bare_identifier :: "unresolved_call \<Rightarrow> bool" where
  "bare_identifier call \<longleftrightarrow> \<not> uc_method call \<and> \<not> starts_with (uc_callee call) ''field:''"

definition lexical_one :: "live_store \<Rightarrow> string set \<Rightarrow> unresolved_call \<Rightarrow> gedge option" where
  "lexical_one db bound call =
     (if bare_identifier call \<and> leaf_of (uc_callee call) \<in> bound then None
      else case lv_node db (uc_src call) of
             None \<Rightarrow> None
           | Some src_node \<Rightarrow>
               (case find_map (\<lambda>sig. unique_definition db sig (lexical_edge_kind call) (src_language src_node))
                       (candidate_signatures call) of
                  None \<Rightarrow> None
                | Some dst \<Rightarrow>
                    if bare_identifier call \<and> \<not> hint_crate_reaches (uc_hint call) dst then None
                    else edge_if_sound db (uc_src call) (gn_id dst) (lexical_edge_kind call)))"

definition inheritance_edge :: "live_store \<Rightarrow> string set \<Rightarrow> node_id \<Rightarrow> string \<Rightarrow> gedge option" where
  "inheritance_edge db bound src base =
     (if base \<in> bound then None
      else case lv_node db src of
             None \<Rightarrow> None
           | Some src_node \<Rightarrow>
               (case unique_base_definition db base (src_language src_node) of
                  None \<Rightarrow> None
                | Some dst \<Rightarrow> edge_if_sound db src dst IsImplementation))"

definition resolve_one :: "live_store \<Rightarrow> string \<Rightarrow> string \<Rightarrow> live_resolution \<Rightarrow> gedge option" where
  "resolve_one db corpus file r =
     (case live_edge_kind (lr_kind r) of
        None \<Rightarrow> None
      | Some edge \<Rightarrow>
          (case or_else (enclosing_definition_at db corpus file (lr_line r)) (lv_file db corpus file) of
             None \<Rightarrow> None
           | Some src \<Rightarrow>
               (case or_else (lv_enclosing db corpus (lr_target_path r) (lr_target_line r) (target_kinds edge))
                       (lv_below db corpus (lr_target_path r) (lr_target_line r) (target_kinds edge)) of
                  None \<Rightarrow> None
                | Some dst \<Rightarrow>
                    if \<not> names_match db dst (lr_name r) then None else edge_if_sound db src dst edge)))"

subsection \<open>Passes\<close>

text \<open>What becomes of one reference: the edge is written, and counts where the write succeeded.\<close>

definition claim :: "live_store \<Rightarrow> gedge option \<Rightarrow> gedge option" where
  "claim db edge = (case edge of Some e \<Rightarrow> if lv_put db e then Some e else None | None \<Rightarrow> None)"

definition add_site :: "gedge \<Rightarrow> nat \<Rightarrow> nat option \<Rightarrow> live_pass \<Rightarrow> live_pass" where
  "add_site e line col p =
     (case ge_kind e of
        RefCall \<Rightarrow> p\<lparr>lp_calls := lp_calls p @ [(ge_src e, ge_dst e, line, col)]\<rparr>
      | RefField \<Rightarrow> p\<lparr>lp_fields := lp_fields p @ [(ge_src e, ge_dst e, line, col)]\<rparr>
      | _ \<Rightarrow> p)"

definition count_claim :: "gedge option \<Rightarrow> live_pass \<Rightarrow> live_pass" where
  "count_claim claimed p =
     (case claimed of
        Some e \<Rightarrow> p\<lparr>lp_emitted := lp_emitted p + 1, lp_edges := lp_edges p @ [e]\<rparr>
      | None \<Rightarrow> p\<lparr>lp_pending := lp_pending p + 1\<rparr>)"

definition record_state :: "node_id \<Rightarrow> nat \<Rightarrow> string \<Rightarrow> gedge option \<Rightarrow> live_pass \<Rightarrow> live_pass" where
  "record_state src line name claimed p =
     p\<lparr>lp_states := lp_states p @
        [\<lparr>rr_src = src, rr_line = line, rr_col = 0, rr_name = name,
          rr_state = (if claimed \<noteq> None then Resolved else Pending), rr_dst = map_option ge_dst claimed\<rparr>]\<rparr>"

definition apply_one_resolution :: "live_store \<Rightarrow> string \<Rightarrow> string \<Rightarrow> live_resolution \<Rightarrow> live_pass \<Rightarrow> live_pass" where
  "apply_one_resolution db corpus file r p =
     (let src = enclosing_definition_at db corpus file (lr_line r);
          claimed = claim db (resolve_one db corpus file r);
          p1 = (case claimed of Some e \<Rightarrow> add_site e (lr_line r) None p | None \<Rightarrow> p);
          p2 = count_claim claimed p1
      in case src of Some s \<Rightarrow> record_state s (lr_line r) (lr_name r) claimed p2 | None \<Rightarrow> p2)"

definition apply_live_resolutions :: "live_store \<Rightarrow> string \<Rightarrow> string \<Rightarrow> live_resolution list \<Rightarrow> live_pass" where
  "apply_live_resolutions db corpus file resolutions = fold (apply_one_resolution db corpus file) resolutions empty_pass"

definition retain_current_targets :: "live_resolution list \<Rightarrow> live_target list \<Rightarrow> live_resolution list" where
  "retain_current_targets resolutions targets =
     (let asked = map (\<lambda>t. (lt_line t, lt_name t, lt_kind t)) targets
      in filter (\<lambda>r. (lr_line r, lr_name r, lr_kind r) \<in> set asked) resolutions)"

definition lexical_call :: "live_store \<Rightarrow> string set \<Rightarrow> unresolved_call \<Rightarrow> live_pass \<Rightarrow> live_pass" where
  "lexical_call db bound call p =
     (let claimed = claim db (lexical_one db bound call);
          p1 = (case claimed of Some e \<Rightarrow> add_site e (uc_line call) (uc_col call) p | None \<Rightarrow> p)
      in record_state (uc_src call) (uc_line call) (leaf_of (uc_callee call)) claimed (count_claim claimed p1))"

definition lexical_inheritance :: "live_store \<Rightarrow> string \<Rightarrow> string \<Rightarrow> string set \<Rightarrow> inheritance_ref \<Rightarrow> live_pass \<Rightarrow> live_pass" where
  "lexical_inheritance db corpus path bound r p =
     (let src = enclosing_definition_at db corpus path (ih_line r);
          claimed = claim db (case src of Some s \<Rightarrow> inheritance_edge db bound s (ih_base r) | None \<Rightarrow> None);
          p1 = count_claim claimed p
      in case src of Some s \<Rightarrow> record_state s (ih_line r) (ih_base r) claimed p1 | None \<Rightarrow> p1)"

definition resolve_unambiguous_lexical :: "live_store \<Rightarrow> string \<Rightarrow> string \<Rightarrow> unresolved_call list \<Rightarrow> inheritance_ref list
    \<Rightarrow> string set \<Rightarrow> live_pass" where
  "resolve_unambiguous_lexical db corpus path unresolved inheritance bound =
     fold (lexical_inheritance db corpus path bound) inheritance (fold (lexical_call db bound) unresolved empty_pass)"

subsection \<open>What an edit invalidates\<close>

datatype edit_kind = Edit_Body | Edit_Interface

definition classify_edit :: "nat \<Rightarrow> string set \<Rightarrow> edit_kind" where
  "classify_edit removed_count callers = (if 0 < removed_count \<or> callers \<noteq> {} then Edit_Interface else Edit_Body)"

definition MAX_CLOSURE_FILES :: nat where "MAX_CLOSURE_FILES = 64"

text \<open>The set of files is a list without repetition; the flag is the early return.\<close>

fun closure_edges :: "live_store \<Rightarrow> gedge list \<Rightarrow> string list \<Rightarrow> bool \<times> string list" where
  "closure_edges db [] files = (False, files)"
| "closure_edges db (e # es) files =
     (if MAX_CLOSURE_FILES \<le> length files then (True, files)
      else closure_edges db es
             (case lv_node db (ge_src e) of Some n \<Rightarrow> List.insert (row_path n) files | None \<Rightarrow> files))"

fun reverse_closure_loop :: "live_store \<Rightarrow> node_id list \<Rightarrow> string list \<Rightarrow> string list" where
  "reverse_closure_loop db [] files = files"
| "reverse_closure_loop db (i # ids) files =
     (case lv_edges_to db i of
        None \<Rightarrow> reverse_closure_loop db ids files
      | Some incoming \<Rightarrow>
          (case closure_edges db incoming files of
             (True, files') \<Rightarrow> files' | (False, files') \<Rightarrow> reverse_closure_loop db ids files'))"

definition reverse_closure :: "live_store \<Rightarrow> node_id list \<Rightarrow> string list" where
  "reverse_closure db changed = reverse_closure_loop db changed []"

subsection \<open>Columns\<close>

definition utf16_len :: "string \<Rightarrow> nat" where
  "utf16_len s = sum_list (map (\<lambda>c. if length c = 4 then 2 else 1) (chars s))"

fun floor_boundary :: "string \<Rightarrow> nat \<Rightarrow> nat" where
  "floor_boundary line 0 = 0"
| "floor_boundary line (Suc b) = (if is_char_boundary line (Suc b) then Suc b else floor_boundary line b)"

definition byte_to_utf16_col :: "string \<Rightarrow> nat \<Rightarrow> nat" where
  "byte_to_utf16_col line byte_col = utf16_len (take (floor_boundary line (min byte_col (length line))) line)"

definition is_word_byte :: "char \<Rightarrow> bool" where
  "is_word_byte b \<longleftrightarrow> is_ascii_alnum b \<or> b = CHR ''_''"

function word_col_loop :: "string \<Rightarrow> string \<Rightarrow> nat \<Rightarrow> nat option" where
  "word_col_loop line name i =
     (if length line < i + length name then None
      else if take (length name) (drop i line) = name \<and> is_char_boundary line i
              \<and> (i = 0 \<or> \<not> is_word_byte (line ! (i - 1)))
              \<and> (length line \<le> i + length name \<or> \<not> is_word_byte (line ! (i + length name)))
      then Some (utf16_len (take i line) mod 2 ^ 32)
      else word_col_loop line name (i + 1))"
  by pat_completeness auto
termination
  by (relation "measure (\<lambda>(line, name, i). Suc (length line) - i)") auto

declare word_col_loop.simps [simp del]

definition word_boundary_col_utf16 :: "string \<Rightarrow> string \<Rightarrow> nat option" where
  "word_boundary_col_utf16 line name = (if name = [] then None else word_col_loop line name 0)"

text \<open>\<open>lines.get(n - 1)\<close>; the line 0 wraps round in a release build and is no line.\<close>

definition get_line :: "string list \<Rightarrow> nat \<Rightarrow> string option" where
  "get_line ls n = (if n = 0 then None else if n \<le> length ls then Some (ls ! (n - 1)) else None)"

definition fill_target_column :: "string list \<Rightarrow> live_target \<Rightarrow> live_target" where
  "fill_target_column ls t =
     (if lt_col t \<noteq> None \<or> lt_line t = 0 then t
      else case get_line ls (lt_line t) of
             None \<Rightarrow> t
           | Some line \<Rightarrow> t\<lparr>lt_col := word_boundary_col_utf16 line (hd (split_on (\<lambda>c. c = CHR '':'') (lt_name t)))\<rparr>)"

definition fill_target_columns :: "string list \<Rightarrow> live_target list \<Rightarrow> live_target list" where
  "fill_target_columns ls targets = map (fill_target_column ls) targets"

subsection \<open>Targets for the editor\<close>

definition target_key :: "live_target \<Rightarrow> nat \<times> nat option \<times> string \<times> string" where
  "target_key t = (lt_line t, lt_col t, lt_name t, lt_kind t)"

definition drop_same_position_collisions :: "live_target list \<Rightarrow> live_target list" where
  "drop_same_position_collisions targets =
     filter (\<lambda>t. length (filter (\<lambda>u. target_key u = target_key t) targets) = 1) targets"

definition has_several_definitions :: "live_store \<Rightarrow> string set \<Rightarrow> unresolved_call \<Rightarrow> bool" where
  "has_several_definitions db bound call \<longleftrightarrow>
     (if leaf_of (uc_callee call) \<in> bound then False
      else case lv_node db (uc_src call) of
             None \<Rightarrow> False
           | Some src \<Rightarrow>
               list_ex (\<lambda>sig. case lv_exact db sig of
                   None \<Rightarrow> False
                 | Some found \<Rightarrow> 2 \<le> length (filter (\<lambda>n. row_language n = row_language src)
                     (filter (\<lambda>n. gn_kind n \<in> set (target_kinds (lexical_edge_kind call))) found)))
                 (candidate_signatures call))"

definition call_target :: "live_store \<Rightarrow> string list \<Rightarrow> string set \<Rightarrow> unresolved_call \<Rightarrow> live_target option" where
  "call_target db ls bound call =
     (if lexical_one db bound call \<noteq> None then None
      else if \<not> (uc_method call \<or> starts_with (uc_callee call) ''field:'' \<or> has_several_definitions db bound call) then None
      else if uc_line call = 0 then None
      else Some \<lparr>lt_line = uc_line call,
                 lt_col = Option.bind (uc_col call) (\<lambda>bc. map_option (\<lambda>line. byte_to_utf16_col line bc) (get_line ls (uc_line call))),
                 lt_name = leaf_of (uc_callee call), lt_kind = edge_kind_as_str (lexical_edge_kind call),
                 lt_provider = ''definition''\<rparr>)"

definition targets_needing_editor :: "live_store \<Rightarrow> string list \<Rightarrow> unresolved_call list \<Rightarrow> string set \<Rightarrow> live_target list" where
  "targets_needing_editor db ls unresolved bound =
     drop_same_position_collisions (List.map_filter (call_target db ls bound) unresolved)"

definition inheritance_target :: "live_store \<Rightarrow> string \<Rightarrow> string \<Rightarrow> string set \<Rightarrow> inheritance_ref \<Rightarrow> live_target option" where
  "inheritance_target db corpus path bound r =
     (case enclosing_definition_at db corpus path (ih_line r) of
        None \<Rightarrow> None
      | Some src \<Rightarrow>
          if inheritance_edge db bound src (ih_base r) \<noteq> None then None
          else Some \<lparr>lt_line = ih_line r, lt_col = None, lt_name = ih_base r,
                     lt_kind = edge_kind_as_str IsImplementation, lt_provider = ''definition''\<rparr>)"

definition inheritance_targets_needing_editor :: "live_store \<Rightarrow> string \<Rightarrow> string \<Rightarrow> inheritance_ref list \<Rightarrow> string set
    \<Rightarrow> live_target list" where
  "inheritance_targets_needing_editor db corpus path inheritance bound =
     drop_same_position_collisions (List.map_filter (inheritance_target db corpus path bound) inheritance)"

text \<open>The references of a language without an extractor: calls, fields and clauses as pairs of line and name.\<close>

definition generic_target :: "edge_kind \<Rightarrow> nat \<times> string \<Rightarrow> live_target option" where
  "generic_target kind = (\<lambda>(line, name).
     if line = 0 then None
     else Some \<lparr>lt_line = line, lt_col = None, lt_name = name, lt_kind = edge_kind_as_str kind, lt_provider = ''definition''\<rparr>)"

definition generic_targets_needing_editor :: "(nat \<times> string) list \<Rightarrow> (nat \<times> string) list \<Rightarrow> (nat \<times> string) list
    \<Rightarrow> live_target list" where
  "generic_targets_needing_editor calls accesses clauses =
     drop_same_position_collisions
       (List.map_filter (generic_target RefCall) calls @ List.map_filter (generic_target RefField) accesses
        @ List.map_filter (generic_target IsImplementation) clauses)"

definition owned_by_native :: "live_target list \<Rightarrow> changed_occurrence \<Rightarrow> nat option \<Rightarrow> bool" where
  "owned_by_native native occ col \<longleftrightarrow>
     (let same = filter (\<lambda>t. lt_line t = co_line occ \<and> lt_name t = co_name occ \<and> lt_kind t = co_kind occ) native
      in case col of
           Some c \<Rightarrow> list_ex (\<lambda>t. lt_col t = None) same \<or> list_ex (\<lambda>t. lt_col t = Some c) same
         | None \<Rightarrow> same \<noteq> [])"

definition occurrence_target :: "(node_id \<Rightarrow> (nat \<times> nat option) option) \<Rightarrow> string list \<Rightarrow> live_target list
    \<Rightarrow> changed_occurrence \<Rightarrow> live_target option" where
  "occurrence_target spans ls native occ =
     (case spans (co_src occ) of
        None \<Rightarrow> None
      | Some (start, end_line) \<Rightarrow>
          if co_line occ < start \<or> (case end_line of Some e \<Rightarrow> e < co_line occ | None \<Rightarrow> False) then None
          else (let col = Option.bind (co_col occ)
                      (\<lambda>bc. map_option (\<lambda>line. byte_to_utf16_col line bc) (get_line ls (co_line occ)))
                in if owned_by_native native occ col then None
                   else Some \<lparr>lt_line = co_line occ, lt_col = col, lt_name = co_name occ, lt_kind = co_kind occ,
                              lt_provider = ''definition''\<rparr>))"

definition merge_changed_occurrence_targets :: "live_store \<Rightarrow> string list \<Rightarrow> live_target list \<Rightarrow> changed_occurrence list
    \<Rightarrow> live_target list" where
  "merge_changed_occurrence_targets db ls native stashed =
     (if stashed = [] then native
      else (let spans = lv_spans db (remdups_adj (sort_key unat (map co_src stashed)))
            in drop_same_position_collisions (List.map_filter (occurrence_target spans ls native) stashed) @ native))"

subsection \<open>Soundness of the lanes\<close>

text \<open>The definitions a live edge of a kind may point at, and what makes one of them the only one.\<close>

definition eligible :: "edge_kind \<Rightarrow> string option \<Rightarrow> core_node \<Rightarrow> bool" where
  "eligible kind language n \<longleftrightarrow> gn_kind n \<in> set (target_kinds kind) \<and> language_admits language n"

lemma target_kinds_definitions: "gn_kind n \<in> set (target_kinds kind) \<Longrightarrow> gn_kind n \<notin> {''file'', ''import''}"
  by (auto simp: target_kinds_def ENCLOSING_DEFINITION_KINDS_def split: edge_kind.splits)

lemma kinds_nonempty: "target_kinds IsImplementation \<noteq> []" "k \<in> {RefCall, RefField, IsImplementation} \<Longrightarrow> target_kinds k \<noteq> []"
  by (auto simp: target_kinds_def ENCLOSING_DEFINITION_KINDS_def)

lemma edge_if_sound_Some:
  "edge_if_sound db src dst k = Some e \<longleftrightarrow> src \<noteq> dst \<and> e = \<lparr>ge_src = src, ge_dst = dst, ge_kind = k\<rparr> \<and>
     (\<exists>a b. lv_node db src = Some a \<and> lv_node db dst = Some b \<and> row_corpus a = row_corpus b)"
  by (auto simp: edge_if_sound_def split: option.splits if_splits)

lemma live_edge_kind_Some: "live_edge_kind s = Some k \<Longrightarrow> k \<in> {RefCall, RefField, IsImplementation}"
  by (auto simp: live_edge_kind_def split: option.splits if_splits)

lemma edge_kind_str: "edge_kind_from_str (edge_kind_as_str k) = Some k"
  by (cases k) (simp_all add: edge_kind_from_str_def)

lemma edge_kind_from: "edge_kind_from_str s = Some k \<Longrightarrow> s = edge_kind_as_str k"
  by (auto simp: edge_kind_from_str_def split: if_splits)

context live_reads
begin

lemma unique_definition_sound:
  assumes "unique_definition db sig kind language = Some n"
  shows "n \<in> set rows \<and> {m \<in> set rows. node_signature m = sig \<and> eligible kind language m} = {n}"
proof -
  from assms obtain ns where ns: "lv_exact db sig = Some ns" "\<not> truncated ns"
    "filter (language_admits language) (filter (\<lambda>n. gn_kind n \<in> set (target_kinds kind)) ns) = [n]"
    by (auto simp: unique_definition_def split: option.splits if_splits list.splits)
  have some: "{m \<in> set ns. eligible kind language m} = {n}"
    using arg_cong[OF ns(3), of set] by (auto simp: eligible_def)
  have "{m \<in> set rows. node_signature m = sig \<and> eligible kind language m} = {m \<in> set ns. eligible kind language m}"
    using exact_rows[OF ns(1)] exact_complete[OF ns(1)] ns(2) target_kinds_definitions
    by (auto simp: truncated_def eligible_def)
  with some show ?thesis by auto
qed

lemma lexical_one_sound:
  assumes "lexical_one db bound call = Some e"
  shows "\<exists>src dst sig. src \<in> set rows \<and> dst \<in> set rows \<and> gn_id src = uc_src call \<and>
    e = \<lparr>ge_src = gn_id src, ge_dst = gn_id dst, ge_kind = lexical_edge_kind call\<rparr> \<and> gn_id src \<noteq> gn_id dst \<and>
    row_corpus src = row_corpus dst \<and> sig \<in> set (candidate_signatures call) \<and>
    {m \<in> set rows. node_signature m = sig \<and> eligible (lexical_edge_kind call) (src_language src) m} = {dst} \<and>
    (if bare_identifier call then leaf_of (uc_callee call) \<notin> bound \<and> hint_crate_reaches (uc_hint call) dst else True)"
proof -
  from assms obtain src dst where
    s: "lv_node db (uc_src call) = Some src"
      "find_map (\<lambda>sig. unique_definition db sig (lexical_edge_kind call) (src_language src)) (candidate_signatures call) = Some dst"
      "edge_if_sound db (uc_src call) (gn_id dst) (lexical_edge_kind call) = Some e"
    and gates: "bare_identifier call \<Longrightarrow> leaf_of (uc_callee call) \<notin> bound \<and> hint_crate_reaches (uc_hint call) dst"
    by (auto simp: lexical_one_def split: option.splits if_splits)
  from find_map_Some[OF s(2)] obtain sig where
    sig: "sig \<in> set (candidate_signatures call)" "unique_definition db sig (lexical_edge_kind call) (src_language src) = Some dst"
    by blast
  note u = unique_definition_sound[OF sig(2)]
  from s(3) obtain b where b: "lv_node db (gn_id dst) = Some b" "row_corpus src = row_corpus b" "uc_src call \<noteq> gn_id dst"
    "e = \<lparr>ge_src = uc_src call, ge_dst = gn_id dst, ge_kind = lexical_edge_kind call\<rparr>"
    using s(1) by (auto simp: edge_if_sound_Some)
  have "b = dst" using node_row[OF b(1)] u row_unique by blast
  with b u sig s(1) gates node_row[OF s(1)] show ?thesis by (intro exI[of _ src] exI[of _ dst] exI[of _ sig]) auto
qed

lemma resolve_one_sound:
  assumes "resolve_one db corpus file r = Some e"
  shows "\<exists>src dst. src \<in> set rows \<and> dst \<in> set rows \<and> gn_id src \<noteq> gn_id dst \<and>
    e = \<lparr>ge_src = gn_id src, ge_dst = gn_id dst, ge_kind = ge_kind e\<rparr> \<and>
    lr_kind r = edge_kind_as_str (ge_kind e) \<and> ge_kind e \<in> {RefCall, RefField, IsImplementation} \<and>
    in_file corpus file src \<and> (gn_kind src = ''file'' \<or> spans_line (lr_line r) src) \<and>
    in_file corpus (lr_target_path r) dst \<and> gn_kind dst \<in> set (target_kinds (ge_kind e)) \<and>
    (spans_line (lr_target_line r) dst \<or> starts_below (lr_target_line r) dst) \<and> signature_names (node_signature dst) (lr_name r)"
proof -
  from assms obtain k i j where
    k: "live_edge_kind (lr_kind r) = Some k"
    and i: "or_else (enclosing_definition_at db corpus file (lr_line r)) (lv_file db corpus file) = Some i"
    and j: "or_else (lv_enclosing db corpus (lr_target_path r) (lr_target_line r) (target_kinds k))
        (lv_below db corpus (lr_target_path r) (lr_target_line r) (target_kinds k)) = Some j"
    and n: "names_match db j (lr_name r)" and e: "edge_if_sound db i j k = Some e"
    by (auto simp: resolve_one_def split: option.splits if_splits)
  from i consider "enclosing_definition_at db corpus file (lr_line r) = Some i" | "lv_file db corpus file = Some i"
    by (auto simp: or_else_def split: option.splits)
  then obtain src where src: "src \<in> set rows" "gn_id src = i" "in_file corpus file src" "gn_kind src = ''file'' \<or> spans_line (lr_line r) src"
    by cases (use enclosing_row file_row in \<open>fastforce simp: enclosing_definition_at_def\<close>)+
  from j consider "lv_enclosing db corpus (lr_target_path r) (lr_target_line r) (target_kinds k) = Some j"
    | "lv_below db corpus (lr_target_path r) (lr_target_line r) (target_kinds k) = Some j"
    by (auto simp: or_else_def split: option.splits)
  then obtain dst where dst: "dst \<in> set rows" "gn_id dst = j" "in_file corpus (lr_target_path r) dst"
      "gn_kind dst \<in> set (target_kinds k)" "spans_line (lr_target_line r) dst \<or> starts_below (lr_target_line r) dst"
    by cases (use enclosing_row below_row in fastforce)+
  from n obtain b where b: "lv_node db j = Some b" "signature_names (node_signature b) (lr_name r)"
    by (auto simp: names_match_def split: option.splits)
  have "b = dst" using node_row[OF b(1)] dst row_unique by blast
  moreover have "lr_kind r = edge_kind_as_str k"
    using k by (auto simp: live_edge_kind_def dest: edge_kind_from split: option.splits if_splits)
  ultimately show ?thesis
    using src dst b e live_edge_kind_Some[OF k] by (intro exI[of _ src] exI[of _ dst]) (auto simp: edge_if_sound_Some)
qed

end

lemma base_rows_spec:
  "base_rows language ns found = Some f \<Longrightarrow>
     (\<forall>m\<in>set ns. eligible IsImplementation language m \<longrightarrow> f = Some (gn_id m)) \<and> (found = None \<or> f = found) \<and>
     (f = found \<or> (\<exists>m\<in>set ns. eligible IsImplementation language m \<and> f = Some (gn_id m)))"
proof (induction ns arbitrary: found)
  case (Cons n ns)
  show ?case
  proof (cases "eligible IsImplementation language n")
    case False
    then have "base_rows language ns found = Some f" using Cons.prems by (simp add: eligible_def split: if_splits)
    from Cons.IH[OF this] False show ?thesis by auto
  next
    case True
    then have f: "base_rows language ns (Some (gn_id n)) = Some f" "found = None \<or> found = Some (gn_id n)"
      using Cons.prems by (auto simp: eligible_def split: option.splits if_splits)
    from Cons.IH[OF f(1)] f(2) True show ?thesis by auto
  qed
qed simp

lemma base_kinds_spec:
  "base_kinds db language base ks found = Some f \<Longrightarrow>
     (\<forall>k\<in>set ks. \<forall>ns. lv_exact db (k @ '':'' @ base) = Some ns \<longrightarrow>
        \<not> truncated ns \<and> (\<forall>m\<in>set ns. eligible IsImplementation language m \<longrightarrow> f = Some (gn_id m))) \<and>
     (found = None \<or> f = found) \<and>
     (f = found \<or> (\<exists>k\<in>set ks. \<exists>ns. lv_exact db (k @ '':'' @ base) = Some ns \<and>
        (\<exists>m\<in>set ns. eligible IsImplementation language m \<and> f = Some (gn_id m))))"
proof (induction ks arbitrary: found)
  case (Cons k ks)
  show ?case
  proof (cases "lv_exact db (k @ '':'' @ base)")
    case None
    with Cons.prems have "base_kinds db language base ks found = Some f" by simp
    from Cons.IH[OF this] None show ?thesis by auto
  next
    case (Some ns)
    then obtain g where g: "\<not> truncated ns" "base_rows language ns found = Some g" "base_kinds db language base ks g = Some f"
      using Cons.prems by (auto split: if_splits option.splits)
    note rows = base_rows_spec[OF g(2)] and kinds = Cons.IH[OF g(3)]
    have "f = Some (gn_id m)" if "m \<in> set ns" "eligible IsImplementation language m" for m
      using rows kinds that by auto
    moreover have f: "f = found \<or> (\<exists>m\<in>set ns. eligible IsImplementation language m \<and> f = Some (gn_id m)) \<or>
        (\<exists>k\<in>set ks. \<exists>ns. lv_exact db (k @ '':'' @ base) = Some ns \<and>
           (\<exists>m\<in>set ns. eligible IsImplementation language m \<and> f = Some (gn_id m)))"
    proof -
      consider "f = g" | "\<exists>k\<in>set ks. \<exists>ns. lv_exact db (k @ '':'' @ base) = Some ns \<and>
           (\<exists>m\<in>set ns. eligible IsImplementation language m \<and> f = Some (gn_id m))" using kinds by blast
      then show ?thesis using rows by cases blast+
    qed
    moreover have "found = None \<or> f = found" using rows kinds by auto
    moreover have "\<forall>k\<in>set ks. \<forall>ns. lv_exact db (k @ '':'' @ base) = Some ns \<longrightarrow>
        \<not> truncated ns \<and> (\<forall>m\<in>set ns. eligible IsImplementation language m \<longrightarrow> f = Some (gn_id m))" using kinds by blast
    ultimately show ?thesis using g(1) Some by (auto simp del: not_None_eq)
  qed
qed simp

context live_reads
begin

text \<open>Where no lookup fails, the base of an inheritance edge is the only definition of its name.\<close>

lemma unique_base_sound:
  assumes "unique_base_definition db base language = Some i"
    "\<forall>k\<in>set (target_kinds IsImplementation). lv_exact db (k @ '':'' @ base) \<noteq> None"
  shows "\<exists>n\<in>set rows. gn_id n = i \<and>
    {m \<in> set rows. eligible IsImplementation language m \<and>
       (\<exists>k\<in>set (target_kinds IsImplementation). node_signature m = k @ '':'' @ base)} = {n}"
proof -
  let ?ks = "target_kinds IsImplementation"
  from assms(1) have b: "base_kinds db language base ?ks None = Some (Some i)"
    by (auto simp: unique_base_definition_def split: option.splits)
  note spec = base_kinds_spec[OF b]
  from spec obtain k ns n where n: "k \<in> set ?ks" "lv_exact db (k @ '':'' @ base) = Some ns" "n \<in> set ns"
      "eligible IsImplementation language n" "gn_id n = i" by auto
  have "m = n" if m: "m \<in> set rows" "eligible IsImplementation language m" "k' \<in> set ?ks" "node_signature m = k' @ '':'' @ base" for m k'
  proof -
    obtain ms where ms: "lv_exact db (k' @ '':'' @ base) = Some ms" using assms(2) m(3) by blast
    have "\<not> truncated ms" using spec m(3) ms by blast
    then have "m \<in> set ms"
      using exact_complete[OF ms _ m(1,4)] m(2) target_kinds_definitions by (auto simp: truncated_def eligible_def)
    then have "gn_id m = i" using spec m(2,3) ms by auto
    with n exact_rows[OF n(2,3)] m(1) row_unique show ?thesis by blast
  qed
  with n exact_rows[OF n(2,3)] show ?thesis by (intro bexI[of _ n]) auto
qed

end

subsection \<open>Accounting\<close>

lemma claim_Some: "claim db x = Some e \<longleftrightarrow> x = Some e \<and> lv_put db e"
  by (auto simp: claim_def split: option.splits)

definition resolved_states :: "live_pass \<Rightarrow> (node_id \<times> node_id) list" where
  "resolved_states p = map (\<lambda>s. (rr_src s, the (rr_dst s))) (filter (\<lambda>s. rr_state s = Resolved) (lp_states p))"

lemma add_site_frame [simp]:
  "lp_emitted (add_site e l c p) = lp_emitted p" "lp_pending (add_site e l c p) = lp_pending p"
  "lp_edges (add_site e l c p) = lp_edges p" "lp_states (add_site e l c p) = lp_states p"
  by (cases "ge_kind e"; simp add: add_site_def)+

lemma sites_opt_frame [simp]:
  "lp_emitted (case c of Some e \<Rightarrow> add_site e l k p | None \<Rightarrow> p) = lp_emitted p"
  "lp_pending (case c of Some e \<Rightarrow> add_site e l k p | None \<Rightarrow> p) = lp_pending p"
  "lp_edges (case c of Some e \<Rightarrow> add_site e l k p | None \<Rightarrow> p) = lp_edges p"
  "lp_states (case c of Some e \<Rightarrow> add_site e l k p | None \<Rightarrow> p) = lp_states p"
  by (cases c; simp)+

lemma edge_source: "lexical_one db bound call = Some e \<Longrightarrow> ge_src e = uc_src call"
  "inheritance_edge db bound src base = Some e \<Longrightarrow> ge_src e = src"
  by (auto simp: lexical_one_def inheritance_edge_def edge_if_sound_Some split: option.splits if_splits)

text \<open>The claims of a pass: an edge that is written is counted, and recorded as resolved, once.\<close>

definition pass_ok :: "nat \<Rightarrow> live_pass \<Rightarrow> bool" where
  "pass_ok n p \<longleftrightarrow> lp_emitted p + lp_pending p = n \<and> length (lp_edges p) = lp_emitted p \<and>
     resolved_states p = map (\<lambda>e. (ge_src e, ge_dst e)) (lp_edges p)"

lemma record_claim_ok:
  assumes "pass_ok n p" "lp_emitted q = lp_emitted p" "lp_pending q = lp_pending p" "lp_edges q = lp_edges p"
    "lp_states q = lp_states p" "\<And>e. claimed = Some e \<Longrightarrow> ge_src e = s"
  shows "pass_ok (n + 1) (record_state s line name claimed (count_claim claimed q))"
  using assms by (cases claimed) (auto simp: pass_ok_def count_claim_def record_state_def resolved_states_def)

lemma lexical_call_ok: "pass_ok n p \<Longrightarrow> pass_ok (n + 1) (lexical_call db bound call p)"
  unfolding lexical_call_def Let_def by (rule record_claim_ok) (auto simp: claim_Some dest: edge_source)

lemma lexical_inheritance_ok: "pass_ok n p \<Longrightarrow> pass_ok (n + 1) (lexical_inheritance db corpus path bound r p)"
proof (cases "enclosing_definition_at db corpus path (ih_line r)")
  case None
  assume "pass_ok n p"
  with None show ?thesis
    by (simp add: lexical_inheritance_def claim_def pass_ok_def count_claim_def resolved_states_def)
next
  case (Some s)
  assume p: "pass_ok n p"
  show ?thesis unfolding lexical_inheritance_def Some Let_def option.case
    by (rule record_claim_ok[OF p]) (auto simp: claim_Some dest: edge_source)
qed

lemma lexical_pass_ok:
  "pass_ok (length unresolved + length inheritance)
     (resolve_unambiguous_lexical db corpus path unresolved inheritance bound)"
proof -
  have calls: "pass_ok (n + length cs) (fold (lexical_call db bound) cs p)" if "pass_ok n p" for n cs p
    using that
  proof (induction cs arbitrary: n p)
    case (Cons c cs)
    from Cons.IH[OF lexical_call_ok[OF Cons.prems]] show ?case by simp
  qed simp
  have refs: "pass_ok (n + length rs) (fold (lexical_inheritance db corpus path bound) rs p)" if "pass_ok n p" for n rs p
    using that
  proof (induction rs arbitrary: n p)
    case (Cons r rs)
    from Cons.IH[OF lexical_inheritance_ok[OF Cons.prems]] show ?case by simp
  qed simp
  have "pass_ok 0 empty_pass" by (simp add: pass_ok_def empty_pass_def resolved_states_def)
  from refs[OF calls[OF this]] show ?thesis by (simp add: resolve_unambiguous_lexical_def)
qed

lemma recorded_edges:
  "lp_edges (record_state s l nm claimed (count_claim claimed p)) = lp_edges p @ (case claimed of Some e \<Rightarrow> [e] | None \<Rightarrow> [])"
  "lp_edges (count_claim claimed p) = lp_edges p @ (case claimed of Some e \<Rightarrow> [e] | None \<Rightarrow> [])"
  by (cases claimed; simp add: record_state_def count_claim_def)+

lemma fold_edges:
  assumes "\<And>x p. x \<in> set xs \<Longrightarrow> e \<in> set (lp_edges (f x p)) \<Longrightarrow> e \<in> set (lp_edges p) \<or> P x"
  shows "e \<in> set (lp_edges (fold f xs p)) \<Longrightarrow> e \<in> set (lp_edges p) \<or> (\<exists>x\<in>set xs. P x)"
  using assms
proof (induction xs arbitrary: p)
  case (Cons x xs)
  from Cons.IH[of "f x p"] Cons.prems(1) Cons.prems(2) have "e \<in> set (lp_edges (f x p)) \<or> (\<exists>y\<in>set xs. P y)" by simp
  with Cons.prems(2)[of x p] show ?case by auto
qed simp

lemma lexical_call_edges:
  "e \<in> set (lp_edges (lexical_call db bound c p)) \<Longrightarrow> e \<in> set (lp_edges p) \<or> lexical_one db bound c = Some e"
  unfolding lexical_call_def Let_def recorded_edges sites_opt_frame
  by (cases "claim db (lexical_one db bound c)") (auto dest: iffD1[OF claim_Some])

lemma lexical_inheritance_edges:
  "e \<in> set (lp_edges (lexical_inheritance db corpus path bound r p)) \<Longrightarrow>
     e \<in> set (lp_edges p) \<or> (\<exists>s. inheritance_edge db bound s (ih_base r) = Some e)"
  by (cases "enclosing_definition_at db corpus path (ih_line r)")
    (auto simp: lexical_inheritance_def Let_def recorded_edges claim_def split: option.splits if_splits)

lemma lexical_pass_edges:
  assumes "e \<in> set (lp_edges (resolve_unambiguous_lexical db corpus path unresolved inheritance bound))"
  shows "(\<exists>call\<in>set unresolved. lexical_one db bound call = Some e) \<or>
     (\<exists>r\<in>set inheritance. \<exists>s. inheritance_edge db bound s (ih_base r) = Some e)"
proof -
  let ?p = "fold (lexical_call db bound) unresolved empty_pass"
  from assms have "e \<in> set (lp_edges ?p) \<or> (\<exists>r\<in>set inheritance. \<exists>s. inheritance_edge db bound s (ih_base r) = Some e)"
    unfolding resolve_unambiguous_lexical_def
    by (rule fold_edges[rotated]) (rule lexical_inheritance_edges)
  moreover have "e \<in> set (lp_edges ?p) \<Longrightarrow> e \<in> set (lp_edges empty_pass) \<or> (\<exists>call\<in>set unresolved. lexical_one db bound call = Some e)"
    by (rule fold_edges[rotated], assumption) (rule lexical_call_edges)
  ultimately show ?thesis by (auto simp: empty_pass_def)
qed

text \<open>The editor lane: the same accounting, and its edges are those of the resolutions.\<close>

lemma apply_one_edges:
  "e \<in> set (lp_edges (apply_one_resolution db corpus file r p)) \<Longrightarrow> e \<in> set (lp_edges p) \<or> resolve_one db corpus file r = Some e"
  by (cases "claim db (resolve_one db corpus file r)"; cases "enclosing_definition_at db corpus file (lr_line r)")
    (auto simp: apply_one_resolution_def Let_def recorded_edges dest: iffD1[OF claim_Some])

lemma editor_pass_edges:
  assumes "e \<in> set (lp_edges (apply_live_resolutions db corpus file resolutions))"
  shows "\<exists>r\<in>set resolutions. resolve_one db corpus file r = Some e"
proof -
  have "e \<in> set (lp_edges empty_pass) \<or> (\<exists>r\<in>set resolutions. resolve_one db corpus file r = Some e)"
    using assms unfolding apply_live_resolutions_def by (rule fold_edges[rotated]) (rule apply_one_edges)
  then show ?thesis by (simp add: empty_pass_def)
qed

definition editor_ok :: "nat \<Rightarrow> live_pass \<Rightarrow> bool" where
  "editor_ok n p \<longleftrightarrow> lp_emitted p + lp_pending p = n \<and> length (lp_edges p) = lp_emitted p \<and> length (lp_states p) \<le> n"

lemma apply_one_ok: "editor_ok n p \<Longrightarrow> editor_ok (n + 1) (apply_one_resolution db corpus file r p)"
  by (cases "claim db (resolve_one db corpus file r)"; cases "enclosing_definition_at db corpus file (lr_line r)")
    (auto simp: apply_one_resolution_def Let_def editor_ok_def count_claim_def record_state_def)

lemma editor_pass_ok: "editor_ok (length resolutions) (apply_live_resolutions db corpus file resolutions)"
proof -
  have "editor_ok (n + length rs) (fold (apply_one_resolution db corpus file) rs p)" if "editor_ok n p" for n rs p
    using that
  proof (induction rs arbitrary: n p)
    case (Cons r rs)
    from Cons.IH[OF apply_one_ok[OF Cons.prems]] show ?case by simp
  qed simp
  from this[of 0 empty_pass] show ?thesis by (simp add: apply_live_resolutions_def editor_ok_def empty_pass_def)
qed

subsection \<open>The closure of an edit\<close>

definition edge_sources :: "live_store \<Rightarrow> gedge list \<Rightarrow> string set" where
  "edge_sources db es = {path. \<exists>e\<in>set es. \<exists>n. lv_node db (ge_src e) = Some n \<and> row_path n = path}"

lemma edge_sources_simps [simp]:
  "edge_sources db [] = {}"
  "edge_sources db (e # es) = (case lv_node db (ge_src e) of Some n \<Rightarrow> {row_path n} | None \<Rightarrow> {}) \<union> edge_sources db es"
  by (auto simp: edge_sources_def split: option.splits)

definition closure_sources :: "live_store \<Rightarrow> node_id list \<Rightarrow> string set" where
  "closure_sources db ids =
     (\<Union>i\<in>set ids. case lv_edges_to db i of Some es \<Rightarrow> edge_sources db es | None \<Rightarrow> {})"

lemma closure_sources_simps [simp]:
  "closure_sources db [] = {}"
  "closure_sources db (i # ids) =
     (case lv_edges_to db i of Some es \<Rightarrow> edge_sources db es | None \<Rightarrow> {}) \<union> closure_sources db ids"
  by (simp_all add: closure_sources_def)

lemma closure_edges_spec:
  assumes "distinct files" "length files \<le> MAX_CLOSURE_FILES" "closure_edges db es files = (stop, files')"
  shows "distinct files' \<and> length files' \<le> MAX_CLOSURE_FILES \<and> set files \<subseteq> set files' \<and>
    set files' \<subseteq> set files \<union> edge_sources db es \<and>
    (if stop then length files' = MAX_CLOSURE_FILES
     else edge_sources db es \<subseteq> set files')"
  using assms
proof (induction es arbitrary: files)
  case (Cons e es)
  show ?case
  proof (cases "MAX_CLOSURE_FILES \<le> length files")
    case True
    with Cons.prems show ?thesis by auto
  next
    case False
    let ?f = "case lv_node db (ge_src e) of Some n \<Rightarrow> List.insert (row_path n) files | None \<Rightarrow> files"
    have f: "distinct ?f" "length ?f \<le> MAX_CLOSURE_FILES"
      using Cons.prems False by (auto simp: List.insert_def split: option.splits)
    have "closure_edges db es ?f = (stop, files')" using Cons.prems(3) False by simp
    from Cons.IH[OF f this] show ?thesis by (cases "lv_node db (ge_src e)"; cases stop) auto
  qed
qed auto

lemma closure_loop_spec:
  assumes "distinct files" "length files \<le> MAX_CLOSURE_FILES"
  shows "distinct (reverse_closure_loop db ids files) \<and> length (reverse_closure_loop db ids files) \<le> MAX_CLOSURE_FILES \<and>
    set files \<subseteq> set (reverse_closure_loop db ids files) \<and>
    set (reverse_closure_loop db ids files) \<subseteq> set files \<union> closure_sources db ids \<and>
    (length (reverse_closure_loop db ids files) = MAX_CLOSURE_FILES \<or>
       closure_sources db ids \<subseteq> set (reverse_closure_loop db ids files))"
  using assms
proof (induction ids arbitrary: files)
  case (Cons i ids)
  show ?case
  proof (cases "lv_edges_to db i")
    case None
    with Cons.IH[OF Cons.prems] show ?thesis by simp
  next
    case (Some es)
    obtain stop files' where c: "closure_edges db es files = (stop, files')" by force
    note spec = closure_edges_spec[OF Cons.prems c]
    show ?thesis
    proof (cases stop)
      case True
      then have "reverse_closure_loop db (i # ids) files = files'" using Some c by simp
      with spec True show ?thesis unfolding closure_sources_simps Some option.case by auto
    next
      case False
      then have eq: "reverse_closure_loop db (i # ids) files = reverse_closure_loop db ids files'" using Some c by simp
      from spec False Cons.IH[of files'] show ?thesis unfolding eq closure_sources_simps Some option.case by auto
    qed
  qed
qed simp

subsection \<open>Editor targets\<close>

lemma length_filter_one: "length (filter P xs) = 1 \<Longrightarrow> \<exists>x. filter P xs = [x]"
  by (cases "filter P xs") auto

lemma unique_keys_distinct:
  "distinct (map f (filter (\<lambda>t. length (filter (\<lambda>u. f u = f t) xs) = 1) xs))"
proof -
  have "distinct (map f (filter Q ys))" if "\<And>t. t \<in> set ys \<Longrightarrow> Q t \<Longrightarrow> length (filter (\<lambda>u. f u = f t) ys) = 1" for Q ys
    using that
  proof (induction ys)
    case (Cons y ys)
    have step: "length (filter (\<lambda>u. f u = f t) ys) = 1" if "t \<in> set ys" "Q t" for t
    proof -
      have "filter (\<lambda>u. f u = f t) ys \<noteq> []" using that(1) by (auto simp: filter_empty_conv)
      with Cons.prems[of t] that show ?thesis by (auto split: if_splits)
    qed
    have "f y \<notin> f ` set (filter Q ys)" if "Q y"
    proof
      assume "f y \<in> f ` set (filter Q ys)"
      then obtain t where "t \<in> set ys" "f t = f y" by auto
      then have "filter (\<lambda>u. f u = f y) ys \<noteq> []" by (auto simp: filter_empty_conv)
      with Cons.prems[of y] that show False by auto
    qed
    with Cons.IH[OF step] show ?case by simp
  qed simp
  from this[of xs "\<lambda>t. length (filter (\<lambda>u. f u = f t) xs) = 1"] show ?thesis by simp
qed

lemma collisions_dropped: "distinct (map target_key (drop_same_position_collisions targets))"
  unfolding drop_same_position_collisions_def by (rule unique_keys_distinct)

lemma word_col_loop_spec:
  "word_col_loop line name i = Some c \<Longrightarrow> \<exists>j\<ge>i. c = utf16_len (take j line) mod 2 ^ 32 \<and>
     take (length name) (drop j line) = name \<and> is_char_boundary line j \<and>
     (j = 0 \<or> \<not> is_word_byte (line ! (j - 1))) \<and> (length line \<le> j + length name \<or> \<not> is_word_byte (line ! (j + length name)))"
proof (induction line name i rule: word_col_loop.induct)
  case (1 line name i)
  let ?hit = "take (length name) (drop i line) = name \<and> is_char_boundary line i
              \<and> (i = 0 \<or> \<not> is_word_byte (line ! (i - 1)))
              \<and> (length line \<le> i + length name \<or> \<not> is_word_byte (line ! (i + length name)))"
  have len: "\<not> length line < i + length name"
  proof
    assume "length line < i + length name"
    with "1.prems" show False unfolding word_col_loop.simps[of line name i] by (simp only: if_True) simp
  qed
  note eq = "1.prems"[unfolded word_col_loop.simps[of line name i] if_not_P[OF len]]
  show ?case
  proof (cases ?hit)
    case True
    from eq[unfolded if_P[OF True]] have "c = utf16_len (take i line) mod 2 ^ 32" by (simp only: option.inject)
    with True show ?thesis by (intro exI[of _ i] conjI) (simp_all only: order_refl)
  next
    case False
    from "1.IH"[OF len False eq[unfolded if_not_P[OF False]]] obtain j where
      j: "i + 1 \<le> j \<and> c = utf16_len (take j line) mod 2 ^ 32 \<and> take (length name) (drop j line) = name \<and>
        is_char_boundary line j \<and> (j = 0 \<or> \<not> is_word_byte (line ! (j - 1))) \<and>
        (length line \<le> j + length name \<or> \<not> is_word_byte (line ! (j + length name)))" by blast
    then have "i \<le> j" by linarith
    with j show ?thesis by blast
  qed
qed

subsection \<open>Properties\<close>

text \<open>
  C28: Every call or field edge of a lexical pass comes from a reference whose own exact name, or rebuilt
  member name, is the signature of exactly one definition the kind of edge may point at, in the caller's
  language, in the whole table; that one is its target. It joins two different nodes of the table and of
  one corpus, the source is the reference's caller, and for a bare identifier the leaf is not bound in the
  file and the target's path has the qualifier as a segment.
\<close>

theorem lexical_edge_sound:
  assumes "e \<in> set (lp_edges (resolve_unambiguous_lexical (table_store ok (node_table ns) edges) corpus path
      unresolved inheritance bound))" "ge_kind e \<noteq> IsImplementation"
  shows "\<exists>call\<in>set unresolved. \<exists>src dst sig. src \<in> set (node_table ns) \<and> dst \<in> set (node_table ns) \<and>
    gn_id src = uc_src call \<and>
    e = \<lparr>ge_src = gn_id src, ge_dst = gn_id dst, ge_kind = lexical_edge_kind call\<rparr> \<and> gn_id src \<noteq> gn_id dst \<and>
    row_corpus src = row_corpus dst \<and> sig \<in> set (candidate_signatures call) \<and>
    {m \<in> set (node_table ns). node_signature m = sig \<and> eligible (lexical_edge_kind call) (src_language src) m} = {dst} \<and>
    (if bare_identifier call then leaf_of (uc_callee call) \<notin> bound \<and> hint_crate_reaches (uc_hint call) dst else True)"
proof -
  have "ge_kind e = IsImplementation" if "inheritance_edge db bound s base = Some e" for db s base
    using that by (auto simp: inheritance_edge_def edge_if_sound_Some split: option.splits if_splits)
  with lexical_pass_edges[OF assms(1)] assms(2) obtain call where
    c: "call \<in> set unresolved" "lexical_one (table_store ok (node_table ns) edges) bound call = Some e" by blast
  from live_table.lexical_one_sound[OF c(2)] c(1) show ?thesis by blast
qed

definition demo_row :: "node_id \<Rightarrow> string \<Rightarrow> string \<Rightarrow> string \<Rightarrow> core_node" where
  "demo_row i path sig kind =
     \<lparr>gn_id = i, gn_vname = \<lparr>vn_corpus = ''repo'', vn_root = [], vn_path = path, vn_language = ''python'', vn_signature = sig\<rparr>,
      gn_kind = kind, cn_line = Some (unat i), cn_end_line = Some (unat i + 1), cn_test_role = Role_None\<rparr>"

definition demo_call :: unresolved_call where
  "demo_call = \<lparr>uc_src = 1, uc_callee = ''class:Field'', uc_alt = Some ''fn:Field'', uc_hint = None, uc_line = 2,
     uc_col = None, uc_method = False, uc_recv = None\<rparr>"

definition demo_rows :: "core_node list" where
  "demo_rows = [demo_row 1 ''a.py'' ''fn:main'' ''fn'', demo_row 4 ''b.py'' ''fn:Field'' ''fn'']"

theorem lexical_edge_sound_witness:
  "\<exists>call\<in>set [demo_call]. \<exists>src dst sig. src \<in> set (node_table demo_rows) \<and> dst \<in> set (node_table demo_rows) \<and>
    gn_id src = uc_src call \<and>
    \<lparr>ge_src = 1, ge_dst = 4, ge_kind = RefCall\<rparr> = \<lparr>ge_src = gn_id src, ge_dst = gn_id dst, ge_kind = lexical_edge_kind call\<rparr> \<and>
    gn_id src \<noteq> gn_id dst \<and> row_corpus src = row_corpus dst \<and> sig \<in> set (candidate_signatures call) \<and>
    {m \<in> set (node_table demo_rows). node_signature m = sig \<and> eligible (lexical_edge_kind call) (src_language src) m} = {dst} \<and>
    (if bare_identifier call then leaf_of (uc_callee call) \<notin> {} \<and> hint_crate_reaches (uc_hint call) dst else True)"
proof (rule lexical_edge_sound)
  show "\<lparr>ge_src = 1, ge_dst = 4, ge_kind = RefCall\<rparr> \<in> set (lp_edges (resolve_unambiguous_lexical
      (table_store (\<lambda>_. True) (node_table demo_rows) []) ''repo'' ''a.py'' [demo_call] [] {}))"
    by code_simp
qed simp

text \<open>
  A second signature is also tried where the first one is ambiguous: with two classes and one function
  of the name, the call of the name becomes an edge to the function.
\<close>

definition ambiguous_rows :: "core_node list" where
  "ambiguous_rows = demo_rows @ [demo_row 6 ''c.py'' ''class:Field'' ''class'', demo_row 8 ''d.py'' ''class:Field'' ''class'']"

lemma ambiguous_primary_falls_through:
  "length (filter (\<lambda>n. node_signature n = uc_callee demo_call \<and> eligible RefCall (Some ''python'') n) (node_table ambiguous_rows)) = 2 \<and>
   lp_edges (resolve_unambiguous_lexical (table_store (\<lambda>_. True) (node_table ambiguous_rows) []) ''repo'' ''a.py''
      [demo_call] [] {}) = [\<lparr>ge_src = 1, ge_dst = 4, ge_kind = RefCall\<rparr>]"
  by code_simp

text \<open>
  A lexical pass accounts for every reference once, as an edge or as pending, and the rows it records
  as resolved are exactly its edges, in order.
\<close>

lemma lexical_pass_accounts:
  "let p = resolve_unambiguous_lexical db corpus path unresolved inheritance bound
   in lp_emitted p + lp_pending p = length unresolved + length inheritance \<and> length (lp_edges p) = lp_emitted p \<and>
      resolved_states p = map (\<lambda>e. (ge_src e, ge_dst e)) (lp_edges p)"
  using lexical_pass_ok unfolding pass_ok_def Let_def by blast

text \<open>
  C29: Every edge of an editor pass comes from a resolution of the batch whose kind it has: its source is a
  definition of the edited file whose lines hold the reference, or the file's node; its target is a
  definition of the resolved file, of a kind such an edge may point at, whose lines hold the resolved line
  or that starts in the lines after it, and whose signature names the reference. Both are rows of the table
  and of the corpus, and they are different.
\<close>

theorem editor_edge_sound:
  assumes "e \<in> set (lp_edges (apply_live_resolutions (table_store ok (node_table ns) edges) corpus file resolutions))"
  shows "\<exists>r\<in>set resolutions. \<exists>src dst. src \<in> set (node_table ns) \<and> dst \<in> set (node_table ns) \<and> gn_id src \<noteq> gn_id dst \<and>
    e = \<lparr>ge_src = gn_id src, ge_dst = gn_id dst, ge_kind = ge_kind e\<rparr> \<and>
    lr_kind r = edge_kind_as_str (ge_kind e) \<and> ge_kind e \<in> {RefCall, RefField, IsImplementation} \<and>
    in_file corpus file src \<and> (gn_kind src = ''file'' \<or> spans_line (lr_line r) src) \<and>
    in_file corpus (lr_target_path r) dst \<and> gn_kind dst \<in> set (target_kinds (ge_kind e)) \<and>
    (spans_line (lr_target_line r) dst \<or> starts_below (lr_target_line r) dst) \<and> signature_names (node_signature dst) (lr_name r)"
proof -
  from editor_pass_edges[OF assms] obtain r where
    r: "r \<in> set resolutions" "resolve_one (table_store ok (node_table ns) edges) corpus file r = Some e" by blast
  from live_table.resolve_one_sound[OF r(2)] r(1) show ?thesis by blast
qed

definition demo_resolution :: live_resolution where
  "demo_resolution = \<lparr>lr_line = 1, lr_col = 0, lr_name = ''Field'', lr_target_path = ''b.py'', lr_target_line = 3, lr_version = 1,
     lr_kind = ''ref/call''\<rparr>"

theorem editor_edge_sound_witness:
  "\<exists>r\<in>set [demo_resolution]. \<exists>src dst. src \<in> set (node_table demo_rows) \<and> dst \<in> set (node_table demo_rows) \<and>
    gn_id src \<noteq> gn_id dst \<and>
    \<lparr>ge_src = 1, ge_dst = 4, ge_kind = RefCall\<rparr> = \<lparr>ge_src = gn_id src, ge_dst = gn_id dst, ge_kind = ge_kind \<lparr>ge_src = 1, ge_dst = 4, ge_kind = RefCall\<rparr>\<rparr> \<and>
    lr_kind r = edge_kind_as_str (ge_kind \<lparr>ge_src = 1, ge_dst = 4, ge_kind = RefCall\<rparr>) \<and>
    ge_kind \<lparr>ge_src = 1, ge_dst = 4, ge_kind = RefCall\<rparr> \<in> {RefCall, RefField, IsImplementation} \<and>
    in_file ''repo'' ''a.py'' src \<and> (gn_kind src = ''file'' \<or> spans_line (lr_line r) src) \<and>
    in_file ''repo'' (lr_target_path r) dst \<and> gn_kind dst \<in> set (target_kinds (ge_kind \<lparr>ge_src = 1, ge_dst = 4, ge_kind = RefCall\<rparr>)) \<and>
    (spans_line (lr_target_line r) dst \<or> starts_below (lr_target_line r) dst) \<and> signature_names (node_signature dst) (lr_name r)"
proof (rule editor_edge_sound)
  show "\<lparr>ge_src = 1, ge_dst = 4, ge_kind = RefCall\<rparr> \<in> set (lp_edges (apply_live_resolutions
      (table_store (\<lambda>_. True) (node_table demo_rows) []) ''repo'' ''a.py'' [demo_resolution]))"
    by code_simp
qed

text \<open>
  C30: The files an edit invalidates are at most 64 and without repetition. Each has a node with an edge into
  one of the changed nodes, and unless the limit is reached each such file is there.
\<close>

theorem reverse_closure_bounded:
  "distinct (reverse_closure db ids) \<and> length (reverse_closure db ids) \<le> MAX_CLOSURE_FILES \<and>
   (if length (reverse_closure db ids) = MAX_CLOSURE_FILES then set (reverse_closure db ids) \<subseteq> closure_sources db ids
    else set (reverse_closure db ids) = closure_sources db ids)"
  using closure_loop_spec[of "[]" db ids] by (auto simp: reverse_closure_def)

text \<open>
  No two targets sent to the editor share their line, column, name and kind, and each is a call the
  lexical lane writes no edge for.
\<close>

lemma editor_targets_distinct:
  "distinct (map target_key (targets_needing_editor db ls unresolved bound)) \<and>
   set (targets_needing_editor db ls unresolved bound) \<subseteq>
     {t. \<exists>call. call \<in> set unresolved \<and> lexical_one db bound call = None \<and> lt_line t = uc_line call \<and> 0 < lt_line t \<and>
        lt_name t = leaf_of (uc_callee call) \<and> lt_kind t = edge_kind_as_str (lexical_edge_kind call)}"
proof
  show "distinct (map target_key (targets_needing_editor db ls unresolved bound))"
    unfolding targets_needing_editor_def by (rule collisions_dropped)
  show "set (targets_needing_editor db ls unresolved bound) \<subseteq> {t. \<exists>call. call \<in> set unresolved \<and>
      lexical_one db bound call = None \<and> lt_line t = uc_line call \<and> 0 < lt_line t \<and>
      lt_name t = leaf_of (uc_callee call) \<and> lt_kind t = edge_kind_as_str (lexical_edge_kind call)}"
  proof
    fix t
    assume "t \<in> set (targets_needing_editor db ls unresolved bound)"
    then have "t \<in> set (List.map_filter (call_target db ls bound) unresolved)"
      by (simp add: targets_needing_editor_def drop_same_position_collisions_def)
    then obtain call where "call \<in> set unresolved" "call_target db ls bound call = Some t"
      by (auto simp: List.map_filter_def)
    then show "t \<in> {t. \<exists>call. call \<in> set unresolved \<and> lexical_one db bound call = None \<and> lt_line t = uc_line call \<and>
        0 < lt_line t \<and> lt_name t = leaf_of (uc_callee call) \<and> lt_kind t = edge_kind_as_str (lexical_edge_kind call)}"
      by (intro CollectI exI[of _ call]) (auto simp: call_target_def split: if_splits)
  qed
qed

text \<open>A resolution in a line that no definition of the file encloses is an edge from the file's node without a row.\<close>

lemma file_source_without_row:
  "let p = apply_live_resolutions (table_store (\<lambda>_. True) (node_table (demo_row 9 ''a.py'' ''a.py'' ''file'' # demo_rows)) [])
         ''repo'' ''a.py'' [demo_resolution\<lparr>lr_line := 50\<rparr>]
   in lp_edges p = [\<lparr>ge_src = 9, ge_dst = 4, ge_kind = RefCall\<rparr>] \<and> lp_states p = []"
  by code_simp

end
