(* ===== verification/Graph_Tables.thy ===== *)
theory Graph_Tables
  imports Live_Store "HOL-Library.Code_Target_Nat"
begin

section \<open>The tables of the graph\<close>

text \<open>
  The tables \<open>nodes\<close>, \<open>edges\<close>, \<open>edge_sites\<close>, \<open>ref_resolution_state\<close> and \<open>files\<close> of
  \<open>crates/travsr-store/src/lib.rs\<close> with the single statements that write them: edges of each
  provenance, occurrence rows, sweeps. A table is a list of rows and its primary key a function of the
  row; a transaction that fails leaves every table as it was.
\<close>

datatype provenance = Tree_Sitter | Lsif | Scip | Live

record stored_edge =
  er_src :: node_id
  er_dst :: node_id
  er_kind :: edge_kind
  er_prov :: provenance
  er_conf :: "nat option"

record site_row =
  sr_src :: node_id
  sr_dst :: node_id
  sr_kind :: edge_kind
  sr_line :: nat
  sr_col :: "nat option"

record store_node = core_node +
  sn_body :: "string option"

record graph_tables =
  gt_nodes :: "store_node list"
  gt_edges :: "stored_edge list"
  gt_sites :: "site_row list"
  gt_refs :: "ref_resolution list"
  gt_files :: "(string \<times> string) list"

abbreviation edge_key :: "stored_edge \<Rightarrow> node_id \<times> node_id \<times> edge_kind" where
  "edge_key r \<equiv> (er_src r, er_dst r, er_kind r)"

abbreviation site_key :: "site_row \<Rightarrow> node_id \<times> node_id \<times> edge_kind \<times> nat" where
  "site_key r \<equiv> (sr_src r, sr_dst r, sr_kind r, sr_line r)"

abbreviation ref_key :: "ref_resolution \<Rightarrow> node_id \<times> nat \<times> nat \<times> string" where
  "ref_key r \<equiv> (rr_src r, rr_line r, rr_col r, rr_name r)"

subsection \<open>Upserts\<close>

text \<open>\<open>INSERT ... ON CONFLICT(key) DO UPDATE\<close>: the row that holds the key is combined with the new one.\<close>

definition table_upsert :: "('r \<Rightarrow> 'k) \<Rightarrow> ('r \<Rightarrow> 'r \<Rightarrow> 'r) \<Rightarrow> 'r \<Rightarrow> 'r list \<Rightarrow> 'r list" where
  "table_upsert key merge n rows =
     (if key n \<in> set (map key rows) then map (\<lambda>old. if key old = key n then merge old n else old) rows else rows @ [n])"

definition row_at :: "('r \<Rightarrow> 'k) \<Rightarrow> 'k \<Rightarrow> 'r list \<Rightarrow> 'r option" where
  "row_at key k rows = find (\<lambda>r. key r = k) rows"

text \<open>\<open>put_edge\<close>, \<open>put_edge_lsif\<close>, \<open>put_edge_live\<close> and the edge statement of \<open>write_phase_b_batch\<close>.\<close>

definition put_edge :: "stored_edge \<Rightarrow> stored_edge list \<Rightarrow> stored_edge list" where
  "put_edge e = table_upsert edge_key (\<lambda>old new. old) (e\<lparr>er_prov := Tree_Sitter\<rparr>)"

definition put_edge_lsif :: "stored_edge \<Rightarrow> stored_edge list \<Rightarrow> stored_edge list" where
  "put_edge_lsif e = table_upsert edge_key (\<lambda>old new. old\<lparr>er_prov := Lsif, er_conf := er_conf new\<rparr>) (e\<lparr>er_prov := Lsif\<rparr>)"

definition put_edge_live :: "stored_edge \<Rightarrow> stored_edge list \<Rightarrow> stored_edge list" where
  "put_edge_live e =
     table_upsert edge_key (\<lambda>old new. if er_prov old = Live then old\<lparr>er_conf := er_conf new\<rparr> else old) (e\<lparr>er_prov := Live\<rparr>)"

definition ratified_prov :: "provenance \<Rightarrow> provenance \<Rightarrow> provenance" where
  "ratified_prov old new =
     (if new \<in> {Lsif, Scip} then new else if old \<in> {Lsif, Scip} then old else new)"

definition put_edge_phase_b :: "provenance \<Rightarrow> stored_edge \<Rightarrow> stored_edge list \<Rightarrow> stored_edge list" where
  "put_edge_phase_b p e =
     table_upsert edge_key (\<lambda>old new. old\<lparr>er_prov := ratified_prov (er_prov old) (er_prov new), er_conf := er_conf new\<rparr>)
       (e\<lparr>er_prov := p\<rparr>)"

text \<open>The statement of \<open>write_scip_attributed_batch\<close>, which keeps the confidence of the row it meets.\<close>

definition put_edge_scip :: "node_id \<Rightarrow> node_id \<Rightarrow> edge_kind \<Rightarrow> stored_edge list \<Rightarrow> stored_edge list" where
  "put_edge_scip s d k =
     table_upsert edge_key (\<lambda>old new. old\<lparr>er_prov := Scip\<rparr>) \<lparr>er_src = s, er_dst = d, er_kind = k, er_prov = Scip, er_conf = None\<rparr>"

definition put_site :: "site_row \<Rightarrow> site_row list \<Rightarrow> site_row list" where
  "put_site = table_upsert site_key (\<lambda>old new. old\<lparr>sr_col := or_else (sr_col old) (sr_col new)\<rparr>)"

definition put_ref :: "ref_resolution \<Rightarrow> ref_resolution list \<Rightarrow> ref_resolution list" where
  "put_ref = table_upsert ref_key (\<lambda>old new. old\<lparr>rr_state := rr_state new, rr_dst := rr_dst new\<rparr>)"

text \<open>The row of an id is kept and its columns replaced; a second id for a name violates the unique index.\<close>

definition put_store_node :: "store_node \<Rightarrow> store_node list \<Rightarrow> store_node list option" where
  "put_store_node n rows =
     (if list_ex (\<lambda>old. gn_vname old = gn_vname n \<and> gn_id old \<noteq> gn_id n) rows then None
      else Some (table_upsert gn_id (\<lambda>old new. old\<lparr>gn_kind := gn_kind new, cn_line := or_else (cn_line new) (cn_line old),
                   cn_end_line := or_else (cn_end_line new) (cn_end_line old), cn_test_role := cn_test_role new,
                   sn_body := sn_body new\<rparr>) n rows))"

fun put_store_nodes :: "store_node list \<Rightarrow> store_node list \<Rightarrow> store_node list option" where
  "put_store_nodes [] rows = Some rows"
| "put_store_nodes (n # ns) rows = (case put_store_node n rows of None \<Rightarrow> None | Some rows' \<Rightarrow> put_store_nodes ns rows')"

subsection \<open>Files\<close>

definition of_file :: "string \<Rightarrow> string \<Rightarrow> store_node \<Rightarrow> bool" where
  "of_file corpus path n \<longleftrightarrow> vn_corpus (gn_vname n) = corpus \<and> vn_path (gn_vname n) = path"

definition file_ids :: "string \<Rightarrow> string \<Rightarrow> store_node list \<Rightarrow> node_id list" where
  "file_ids corpus path nodes = map gn_id (filter (of_file corpus path) nodes)"

definition node_ids :: "store_node list \<Rightarrow> node_id list" where
  "node_ids nodes = map gn_id nodes"

definition language_ids :: "string list \<Rightarrow> store_node list \<Rightarrow> node_id list" where
  "language_ids languages nodes = map gn_id (filter (\<lambda>n. vn_language (gn_vname n) \<in> set languages) nodes)"

subsection \<open>Occurrences\<close>

type_synonym edge_at = "node_id \<times> node_id \<times> nat \<times> nat option"

text \<open>\<open>record_edge_sites\<close> and \<open>record_field_sites\<close>: an unknown line and a self loop are skipped.\<close>

definition record_site :: "edge_kind \<Rightarrow> edge_at \<Rightarrow> site_row list \<Rightarrow> site_row list" where
  "record_site kind = (\<lambda>(src, dst, line, col) rows.
     if line = 0 \<or> src = dst then rows
     else put_site \<lparr>sr_src = src, sr_dst = dst, sr_kind = kind, sr_line = line, sr_col = col\<rparr> rows)"

definition record_edge_sites :: "edge_at list \<Rightarrow> graph_tables \<Rightarrow> graph_tables" where
  "record_edge_sites sites g = g\<lparr>gt_sites := fold (record_site RefCall) sites (gt_sites g)\<rparr>"

definition record_field_sites :: "edge_at list \<Rightarrow> graph_tables \<Rightarrow> graph_tables" where
  "record_field_sites sites g = g\<lparr>gt_sites := fold (record_site RefField) sites (gt_sites g)\<rparr>"

definition language_is_kept :: "string \<Rightarrow> string \<Rightarrow> string list \<Rightarrow> store_node list \<Rightarrow> bool" where
  "language_is_kept corpus path keep nodes \<longleftrightarrow>
     (if keep = [] then False else list_ex (\<lambda>n. of_file corpus path n \<and> vn_language (gn_vname n) \<in> set keep) nodes)"

definition purge_sites :: "string \<times> string \<Rightarrow> graph_tables \<Rightarrow> graph_tables" where
  "purge_sites = (\<lambda>(corpus, path) g.
     g\<lparr>gt_sites := filter (\<lambda>s. sr_src s \<notin> set (file_ids corpus path (gt_nodes g))) (gt_sites g)\<rparr>)"

definition replace_owned_edge_sites :: "node_id list \<Rightarrow> string list \<Rightarrow> string list \<Rightarrow> edge_at list \<Rightarrow> edge_at list
    \<Rightarrow> graph_tables \<Rightarrow> graph_tables" where
  "replace_owned_edge_sites srcs carried keep call_sites field_sites g =
     (let files = remdups (List.map_filter
            (\<lambda>i. map_option (\<lambda>n. (vn_corpus (gn_vname n), vn_path (gn_vname n))) (row_at gn_id i (gt_nodes g))) srcs);
          stale = filter (\<lambda>(corpus, path). path \<notin> set carried \<and> \<not> language_is_kept corpus path keep (gt_nodes g)) files
      in record_field_sites field_sites (record_edge_sites call_sites (fold purge_sites stale g)))"

text \<open>\<open>reference_sites\<close>: the places a node is used at, with what is known of the edges behind each.\<close>

record ref_site =
  rs_path :: string
  rs_line :: nat
  rs_heuristic :: bool
  rs_live :: bool

definition edge_behind :: "stored_edge list \<Rightarrow> site_row \<Rightarrow> stored_edge option" where
  "edge_behind edges s = row_at edge_key (sr_src s, sr_dst s, sr_kind s) edges"

definition sites_of :: "graph_tables \<Rightarrow> node_id \<Rightarrow> (string \<times> site_row) list" where
  "sites_of g dst = List.map_filter (\<lambda>s.
     if sr_dst s = dst \<and> sr_kind s \<in> {RefCall, RefField}
     then map_option (\<lambda>n. (vn_path (gn_vname n), s)) (row_at gn_id (sr_src s) (gt_nodes g)) else None) (gt_sites g)"

definition site_place :: "string \<times> site_row \<Rightarrow> string \<times> nat" where
  "site_place = (\<lambda>(path, s). (path, sr_line s))"

definition group_site :: "graph_tables \<Rightarrow> (string \<times> site_row) list \<Rightarrow> string \<times> nat \<Rightarrow> ref_site" where
  "group_site g rows place =
     (let here = map snd (filter (\<lambda>r. site_place r = place) rows)
      in \<lparr>rs_path = fst place, rs_line = snd place,
          rs_heuristic = list_ex (\<lambda>s. sr_kind s = RefCall \<and>
             (case edge_behind (gt_edges g) s of Some e \<Rightarrow> er_prov e = Tree_Sitter | None \<Rightarrow> False)) here,
          rs_live = list_ex (\<lambda>s. case edge_behind (gt_edges g) s of Some e \<Rightarrow> er_prov e = Live | None \<Rightarrow> False) here\<rparr>)"

definition reference_sites :: "graph_tables \<Rightarrow> node_id \<Rightarrow> ref_site list" where
  "reference_sites g dst =
     (let rows = sites_of g dst
      in map (group_site g rows) (sort_key fst (sort_key snd (remdups (map site_place rows)))))"

definition edge_call_site_lines :: "graph_tables \<Rightarrow> node_id \<Rightarrow> node_id \<Rightarrow> nat \<Rightarrow> nat list" where
  "edge_call_site_lines g src dst most =
     take most (sort (map sr_line (filter (\<lambda>s. sr_src s = src \<and> sr_dst s = dst \<and> sr_kind s = RefCall) (gt_sites g))))"

subsection \<open>Sweeps\<close>

definition sweep_live_edges_for_languages :: "string list \<Rightarrow> graph_tables \<Rightarrow> nat \<times> graph_tables" where
  "sweep_live_edges_for_languages languages g =
     (if languages = [] then (0, g)
      else (let gone = (\<lambda>e. er_prov e = Live \<and> er_src e \<in> set (language_ids languages (gt_nodes g)));
                keys = map edge_key (filter gone (gt_edges g))
            in (length keys, g\<lparr>gt_sites := filter (\<lambda>s. (sr_src s, sr_dst s, sr_kind s) \<notin> set keys) (gt_sites g),
                              gt_edges := filter (\<lambda>e. \<not> gone e) (gt_edges g)\<rparr>)))"

definition sweep_path :: "string \<Rightarrow> string \<Rightarrow> nat \<times> graph_tables \<Rightarrow> nat \<times> graph_tables" where
  "sweep_path corpus path = (\<lambda>(n, g).
     let gone = (\<lambda>e. er_src e \<in> set (file_ids corpus path (gt_nodes g)) \<and> er_dst e \<notin> set (node_ids (gt_nodes g)))
     in (n + length (filter gone (gt_edges g)), g\<lparr>gt_edges := filter (\<lambda>e. \<not> gone e) (gt_edges g)\<rparr>))"

definition sweep_orphan_edges_for_paths :: "string \<Rightarrow> string list \<Rightarrow> graph_tables \<Rightarrow> nat \<times> graph_tables" where
  "sweep_orphan_edges_for_paths corpus paths g = fold (sweep_path corpus) paths (0, g)"

definition is_orphan :: "graph_tables \<Rightarrow> stored_edge \<Rightarrow> bool" where
  "is_orphan g e \<longleftrightarrow> er_src e \<notin> set (node_ids (gt_nodes g)) \<or> er_dst e \<notin> set (node_ids (gt_nodes g))"

definition count_orphans :: "graph_tables \<Rightarrow> nat" where
  "count_orphans g = length (filter (is_orphan g) (gt_edges g))"

definition sweep_orphans :: "graph_tables \<Rightarrow> nat \<times> graph_tables" where
  "sweep_orphans g = (count_orphans g, g\<lparr>gt_edges := filter (\<lambda>e. \<not> is_orphan g e) (gt_edges g)\<rparr>)"

definition sweep_self_ref_call_edges :: "graph_tables \<Rightarrow> nat \<times> graph_tables" where
  "sweep_self_ref_call_edges g =
     (let loops = (\<lambda>e. er_kind e = RefCall \<and> er_src e = er_dst e)
      in (length (filter loops (gt_edges g)),
          g\<lparr>gt_sites := filter (\<lambda>s. \<not> (sr_kind s = RefCall \<and> sr_src s = sr_dst s)) (gt_sites g),
            gt_edges := filter (\<lambda>e. \<not> loops e) (gt_edges g)\<rparr>))"

definition owned_ratified_ref_call_edges :: "graph_tables \<Rightarrow> string \<Rightarrow> string \<Rightarrow> nat" where
  "owned_ratified_ref_call_edges g corpus path =
     length (filter (\<lambda>e. er_kind e = RefCall \<and> er_prov e \<noteq> Live \<and> er_src e \<in> set (file_ids corpus path (gt_nodes g)))
       (gt_edges g))"

subsection \<open>Tables with a key\<close>

lemma set_map_filter: "set (List.map_filter f xs) = {y. \<exists>x\<in>set xs. f x = Some y}"
  by (auto simp: List.map_filter_def) force

lemma row_at_Some: "row_at key k rows = Some r \<Longrightarrow> r \<in> set rows \<and> key r = k"
  by (auto simp: row_at_def find_Some_iff)

lemma row_at_None: "row_at key k rows = None \<longleftrightarrow> k \<notin> key ` set rows"
  by (auto simp: row_at_def find_None_iff)

lemma row_at_simps [simp]:
  "row_at key k [] = None"
  "row_at key k (r # rows) = (if key r = k then Some r else row_at key k rows)"
  by (simp_all add: row_at_def)

lemma row_at_mem: "distinct (map key rows) \<Longrightarrow> r \<in> set rows \<Longrightarrow> row_at key (key r) rows = Some r"
proof (induction rows)
  case (Cons a rows)
  show ?case
  proof (cases "r = a")
    case False
    with Cons.prems have r: "r \<in> set rows" by simp
    then have "key r \<in> key ` set rows" by (rule imageI)
    with Cons.prems(1) have "key a \<noteq> key r" by auto
    with r Cons show ?thesis by simp
  qed simp
qed simp

lemma row_at_filter:
  "distinct (map key rows) \<Longrightarrow>
     row_at key k (filter P rows) = (case row_at key k rows of Some r \<Rightarrow> if P r then Some r else None | None \<Rightarrow> None)"
proof (induction rows)
  case (Cons a rows)
  have "row_at key (key a) (filter P rows) = None" using Cons.prems by (auto simp: row_at_None)
  with Cons show ?case by auto
qed simp

lemma upsert_image:
  assumes "\<And>old. f (merge old n) = f old"
  shows "f ` set (table_upsert key merge n rows) \<subseteq> insert (f n) (f ` set rows)"
proof (cases "key n \<in> set (map key rows)")
  case True
  have "f ` set (map (\<lambda>old. if key old = key n then merge old n else old) rows) = f ` set rows"
    unfolding set_map image_image by (rule image_cong) (simp_all add: assms)
  with True show ?thesis by (auto simp: table_upsert_def)
qed (simp add: table_upsert_def)

text \<open>What an table_upsert does to a table whose statement does not change the key of the row it meets.\<close>

locale keyed_upsert =
  fixes key :: "'r \<Rightarrow> 'k" and merge :: "'r \<Rightarrow> 'r \<Rightarrow> 'r"
  assumes merge_key: "key old = key n \<Longrightarrow> key (merge old n) = key n"
begin

lemma keys: "map key (table_upsert key merge n rows) = map key rows @ (if key n \<in> set (map key rows) then [] else [key n])"
  by (auto simp: table_upsert_def merge_key)

lemma distinct_keys: "distinct (map key rows) \<Longrightarrow> distinct (map key (table_upsert key merge n rows))"
  unfolding keys by auto

lemma key_set: "key ` set (table_upsert key merge n rows) = insert (key n) (key ` set rows)"
proof -
  have "set (map key (table_upsert key merge n rows)) = insert (key n) (set (map key rows))" unfolding keys by auto
  then show ?thesis by simp
qed

lemma fold_key_set: "key ` set (fold (table_upsert key merge) ns rows) = key ` set ns \<union> key ` set rows"
  by (induction ns arbitrary: rows) (auto simp: key_set)

lemma fold_distinct_keys: "distinct (map key rows) \<Longrightarrow> distinct (map key (fold (table_upsert key merge) ns rows))"
  by (induction ns arbitrary: rows) (simp_all add: distinct_keys)

lemma find_map_update:
  "find (\<lambda>r. key r = k) (map (\<lambda>old. if key old = key n then merge old n else old) rows) =
     (if k = key n then map_option (\<lambda>old. merge old n) (find (\<lambda>r. key r = k) rows) else find (\<lambda>r. key r = k) rows)"
  by (induction rows) (auto simp: merge_key)

lemma lookup:
  "row_at key k (table_upsert key merge n rows) =
     (if k = key n then Some (case row_at key k rows of None \<Rightarrow> n | Some old \<Rightarrow> merge old n) else row_at key k rows)"
proof (cases "key n \<in> set (map key rows)")
  case True
  then have "row_at key (key n) rows \<noteq> None" by (simp add: row_at_None)
  with True show ?thesis by (auto simp: table_upsert_def row_at_def find_map_update)
next
  case False
  have app: "find P (xs @ [x]) = (case find P xs of Some y \<Rightarrow> Some y | None \<Rightarrow> if P x then Some x else None)" for P xs and x :: 'r
    by (induction xs) auto
  have "row_at key (key n) rows = None" using False by (simp add: row_at_None)
  with False show ?thesis by (auto simp: table_upsert_def row_at_def app split: option.split)
qed

end

lemma kept_rows_distinct: "distinct (map key rows) \<Longrightarrow> distinct (map key (filter P rows))"
  by (induction rows) auto

interpretation edge_keep: keyed_upsert edge_key "\<lambda>old new. old"
  by unfold_locales auto

interpretation edge_lsif: keyed_upsert edge_key "\<lambda>old new. old\<lparr>er_prov := Lsif, er_conf := er_conf new\<rparr>"
  by unfold_locales auto

interpretation edge_live: keyed_upsert edge_key "\<lambda>old new. if er_prov old = Live then old\<lparr>er_conf := er_conf new\<rparr> else old"
  by unfold_locales auto

interpretation edge_phase_b: keyed_upsert edge_key
    "\<lambda>old new. old\<lparr>er_prov := ratified_prov (er_prov old) (er_prov new), er_conf := er_conf new\<rparr>"
  by unfold_locales auto

interpretation edge_scip: keyed_upsert edge_key "\<lambda>old new. old\<lparr>er_prov := Scip\<rparr>"
  by unfold_locales auto

interpretation site_fill: keyed_upsert site_key "\<lambda>old new. old\<lparr>sr_col := or_else (sr_col old) (sr_col new)\<rparr>"
  by unfold_locales auto

interpretation ref_state: keyed_upsert ref_key "\<lambda>old new. old\<lparr>rr_state := rr_state new, rr_dst := rr_dst new\<rparr>"
  by unfold_locales auto

subsection \<open>The overlay and its ratification\<close>

text \<open>The writes between two sweeps: edges of the live lanes and edges of a compiler or parser run.\<close>

datatype edge_write = W_Live stored_edge | W_Phase_B provenance stored_edge

fun apply_write :: "edge_write \<Rightarrow> stored_edge list \<Rightarrow> stored_edge list" where
  "apply_write (W_Live e) = put_edge_live e"
| "apply_write (W_Phase_B p e) = put_edge_phase_b p e"

fun is_live_write :: "edge_write \<Rightarrow> bool" where
  "is_live_write (W_Live _) = True"
| "is_live_write (W_Phase_B p _) = (p = Live)"

lemma put_edge_lsif_phase_b: "put_edge_lsif e = put_edge_phase_b Lsif e"
  by (simp add: put_edge_lsif_def put_edge_phase_b_def ratified_prov_def table_upsert_def fun_eq_iff)

lemma apply_write_distinct: "distinct (map edge_key es) \<Longrightarrow> distinct (map edge_key (apply_write w es))"
  by (cases w) (simp_all add: put_edge_live_def put_edge_phase_b_def edge_live.distinct_keys edge_phase_b.distinct_keys)

lemma run_writes_distinct: "distinct (map edge_key es) \<Longrightarrow> distinct (map edge_key (fold apply_write ws es))"
proof (induction ws arbitrary: es)
  case (Cons w ws)
  from Cons.IH[OF apply_write_distinct[OF Cons.prems]] show ?case by simp
qed simp

text \<open>A table with an overlay against the same table without it.\<close>

definition overlaid :: "stored_edge option \<Rightarrow> stored_edge option \<Rightarrow> bool" where
  "overlaid l p \<longleftrightarrow> (case p of Some r \<Rightarrow> l = Some r \<and> er_prov r \<noteq> Live
     | None \<Rightarrow> (case l of Some r \<Rightarrow> er_prov r = Live | None \<Rightarrow> True))"

lemma live_write_overlaid:
  "overlaid (row_at edge_key k es) r \<Longrightarrow> overlaid (row_at edge_key k (put_edge_live e es)) r"
  by (auto simp: put_edge_live_def edge_live.lookup overlaid_def split: option.splits if_splits)

lemma phase_b_write_overlaid:
  assumes "p \<noteq> Live" "overlaid (row_at edge_key k es) (row_at edge_key k fs)"
  shows "overlaid (row_at edge_key k (put_edge_phase_b p e es)) (row_at edge_key k (put_edge_phase_b p e fs))"
proof (cases "k = edge_key e")
  case False
  with assms(2) show ?thesis by (simp add: put_edge_phase_b_def edge_phase_b.lookup)
next
  case k: True
  have new: "row_at edge_key k (put_edge_phase_b p e rows) = Some (case row_at edge_key k rows of None \<Rightarrow> e\<lparr>er_prov := p\<rparr>
      | Some old \<Rightarrow> old\<lparr>er_prov := ratified_prov (er_prov old) p, er_conf := er_conf e\<rparr>)" for rows
    using k by (simp add: put_edge_phase_b_def edge_phase_b.lookup split: option.split)
  have stays: "ratified_prov old p \<noteq> Live" for old using assms(1) by (auto simp: ratified_prov_def)
  show ?thesis
  proof (cases "row_at edge_key k fs")
    case (Some r)
    with assms(2) show ?thesis unfolding new by (simp add: overlaid_def stays)
  next
    case None
    show ?thesis
    proof (cases "row_at edge_key k es")
      case None
      with \<open>row_at edge_key k fs = None\<close> assms(1) show ?thesis unfolding new by (simp add: overlaid_def)
    next
      case (Some l)
      with assms(2) None have l: "er_prov l = Live" by (simp add: overlaid_def)
      have "edge_key l = edge_key e" using row_at_Some[OF Some] k by simp
      then have "l\<lparr>er_prov := ratified_prov Live p, er_conf := er_conf e\<rparr> = e\<lparr>er_prov := p\<rparr>"
        by (simp add: ratified_prov_def)
      with Some None l assms(1) show ?thesis unfolding new by (simp add: overlaid_def)
    qed
  qed
qed

lemma writes_overlaid:
  assumes "list_all (\<lambda>w. case w of W_Phase_B p _ \<Rightarrow> p \<noteq> Live | _ \<Rightarrow> True) ws" "overlaid (row_at edge_key k es) (row_at edge_key k fs)"
  shows "overlaid (row_at edge_key k (fold apply_write ws es))
    (row_at edge_key k (fold apply_write (filter (\<lambda>w. \<not> is_live_write w) ws) fs))"
  using assms
proof (induction ws arbitrary: es fs)
  case (Cons w ws)
  show ?case
  proof (cases w)
    case (W_Live e)
    with Cons.IH[OF _ live_write_overlaid[OF Cons.prems(2)]] Cons.prems(1) show ?thesis by simp
  next
    case (W_Phase_B p e)
    with Cons.IH[OF _ phase_b_write_overlaid[OF _ Cons.prems(2)]] Cons.prems(1) show ?thesis by simp
  qed
qed simp



end
