(* ===== verification/Store_Reindex.thy ===== *)
theory Store_Reindex
  imports Graph_Tables Fts_Tokens Rust_Path "HOL-Library.Code_Target_Nat"
begin

section \<open>Reindexing a file\<close>

text \<open>
  \<open>reindex_replace\<close>, \<open>delete_file\<close> and \<open>reconcile\<close> of \<open>crates/travsr-store/src/lib.rs\<close>: what a save keeps
  of the graph, what a deletion removes and when a reconciliation refuses to delete. SHA-256 is the argument
  \<open>sha\<close> and the Unicode alphanumeric test \<open>alnum\<close>; the full-text tables and tombstones are left out. A
  transaction is an option: \<open>None\<close> is a violated index, and the caller keeps the tables it had.
\<close>

definition TYPE_LEVEL_KINDS :: "string list" where
  "TYPE_LEVEL_KINDS = [''type'', ''typedef'', ''interface'', ''struct'', ''enum'', ''union'', ''trait'', ''protocol'']"

subsection \<open>Body hashes\<close>

definition line_starts :: "string \<Rightarrow> nat list" where
  "line_starts content = 0 # map (\<lambda>(i, _). i + 1) (filter (\<lambda>(_, b). b = newline) (enumerate 0 content))"

definition body_hash :: "(string \<Rightarrow> string) \<Rightarrow> string \<Rightarrow> core_node \<Rightarrow> string option" where
  "body_hash sha content n =
     (case cn_line n of
        None \<Rightarrow> None
      | Some start \<Rightarrow>
          (let starts = line_starts content; total_lines = length starts
           in if start = 0 \<or> total_lines < start then None
              else case cn_end_line n of
                     None \<Rightarrow> None
                   | Some e \<Rightarrow>
                       (let e' = min (max e start) total_lines; b = starts ! (start - 1);
                            finish = (if total_lines \<le> e' then length content else starts ! e')
                        in Some (sha (take (finish - b) (drop b content))))))"

text \<open>A later span of an id replaces an earlier one.\<close>

definition body_hashes :: "(string \<Rightarrow> string) \<Rightarrow> string \<Rightarrow> core_node list \<Rightarrow> node_id \<Rightarrow> string option" where
  "body_hashes sha content nodes =
     map_of (rev (List.map_filter (\<lambda>n. map_option (Pair (gn_id n)) (body_hash sha content n)) nodes))"

subsection \<open>Re-anchoring an occurrence\<close>

definition word_byte :: "char \<Rightarrow> bool" where
  "word_byte b \<longleftrightarrow> is_ascii_alnum b \<or> b = CHR ''_''"

definition occurrence_at_col :: "string \<Rightarrow> string \<Rightarrow> nat \<Rightarrow> bool" where
  "occurrence_at_col line name col \<longleftrightarrow>
     (if name = [] \<or> length line < col + length name \<or> \<not> is_char_boundary line col then False
      else if take (length name) (drop col line) \<noteq> name then False
      else (col = 0 \<or> \<not> word_byte (line ! (col - 1)))
           \<and> (length line \<le> col + length name \<or> \<not> word_byte (line ! (col + length name))))"

definition token_starts_at :: "string \<Rightarrow> nat \<Rightarrow> bool" where
  "token_starts_at line col \<longleftrightarrow>
     (if length line \<le> col \<or> \<not> is_char_boundary line col then False
      else word_byte (line ! col) \<and> (col = 0 \<or> \<not> word_byte (line ! (col - 1))))"

definition MAX_SNAP_RADIUS :: int where "MAX_SNAP_RADIUS = 512"

definition line_no :: "string list \<Rightarrow> int \<Rightarrow> string option" where
  "line_no ls l = (if 1 \<le> l \<and> l \<le> int (length ls) then Some (ls ! (nat l - 1)) else None)"

definition snap_hit :: "(string \<Rightarrow> bool) \<Rightarrow> string list \<Rightarrow> int \<Rightarrow> int \<Rightarrow> int \<Rightarrow> bool" where
  "snap_hit P ls lo hi l \<longleftrightarrow> lo \<le> l \<and> l \<le> hi \<and> (case line_no ls l of Some line \<Rightarrow> P line | None \<Rightarrow> False)"

text \<open>The rings around the estimate from radius \<open>r\<close>, of which \<open>n\<close> are left.\<close>

fun snap_rings :: "(int \<Rightarrow> bool) \<Rightarrow> int \<Rightarrow> int \<Rightarrow> nat \<Rightarrow> int option" where
  "snap_rings hit estimate r 0 = None"
| "snap_rings hit estimate r (Suc n) =
     (if hit (estimate + r) then Some (estimate + r)
      else if 0 < r \<and> hit (estimate - r) then Some (estimate - r)
      else snap_rings hit estimate (r + 1) n)"

definition snap_changed_occurrence_line :: "string list \<Rightarrow> string \<Rightarrow> nat \<Rightarrow> int \<Rightarrow> int \<Rightarrow> int \<Rightarrow> int option" where
  "snap_changed_occurrence_line ls name col estimate span_start span_end =
     (let lo = max span_start 1; hi = max span_end lo;
          max_radius = min (max (abs (estimate - lo)) (abs (hi - estimate))) MAX_SNAP_RADIUS
      in case snap_rings (snap_hit (\<lambda>line. occurrence_at_col line name col) ls lo hi) estimate 0 (nat max_radius + 1) of
           Some l \<Rightarrow> Some l
         | None \<Rightarrow> if snap_hit (\<lambda>line. token_starts_at line col) ls lo hi estimate then Some estimate else None)"

subsection \<open>What a body edit preserves\<close>

text \<open>The definitions whose stored hash is that of the new text, and those where it is another one.\<close>

definition same_bodies :: "string \<Rightarrow> string \<Rightarrow> store_node list \<Rightarrow> (node_id \<Rightarrow> string option) \<Rightarrow> node_id list" where
  "same_bodies corpus path nodes current =
     map gn_id (filter (\<lambda>n. of_file corpus path n \<and> sn_body n \<noteq> None \<and> current (gn_id n) = sn_body n) nodes)"

definition edited_bodies :: "string \<Rightarrow> string \<Rightarrow> store_node list \<Rightarrow> (node_id \<Rightarrow> string option) \<Rightarrow> node_id list" where
  "edited_bodies corpus path nodes current =
     map gn_id (filter (\<lambda>n. of_file corpus path n \<and> sn_body n \<noteq> None \<and> current (gn_id n) \<noteq> None
                          \<and> current (gn_id n) \<noteq> sn_body n) nodes)"

definition parsed_ids :: "string \<Rightarrow> core_node list \<Rightarrow> node_id list" where
  "parsed_ids path nodes = map gn_id (filter (\<lambda>n. vn_path (gn_vname n) = path) nodes)"

definition body_edit :: "string \<Rightarrow> string \<Rightarrow> graph_tables \<Rightarrow> core_node list \<Rightarrow> bool" where
  "body_edit corpus path g nodes \<longleftrightarrow> set (file_ids corpus path (gt_nodes g)) = set (parsed_ids path nodes)"

definition demoted :: "(node_id \<times> node_id) list \<Rightarrow> node_id list \<Rightarrow> node_id list \<Rightarrow> node_id list" where
  "demoted pairs new_ids preserved =
     map fst (filter (\<lambda>(s, d). s \<in> set preserved \<and> d \<in> set new_ids \<and> d \<notin> set preserved) pairs)"

lemma filter_out_shorter: "set out \<subseteq> set xs \<Longrightarrow> out \<noteq> [] \<Longrightarrow> length (filter (\<lambda>i. i \<notin> set out) xs) < length xs"
  by (metis (full_types) length_filter_less last_in_set subsetD)

lemma demoted_subset: "set (demoted pairs new_ids preserved) \<subseteq> set preserved"
  by (auto simp: demoted_def)

text \<open>Each round of the loop demotes the preserved definitions that refer to one that is not.\<close>

function demote_loop :: "(node_id \<times> node_id) list \<Rightarrow> node_id list \<Rightarrow> node_id list \<Rightarrow> node_id list" where
  "demote_loop pairs new_ids preserved =
     (if demoted pairs new_ids preserved = [] then preserved
      else demote_loop pairs new_ids (filter (\<lambda>i. i \<notin> set (demoted pairs new_ids preserved)) preserved))"
  by pat_completeness auto
termination
  by (relation "measure (\<lambda>(_, _, preserved). length preserved)")
     (rule wf_measure, simp only: in_measure split, rule filter_out_shorter[OF demoted_subset])

declare demote_loop.simps [simp del]

definition reference_pairs :: "string \<Rightarrow> string \<Rightarrow> graph_tables \<Rightarrow> stored_edge list \<Rightarrow> (node_id \<times> node_id) list" where
  "reference_pairs corpus path g edges =
     map (\<lambda>e. (er_src e, er_dst e)) (filter (\<lambda>e. er_src e \<in> set (file_ids corpus path (gt_nodes g))) (gt_edges g) @ edges)"

definition type_level :: "core_node list \<Rightarrow> (node_id \<Rightarrow> bool) \<Rightarrow> bool" where
  "type_level nodes P \<longleftrightarrow> list_ex (\<lambda>n. gn_kind n \<in> set TYPE_LEVEL_KINDS \<and> P (gn_id n)) nodes"

definition unchanged_bodies :: "(string \<Rightarrow> string) \<Rightarrow> string \<Rightarrow> string \<Rightarrow> graph_tables \<Rightarrow> core_node list \<Rightarrow> string option
    \<Rightarrow> node_id list \<times> node_id list" where
  "unchanged_bodies sha corpus path g nodes content =
     (case content of
        Some t \<Rightarrow> if body_edit corpus path g nodes
                  then (let current = body_hashes sha t nodes
                        in (same_bodies corpus path (gt_nodes g) current, edited_bodies corpus path (gt_nodes g) current))
                  else ([], [])
      | None \<Rightarrow> ([], []))"

definition preserved_defs :: "(string \<Rightarrow> string) \<Rightarrow> string \<Rightarrow> string \<Rightarrow> graph_tables \<Rightarrow> core_node list \<Rightarrow> stored_edge list
    \<Rightarrow> string option \<Rightarrow> node_id list" where
  "preserved_defs sha corpus path g nodes edges content =
     (let same = fst (unchanged_bodies sha corpus path g nodes content);
          kept = (if same \<noteq> [] \<and> type_level nodes (\<lambda>i. i \<notin> set same) then [] else same)
      in if kept = [] then []
         else demote_loop (reference_pairs corpus path g edges) (parsed_ids path nodes) kept)"

subsection \<open>Edges an edited definition keeps\<close>

definition body_words :: "(string \<Rightarrow> bool) \<Rightarrow> string list \<Rightarrow> string list" where
  "body_words alnum ls =
     concat (map (\<lambda>l. filter (\<lambda>w. w \<noteq> []) (map concat (split_on (\<lambda>c. \<not> (alnum c \<or> c = ''_'')) (chars l)))) ls)"

definition definition_words :: "(string \<Rightarrow> bool) \<Rightarrow> string list \<Rightarrow> core_node \<Rightarrow> string list option" where
  "definition_words alnum ls n =
     (case cn_line n of
        None \<Rightarrow> None
      | Some start \<Rightarrow>
          if start = 0 then None
          else (let e = min (case cn_end_line n of Some e \<Rightarrow> e | None \<Rightarrow> start) (length ls)
                in if e < start - 1 then None else Some (body_words alnum (take (e - (start - 1)) (drop (start - 1) ls)))))"

definition masks_lines :: "core_node \<Rightarrow> nat \<Rightarrow> bool" where
  "masks_lines n k \<longleftrightarrow>
     gn_kind n \<notin> {''file'', ''variable'', ''field'', ''import'', ''constant''} \<and>
     (case cn_line n of Some a \<Rightarrow> a \<le> k \<and> k \<le> (case cn_end_line n of Some e \<Rightarrow> e | None \<Rightarrow> a) | None \<Rightarrow> False)"

definition top_level_words :: "(string \<Rightarrow> bool) \<Rightarrow> string list \<Rightarrow> core_node list \<Rightarrow> string list" where
  "top_level_words alnum ls nodes =
     body_words alnum (map snd (filter (\<lambda>(i, _). \<not> list_ex (\<lambda>n. masks_lines n (i + 1)) nodes) (enumerate 0 ls)))"

definition words_of :: "(string \<Rightarrow> bool) \<Rightarrow> string list \<Rightarrow> core_node list \<Rightarrow> node_id list \<Rightarrow> node_id \<Rightarrow> string list option" where
  "words_of alnum ls nodes edited i =
     (let defs = map_of (rev (List.map_filter (\<lambda>n. if gn_id n \<in> set edited
            then map_option (Pair (gn_id n)) (definition_words alnum ls n) else None) nodes))
      in case find (\<lambda>n. gn_kind n = ''file'') nodes of
           Some f \<Rightarrow> if gn_id f = i then Some (top_level_words alnum ls nodes) else defs i
         | None \<Rightarrow> defs i)"

definition kept_candidates :: "string \<Rightarrow> string \<Rightarrow> graph_tables \<Rightarrow> (stored_edge \<times> string) list" where
  "kept_candidates corpus path g =
     List.map_filter (\<lambda>e.
       if er_src e \<in> set (file_ids corpus path (gt_nodes g)) \<and> starts_with (edge_kind_as_str (er_kind e)) ''ref/''
          \<and> er_prov e \<in> {Scip, Lsif}
       then map_option (\<lambda>d. (e, vn_signature (gn_vname d))) (row_at gn_id (er_dst e) (gt_nodes g)) else None) (gt_edges g)"

definition first_keyword :: "string \<Rightarrow> string" where
  "first_keyword leaf = hd (split_on (\<lambda>c. c = CHR '':'') leaf)"

definition kept_edges :: "(string \<Rightarrow> string) \<Rightarrow> (string \<Rightarrow> bool) \<Rightarrow> string \<Rightarrow> string \<Rightarrow> graph_tables \<Rightarrow> core_node list
    \<Rightarrow> string option \<Rightarrow> (node_id \<times> node_id \<times> edge_kind) list" where
  "kept_edges sha alnum corpus path g nodes content =
     (let edited = snd (unchanged_bodies sha corpus path g nodes content)
      in case content of
           None \<Rightarrow> []
         | Some t \<Rightarrow>
             if body_edit corpus path g nodes \<and> \<not> type_level nodes (\<lambda>i. i \<in> set edited)
             then (let rows = kept_candidates corpus path g;
                       through = map (\<lambda>(e, _). er_src e) (filter (\<lambda>(e, _). er_src e \<noteq> er_dst e \<and> er_dst e \<in> set edited) rows)
                   in map (\<lambda>(e, _). edge_key e)
                        (filter (\<lambda>(e, sig). er_src e \<notin> set through \<and>
                            (case words_of alnum (lines t) nodes edited (er_src e) of
                               Some ws \<Rightarrow> first_keyword (leaf_of sig) \<in> set ws | None \<Rightarrow> False)) rows))
             else [])"

subsection \<open>Moving occurrences\<close>

definition parsed_line :: "core_node list \<Rightarrow> node_id \<Rightarrow> nat option" where
  "parsed_line nodes = map_of (rev (List.map_filter (\<lambda>n. map_option (Pair (gn_id n)) (cn_line n)) nodes))"

definition parsed_end :: "core_node list \<Rightarrow> node_id \<Rightarrow> nat option" where
  "parsed_end nodes = map_of (rev (List.map_filter (\<lambda>n. map_option (Pair (gn_id n)) (cn_end_line n)) nodes))"

definition stored_line :: "string \<Rightarrow> string \<Rightarrow> graph_tables \<Rightarrow> node_id \<Rightarrow> nat option" where
  "stored_line corpus path g i =
     Option.bind (row_at gn_id i (gt_nodes g)) (\<lambda>n. if of_file corpus path n then cn_line n else None)"

definition line_delta :: "string \<Rightarrow> string \<Rightarrow> graph_tables \<Rightarrow> core_node list \<Rightarrow> node_id \<Rightarrow> int option" where
  "line_delta corpus path g nodes i =
     (case (parsed_line nodes i, stored_line corpus path g i) of
        (Some new, Some old) \<Rightarrow> Some (int new - int old) | _ \<Rightarrow> None)"

text \<open>An occurrence of a preserved definition moves with it; one that would leave the file is dropped.\<close>

definition moved_site :: "string \<Rightarrow> string \<Rightarrow> graph_tables \<Rightarrow> core_node list \<Rightarrow> site_row \<Rightarrow> site_row option" where
  "moved_site corpus path g nodes s =
     (case line_delta corpus path g nodes (sr_src s) of
        None \<Rightarrow> None
      | Some delta \<Rightarrow> (let l = int (sr_line s) + delta in if l < 1 then None else Some (s\<lparr>sr_line := nat l\<rparr>)))"

definition changed_occurrence_of :: "string \<Rightarrow> string \<Rightarrow> graph_tables \<Rightarrow> core_node list \<Rightarrow> string option \<Rightarrow> site_row
    \<Rightarrow> changed_occurrence option" where
  "changed_occurrence_of corpus path g nodes content s =
     (case row_at gn_id (sr_dst s) (gt_nodes g) of
        None \<Rightarrow> None
      | Some d \<Rightarrow>
          (let name = leaf_of (vn_signature (gn_vname d))
           in case (parsed_line nodes (sr_src s), line_delta corpus path g nodes (sr_src s)) of
                (Some start, Some delta) \<Rightarrow>
                  (let estimate = int (sr_line s) + delta
                   in case (case (sr_col s, content) of
                              (Some c, Some t) \<Rightarrow>
                                snap_changed_occurrence_line (lines t) name c estimate (int start)
                                  (case parsed_end nodes (sr_src s) of Some e \<Rightarrow> int e | None \<Rightarrow> int (length (lines t)))
                            | _ \<Rightarrow> Some estimate) of
                        None \<Rightarrow> None
                      | Some l \<Rightarrow>
                          if l < 1 then None
                          else Some \<lparr>co_src = sr_src s, co_line = nat l mod 2 ^ 32, co_col = sr_col s,
                                     co_kind = edge_kind_as_str (sr_kind s), co_name = name\<rparr>)
              | _ \<Rightarrow> None))"

definition changed_occurrences :: "string \<Rightarrow> string \<Rightarrow> graph_tables \<Rightarrow> core_node list \<Rightarrow> string option \<Rightarrow> node_id list
    \<Rightarrow> changed_occurrence list" where
  "changed_occurrences corpus path g nodes content preserved =
     (if preserved = [] then []
      else (let owned = set (file_ids corpus path (gt_nodes g)) - set preserved;
                dropped = map (\<lambda>e. (er_src e, er_dst e)) (filter (\<lambda>e. er_src e \<in> owned) (gt_edges g))
            in List.map_filter (\<lambda>s. if sr_src s \<in> owned \<and> (sr_src s, sr_dst s) \<in> set dropped
                 then changed_occurrence_of corpus path g nodes content s else None) (gt_sites g)))"

subsection \<open>The replacement\<close>

definition stamp_body :: "string option \<Rightarrow> core_node \<Rightarrow> store_node" where
  "stamp_body h n =
     \<lparr>gn_id = gn_id n, gn_vname = gn_vname n, gn_kind = gn_kind n, cn_line = cn_line n, cn_end_line = cn_end_line n,
      cn_test_role = cn_test_role n, sn_body = h\<rparr>"

definition stamped_nodes :: "(string \<Rightarrow> string) \<Rightarrow> core_node list \<Rightarrow> string option \<Rightarrow> store_node list" where
  "stamped_nodes sha nodes content =
     map (\<lambda>n. stamp_body (case content of Some t \<Rightarrow> body_hashes sha t nodes (gn_id n) | None \<Rightarrow> None) n) nodes"

record replace_report =
  rp_removed_count :: nat
  rp_callers :: "string list"
  rp_changed_defs :: "node_id list"
  rp_changed_occurrences :: "changed_occurrence list"
  rp_preserved_any :: bool

definition put_file_hash :: "string \<Rightarrow> string \<Rightarrow> (string \<times> string) list \<Rightarrow> (string \<times> string) list" where
  "put_file_hash path h = table_upsert fst (\<lambda>_ new. new) (path, h)"

definition callers_of :: "string \<Rightarrow> node_id list \<Rightarrow> store_node list \<Rightarrow> stored_edge list \<Rightarrow> string list" where
  "callers_of path ids nodes edges =
     remdups (List.map_filter (\<lambda>e. if er_dst e \<in> set ids
       then Option.bind (row_at gn_id (er_src e) nodes)
              (\<lambda>n. if vn_path (gn_vname n) \<noteq> path then Some (vn_path (gn_vname n)) else None)
       else None) edges)"

definition replaced_edges :: "(string \<Rightarrow> string) \<Rightarrow> (string \<Rightarrow> bool) \<Rightarrow> string \<Rightarrow> string \<Rightarrow> graph_tables \<Rightarrow> core_node list
    \<Rightarrow> stored_edge list \<Rightarrow> string option \<Rightarrow> node_id list \<Rightarrow> stored_edge list" where
  "replaced_edges sha alnum corpus path g nodes edges content preserved =
     (let owned = set (file_ids corpus path (gt_nodes g));
          kept = set (kept_edges sha alnum corpus path g nodes content)
      in fold put_edge (filter (\<lambda>e. er_src e \<notin> set preserved) edges)
           (filter (\<lambda>e. \<not> (er_src e \<in> owned \<and> er_src e \<notin> set preserved \<and> edge_key e \<notin> kept)) (gt_edges g)))"

definition replaced_sites :: "string \<Rightarrow> string \<Rightarrow> graph_tables \<Rightarrow> core_node list \<Rightarrow> node_id list \<Rightarrow> site_row list" where
  "replaced_sites corpus path g nodes preserved =
     fold (table_upsert site_key (\<lambda>old new. old))
       (List.map_filter (moved_site corpus path g nodes) (filter (\<lambda>s. sr_src s \<in> set preserved) (gt_sites g)))
       (filter (\<lambda>s. sr_src s \<notin> set (file_ids corpus path (gt_nodes g))) (gt_sites g))"

definition removed_ids :: "string \<Rightarrow> string \<Rightarrow> graph_tables \<Rightarrow> core_node list \<Rightarrow> node_id list" where
  "removed_ids corpus path g nodes =
     filter (\<lambda>i. i \<notin> set (parsed_ids path nodes)) (file_ids corpus path (gt_nodes g))"

definition reindex_replace :: "(string \<Rightarrow> string) \<Rightarrow> (string \<Rightarrow> bool) \<Rightarrow> string \<Rightarrow> string \<Rightarrow> core_node list \<Rightarrow> stored_edge list
    \<Rightarrow> string \<Rightarrow> string option \<Rightarrow> graph_tables \<Rightarrow> (replace_report \<times> graph_tables) option" where
  "reindex_replace sha alnum corpus path nodes edges new_hash content g =
     (let preserved = preserved_defs sha corpus path g nodes edges content;
          removed = removed_ids corpus path g nodes;
          edges' = replaced_edges sha alnum corpus path g nodes edges content preserved
      in case put_store_nodes (stamped_nodes sha nodes content) (filter (\<lambda>n. \<not> of_file corpus path n) (gt_nodes g)) of
           None \<Rightarrow> None
         | Some nodes' \<Rightarrow>
             Some (\<lparr>rp_removed_count = length removed, rp_callers = callers_of path removed nodes' edges',
                    rp_changed_defs = filter (\<lambda>i. i \<notin> set preserved) (map gn_id nodes),
                    rp_changed_occurrences = changed_occurrences corpus path g nodes content preserved,
                    rp_preserved_any = (preserved \<noteq> [])\<rparr>,
                   g\<lparr>gt_nodes := nodes', gt_edges := filter (\<lambda>e. er_dst e \<notin> set removed) edges',
                     gt_sites := replaced_sites corpus path g nodes preserved,
                     gt_files := put_file_hash path new_hash (gt_files g)\<rparr>))"

subsection \<open>Deleting a file\<close>

definition delete_file :: "string \<Rightarrow> string \<Rightarrow> graph_tables \<Rightarrow> string list \<times> graph_tables" where
  "delete_file corpus path g =
     (let dead = set (file_ids corpus path (gt_nodes g))
      in (callers_of path (file_ids corpus path (gt_nodes g)) (gt_nodes g) (gt_edges g),
          g\<lparr>gt_nodes := filter (\<lambda>n. \<not> of_file corpus path n) (gt_nodes g),
            gt_edges := filter (\<lambda>e. er_src e \<notin> dead \<and> er_dst e \<notin> dead) (gt_edges g),
            gt_sites := filter (\<lambda>s. sr_src s \<notin> dead \<and> sr_dst s \<notin> dead) (gt_sites g),
            gt_files := filter (\<lambda>(p, _). p \<noteq> path) (gt_files g)\<rparr>))"

subsection \<open>Reconciliation with the disk\<close>

record safety_policy =
  sp_ceiling_pct :: rat
  sp_ceiling_min :: nat
  sp_toctou_recheck :: bool

definition default_safety_policy :: safety_policy where
  "default_safety_policy = \<lparr>sp_ceiling_pct = 1 / 2, sp_ceiling_min = 100, sp_toctou_recheck = True\<rparr>"

record gc_report =
  gc_ghost_paths :: "string list"
  gc_orphan_edges_detected :: nat
  gc_orphan_edges_swept :: nat
  gc_self_ref_call_edges_detected :: nat
  gc_self_ref_call_edges_swept :: nat
  gc_node_count :: nat
  gc_edge_count :: nat
  gc_aborted :: bool
  gc_abort_reason :: "string option"
  gc_lexical_index_parity_issue :: "string option"

definition new_gc_report :: "graph_tables \<Rightarrow> gc_report" where
  "new_gc_report g =
     \<lparr>gc_ghost_paths = [], gc_orphan_edges_detected = 0, gc_orphan_edges_swept = 0, gc_self_ref_call_edges_detected = 0,
      gc_self_ref_call_edges_swept = 0, gc_node_count = length (gt_nodes g), gc_edge_count = length (gt_edges g),
      gc_aborted = False, gc_abort_reason = None, gc_lexical_index_parity_issue = None\<rparr>"

definition ghosts_of :: "graph_tables \<Rightarrow> string set \<Rightarrow> string list" where
  "ghosts_of g walked = filter (\<lambda>p. p \<notin> walked) (map fst (gt_files g))"

definition delete_ceiling :: "safety_policy \<Rightarrow> nat \<Rightarrow> nat" where
  "delete_ceiling policy tracked = max (sp_ceiling_min policy) (nat \<lfloor>of_nat tracked * sp_ceiling_pct policy\<rfloor>)"

definition abort_text :: "safety_policy \<Rightarrow> nat \<Rightarrow> nat \<Rightarrow> string" where
  "abort_text policy ghosts tracked =
     ''ghost count '' @ show_nat ghosts @ '' exceeds ceiling '' @ show_nat (delete_ceiling policy tracked) @ '' (''
       @ show_nat (nat \<lfloor>sp_ceiling_pct policy * 100\<rfloor>) @ ''% of '' @ show_nat tracked @ '' tracked paths); ''
       @ ''re-run with --force to override''"

text \<open>\<open>present\<close> is the second look at the disk and \<open>ok\<close> says which deletions commit; the first that does
  not ends the pass with what was deleted before it.\<close>

fun delete_ghosts :: "(string \<Rightarrow> bool) \<Rightarrow> (string \<Rightarrow> bool) \<Rightarrow> bool \<Rightarrow> string \<Rightarrow> string list \<Rightarrow> string list \<Rightarrow> graph_tables
    \<Rightarrow> string list option \<times> graph_tables" where
  "delete_ghosts present ok recheck corpus [] deleted g = (Some deleted, g)"
| "delete_ghosts present ok recheck corpus (p # ps) deleted g =
     (if recheck \<and> present p then delete_ghosts present ok recheck corpus ps deleted g
      else if \<not> ok p then (None, g)
      else delete_ghosts present ok recheck corpus ps (deleted @ [p]) (snd (delete_file corpus p g)))"

definition reconcile :: "(string \<Rightarrow> bool) \<Rightarrow> (string \<Rightarrow> bool) \<Rightarrow> string set \<Rightarrow> safety_policy \<Rightarrow> string \<Rightarrow> graph_tables
    \<Rightarrow> gc_report option \<times> graph_tables" where
  "reconcile present ok walked policy corpus g =
     (let ghosts = ghosts_of g walked; tracked = length (gt_files g); report = new_gc_report g
      in if delete_ceiling policy tracked < length ghosts
         then (Some (report\<lparr>gc_aborted := True, gc_abort_reason := Some (abort_text policy (length ghosts) tracked)\<rparr>), g)
         else case delete_ghosts present ok (sp_toctou_recheck policy) corpus ghosts [] g of
                (None, g') \<Rightarrow> (None, g')
              | (Some deleted, g') \<Rightarrow> (Some (report\<lparr>gc_ghost_paths := deleted\<rparr>), g'))"

subsection \<open>What is preserved\<close>

text \<open>A set of definitions is closed when it holds every parsed definition one of it refers to.\<close>

definition closed_refs :: "(node_id \<times> node_id) list \<Rightarrow> node_id list \<Rightarrow> node_id set \<Rightarrow> bool" where
  "closed_refs pairs new_ids P \<longleftrightarrow> (\<forall>(s, d)\<in>set pairs. s \<in> P \<and> d \<in> set new_ids \<longrightarrow> d \<in> P)"

lemma closed_refsD: "closed_refs pairs new_ids P \<Longrightarrow> (s, d) \<in> set pairs \<Longrightarrow> s \<in> P \<Longrightarrow> d \<in> set new_ids \<Longrightarrow> d \<in> P"
  unfolding closed_refs_def by blast

lemma demoted_empty: "demoted pairs new_ids preserved = [] \<Longrightarrow> closed_refs pairs new_ids (set preserved)"
  by (auto simp: demoted_def closed_refs_def filter_empty_conv)

lemma demoted_outside:
  assumes "Q \<subseteq> set preserved" "closed_refs pairs new_ids Q" shows "Q \<inter> set (demoted pairs new_ids preserved) = {}"
  using closed_refsD[OF assms(2)] assms(1) by (fastforce simp: demoted_def)

lemma demote_loop_subset: "set (demote_loop pairs new_ids preserved) \<subseteq> set preserved"
proof (induction pairs new_ids preserved rule: demote_loop.induct)
  case (1 pairs new_ids preserved)
  then show ?case by (subst demote_loop.simps) auto
qed

lemma demote_loop_closed: "closed_refs pairs new_ids (set (demote_loop pairs new_ids preserved))"
proof (induction pairs new_ids preserved rule: demote_loop.induct)
  case (1 pairs new_ids preserved)
  then show ?case by (subst demote_loop.simps) (simp add: demoted_empty)
qed

lemma demote_loop_greatest:
  "Q \<subseteq> set preserved \<Longrightarrow> closed_refs pairs new_ids Q \<Longrightarrow> Q \<subseteq> set (demote_loop pairs new_ids preserved)"
proof (induction pairs new_ids preserved rule: demote_loop.induct)
  case (1 pairs new_ids preserved)
  have "Q \<subseteq> set (filter (\<lambda>i. i \<notin> set (demoted pairs new_ids preserved)) preserved)"
    using "1.prems"(1) demoted_outside[OF "1.prems"] by auto
  with 1 show ?case by (subst demote_loop.simps) simp
qed

text \<open>The definitions whose bodies are the same bytes, and none when a type changed with them.\<close>

definition safe_bodies :: "(string \<Rightarrow> string) \<Rightarrow> string \<Rightarrow> string \<Rightarrow> graph_tables \<Rightarrow> core_node list \<Rightarrow> string \<Rightarrow> node_id set" where
  "safe_bodies sha corpus path g nodes t =
     {i. body_edit corpus path g nodes
         \<and> \<not> type_level nodes (\<lambda>j. j \<notin> set (same_bodies corpus path (gt_nodes g) (body_hashes sha t nodes)))
         \<and> i \<in> set (same_bodies corpus path (gt_nodes g) (body_hashes sha t nodes))}"

lemma preserved_defs_eq:
  "preserved_defs sha corpus path g nodes edges (Some t) =
     (let kept = (if body_edit corpus path g nodes \<and> \<not> (type_level nodes (\<lambda>j. j \<notin> set (same_bodies corpus path (gt_nodes g) (body_hashes sha t nodes))))
                  then same_bodies corpus path (gt_nodes g) (body_hashes sha t nodes) else [])
      in if kept = [] then [] else demote_loop (reference_pairs corpus path g edges) (parsed_ids path nodes) kept)"
  by (simp add: preserved_defs_def unchanged_bodies_def Let_def)

text \<open>
  C32: What a save preserves is the largest set of definitions of the file that have the same body bytes as
  when they were stored, in an edit that changed no type and no set of names, and that refer, through the
  edges the store holds and those of the parse, to no parsed definition outside the set. Without the text,
  nothing is preserved.
\<close>

theorem preserved_defs_greatest:
  "preserved_defs sha corpus path g nodes edges None = []
   \<and> set (preserved_defs sha corpus path g nodes edges (Some t)) =
     \<Union>{Q. Q \<subseteq> safe_bodies sha corpus path g nodes t
           \<and> closed_refs (reference_pairs corpus path g edges) (parsed_ids path nodes) Q}"
proof (intro conjI)
  show "preserved_defs sha corpus path g nodes edges None = []"
    by (simp add: preserved_defs_def unchanged_bodies_def)
  let ?pairs = "reference_pairs corpus path g edges" and ?ids = "parsed_ids path nodes"
  let ?kept = "if body_edit corpus path g nodes
      \<and> \<not> type_level nodes (\<lambda>j. j \<notin> set (same_bodies corpus path (gt_nodes g) (body_hashes sha t nodes)))
    then same_bodies corpus path (gt_nodes g) (body_hashes sha t nodes) else []"
  have kept: "set ?kept = safe_bodies sha corpus path g nodes t" by (auto simp: safe_bodies_def)
  have "set (preserved_defs sha corpus path g nodes edges (Some t)) = set (demote_loop ?pairs ?ids ?kept)"
    using demote_loop_subset[of ?pairs ?ids "[]"] unfolding preserved_defs_eq Let_def by (cases "?kept = []") simp_all
  also have "\<dots> = \<Union>{Q. Q \<subseteq> set ?kept \<and> closed_refs ?pairs ?ids Q}"
    using demote_loop_subset[of ?pairs ?ids ?kept] demote_loop_closed[of ?pairs ?ids ?kept] demote_loop_greatest[of _ ?kept ?pairs ?ids]
    by (intro equalityI Union_upper Union_least) auto
  finally show "set (preserved_defs sha corpus path g nodes edges (Some t)) =
      \<Union>{Q. Q \<subseteq> safe_bodies sha corpus path g nodes t \<and> closed_refs ?pairs ?ids Q}" by (simp only: kept)
qed

subsection \<open>What the replacement changes\<close>

lemma put_edge_keeps: "e \<in> set es \<Longrightarrow> e \<in> set (put_edge x es)"
  by (auto simp: put_edge_def table_upsert_def)

lemma put_edge_new: "e \<in> set (put_edge x es) \<Longrightarrow> e \<in> set es \<or> e = x\<lparr>er_prov := Tree_Sitter\<rparr>"
  by (auto simp: put_edge_def table_upsert_def split: if_splits)

lemma put_edges_keep: "e \<in> set es \<Longrightarrow> e \<in> set (fold put_edge xs es)"
  by (induction xs arbitrary: es) (auto intro: put_edge_keeps)

lemma put_edges_new: "e \<in> set (fold put_edge xs es) \<Longrightarrow> e \<in> set es \<or> (\<exists>x\<in>set xs. e = x\<lparr>er_prov := Tree_Sitter\<rparr>)"
  by (induction xs arbitrary: es) (fastforce dest: put_edge_new)+

lemma reindex_replace_Some:
  assumes "reindex_replace sha alnum corpus path nodes edges new_hash content g = Some (rep, g')"
  shows "gt_edges g' = filter (\<lambda>e. er_dst e \<notin> set (removed_ids corpus path g nodes))
      (replaced_edges sha alnum corpus path g nodes edges content (preserved_defs sha corpus path g nodes edges content))"
    "gt_sites g' = replaced_sites corpus path g nodes (preserved_defs sha corpus path g nodes edges content)"
    "gt_refs g' = gt_refs g" "gt_files g' = put_file_hash path new_hash (gt_files g)"
    "put_store_nodes (stamped_nodes sha nodes content) (filter (\<lambda>n. \<not> of_file corpus path n) (gt_nodes g)) = Some (gt_nodes g')"
  using assms by (auto simp: reindex_replace_def Let_def split: option.splits)

text \<open>
  C33: A save is lossless outside what it re-derives. Of the edges the store held, those of other files and of
  preserved definitions survive unless they point at a definition that is gone; no edge points at such a
  definition; and every edge of the new store is one it held or a tree-sitter edge of the parse whose
  source was not preserved, so no compiler edge is invented.
\<close>

theorem reindex_lossless:
  assumes "reindex_replace sha alnum corpus path nodes edges new_hash content g = Some (rep, g')"
  shows "{e \<in> set (gt_edges g). (er_src e \<notin> set (file_ids corpus path (gt_nodes g))
             \<or> er_src e \<in> set (preserved_defs sha corpus path g nodes edges content))
           \<and> er_dst e \<notin> set (removed_ids corpus path g nodes)} \<subseteq> set (gt_edges g')
    \<and> er_dst ` set (gt_edges g') \<inter> set (removed_ids corpus path g nodes) = {}
    \<and> set (gt_edges g') \<subseteq> set (gt_edges g) \<union> (\<lambda>e. e\<lparr>er_prov := Tree_Sitter\<rparr>) `
       {e \<in> set edges. er_src e \<notin> set (preserved_defs sha corpus path g nodes edges content)}"
proof (intro conjI)
  note g' = reindex_replace_Some(1)[OF assms]
  show "{e \<in> set (gt_edges g). (er_src e \<notin> set (file_ids corpus path (gt_nodes g))
             \<or> er_src e \<in> set (preserved_defs sha corpus path g nodes edges content))
           \<and> er_dst e \<notin> set (removed_ids corpus path g nodes)} \<subseteq> set (gt_edges g')"
    unfolding g' replaced_edges_def Let_def by (auto intro!: put_edges_keep)
  show "er_dst ` set (gt_edges g') \<inter> set (removed_ids corpus path g nodes) = {}"
    unfolding g' by auto
  show "set (gt_edges g') \<subseteq> set (gt_edges g) \<union> (\<lambda>e. e\<lparr>er_prov := Tree_Sitter\<rparr>) `
       {e \<in> set edges. er_src e \<notin> set (preserved_defs sha corpus path g nodes edges content)}"
    unfolding g' replaced_edges_def Let_def by (auto dest!: put_edges_new)
qed

lemma put_old_keys: "set (fold (table_upsert key (\<lambda>old new. old)) xs rows) \<subseteq> set rows \<union> set xs"
proof (induction xs arbitrary: rows)
  case (Cons x xs)
  have "set (table_upsert key (\<lambda>old new. old) x rows) \<subseteq> insert x (set rows)" by (auto simp: table_upsert_def)
  with Cons[of "table_upsert key (\<lambda>old new. old) x rows"] show ?case by auto
qed simp

lemma put_old_keeps: "set rows \<subseteq> set (fold (table_upsert key (\<lambda>old new. old)) xs rows)"
proof (induction xs arbitrary: rows)
  case (Cons x xs)
  have "set rows \<subseteq> set (table_upsert key (\<lambda>old new. old) x rows)" by (auto simp: table_upsert_def)
  with Cons[of "table_upsert key (\<lambda>old new. old) x rows"] show ?case by simp
qed simp

lemma put_old_has: "x \<in> set xs \<Longrightarrow> key x \<in> key ` set (fold (table_upsert key (\<lambda>old new. old)) xs rows)"
proof (induction xs arbitrary: rows)
  case (Cons y xs)
  have "key y \<in> key ` set (table_upsert key (\<lambda>old new. old) y rows)" by (auto simp: table_upsert_def)
  then have "key y \<in> key ` set (fold (table_upsert key (\<lambda>old new. old)) xs (table_upsert key (\<lambda>old new. old) y rows))"
    using put_old_keeps[of "table_upsert key (\<lambda>old new. old) y rows" key xs] by auto
  with Cons show ?case by auto
qed simp

lemma moved_site_Some:
  "moved_site corpus path g nodes s = Some s' \<longleftrightarrow>
     (\<exists>delta. line_delta corpus path g nodes (sr_src s) = Some delta \<and> 1 \<le> int (sr_line s) + delta
        \<and> s' = s\<lparr>sr_line := nat (int (sr_line s) + delta)\<rparr>)"
  by (auto simp: moved_site_def Let_def not_less split: option.splits if_splits)

text \<open>
  The occurrences of other files are untouched by a save. Those the file owns afterwards are the
  occurrences of preserved definitions, each moved by as many lines as its definition moved, and none of
  these is missing.
\<close>

lemma reindex_moves_sites:
  assumes "reindex_replace sha alnum corpus path nodes edges new_hash content g = Some (rep, g')"
  shows "{s \<in> set (gt_sites g). sr_src s \<notin> set (file_ids corpus path (gt_nodes g))} \<subseteq> set (gt_sites g')
    \<and> set (gt_sites g') \<subseteq> {s \<in> set (gt_sites g). sr_src s \<notin> set (file_ids corpus path (gt_nodes g))}
       \<union> {s\<lparr>sr_line := nat (int (sr_line s) + delta)\<rparr> | s delta. s \<in> set (gt_sites g)
            \<and> sr_src s \<in> set (preserved_defs sha corpus path g nodes edges content)
            \<and> line_delta corpus path g nodes (sr_src s) = Some delta \<and> 1 \<le> int (sr_line s) + delta}
    \<and> site_key ` {s\<lparr>sr_line := nat (int (sr_line s) + delta)\<rparr> | s delta. s \<in> set (gt_sites g)
            \<and> sr_src s \<in> set (preserved_defs sha corpus path g nodes edges content)
            \<and> line_delta corpus path g nodes (sr_src s) = Some delta \<and> 1 \<le> int (sr_line s) + delta}
       \<subseteq> site_key ` set (gt_sites g')"
proof (intro conjI)
  note g' = reindex_replace_Some(2)[OF assms]
  let ?P = "preserved_defs sha corpus path g nodes edges content"
  let ?moved = "List.map_filter (moved_site corpus path g nodes) (filter (\<lambda>s. sr_src s \<in> set ?P) (gt_sites g))"
  let ?rest = "filter (\<lambda>s. sr_src s \<notin> set (file_ids corpus path (gt_nodes g))) (gt_sites g)"
  have moved: "set ?moved = {s\<lparr>sr_line := nat (int (sr_line s) + delta)\<rparr> | s delta. s \<in> set (gt_sites g)
      \<and> sr_src s \<in> set ?P \<and> line_delta corpus path g nodes (sr_src s) = Some delta \<and> 1 \<le> int (sr_line s) + delta}"
    by (auto simp: set_map_filter moved_site_Some)
  show "{s \<in> set (gt_sites g). sr_src s \<notin> set (file_ids corpus path (gt_nodes g))} \<subseteq> set (gt_sites g')"
    using put_old_keeps[of ?rest site_key ?moved] unfolding g' replaced_sites_def by simp
  show "set (gt_sites g') \<subseteq> {s \<in> set (gt_sites g). sr_src s \<notin> set (file_ids corpus path (gt_nodes g))}
       \<union> {s\<lparr>sr_line := nat (int (sr_line s) + delta)\<rparr> | s delta. s \<in> set (gt_sites g)
            \<and> sr_src s \<in> set ?P
            \<and> line_delta corpus path g nodes (sr_src s) = Some delta \<and> 1 \<le> int (sr_line s) + delta}"
    using put_old_keys[of site_key ?moved ?rest] unfolding g' replaced_sites_def moved by simp
  show "site_key ` {s\<lparr>sr_line := nat (int (sr_line s) + delta)\<rparr> | s delta. s \<in> set (gt_sites g)
            \<and> sr_src s \<in> set ?P
            \<and> line_delta corpus path g nodes (sr_src s) = Some delta \<and> 1 \<le> int (sr_line s) + delta}
       \<subseteq> site_key ` set (gt_sites g')"
    unfolding moved[symmetric] g' replaced_sites_def by (auto simp del: prod.inject dest: put_old_has[where key = site_key])
qed

subsection \<open>Deletions\<close>

definition dead_ids :: "string \<Rightarrow> string list \<Rightarrow> graph_tables \<Rightarrow> node_id set" where
  "dead_ids corpus paths g = gn_id ` {n \<in> set (gt_nodes g). vn_corpus (gn_vname n) = corpus \<and> vn_path (gn_vname n) \<in> set paths}"

text \<open>The tables without a set of files.\<close>

definition without_files :: "string \<Rightarrow> string list \<Rightarrow> graph_tables \<Rightarrow> graph_tables" where
  "without_files corpus paths g =
     g\<lparr>gt_nodes := filter (\<lambda>n. \<not> (vn_corpus (gn_vname n) = corpus \<and> vn_path (gn_vname n) \<in> set paths)) (gt_nodes g),
       gt_edges := filter (\<lambda>e. er_src e \<notin> dead_ids corpus paths g \<and> er_dst e \<notin> dead_ids corpus paths g) (gt_edges g),
       gt_sites := filter (\<lambda>s. sr_src s \<notin> dead_ids corpus paths g \<and> sr_dst s \<notin> dead_ids corpus paths g) (gt_sites g),
       gt_files := filter (\<lambda>(p, _). p \<notin> set paths) (gt_files g)\<rparr>"

lemma file_ids_dead: "set (file_ids corpus path (gt_nodes g)) = dead_ids corpus [path] g"
  by (auto simp: file_ids_def dead_ids_def of_file_def)

lemma delete_file_without: "snd (delete_file corpus path g) = without_files corpus [path] g"
  unfolding delete_file_def without_files_def Let_def file_ids_dead by (simp add: of_file_def)

lemma without_files_Nil: "without_files corpus [] g = g"
  by (simp add: without_files_def dead_ids_def)

lemma dead_ids_Cons: "dead_ids corpus (p # ps) g = dead_ids corpus [p] g \<union> dead_ids corpus ps (without_files corpus [p] g)"
  by (auto simp: dead_ids_def without_files_def)

lemma without_files_Cons: "without_files corpus ps (without_files corpus [p] g) = without_files corpus (p # ps) g"
proof -
  let ?d = "dead_ids corpus [p] g" and ?ds = "dead_ids corpus ps (without_files corpus [p] g)"
  have d: "dead_ids corpus (p # ps) g = ?d \<union> ?ds" by (rule dead_ids_Cons)
  have n: "gt_nodes (without_files corpus ps (without_files corpus [p] g)) = gt_nodes (without_files corpus (p # ps) g)"
    by (auto simp: without_files_def intro!: filter_cong)
  have e: "gt_edges (without_files corpus ps (without_files corpus [p] g)) = gt_edges (without_files corpus (p # ps) g)"
    by (subst (1 3) without_files_def) (auto simp: d without_files_def[of _ "[_]"] intro!: filter_cong)
  have s: "gt_sites (without_files corpus ps (without_files corpus [p] g)) = gt_sites (without_files corpus (p # ps) g)"
    by (subst (1 3) without_files_def) (auto simp: d without_files_def[of _ "[_]"] intro!: filter_cong)
  have f: "gt_files (without_files corpus ps (without_files corpus [p] g)) = gt_files (without_files corpus (p # ps) g)"
    by (auto simp: without_files_def intro!: filter_cong)
  have r: "gt_refs (without_files corpus ps h) = gt_refs h" for ps h by (simp add: without_files_def)
  show ?thesis using n e s f by (simp add: graph_tables.equality r)
qed

lemma delete_ghosts_Some:
  "delete_ghosts present ok recheck corpus ps deleted g = (Some d, g') \<Longrightarrow>
     d = deleted @ filter (\<lambda>p. \<not> (recheck \<and> present p)) ps
     \<and> g' = without_files corpus (filter (\<lambda>p. \<not> (recheck \<and> present p)) ps) g"
proof (induction ps arbitrary: deleted g)
  case Nil
  then show ?case by (simp add: without_files_Nil)
next
  case (Cons p ps)
  show ?case
  proof (cases "recheck \<and> present p")
    case True
    with Cons.prems have "delete_ghosts present ok recheck corpus ps deleted g = (Some d, g')" by simp
    from Cons.IH[OF this] True show ?thesis by auto
  next
    case False
    with Cons.prems have "delete_ghosts present ok recheck corpus ps (deleted @ [p]) (without_files corpus [p] g) = (Some d, g')"
      by (auto simp: delete_file_without split: if_splits)
    from Cons.IH[OF this] False show ?thesis by (auto simp: without_files_Cons)
  qed
qed

text \<open>
  C36: A reconciliation that answers removed precisely the files it reports: tracked files that the walk did
  not see and that, where the policy asks for a second look, were absent then, no more of them than the ceiling;
  over the ceiling it removes nothing and says so.
\<close>

theorem reconcile_removes:
  assumes "reconcile present ok walked policy corpus g = (Some rep, g')"
  shows "g' = without_files corpus (gc_ghost_paths rep) g
    \<and> gc_aborted rep = (delete_ceiling policy (length (gt_files g)) < length (ghosts_of g walked))
    \<and> gc_ghost_paths rep = (if gc_aborted rep then []
       else filter (\<lambda>p. p \<notin> walked \<and> \<not> (sp_toctou_recheck policy \<and> present p)) (map fst (gt_files g)))
    \<and> length (gc_ghost_paths rep) \<le> delete_ceiling policy (length (gt_files g))"
proof -
  let ?over = "delete_ceiling policy (length (gt_files g)) < length (ghosts_of g walked)"
  have "g' = without_files corpus (gc_ghost_paths rep) g \<and> gc_aborted rep = ?over
    \<and> gc_ghost_paths rep = (if gc_aborted rep then []
       else filter (\<lambda>p. \<not> (sp_toctou_recheck policy \<and> present p)) (ghosts_of g walked))
    \<and> length (gc_ghost_paths rep) \<le> delete_ceiling policy (length (gt_files g))"
  proof (cases ?over)
    case True
    with assms show ?thesis by (auto simp: reconcile_def Let_def new_gc_report_def without_files_Nil)
  next
    case False
    with assms obtain d where d: "delete_ghosts present ok (sp_toctou_recheck policy) corpus (ghosts_of g walked) [] g = (Some d, g')"
      "gc_ghost_paths rep = d" "\<not> gc_aborted rep"
      by (auto simp: reconcile_def Let_def new_gc_report_def split: prod.splits option.splits)
    let ?gone = "filter (\<lambda>p. \<not> (sp_toctou_recheck policy \<and> present p)) (ghosts_of g walked)"
    have "length ?gone \<le> delete_ceiling policy (length (gt_files g))"
      using length_filter_le[of _ "ghosts_of g walked"] False by (meson not_less order_trans)
    with delete_ghosts_Some[OF d(1)] d(2,3) False show ?thesis by simp
  qed
  then show ?thesis by (auto simp: ghosts_of_def conj_commute)
qed

subsection \<open>The snapped line\<close>

lemma snap_rings_Some:
  "0 \<le> r \<Longrightarrow> snap_rings hit e r n = Some l \<Longrightarrow>
     hit l \<and> r \<le> \<bar>l - e\<bar> \<and> \<bar>l - e\<bar> < r + int n
     \<and> (\<forall>m. hit m \<longrightarrow> r \<le> \<bar>m - e\<bar> \<longrightarrow> \<bar>l - e\<bar> < \<bar>m - e\<bar> \<or> \<bar>l - e\<bar> = \<bar>m - e\<bar> \<and> m \<le> l)"
proof (induction n arbitrary: r)
  case (Suc n)
  show ?case
  proof (cases "hit (e + r) \<or> 0 < r \<and> hit (e - r)")
    case True
    with Suc.prems have l: "hit l" "l = e + r \<or> l = e - r \<and> \<not> hit (e + r)" by (auto split: if_splits)
    have "\<bar>l - e\<bar> < \<bar>m - e\<bar> \<or> \<bar>l - e\<bar> = \<bar>m - e\<bar> \<and> m \<le> l" if "hit m" "r \<le> \<bar>m - e\<bar>" for m
    proof (cases "\<bar>m - e\<bar> = r")
      case True
      then have "m = e + r \<or> m = e - r" by arith
      with that(1) l(2) Suc.prems(1) show ?thesis by auto
    next
      case False
      with that(2) l(2) Suc.prems(1) show ?thesis by auto
    qed
    with l Suc.prems(1) show ?thesis by auto
  next
    case False
    with Suc.prems have "snap_rings hit e (r + 1) n = Some l" by (auto split: if_splits)
    with Suc.IH[of "r + 1"] Suc.prems(1) have far: "hit l" "r + 1 \<le> \<bar>l - e\<bar>" "\<bar>l - e\<bar> < r + 1 + int n"
      "\<And>m. hit m \<Longrightarrow> r + 1 \<le> \<bar>m - e\<bar> \<Longrightarrow> \<bar>l - e\<bar> < \<bar>m - e\<bar> \<or> \<bar>l - e\<bar> = \<bar>m - e\<bar> \<and> m \<le> l"
      by auto
    have "r + 1 \<le> \<bar>m - e\<bar>" if "hit m" "r \<le> \<bar>m - e\<bar>" for m
    proof (rule ccontr)
      assume "\<not> r + 1 \<le> \<bar>m - e\<bar>"
      with that(2) have "m = e + r \<or> m = e - r" by arith
      with that(1) False Suc.prems(1) show False by (cases "r = 0") auto
    qed
    with far show ?thesis by auto
  qed
qed simp

lemma snap_rings_None:
  "0 \<le> r \<Longrightarrow> snap_rings hit e r n = None \<Longrightarrow> hit m \<Longrightarrow> r \<le> \<bar>m - e\<bar> \<Longrightarrow> r + int n \<le> \<bar>m - e\<bar>"
proof (induction n arbitrary: r)
  case (Suc n)
  from Suc.prems have no: "\<not> hit (e + r)" "0 < r \<longrightarrow> \<not> hit (e - r)" "snap_rings hit e (r + 1) n = None"
    by (auto split: if_splits)
  have "\<bar>m - e\<bar> \<noteq> r"
  proof
    assume "\<bar>m - e\<bar> = r"
    then have "m = e + r \<or> m = e - r" by arith
    with no Suc.prems(1,3) show False by (cases "r = 0") auto
  qed
  with Suc.IH[of "r + 1"] Suc.prems no(3) show ?case by auto
qed simp

text \<open>The occurrences of the name at the column, on the lines of the definition.\<close>

definition occurs_on :: "string list \<Rightarrow> string \<Rightarrow> nat \<Rightarrow> int \<Rightarrow> int \<Rightarrow> int \<Rightarrow> bool" where
  "occurs_on ls name col span_start span_end =
     snap_hit (\<lambda>line. occurrence_at_col line name col) ls (max span_start 1) (max span_end (max span_start 1))"

lemma within_radius:
  assumes "lo \<le> m" "m \<le> hi" "\<bar>m - e\<bar> \<le> 512"
  shows "\<bar>m - e\<bar> \<le> min (max \<bar>e - lo\<bar> \<bar>hi - e\<bar>) MAX_SNAP_RADIUS"
  using assms unfolding MAX_SNAP_RADIUS_def by (simp add: max_def abs_if)

text \<open>
  Re-anchoring an occurrence answers a line of its definition within 512 of the estimate where the name
  stands at the column as a whole word, none nearer and the lower of two as near; only where there is none
  within 512, the estimate itself when some word starts at the column there; otherwise nothing.
\<close>

lemma snap_nearest:
  "(snap_changed_occurrence_line ls name col estimate a b = Some l) =
     (occurs_on ls name col a b l \<and> \<bar>l - estimate\<bar> \<le> 512
        \<and> (\<forall>m. occurs_on ls name col a b m \<longrightarrow> \<bar>l - estimate\<bar> < \<bar>m - estimate\<bar> \<or> \<bar>l - estimate\<bar> = \<bar>m - estimate\<bar> \<and> m \<le> l)
      \<or> l = estimate \<and> snap_hit (\<lambda>line. token_starts_at line col) ls (max a 1) (max b (max a 1)) estimate
        \<and> \<not> (\<exists>m. occurs_on ls name col a b m \<and> \<bar>m - estimate\<bar> \<le> 512))"
proof -
  define hit where "hit = occurs_on ls name col a b"
  define lo hi where "lo = max a 1" and "hi = max b lo"
  define R where "R = min (max \<bar>estimate - lo\<bar> \<bar>hi - estimate\<bar>) MAX_SNAP_RADIUS"
  define word where "word \<longleftrightarrow> snap_hit (\<lambda>line. token_starts_at line col) ls lo hi estimate"
  have R: "0 \<le> R" "R \<le> 512" unfolding R_def MAX_SNAP_RADIUS_def by auto
  have near: "\<bar>m - estimate\<bar> \<le> R" if "hit m" "\<bar>m - estimate\<bar> \<le> 512" for m
  proof -
    from that(1) have "lo \<le> m" "m \<le> hi" by (simp_all add: hit_def occurs_on_def snap_hit_def lo_def hi_def)
    then show ?thesis unfolding R_def using that(2) by (rule within_radius)
  qed
  have def: "snap_changed_occurrence_line ls name col estimate a b =
      (case snap_rings hit estimate 0 (nat R + 1) of Some l \<Rightarrow> Some l | None \<Rightarrow> if word then Some estimate else None)"
    unfolding snap_changed_occurrence_line_def Let_def occurs_on_def R_def hit_def word_def lo_def hi_def by (rule refl)
  have "(snap_changed_occurrence_line ls name col estimate a b = Some l) =
     (hit l \<and> \<bar>l - estimate\<bar> \<le> 512
        \<and> (\<forall>m. hit m \<longrightarrow> \<bar>l - estimate\<bar> < \<bar>m - estimate\<bar> \<or> \<bar>l - estimate\<bar> = \<bar>m - estimate\<bar> \<and> m \<le> l)
      \<or> l = estimate \<and> word \<and> \<not> (\<exists>m. hit m \<and> \<bar>m - estimate\<bar> \<le> 512))"
  proof (cases "snap_rings hit estimate 0 (nat R + 1)")
    case None
    have "\<not> (\<exists>m. hit m \<and> \<bar>m - estimate\<bar> \<le> 512)"
    proof
      assume "\<exists>m. hit m \<and> \<bar>m - estimate\<bar> \<le> 512"
      then obtain m where m: "hit m" "\<bar>m - estimate\<bar> \<le> 512" by blast
      from snap_rings_None[OF order_refl None m(1)] near[OF m] R(1) show False by simp
    qed
    then show ?thesis unfolding def None by auto
  next
    case (Some k)
    from snap_rings_Some[OF order_refl Some] R have k: "hit k" "\<bar>k - estimate\<bar> \<le> 512"
      "\<And>m. hit m \<Longrightarrow> \<bar>k - estimate\<bar> < \<bar>m - estimate\<bar> \<or> \<bar>k - estimate\<bar> = \<bar>m - estimate\<bar> \<and> m \<le> k" by auto
    have "k = l" if "hit l" "\<And>m. hit m \<Longrightarrow> \<bar>l - estimate\<bar> < \<bar>m - estimate\<bar> \<or> \<bar>l - estimate\<bar> = \<bar>m - estimate\<bar> \<and> m \<le> l"
      using k(3)[OF that(1)] that(2)[OF k(1)] by auto
    then show ?thesis unfolding def Some using k by auto
  qed
  then show ?thesis unfolding hit_def word_def lo_def hi_def .
qed

lemma demo_lines_hits: "occurs_on [''a'', ''  run()'', ''b''] ''run'' 2 1 3 m = (m = 2)"
proof (cases "m \<in> {1, 2, 3}")
  case True
  have "\<not> occurs_on [''a'', ''  run()'', ''b''] ''run'' 2 1 3 1" "occurs_on [''a'', ''  run()'', ''b''] ''run'' 2 1 3 2"
    "\<not> occurs_on [''a'', ''  run()'', ''b''] ''run'' 2 1 3 3" by code_simp+
  with True show ?thesis by auto
next
  case False
  then show ?thesis by (auto simp: occurs_on_def snap_hit_def)
qed

lemma snap_nearest_witness:
  "snap_changed_occurrence_line [''a'', ''  run()'', ''b''] ''run'' 2 1 1 3 = Some 2"
  unfolding snap_nearest demo_lines_hits by simp

subsection \<open>A save of two definitions\<close>

definition demo_node :: "node_id \<Rightarrow> string \<Rightarrow> string \<Rightarrow> nat \<Rightarrow> core_node" where
  "demo_node i path name line =
     \<lparr>gn_id = i, gn_vname = \<lparr>vn_corpus = ''repo'', vn_root = [], vn_path = path, vn_language = ''python'',
        vn_signature = ''fn:'' @ name\<rparr>, gn_kind = ''fn'', cn_line = Some line, cn_end_line = Some line, cn_test_role = Role_None\<rparr>"

definition demo_edge :: "provenance \<Rightarrow> node_id \<Rightarrow> node_id \<Rightarrow> stored_edge" where
  "demo_edge p s d = \<lparr>er_src = s, er_dst = d, er_kind = RefCall, er_prov = p, er_conf = None\<rparr>"

definition demo_site :: "node_id \<Rightarrow> node_id \<Rightarrow> nat \<Rightarrow> site_row" where
  "demo_site s d line = \<lparr>sr_src = s, sr_dst = d, sr_kind = RefCall, sr_line = line, sr_col = Some 2\<rparr>"

definition demo_tables :: graph_tables where
  "demo_tables =
     \<lparr>gt_nodes = [stamp_body (Some (''f'' @ [newline])) (demo_node 1 ''a.py'' ''f'' 1),
                  stamp_body (Some (''g'' @ [newline])) (demo_node 2 ''a.py'' ''g'' 2),
                  stamp_body None (demo_node 3 ''b.py'' ''h'' 1)],
      gt_edges = [demo_edge Scip 1 3, demo_edge Scip 2 3, demo_edge Scip 3 1],
      gt_sites = [demo_site 1 3 1, demo_site 2 3 2, demo_site 3 1 7],
      gt_refs = [], gt_files = [(''a.py'', ''old''), (''b.py'', ''b'')]\<rparr>"

definition demo_parse :: "core_node list" where
  "demo_parse = [demo_node 1 ''a.py'' ''f'' 2, demo_node 2 ''a.py'' ''g'' 3]"

definition demo_text :: string where
  "demo_text = [newline] @ ''f'' @ [newline] @ ''G'' @ [newline]"

abbreviation demo_save :: "(replace_report \<times> graph_tables) option" where
  "demo_save \<equiv> reindex_replace (\<lambda>b. b) (\<lambda>c. c \<noteq> '' '') ''repo'' ''a.py'' demo_parse [demo_edge Tree_Sitter 2 1] ''new''
     (Some demo_text) demo_tables"

lemma demo_save_runs: "demo_save = Some (fst (the demo_save), snd (the demo_save))"
proof -
  have "demo_save \<noteq> None" by code_simp
  then show ?thesis by auto
qed

lemma demo_preserved:
  "preserved_defs (\<lambda>b. b) ''repo'' ''a.py'' demo_tables demo_parse [demo_edge Tree_Sitter 2 1] (Some demo_text) = [1]"
  by code_simp

lemma demo_unowned: "file_ids ''repo'' ''a.py'' (gt_nodes demo_tables) = [1, 2]" "removed_ids ''repo'' ''a.py'' demo_tables demo_parse = []"
  by code_simp+

theorem reindex_lossless_witness:
  "{demo_edge Scip 1 3, demo_edge Scip 3 1} \<subseteq> set (gt_edges (snd (the demo_save)))"
  using reindex_lossless[OF demo_save_runs, THEN conjunct1] unfolding demo_preserved demo_unowned
  by (rule order_trans[rotated]) (simp add: demo_tables_def demo_edge_def)

lemma reindex_moves_sites_witness:
  "demo_site 3 1 7 \<in> set (gt_sites (snd (the demo_save)))"
  using reindex_moves_sites[OF demo_save_runs, THEN conjunct1] unfolding demo_unowned
  by (rule subsetD) (simp add: demo_tables_def demo_site_def)

lemma demo_save_result:
  "gt_edges (snd (the demo_save)) = [demo_edge Scip 1 3, demo_edge Scip 3 1, demo_edge Tree_Sitter 2 1]"
  "gt_sites (snd (the demo_save)) = [demo_site 3 1 7, demo_site 1 3 2]"
  by code_simp+

definition demo_policy :: safety_policy where
  "demo_policy = \<lparr>sp_ceiling_pct = 1 / 10, sp_ceiling_min = 1, sp_toctou_recheck = True\<rparr>"

abbreviation demo_gc :: "gc_report option \<times> graph_tables" where
  "demo_gc \<equiv> reconcile (\<lambda>_. False) (\<lambda>_. True) {''a.py''} demo_policy ''repo'' demo_tables"

theorem reconcile_removes_witness:
  "gc_ghost_paths (the (fst demo_gc)) = [''b.py''] \<and> snd demo_gc = without_files ''repo'' [''b.py''] demo_tables"
proof -
  have runs: "demo_gc = (Some (the (fst demo_gc)), snd demo_gc)"
    by (auto simp: reconcile_def Let_def demo_policy_def delete_ceiling_def ghosts_of_def demo_tables_def)
  have "\<not> gc_aborted (the (fst demo_gc))"
    unfolding reconcile_removes[OF runs, THEN conjunct2, THEN conjunct1]
    by (auto simp: demo_policy_def delete_ceiling_def ghosts_of_def demo_tables_def)
  then have "gc_ghost_paths (the (fst demo_gc)) = [''b.py'']"
    using reconcile_removes[OF runs, THEN conjunct2, THEN conjunct2, THEN conjunct1] by (simp add: demo_tables_def)
  with reconcile_removes[OF runs, THEN conjunct1] show ?thesis by simp
qed

text \<open>
  An edge that an edited definition keeps, because its callee is still named in the new body, counts among the
  dropped ones: its occurrence is handed to the live lane although the edge is in the store.
\<close>

lemma kept_edge_captured:
  "case reindex_replace (\<lambda>b. b) (\<lambda>c. c \<noteq> '' '') ''repo'' ''a.py'' demo_parse [] ''new''
      (Some ([newline] @ ''f'' @ [newline] @ ''G h'' @ [newline])) demo_tables of
     Some (rep, g') \<Rightarrow> map co_src (rp_changed_occurrences rep) = [2] \<and> demo_edge Scip 2 3 \<in> set (gt_edges g')
   | None \<Rightarrow> False"
  by code_simp

end
