(* ===== verification/Overlay_State.thy ===== *)
theory Overlay_State
  imports Store_Reindex "HOL-Library.Multiset"
begin

section \<open>References the overlay has resolved or not\<close>

text \<open>
  The table \<open>ref_resolution_state\<close> of \<open>crates/travsr-store/src/lib.rs\<close>: what the live lanes record, what
  the freshness note reads, how the lanes are scored against the compiler run and what a ratification
  removes. Ratios are exact rationals in place of \<open>f64\<close>, and every statement is assumed to succeed.
\<close>

subsection \<open>Writes\<close>

definition upsert_ref_resolution_states :: "ref_resolution list \<Rightarrow> graph_tables \<Rightarrow> graph_tables" where
  "upsert_ref_resolution_states rows g = g\<lparr>gt_refs := fold put_ref rows (gt_refs g)\<rparr>"

definition replace_ref_resolution_states :: "string \<Rightarrow> string \<Rightarrow> ref_resolution list \<Rightarrow> graph_tables \<Rightarrow> graph_tables" where
  "replace_ref_resolution_states corpus path rows g =
     g\<lparr>gt_refs := fold put_ref rows (filter (\<lambda>r. rr_src r \<notin> set (file_ids corpus path (gt_nodes g))) (gt_refs g))\<rparr>"

text \<open>A reference with a row of any column has its row; the row written has column zero.\<close>

definition same_reference :: "changed_occurrence \<Rightarrow> ref_resolution \<Rightarrow> bool" where
  "same_reference o' r \<longleftrightarrow> rr_src r = co_src o' \<and> rr_line r = co_line o' \<and> rr_name r = co_name o'"

definition pending_row :: "changed_occurrence \<Rightarrow> ref_resolution" where
  "pending_row o' = \<lparr>rr_src = co_src o', rr_line = co_line o', rr_col = 0, rr_name = co_name o', rr_state = Pending, rr_dst = None\<rparr>"

fun record_pending :: "changed_occurrence list \<Rightarrow> nat \<Rightarrow> ref_resolution list \<Rightarrow> nat \<times> ref_resolution list" where
  "record_pending [] n rows = (n, rows)"
| "record_pending (c # cs) n rows =
     (if list_ex (same_reference c) rows then record_pending cs n rows
      else record_pending cs (n + 1) (rows @ [pending_row c]))"

definition record_pending_changed_occurrences :: "changed_occurrence list \<Rightarrow> graph_tables \<Rightarrow> nat \<times> graph_tables" where
  "record_pending_changed_occurrences cs g =
     (if cs = [] then (0, g)
      else (let (n, rows) = record_pending cs 0 (gt_refs g) in (n, g\<lparr>gt_refs := rows\<rparr>)))"

subsection \<open>Evidence\<close>

text \<open>The name test of \<open>SITE_FOR_REF\<close>: the signature after its first colon, or its end after a dot.\<close>

definition site_names :: "string \<Rightarrow> string \<Rightarrow> bool" where
  "site_names sig name \<longleftrightarrow>
     (case split_once (CHR '':'') sig of Some (_, b) \<Rightarrow> b | None \<Rightarrow> sig) = name \<or> ends_with sig (CHR ''.'' # name)"

definition site_for_ref :: "graph_tables \<Rightarrow> ref_resolution \<Rightarrow> bool" where
  "site_for_ref g r \<longleftrightarrow>
     list_ex (\<lambda>s. sr_src s = rr_src r \<and> sr_line s = rr_line r
       \<and> (case row_at gn_id (sr_dst s) (gt_nodes g) of
            Some d \<Rightarrow> site_names (vn_signature (gn_vname d)) (rr_name r) | None \<Rightarrow> False)) (gt_sites g)"

definition edge_at_site :: "graph_tables \<Rightarrow> ref_resolution \<Rightarrow> bool" where
  "edge_at_site g r \<longleftrightarrow>
     (case rr_dst r of
        None \<Rightarrow> False
      | Some d \<Rightarrow> list_ex (\<lambda>s. sr_src s = rr_src r \<and> sr_line s = rr_line r \<and> sr_dst s = d) (gt_sites g)
                  \<and> list_ex (\<lambda>e. er_src e = rr_src r \<and> er_dst e = d) (gt_edges g))"

subsection \<open>Ratification\<close>

definition clear_resolved_pending_refs :: "graph_tables \<Rightarrow> nat \<times> graph_tables" where
  "clear_resolved_pending_refs g =
     (let gone = (\<lambda>r. rr_state r = Pending \<and> site_for_ref g r)
      in (length (filter gone (gt_refs g)), g\<lparr>gt_refs := filter (\<lambda>r. \<not> gone r) (gt_refs g)\<rparr>))"

definition purge_orphan_ref_resolution_states :: "graph_tables \<Rightarrow> nat \<times> graph_tables" where
  "purge_orphan_ref_resolution_states g =
     (let gone = (\<lambda>r. rr_src r \<notin> set (node_ids (gt_nodes g)))
      in (length (filter gone (gt_refs g)), g\<lparr>gt_refs := filter (\<lambda>r. \<not> gone r) (gt_refs g)\<rparr>))"

record ref_reconcile_report =
  cleared_resolved :: nat
  purged_orphans :: nat

definition report_total :: "ref_reconcile_report \<Rightarrow> nat" where
  "report_total r = cleared_resolved r + purged_orphans r"

definition reconcile_ref_resolution_states :: "graph_tables \<Rightarrow> ref_reconcile_report \<times> graph_tables" where
  "reconcile_ref_resolution_states g =
     (let (cleared, g1) = clear_resolved_pending_refs g;
          (purged, g2) = purge_orphan_ref_resolution_states g1
      in (\<lparr>cleared_resolved = cleared, purged_orphans = purged\<rparr>, g2))"

subsection \<open>The meter\<close>

record live_precision =
  lp_agree :: nat
  lp_disagree :: nat
  lp_unverifiable :: nat

definition no_claims :: live_precision where
  "no_claims = \<lparr>lp_agree = 0, lp_disagree = 0, lp_unverifiable = 0\<rparr>"

definition precision :: "live_precision \<Rightarrow> rat option" where
  "precision p =
     (let verified = lp_agree p + lp_disagree p
      in if 0 < verified then Some (of_nat (lp_agree p) / of_nat verified) else None)"

definition coverage :: "live_precision \<Rightarrow> rat" where
  "coverage p =
     (let all_claims = lp_agree p + lp_disagree p + lp_unverifiable p
      in if all_claims = 0 then 0 else of_nat (lp_agree p + lp_disagree p) / of_nat all_claims)"

definition live_claims :: "live_precision \<Rightarrow> nat" where
  "live_claims p = lp_agree p + lp_disagree p + lp_unverifiable p"

definition is_claim :: "ref_resolution \<Rightarrow> bool" where
  "is_claim r \<longleftrightarrow> rr_state r = Resolved \<and> rr_dst r \<noteq> None"

definition score :: "graph_tables \<Rightarrow> ref_resolution \<Rightarrow> live_precision \<Rightarrow> live_precision" where
  "score g r p =
     (if \<not> site_for_ref g r then p\<lparr>lp_unverifiable := lp_unverifiable p + 1\<rparr>
      else if edge_at_site g r then p\<lparr>lp_agree := lp_agree p + 1\<rparr>
      else p\<lparr>lp_disagree := lp_disagree p + 1\<rparr>)"

definition live_precision_sample :: "graph_tables \<Rightarrow> live_precision" where
  "live_precision_sample g = fold (score g) (filter is_claim (gt_refs g)) no_claims"

definition claim_language :: "graph_tables \<Rightarrow> ref_resolution \<Rightarrow> string option" where
  "claim_language g r = map_option (\<lambda>n. vn_language (gn_vname n)) (row_at gn_id (rr_src r) (gt_nodes g))"

definition score_into :: "graph_tables \<Rightarrow> ref_resolution \<Rightarrow> (string, live_precision) btree \<Rightarrow> (string, live_precision) btree" where
  "score_into g r m =
     (case claim_language g r of
        None \<Rightarrow> m
      | Some l \<Rightarrow> btree_put l (score g r (case btree_get m l of Some p \<Rightarrow> p | None \<Rightarrow> no_claims)) m)"

definition live_precision_sample_by_language :: "graph_tables \<Rightarrow> (string, live_precision) btree" where
  "live_precision_sample_by_language g = fold (score_into g) (filter is_claim (gt_refs g)) []"

definition consume_measured_ref_resolutions :: "string list \<Rightarrow> graph_tables \<Rightarrow> nat \<times> graph_tables" where
  "consume_measured_ref_resolutions languages g =
     (if languages = [] then (0, g)
      else (let gone = (\<lambda>r. is_claim r \<and> rr_src r \<in> set (language_ids languages (gt_nodes g)))
            in (length (filter gone (gt_refs g)), g\<lparr>gt_refs := filter (\<lambda>r. \<not> gone r) (gt_refs g)\<rparr>)))"

subsection \<open>The freshness note\<close>

definition refs_with_source :: "graph_tables \<Rightarrow> ref_state \<Rightarrow> (store_node \<times> ref_resolution) list" where
  "refs_with_source g st =
     List.map_filter (\<lambda>r. if rr_state r = st then map_option (\<lambda>n. (n, r)) (row_at gn_id (rr_src r) (gt_nodes g)) else None)
       (gt_refs g)"

definition pending_refs_in_file :: "graph_tables \<Rightarrow> string \<Rightarrow> string \<Rightarrow> (string \<times> nat) list" where
  "pending_refs_in_file g corpus path =
     map (\<lambda>(_, r). (rr_name r, rr_line r))
       (sort_key (\<lambda>(_, r). rr_line r) (filter (\<lambda>(n, _). of_file corpus path n) (refs_with_source g Pending)))"

definition pending_ref_count :: "graph_tables \<Rightarrow> nat" where
  "pending_ref_count g = length (refs_with_source g Pending)"

definition resolved_ref_count :: "graph_tables \<Rightarrow> nat" where
  "resolved_ref_count g = length (refs_with_source g Resolved)"

definition pending_ref_counts_by_file :: "graph_tables \<Rightarrow> nat \<Rightarrow> (string \<times> nat) list" where
  "pending_ref_counts_by_file g most =
     (let paths = map (\<lambda>(n, _). vn_path (gn_vname n)) (refs_with_source g Pending);
          counts = map (\<lambda>p. (p, count_list paths p)) (sort (remdups paths))
      in take most (sort_key (\<lambda>(_, c). - int c) counts))"

subsection \<open>The files a save can restore\<close>

definition def_leaves :: "graph_tables \<Rightarrow> string \<Rightarrow> string \<Rightarrow> string \<Rightarrow> string list" where
  "def_leaves g corpus path language =
     map leaf_of (filter (\<lambda>sig. CHR '':'' \<in> set sig)
       (map (\<lambda>n. vn_signature (gn_vname n))
         (filter (\<lambda>n. of_file corpus path n \<and> vn_language (gn_vname n) = language) (gt_nodes g))))"

definition waiting_refs :: "graph_tables \<Rightarrow> string \<Rightarrow> string \<Rightarrow> string \<Rightarrow> (string \<times> string) list" where
  "waiting_refs g corpus path language =
     sort_key fst (map (\<lambda>(n, r). (vn_path (gn_vname n), rr_name r))
       (filter (\<lambda>(n, _). vn_corpus (gn_vname n) = corpus \<and> vn_path (gn_vname n) \<noteq> path \<and> vn_language (gn_vname n) = language)
         (refs_with_source g Pending)))"

definition edges_out :: "graph_tables \<Rightarrow> edge_kind \<Rightarrow> node_id \<Rightarrow> node_id list" where
  "edges_out g k i = map er_dst (filter (\<lambda>e. er_src e = i \<and> er_kind e = k) (gt_edges g))"

text \<open>The left join: an import node that resolves nowhere stands for itself.\<close>

definition imported_files :: "graph_tables \<Rightarrow> string \<Rightarrow> string \<Rightarrow> string list" where
  "imported_files g corpus path =
     (let files = map gn_id (filter (\<lambda>n. of_file corpus path n \<and> gn_kind n = ''file'') (gt_nodes g));
          imports' = filter (\<lambda>i. row_at gn_id i (gt_nodes g) \<noteq> None) (concat (map (edges_out g Depends) files));
          ends = concat (map (\<lambda>i. if edges_out g ResolvesTo i = [] then [i] else edges_out g ResolvesTo i) imports')
      in remdups (List.map_filter (\<lambda>t. case row_at gn_id t (gt_nodes g) of
           Some n \<Rightarrow> if gn_kind n = ''file'' then Some (vn_path (gn_vname n)) else None | None \<Rightarrow> None) ends))"

text \<open>The cap is tested after a file is taken.\<close>

fun scan_dependents :: "(string \<Rightarrow> string list) \<Rightarrow> string list \<Rightarrow> string \<Rightarrow> nat \<Rightarrow> (string \<times> string) list \<Rightarrow> string list \<Rightarrow> string list
    \<Rightarrow> string list" where
  "scan_dependents imported leaves path most [] seen out = out"
| "scan_dependents imported leaves path most ((dep, name) # rows) seen out =
     (if name \<notin> set leaves \<or> dep \<in> set seen then scan_dependents imported leaves path most rows seen out
      else if imported dep = [] \<or> path \<in> set (imported dep)
           then (if most \<le> length (out @ [dep]) then out @ [dep]
                 else scan_dependents imported leaves path most rows (dep # seen) (out @ [dep]))
           else scan_dependents imported leaves path most rows (dep # seen) out)"

definition dependents_pending_on_file :: "graph_tables \<Rightarrow> string \<Rightarrow> string \<Rightarrow> string \<Rightarrow> nat \<Rightarrow> string list" where
  "dependents_pending_on_file g corpus path language most =
     (let leaves = def_leaves g corpus path language
      in if leaves = [] then []
         else scan_dependents (imported_files g corpus) leaves path most (waiting_refs g corpus path language) [] [])"

subsection \<open>The name of a site\<close>

lemma last_split_on:
  assumes "d \<notin> set name"
  shows "last (split_on (\<lambda>c. c = d) s) = name \<longleftrightarrow> s = name \<or> ends_with s (d # name)"
proof (cases "d \<in> set s")
  case False
  then have "\<not> ends_with s (d # name)" by (auto simp: ends_with_iff)
  with False show ?thesis by (simp add: split_on_eq_no_sep)
next
  case True
  then obtain a b where s: "s = a @ d # b" "d \<notin> set b" by (metis split_list_last)
  then have "last (split_on (\<lambda>c. c = d) s) = b"
    by (simp add: split_on_append_sep split_on_eq_no_sep)
  moreover have "ends_with s (d # name) \<longleftrightarrow> b = name"
  proof
    assume "ends_with s (d # name)"
    then obtain t where t: "a @ d # b = t @ d # name" by (auto simp: ends_with_iff s(1))
    from t s(2) assms show "b = name" by (metis rsplit_once_Some option.inject prod.inject)
  next
    assume "b = name"
    with s(1) show "ends_with s (d # name)" by (auto simp: ends_with_iff)
  qed
  moreover have "s \<noteq> name" using True assms by auto
  ultimately show ?thesis by simp
qed

lemma ends_with_after:
  assumes "c \<notin> set p" shows "ends_with (a @ c # b) p \<longleftrightarrow> ends_with b p"
proof
  assume "ends_with (a @ c # b) p"
  then obtain t where "a @ c # b = t @ p" by (auto simp: ends_with_iff)
  then consider u where "a @ c # u = t" "b = u @ p" | u where "a @ u = t" "c # b = u @ p" "u = []"
    | u where "a = t @ u" "p = u @ c # b"
    by (fastforce simp: append_eq_append_conv2 Cons_eq_append_conv)
  then show "ends_with b p" using assms by cases (auto simp: ends_with_iff)
next
  assume "ends_with b p"
  then obtain t where "b = t @ p" by (auto simp: ends_with_iff)
  then have "a @ c # b = (a @ c # t) @ p" by simp
  then show "ends_with (a @ c # b) p" unfolding ends_with_iff by blast
qed

text \<open>
  For a name without dots and colons, the test of the SQL text holds exactly of the signatures whose leaf
  is the name, so the store and the resolver agree on what a site refers to.
\<close>

lemma site_names_leaf:
  assumes "CHR ''.'' \<notin> set name" "CHR '':'' \<notin> set name"
  shows "site_names sig name \<longleftrightarrow> leaf_of sig = name"
proof (cases "split_once (CHR '':'') sig")
  case None
  with last_split_on[OF assms(1), of sig] show ?thesis by (simp add: site_names_def leaf_of_def)
next
  case (Some p)
  obtain a b where p: "p = (a, b)" by (cases p)
  have "ends_with sig (CHR ''.'' # name) \<longleftrightarrow> ends_with b (CHR ''.'' # name)"
    using Some assms(2) unfolding p split_once_Some by (auto simp: ends_with_after)
  with Some last_split_on[OF assms(1), of b] show ?thesis by (simp add: p site_names_def leaf_of_def)
qed

lemma site_names_leaf_witness: "site_names ''method:Store.open'' ''open''"
  by (simp add: site_names_leaf) (code_simp)

lemma site_names_dotted: "site_names ''pkg:os.path'' ''os.path'' \<and> leaf_of ''pkg:os.path'' \<noteq> ''os.path''"
  by code_simp

subsection \<open>What a ratification leaves\<close>

lemma two_filters_length:
  "length (filter P xs) + length (filter Q (filter (\<lambda>r. \<not> P r) xs)) = length xs - length (filter (\<lambda>r. \<not> P r \<and> \<not> Q r) xs)"
proof -
  have "length (filter P xs) + length (filter Q (filter (\<lambda>r. \<not> P r) xs)) + length (filter (\<lambda>r. \<not> P r \<and> \<not> Q r) xs) = length xs"
    by (induction xs) auto
  then show ?thesis by simp
qed

text \<open>
  Reconciling the table keeps exactly the rows whose source still exists and that are not pending with a
  site of their own; it counts what it removed, touches no other table, and finds nothing the second time.
\<close>

lemma reconcile_refs_exact:
  "let (rep, g') = reconcile_ref_resolution_states g
   in g' = g\<lparr>gt_refs := filter (\<lambda>r. \<not> (rr_state r = Pending \<and> site_for_ref g r) \<and> rr_src r \<in> set (node_ids (gt_nodes g)))
              (gt_refs g)\<rparr>
      \<and> report_total rep = length (gt_refs g) - length (gt_refs g')
      \<and> reconcile_ref_resolution_states g' = (\<lparr>cleared_resolved = 0, purged_orphans = 0\<rparr>, g')"
proof -
  let ?gone = "\<lambda>r. rr_state r = Pending \<and> site_for_ref g r" and ?dead = "\<lambda>r. rr_src r \<notin> set (node_ids (gt_nodes g))"
  let ?g' = "g\<lparr>gt_refs := filter (\<lambda>r. \<not> ?gone r \<and> \<not> ?dead r) (gt_refs g)\<rparr>"
  have site: "site_for_ref (g\<lparr>gt_refs := rs\<rparr>) = site_for_ref g" for rs by (simp add: site_for_ref_def fun_eq_iff)
  have one: "reconcile_ref_resolution_states g =
      (\<lparr>cleared_resolved = length (filter ?gone (gt_refs g)),
        purged_orphans = length (filter ?dead (filter (\<lambda>r. \<not> ?gone r) (gt_refs g)))\<rparr>, ?g')"
    by (simp add: reconcile_ref_resolution_states_def clear_resolved_pending_refs_def purge_orphan_ref_resolution_states_def
        Let_def)
  have two: "reconcile_ref_resolution_states ?g' = (\<lparr>cleared_resolved = 0, purged_orphans = 0\<rparr>, ?g')"
    by (simp add: reconcile_ref_resolution_states_def clear_resolved_pending_refs_def purge_orphan_ref_resolution_states_def
        Let_def site filter_empty_conv conj_ac)
  show ?thesis unfolding one using two two_filters_length[of ?gone "gt_refs g" ?dead] by (simp add: report_total_def)
qed

subsection \<open>Recording what a save dropped\<close>

lemma record_pending_rows:
  "record_pending cs n rows = (m, rows') \<Longrightarrow>
     \<exists>new. rows' = rows @ new \<and> m = n + length new
       \<and> set new \<subseteq> pending_row ` {c \<in> set cs. \<not> list_ex (same_reference c) rows}
       \<and> list_all (\<lambda>c. list_ex (same_reference c) rows') cs
       \<and> distinct (map ref_key new)"
proof (induction cs arbitrary: n rows)
  case (Cons c cs)
  show ?case
  proof (cases "list_ex (same_reference c) rows")
    case True
    with Cons.prems have "record_pending cs n rows = (m, rows')" by simp
    from Cons.IH[OF this] obtain new where new: "rows' = rows @ new" "m = n + length new"
      "set new \<subseteq> pending_row ` {d \<in> set cs. \<not> list_ex (same_reference d) rows}"
      "list_all (\<lambda>c. list_ex (same_reference c) rows') cs" "distinct (map ref_key new)" by blast
    have "set new \<subseteq> pending_row ` {d \<in> set (c # cs). \<not> list_ex (same_reference d) rows}"
      by (rule subset_trans[OF new(3)]) auto
    with new True show ?thesis by (intro exI[of _ new]) simp
  next
    case False
    with Cons.prems have "record_pending cs (n + 1) (rows @ [pending_row c]) = (m, rows')" by simp
    from Cons.IH[OF this] obtain new where new: "rows' = (rows @ [pending_row c]) @ new" "m = n + 1 + length new"
      "set new \<subseteq> pending_row ` {d \<in> set cs. \<not> list_ex (same_reference d) (rows @ [pending_row c])}"
      "list_all (\<lambda>c. list_ex (same_reference c) rows') cs" "distinct (map ref_key new)" by blast
    have fresh: "ref_key (pending_row c) \<notin> ref_key ` set new"
    proof
      assume "ref_key (pending_row c) \<in> ref_key ` set new"
      with new(3) obtain d where "\<not> list_ex (same_reference d) (rows @ [pending_row c])"
        "ref_key (pending_row c) = ref_key (pending_row d)" by blast
      then show False by (simp add: same_reference_def pending_row_def)
    qed
    have "same_reference c (pending_row c)" by (simp add: same_reference_def pending_row_def)
    with new False fresh show ?thesis by (intro exI[of _ "pending_row c # new"]) auto
  qed
qed simp

text \<open>
  Recording the occurrences of edges a save dropped leaves every row of the table as it is, adds one pending
  row for each reference that had none and as many as it reports, and afterwards every occurrence has a row.
\<close>

lemma record_pending_adds:
  "let (n, g') = record_pending_changed_occurrences cs g
   in \<exists>new. g' = g\<lparr>gt_refs := gt_refs g @ new\<rparr> \<and> n = length new \<and> distinct (map ref_key new)
        \<and> set new \<subseteq> pending_row ` {c \<in> set cs. \<not> list_ex (same_reference c) (gt_refs g)}
        \<and> list_all (\<lambda>c. list_ex (same_reference c) (gt_refs g')) cs"
proof (cases "cs = []")
  case True
  then show ?thesis by (simp add: record_pending_changed_occurrences_def)
next
  case False
  obtain n rows where r: "record_pending cs 0 (gt_refs g) = (n, rows)" by (cases "record_pending cs 0 (gt_refs g)")
  from record_pending_rows[OF r] False r show ?thesis by (auto simp: record_pending_changed_occurrences_def)
qed
subsection \<open>The meter\<close>

definition language_claims :: "graph_tables \<Rightarrow> string \<Rightarrow> ref_resolution list" where
  "language_claims g l = filter (\<lambda>r. is_claim r \<and> claim_language g r = Some l) (gt_refs g)"

lemma score_into_get:
  "btree_get (fold (score_into g) rs m) l =
     (if filter (\<lambda>r. claim_language g r = Some l) rs = [] then btree_get m l
      else Some (fold (score g) (filter (\<lambda>r. claim_language g r = Some l) rs)
             (case btree_get m l of Some p \<Rightarrow> p | None \<Rightarrow> no_claims)))"
proof (induction rs arbitrary: m)
  case (Cons r rs)
  show ?case
  proof (cases "claim_language g r = Some l")
    case True
    then have "btree_get (score_into g r m) l = Some (score g r (case btree_get m l of Some p \<Rightarrow> p | None \<Rightarrow> no_claims))"
      by (simp add: score_into_def)
    with True show ?thesis by (simp add: Cons.IH)
  next
    case False
    then have "btree_get (score_into g r m) l = btree_get m l"
      by (auto simp: score_into_def split: option.splits)
    with False show ?thesis by (simp add: Cons.IH)
  qed
qed simp

lemma by_language_get:
  "btree_get (live_precision_sample_by_language g) l =
     (if language_claims g l = [] then None else Some (fold (score g) (language_claims g l) no_claims))"
  by (simp add: live_precision_sample_by_language_def score_into_get language_claims_def conj_commute)

lemma score_claims: "live_claims (fold (score g) rs p) = live_claims p + length rs"
  by (induction rs arbitrary: p) (simp_all add: score_def live_claims_def)

lemma language_member:
  "distinct (node_ids (gt_nodes g)) \<Longrightarrow>
     i \<in> set (language_ids ls (gt_nodes g)) \<longleftrightarrow>
       (\<exists>n. row_at gn_id i (gt_nodes g) = Some n \<and> vn_language (gn_vname n) \<in> set ls)"
  unfolding node_ids_def by (auto simp: language_ids_def row_at_mem dest: row_at_Some)

text \<open>
  A claim is scored in one commit only. After the claims of the ratified languages are consumed, the meter has
  no reading for them and the reading it had for every other language.
\<close>

lemma claims_scored_once:
  assumes "distinct (node_ids (gt_nodes g))"
  shows "btree_get (live_precision_sample_by_language (snd (consume_measured_ref_resolutions languages g))) l =
    (if l \<in> set languages then None else btree_get (live_precision_sample_by_language g) l)"
proof (cases "languages = []")
  case True
  then show ?thesis by (simp add: consume_measured_ref_resolutions_def)
next
  case False
  define gone where "gone r \<longleftrightarrow> is_claim r \<and> rr_src r \<in> set (language_ids languages (gt_nodes g))" for r
  let ?g' = "g\<lparr>gt_refs := filter (\<lambda>r. \<not> gone r) (gt_refs g)\<rparr>"
  have g': "snd (consume_measured_ref_resolutions languages g) = ?g'"
    using False by (simp add: consume_measured_ref_resolutions_def gone_def)
  have evidence: "site_for_ref ?g' = site_for_ref g" "edge_at_site ?g' = edge_at_site g"
    by (simp_all add: site_for_ref_def edge_at_site_def fun_eq_iff split: option.split)
  have same: "claim_language ?g' = claim_language g" "score ?g' = score g"
    by (simp_all add: claim_language_def score_def evidence fun_eq_iff)
  have gone: "gone r \<longleftrightarrow> l \<in> set languages" if "is_claim r" "claim_language g r = Some l" for r
    using that language_member[OF assms] by (auto simp: gone_def claim_language_def)
  have left: "language_claims ?g' l = (if l \<in> set languages then [] else language_claims g l)"
  proof (cases "l \<in> set languages")
    case True
    with gone show ?thesis by (auto simp: language_claims_def same filter_empty_conv)
  next
    case False
    then have "filter (\<lambda>r. is_claim r \<and> claim_language g r = Some l) (filter (\<lambda>r. \<not> gone r) rs) =
        filter (\<lambda>r. is_claim r \<and> claim_language g r = Some l) rs" for rs
      by (induction rs) (auto simp: gone)
    with False show ?thesis by (simp add: language_claims_def same)
  qed
  show ?thesis unfolding g' by_language_get left same by simp
qed

text \<open>
  The three buckets of a language count each of its claims once: a claim is unverifiable without a site for its
  name, agrees when the compiler run has its target at its place and an edge to it, and disagrees otherwise.
\<close>

lemma meter_counts_claims:
  assumes "btree_get (live_precision_sample_by_language g) l = Some p"
  shows "lp_unverifiable p = length (filter (\<lambda>r. \<not> site_for_ref g r) (language_claims g l))"
    "lp_agree p = length (filter (\<lambda>r. site_for_ref g r \<and> edge_at_site g r) (language_claims g l))"
    "lp_disagree p = length (filter (\<lambda>r. site_for_ref g r \<and> \<not> edge_at_site g r) (language_claims g l))"
    "live_claims p = length (language_claims g l) \<and> 0 < live_claims p"
proof -
  from assms have p: "p = fold (score g) (language_claims g l) no_claims" "language_claims g l \<noteq> []"
    by (simp_all add: by_language_get split: if_splits)
  have "lp_unverifiable (fold (score g) rs q) = lp_unverifiable q + length (filter (\<lambda>r. \<not> site_for_ref g r) rs)
    \<and> lp_agree (fold (score g) rs q) = lp_agree q + length (filter (\<lambda>r. site_for_ref g r \<and> edge_at_site g r) rs)
    \<and> lp_disagree (fold (score g) rs q) = lp_disagree q + length (filter (\<lambda>r. site_for_ref g r \<and> \<not> edge_at_site g r) rs)" for rs q
    by (induction rs arbitrary: q) (simp_all add: score_def)
  from this[of "language_claims g l" no_claims] show
    "lp_unverifiable p = length (filter (\<lambda>r. \<not> site_for_ref g r) (language_claims g l))"
    "lp_agree p = length (filter (\<lambda>r. site_for_ref g r \<and> edge_at_site g r) (language_claims g l))"
    "lp_disagree p = length (filter (\<lambda>r. site_for_ref g r \<and> \<not> edge_at_site g r) (language_claims g l))"
    by (simp_all add: p(1) no_claims_def)
  from p show "live_claims p = length (language_claims g l) \<and> 0 < live_claims p"
    by (simp add: score_claims) (simp add: live_claims_def no_claims_def)
qed

subsection \<open>The files a save can restore: exactness\<close>

definition restores :: "(string \<Rightarrow> string list) \<Rightarrow> string \<Rightarrow> string \<Rightarrow> bool" where
  "restores imported path dep \<longleftrightarrow> imported dep = [] \<or> path \<in> set (imported dep)"

text \<open>The rows that name a leaf, each file at its first one.\<close>

fun first_files :: "string list \<Rightarrow> (string \<times> string) list \<Rightarrow> string list \<Rightarrow> string list" where
  "first_files leaves [] seen = []"
| "first_files leaves ((dep, name) # rows) seen =
     (if name \<notin> set leaves \<or> dep \<in> set seen then first_files leaves rows seen
      else dep # first_files leaves rows (dep # seen))"

lemma scan_dependents_take:
  "length out < max 1 most \<Longrightarrow>
     scan_dependents imported leaves path most rows seen out =
       out @ take (max 1 most - length out) (filter (restores imported path) (first_files leaves rows seen))"
proof (induction imported leaves path most rows seen out rule: scan_dependents.induct)
  case (2 imported leaves path most dep name rows seen out)
  show ?case
  proof (cases "name \<notin> set leaves \<or> dep \<in> set seen")
    case True
    with "2.IH"(1) "2.prems" show ?thesis by simp
  next
    case new: False
    show ?thesis
    proof (cases "imported dep = [] \<or> path \<in> set (imported dep)")
      case True
      then have r: "restores imported path dep" by (simp add: restores_def)
      show ?thesis
      proof (cases "most \<le> length (out @ [dep])")
        case True
        with "2.prems" have "max 1 most - length out = 1" by (simp add: max_def split: if_splits)
        with new r True \<open>imported dep = [] \<or> path \<in> set (imported dep)\<close> show ?thesis by simp
      next
        case False
        then have less: "length (out @ [dep]) < max 1 most" by simp
        then have "max 1 most - length out = Suc (max 1 most - length (out @ [dep]))" by simp
        with "2.IH"(2)[OF new \<open>imported dep = [] \<or> path \<in> set (imported dep)\<close> False less] new r False
          \<open>imported dep = [] \<or> path \<in> set (imported dep)\<close> show ?thesis by simp
      qed
    next
      case False
      then have "\<not> restores imported path dep" by (simp add: restores_def)
      with "2.IH"(3)[OF new False "2.prems"] new False show ?thesis by simp
    qed
  qed
qed simp

lemma first_files_set:
  "set (first_files leaves rows seen) = {dep. dep \<notin> set seen \<and> (\<exists>name\<in>set leaves. (dep, name) \<in> set rows)}"
  by (induction leaves rows seen rule: first_files.induct) auto

lemma first_files_sorted:
  "sorted (map fst rows) \<Longrightarrow> sorted (first_files leaves rows seen) \<and> distinct (first_files leaves rows seen)"
proof (induction leaves rows seen rule: first_files.induct)
  case (2 leaves dep name rows seen)
  then show ?case by (auto simp: first_files_set)
qed simp

text \<open>
  The files asked for beside a saved one are, in order of path and up to the cap, those of its language and
  corpus that hold a pending reference naming a definition of the saved file and whose resolved imports, if any,
  include it. A cap of zero still lets one file through.
\<close>

lemma dependents_exact:
  "dependents_pending_on_file g corpus path language most =
     take (max 1 most) (sorted_list_of_set
       {dep. (\<exists>name\<in>set (def_leaves g corpus path language). (dep, name) \<in> set (waiting_refs g corpus path language))
             \<and> restores (imported_files g corpus) path dep})"
proof -
  let ?leaves = "def_leaves g corpus path language" and ?rows = "waiting_refs g corpus path language"
  let ?files = "filter (restores (imported_files g corpus) path) (first_files ?leaves ?rows [])"
  have sorted: "sorted (map fst ?rows)" unfolding waiting_refs_def by (rule sorted_sort_key)
  have files: "sorted ?files" "distinct ?files" using first_files_sorted[OF sorted] by (auto simp: sorted_wrt_filter)
  have set: "set ?files = {dep. (\<exists>name\<in>set ?leaves. (dep, name) \<in> set ?rows) \<and> restores (imported_files g corpus) path dep}"
    by (auto simp: first_files_set)
  have "sorted_list_of_set (set ?files) = ?files"
    using files by (rule sorted_list_of_set.idem_if_sorted_distinct)
  then have list: "sorted_list_of_set {dep. (\<exists>name\<in>set ?leaves. (dep, name) \<in> set ?rows)
      \<and> restores (imported_files g corpus) path dep} = ?files" unfolding set .
  show ?thesis
  proof (cases "?leaves = []")
    case True
    then show ?thesis by (simp add: dependents_pending_on_file_def)
  next
    case False
    have zero: "length [] < max 1 most" by simp
    from False show ?thesis
      unfolding dependents_pending_on_file_def Let_def list
      by (simp add: scan_dependents_take[OF zero])
  qed
qed

subsection \<open>Counts\<close>

text \<open>Uncut, the counts by file add up to the count of the repository.\<close>

lemma sum_list_count:
  "sum_list (map snd (sort_key f (map (\<lambda>p. (p, count_list ps p)) (sort (remdups ps))))) = length ps"
proof -
  let ?counts = "map (\<lambda>p. (p, count_list ps p)) (sort (remdups ps))"
  have "mset (map snd (sort_key f ?counts)) = mset (map snd ?counts)" by (simp only: mset_map mset_sort)
  then have "sum_list (map snd (sort_key f ?counts)) = sum_list (map snd ?counts)" by (metis sum_mset_sum_list)
  also have "\<dots> = sum_list (map (count_list ps) (sort (remdups ps)))" by (simp add: comp_def)
  also have "\<dots> = (\<Sum>p\<in>set ps. count_list ps p)" by (simp add: sum_list_distinct_conv_sum_set)
  also have "\<dots> = length ps" by (rule sum_count_set) simp_all
  finally show ?thesis .
qed

lemma pending_counts_add_up:
  assumes "length (refs_with_source g Pending) \<le> most"
  shows "sum_list (map snd (pending_ref_counts_by_file g most)) = pending_ref_count g"
proof -
  define ps where "ps = map (\<lambda>(n, _). vn_path (gn_vname n)) (refs_with_source g Pending)"
  have "length (remdups ps) \<le> most" using assms length_remdups_leq[of ps] by (simp add: ps_def)
  then have "pending_ref_counts_by_file g most = sort_key (\<lambda>(_, c). - int c) (map (\<lambda>p. (p, count_list ps p)) (sort (remdups ps)))"
    unfolding pending_ref_counts_by_file_def Let_def ps_def[symmetric] by simp
  then show ?thesis by (simp only: sum_list_count) (simp add: ps_def pending_ref_count_def)
qed

subsection \<open>A scored table\<close>

definition scored_tables :: graph_tables where
  "scored_tables = demo_tables\<lparr>gt_refs :=
     [\<lparr>rr_src = 1, rr_line = 1, rr_col = 0, rr_name = ''h'', rr_state = Resolved, rr_dst = Some 3\<rparr>,
      \<lparr>rr_src = 2, rr_line = 2, rr_col = 0, rr_name = ''h'', rr_state = Resolved, rr_dst = Some 1\<rparr>,
      \<lparr>rr_src = 2, rr_line = 9, rr_col = 0, rr_name = ''h'', rr_state = Pending, rr_dst = None\<rparr>]\<rparr>"

lemma claims_scored_once_witness:
  "btree_get (live_precision_sample_by_language (snd (consume_measured_ref_resolutions [''python''] scored_tables))) ''python'' = None"
  by (subst claims_scored_once) (simp_all add: scored_tables_def demo_tables_def node_ids_def stamp_body_def demo_node_def)

lemma meter_counts_claims_witness:
  "let p = the (btree_get (live_precision_sample_by_language scored_tables) ''python'')
   in live_claims p = 2 \<and> lp_agree p = 1 \<and> lp_disagree p = 1"
proof -
  have "btree_get (live_precision_sample_by_language scored_tables) ''python'' \<noteq> None" by code_simp
  then have p: "btree_get (live_precision_sample_by_language scored_tables) ''python'' =
      Some (the (btree_get (live_precision_sample_by_language scored_tables) ''python''))" by simp
  have "length (language_claims scored_tables ''python'') = 2"
    "length (filter (\<lambda>r. site_for_ref scored_tables r \<and> edge_at_site scored_tables r) (language_claims scored_tables ''python'')) = 1"
    "length (filter (\<lambda>r. site_for_ref scored_tables r \<and> \<not> edge_at_site scored_tables r) (language_claims scored_tables ''python'')) = 1"
    by code_simp+
  with meter_counts_claims[OF p] show ?thesis unfolding Let_def by metis
qed

end
