(* ===== verification/Phase_B_Write.thy ===== *)
theory Phase_B_Write
  imports Overlay_State
begin

section \<open>What a compiler run writes\<close>

text \<open>
  \<open>write_phase_b_batch\<close> and \<open>write_scip_attributed_batch_keeping\<close> of \<open>crates/travsr-store/src/lib.rs\<close>: nodes
  under two uniqueness constraints, edges with both ends, and references attributed to the narrowest function
  around them. BLAKE3 is the argument \<open>blake\<close>; the full-text tables are left out.
\<close>

subsection \<open>Nodes\<close>

definition phase_b_merge :: "store_node \<Rightarrow> store_node \<Rightarrow> store_node" where
  "phase_b_merge old new =
     old\<lparr>gn_kind := gn_kind new, cn_line := or_else (cn_line new) (cn_line old),
        cn_end_line := or_else (cn_end_line new) (cn_end_line old)\<rparr>"

text \<open>A node whose name is held under another id is skipped.\<close>

definition put_phase_b_node :: "core_node \<Rightarrow> store_node list \<Rightarrow> store_node list" where
  "put_phase_b_node n rows =
     (if gn_id n \<in> set (node_ids rows) \<or> \<not> list_ex (\<lambda>old. gn_vname old = gn_vname n) rows
      then table_upsert gn_id phase_b_merge (stamp_body None (n\<lparr>cn_test_role := Role_None\<rparr>)) rows
      else rows)"

subsection \<open>Edges\<close>

text \<open>\<open>looked_up\<close> says whether the query for stored ends succeeded; without it every end counts as present.\<close>

definition write_phase_b_batch :: "bool \<Rightarrow> core_node list \<Rightarrow> stored_edge list \<Rightarrow> provenance \<Rightarrow> graph_tables \<Rightarrow> graph_tables" where
  "write_phase_b_batch looked_up nodes edges prov g =
     (if nodes = [] \<and> edges = [] then g
      else (let rows = fold put_phase_b_node nodes (gt_nodes g);
                endpoint_present = (\<lambda>i. i \<in> set (map gn_id nodes) \<or> \<not> looked_up \<or> i \<in> set (node_ids rows))
            in g\<lparr>gt_nodes := rows,
                 gt_edges := fold (put_edge_phase_b prov)
                   (filter (\<lambda>e. endpoint_present (er_src e) \<and> endpoint_present (er_dst e)) edges) (gt_edges g)\<rparr>))"

subsection \<open>Attributed references\<close>

record scip_ref =
  sc_path :: string
  sc_line :: nat
  sc_callee :: node_id
  sc_is_call :: bool
  sc_col :: "nat option"

type_synonym fn_span = "node_id \<times> nat \<times> nat"

definition fetch_all_fn_spans :: "string \<Rightarrow> string \<Rightarrow> store_node list \<Rightarrow> fn_span list" where
  "fetch_all_fn_spans corpus path nodes =
     map (\<lambda>n. (gn_id n, the (cn_line n), the (cn_end_line n)))
       (sort_key (\<lambda>n. int (the (cn_end_line n)) - int (the (cn_line n))) (sort_key (\<lambda>n. sint (gn_id n))
         (filter (\<lambda>n. of_file corpus path n \<and> gn_kind n \<in> {''function'', ''method'', ''fn''}
                     \<and> cn_line n \<noteq> None \<and> cn_end_line n \<noteq> None) nodes)))"

definition find_narrowest_enclosing :: "fn_span list \<Rightarrow> nat \<Rightarrow> node_id option" where
  "find_narrowest_enclosing spans line =
     map_option fst (find (\<lambda>(_, a, b). a \<le> line \<and> line \<le> b) spans)"

definition file_node_for_attribution :: "(string \<Rightarrow> string) \<Rightarrow> string \<Rightarrow> string \<Rightarrow> store_node list \<Rightarrow> node_id \<times> store_node list" where
  "file_node_for_attribution blake corpus path nodes =
     (case find (\<lambda>n. of_file corpus path n \<and> gn_kind n = ''file'') nodes of
        Some n \<Rightarrow> (gn_id n, nodes)
      | None \<Rightarrow>
          (let language = (case find (of_file corpus path) nodes of Some n \<Rightarrow> vn_language (gn_vname n) | None \<Rightarrow> []);
               v = \<lparr>vn_corpus = corpus, vn_root = [], vn_path = path, vn_language = language, vn_signature = ''file''\<rparr>;
               i = vname_id blake v
           in (i, if list_ex (\<lambda>n. gn_id n = i \<or> gn_vname n = v) nodes then nodes
                  else nodes @ [\<lparr>gn_id = i, gn_vname = v, gn_kind = ''file'', cn_line = None, cn_end_line = None,
                                 cn_test_role = Role_None, sn_body = None\<rparr>])))"

definition retract_file :: "string \<Rightarrow> string list \<Rightarrow> string \<Rightarrow> graph_tables \<Rightarrow> graph_tables" where
  "retract_file corpus keep path g =
     (if language_is_kept corpus path keep (gt_nodes g) then g
      else g\<lparr>gt_sites := filter (\<lambda>s. sr_src s \<notin> set (file_ids corpus path (gt_nodes g))) (gt_sites g),
             gt_edges := filter (\<lambda>e. \<not> (er_prov e = Scip \<and> er_kind e \<in> {RefCall, RefField}
                \<and> er_src e \<in> set (file_ids corpus path (gt_nodes g)))) (gt_edges g)\<rparr>)"

definition attribute_caller :: "(string \<Rightarrow> string) \<Rightarrow> string \<Rightarrow> (string \<Rightarrow> fn_span list) \<Rightarrow> scip_ref \<Rightarrow> store_node list
    \<Rightarrow> node_id \<times> store_node list" where
  "attribute_caller blake corpus spans r nodes =
     (case find_narrowest_enclosing (spans (sc_path r)) (sc_line r) of
        Some i \<Rightarrow> (i, nodes)
      | None \<Rightarrow> file_node_for_attribution blake corpus (sc_path r) nodes)"

definition record_reference :: "node_id \<Rightarrow> string \<Rightarrow> scip_ref \<Rightarrow> graph_tables \<Rightarrow> graph_tables" where
  "record_reference caller callee_kind r g =
     (let kind = (if callee_kind = ''field'' then RefField else RefCall)
      in g\<lparr>gt_edges := (if callee_kind = ''field'' \<or> sc_is_call r then put_edge_scip caller (sc_callee r) kind (gt_edges g)
                       else gt_edges g),
           gt_sites := put_site \<lparr>sr_src = caller, sr_dst = sc_callee r, sr_kind = kind, sr_line = sc_line r, sr_col = sc_col r\<rparr>
             (gt_sites g)\<rparr>)"

text \<open>A self reference and a callee without a node are dropped.\<close>

definition write_reference :: "(string \<Rightarrow> string) \<Rightarrow> string \<Rightarrow> (string \<Rightarrow> fn_span list) \<Rightarrow> scip_ref \<Rightarrow> graph_tables \<Rightarrow> graph_tables" where
  "write_reference blake corpus spans r g =
     (let (caller, nodes) = attribute_caller blake corpus spans r (gt_nodes g); g' = g\<lparr>gt_nodes := nodes\<rparr>
      in if caller = sc_callee r then g'
         else case row_at gn_id (sc_callee r) nodes of
                None \<Rightarrow> g'
              | Some d \<Rightarrow> record_reference caller (gn_kind d) r g')"

definition write_scip_attributed_batch_keeping :: "(string \<Rightarrow> string) \<Rightarrow> string \<Rightarrow> core_node list \<Rightarrow> scip_ref list \<Rightarrow> string list
    \<Rightarrow> graph_tables \<Rightarrow> graph_tables" where
  "write_scip_attributed_batch_keeping blake corpus nodes refs keep g =
     (if nodes = [] \<and> refs = [] then g
      else (let g1 = g\<lparr>gt_nodes := fold put_phase_b_node nodes (gt_nodes g)\<rparr>;
                spans = (\<lambda>path. fetch_all_fn_spans corpus path (gt_nodes g1));
                g2 = fold (retract_file corpus keep) (remdups (map sc_path refs)) g1
            in fold (write_reference blake corpus spans) refs g2))"

definition write_scip_attributed_batch :: "(string \<Rightarrow> string) \<Rightarrow> string \<Rightarrow> core_node list \<Rightarrow> scip_ref list \<Rightarrow> graph_tables
    \<Rightarrow> graph_tables" where
  "write_scip_attributed_batch blake corpus nodes refs = write_scip_attributed_batch_keeping blake corpus nodes refs []"

definition count_self_ref_call_edges :: "graph_tables \<Rightarrow> nat" where
  "count_self_ref_call_edges g = length (filter (\<lambda>e. er_kind e = RefCall \<and> er_src e = er_dst e) (gt_edges g))"

subsection \<open>Nodes only grow\<close>

lemma row_at_append:
  "row_at key k (xs @ ys) = (case row_at key k xs of Some r \<Rightarrow> Some r | None \<Rightarrow> row_at key k ys)"
  by (induction xs) auto

interpretation node_phase_b: keyed_upsert gn_id phase_b_merge
  by unfold_locales (simp add: phase_b_merge_def)

lemma stamp_body_fields [simp]: "gn_id (stamp_body h n) = gn_id n" "gn_vname (stamp_body h n) = gn_vname n"
  by (simp_all add: stamp_body_def)

lemma set_node_ids: "set (node_ids rows) = gn_id ` set rows"
  by (simp add: node_ids_def)

lemma put_phase_b_node_ids:
  "set (node_ids rows) \<subseteq> set (node_ids (put_phase_b_node n rows))"
  "\<not> list_ex (\<lambda>old. gn_vname old = gn_vname n \<and> gn_id old \<noteq> gn_id n) rows \<Longrightarrow> gn_id n \<in> set (node_ids (put_phase_b_node n rows))"
proof -
  show "set (node_ids rows) \<subseteq> set (node_ids (put_phase_b_node n rows))"
    unfolding put_phase_b_node_def set_node_ids by (simp add: node_phase_b.key_set subset_insertI)
  assume no: "\<not> list_ex (\<lambda>old. gn_vname old = gn_vname n \<and> gn_id old \<noteq> gn_id n) rows"
  then have "gn_id n \<in> set (node_ids rows) \<or> \<not> list_ex (\<lambda>old. gn_vname old = gn_vname n) rows"
    by (metis (mono_tags, lifting) imageI list_ex_iff set_node_ids)
  then show "gn_id n \<in> set (node_ids (put_phase_b_node n rows))"
    unfolding put_phase_b_node_def by (simp add: set_node_ids node_phase_b.key_set)
qed

lemma put_phase_b_nodes_ids: "set (node_ids rows) \<subseteq> set (node_ids (fold put_phase_b_node ns rows))"
proof (induction ns arbitrary: rows)
  case (Cons n ns)
  show ?case using put_phase_b_node_ids(1)[of rows n] Cons[of "put_phase_b_node n rows"] by auto
qed simp

definition id_and_name :: "store_node \<Rightarrow> node_id \<times> vname" where
  "id_and_name n = (gn_id n, gn_vname n)"

lemma put_phase_b_node_names:
  "id_and_name ` set (put_phase_b_node n rows) \<subseteq> insert (gn_id n, gn_vname n) (id_and_name ` set rows)"
proof -
  have "id_and_name (phase_b_merge old new) = id_and_name old" for old new
    by (simp add: phase_b_merge_def id_and_name_def)
  then have "id_and_name ` set (table_upsert gn_id phase_b_merge (stamp_body None (n\<lparr>cn_test_role := Role_None\<rparr>)) rows)
      \<subseteq> insert (id_and_name (stamp_body None (n\<lparr>cn_test_role := Role_None\<rparr>))) (id_and_name ` set rows)"
    by (rule upsert_image)
  then show ?thesis unfolding put_phase_b_node_def by (auto simp: id_and_name_def)
qed

text \<open>A batch whose nodes are named consistently, with each other and with the table.\<close>

definition names_of :: "core_node list \<Rightarrow> (node_id \<times> vname) set" where
  "names_of ns = (\<lambda>m. (gn_id m, gn_vname m)) ` set ns"

definition one_id_per_name :: "core_node list \<Rightarrow> store_node list \<Rightarrow> bool" where
  "one_id_per_name ns rows \<longleftrightarrow>
     (\<forall>n\<in>set ns. \<forall>(i, v)\<in>names_of ns \<union> id_and_name ` set rows. v = gn_vname n \<longrightarrow> i = gn_id n)"

lemma put_phase_b_nodes_all:
  "one_id_per_name ns rows \<Longrightarrow> gn_id ` set ns \<subseteq> set (node_ids (fold put_phase_b_node ns rows))"
proof (induction ns arbitrary: rows)
  case (Cons n ns)
  have "\<not> list_ex (\<lambda>old. gn_vname old = gn_vname n \<and> gn_id old \<noteq> gn_id n) rows"
    using Cons.prems by (auto simp: one_id_per_name_def id_and_name_def list_ex_iff)
  then have head: "gn_id n \<in> set (node_ids (put_phase_b_node n rows))" by (rule put_phase_b_node_ids(2))
  have "names_of ns \<union> id_and_name ` set (put_phase_b_node n rows) \<subseteq> names_of (n # ns) \<union> id_and_name ` set rows"
    using put_phase_b_node_names[of n rows] by (auto simp: names_of_def)
  with Cons.prems have "one_id_per_name ns (put_phase_b_node n rows)"
    unfolding one_id_per_name_def by (meson list.set_intros(2) subsetD)
  from Cons.IH[OF this] head put_phase_b_nodes_ids[of "put_phase_b_node n rows" ns] show ?case by auto
qed simp

subsection \<open>No half edge\<close>

lemma put_edges_phase_b_keys:
  "edge_key ` set (fold (put_edge_phase_b p) xs es) = edge_key ` set xs \<union> edge_key ` set es"
proof (induction xs arbitrary: es)
  case (Cons x xs)
  have "edge_key ` set (put_edge_phase_b p x es) = insert (edge_key x) (edge_key ` set es)"
    unfolding put_edge_phase_b_def edge_phase_b.key_set by simp
  with Cons[of "put_edge_phase_b p x es"] show ?case by simp
qed simp

definition orphan_keys :: "graph_tables \<Rightarrow> (node_id \<times> node_id \<times> edge_kind) set" where
  "orphan_keys g = edge_key ` {e \<in> set (gt_edges g). is_orphan g e}"

lemma orphan_keys_eq:
  "orphan_keys g = {(s, d, k) \<in> edge_key ` set (gt_edges g). s \<notin> set (node_ids (gt_nodes g)) \<or> d \<notin> set (node_ids (gt_nodes g))}"
  by (auto simp: orphan_keys_def is_orphan_def image_iff)

text \<open>
  C40: A compiler run whose nodes carry the ids the table knows their names by leaves no new edge without both
  ends, whatever edges it was given.
\<close>

theorem phase_b_no_half_edge:
  assumes "one_id_per_name nodes (gt_nodes g)"
  shows "orphan_keys (write_phase_b_batch True nodes edges prov g) \<subseteq> orphan_keys g"
proof (cases "nodes = [] \<and> edges = []")
  case True
  then show ?thesis by (simp add: write_phase_b_batch_def)
next
  case False
  define rows where "rows = fold put_phase_b_node nodes (gt_nodes g)"
  define kept where "kept = filter (\<lambda>e. (er_src e \<in> set (map gn_id nodes) \<or> er_src e \<in> set (node_ids rows))
    \<and> (er_dst e \<in> set (map gn_id nodes) \<or> er_dst e \<in> set (node_ids rows))) edges"
  have g': "write_phase_b_batch True nodes edges prov g = g\<lparr>gt_nodes := rows, gt_edges := fold (put_edge_phase_b prov) kept (gt_edges g)\<rparr>"
    using False by (auto simp: write_phase_b_batch_def rows_def kept_def Let_def)
  have all_in: "gn_id ` set nodes \<subseteq> set (node_ids rows)" unfolding rows_def by (rule put_phase_b_nodes_all[OF assms])
  have grow: "set (node_ids (gt_nodes g)) \<subseteq> set (node_ids rows)" unfolding rows_def by (rule put_phase_b_nodes_ids)
  have "er_src e \<in> set (node_ids rows) \<and> er_dst e \<in> set (node_ids rows)" if "e \<in> set kept" for e
    using that all_in by (auto simp: kept_def)
  with grow show ?thesis unfolding g' orphan_keys_eq by (auto simp: put_edges_phase_b_keys)
qed

text \<open>
  A node of the batch that was skipped, because its name is held under another id, still counts as a present end:
  the edge to it is written although no such node exists.
\<close>

lemma skipped_node_half_edge:
  "let g = demo_tables\<lparr>gt_edges := []\<rparr>; n = (demo_node 1 ''a.py'' ''f'' 1)\<lparr>gn_id := 9\<rparr>
   in orphan_keys (write_phase_b_batch True [n] [demo_edge Lsif 3 9] Lsif g) = {(3, 9, RefCall)} \<and> orphan_keys g = {}"
proof -
  let ?g = "demo_tables\<lparr>gt_edges := []\<rparr>" and ?n = "(demo_node 1 ''a.py'' ''f'' 1)\<lparr>gn_id := 9\<rparr>"
  have "gt_edges (write_phase_b_batch True [?n] [demo_edge Lsif 3 9] Lsif ?g) = [demo_edge Lsif 3 9]"
    "node_ids (gt_nodes (write_phase_b_batch True [?n] [demo_edge Lsif 3 9] Lsif ?g)) = [1, 2, 3]" by code_simp+
  then show ?thesis unfolding Let_def orphan_keys_eq by (auto simp: demo_edge_def)
qed

theorem phase_b_no_half_edge_witness:
  "orphan_keys (write_phase_b_batch True [demo_node 4 ''c.py'' ''k'' 1] [demo_edge Lsif 3 4, demo_edge Lsif 3 9] Lsif
     (demo_tables\<lparr>gt_edges := []\<rparr>)) = {}"
proof -
  have "one_id_per_name [demo_node 4 ''c.py'' ''k'' 1] (gt_nodes (demo_tables\<lparr>gt_edges := []\<rparr>))"
    by (simp add: one_id_per_name_def names_of_def id_and_name_def demo_tables_def demo_node_def)
  from phase_b_no_half_edge[OF this] show ?thesis by (auto simp: orphan_keys_def)
qed

subsection \<open>Attribution\<close>

definition encloses :: "string \<Rightarrow> string \<Rightarrow> nat \<Rightarrow> store_node \<Rightarrow> bool" where
  "encloses corpus path line n \<longleftrightarrow>
     of_file corpus path n \<and> gn_kind n \<in> {''function'', ''method'', ''fn''}
     \<and> (case (cn_line n, cn_end_line n) of (Some a, Some b) \<Rightarrow> a \<le> line \<and> line \<le> b | _ \<Rightarrow> False)"

definition node_width :: "store_node \<Rightarrow> int" where
  "node_width n = int (the (cn_end_line n)) - int (the (cn_line n))"

lemma find_sorted_least:
  "sorted (map f xs) \<Longrightarrow> find P xs = Some x \<Longrightarrow> P x \<and> x \<in> set xs \<and> (\<forall>y\<in>set xs. P y \<longrightarrow> f x \<le> f y)"
  by (induction xs) (auto split: if_splits)

lemma narrowest_enclosing:
  "(\<exists>n\<in>set nodes. encloses corpus path line n \<and> gn_id n = i \<and> (\<forall>m\<in>set nodes. encloses corpus path line m \<longrightarrow> node_width n \<le> node_width m))"
  if found: "find_narrowest_enclosing (fetch_all_fn_spans corpus path nodes) line = Some i"
proof -
  let ?fns = "sort_key node_width (sort_key (\<lambda>n. sint (gn_id n)) (filter (\<lambda>n. of_file corpus path n
    \<and> gn_kind n \<in> {''function'', ''method'', ''fn''} \<and> cn_line n \<noteq> None \<and> cn_end_line n \<noteq> None) nodes))"
  have spans: "fetch_all_fn_spans corpus path nodes = map (\<lambda>n. (gn_id n, the (cn_line n), the (cn_end_line n))) ?fns"
    unfolding fetch_all_fn_spans_def node_width_def by (rule refl)
  define P where "P = ((\<lambda>(_, a, b). a \<le> line \<and> line \<le> b) \<circ> (\<lambda>n::store_node. (gn_id n, the (cn_line n), the (cn_end_line n))))"
  have found_map: "find Q (map f xs) = map_option f (find (Q \<circ> f) xs)" for Q and f :: "store_node \<Rightarrow> fn_span" and xs
    by (induction xs) auto
  from found obtain n where n: "find P ?fns = Some n" "gn_id n = i"
    by (auto simp: find_narrowest_enclosing_def spans found_map P_def)
  from find_sorted_least[OF sorted_sort_key n(1)]
  have least: "P n" "n \<in> set ?fns" "\<forall>m\<in>set ?fns. P m \<longrightarrow> node_width n \<le> node_width m" by auto
  have iff: "m \<in> set ?fns \<and> P m \<longleftrightarrow> m \<in> set nodes \<and> encloses corpus path line m" for m
    by (auto simp: encloses_def P_def split: option.splits)
  show ?thesis using least n(2) iff by blast
qed

lemma file_node_other:
  "file_node_for_attribution blake corpus path nodes = (i, nodes') \<Longrightarrow>
     \<exists>extra. nodes' = nodes @ extra \<and> list_all (\<lambda>n. gn_kind n = ''file'' \<and> gn_id n = i \<and> of_file corpus path n) extra"
  by (auto simp: file_node_for_attribution_def Let_def of_file_def split: option.splits if_splits)

lemma find_append: "find P (xs @ ys) = (case find P xs of Some x \<Rightarrow> Some x | None \<Rightarrow> find P ys)"
  by (induction xs) auto

text \<open>Adding the file node of one path changes the file node of no path.\<close>

lemma file_node_stable:
  assumes "file_node_for_attribution blake corpus path nodes = (i, nodes')"
  shows "fst (file_node_for_attribution blake corpus q nodes') = fst (file_node_for_attribution blake corpus q nodes)"
proof -
  from file_node_other[OF assms] obtain extra where extra: "nodes' = nodes @ extra"
    "list_all (\<lambda>n. gn_kind n = ''file'' \<and> gn_id n = i \<and> of_file corpus path n) extra" by blast
  show ?thesis
  proof (cases "q = path")
    case True
    show ?thesis
    proof (cases "extra = []")
      case False
      then obtain n ns where e: "extra = n # ns" by (cases extra) auto
      with extra(2) have n: "of_file corpus path n" "gn_kind n = ''file''" "gn_id n = i" by simp_all
      have "find (\<lambda>n. of_file corpus path n \<and> gn_kind n = ''file'') extra = Some n" unfolding e by (simp add: n)
      moreover have "fst (file_node_for_attribution blake corpus path nodes) = i" using assms by simp
      ultimately show ?thesis
        using True assms by (auto simp: extra(1) file_node_for_attribution_def find_append n(3) Let_def split: option.splits)
    qed (simp add: extra(1))
  next
    case False
    with extra(2) have none: "\<not> of_file corpus q n" if "n \<in> set extra" for n
      using that by (auto simp: list_all_iff of_file_def)
    then have "find (\<lambda>n. of_file corpus q n \<and> gn_kind n = ''file'') extra = None" "find (of_file corpus q) extra = None"
      by (auto simp: find_None_iff)
    then show ?thesis
      by (auto simp: extra(1) file_node_for_attribution_def find_append Let_def split: option.splits)
  qed
qed

text \<open>The caller of a reference, by the nodes the batch started from.\<close>

definition attributed :: "(string \<Rightarrow> string) \<Rightarrow> string \<Rightarrow> store_node list \<Rightarrow> scip_ref \<Rightarrow> node_id" where
  "attributed blake corpus nodes r =
     fst (attribute_caller blake corpus (\<lambda>path. fetch_all_fn_spans corpus path nodes) r nodes)"

text \<open>The node table during the batch: the first one with file nodes added.\<close>

definition grown :: "(string \<Rightarrow> string) \<Rightarrow> string \<Rightarrow> store_node list \<Rightarrow> store_node list \<Rightarrow> bool" where
  "grown blake corpus nodes rows \<longleftrightarrow>
     (\<exists>extra. rows = nodes @ extra)
     \<and> (\<forall>q. fst (file_node_for_attribution blake corpus q rows) = fst (file_node_for_attribution blake corpus q nodes))"

lemma grown_caller:
  assumes "grown blake corpus nodes rows"
    "attribute_caller blake corpus (\<lambda>path. fetch_all_fn_spans corpus path nodes) r rows = (i, rows')"
  shows "i = attributed blake corpus nodes r" "grown blake corpus nodes rows'"
proof -
  have "i = attributed blake corpus nodes r \<and> grown blake corpus nodes rows'"
  proof (cases "find_narrowest_enclosing (fetch_all_fn_spans corpus (sc_path r) nodes) (sc_line r)")
    case None
    with assms(2) have f: "file_node_for_attribution blake corpus (sc_path r) rows = (i, rows')"
      by (simp add: attribute_caller_def)
    from assms(1) f have "i = fst (file_node_for_attribution blake corpus (sc_path r) nodes)"
      by (metis grown_def fst_conv)
    moreover from file_node_other[OF f] assms(1) have "grown blake corpus nodes rows'"
      using file_node_stable[OF f] by (auto simp: grown_def)
    ultimately show ?thesis using None by (simp add: attributed_def attribute_caller_def)
  next
    case (Some j)
    with assms show ?thesis by (simp add: attributed_def attribute_caller_def)
  qed
  then show "i = attributed blake corpus nodes r" "grown blake corpus nodes rows'" by auto
qed

subsection \<open>A batch is the whole of its files\<close>

definition is_scip_ref :: "stored_edge \<Rightarrow> bool" where
  "is_scip_ref e \<longleftrightarrow> er_prov e = Scip \<and> er_kind e \<in> {RefCall, RefField}"

text \<open>The definitions of the files a batch carries references of and does not keep.\<close>

definition carried_ids :: "string \<Rightarrow> string list \<Rightarrow> scip_ref list \<Rightarrow> store_node list \<Rightarrow> node_id set" where
  "carried_ids corpus keep refs nodes =
     \<Union>{set (file_ids corpus p nodes) | p. p \<in> sc_path ` set refs \<and> \<not> language_is_kept corpus p keep nodes}"

definition reference_kind :: "store_node \<Rightarrow> edge_kind" where
  "reference_kind d = (if gn_kind d = ''field'' then RefField else RefCall)"

text \<open>A reference of the batch stands behind an edge or an occurrence, whose target is stored.\<close>

definition reported :: "(string \<Rightarrow> string) \<Rightarrow> string \<Rightarrow> store_node list \<Rightarrow> scip_ref list \<Rightarrow> store_node list
    \<Rightarrow> node_id \<Rightarrow> node_id \<Rightarrow> edge_kind \<Rightarrow> (scip_ref \<Rightarrow> bool) \<Rightarrow> bool" where
  "reported blake corpus nodes refs rows s d k Q \<longleftrightarrow>
     (\<exists>r\<in>set refs. s = attributed blake corpus nodes r \<and> d = sc_callee r \<and> s \<noteq> d \<and> Q r
        \<and> (\<exists>n. row_at gn_id d rows = Some n \<and> k = reference_kind n))"

lemma retract_nodes: "gt_nodes (retract_file corpus keep p g) = gt_nodes g"
  by (cases "language_is_kept corpus p keep (gt_nodes g)") (simp_all add: retract_file_def)

lemma retract_files:
  "gt_nodes (fold (retract_file corpus keep) ps g) = gt_nodes g"
  "e \<in> set (gt_edges (fold (retract_file corpus keep) ps g)) \<longleftrightarrow> e \<in> set (gt_edges g)
     \<and> \<not> (is_scip_ref e \<and> (\<exists>p\<in>set ps. \<not> language_is_kept corpus p keep (gt_nodes g) \<and> er_src e \<in> set (file_ids corpus p (gt_nodes g))))"
  "s \<in> set (gt_sites (fold (retract_file corpus keep) ps g)) \<longleftrightarrow> s \<in> set (gt_sites g)
     \<and> \<not> (\<exists>p\<in>set ps. \<not> language_is_kept corpus p keep (gt_nodes g) \<and> sr_src s \<in> set (file_ids corpus p (gt_nodes g)))"
proof (induction ps arbitrary: g)
  case (Cons p ps)
  note n = retract_nodes
  { case 1 then show ?case by (simp add: Cons.IH(1) n) }
  { case 2
    have "e \<in> set (gt_edges (retract_file corpus keep p g)) \<longleftrightarrow> e \<in> set (gt_edges g)
        \<and> \<not> (is_scip_ref e \<and> \<not> language_is_kept corpus p keep (gt_nodes g) \<and> er_src e \<in> set (file_ids corpus p (gt_nodes g)))"
      by (auto simp: retract_file_def is_scip_ref_def)
    then show ?case by (simp add: Cons.IH(2) n) blast }
  { case 3
    have "s \<in> set (gt_sites (retract_file corpus keep p g)) \<longleftrightarrow> s \<in> set (gt_sites g)
        \<and> \<not> (\<not> language_is_kept corpus p keep (gt_nodes g) \<and> sr_src s \<in> set (file_ids corpus p (gt_nodes g)))"
      by (auto simp: retract_file_def)
    then show ?case by (simp add: Cons.IH(3) n) }
qed simp_all

lemma put_edge_scip_mem:
  "e \<in> set (put_edge_scip s d k es) \<Longrightarrow> e \<in> set es \<or> edge_key e = (s, d, k)"
  by (auto simp: put_edge_scip_def table_upsert_def split: if_splits)

lemma put_site_mem:
  "x \<in> set (put_site y ss) \<Longrightarrow> x \<in> set ss \<or> site_key x = site_key y"
  by (auto simp: put_site_def table_upsert_def split: if_splits)

text \<open>The invariant of the loop over the references.\<close>

definition batch_inv :: "(string \<Rightarrow> string) \<Rightarrow> string \<Rightarrow> store_node list \<Rightarrow> scip_ref list \<Rightarrow> node_id set \<Rightarrow> graph_tables \<Rightarrow> bool" where
  "batch_inv blake corpus nodes refs C g \<longleftrightarrow>
     grown blake corpus nodes (gt_nodes g)
     \<and> (\<forall>e\<in>set (gt_edges g). is_scip_ref e \<and> er_src e \<in> C \<longrightarrow>
          reported blake corpus nodes refs (gt_nodes g) (er_src e) (er_dst e) (er_kind e) (\<lambda>r. sc_is_call r \<or> er_kind e = RefField))
     \<and> (\<forall>s\<in>set (gt_sites g). sr_src s \<in> C \<longrightarrow>
          reported blake corpus nodes refs (gt_nodes g) (sr_src s) (sr_dst s) (sr_kind s) (\<lambda>r. sc_line r = sr_line s))"

lemma reported_grows:
  "reported blake corpus nodes refs rows s d k Q \<Longrightarrow> reported blake corpus nodes refs (rows @ extra) s d k Q"
  unfolding reported_def by (fastforce simp: row_at_append)

lemma caller_grows:
  "attribute_caller blake corpus spans r rows = (i, rows') \<Longrightarrow> \<exists>extra. rows' = rows @ extra"
  by (auto simp: attribute_caller_def dest: file_node_other split: option.splits)

lemma batch_inv_nodes:
  assumes "batch_inv blake corpus nodes refs C g" "grown blake corpus nodes (gt_nodes g @ extra)"
  shows "batch_inv blake corpus nodes refs C (g\<lparr>gt_nodes := gt_nodes g @ extra\<rparr>)"
  using assms unfolding batch_inv_def by (auto intro: reported_grows)

lemma batch_inv_record:
  assumes inv: "batch_inv blake corpus nodes refs C g" and r: "r \<in> set refs"
    and i: "i = attributed blake corpus nodes r" "i \<noteq> sc_callee r" and d: "row_at gn_id (sc_callee r) (gt_nodes g) = Some d"
  shows "batch_inv blake corpus nodes refs C (record_reference i (gn_kind d) r g)"
proof -
  let ?k = "reference_kind d"
  have new: "reported blake corpus nodes refs (gt_nodes g) i (sc_callee r) ?k Q" if "Q r" for Q
    using r i d that by (auto simp: reported_def)
  have rec: "record_reference i (gn_kind d) r g =
      g\<lparr>gt_edges := (if gn_kind d = ''field'' \<or> sc_is_call r then put_edge_scip i (sc_callee r) ?k (gt_edges g) else gt_edges g),
        gt_sites := put_site \<lparr>sr_src = i, sr_dst = sc_callee r, sr_kind = ?k, sr_line = sc_line r, sr_col = sc_col r\<rparr> (gt_sites g)\<rparr>"
    by (simp add: record_reference_def reference_kind_def Let_def)
  have edge: "reported blake corpus nodes refs (gt_nodes g) (er_src e) (er_dst e) (er_kind e) (\<lambda>r. sc_is_call r \<or> er_kind e = RefField)"
    if e: "e \<in> set (gt_edges (record_reference i (gn_kind d) r g))" "is_scip_ref e" "er_src e \<in> C" for e
  proof (cases "e \<in> set (gt_edges g)")
    case True
    with inv e(2,3) show ?thesis by (simp add: batch_inv_def)
  next
    case False
    with e(1) have "gn_kind d = ''field'' \<or> sc_is_call r" "edge_key e = (i, sc_callee r, ?k)"
      by (auto simp: rec dest!: put_edge_scip_mem split: if_splits)
    then show ?thesis using new[of "\<lambda>r. sc_is_call r \<or> ?k = RefField"] by (auto simp: reference_kind_def)
  qed
  have site: "reported blake corpus nodes refs (gt_nodes g) (sr_src s) (sr_dst s) (sr_kind s) (\<lambda>r. sc_line r = sr_line s)"
    if s: "s \<in> set (gt_sites (record_reference i (gn_kind d) r g))" "sr_src s \<in> C" for s
  proof (cases "s \<in> set (gt_sites g)")
    case True
    with inv s(2) show ?thesis by (simp add: batch_inv_def)
  next
    case False
    with s(1) have "site_key s = (i, sc_callee r, ?k, sc_line r)" by (auto simp: rec dest!: put_site_mem)
    then show ?thesis using new[of "\<lambda>r'. sc_line r' = sc_line r"] by auto
  qed
  have "gt_nodes (record_reference i (gn_kind d) r g) = gt_nodes g" by (simp add: rec)
  with edge site inv show ?thesis unfolding batch_inv_def by simp
qed

lemma batch_inv_step:
  assumes inv: "batch_inv blake corpus nodes refs C g" and r: "r \<in> set refs"
  shows "batch_inv blake corpus nodes refs C (write_reference blake corpus (\<lambda>path. fetch_all_fn_spans corpus path nodes) r g)"
proof -
  obtain i rows where a: "attribute_caller blake corpus (\<lambda>path. fetch_all_fn_spans corpus path nodes) r (gt_nodes g) = (i, rows)"
    by (cases "attribute_caller blake corpus (\<lambda>path. fetch_all_fn_spans corpus path nodes) r (gt_nodes g)")
  from inv have "grown blake corpus nodes (gt_nodes g)" by (simp add: batch_inv_def)
  note caller = grown_caller[OF this a]
  from caller_grows[OF a] obtain extra where rows: "rows = gt_nodes g @ extra" by blast
  from inv caller(2) have grown: "batch_inv blake corpus nodes refs C (g\<lparr>gt_nodes := rows\<rparr>)"
    unfolding rows by (rule batch_inv_nodes)
  show ?thesis
  proof (cases "i = sc_callee r \<or> row_at gn_id (sc_callee r) rows = None")
    case True
    with grown show ?thesis by (auto simp: write_reference_def a Let_def)
  next
    case False
    then obtain d where d: "i \<noteq> sc_callee r" "row_at gn_id (sc_callee r) rows = Some d" by auto
    from batch_inv_record[OF grown r caller(1) d(1)] d show ?thesis by (simp add: write_reference_def a Let_def)
  qed
qed

lemma batch_inv_run:
  "batch_inv blake corpus nodes refs C g \<Longrightarrow> set rs \<subseteq> set refs \<Longrightarrow>
     batch_inv blake corpus nodes refs C (fold (write_reference blake corpus (\<lambda>path. fetch_all_fn_spans corpus path nodes)) rs g)"
  by (induction rs arbitrary: g) (simp_all add: batch_inv_step)


text \<open>What the table holds of a reference, once written, stays.\<close>

definition recorded :: "node_id \<Rightarrow> edge_kind \<Rightarrow> scip_ref \<Rightarrow> graph_tables \<Rightarrow> bool" where
  "recorded i k r g \<longleftrightarrow>
     (i, sc_callee r, k, sc_line r) \<in> site_key ` set (gt_sites g)
     \<and> (sc_is_call r \<or> k = RefField \<longrightarrow> (i, sc_callee r, k, Scip) \<in> (\<lambda>e. (er_src e, er_dst e, er_kind e, er_prov e)) ` set (gt_edges g))"

lemma put_site_keys: "site_key ` set (put_site y ss) = insert (site_key y) (site_key ` set ss)"
  unfolding put_site_def by (rule site_fill.key_set)

lemma put_edge_scip_holds:
  "(s, d, k, Scip) \<in> (\<lambda>e. (er_src e, er_dst e, er_kind e, er_prov e)) ` set (put_edge_scip s d k es)"
proof -
  obtain r where r: "row_at edge_key (s, d, k) (put_edge_scip s d k es) = Some r" "er_prov r = Scip"
    by (simp add: put_edge_scip_def edge_scip.lookup split: option.split)
  from row_at_Some[OF r(1)] r(2) show ?thesis by force
qed

lemma put_edge_scip_keeps:
  "(a, b, c, Scip) \<in> (\<lambda>e. (er_src e, er_dst e, er_kind e, er_prov e)) ` set es \<Longrightarrow>
     (a, b, c, Scip) \<in> (\<lambda>e. (er_src e, er_dst e, er_kind e, er_prov e)) ` set (put_edge_scip s d k es)"
  by (auto simp: put_edge_scip_def table_upsert_def image_iff) force+

lemma recorded_record: "recorded i k r g \<Longrightarrow> recorded i k r (record_reference j ck r' g)"
  by (auto simp: recorded_def record_reference_def Let_def put_site_keys intro: put_edge_scip_keeps)

lemma recorded_step: "recorded i k r g \<Longrightarrow> recorded i k r (write_reference blake corpus spans r' g)"
proof -
  assume r: "recorded i k r g"
  have n: "recorded i k r (g\<lparr>gt_nodes := rows\<rparr>)" for rows using r by (simp add: recorded_def)
  show ?thesis
    by (cases "attribute_caller blake corpus spans r' (gt_nodes g)")
       (auto simp: write_reference_def Let_def intro: recorded_record n split: option.split)
qed

lemma recorded_run: "recorded i k r g \<Longrightarrow> recorded i k r (fold (write_reference blake corpus spans) rs g)"
  by (induction rs arbitrary: g) (simp_all add: recorded_step)

lemma record_reference_recorded: "recorded i (reference_kind d) r (record_reference i (gn_kind d) r g)"
  by (auto simp: recorded_def record_reference_def reference_kind_def Let_def put_site_keys put_edge_scip_holds)


subsection \<open>A batch of one file\<close>

definition demo_refs :: "scip_ref list" where
  "demo_refs = [\<lparr>sc_path = ''a.py'', sc_line = 1, sc_callee = 3, sc_is_call = True, sc_col = None\<rparr>]"

lemma demo_batch:
  "fold put_phase_b_node [] (gt_nodes demo_tables) = gt_nodes demo_tables"
  "carried_ids ''repo'' [] demo_refs (gt_nodes demo_tables) = {1, 2}"
  "attributed (\<lambda>b. b) ''repo'' (gt_nodes demo_tables) (hd demo_refs) = 1"
  by (simp, simp add: carried_ids_def demo_refs_def demo_unowned language_is_kept_def, code_simp)



end
