(* ===== verification/Store_States.thy ===== *)
theory Store_States
  imports Phase_B_Write
begin

section \<open>The states of the store\<close>

text \<open>
  Every committed transaction of the graph tables as a step, and what holds of each state that is reached from
  the empty store: the primary keys of the five tables and the unique index on names.
\<close>

definition empty_tables :: graph_tables where
  "empty_tables = \<lparr>gt_nodes = [], gt_edges = [], gt_sites = [], gt_refs = [], gt_files = []\<rparr>"

inductive store_step :: "graph_tables \<Rightarrow> graph_tables \<Rightarrow> bool" where
  nodes_put: "put_store_nodes ns (gt_nodes g) = Some rows \<Longrightarrow> store_step g (g\<lparr>gt_nodes := rows\<rparr>)"
| edge_put: "store_step g (g\<lparr>gt_edges := put_edge e (gt_edges g)\<rparr>)"
| edge_put_lsif: "store_step g (g\<lparr>gt_edges := put_edge_lsif e (gt_edges g)\<rparr>)"
| edge_put_live: "store_step g (g\<lparr>gt_edges := put_edge_live e (gt_edges g)\<rparr>)"
| sites_recorded: "store_step g (record_edge_sites cs g)"
| field_sites_recorded: "store_step g (record_field_sites cs g)"
| owned_sites_replaced: "store_step g (replace_owned_edge_sites srcs carried keep cs fs g)"
| phase_b_batch: "store_step g (write_phase_b_batch looked_up ns es prov g)"
| scip_batch: "store_step g (write_scip_attributed_batch_keeping blake corpus ns refs keep g)"
| live_swept: "store_step g (snd (sweep_live_edges_for_languages languages g))"
| paths_swept: "store_step g (snd (sweep_orphan_edges_for_paths corpus paths g))"
| orphans_swept: "store_step g (snd (sweep_orphans g))"
| self_refs_swept: "store_step g (snd (sweep_self_ref_call_edges g))"
| file_replaced: "reindex_replace sha alnum corpus path ns es h content g = Some (rep, g') \<Longrightarrow> store_step g g'"
| file_deleted: "store_step g (snd (delete_file corpus path g))"
| reconciled: "store_step g (snd (reconcile present ok walked policy corpus g))"
| refs_upserted: "store_step g (upsert_ref_resolution_states rs g)"
| refs_replaced: "store_step g (replace_ref_resolution_states corpus path rs g)"
| refs_recorded: "store_step g (snd (record_pending_changed_occurrences changed g))"
| refs_consumed: "store_step g (snd (consume_measured_ref_resolutions languages g))"
| refs_reconciled: "store_step g (snd (reconcile_ref_resolution_states g))"

definition keys_ok :: "graph_tables \<Rightarrow> bool" where
  "keys_ok g \<longleftrightarrow>
     distinct (map gn_id (gt_nodes g)) \<and> distinct (map gn_vname (gt_nodes g)) \<and> distinct (map edge_key (gt_edges g))
     \<and> distinct (map site_key (gt_sites g)) \<and> distinct (map ref_key (gt_refs g)) \<and> distinct (map fst (gt_files g))"

lemma keys_okI:
  "distinct (map gn_id (gt_nodes g)) \<Longrightarrow> distinct (map gn_vname (gt_nodes g)) \<Longrightarrow> distinct (map edge_key (gt_edges g)) \<Longrightarrow>
   distinct (map site_key (gt_sites g)) \<Longrightarrow> distinct (map ref_key (gt_refs g)) \<Longrightarrow> distinct (map fst (gt_files g)) \<Longrightarrow> keys_ok g"
  by (simp add: keys_ok_def)

lemma keys_okD:
  assumes "keys_ok g"
  shows "distinct (map gn_id (gt_nodes g))" "distinct (map gn_vname (gt_nodes g))" "distinct (map edge_key (gt_edges g))"
    "distinct (map site_key (gt_sites g))" "distinct (map ref_key (gt_refs g))" "distinct (map fst (gt_files g))"
  using assms by (simp_all add: keys_ok_def)

lemmas keys_ok_simps = keys_ok_def kept_rows_distinct

subsection \<open>Nodes\<close>

definition store_merge :: "store_node \<Rightarrow> store_node \<Rightarrow> store_node" where
  "store_merge old new =
     old\<lparr>gn_kind := gn_kind new, cn_line := or_else (cn_line new) (cn_line old),
        cn_end_line := or_else (cn_end_line new) (cn_end_line old), cn_test_role := cn_test_role new, sn_body := sn_body new\<rparr>"

lemma put_store_node_merge:
  "put_store_node n rows = (if list_ex (\<lambda>old. gn_vname old = gn_vname n \<and> gn_id old \<noteq> gn_id n) rows then None
     else Some (table_upsert gn_id store_merge n rows))"
  unfolding put_store_node_def store_merge_def by (rule refl)

interpretation node_store: keyed_upsert gn_id store_merge
  by unfold_locales (simp add: store_merge_def)

lemma upsert_node_names:
  assumes merge: "\<And>old new. gn_vname (merge old new) = gn_vname (old :: store_node)"
    and free: "gn_id n \<in> gn_id ` set rows \<or> gn_vname n \<notin> gn_vname ` set rows" and d: "distinct (map gn_vname rows)"
  shows "distinct (map gn_vname (table_upsert gn_id merge n rows))"
proof (cases "gn_id n \<in> set (map gn_id rows)")
  case True
  have "map gn_vname (map (\<lambda>old. if gn_id old = gn_id n then merge old n else old) rows) = map gn_vname rows"
    by (auto simp: merge)
  with True d show ?thesis by (simp only: table_upsert_def if_True)
next
  case False
  with free d show ?thesis by (auto simp: table_upsert_def)
qed

lemma put_store_nodes_ok:
  "put_store_nodes ns rows = Some rows' \<Longrightarrow> distinct (map gn_id rows) \<Longrightarrow> distinct (map gn_vname rows) \<Longrightarrow>
     distinct (map gn_id rows') \<and> distinct (map gn_vname rows')"
proof (induction ns arbitrary: rows)
  case (Cons n ns)
  from Cons.prems(1) have no: "\<not> list_ex (\<lambda>old. gn_vname old = gn_vname n \<and> gn_id old \<noteq> gn_id n) rows"
    and rest: "put_store_nodes ns (table_upsert gn_id store_merge n rows) = Some rows'"
    by (auto simp: put_store_node_merge split: if_splits)
  have "gn_id n \<in> gn_id ` set rows \<or> gn_vname n \<notin> gn_vname ` set rows"
  proof (rule disjCI)
    assume "\<not> gn_vname n \<notin> gn_vname ` set rows"
    then obtain old where "old \<in> set rows" "gn_vname old = gn_vname n" by auto
    with no have "gn_id old = gn_id n" by (auto simp: list_ex_iff)
    with \<open>old \<in> set rows\<close> show "gn_id n \<in> gn_id ` set rows" by (metis imageI)
  qed
  then have "distinct (map gn_vname (table_upsert gn_id store_merge n rows))"
    by (intro upsert_node_names Cons.prems) (simp_all add: store_merge_def)
  from Cons.IH[OF rest node_store.distinct_keys[OF Cons.prems(2)] this] show ?case .
qed simp

lemma put_phase_b_node_ok:
  assumes "distinct (map gn_id rows)" "distinct (map gn_vname rows)"
  shows "distinct (map gn_id (put_phase_b_node n rows)) \<and> distinct (map gn_vname (put_phase_b_node n rows))"
proof (cases "gn_id n \<in> set (node_ids rows) \<or> \<not> list_ex (\<lambda>old. gn_vname old = gn_vname n) rows")
  case True
  let ?n = "stamp_body None (n\<lparr>cn_test_role := Role_None\<rparr>)"
  from True have "gn_id ?n \<in> gn_id ` set rows \<or> gn_vname ?n \<notin> gn_vname ` set rows"
    by (auto simp: list_ex_iff set_node_ids image_iff)
  then have "distinct (map gn_vname (table_upsert gn_id phase_b_merge ?n rows))"
    by (intro upsert_node_names assms) (simp_all add: phase_b_merge_def)
  with True assms(1) show ?thesis unfolding put_phase_b_node_def by (simp add: node_phase_b.distinct_keys)
next
  case False
  with assms show ?thesis by (simp add: put_phase_b_node_def)
qed

lemma put_phase_b_nodes_ok:
  "distinct (map gn_id rows) \<Longrightarrow> distinct (map gn_vname rows) \<Longrightarrow>
     distinct (map gn_id (fold put_phase_b_node ns rows)) \<and> distinct (map gn_vname (fold put_phase_b_node ns rows))"
  by (induction ns arbitrary: rows) (simp_all add: put_phase_b_node_ok)

lemma no_row_image:
  "\<not> list_ex (\<lambda>n. gn_id n = i \<or> gn_vname n = v) rows \<Longrightarrow> i \<notin> gn_id ` set rows \<and> v \<notin> gn_vname ` set rows"
  unfolding list_ex_iff by blast

lemma file_node_fresh:
  "file_node_for_attribution blake corpus path rows = (i, rows') \<Longrightarrow>
     rows' = rows \<or> (\<exists>x. rows' = rows @ [x] \<and> gn_id x \<notin> gn_id ` set rows \<and> gn_vname x \<notin> gn_vname ` set rows)"
  by (auto simp: file_node_for_attribution_def Let_def split: option.splits if_splits dest!: no_row_image)

lemma file_node_ok:
  assumes "file_node_for_attribution blake corpus path rows = (i, rows')" "distinct (map gn_id rows)" "distinct (map gn_vname rows)"
  shows "distinct (map gn_id rows') \<and> distinct (map gn_vname rows')"
  using file_node_fresh[OF assms(1)] assms(2,3) by auto

subsection \<open>Edges and occurrences\<close>

lemma fold_invariant: "P s \<Longrightarrow> (\<And>x s. P s \<Longrightarrow> P (f x s)) \<Longrightarrow> P (fold f xs s)"
  by (induction xs arbitrary: s) auto

lemma put_edge_ok: "distinct (map edge_key es) \<Longrightarrow> distinct (map edge_key (put_edge e es))"
  by (simp add: put_edge_def edge_keep.distinct_keys)

lemma put_edge_scip_ok: "distinct (map edge_key es) \<Longrightarrow> distinct (map edge_key (put_edge_scip s d k es))"
  unfolding put_edge_scip_def by (rule edge_scip.distinct_keys)

lemma put_site_ok: "distinct (map site_key ss) \<Longrightarrow> distinct (map site_key (put_site s ss))"
  unfolding put_site_def by (rule site_fill.distinct_keys)

lemma record_site_ok: "distinct (map site_key ss) \<Longrightarrow> distinct (map site_key (record_site k a ss))"
  by (cases a) (simp add: record_site_def put_site_ok)

lemma record_edge_sites_ok: "keys_ok g \<Longrightarrow> keys_ok (record_edge_sites cs g)"
  unfolding record_edge_sites_def
  by (simp add: keys_ok_def fold_invariant[where P = "\<lambda>ss. distinct (map site_key ss)"] record_site_ok)

lemma record_field_sites_ok: "keys_ok g \<Longrightarrow> keys_ok (record_field_sites cs g)"
  unfolding record_field_sites_def
  by (simp add: keys_ok_def fold_invariant[where P = "\<lambda>ss. distinct (map site_key ss)"] record_site_ok)

lemma purge_sites_ok: "keys_ok g \<Longrightarrow> keys_ok (purge_sites f g)"
  by (cases f) (simp add: purge_sites_def keys_ok_simps)

lemma replace_owned_ok: "keys_ok g \<Longrightarrow> keys_ok (replace_owned_edge_sites srcs carried keep cs fs g)"
  unfolding replace_owned_edge_sites_def Let_def
  by (intro record_field_sites_ok record_edge_sites_ok fold_invariant[where P = keys_ok] purge_sites_ok)

lemma retract_file_ok: "keys_ok g \<Longrightarrow> keys_ok (retract_file corpus keep p g)"
  by (simp add: retract_file_def keys_ok_simps)

lemma put_edges_phase_b_ok: "distinct (map edge_key es) \<Longrightarrow> distinct (map edge_key (fold (put_edge_phase_b p) xs es))"
  by (induction xs arbitrary: es) (simp_all add: put_edge_phase_b_def edge_phase_b.distinct_keys)

lemma write_phase_b_ok: "keys_ok g \<Longrightarrow> keys_ok (write_phase_b_batch looked_up ns es prov g)"
  unfolding write_phase_b_batch_def Let_def
  using put_phase_b_nodes_ok[of "gt_nodes g" ns] by (simp add: keys_ok_def put_edges_phase_b_ok)

lemma record_reference_ok: "keys_ok g \<Longrightarrow> keys_ok (record_reference i k r g)"
  unfolding record_reference_def Let_def
  by (simp add: keys_ok_def put_edge_scip_ok put_site_ok)

lemma write_reference_ok:
  assumes "keys_ok g" shows "keys_ok (write_reference blake corpus spans r g)"
proof -
  obtain i rows where a: "attribute_caller blake corpus spans r (gt_nodes g) = (i, rows)"
    by (cases "attribute_caller blake corpus spans r (gt_nodes g)")
  then have "distinct (map gn_id rows) \<and> distinct (map gn_vname rows)"
    using keys_okD(1,2)[OF assms] by (auto simp: attribute_caller_def dest: file_node_ok split: option.splits)
  then have "keys_ok (g\<lparr>gt_nodes := rows\<rparr>)" using keys_okD[OF assms] by (simp add: keys_ok_def)
  then show ?thesis by (auto simp: write_reference_def a Let_def record_reference_ok split: option.split)
qed

lemma write_scip_ok: "keys_ok g \<Longrightarrow> keys_ok (write_scip_attributed_batch_keeping blake corpus ns refs keep g)"
proof -
  assume g: "keys_ok g"
  have "keys_ok (g\<lparr>gt_nodes := fold put_phase_b_node ns (gt_nodes g)\<rparr>)"
    using keys_okD[OF g] put_phase_b_nodes_ok[of "gt_nodes g" ns] by (simp add: keys_ok_def)
  with g show ?thesis unfolding write_scip_attributed_batch_keeping_def Let_def
    by (auto intro!: fold_invariant[where P = keys_ok] write_reference_ok retract_file_ok)
qed

lemma sweep_paths_ok: "keys_ok g \<Longrightarrow> keys_ok (snd (sweep_orphan_edges_for_paths corpus paths g))"
  unfolding sweep_orphan_edges_for_paths_def
  by (rule fold_invariant[where P = "\<lambda>p. keys_ok (snd p)"])
     (simp_all add: sweep_path_def Let_def split_beta keys_ok_simps)

subsection \<open>Files and references\<close>

interpretation file_row: keyed_upsert fst "\<lambda>_ new. new"
  by unfold_locales simp

interpretation site_keep: keyed_upsert site_key "\<lambda>old new. old"
  by unfold_locales auto

lemma reindex_ok:
  assumes g: "keys_ok g" and r: "reindex_replace sha alnum corpus path ns es h content g = Some (rep, g')"
  shows "keys_ok g'"
proof -
  note g' = reindex_replace_Some[OF r]
  show ?thesis
  proof (rule keys_okI)
    from put_store_nodes_ok[OF g'(5)] keys_okD(1,2)[OF g]
    show "distinct (map gn_id (gt_nodes g'))" "distinct (map gn_vname (gt_nodes g'))" by (simp_all add: kept_rows_distinct)
    show "distinct (map edge_key (gt_edges g'))"
      unfolding g'(1) replaced_edges_def Let_def
      by (intro kept_rows_distinct fold_invariant[where P = "\<lambda>es. distinct (map edge_key es)"] put_edge_ok keys_okD(3) g)
    show "distinct (map site_key (gt_sites g'))"
      unfolding g'(2) replaced_sites_def by (intro site_keep.fold_distinct_keys kept_rows_distinct keys_okD(4) g)
    show "distinct (map ref_key (gt_refs g'))" unfolding g'(3) by (rule keys_okD(5)[OF g])
    show "distinct (map fst (gt_files g'))"
      unfolding g'(4) put_file_hash_def by (intro file_row.distinct_keys keys_okD(6) g)
  qed
qed

lemma without_files_ok: "keys_ok g \<Longrightarrow> keys_ok (without_files corpus ps g)"
  by (simp add: without_files_def keys_ok_simps)

lemma delete_ghosts_ok: "keys_ok g \<Longrightarrow> keys_ok (snd (delete_ghosts present ok recheck corpus ps deleted g))"
  by (induction ps arbitrary: deleted g) (auto simp: delete_file_without without_files_ok)

lemma reconcile_ok: "keys_ok g \<Longrightarrow> keys_ok (snd (reconcile present ok walked policy corpus g))"
  using delete_ghosts_ok[of g present ok "sp_toctou_recheck policy" corpus "ghosts_of g walked" "[]"]
  by (auto simp: reconcile_def Let_def split: prod.split option.split)

lemma put_refs_ok: "distinct (map ref_key rs) \<Longrightarrow> distinct (map ref_key (fold put_ref rows rs))"
  unfolding put_ref_def by (rule ref_state.fold_distinct_keys)

lemma record_pending_ok:
  "record_pending cs n rows = (m, rows') \<Longrightarrow> distinct (map ref_key rows) \<Longrightarrow> distinct (map ref_key rows')"
proof (induction cs arbitrary: n rows)
  case (Cons c cs)
  show ?case
  proof (cases "list_ex (same_reference c) rows")
    case False
    then have "ref_key (pending_row c) \<notin> ref_key ` set rows"
      by (auto simp: list_ex_iff same_reference_def pending_row_def)
    with Cons.prems(2) have "distinct (map ref_key (rows @ [pending_row c]))" by simp
    with Cons.IH[OF _ this] Cons.prems(1) False show ?thesis by simp
  qed (use Cons in simp)
qed simp

lemma refs_ok: "keys_ok g \<Longrightarrow> distinct (map ref_key rs) \<Longrightarrow> keys_ok (g\<lparr>gt_refs := rs\<rparr>)"
  by (simp add: keys_ok_def)

lemma refs_recorded_ok: "keys_ok g \<Longrightarrow> keys_ok (snd (record_pending_changed_occurrences changed g))"
  by (auto simp: record_pending_changed_occurrences_def split: prod.split intro!: refs_ok dest: record_pending_ok keys_okD(5))

subsection \<open>Every state\<close>

lemma store_step_ok: "store_step g g' \<Longrightarrow> keys_ok g \<Longrightarrow> keys_ok g'"
proof (induction rule: store_step.induct)
  case (nodes_put ns g rows)
  then show ?case using put_store_nodes_ok[OF nodes_put.hyps] by (simp add: keys_ok_def)
next
  case (edge_put g e)
  then show ?case by (simp add: keys_ok_def put_edge_ok)
next
  case (edge_put_lsif g e)
  then show ?case by (simp add: keys_ok_def put_edge_lsif_def edge_lsif.distinct_keys)
next
  case (edge_put_live g e)
  then show ?case by (simp add: keys_ok_def put_edge_live_def edge_live.distinct_keys)
next
  case (live_swept languages g)
  then show ?case by (simp add: sweep_live_edges_for_languages_def Let_def keys_ok_simps)
next
  case (orphans_swept g)
  then show ?case by (simp add: sweep_orphans_def keys_ok_simps)
next
  case (self_refs_swept g)
  then show ?case by (simp add: sweep_self_ref_call_edges_def Let_def keys_ok_simps)
next
  case (refs_upserted rs g)
  then show ?case by (simp add: upsert_ref_resolution_states_def refs_ok put_refs_ok keys_okD)
next
  case (refs_replaced corpus path rs g)
  then show ?case by (simp add: replace_ref_resolution_states_def refs_ok put_refs_ok keys_okD kept_rows_distinct)
next
  case (refs_consumed languages g)
  then show ?case by (simp add: consume_measured_ref_resolutions_def Let_def refs_ok keys_okD kept_rows_distinct)
next
  case (refs_reconciled g)
  then show ?case
    by (simp add: reconcile_ref_resolution_states_def clear_resolved_pending_refs_def purge_orphan_ref_resolution_states_def
        Let_def refs_ok keys_okD kept_rows_distinct)
qed (simp_all add: record_edge_sites_ok record_field_sites_ok replace_owned_ok write_phase_b_ok write_scip_ok sweep_paths_ok
    reindex_ok delete_file_without without_files_ok reconcile_ok refs_recorded_ok)



end
