(* ===== verification/Import_Resolve.thy ===== *)
theory Import_Resolve
  imports Rust_Path "HOL-Library.Code_Target_Nat"
begin

section \<open>Imports that no edge resolves\<close>

text \<open>
  The import resolvers of \<open>crates/travsr-core/src/lib.rs\<close>: whether an import, written in one file, means
  another file, by the spelling of the three alone. A slice that is not at a character boundary is \<open>None\<close>.
\<close>

subsection \<open>The standard library\<close>

definition slashed :: "string \<Rightarrow> string" where
  "slashed p = map (\<lambda>c. if c = backslash then CHR ''/'' else c) p"

definition dots_to_slashes :: "string \<Rightarrow> string" where
  "dots_to_slashes p = map (\<lambda>c. if c = CHR ''.'' then CHR ''/'' else c) p"

function trim_end_str :: "string \<Rightarrow> string \<Rightarrow> string" where
  "trim_end_str s p = (if p \<noteq> [] \<and> ends_with s p then trim_end_str (take (length s - length p) s) p else s)"
  by pat_completeness auto
termination
  by (relation "measure (\<lambda>(s, _). length s)") (auto simp: ends_with_iff)

declare trim_end_str.simps [simp del]

definition trim_quotes :: "string \<Rightarrow> string" where
  "trim_quotes s = rev (dropWhile (\<lambda>c. c = dquote) (rev (dropWhile (\<lambda>c. c = dquote) s)))"

text \<open>
  \<open>Path::parent\<close> on the bytes of the path: the last piece is cut off with its slash, and so are empty and
  \<open>.\<close> pieces before and after it, but not what stands before the body: the root or a leading \<open>.\<close>.
\<close>

definition body_start :: "string \<Rightarrow> nat" where
  "body_start p =
     (if is_absolute p then 1 else if p = ''.'' \<or> starts_with p ''./'' then 1 else 0)"

definition last_piece :: "nat \<Rightarrow> string \<Rightarrow> nat \<times> string" where
  "last_piece b p =
     (let body = drop b p; piece = rev (takeWhile (\<lambda>c. c \<noteq> CHR ''/'') (rev body))
      in (length piece + (if CHR ''/'' \<in> set body then 1 else 0), piece))"

lemma last_piece_shorter: "\<not> length p \<le> b \<Longrightarrow> length p - fst (last_piece b p) < length p"
proof -
  assume long: "\<not> length p \<le> b"
  have "0 < fst (last_piece b p)"
  proof (cases "CHR ''/'' \<in> set (drop b p)")
    case True
    then show ?thesis by (simp add: last_piece_def Let_def)
  next
    case False
    then have all: "takeWhile (\<lambda>c. c \<noteq> CHR ''/'') (rev (drop b p)) = rev (drop b p)"
      by (intro takeWhile_eq_all_conv[THEN iffD2]) auto
    show ?thesis unfolding last_piece_def Let_def all using long by simp
  qed
  with long show ?thesis by simp
qed

function trim_right :: "nat \<Rightarrow> string \<Rightarrow> string" where
  "trim_right b p =
     (if length p \<le> b then p
      else if snd (last_piece b p) \<notin> {[], ''.''} then p
      else trim_right b (take (length p - fst (last_piece b p)) p))"
  by pat_completeness auto
termination
  by (relation "measure (\<lambda>(_, p). length p)") (auto intro: last_piece_shorter)

declare trim_right.simps [simp del]

definition path_parent :: "string \<Rightarrow> string option" where
  "path_parent p =
     (let b = body_start p; q = trim_right b p
      in if b < length q then Some (trim_right b (take (length q - fst (last_piece b q)) q))
         else if is_absolute p then None
         else if b = 1 then Some [] else None)"

subsection \<open>Shared helpers\<close>

definition file_parent_dir :: "string \<Rightarrow> string" where
  "file_parent_dir fp =
     (case path_parent fp of Some d \<Rightarrow> if d = [] \<or> d = ''.'' then [] else slashed d | None \<Rightarrow> [])"

fun walk_segments :: "string list \<Rightarrow> string list \<Rightarrow> string list option" where
  "walk_segments parts [] = Some parts"
| "walk_segments parts (seg # segs) =
     (if seg = [] \<or> seg = ''.'' then walk_segments parts segs
      else if seg = ''..'' then (if parts = [] then None else walk_segments (butlast parts) segs)
      else walk_segments (parts @ [seg]) segs)"

definition resolve_relative_to_importer :: "string \<Rightarrow> string \<Rightarrow> string option" where
  "resolve_relative_to_importer importer_path spec =
     (let dir = file_parent_dir (slashed importer_path)
      in map_option (join_with ''/'')
           (walk_segments (if dir = [] then [] else path_pieces dir) (path_pieces (slashed spec))))"

definition path_suffix_match :: "string \<Rightarrow> string \<Rightarrow> bool" where
  "path_suffix_match haystack needle \<longleftrightarrow>
     haystack = needle
     \<or> (case strip_suffix haystack needle of Some rest \<Rightarrow> ends_with rest ''/'' | None \<Rightarrow> False)"

definition dot_lang_resolves_to :: "string \<Rightarrow> string \<Rightarrow> string list \<Rightarrow> bool" where
  "dot_lang_resolves_to import_sig file_path exts =
     (case strip_prefix import_sig ''import:'' of
        None \<Rightarrow> False
      | Some raw \<Rightarrow>
          (let as_slash = dots_to_slashes (trim_end_str raw ''.*''); fp = slashed file_path
           in list_ex (\<lambda>ext. path_suffix_match fp (as_slash @ ext)) exts
              \<or> path_suffix_match (file_parent_dir fp) as_slash))"

subsection \<open>The resolvers\<close>

datatype import_resolver =
  Noop_Resolver | Go_Resolver | Java_Resolver | Kotlin_Resolver | Scala_Resolver | Python_Resolver | Php_Resolver
| Csharp_Resolver | Cpp_Resolver | Swift_Resolver | Dart_Resolver | Ruby_Resolver

definition resolver_for_language :: "string \<Rightarrow> import_resolver" where
  "resolver_for_language language =
     (if language = ''go'' then Go_Resolver
      else if language = ''java'' then Java_Resolver
      else if language = ''kotlin'' then Kotlin_Resolver
      else if language = ''scala'' then Scala_Resolver
      else if language = ''python'' then Python_Resolver
      else if language = ''php'' then Php_Resolver
      else if language \<in> {''csharp'', ''c#'', ''cs''} then Csharp_Resolver
      else if language \<in> {''cpp'', ''c++'', ''c''} then Cpp_Resolver
      else if language = ''swift'' then Swift_Resolver
      else if language = ''dart'' then Dart_Resolver
      else if language = ''ruby'' then Ruby_Resolver
      else if language \<in> {''objectivec'', ''objc''} then Cpp_Resolver
      else Noop_Resolver)"

definition go_resolves_to :: "string \<Rightarrow> string \<Rightarrow> bool" where
  "go_resolves_to import_path file_path \<longleftrightarrow>
     (let file_dir = file_parent_dir (slashed file_path)
      in if file_dir = [] then False
         else path_suffix_match import_path file_dir
              \<or> CHR ''.'' \<in> set (hd (path_pieces import_path)) \<and> path_suffix_match file_dir import_path)"

definition python_resolves_to :: "string \<Rightarrow> string \<Rightarrow> bool" where
  "python_resolves_to spec file_path \<longleftrightarrow>
     (if starts_with spec ''.'' then False
      else (let as_slash = dots_to_slashes spec; fp = slashed file_path
            in path_suffix_match fp (as_slash @ ''.py'') \<or> path_suffix_match fp (as_slash @ ''/__init__.py'')
               \<or> path_suffix_match (file_parent_dir fp) as_slash))"

definition php_resolves_to :: "string \<Rightarrow> string \<Rightarrow> bool" where
  "php_resolves_to import_path file_path \<longleftrightarrow>
     (let as_slash = slashed import_path; fp = slashed file_path
      in path_suffix_match fp (as_slash @ ''.php'') \<or> path_suffix_match (file_parent_dir fp) as_slash)"

definition cpp_resolves_to :: "string \<Rightarrow> string \<Rightarrow> string \<Rightarrow> bool" where
  "cpp_resolves_to include importer_path target_path \<longleftrightarrow>
     (if starts_with include ''<'' then False
      else resolve_relative_to_importer importer_path (trim_quotes include) = Some (slashed target_path))"

definition swift_resolves_to :: "string \<Rightarrow> string \<Rightarrow> bool" where
  "swift_resolves_to module file_path \<longleftrightarrow>
     (let fp = slashed file_path
      in ends_with fp ''.swift'' \<and> last (path_pieces (file_parent_dir fp)) = module)"

definition dart_resolves_to :: "string \<Rightarrow> string \<Rightarrow> bool option" where
  "dart_resolves_to uri file_path =
     (if starts_with uri ''dart:'' \<or> starts_with uri ''./'' \<or> starts_with uri ''../'' then Some False
      else case strip_prefix uri ''package:'' of
             None \<Rightarrow> Some (path_suffix_match (slashed file_path) uri)
           | Some rest \<Rightarrow>
               (case find_char (\<lambda>c. c = ''/'') rest of
                  None \<Rightarrow> Some False
                | Some pos \<Rightarrow> map_option (path_suffix_match (slashed file_path)) (str_slice rest (pos + 1) (length rest))))"

definition ruby_resolves_to :: "string \<Rightarrow> string \<Rightarrow> string \<Rightarrow> bool" where
  "ruby_resolves_to spec importer_path target_path \<longleftrightarrow>
     (if starts_with spec ''gem:'' then False
      else (let bare = (case strip_suffix spec ''.rb'' of Some s \<Rightarrow> s | None \<Rightarrow> spec)
            in case resolve_relative_to_importer importer_path bare of
                 None \<Rightarrow> False
               | Some resolved \<Rightarrow> slashed target_path = resolved @ ''.rb''))"

definition resolves_to :: "import_resolver \<Rightarrow> string \<Rightarrow> string \<Rightarrow> string \<Rightarrow> bool option" where
  "resolves_to res import_sig importer_path file_path =
     (case strip_prefix import_sig ''import:'' of
        None \<Rightarrow> Some False
      | Some p \<Rightarrow>
          (case res of
             Noop_Resolver \<Rightarrow> Some False
           | Go_Resolver \<Rightarrow> Some (go_resolves_to p file_path)
           | Java_Resolver \<Rightarrow> Some (dot_lang_resolves_to import_sig file_path [''.java''])
           | Kotlin_Resolver \<Rightarrow> Some (dot_lang_resolves_to import_sig file_path [''.kt'', ''.kts''])
           | Scala_Resolver \<Rightarrow> Some (dot_lang_resolves_to import_sig file_path [''.scala'', ''.sc''])
           | Python_Resolver \<Rightarrow> Some (python_resolves_to p file_path)
           | Php_Resolver \<Rightarrow> Some (php_resolves_to p file_path)
           | Csharp_Resolver \<Rightarrow> Some (dot_lang_resolves_to import_sig file_path [''.cs''])
           | Cpp_Resolver \<Rightarrow> Some (cpp_resolves_to p importer_path file_path)
           | Swift_Resolver \<Rightarrow> Some (swift_resolves_to p file_path)
           | Dart_Resolver \<Rightarrow> dart_resolves_to p file_path
           | Ruby_Resolver \<Rightarrow> Some (ruby_resolves_to p importer_path file_path)))"

subsection \<open>Segments\<close>

lemma split_on_join_id: "join_with [d] (split_on (\<lambda>c. c = d) s) = s"
proof (induction s)
  case (Cons c s)
  then show ?case by (cases "split_on (\<lambda>c. c = d) s"; cases "tl (split_on (\<lambda>c. c = d) s)") auto
qed simp

lemma split_on_inj: "split_on (\<lambda>c. c = d) s = split_on (\<lambda>c. c = d) t \<Longrightarrow> s = t"
  by (metis split_on_join_id)

text \<open>
  The suffix test of the resolvers compares whole segments: it holds exactly when the segments of the path
  end with those of the import, so \<open>util\<close> never stands for \<open>xutil\<close>.
\<close>

lemma suffix_match_segments:
  "path_suffix_match haystack needle \<longleftrightarrow> (\<exists>pre. path_pieces haystack = pre @ path_pieces needle)"
proof
  assume "path_suffix_match haystack needle"
  then consider "haystack = needle" | x where "haystack = (x @ ''/'') @ needle"
    by (auto simp: path_suffix_match_def strip_suffix_def ends_with_iff split: if_splits)
  then show "\<exists>pre. path_pieces haystack = pre @ path_pieces needle"
  proof cases
    case 1
    then show ?thesis by auto
  next
    case 2
    then have "haystack = x @ CHR ''/'' # needle" by simp
    then show ?thesis by (auto simp: path_pieces_def split_on_append_sep)
  qed
next
  assume "\<exists>pre. path_pieces haystack = pre @ path_pieces needle"
  then obtain pre where pre: "path_pieces haystack = pre @ path_pieces needle" by blast
  show "path_suffix_match haystack needle"
  proof (cases "pre = []")
    case True
    with pre have "haystack = needle" by (auto simp: path_pieces_def dest: split_on_inj)
    then show ?thesis by (simp add: path_suffix_match_def)
  next
    case False
    have "\<forall>w\<in>set pre. CHR ''/'' \<notin> set w"
    proof
      fix w assume "w \<in> set pre"
      then have "w \<in> set (split_on (\<lambda>c. c = CHR ''/'') haystack)" using pre by (simp add: path_pieces_def)
      then show "CHR ''/'' \<notin> set w" using split_on_no_sep by fastforce
    qed
    from split_on_join[OF False this] have "path_pieces (join_with ''/'' pre @ CHR ''/'' # needle) = pre @ path_pieces needle"
      by (simp add: path_pieces_def split_on_append_sep)
    with pre have "haystack = join_with ''/'' pre @ CHR ''/'' # needle"
      by (metis path_pieces_def split_on_inj)
    then have "haystack = (join_with ''/'' pre @ ''/'') @ needle" by simp
    then show ?thesis unfolding path_suffix_match_def strip_suffix_def by (auto simp: ends_with_iff)
  qed
qed

subsection \<open>No panic\<close>

lemma strip_prefix_utf8:
  assumes "utf8_ok s" "strip_prefix s p = Some t" "utf8_ok p"
  shows "utf8_ok t"
proof -
  from assms(2) have "s = p @ t" by (auto simp: strip_prefix_def split: if_splits dest: starts_with_drop)
  with assms(1,3) show ?thesis by simp
qed

text \<open>
  No resolver panics: the one slice, after the first slash of a Dart package, is at a character boundary.
\<close>

lemma resolver_answers:
  assumes "utf8_ok import_sig"
  shows "resolves_to res import_sig importer_path file_path \<noteq> None"
proof (cases "strip_prefix import_sig ''import:''")
  case (Some uri)
  have uri: "utf8_ok uri" by (rule strip_prefix_utf8[OF assms Some]) code_simp
  have "dart_resolves_to uri file_path \<noteq> None"
  proof (cases "strip_prefix uri ''package:''")
    case (Some rest)
    have rest: "utf8_ok rest" by (rule strip_prefix_utf8[OF uri Some]) code_simp
    show ?thesis
    proof (cases "find_char (\<lambda>c. c = ''/'') rest")
      case None
      with Some show ?thesis by (simp add: dart_resolves_to_def del: not_None_eq)
    next
      case pos: (Some pos)
      from find_char_boundary[OF pos rest] have b: "pos \<le> length rest" "is_char_boundary rest pos" by auto
      from pos obtain as bs where c: "chars rest = as @ ''/'' # bs" "pos = length (concat as)"
        by (auto simp: find_char_def dest!: find_in_chars_Some)
      have "rest = concat as @ CHR ''/'' # concat bs" using arg_cong[OF c(1), of concat] by simp
      then have at: "rest ! pos = CHR ''/''" "pos < length rest" using c(2) by (simp_all add: nth_append)
      have "is_char_boundary rest (Suc pos)" by (rule ascii_boundary_Suc[OF rest at(2)]) (simp add: at(1))
      with at(2) show ?thesis using Some pos by (simp add: dart_resolves_to_def str_slice_def del: not_None_eq)
    qed
  qed (simp add: dart_resolves_to_def del: not_None_eq)
  with Some show ?thesis by (cases res) (auto simp: resolves_to_def)
qed (simp add: resolves_to_def)

lemma dart_answers:
  "resolves_to Dart_Resolver ''import:package:app/src/util.dart'' [] ''lib/src/util.dart'' \<noteq> None"
  by (rule resolver_answers) code_simp


subsection \<open>Relative imports\<close>

lemma walk_segments_plain:
  "walk_segments parts segs = Some out \<Longrightarrow> \<forall>w\<in>set parts. plain_piece w \<Longrightarrow> \<forall>w\<in>set segs. CHR ''/'' \<notin> set w \<Longrightarrow>
     \<forall>w\<in>set out. plain_piece w"
proof (induction parts segs rule: walk_segments.induct)
  case (2 parts seg segs)
  have "\<forall>w\<in>set (butlast parts). plain_piece w" using 2(5) by (meson in_set_butlastD)
  moreover have "\<forall>w\<in>set (parts @ [seg]). plain_piece w" if "seg \<noteq> []" "seg \<noteq> ''.''" "seg \<noteq> ''..''"
    using 2(5,6) that by (simp add: plain_piece_def)
  ultimately show ?case using 2 by (auto split: if_splits)
qed simp

lemma pieces_no_slash: "\<forall>w\<in>set (path_pieces p). CHR ''/'' \<notin> set w"
  unfolding path_pieces_def using split_on_no_sep by fastforce

text \<open>An importer whose directory is spelled without dots and empty segments.\<close>

definition plain_dir :: "string \<Rightarrow> bool" where
  "plain_dir d \<longleftrightarrow> d = [] \<or> list_all plain_piece (path_pieces d)"

lemma resolve_relative_plain:
  assumes "resolve_relative_to_importer importer spec = Some r" "plain_dir (file_parent_dir (slashed importer))"
  shows "r = [] \<or> list_all plain_piece (path_pieces r)"
proof -
  let ?dir = "file_parent_dir (slashed importer)"
  from assms(1) obtain out where w: "walk_segments (if ?dir = [] then [] else path_pieces ?dir) (path_pieces (slashed spec)) = Some out"
    and r: "r = join_with ''/'' out" by (auto simp: resolve_relative_to_importer_def Let_def)
  have "\<forall>p\<in>set out. plain_piece p"
    using assms(2) by (intro walk_segments_plain[OF w] pieces_no_slash) (auto simp: plain_dir_def list_all_iff)
  then show ?thesis unfolding r by (cases "out = []") (auto simp: path_pieces_join list_all_iff)
qed

lemma relative_target:
  assumes "res \<in> {Cpp_Resolver, Ruby_Resolver}" "resolves_to res import_sig importer target = Some True"
  shows "\<exists>spec r ext. resolve_relative_to_importer importer spec = Some r \<and> ext \<in> {[], ''.rb''}
    \<and> (\<forall>t. resolves_to res import_sig importer t = Some (slashed t = r @ ext))"
proof -
  from assms(2) obtain p where p: "strip_prefix import_sig ''import:'' = Some p"
    by (auto simp: resolves_to_def split: option.splits)
  show ?thesis
  proof (cases "res = Cpp_Resolver")
    case True
    with assms(2) p have "\<not> starts_with p ''<''"
      and r: "resolve_relative_to_importer importer (trim_quotes p) = Some (slashed target)"
      by (simp_all add: resolves_to_def cpp_resolves_to_def split: if_splits)
    with True p have "\<forall>t. resolves_to res import_sig importer t = Some (slashed t = slashed target @ [])"
      by (auto simp: resolves_to_def cpp_resolves_to_def)
    with r show ?thesis by blast
  next
    case False
    with assms(1) have ruby: "res = Ruby_Resolver" by simp
    let ?bare = "case strip_suffix p ''.rb'' of Some s \<Rightarrow> s | None \<Rightarrow> p"
    from assms(2) p ruby have gem: "\<not> starts_with p ''gem:''"
      by (simp add: resolves_to_def ruby_resolves_to_def split: if_splits)
    from assms(2) p ruby gem obtain r where "resolve_relative_to_importer importer ?bare = Some r"
      by (cases "resolve_relative_to_importer importer ?bare") (auto simp: resolves_to_def ruby_resolves_to_def Let_def)
    moreover from this p ruby gem have "\<forall>t. resolves_to res import_sig importer t = Some (slashed t = r @ ''.rb'')"
      by (simp add: resolves_to_def ruby_resolves_to_def Let_def)
    ultimately show ?thesis by blast
  qed
qed

lemma split_last_append:
  "d \<notin> set e \<Longrightarrow> split_on (\<lambda>c. c = d) (s @ e) = butlast (split_on (\<lambda>c. c = d) s) @ [last (split_on (\<lambda>c. c = d) s) @ e]"
proof (induction s)
  case (Cons c s)
  then show ?case by (cases "split_on (\<lambda>c. c = d) s") auto
qed (simp add: split_on_eq_no_sep)

text \<open>
  C35: A relative include or require means one file, and one inside the repository: every target it resolves to
  has the same path, and that path has no segment that leads up or stays.
\<close>

theorem relative_import_contained:
  assumes "res \<in> {Cpp_Resolver, Ruby_Resolver}" "plain_dir (file_parent_dir (slashed importer))"
    "resolves_to res import_sig importer target = Some True"
  shows "resolves_to res import_sig importer other = Some (slashed other = slashed target)
    \<and> list_all (\<lambda>w. w \<noteq> ''.'' \<and> w \<noteq> ''..'') (path_pieces (slashed target))"
proof -
  from relative_target[OF assms(1,3)] obtain spec r ext
    where r: "resolve_relative_to_importer importer spec = Some r" and ext: "ext \<in> {[], ''.rb''}"
      and same: "\<And>t. resolves_to res import_sig importer t = Some (slashed t = r @ ext)" by blast
  have target: "slashed target = r @ ext" using same[of target] assms(3) by simp
  have "list_all (\<lambda>w. w \<noteq> ''.'' \<and> w \<noteq> ''..'') (path_pieces (slashed target))"
    using resolve_relative_plain[OF r assms(2)]
  proof
    assume "r = []"
    with ext show ?thesis unfolding target by (auto simp: path_pieces_def)
  next
    assume plain: "list_all plain_piece (path_pieces r)"
    obtain us u where us: "path_pieces r = us @ [u]" by (metis path_pieces_def rev_exhaust split_on_not_Nil)
    have "CHR ''/'' \<notin> set ext" using ext by auto
    from split_last_append[OF this, of r] us have "path_pieces (r @ ext) = us @ [u @ ext]" by (simp add: path_pieces_def)
    moreover have "\<forall>w\<in>set us. w \<noteq> ''.'' \<and> w \<noteq> ''..''" and u: "u \<notin> {[], ''.'', ''..''}"
      using plain unfolding us by (simp_all add: plain_piece_def list_all_iff)
    moreover have "u @ ext \<noteq> ''.'' \<and> u @ ext \<noteq> ''..''"
    proof (cases "ext = []")
      case False
      with ext have "2 < length (u @ ext)" by simp
      then show ?thesis by (metis length_Cons list.size(3) less_irrefl numeral_2_eq_2 Suc_1 lessI less_asym)
    qed (use u in simp)
    ultimately show ?thesis unfolding target by (simp add: list_all_iff)
  qed
  then show ?thesis using same[of other] target by simp
qed

theorem relative_import_contained_witness:
  "resolves_to Ruby_Resolver ''import:../lib/animal'' ''app/src/cat.rb'' ''lib/animal.rb'' = Some False
   \<and> list_all (\<lambda>w. w \<noteq> ''.'' \<and> w \<noteq> ''..'') (path_pieces (slashed ''app/lib/animal.rb''))"
proof
  have dir: "plain_dir (file_parent_dir (slashed ''app/src/cat.rb''))"
    and yes: "resolves_to Ruby_Resolver ''import:../lib/animal'' ''app/src/cat.rb'' ''app/lib/animal.rb'' = Some True" by code_simp+
  note both = relative_import_contained[OF _ dir yes]
  show "resolves_to Ruby_Resolver ''import:../lib/animal'' ''app/src/cat.rb'' ''lib/animal.rb'' = Some False"
    using both[THEN conjunct1, of "''lib/animal.rb''"] by (simp add: slashed_def)
  show "list_all (\<lambda>w. w \<noteq> ''.'' \<and> w \<noteq> ''..'') (path_pieces (slashed ''app/lib/animal.rb''))" using both by simp
qed

end
