(* ===== verification/Blast_Radius.thy ===== *)
theory Blast_Radius
  imports Import_Resolve Graph_Tables Doc_Chunks
begin

section \<open>The files a change affects\<close>

text \<open>
  The tool \<open>get_blast_radius\<close> of \<open>crates/travsr-mcp/src/tools.rs\<close>: the walk against the edges from every node
  of a file, the passes that resolve imports without edges, the caps of both, and the text of the answer. The
  reads of the store are a record whose table instance is the SQL of \<open>crates/travsr-store/src/lib.rs\<close>; a read
  that fails is \<open>None\<close>. The HashSets of the code are lists that are only asked for membership.
\<close>

subsection \<open>Reads\<close>

type_synonym import_record = "node_id \<times> string \<times> string \<times> string"

record blast_reads =
  br_at_path :: "string \<Rightarrow> store_node list option"
  br_search :: "string \<Rightarrow> store_node list option"
  br_edges_to :: "node_id \<Rightarrow> stored_edge list option"
  br_nodes :: "node_id list \<Rightarrow> store_node list option"
  br_node :: "node_id \<Rightarrow> store_node option option"
  br_edges_from :: "node_id \<Rightarrow> edge_kind \<Rightarrow> stored_edge list option"
  br_imports :: "import_record list option"

definition sql_at_path :: "store_node list \<Rightarrow> string \<Rightarrow> store_node list" where
  "sql_at_path rows path = filter (\<lambda>n. vn_path (gn_vname n) = path \<and> gn_kind n \<noteq> ''doc-chunk'') rows"

definition sql_edges_to :: "stored_edge list \<Rightarrow> node_id \<Rightarrow> stored_edge list" where
  "sql_edges_to edges dst = filter (\<lambda>e. er_dst e = dst) edges"

definition sql_edges_from :: "stored_edge list \<Rightarrow> node_id \<Rightarrow> edge_kind \<Rightarrow> stored_edge list" where
  "sql_edges_from edges src kind = filter (\<lambda>e. er_src e = src \<and> er_kind e = kind) edges"

definition sql_nodes :: "store_node list \<Rightarrow> node_id list \<Rightarrow> store_node list" where
  "sql_nodes rows ids = filter (\<lambda>n. gn_id n \<in> set ids) rows"

definition sql_imports :: "store_node list \<Rightarrow> import_record list" where
  "sql_imports rows = map (\<lambda>n. (gn_id n, vn_signature (gn_vname n), vn_language (gn_vname n), vn_path (gn_vname n)))
     (filter (\<lambda>n. gn_kind n = ''import'') rows)"

text \<open>Which reads fail; the ranked name search, whose rows only seed the walk, is a parameter.\<close>

datatype blast_query = At_Path string | Edges_To node_id | Nodes_Of "node_id list" | Node_Of node_id
  | Edges_From node_id edge_kind | Import_Nodes

definition blast_table_reads :: "(blast_query \<Rightarrow> bool) \<Rightarrow> (string \<Rightarrow> store_node list option) \<Rightarrow> graph_tables \<Rightarrow> blast_reads" where
  "blast_table_reads ok search g =
     \<lparr>br_at_path = (\<lambda>p. if ok (At_Path p) then Some (sql_at_path (gt_nodes g) p) else None),
      br_search = search,
      br_edges_to = (\<lambda>d. if ok (Edges_To d) then Some (sql_edges_to (gt_edges g) d) else None),
      br_nodes = (\<lambda>is. if ok (Nodes_Of is) then Some (sql_nodes (gt_nodes g) is) else None),
      br_node = (\<lambda>i. if ok (Node_Of i) then Some (row_at gn_id i (gt_nodes g)) else None),
      br_edges_from = (\<lambda>i k. if ok (Edges_From i k) then Some (sql_edges_from (gt_edges g) i k) else None),
      br_imports = (if ok Import_Nodes then Some (sql_imports (gt_nodes g)) else None)\<rparr>"

subsection \<open>Hints and tokens\<close>

datatype analysis_mode = Mode_Tree_Sitter | Mode_Semantic

definition MAX_BLAST_RADIUS_NODES :: nat where "MAX_BLAST_RADIUS_NODES = 50000"
definition DEFAULT_BLAST_RADIUS_FILES :: nat where "DEFAULT_BLAST_RADIUS_FILES = 500"

definition blast_radius_hints :: "string \<Rightarrow> string list" where
  "blast_radius_hints file =
     (let fp = slashed file;
          dir_hint = (case path_parent fp of None \<Rightarrow> None
                      | Some d \<Rightarrow> (case path_file_name d of Some s \<Rightarrow> if s = [] then None else Some s | None \<Rightarrow> None));
          stem_hint = path_file_stem fp
      in (case dir_hint of Some d \<Rightarrow> [d] | None \<Rightarrow> [])
         @ (case stem_hint of Some s \<Rightarrow> if Some s \<noteq> dir_hint then [s] else [] | None \<Rightarrow> []))"

definition import_sig_tokens :: "string \<Rightarrow> string list" where
  "import_sig_tokens sig =
     filter (\<lambda>t. t \<noteq> [])
       (split_on (\<lambda>c. \<not> is_ascii_alnum c) (case strip_prefix sig ''import:'' of Some s \<Rightarrow> s | None \<Rightarrow> sig))"

text \<open>The index from tokens to positions in the list of imports, an entry for every occurrence of a token.\<close>

definition import_token_index :: "import_record list \<Rightarrow> (string \<times> nat) list" where
  "import_token_index recs =
     concat (map (\<lambda>(idx, record). map (\<lambda>t. (t, idx)) (import_sig_tokens (fst (snd record)))) (enumerate 0 recs))"

definition index_lookup :: "(string \<times> nat) list \<Rightarrow> string \<Rightarrow> nat list" where
  "index_lookup index tok = map snd (filter (\<lambda>(t, _). t = tok) index)"

definition target_candidates :: "(string \<times> nat) list \<Rightarrow> string \<Rightarrow> nat list" where
  "target_candidates index file =
     concat (map (\<lambda>hint. concat (map (index_lookup index) (import_sig_tokens hint))) (blast_radius_hints file))"

subsection \<open>The walk\<close>

record blast =
  bl_queue :: "node_id list"
  bl_visited :: "node_id list"
  bl_files :: "string list"
  bl_done :: "string list"
  bl_resolved :: "nat list"

fun seed_walk :: "store_node list \<Rightarrow> blast \<Rightarrow> blast" where
  "seed_walk [] st = st"
| "seed_walk (n # ns) st =
     (let st1 = (if gn_id n \<in> set (bl_visited st) then st
                 else st\<lparr>bl_visited := bl_visited st @ [gn_id n], bl_queue := bl_queue st @ [gn_id n]\<rparr>);
          p = vn_path (gn_vname n)
      in seed_walk ns (if p \<noteq> [] \<and> p \<notin> set (bl_files st1) then st1\<lparr>bl_files := bl_files st1 @ [p]\<rparr> else st1))"

fun followed :: "analysis_mode \<Rightarrow> edge_kind \<Rightarrow> bool" where
  "followed Mode_Tree_Sitter k \<longleftrightarrow> k \<in> {DefinesBinding, RefCall, Depends, ResolvesTo}"
| "followed Mode_Semantic k \<longleftrightarrow> k = RefCall"

text \<open>The ids a filter with \<open>visited.insert\<close> lets through.\<close>

fun fresh_ids :: "node_id list \<Rightarrow> node_id list \<Rightarrow> node_id list" where
  "fresh_ids visited [] = []"
| "fresh_ids visited (i # is) = (if i \<in> set visited then fresh_ids visited is else i # fresh_ids (i # visited) is)"

definition path_map :: "blast_reads \<Rightarrow> node_id list \<Rightarrow> node_id \<Rightarrow> string option" where
  "path_map db ids i =
     map_option (\<lambda>n. vn_path (gn_vname n))
       (row_at gn_id i (rev (case br_nodes db ids of Some ns \<Rightarrow> ns | None \<Rightarrow> [])))"

text \<open>The files of new nodes; \<open>True\<close> when the list has reached the limit.\<close>

fun list_files :: "nat \<Rightarrow> (node_id \<Rightarrow> string option) \<Rightarrow> node_id list \<Rightarrow> string list \<Rightarrow> bool \<times> string list" where
  "list_files limit paths [] files = (False, files)"
| "list_files limit paths (i # is) files =
     (case paths i of
        None \<Rightarrow> list_files limit paths is files
      | Some p \<Rightarrow>
          if p \<noteq> [] \<and> p \<notin> set files then
            if limit \<le> length files + 1 then (True, files @ [p]) else list_files limit paths is (files @ [p])
          else list_files limit paths is files)"

lemma fresh_ids_set: "set (fresh_ids vis is) = set is - set vis"
  by (induction vis "is" rule: fresh_ids.induct) auto

lemma fresh_ids_distinct: "distinct (fresh_ids vis is)"
  by (induction vis "is" rule: fresh_ids.induct) (auto simp: fresh_ids_set)

text \<open>One node of the queue: its new neighbours are queued and their files listed.\<close>

definition walk_step :: "blast_reads \<Rightarrow> analysis_mode \<Rightarrow> nat \<Rightarrow> node_id list \<Rightarrow> stored_edge list \<Rightarrow> blast \<Rightarrow> bool \<times> blast" where
  "walk_step db mode limit queue incoming st =
     (let new = fresh_ids (bl_visited st) (map er_src (filter (\<lambda>e. followed mode (er_kind e)) incoming));
          listed = list_files limit (path_map db new) new (bl_files st)
      in (fst listed, st\<lparr>bl_queue := queue @ new, bl_visited := bl_visited st @ new, bl_files := snd listed\<rparr>))"

function drain_queue :: "blast_reads \<Rightarrow> analysis_mode \<Rightarrow> nat \<Rightarrow> blast \<Rightarrow> bool \<times> blast" where
  "drain_queue db mode limit st =
     (case bl_queue st of
        [] \<Rightarrow> (False, st)
      | i # queue \<Rightarrow>
          (case br_edges_to db i of
             None \<Rightarrow> drain_queue db mode limit (st\<lparr>bl_queue := queue\<rparr>)
           | Some incoming \<Rightarrow>
               if MAX_BLAST_RADIUS_NODES \<le> length (bl_visited st) then (False, st\<lparr>bl_queue := queue\<rparr>)
               else if fst (walk_step db mode limit queue incoming st) then walk_step db mode limit queue incoming st
               else drain_queue db mode limit (snd (walk_step db mode limit queue incoming st))))"
  by pat_completeness auto
termination
proof (relation "measures [\<lambda>(_, _, _, st). MAX_BLAST_RADIUS_NODES - length (bl_visited st), \<lambda>(_, _, _, st). length (bl_queue st)]")
  fix db mode limit and st :: blast and i queue incoming
  assume "bl_queue st = i # queue" "\<not> MAX_BLAST_RADIUS_NODES \<le> length (bl_visited st)"
  then show "((db, mode, limit, snd (walk_step db mode limit queue incoming st)), (db, mode, limit, st))
      \<in> measures [\<lambda>(_, _, _, st). MAX_BLAST_RADIUS_NODES - length (bl_visited st), \<lambda>(_, _, _, st). length (bl_queue st)]"
    by (cases "fresh_ids (bl_visited st) (map er_src (filter (\<lambda>e. followed mode (er_kind e)) incoming))")
      (auto simp: walk_step_def Let_def)
qed auto

declare drain_queue.simps [simp del]

text \<open>The importers of one resolved import.\<close>

fun take_importers :: "nat \<Rightarrow> (node_id \<Rightarrow> string option) \<Rightarrow> node_id list \<Rightarrow> blast \<Rightarrow> bool \<times> blast" where
  "take_importers limit paths [] st = (False, st)"
| "take_importers limit paths (i # is) st =
     (let st1 = (if i \<in> set (bl_visited st) then st
                 else st\<lparr>bl_visited := bl_visited st @ [i], bl_queue := bl_queue st @ [i]\<rparr>)
      in case paths i of
           None \<Rightarrow> take_importers limit paths is st1
         | Some p \<Rightarrow>
             if p \<noteq> [] \<and> p \<notin> set (bl_files st1) then
               let st2 = st1\<lparr>bl_files := bl_files st1 @ [p]\<rparr>
               in if limit \<le> length (bl_files st2) then (True, st2) else take_importers limit paths is st2
             else take_importers limit paths is st1)"

text \<open>The candidates of one file, each at most once; the one slice of a resolver never panics (\<open>resolver_answers\<close>).\<close>

definition import_hits :: "import_record list \<Rightarrow> nat \<Rightarrow> string \<Rightarrow> bool" where
  "import_hits recs idx target =
     (case recs ! idx of (_, sig, lang, path) \<Rightarrow> resolves_to (resolver_for_language lang) sig path target = Some True)"

fun try_imports :: "blast_reads \<Rightarrow> import_record list \<Rightarrow> nat \<Rightarrow> string \<Rightarrow> nat list \<Rightarrow> nat list \<Rightarrow> blast \<Rightarrow> bool \<times> blast" where
  "try_imports db recs limit target seen [] st = (False, st)"
| "try_imports db recs limit target seen (idx # cands) st =
     (if idx \<in> set (bl_resolved st) \<or> idx \<in> set seen then try_imports db recs limit target seen cands st
      else if \<not> import_hits recs idx target then try_imports db recs limit target (idx # seen) cands st
      else case br_edges_to db (fst (recs ! idx)) of
             None \<Rightarrow> try_imports db recs limit target (idx # seen) cands st
           | Some edges \<Rightarrow>
               let srcs = map er_src (filter (\<lambda>e. er_kind e = Depends) edges);
                   taken = take_importers limit (path_map db srcs) srcs (st\<lparr>bl_resolved := idx # bl_resolved st\<rparr>)
               in if fst taken then taken else try_imports db recs limit target (idx # seen) cands (snd taken))"

fun resolve_targets :: "blast_reads \<Rightarrow> import_record list \<Rightarrow> (string \<times> nat) list \<Rightarrow> nat \<Rightarrow> string list \<Rightarrow> blast \<Rightarrow> bool \<times> blast" where
  "resolve_targets db recs index limit [] st = (False, st)"
| "resolve_targets db recs index limit (f # todo) st =
     (let tried = try_imports db recs limit f [] (target_candidates index f) (st\<lparr>bl_done := bl_done st @ [f]\<rparr>)
      in if fst tried then tried else resolve_targets db recs index limit todo (snd tried))"

subsection \<open>What the passes keep\<close>

lemma list_files_grows: "set files \<subseteq> set (snd (list_files limit paths is files))"
proof (induction limit paths "is" files rule: list_files.induct)
  case (2 limit paths i "is" files)
  then show ?case by (cases "paths i") (auto simp: subset_iff)
qed simp

text \<open>A property of every state of the walk, and what it gives for each of the ways it ends.\<close>

lemma drain_rule:
  assumes "P st"
    and skip: "\<And>st i queue. P st \<Longrightarrow> bl_queue st = i # queue \<Longrightarrow> br_edges_to db i = None \<Longrightarrow> P (st\<lparr>bl_queue := queue\<rparr>)"
    and step: "\<And>st i queue es. P st \<Longrightarrow> bl_queue st = i # queue \<Longrightarrow> br_edges_to db i = Some es \<Longrightarrow>
      length (bl_visited st) < MAX_BLAST_RADIUS_NODES \<Longrightarrow> \<not> fst (walk_step db mode limit queue es st) \<Longrightarrow>
      P (snd (walk_step db mode limit queue es st))"
    and stop: "\<And>st i queue es. P st \<Longrightarrow> bl_queue st = i # queue \<Longrightarrow> br_edges_to db i = Some es \<Longrightarrow>
      fst (walk_step db mode limit queue es st) \<Longrightarrow> Q True (snd (walk_step db mode limit queue es st))"
    and full: "\<And>st i queue. P st \<Longrightarrow> bl_queue st = i # queue \<Longrightarrow> MAX_BLAST_RADIUS_NODES \<le> length (bl_visited st) \<Longrightarrow>
      Q False (st\<lparr>bl_queue := queue\<rparr>)"
    and empty: "\<And>st. P st \<Longrightarrow> bl_queue st = [] \<Longrightarrow> Q False st"
  shows "Q (fst (drain_queue db mode limit st)) (snd (drain_queue db mode limit st))"
proof -
  have "P st \<longrightarrow> Q (fst (drain_queue d m l st)) (snd (drain_queue d m l st))" if "d = db" "m = mode" "l = limit" for d m l
    using that
  proof (induction d m l st rule: drain_queue.induct)
    case (1 d m l st)
    show ?case
    proof (cases "bl_queue st")
      case Nil
      then show ?thesis by (subst (1 2) drain_queue.simps) (simp add: empty)
    next
      case (Cons i queue)
      show ?thesis
      proof (cases "br_edges_to d i")
        case None
        from 1(1)[OF Cons None 1(3,4,5)] skip[OF _ Cons] None 1(3) show ?thesis
          by (subst (1 2) drain_queue.simps) (simp add: Cons)
      next
        case (Some es)
        then have es: "br_edges_to db i = Some es" using 1(3) by simp
        show ?thesis
        proof (cases "MAX_BLAST_RADIUS_NODES \<le> length (bl_visited st)")
          case True
          with full[OF _ Cons] show ?thesis by (subst (1 2) drain_queue.simps) (simp add: Cons Some es)
        next
          case False
          show ?thesis
          proof (cases "fst (walk_step d m l queue es st)")
            case True
            with False stop[OF _ Cons es] 1(3-5) show ?thesis by (subst (1 2) drain_queue.simps) (simp add: Cons Some es)
          next
            case go: False
            from 1(2)[OF Cons Some False go 1(3-5)] step[OF _ Cons es] False go 1(3-5) show ?thesis
              by (subst (1 2) drain_queue.simps) (simp add: Cons Some es)
          qed
        qed
      qed
    qed
  qed
  with assms(1) show ?thesis by blast
qed

lemma drain_grows:
  "set (bl_files st) \<subseteq> set (bl_files (snd (drain_queue db mode limit st)))
   \<and> bl_done (snd (drain_queue db mode limit st)) = bl_done st
   \<and> bl_resolved (snd (drain_queue db mode limit st)) = bl_resolved st"
proof (rule drain_rule[where P = "\<lambda>s. set (bl_files st) \<subseteq> set (bl_files s) \<and> bl_done s = bl_done st \<and> bl_resolved s = bl_resolved st"])
qed (use list_files_grows in \<open>fastforce simp: walk_step_def Let_def\<close>)+

lemma take_importers_grows:
  "set (bl_files st) \<subseteq> set (bl_files (snd (take_importers limit paths is st)))
   \<and> bl_done (snd (take_importers limit paths is st)) = bl_done st"
proof (induction limit paths "is" st rule: take_importers.induct)
  case (2 limit paths i "is" st)
  then show ?case by (cases "paths i") (auto simp: Let_def subset_iff)
qed simp

lemma try_imports_grows:
  "set (bl_files st) \<subseteq> set (bl_files (snd (try_imports db recs limit target seen cands st)))
   \<and> bl_done (snd (try_imports db recs limit target seen cands st)) = bl_done st"
proof (induction db recs limit target seen cands st rule: try_imports.induct)
  case (2 db recs limit target seen idx cands st)
  show ?case
  proof (cases "idx \<in> set (bl_resolved st) \<or> idx \<in> set seen \<or> \<not> import_hits recs idx target \<or> br_edges_to db (fst (recs ! idx)) = None")
    case True
    with 2 show ?thesis by auto
  next
    case False
    then obtain edges where e: "br_edges_to db (fst (recs ! idx)) = Some edges" by blast
    let ?srcs = "map er_src (filter (\<lambda>e. er_kind e = Depends) edges)"
    let ?taken = "take_importers limit (path_map db ?srcs) ?srcs (st\<lparr>bl_resolved := idx # bl_resolved st\<rparr>)"
    note t = take_importers_grows[of "st\<lparr>bl_resolved := idx # bl_resolved st\<rparr>" limit "path_map db ?srcs" ?srcs]
    have eq: "try_imports db recs limit target seen (idx # cands) st =
        (if fst ?taken then ?taken else try_imports db recs limit target (idx # seen) cands (snd ?taken))"
      using False e by (simp add: Let_def)
    show ?thesis
    proof (cases "fst ?taken")
      case True
      with t show ?thesis unfolding eq by simp
    next
      case stop: False
      have "set (bl_files (snd ?taken)) \<subseteq> set (bl_files (snd (try_imports db recs limit target (idx # seen) cands (snd ?taken))))
          \<and> bl_done (snd (try_imports db recs limit target (idx # seen) cands (snd ?taken))) = bl_done (snd ?taken)"
        using 2(4)[OF _ _ e refl refl] False stop by simp
      with t stop show ?thesis unfolding eq by auto
    qed
  qed
qed simp

lemma resolve_targets_grows:
  "set (bl_files st) \<subseteq> set (bl_files (snd (resolve_targets db recs index limit todo st)))"
  "\<not> fst (resolve_targets db recs index limit todo st) \<Longrightarrow> bl_done (snd (resolve_targets db recs index limit todo st)) = bl_done st @ todo"
proof (induction todo arbitrary: st)
  case (Cons f todo)
  {
    case 1
    let ?tried = "try_imports db recs limit f [] (target_candidates index f) (st\<lparr>bl_done := bl_done st @ [f]\<rparr>)"
    from try_imports_grows[of "st\<lparr>bl_done := bl_done st @ [f]\<rparr>" db recs limit f "[]" "target_candidates index f"]
    have "set (bl_files st) \<subseteq> set (bl_files (snd ?tried))" by simp
    with order_trans[OF this Cons.IH(1)[of "snd ?tried"]] show ?case by (simp add: Let_def)
  next
    case 2
    let ?tried = "try_imports db recs limit f [] (target_candidates index f) (st\<lparr>bl_done := bl_done st @ [f]\<rparr>)"
    from try_imports_grows[of "st\<lparr>bl_done := bl_done st @ [f]\<rparr>" db recs limit f "[]" "target_candidates index f"]
      2 Cons.IH(2)[of "snd ?tried"] show ?case by (simp add: Let_def split: if_splits)
  }
qed simp_all

subsection \<open>The fixpoint\<close>

function blast_loop :: "blast_reads \<Rightarrow> import_record list \<Rightarrow> (string \<times> nat) list \<Rightarrow> analysis_mode \<Rightarrow> nat \<Rightarrow> blast \<Rightarrow> blast" where
  "blast_loop db recs index mode limit st =
     (let drained = drain_queue db mode limit st; st1 = snd drained
      in if fst drained \<or> mode \<noteq> Mode_Tree_Sitter then st1
         else if MAX_BLAST_RADIUS_NODES \<le> length (bl_visited st1) \<or> MAX_BLAST_RADIUS_NODES \<le> length (bl_files st1) then st1
         else
           let todo = filter (\<lambda>f. f \<notin> set (bl_done st1)) (bl_files st1)
           in if todo = [] then st1
              else
                let resolved = resolve_targets db recs index limit todo st1
                in if fst resolved then snd resolved else blast_loop db recs index mode limit (snd resolved))"
  by pat_completeness auto
termination
proof (relation "measure (\<lambda>(_, _, _, _, _, st). MAX_BLAST_RADIUS_NODES - card (set (bl_files st) \<inter> set (bl_done st)))")
  fix db recs index mode limit and st st1 :: blast and drained todo resolved
  assume d: "drained = drain_queue db mode limit st" "st1 = snd drained"
    and ceiling: "\<not> (MAX_BLAST_RADIUS_NODES \<le> length (bl_visited st1) \<or> MAX_BLAST_RADIUS_NODES \<le> length (bl_files st1))"
    and todo: "todo = filter (\<lambda>f. f \<notin> set (bl_done st1)) (bl_files st1)" "todo \<noteq> []"
    and r: "resolved = resolve_targets db recs index limit todo st1" "\<not> fst resolved"
  let ?F = "set (bl_files st1)" and ?D = "set (bl_done st)"
  have keep: "set (bl_files st) \<subseteq> ?F" "bl_done st1 = bl_done st"
    using drain_grows[of st db mode limit] by (simp_all add: d)
  have "?F \<subseteq> set (bl_files (snd resolved)) \<inter> set (bl_done (snd resolved))"
    using resolve_targets_grows[where todo = todo and st = st1 and db = db and recs = recs and index = index and limit = limit] r todo(1) by auto
  then have new: "card ?F \<le> card (set (bl_files (snd resolved)) \<inter> set (bl_done (snd resolved)))" by (rule card_mono[rotated]) simp
  have "?F \<inter> ?D \<subset> ?F" using todo keep(2) by (auto simp: filter_empty_conv)
  then have "card (?F \<inter> ?D) < card ?F" by (simp add: psubset_card_mono)
  moreover have "card (set (bl_files st) \<inter> ?D) \<le> card (?F \<inter> ?D)" using keep(1) by (intro card_mono) auto
  moreover have "card ?F < MAX_BLAST_RADIUS_NODES" using ceiling card_length[of "bl_files st1"] by linarith
  ultimately show "((db, recs, index, mode, limit, snd resolved), (db, recs, index, mode, limit, st))
      \<in> measure (\<lambda>(_, _, _, _, _, st). MAX_BLAST_RADIUS_NODES - card (set (bl_files st) \<inter> set (bl_done st)))"
    using new by simp
qed simp

declare blast_loop.simps [simp del]

text \<open>The imports of the bulk read, which only the syntactic mode makes; without it the pass is skipped.\<close>

definition import_records :: "blast_reads \<Rightarrow> analysis_mode \<Rightarrow> import_record list" where
  "import_records db mode =
     (if mode = Mode_Tree_Sitter then (case br_imports db of Some recs \<Rightarrow> recs | None \<Rightarrow> []) else [])"

definition blast_start :: "store_node list \<Rightarrow> blast" where
  "blast_start seeds = seed_walk seeds \<lparr>bl_queue = [], bl_visited = [], bl_files = [], bl_done = [], bl_resolved = []\<rparr>"

definition blast_walk :: "blast_reads \<Rightarrow> analysis_mode \<Rightarrow> nat \<Rightarrow> store_node list \<Rightarrow> blast" where
  "blast_walk db mode limit seeds =
     (let recs = import_records db mode in blast_loop db recs (import_token_index recs) mode limit (blast_start seeds))"

subsection \<open>What a change affects\<close>

text \<open>An import is a candidate for a file when its text and a hint of the file share a token.\<close>

definition shares_token :: "string \<Rightarrow> string \<Rightarrow> bool" where
  "shares_token sig file \<longleftrightarrow> (\<exists>hint\<in>set (blast_radius_hints file). \<exists>t\<in>set (import_sig_tokens hint). t \<in> set (import_sig_tokens sig))"

inductive touched :: "store_node list \<Rightarrow> stored_edge list \<Rightarrow> analysis_mode \<Rightarrow> store_node list \<Rightarrow> node_id \<Rightarrow> bool"
  for rows edges mode seeds where
  seed: "n \<in> set seeds \<Longrightarrow> touched rows edges mode seeds (gn_id n)"
| edge: "touched rows edges mode seeds (er_dst e) \<Longrightarrow> e \<in> set edges \<Longrightarrow> followed mode (er_kind e) \<Longrightarrow>
    touched rows edges mode seeds (er_src e)"
| import_of: "mode = Mode_Tree_Sitter \<Longrightarrow> touched rows edges mode seeds (gn_id n) \<Longrightarrow> n \<in> set rows \<Longrightarrow>
    vn_path (gn_vname n) = file \<Longrightarrow> file \<noteq> [] \<Longrightarrow> imp \<in> set rows \<Longrightarrow> gn_kind imp = ''import'' \<Longrightarrow>
    shares_token (vn_signature (gn_vname imp)) file \<Longrightarrow>
    resolves_to (resolver_for_language (vn_language (gn_vname imp))) (vn_signature (gn_vname imp))
      (vn_path (gn_vname imp)) file = Some True \<Longrightarrow>
    e \<in> set edges \<Longrightarrow> er_dst e = gn_id imp \<Longrightarrow> er_kind e = Depends \<Longrightarrow> touched rows edges mode seeds (er_src e)"

definition impacted :: "store_node list \<Rightarrow> stored_edge list \<Rightarrow> analysis_mode \<Rightarrow> store_node list \<Rightarrow> string \<Rightarrow> bool" where
  "impacted rows edges mode seeds file \<longleftrightarrow>
     file \<noteq> [] \<and> (\<exists>n\<in>set rows. touched rows edges mode seeds (gn_id n) \<and> vn_path (gn_vname n) = file)"

lemma index_lookup_set: "set (index_lookup index t) = {i. (t, i) \<in> set index}"
  by (auto simp: index_lookup_def image_iff)

lemma import_token_index_set:
  "(t, i) \<in> set (import_token_index recs) \<longleftrightarrow> i < length recs \<and> t \<in> set (import_sig_tokens (fst (snd (recs ! i))))"
proof -
  have "(t, i) \<in> set (import_token_index recs) \<longleftrightarrow>
      (\<exists>record. (i, record) \<in> set (enumerate 0 recs) \<and> t \<in> set (import_sig_tokens (fst (snd record))))"
    by (force simp: import_token_index_def)
  then show ?thesis by (simp add: in_set_enumerate_eq)
qed

lemma candidate_iff:
  "i \<in> set (target_candidates (import_token_index recs) file) \<longleftrightarrow>
     i < length recs \<and> shares_token (fst (snd (recs ! i))) file"
  unfolding target_candidates_def shares_token_def set_concat set_map
  by (auto simp: index_lookup_set import_token_index_set)

subsection \<open>The walk stays among what is affected\<close>

locale blast_contract =
  fixes db :: blast_reads and rows :: "store_node list" and edges :: "stored_edge list"
  assumes edges_read: "br_edges_to db d = Some es \<Longrightarrow> set es = {e \<in> set edges. er_dst e = d}"
    and nodes_read: "br_nodes db ids = Some ns \<Longrightarrow> set ns = {n \<in> set rows. gn_id n \<in> set ids}"
    and imports_read: "br_imports db = Some recs \<Longrightarrow> set recs = set (sql_imports rows)"
begin

lemma path_map_row: "path_map db ids i = Some p \<Longrightarrow> \<exists>n\<in>set rows. gn_id n = i \<and> vn_path (gn_vname n) = p"
proof -
  assume "path_map db ids i = Some p"
  then obtain n where n: "row_at gn_id i (rev (case br_nodes db ids of Some ns \<Rightarrow> ns | None \<Rightarrow> [])) = Some n"
    and p: "vn_path (gn_vname n) = p" by (auto simp: path_map_def)
  from row_at_Some[OF n] have "gn_id n = i" "n \<in> set rows"
    using nodes_read by (auto split: option.splits)
  with p show ?thesis by blast
qed

lemma import_record_row:
  assumes "i < length (import_records db mode)"
  shows "mode = Mode_Tree_Sitter \<and> (\<exists>imp\<in>set rows. gn_kind imp = ''import'' \<and> import_records db mode ! i =
    (gn_id imp, vn_signature (gn_vname imp), vn_language (gn_vname imp), vn_path (gn_vname imp)))"
proof -
  from assms obtain recs where recs: "mode = Mode_Tree_Sitter" "br_imports db = Some recs"
    by (auto simp: import_records_def split: if_splits option.splits)
  with nth_mem[OF assms] imports_read[OF recs(2)] have "import_records db mode ! i \<in> set (sql_imports rows)"
    by (simp add: import_records_def)
  with recs(1) show ?thesis by (auto simp: sql_imports_def)
qed

end

definition walk_sound :: "store_node list \<Rightarrow> stored_edge list \<Rightarrow> analysis_mode \<Rightarrow> store_node list \<Rightarrow> blast \<Rightarrow> bool" where
  "walk_sound rows edges mode seeds st \<longleftrightarrow>
     list_all (touched rows edges mode seeds) (bl_queue st @ bl_visited st)
     \<and> list_all (impacted rows edges mode seeds) (bl_files st)"

lemma walk_sound_pop:
  "walk_sound rows edges mode seeds st \<Longrightarrow> bl_queue st = i # queue \<Longrightarrow> walk_sound rows edges mode seeds (st\<lparr>bl_queue := queue\<rparr>)"
  by (simp add: walk_sound_def)

lemma seed_walk_sound:
  "set ns \<subseteq> set seeds \<Longrightarrow> set seeds \<subseteq> set rows \<Longrightarrow> walk_sound rows edges mode seeds st \<Longrightarrow>
     walk_sound rows edges mode seeds (seed_walk ns st)"
proof (induction ns st rule: seed_walk.induct)
  case (2 n ns st)
  then have "touched rows edges mode seeds (gn_id n)" by (auto intro: touched.seed)
  moreover from this 2 have "vn_path (gn_vname n) \<noteq> [] \<Longrightarrow> impacted rows edges mode seeds (vn_path (gn_vname n))"
    by (auto simp: impacted_def)
  ultimately show ?case using 2 by (simp add: Let_def walk_sound_def)
qed simp

context blast_contract
begin

lemma list_files_sound:
  assumes "\<forall>i\<in>set is. touched rows edges mode seeds i" "list_all (impacted rows edges mode seeds) files"
  shows "list_all (impacted rows edges mode seeds) (snd (list_files limit (path_map db ids) is files))"
  using assms
proof (induction "is" arbitrary: files)
  case (Cons i "is")
  have new: "impacted rows edges mode seeds p" if "path_map db ids i = Some p" "p \<noteq> []" for p
    using path_map_row[OF that(1)] that(2) Cons.prems(1) by (auto simp: impacted_def)
  show ?case
  proof (cases "path_map db ids i")
    case None
    with Cons show ?thesis by simp
  next
    case (Some p)
    with Cons.prems new[OF Some] Cons.IH[of files] Cons.IH[of "files @ [p]"] show ?thesis by simp
  qed
qed simp

lemma walk_step_sound:
  assumes "walk_sound rows edges mode seeds st" "bl_queue st = i # queue" "br_edges_to db i = Some es"
  shows "walk_sound rows edges mode seeds (snd (walk_step db mode limit queue es st))"
proof -
  let ?new = "fresh_ids (bl_visited st) (map er_src (filter (\<lambda>e. followed mode (er_kind e)) es))"
  have "touched rows edges mode seeds i" using assms(1,2) by (simp add: walk_sound_def)
  then have new: "\<forall>j\<in>set ?new. touched rows edges mode seeds j"
    using edges_read[OF assms(3)] by (auto simp: fresh_ids_set intro: touched.edge)
  from list_files_sound[OF new, of "bl_files st" limit ?new] assms(1,2) new show ?thesis
    by (auto simp: walk_sound_def walk_step_def Let_def list_all_iff)
qed

lemma drain_sound: "walk_sound rows edges mode seeds st \<Longrightarrow> walk_sound rows edges mode seeds (snd (drain_queue db mode limit st))"
  by (rule drain_rule[where P = "walk_sound rows edges mode seeds" and Q = "\<lambda>_. walk_sound rows edges mode seeds"])
    (auto intro: walk_step_sound walk_sound_pop)

lemma take_importers_sound:
  assumes "\<forall>i\<in>set is. touched rows edges mode seeds i" "walk_sound rows edges mode seeds st"
  shows "walk_sound rows edges mode seeds (snd (take_importers limit (path_map db ids) is st))"
  using assms
proof (induction "is" arbitrary: st)
  case (Cons i "is")
  let ?st = "if i \<in> set (bl_visited st) then st
    else st\<lparr>bl_visited := bl_visited st @ [i], bl_queue := bl_queue st @ [i]\<rparr>"
  have st: "walk_sound rows edges mode seeds ?st" using Cons.prems by (simp add: walk_sound_def)
  show ?case
  proof (cases "\<exists>p. path_map db ids i = Some p \<and> p \<noteq> [] \<and> p \<notin> set (bl_files ?st)")
    case True
    then obtain p where p: "path_map db ids i = Some p" "p \<noteq> []" "p \<notin> set (bl_files ?st)" by blast
    have "walk_sound rows edges mode seeds (?st\<lparr>bl_files := bl_files ?st @ [p]\<rparr>)"
      using st path_map_row[OF p(1)] p(2) Cons.prems(1) by (auto simp: walk_sound_def impacted_def)
    with Cons.IH[of "?st\<lparr>bl_files := bl_files ?st @ [p]\<rparr>"] Cons.prems(1) p show ?thesis by (simp add: Let_def)
  next
    case False
    then have "take_importers limit (path_map db ids) (i # is) st = take_importers limit (path_map db ids) is ?st"
      by (auto simp: Let_def split: option.splits)
    with Cons.IH[OF _ st] Cons.prems(1) show ?thesis by simp
  qed
qed simp

lemma import_touched:
  assumes "i \<in> set (target_candidates (import_token_index (import_records db mode)) f)"
    "import_hits (import_records db mode) i f" "impacted rows edges mode seeds f"
    "br_edges_to db (fst (import_records db mode ! i)) = Some es"
  shows "\<forall>j\<in>set (map er_src (filter (\<lambda>e. er_kind e = Depends) es)). touched rows edges mode seeds j"
proof -
  have i: "i < length (import_records db mode)" "shares_token (fst (snd (import_records db mode ! i))) f"
    using assms(1) by (simp_all add: candidate_iff)
  from import_record_row[OF i(1)] obtain imp where mode: "mode = Mode_Tree_Sitter" and imp: "imp \<in> set rows" "gn_kind imp = ''import''"
    and r: "import_records db mode ! i = (gn_id imp, vn_signature (gn_vname imp), vn_language (gn_vname imp), vn_path (gn_vname imp))"
    by blast
  from assms(3) obtain n where n: "f \<noteq> []" "n \<in> set rows" "touched rows edges mode seeds (gn_id n)" "vn_path (gn_vname n) = f"
    by (auto simp: impacted_def)
  have "touched rows edges mode seeds (er_src e)" if "e \<in> set es" "er_kind e = Depends" for e
  proof (rule touched.import_of[OF mode n(3,2,4,1) imp])
    show "shares_token (vn_signature (gn_vname imp)) f" using i(2) r by simp
    show "resolves_to (resolver_for_language (vn_language (gn_vname imp))) (vn_signature (gn_vname imp)) (vn_path (gn_vname imp)) f = Some True"
      using assms(2) r by (simp add: import_hits_def)
    show "e \<in> set edges" "er_dst e = gn_id imp" using that(1) edges_read[OF assms(4)] r by auto
  qed (rule that(2))
  then show ?thesis by auto
qed

lemma try_imports_sound:
  assumes "set cands \<subseteq> set (target_candidates (import_token_index (import_records db mode)) f)"
    "impacted rows edges mode seeds f" "walk_sound rows edges mode seeds st"
  shows "walk_sound rows edges mode seeds (snd (try_imports db (import_records db mode) limit f seen cands st))"
  using assms(1,3)
proof (induction cands arbitrary: seen st)
  case (Cons i cands)
  let ?recs = "import_records db mode"
  show ?case
  proof (cases "i \<in> set (bl_resolved st) \<or> i \<in> set seen \<or> \<not> import_hits ?recs i f \<or> br_edges_to db (fst (?recs ! i)) = None")
    case True
    with Cons.prems Cons.IH[of st seen] Cons.IH[of st "i # seen"] show ?thesis by auto
  next
    case False
    then obtain es where es: "br_edges_to db (fst (?recs ! i)) = Some es" by blast
    let ?srcs = "map er_src (filter (\<lambda>e. er_kind e = Depends) es)"
    let ?taken = "take_importers limit (path_map db ?srcs) ?srcs (st\<lparr>bl_resolved := i # bl_resolved st\<rparr>)"
    have "walk_sound rows edges mode seeds (snd ?taken)"
      using import_touched[OF _ _ assms(2) es] False Cons.prems by (intro take_importers_sound) (auto simp: walk_sound_def)
    moreover from this have "walk_sound rows edges mode seeds (snd (try_imports db ?recs limit f (i # seen) cands (snd ?taken)))"
      using Cons.prems(1) by (intro Cons.IH) auto
    ultimately show ?thesis using False es by (simp add: Let_def)
  qed
qed simp

lemma resolve_targets_sound:
  assumes "\<forall>f\<in>set todo. impacted rows edges mode seeds f" "walk_sound rows edges mode seeds st"
  shows "walk_sound rows edges mode seeds
    (snd (resolve_targets db (import_records db mode) (import_token_index (import_records db mode)) limit todo st))"
  using assms
proof (induction todo arbitrary: st)
  case (Cons f todo)
  let ?recs = "import_records db mode"
  let ?tried = "try_imports db ?recs limit f [] (target_candidates (import_token_index ?recs) f) (st\<lparr>bl_done := bl_done st @ [f]\<rparr>)"
  have "walk_sound rows edges mode seeds (snd ?tried)"
    using Cons.prems by (intro try_imports_sound) (auto simp: walk_sound_def)
  with Cons.IH[of "snd ?tried"] Cons.prems(1) show ?case by (simp add: Let_def)
qed simp

end

text \<open>The rule for the passes: an invariant at the head, and what each way out gives.\<close>

lemma blast_loop_rule:
  assumes "P st"
    and early: "\<And>st. P st \<Longrightarrow> fst (drain_queue db mode limit st) \<or> mode \<noteq> Mode_Tree_Sitter
        \<or> MAX_BLAST_RADIUS_NODES \<le> length (bl_visited (snd (drain_queue db mode limit st)))
        \<or> MAX_BLAST_RADIUS_NODES \<le> length (bl_files (snd (drain_queue db mode limit st))) \<Longrightarrow>
      Q (snd (drain_queue db mode limit st))"
    and closed: "\<And>st. P st \<Longrightarrow> \<not> fst (drain_queue db mode limit st) \<Longrightarrow>
      set (bl_files (snd (drain_queue db mode limit st))) \<subseteq> set (bl_done (snd (drain_queue db mode limit st))) \<Longrightarrow>
      Q (snd (drain_queue db mode limit st))"
    and pass: "\<And>st st1 todo. P st \<Longrightarrow> drain_queue db mode limit st = (False, st1) \<Longrightarrow> mode = Mode_Tree_Sitter \<Longrightarrow>
      length (bl_visited st1) < MAX_BLAST_RADIUS_NODES \<Longrightarrow> todo = filter (\<lambda>f. f \<notin> set (bl_done st1)) (bl_files st1) \<Longrightarrow>
      (if fst (resolve_targets db recs index limit todo st1) then Q (snd (resolve_targets db recs index limit todo st1))
       else P (snd (resolve_targets db recs index limit todo st1)))"
  shows "Q (blast_loop db recs index mode limit st)"
proof -
  have "P st \<longrightarrow> Q (blast_loop d r ix m l st)" if "d = db" "r = recs" "ix = index" "m = mode" "l = limit" for d r ix m l
    using that
  proof (induction d r ix m l st rule: blast_loop.induct)
    case (1 d r ix m l st)
    let ?d = "drain_queue d m l st"
    let ?todo = "filter (\<lambda>f. f \<notin> set (bl_done (snd ?d))) (bl_files (snd ?d))"
    let ?r = "resolve_targets d r ix l ?todo (snd ?d)"
    note same = 1(2-6)
    show ?case
    proof
      assume P: "P st"
      show "Q (blast_loop d r ix m l st)"
      proof (cases "fst ?d \<or> m \<noteq> Mode_Tree_Sitter \<or> MAX_BLAST_RADIUS_NODES \<le> length (bl_visited (snd ?d))
          \<or> MAX_BLAST_RADIUS_NODES \<le> length (bl_files (snd ?d))")
        case True
        then have "blast_loop d r ix m l st = snd ?d" by (subst blast_loop.simps) (auto simp: Let_def)
        with early[OF P] True same show ?thesis by simp
      next
        case go: False
        show ?thesis
        proof (cases "?todo = []")
          case True
          then have "blast_loop d r ix m l st = snd ?d" by (subst blast_loop.simps) (auto simp: Let_def)
          with closed[OF P] True go same show ?thesis by (simp add: filter_empty_conv subset_iff)
        next
          case False
          then have eq: "blast_loop d r ix m l st = (if fst ?r then snd ?r else blast_loop d r ix m l (snd ?r))"
            using go by (subst blast_loop.simps) (simp add: Let_def)
          have "drain_queue db mode limit st = (False, snd ?d)" using go same by (simp add: prod_eq_iff)
          note pass[OF P this _ _ refl]
          then have "if fst ?r then Q (snd ?r) else P (snd ?r)" using go unfolding same by (simp add: not_le)
          moreover have "P (snd ?r) \<longrightarrow> Q (blast_loop d r ix m l (snd ?r))" if "\<not> fst ?r"
            using 1(1)[OF refl refl _ _ refl False refl that same] go by simp
          ultimately show ?thesis unfolding eq by auto
        qed
      qed
    qed
  qed
  with assms(1) show ?thesis by blast
qed

context blast_contract
begin

lemma walk_is_sound:
  assumes "set seeds \<subseteq> set rows"
  shows "walk_sound rows edges mode seeds (blast_walk db mode limit seeds)"
  unfolding blast_walk_def Let_def
proof (rule blast_loop_rule[where P = "walk_sound rows edges mode seeds"])
  show "walk_sound rows edges mode seeds (blast_start seeds)"
    unfolding blast_start_def using assms by (intro seed_walk_sound) (simp_all add: walk_sound_def)
next
  fix st st1 :: blast and todo
  let ?r = "resolve_targets db (import_records db mode) (import_token_index (import_records db mode)) limit todo st1"
  assume "walk_sound rows edges mode seeds st" and d: "drain_queue db mode limit st = (False, st1)"
    and todo: "todo = filter (\<lambda>f. f \<notin> set (bl_done st1)) (bl_files st1)"
  then have "walk_sound rows edges mode seeds st1" using drain_sound[of mode seeds st limit] by simp
  then have "walk_sound rows edges mode seeds (snd ?r)"
    unfolding todo by (intro resolve_targets_sound) (auto simp: walk_sound_def list_all_iff)
  then show "if fst ?r then walk_sound rows edges mode seeds (snd ?r) else walk_sound rows edges mode seeds (snd ?r)" by simp
qed (auto intro: drain_sound)

end

subsection \<open>The walk finds all of it\<close>

lemma list_files_limit: "fst (list_files limit paths is files) \<Longrightarrow> limit \<le> length (snd (list_files limit paths is files))"
  by (induction limit paths "is" files rule: list_files.induct) (auto split: option.splits if_splits)

lemma walk_step_limit: "fst (walk_step db mode limit queue es st) \<Longrightarrow> limit \<le> length (bl_files (snd (walk_step db mode limit queue es st)))"
  by (simp add: walk_step_def Let_def list_files_limit)

lemma list_files_all:
  "\<not> fst (list_files limit paths is files) \<Longrightarrow> i \<in> set is \<Longrightarrow> paths i = Some p \<Longrightarrow> p \<noteq> [] \<Longrightarrow>
     p \<in> set (snd (list_files limit paths is files))"
proof (induction limit paths "is" files rule: list_files.induct)
  case (2 limit paths j "is" files)
  show ?case
  proof (cases "i = j")
    case True
    with 2(5,6) list_files_grows[of "if p \<in> set files then files else files @ [p]" limit paths "is"] 2(4)
    show ?thesis using 2(7) by (auto simp: Let_def split: if_splits)
  next
    case False
    with 2 show ?thesis by (auto split: option.splits if_splits)
  qed
qed simp

text \<open>
  What the walk has dealt with: the nodes it has left, the imports \<open>R\<close> it has resolved and the files \<open>H\<close> whose
  importers it has looked up.
\<close>

definition walk_closed ::
  "store_node list \<Rightarrow> stored_edge list \<Rightarrow> analysis_mode \<Rightarrow> import_record list \<Rightarrow> store_node list \<Rightarrow> string set \<Rightarrow> nat set \<Rightarrow> blast \<Rightarrow> bool" where
  "walk_closed rows edges mode recs seeds H R st \<longleftrightarrow>
     set (bl_queue st) \<union> gn_id ` set seeds \<subseteq> set (bl_visited st)
     \<and> (\<forall>e\<in>set edges. er_dst e \<in> set (bl_visited st) - set (bl_queue st) \<longrightarrow> followed mode (er_kind e) \<longrightarrow> er_src e \<in> set (bl_visited st))
     \<and> (\<forall>n\<in>set rows. gn_id n \<in> set (bl_visited st) \<longrightarrow> vn_path (gn_vname n) \<noteq> [] \<longrightarrow> vn_path (gn_vname n) \<in> set (bl_files st))
     \<and> (\<forall>i\<in>R. \<forall>e\<in>set edges. er_dst e = fst (recs ! i) \<longrightarrow> er_kind e = Depends \<longrightarrow> er_src e \<in> set (bl_visited st))
     \<and> (\<forall>f\<in>H. \<forall>i\<in>set (target_candidates (import_token_index recs) f). import_hits recs i f \<longrightarrow> i \<in> R)"

text \<open>One more node, with its path: what both loops of the walk do.\<close>

lemma walk_closed_visit:
  assumes "walk_closed rows edges mode recs seeds H R st"
    and "set (bl_visited st') = set (bl_visited st) \<union> V" "set (bl_queue st) \<union> (V - set (bl_visited st)) = set (bl_queue st')"
    and "set (bl_files st) \<subseteq> set (bl_files st')"
    and "\<And>n. n \<in> set rows \<Longrightarrow> gn_id n \<in> V \<Longrightarrow> vn_path (gn_vname n) \<noteq> [] \<Longrightarrow> vn_path (gn_vname n) \<in> set (bl_files st')"
  shows "walk_closed rows edges mode recs seeds H R st'"
  using assms(1,4,5) unfolding walk_closed_def assms(2) assms(3)[symmetric] by blast

lemma seed_walk_result:
  "set (bl_visited (seed_walk ns st)) = set (bl_visited st) \<union> gn_id ` set ns"
  "set (bl_queue (seed_walk ns st)) = set (bl_queue st) \<union> (gn_id ` set ns - set (bl_visited st))"
  "set (bl_files (seed_walk ns st)) = set (bl_files st) \<union> ((\<lambda>n. vn_path (gn_vname n)) ` set ns - {[]})"
  "bl_done (seed_walk ns st) = bl_done st" "bl_resolved (seed_walk ns st) = bl_resolved st"
  by (induction ns st rule: seed_walk.induct) (auto simp: Let_def)

lemma blast_start_closed:
  assumes "distinct (map gn_id rows)" "set seeds \<subseteq> set rows"
  shows "walk_closed rows edges mode recs seeds {} {} (blast_start seeds)"
proof -
  have "n \<in> set seeds" if "n \<in> set rows" "gn_id n \<in> gn_id ` set seeds" for n
    using assms that by (auto simp: distinct_map dest!: inj_onD)
  then show ?thesis by (auto simp: walk_closed_def blast_start_def seed_walk_result)
qed

locale blast_total = blast_contract +
  assumes edges_total: "br_edges_to db d \<noteq> None"
    and nodes_total: "br_nodes db ids \<noteq> None"
    and imports_total: "br_imports db \<noteq> None"
begin

lemma path_map_all:
  assumes unique: "distinct (map gn_id rows)" and "n \<in> set rows" "gn_id n \<in> set ids"
  shows "path_map db ids (gn_id n) = Some (vn_path (gn_vname n))"
proof -
  obtain ns where ns: "br_nodes db ids = Some ns" using nodes_total[of ids] by blast
  with assms(2,3) have "n \<in> set (rev ns)" by (simp add: nodes_read)
  then obtain m where m: "row_at gn_id (gn_id n) (rev ns) = Some m" by (metis row_at_None image_eqI not_None_eq)
  from row_at_Some[OF m] nodes_read[OF ns] have "m \<in> set rows" "gn_id m = gn_id n" by auto
  with assms(2) unique have "m = n" by (auto simp: distinct_map dest: inj_onD)
  with m ns show ?thesis by (simp add: path_map_def)
qed

lemma walk_step_closed:
  assumes unique: "distinct (map gn_id rows)" and "walk_closed rows edges mode recs seeds H R st" "bl_queue st = i # queue" "br_edges_to db i = Some es"
    and go: "\<not> fst (walk_step db mode limit queue es st)"
  shows "walk_closed rows edges mode recs seeds H R (snd (walk_step db mode limit queue es st))"
proof -
  let ?new = "fresh_ids (bl_visited st) (map er_src (filter (\<lambda>e. followed mode (er_kind e)) es))"
  let ?listed = "list_files limit (path_map db ?new) ?new (bl_files st)"
  have listed: "\<not> fst ?listed" using go by (simp add: walk_step_def Let_def)
  have files: "vn_path (gn_vname n) \<in> set (snd ?listed)" if "n \<in> set rows" "gn_id n \<in> set ?new" "vn_path (gn_vname n) \<noteq> []" for n
    by (rule list_files_all[OF listed that(2) path_map_all[OF unique that(1,2)] that(3)])
  have srcs: "er_src e \<in> set (bl_visited st) \<union> set ?new" if "e \<in> set edges" "er_dst e = i" "followed mode (er_kind e)" for e
    using that edges_read[OF assms(4)] by (auto simp: fresh_ids_set)
  note grows = list_files_grows[of "bl_files st" limit "path_map db ?new" ?new]
  show ?thesis
    using assms(2) files srcs grows unfolding walk_closed_def walk_step_def Let_def snd_conv assms(3)
    by (simp add: subset_iff) (metis Un_iff)
qed

lemma drain_closed:
  assumes unique: "distinct (map gn_id rows)" and "walk_closed rows edges mode recs seeds H R st"
  shows "if fst (drain_queue db mode limit st) then limit \<le> length (bl_files (snd (drain_queue db mode limit st)))
    else MAX_BLAST_RADIUS_NODES \<le> length (bl_visited (snd (drain_queue db mode limit st)))
      \<or> walk_closed rows edges mode recs seeds H R (snd (drain_queue db mode limit st))
        \<and> bl_queue (snd (drain_queue db mode limit st)) = []"
proof (rule drain_rule[where P = "walk_closed rows edges mode recs seeds H R" and Q = "\<lambda>stopped s.
    if stopped then limit \<le> length (bl_files s)
    else MAX_BLAST_RADIUS_NODES \<le> length (bl_visited s) \<or> walk_closed rows edges mode recs seeds H R s \<and> bl_queue s = []"])
qed (use assms in \<open>auto intro: walk_step_closed[OF unique] walk_step_limit simp: edges_total simp del: not_None_eq\<close>)

lemma take_importers_closed:
  assumes unique: "distinct (map gn_id rows)" and "walk_closed rows edges mode recs seeds H R st" "set is \<subseteq> set ids"
  shows "if fst (take_importers limit (path_map db ids) is st)
    then limit \<le> length (bl_files (snd (take_importers limit (path_map db ids) is st)))
    else walk_closed rows edges mode recs seeds H R (snd (take_importers limit (path_map db ids) is st))
      \<and> set is \<union> set (bl_visited st) \<subseteq> set (bl_visited (snd (take_importers limit (path_map db ids) is st)))
      \<and> bl_resolved (snd (take_importers limit (path_map db ids) is st)) = bl_resolved st"
  using assms(2,3)
proof (induction "is" arbitrary: st)
  case (Cons i "is")
  let ?st = "if i \<in> set (bl_visited st) then st
    else st\<lparr>bl_visited := bl_visited st @ [i], bl_queue := bl_queue st @ [i]\<rparr>"
  define st' where "st' = (case path_map db ids i of None \<Rightarrow> ?st
    | Some p \<Rightarrow> if p \<noteq> [] \<and> p \<notin> set (bl_files ?st) then ?st\<lparr>bl_files := bl_files ?st @ [p]\<rparr> else ?st)"
  have path: "vn_path (gn_vname n) \<in> set (bl_files st')" if "n \<in> set rows" "gn_id n \<in> {i}" "vn_path (gn_vname n) \<noteq> []" for n
    using path_map_all[OF unique that(1), of ids] that Cons.prems(2) by (auto simp: st'_def)
  have closed: "walk_closed rows edges mode recs seeds H R st'"
    by (rule walk_closed_visit[OF Cons.prems(1) _ _ _ path, where V = "{i}"]) (auto simp: st'_def split: option.splits)
  have st': "set (bl_visited st') = insert i (set (bl_visited st))" "bl_resolved st' = bl_resolved st"
    by (auto simp: st'_def split: option.splits)
  have eq: "take_importers limit (path_map db ids) (i # is) st =
      (if limit \<le> length (bl_files st') \<and> bl_files st' \<noteq> bl_files ?st then (True, st')
       else take_importers limit (path_map db ids) is st')"
    by (auto simp: st'_def Let_def split: option.splits)
  show ?case
  proof (cases "limit \<le> length (bl_files st') \<and> bl_files st' \<noteq> bl_files ?st")
    case True
    then show ?thesis unfolding eq by simp
  next
    case False
    then have same: "take_importers limit (path_map db ids) (i # is) st = take_importers limit (path_map db ids) is st'"
      unfolding eq by (rule if_not_P)
    show ?thesis using Cons.IH[OF closed] Cons.prems(2) st' unfolding same
      by (cases "fst (take_importers limit (path_map db ids) is st')") auto
  qed
qed simp

lemma try_imports_closed:
  assumes unique: "distinct (map gn_id rows)" and "walk_closed rows edges mode recs seeds H (set (bl_resolved st)) st"
    and "\<forall>i\<in>set seen. import_hits recs i f \<longrightarrow> i \<in> set (bl_resolved st)"
  shows "if fst (try_imports db recs limit f seen cands st) then limit \<le> length (bl_files (snd (try_imports db recs limit f seen cands st)))
    else walk_closed rows edges mode recs seeds H (set (bl_resolved (snd (try_imports db recs limit f seen cands st))))
        (snd (try_imports db recs limit f seen cands st))
      \<and> (\<forall>i\<in>set cands. import_hits recs i f \<longrightarrow> i \<in> set (bl_resolved (snd (try_imports db recs limit f seen cands st))))
      \<and> set (bl_resolved st) \<subseteq> set (bl_resolved (snd (try_imports db recs limit f seen cands st)))"
  using assms(2,3)
proof (induction cands arbitrary: seen st)
  case (Cons i cands)
  show ?case
  proof (cases "i \<in> set (bl_resolved st) \<or> i \<in> set seen")
    case True
    with Cons.prems(2) have "import_hits recs i f \<longrightarrow> i \<in> set (bl_resolved st)" by auto
    with True Cons.IH[OF Cons.prems] show ?thesis by (auto dest: subsetD)
  next
    case new: False
    show ?thesis
    proof (cases "import_hits recs i f")
      case False
      with new Cons.IH[of st "i # seen"] Cons.prems show ?thesis by auto
    next
      case True
      obtain es where es: "br_edges_to db (fst (recs ! i)) = Some es" using edges_total by blast
      let ?srcs = "map er_src (filter (\<lambda>e. er_kind e = Depends) es)"
      let ?st = "st\<lparr>bl_resolved := i # bl_resolved st\<rparr>"
      let ?taken = "take_importers limit (path_map db ?srcs) ?srcs ?st"
      have eq: "try_imports db recs limit f seen (i # cands) st =
          (if fst ?taken then ?taken else try_imports db recs limit f (i # seen) cands (snd ?taken))"
        using new True es by (simp add: Let_def)
      have "walk_closed rows edges mode recs seeds H (set (bl_resolved st)) ?st"
        using Cons.prems(1) by (simp add: walk_closed_def)
      note taken = take_importers_closed[OF unique this subset_refl, of limit ?srcs]
      show ?thesis
      proof (cases "fst ?taken")
        case True
        with taken show ?thesis unfolding eq by simp
      next
        case go: False
        have srcs: "er_src e \<in> set ?srcs" if "e \<in> set edges" "er_dst e = fst (recs ! i)" "er_kind e = Depends" for e
          using that edges_read[OF es] by auto
        from taken go have t: "walk_closed rows edges mode recs seeds H (set (bl_resolved st)) (snd ?taken)"
          "set ?srcs \<subseteq> set (bl_visited (snd ?taken))" "bl_resolved (snd ?taken) = i # bl_resolved st" by simp_all
        have "walk_closed rows edges mode recs seeds H (set (bl_resolved (snd ?taken))) (snd ?taken)"
          using t(1) srcs t(2) unfolding walk_closed_def t(3) by auto
        moreover have "\<forall>j\<in>set (i # seen). import_hits recs j f \<longrightarrow> j \<in> set (bl_resolved (snd ?taken))"
          using Cons.prems(2) t(3) by auto
        ultimately show ?thesis using Cons.IH[of "snd ?taken" "i # seen"] go t(3) unfolding eq by (auto split: if_splits)
      qed
    qed
  qed
qed simp

lemma resolve_targets_closed:
  assumes unique: "distinct (map gn_id rows)" and "walk_closed rows edges mode recs seeds (set (bl_done st)) (set (bl_resolved st)) st"
  shows "if fst (resolve_targets db recs (import_token_index recs) limit todo st)
    then limit \<le> length (bl_files (snd (resolve_targets db recs (import_token_index recs) limit todo st)))
    else walk_closed rows edges mode recs seeds
      (set (bl_done (snd (resolve_targets db recs (import_token_index recs) limit todo st))))
      (set (bl_resolved (snd (resolve_targets db recs (import_token_index recs) limit todo st))))
      (snd (resolve_targets db recs (import_token_index recs) limit todo st))"
  using assms(2)
proof (induction todo arbitrary: st)
  case (Cons f todo)
  let ?c = "target_candidates (import_token_index recs) f" and ?st = "st\<lparr>bl_done := bl_done st @ [f]\<rparr>"
  let ?tried = "try_imports db recs limit f [] ?c ?st"
  have "walk_closed rows edges mode recs seeds (set (bl_done st)) (set (bl_resolved ?st)) ?st"
    using Cons.prems by (simp add: walk_closed_def)
  note tried = try_imports_closed[OF unique this, of "[]" f limit ?c, simplified]
  show ?case
  proof (cases "fst ?tried")
    case True
    with tried show ?thesis by (simp add: Let_def)
  next
    case False
    have looked: "bl_done (snd ?tried) = bl_done st @ [f]" using try_imports_grows[of ?st db recs limit f "[]" ?c] by simp
    have "walk_closed rows edges mode recs seeds (set (bl_done (snd ?tried))) (set (bl_resolved (snd ?tried))) (snd ?tried)"
      using tried False unfolding looked walk_closed_def by auto
    with Cons.IH[of "snd ?tried"] False show ?thesis by (simp add: Let_def)
  qed
qed simp

end

context blast_total
begin

lemma walk_ends_closed:
  assumes unique: "distinct (map gn_id rows)" and "set seeds \<subseteq> set rows"
  shows "length (bl_visited (blast_walk db mode limit seeds)) < MAX_BLAST_RADIUS_NODES \<longrightarrow>
    length (bl_files (blast_walk db mode limit seeds)) < min limit MAX_BLAST_RADIUS_NODES \<longrightarrow>
    (\<exists>H R. walk_closed rows edges mode (import_records db mode) seeds H R (blast_walk db mode limit seeds)
      \<and> (mode = Mode_Tree_Sitter \<longrightarrow> set (bl_files (blast_walk db mode limit seeds)) \<subseteq> H))
    \<and> bl_queue (blast_walk db mode limit seeds) = []"
  unfolding blast_walk_def Let_def
proof (rule blast_loop_rule[where P = "\<lambda>st. walk_closed rows edges mode (import_records db mode) seeds (set (bl_done st)) (set (bl_resolved st)) st"])
  show "walk_closed rows edges mode (import_records db mode) seeds (set (bl_done (blast_start seeds)))
      (set (bl_resolved (blast_start seeds))) (blast_start seeds)"
    using blast_start_closed[OF assms] by (simp add: blast_start_def seed_walk_result)
next
  fix st :: blast
  let ?d = "snd (drain_queue db mode limit st)"
  assume st: "walk_closed rows edges mode (import_records db mode) seeds (set (bl_done st)) (set (bl_resolved st)) st"
  note d = drain_closed[OF unique st, of limit] drain_grows[of st db mode limit]
  show "length (bl_visited ?d) < MAX_BLAST_RADIUS_NODES \<longrightarrow> length (bl_files ?d) < min limit MAX_BLAST_RADIUS_NODES \<longrightarrow>
      (\<exists>H R. walk_closed rows edges mode (import_records db mode) seeds H R ?d
        \<and> (mode = Mode_Tree_Sitter \<longrightarrow> set (bl_files ?d) \<subseteq> H)) \<and> bl_queue ?d = []"
    if "fst (drain_queue db mode limit st) \<or> mode \<noteq> Mode_Tree_Sitter
        \<or> MAX_BLAST_RADIUS_NODES \<le> length (bl_visited ?d) \<or> MAX_BLAST_RADIUS_NODES \<le> length (bl_files ?d)"
    using d that by (auto split: if_splits)
  show "length (bl_visited ?d) < MAX_BLAST_RADIUS_NODES \<longrightarrow> length (bl_files ?d) < min limit MAX_BLAST_RADIUS_NODES \<longrightarrow>
      (\<exists>H R. walk_closed rows edges mode (import_records db mode) seeds H R ?d
        \<and> (mode = Mode_Tree_Sitter \<longrightarrow> set (bl_files ?d) \<subseteq> H)) \<and> bl_queue ?d = []"
    if "\<not> fst (drain_queue db mode limit st)" "set (bl_files ?d) \<subseteq> set (bl_done ?d)"
    using d that by auto
next
  fix st st1 :: blast and todo
  let ?recs = "import_records db mode"
  let ?r = "resolve_targets db ?recs (import_token_index ?recs) limit todo st1"
  assume st: "walk_closed rows edges mode ?recs seeds (set (bl_done st)) (set (bl_resolved st)) st"
    and d: "drain_queue db mode limit st = (False, st1)" "length (bl_visited st1) < MAX_BLAST_RADIUS_NODES"
  from drain_closed[OF unique st, of limit] drain_grows[of st db mode limit] d
  have "walk_closed rows edges mode ?recs seeds (set (bl_done st1)) (set (bl_resolved st1)) st1" by simp
  note r = resolve_targets_closed[OF unique this, of limit todo]
  show "if fst ?r
      then length (bl_visited (snd ?r)) < MAX_BLAST_RADIUS_NODES \<longrightarrow>
        length (bl_files (snd ?r)) < min limit MAX_BLAST_RADIUS_NODES \<longrightarrow>
        (\<exists>H R. walk_closed rows edges mode ?recs seeds H R (snd ?r)
          \<and> (mode = Mode_Tree_Sitter \<longrightarrow> set (bl_files (snd ?r)) \<subseteq> H)) \<and> bl_queue (snd ?r) = []
      else walk_closed rows edges mode ?recs seeds (set (bl_done (snd ?r))) (set (bl_resolved (snd ?r))) (snd ?r)"
    using r by (cases "fst ?r") auto
qed

lemma record_of_import:
  assumes "imp \<in> set rows" "gn_kind imp = ''import''" "mode = Mode_Tree_Sitter"
  shows "\<exists>i < length (import_records db mode). import_records db mode ! i =
    (gn_id imp, vn_signature (gn_vname imp), vn_language (gn_vname imp), vn_path (gn_vname imp))"
proof -
  obtain recs where recs: "br_imports db = Some recs" using imports_total by blast
  have "(gn_id imp, vn_signature (gn_vname imp), vn_language (gn_vname imp), vn_path (gn_vname imp)) \<in> set recs"
    using assms(1,2) unfolding imports_read[OF recs] sql_imports_def by auto
  then show ?thesis using recs assms(3) by (auto simp: import_records_def in_set_conv_nth)
qed

lemma touched_visited:
  assumes "touched rows edges mode seeds i" "walk_closed rows edges mode (import_records db mode) seeds H R st"
    "bl_queue st = []" "mode = Mode_Tree_Sitter \<longrightarrow> set (bl_files st) \<subseteq> H"
  shows "i \<in> set (bl_visited st)"
  using assms(1)
proof induction
  case (seed n)
  with assms(2) show ?case by (auto simp: walk_closed_def)
next
  case (edge e)
  with assms(2,3) show ?case by (simp add: walk_closed_def)
next
  case (import_of n f imp e)
  let ?recs = "import_records db mode"
  have "f \<in> set (bl_files st)" using import_of assms(2) by (auto simp: walk_closed_def)
  then have f: "f \<in> H" using import_of(1) assms(4) by auto
  from record_of_import[OF import_of(6,7,1)] obtain j where j: "j < length ?recs"
    "?recs ! j = (gn_id imp, vn_signature (gn_vname imp), vn_language (gn_vname imp), vn_path (gn_vname imp))" by blast
  have "j \<in> set (target_candidates (import_token_index ?recs) f)" "import_hits ?recs j f"
    using j import_of(8,9) by (simp_all add: candidate_iff import_hits_def)
  with f assms(2) have "j \<in> R" by (simp add: walk_closed_def)
  with assms(2) import_of(10,11,12) j(2) show ?case by (simp add: walk_closed_def)
qed

lemma walk_complete:
  assumes unique: "distinct (map gn_id rows)" and "set seeds \<subseteq> set rows" "length (bl_visited (blast_walk db mode limit seeds)) < MAX_BLAST_RADIUS_NODES"
    "length (bl_files (blast_walk db mode limit seeds)) < min limit MAX_BLAST_RADIUS_NODES" "impacted rows edges mode seeds f"
  shows "f \<in> set (bl_files (blast_walk db mode limit seeds))"
proof -
  from walk_ends_closed[OF assms(1,2), of mode limit] assms(3,4) obtain H R where
    c: "walk_closed rows edges mode (import_records db mode) seeds H R (blast_walk db mode limit seeds)"
      "mode = Mode_Tree_Sitter \<longrightarrow> set (bl_files (blast_walk db mode limit seeds)) \<subseteq> H"
      "bl_queue (blast_walk db mode limit seeds) = []" by blast
  from assms(5) obtain n where n: "n \<in> set rows" "touched rows edges mode seeds (gn_id n)" "vn_path (gn_vname n) = f" "f \<noteq> []"
    by (auto simp: impacted_def)
  from touched_visited[OF n(2) c(1,3,2)] n c(1) show ?thesis by (auto simp: walk_closed_def)
qed

end

text \<open>The tables give both contracts: what any read returns, and that all of them do.\<close>

interpretation blast_table: blast_contract "blast_table_reads ok search g" "gt_nodes g" "gt_edges g"
  by unfold_locales (auto simp: blast_table_reads_def sql_edges_to_def sql_nodes_def split: if_splits)

interpretation blast_honest: blast_total "blast_table_reads (\<lambda>_. True) search g" "gt_nodes g" "gt_edges g"
  by unfold_locales (simp_all add: blast_table_reads_def)

subsection \<open>The answer\<close>

definition NODE_NAME_SEARCH_LIMIT :: nat where "NODE_NAME_SEARCH_LIMIT = 100"

text \<open>The seeds, and whether they came from the name search; \<open>None\<close> is a failed read.\<close>

definition blast_seeds :: "blast_reads \<Rightarrow> string \<Rightarrow> (bool \<times> store_node list) option" where
  "blast_seeds db file =
     (case br_at_path db file of
        None \<Rightarrow> None
      | Some ns \<Rightarrow> if ns = [] then map_option (Pair True) (br_search db file) else Some (False, ns))"

definition blast_cap :: "nat option \<Rightarrow> nat" where
  "blast_cap max_files = (case max_files of Some n \<Rightarrow> if 0 < n then n else DEFAULT_BLAST_RADIUS_FILES | None \<Rightarrow> DEFAULT_BLAST_RADIUS_FILES)"

definition blast_limit :: "nat \<Rightarrow> nat" where
  "blast_limit cap = min (min (cap + 1) (2 ^ 64 - 1)) MAX_BLAST_RADIUS_NODES"

text \<open>The files that are shown and whether the list was cut.\<close>

definition blast_listing :: "blast_reads \<Rightarrow> analysis_mode \<Rightarrow> nat \<Rightarrow> store_node list \<Rightarrow> string list \<times> bool" where
  "blast_listing db mode cap seeds =
     (let files = bl_files (blast_walk db mode (blast_limit cap) seeds) in (sort (take cap files), cap < length files))"

definition named_list :: "string list \<Rightarrow> string" where
  "named_list names =
     join_with '', '' (take 10 names)
     @ (if 10 < length names then '' and '' @ show_nat (length names - 10) @ '' more'' else [])"

definition cut_note :: "nat \<Rightarrow> string" where
  "cut_note cap = newline # ''[note: showing the '' @ show_nat cap
     @ '' files nearest the change; more are affected, raise max_files for more]''"

definition loose_note :: "string \<Rightarrow> store_node list \<Rightarrow> string" where
  "loose_note file seeds =
     (let seed_files = remdups_adj (sort (filter (\<lambda>p. p \<noteq> []) (map (\<lambda>n. vn_path (gn_vname n)) seeds)));
          capped = (if NODE_NAME_SEARCH_LIMIT \<le> length seeds
             then '' (the search stops at '' @ show_nat NODE_NAME_SEARCH_LIMIT @ '' symbols, so other matching files can be missing)''
             else [])
      in newline # ''[note: no file is stored at '' @ [squote] @ file @ [squote] @ ''; this is the radius of the ''
         @ show_nat (length seed_files) @ '' file(s) a name search for it matched'' @ capped @ '': '' @ named_list seed_files
         @ ''. get_blast_radius takes a repo-relative file path.]'')"

definition child_modules :: "blast_reads \<Rightarrow> string \<Rightarrow> store_node list \<Rightarrow> string list" where
  "child_modules db file seeds =
     (let dsts = concat (map (\<lambda>n. case br_edges_from db (gn_id n) ResolvesTo of Some es \<Rightarrow> map er_dst es | None \<Rightarrow> [])
            (filter (\<lambda>n. gn_kind n = ''file-module'') seeds));
          found = List.map_filter (\<lambda>d. case br_node db d of Some r \<Rightarrow> r | None \<Rightarrow> None) dsts
      in remdups_adj (sort (filter (\<lambda>p. p \<noteq> [] \<and> p \<noteq> file) (map (\<lambda>n. vn_path (gn_vname n)) found))))"

definition children_note :: "string list \<Rightarrow> string" where
  "children_note children =
     newline # ''[note: dependents of the '' @ show_nat (length children)
     @ '' child module(s) this file declares are not included (only removing or renaming a `mod` line breaks them); ''
     @ ''query those files for their own radius: '' @ named_list children @ '']''"

definition get_blast_radius_raw :: "blast_reads \<Rightarrow> string \<Rightarrow> analysis_mode \<Rightarrow> nat option \<Rightarrow> string" where
  "get_blast_radius_raw db file mode max_files =
     (case blast_seeds db file of
        None \<Rightarrow> []
      | Some (loose, seeds) \<Rightarrow>
          if seeds = [] then []
          else
            let cap = blast_cap max_files; listing = blast_listing db mode cap seeds;
                body = join_with [newline] (fst listing) @ (if snd listing then cut_note cap else [])
                  @ (if loose then loose_note file seeds else []);
                children = child_modules db file seeds
            in if children = [] then body else body @ children_note children)"

subsection \<open>The list has no repetition and stops at its limit\<close>

text \<open>\<open>b\<close> is that the walk began under its limit.\<close>

definition files_end :: "bool \<Rightarrow> nat \<Rightarrow> bool \<Rightarrow> string list \<Rightarrow> bool" where
  "files_end b limit stopped files \<longleftrightarrow>
     distinct files \<and> (b \<longrightarrow> length files \<le> limit \<and> (\<not> stopped \<longrightarrow> length files < limit))"

lemma list_files_end:
  "files_end b limit False files \<Longrightarrow>
     files_end b limit (fst (list_files limit paths is files)) (snd (list_files limit paths is files))"
  by (induction limit paths "is" files rule: list_files.induct) (auto simp: files_end_def split: option.splits)

lemma take_importers_end:
  "files_end b limit False (bl_files st) \<Longrightarrow>
     files_end b limit (fst (take_importers limit paths is st)) (bl_files (snd (take_importers limit paths is st)))"
  by (induction limit paths "is" st rule: take_importers.induct) (auto simp: files_end_def Let_def split: option.splits)

lemma try_imports_end:
  "files_end b limit False (bl_files st) \<Longrightarrow>
     files_end b limit (fst (try_imports db recs limit f seen cands st)) (bl_files (snd (try_imports db recs limit f seen cands st)))"
proof (induction db recs limit f seen cands st rule: try_imports.induct)
  case (2 db recs limit f seen i cands st)
  show ?case
  proof (cases "i \<in> set (bl_resolved st) \<or> i \<in> set seen \<or> \<not> import_hits recs i f \<or> br_edges_to db (fst (recs ! i)) = None")
    case True
    with 2 show ?thesis by auto
  next
    case False
    then obtain es where es: "br_edges_to db (fst (recs ! i)) = Some es" by blast
    let ?srcs = "map er_src (filter (\<lambda>e. er_kind e = Depends) es)"
    let ?taken = "take_importers limit (path_map db ?srcs) ?srcs (st\<lparr>bl_resolved := i # bl_resolved st\<rparr>)"
    have eq: "try_imports db recs limit f seen (i # cands) st =
        (if fst ?taken then ?taken else try_imports db recs limit f (i # seen) cands (snd ?taken))"
      using False es by (simp add: Let_def)
    have "files_end b limit (fst ?taken) (bl_files (snd ?taken))" using 2(5) by (intro take_importers_end) simp
    then show ?thesis using 2(4)[OF _ _ es refl refl] False unfolding eq by (cases "fst ?taken") simp_all
  qed
qed simp

lemma resolve_targets_end:
  "files_end b limit False (bl_files st) \<Longrightarrow>
     files_end b limit (fst (resolve_targets db recs index limit todo st)) (bl_files (snd (resolve_targets db recs index limit todo st)))"
proof (induction todo arbitrary: st)
  case (Cons f todo)
  let ?tried = "try_imports db recs limit f [] (target_candidates index f) (st\<lparr>bl_done := bl_done st @ [f]\<rparr>)"
  have "files_end b limit (fst ?tried) (bl_files (snd ?tried))" using Cons.prems by (intro try_imports_end) simp
  with Cons.IH[of "snd ?tried"] show ?case by (cases "fst ?tried") (simp_all add: Let_def)
qed simp

lemma drain_end:
  assumes "files_end b limit False (bl_files st)"
  shows "files_end b limit (fst (drain_queue db mode limit st)) (bl_files (snd (drain_queue db mode limit st)))"
proof (rule drain_rule[where P = "\<lambda>s. files_end b limit False (bl_files s)" and Q = "\<lambda>stopped s. files_end b limit stopped (bl_files s)"])
  fix st :: blast and i queue es
  assume st: "files_end b limit False (bl_files st)"
  let ?s = "walk_step db mode limit queue es st"
  have "files_end b limit (fst ?s) (bl_files (snd ?s))"
    using list_files_end[OF st] by (simp add: walk_step_def Let_def)
  then show "\<not> fst ?s \<Longrightarrow> files_end b limit False (bl_files (snd ?s))" and "fst ?s \<Longrightarrow> files_end b limit True (bl_files (snd ?s))"
    by simp_all
qed (use assms in simp_all)

lemma blast_walk_end:
  "distinct (bl_files (blast_walk db mode limit seeds))
   \<and> (length (bl_files (blast_start seeds)) < limit \<longrightarrow> length (bl_files (blast_walk db mode limit seeds)) \<le> limit)"
proof -
  let ?b = "length (bl_files (blast_start seeds)) < limit"
  have weaken: "files_end ?b limit stopped files \<Longrightarrow> files_end ?b limit True files" for stopped files by (auto simp: files_end_def)
  have seeds: "distinct (bl_files st) \<Longrightarrow> distinct (bl_files (seed_walk ns st))" for ns st
    by (induction ns st rule: seed_walk.induct) (simp_all add: Let_def)
  have "files_end ?b limit True (bl_files (blast_walk db mode limit seeds))"
    unfolding blast_walk_def Let_def
  proof (rule blast_loop_rule[where P = "\<lambda>s. files_end ?b limit False (bl_files s)" and Q = "\<lambda>s. files_end ?b limit True (bl_files s)"])
    show "files_end ?b limit False (bl_files (blast_start seeds))" by (auto simp: files_end_def blast_start_def intro: seeds)
  next
    fix st st1 :: blast and todo
    let ?r = "resolve_targets db (import_records db mode) (import_token_index (import_records db mode)) limit todo st1"
    assume "files_end ?b limit False (bl_files st)" "drain_queue db mode limit st = (False, st1)"
    with drain_end[of ?b limit st db mode] have "files_end ?b limit False (bl_files st1)" by simp
    from resolve_targets_end[OF this]
    show "if fst ?r then files_end ?b limit True (bl_files (snd ?r)) else files_end ?b limit False (bl_files (snd ?r))"
      by (metis (full_types))
  qed (blast intro: weaken drain_end)+
  then show ?thesis by (simp add: files_end_def)
qed

subsection \<open>What the list says\<close>

lemma seeds_stored:
  assumes "blast_seeds (blast_table_reads ok search g) path = Some (loose, seeds)" "\<forall>ns. search path = Some ns \<longrightarrow> set ns \<subseteq> set (gt_nodes g)"
  shows "set seeds \<subseteq> set (gt_nodes g)"
  using assms by (auto simp: blast_seeds_def blast_table_reads_def sql_at_path_def split: if_splits)

text \<open>Whatever reads fail, no file is shown that the change does not affect, and none is shown twice.\<close>

lemma blast_listing_sound:
  assumes "set seeds \<subseteq> set (gt_nodes g)"
  shows "set (fst (blast_listing (blast_table_reads ok search g) mode cap seeds)) \<subseteq> {f. impacted (gt_nodes g) (gt_edges g) mode seeds f}
    \<and> distinct (fst (blast_listing (blast_table_reads ok search g) mode cap seeds))
    \<and> length (fst (blast_listing (blast_table_reads ok search g) mode cap seeds)) \<le> cap"
  using blast_table.walk_is_sound[OF assms, of mode ok search "blast_limit cap"]
    blast_walk_end[of "blast_table_reads ok search g" mode "blast_limit cap" seeds]
  by (auto simp: blast_listing_def Let_def walk_sound_def list_all_iff dest: in_set_takeD)


text \<open>A header that a source file includes by its name, and a caller of that source file.\<close>

definition blast_node :: "node_id \<Rightarrow> string \<Rightarrow> string \<Rightarrow> string \<Rightarrow> store_node" where
  "blast_node i path sig kind =
     \<lparr>gn_id = i, gn_vname = \<lparr>vn_corpus = ''repo'', vn_root = [], vn_path = path, vn_language = ''c'', vn_signature = sig\<rparr>,
      gn_kind = kind, cn_line = None, cn_end_line = None, cn_test_role = Role_None, sn_body = None\<rparr>"

definition blast_tables :: graph_tables where
  "blast_tables =
     \<lparr>gt_nodes = [blast_node 1 ''src/util.h'' ''fn:add'' ''function'', blast_node 2 ''src/main.c'' ''import:util.h'' ''import'',
                  blast_node 3 ''src/main.c'' ''file'' ''file'', blast_node 4 ''src/app.c'' ''fn:run'' ''function'',
                  blast_node 5 ''lib/other.c'' ''fn:far'' ''function''],
      gt_edges = [\<lparr>er_src = 3, er_dst = 2, er_kind = Depends, er_prov = Tree_Sitter, er_conf = None\<rparr>,
                  \<lparr>er_src = 4, er_dst = 3, er_kind = RefCall, er_prov = Scip, er_conf = None\<rparr>,
                  \<lparr>er_src = 4, er_dst = 5, er_kind = RefCall, er_prov = Scip, er_conf = None\<rparr>],
      gt_sites = [], gt_refs = [], gt_files = []\<rparr>"


subsection \<open>Two gaps\<close>

text \<open>
  A list that the hard ceiling stopped carries no note that more files are affected, because the ceiling is not above
  the cap that was asked for.
\<close>

lemma ceiling_unnoted:
  assumes "MAX_BLAST_RADIUS_NODES \<le> cap" "length (bl_files (blast_start seeds)) < MAX_BLAST_RADIUS_NODES"
  shows "\<not> snd (blast_listing db mode cap seeds)"
proof -
  have "blast_limit cap = MAX_BLAST_RADIUS_NODES" using assms(1) by (simp add: blast_limit_def MAX_BLAST_RADIUS_NODES_def)
  with blast_walk_end[of db mode "blast_limit cap" seeds] assms show ?thesis by (simp add: blast_listing_def Let_def)
qed

text \<open>
  The tokens are runs of ASCII letters and digits, so an import that resolves to a file whose directory and stem have
  none is not a candidate: here a header whose name is the two bytes of one letter outside ASCII.
\<close>

definition accent :: string where "accent = [CHR 0xC3, CHR 0xA9]"

lemma import_not_a_candidate:
  "resolves_to (resolver_for_language ''c'') (''import:'' @ accent @ ''.h'') ''main.c'' (accent @ ''.h'') = Some True
   \<and> \<not> shares_token (''import:'' @ accent @ ''.h'') (accent @ ''.h'')"
  by (rule conjI) code_simp+

end
