(* ===== verification/Spec2Isabelle.thy ===== *)
theory Spec2Isabelle
  imports Guard_Policy Mcp_Sanitize Query_Cache Phase_B_Sched Retrieval_Knapsack Retrieval_Kcore
    Mcp_Access Jsonc_Edit Sidecar_Version Fts_Tokens Store_Migration Parse_Cache Seed_Access Repo_Registry Git_Hook Ipc_Wire
    Stderr_Ring Doc_Chunks Layered_Config Live_Resolve Store_States Blast_Radius
begin

text \<open>
  A verification development for Travsr, a code-graph index with a command line, a daemon and an
  MCP server for coding agents. The program indexes a repository into a graph of symbols in SQLite,
  serves queries over it, keeps it fresh while files are edited, and, as a hook of the agent, redirects
  textual searches to the graph.

  \<^bold>\<open>Parts and theories.\<close> All paths are under \<open>crates\<close>.

  \<^item> \<^bold>\<open>Foundations.\<close> \<open>Rust_Prelude\<close>, \<open>Rust_Path\<close>, \<open>Utf8_Lossy\<close>: the standard library the program uses: UTF-8
    strings as byte lists with panicking slices as options, searching, splitting and trimming, integers with
    their parsers, \<open>BTreeMap\<close>, lexical paths, a file system, lossy decoding.
  \<^item> \<^bold>\<open>The guard\<close>, \<open>travsr-cli/src/guard\<close>. \<open>Guard_Shell\<close> is \<open>shell.rs\<close>: the word and chain splitters and the
    classifier of search commands. \<open>Guard_Session\<close> is \<open>session.rs\<close>: the release valve, its caps, its state
    file and both ways to release a term. \<open>Guard_Payload\<close> is \<open>payload.rs\<close> with the modes and the deadline of
    \<open>mod.rs\<close>. \<open>Guard_Policy\<close> is \<open>policy.rs\<close> and the entry point. The policy calls the classifier, reads the
    index and asks the valve; the process turns lateness, panics and unreadable input into silence.
  \<^item> \<^bold>\<open>The server's borders.\<close> \<open>Mcp_Sanitize\<close> is \<open>travsr-mcp/src/sanitize.rs\<close> and \<open>Mcp_Access\<close> \<open>auth.rs\<close> and
    \<open>session.rs\<close> beside it. \<open>Ipc_Wire\<close> is the plug-in codec (\<open>travsr-plugin-protocol/src/codec.rs\<close>) with the
    address and the transport of \<open>travsr-ipc\<close>. \<open>Stderr_Ring\<close>, \<open>Parse_Cache\<close> and \<open>Sidecar_Version\<close> are those
    files of \<open>travsr-plugin-host\<close>.
  \<^item> \<^bold>\<open>The daemon.\<close> \<open>Query_Cache\<close>, \<open>Phase_B_Sched\<close> and \<open>Git_Hook\<close> are \<open>query_cache.rs\<close>, \<open>phase_b_sched.rs\<close> and
    \<open>hook.rs\<close> of \<open>travsr-daemon\<close>; \<open>Live_Resolve\<close> is its \<open>live_resolve.rs\<close>: the lexical and the editor lane
    that give an unsaved edit its edges, over the store's reads in \<open>Live_Store\<close>.
  \<^item> \<^bold>\<open>The store\<close>, \<open>travsr-store/src\<close>. \<open>Graph_Tables\<close> holds the five tables and their single statements,
    \<open>Store_Reindex\<close> the save, the deletion of a file and the reconciliation with the disk, \<open>Overlay_State\<close> the
    resolution states of references and the meter of the live lanes, \<open>Phase_B_Write\<close> the batches of a compiler
    run, and \<open>Store_States\<close> all of these as steps of one relation. \<open>Store_Migration\<close> is \<open>migration.rs\<close>,
    \<open>Fts_Tokens\<close> the tokenizer (\<open>fts_tokenize.rs\<close>, \<open>seed_lexicon.rs\<close> and \<open>ident.rs\<close> of \<open>travsr-core\<close>),
    \<open>Repo_Registry\<close> is \<open>registry.rs\<close>.
  \<^item> \<^bold>\<open>Retrieval.\<close> \<open>Graph_Core\<close> and \<open>Core_Noise\<close> hold the graph's data and the noise predicates of
    \<open>travsr-core\<close>. \<open>Retrieval_Graph\<close> is \<open>rbac.rs\<close>, \<open>lib.rs\<close>, the subgraph of \<open>ppr.rs\<close> and \<open>pcst.rs\<close> of
    \<open>travsr-retrieval\<close>, \<open>Retrieval_Knapsack\<close> and \<open>Retrieval_Kcore\<close> are \<open>knapsack.rs\<close> and \<open>kcore.rs\<close>. The seed
    selection of \<open>travsr-mcp/src/seed.rs\<close> is \<open>Seed_Query\<close> (tokens), \<open>Seed_Confidence\<close> (the verdict on a
    query), \<open>Seed_Rank\<close> (fusion and order), \<open>Seed_Set\<close> (the pipeline) and \<open>Seed_Access\<close> (what it may return).
    \<open>Blast_Radius\<close> is \<open>get_blast_radius_raw\<close> of \<open>travsr-mcp/src/tools.rs\<close> with the reads it makes of the store;
    its second pass asks the import resolvers of \<open>travsr-core/src/lib.rs\<close>, \<open>Import_Resolve\<close>.
  \<^item> \<^bold>\<open>Files of the user.\<close> \<open>Jsonc_Edit\<close> is \<open>travsr-cli/src/jsonc.rs\<close>, \<open>Layered_Config\<close> is
    \<open>travsr-config/src/lib.rs\<close>, \<open>Doc_Chunks\<close> is \<open>travsr-analysis/src/markdown.rs\<close>.

  \<^bold>\<open>How state and effects are modelled.\<close> State is a record, a list of rows or an association list and every
  operation returns it updated. A table of the store is the list of its rows and its primary key a function
  of the row; a transaction is an option or a function of the tables, so a failure leaves them as they were.
  Clocks, random ids, the environment and the answers of the file system are arguments. A panic is \<open>None\<close>, an
  error the left of a sum. Where the code locks or uses atomics, the scheduler theory gives the interleavings
  of its critical sections as an inductive step relation; the committed transactions of the store are another.
  Serde, SQLite, petgraph, BLAKE3, SHA-256, base64, HMAC, the Unicode tables and grapheme segmentation are
  parameters; what is relied on is a named hypothesis (\<open>serde_roundtrip\<close>, \<open>text_env_ok\<close>, \<open>db_honest\<close>,
  \<open>reads_graph\<close>), each with an instance that satisfies it.

  \<^bold>\<open>Contracts.\<close> The locale \<open>release_valve\<close> states what the policy needs of the valve and is interpreted on the
  store and its saved form; \<open>redaction_pass\<close> what one step of a redaction loop owes the loop; \<open>edge_gate\<close>
  and its extension \<open>corpus_gate\<close> what a traversal needs of an edge filter, interpreted on the open filter and
  on the RBAC filter for every set of corpora; \<open>row_codec\<close> what a row of the registry owes its file;
  \<open>live_reads\<close> what live resolution relies on of the store, interpreted on the node table; \<open>keyed_upsert\<close> what
  an upsert owes a table with a key, interpreted on every conflict clause of the store; \<open>blast_contract\<close> and its
  extension \<open>blast_total\<close> what the blast radius relies on of its reads, interpreted on the tables with any set
  of failing reads and with none.

  \<^bold>\<open>What is shown.\<close> Of the guard: when exactly it denies, that nothing it cannot read, time or open makes it
  deny, and that a term is denied once. Of the borders: that bodies and envelopes are safe, arguments
  contained, redaction total; that tokens and sessions grant exactly what they say; that frames are read back
  and when a read ends. Of the daemon: cache bounds, coalescing and single flight, that the user's hook
  survives every installation, and that an edge of either live lane joins the nodes it claims to. Of the
  store: unique keys in every reachable state; that a save preserves the largest set of definitions it may,
  loses nothing it does not own and moves occurrences with their definitions; that a reconciliation
  deletes only what is gone, within its ceiling; that a compiler batch is sound and complete for its files
  and writes no half edge; and that the live overlay leaves no trace once it is ratified. Of
  retrieval: the exact answers of the bounded search, the blast radius, the shells and the fusion, confinement of every
  traversal and every seed to the allowed corpora, and the optimality of the knapsack. Of the user's files:
  that the JSONC editor never panics and that a stored setting is read back.

  \<^bold>\<open>Bounds and termination.\<close> Fuel stands only where the code counts: the depth of the PageRank subgraph (six)
  and the hops of a neighbourhood, and the rings of a re-anchored line, of which there are as many as the
  radius allows (512 at most). The graph searches terminate because an id is queued at most once; the passes of
  the blast radius because each one looks up the importers of a file for the first time, under a ceiling; the text
  loops because each round consumes a byte; the eviction loops because each round removes an entry; the
  demotion loop of a save because each round removes a definition.

  \<^bold>\<open>What is not modelled.\<close> The full-text tables, embeddings and search queries of the store, the parsers and
  language front ends, the other MCP tool handlers and the SSE server, the daemon's event loop, the plug-in host's
  processes, installers and terminal output, and the floating point iteration of PageRank. They are SQL and
  input and output around the logic above, or third-party code. Weights, scores, ratios and route costs are exact
  rationals in place of \<open>f32\<close> and \<open>f64\<close>.
\<close>

section \<open>Across components\<close>

text \<open>
  C1: The whole guard process denies a call exactly when its answer is in time, the payload is read, the
  payload's repository is in strict mode, its index is usable and current, some search of the call
  has a redirect, and the state file does not release that redirect's key. In every other case, among
  them a late answer, a panic and an unreadable payload, it lets the call through.
\<close>

theorem guard_process_denies_iff:
  "blocks (dc_output (run_guard in_time
      (guard_decide w (file_valve ser de env) parse stdin root_of effective file))) \<longleftrightarrow>
   in_time \<and>
   (\<exists>input root index requests r. read_payload parse stdin = Some input
      \<and> root_of input = Some root \<and> resolve_mode (effective (Some root)) = Mode_Strict
      \<and> open_index w root = Inr index \<and> call_requests input = Some requests
      \<and> \<not> list_ex is_travsr (take 1 requests)
      \<and> find_map (redirect_for index (hi_cwd input)) requests = Some r
      \<and> \<not> fst (release ser de env file (hi_session_id input) (rd_key r)))"
proof (cases "in_time \<and> read_payload parse stdin \<noteq> None")
  case False
  then show ?thesis
    by (auto simp: run_guard_def guard_decide_def timed_out_def unreadable_payload_def pass_with_def
        blocks_def)
next
  case True
  then obtain input where input: "read_payload parse stdin = Some input" by blast
  have "blocks (dc_output (run_guard True outcome)) \<longleftrightarrow>
      (\<exists>d file'. outcome = Some (d, file') \<and> blocks (dc_output d))" for outcome
    by (auto simp: run_guard_def internal_error_def pass_with_def blocks_def split: option.splits)
  then have "blocks (dc_output (run_guard in_time
      (guard_decide w (file_valve ser de env) parse stdin root_of effective file))) \<longleftrightarrow>
     (\<exists>d file'. decide w (file_valve ser de env) input (resolve_mode (effective (root_of input)))
        (root_of input) file = Some (d, file') \<and> blocks (dc_output d))"
    using True by (simp add: guard_decide_def input Let_def)
  also have "\<dots> \<longleftrightarrow> (\<exists>root index requests r. root_of input = Some root
      \<and> resolve_mode (effective (Some root)) = Mode_Strict
      \<and> open_index w root = Inr index \<and> call_requests input = Some requests
      \<and> \<not> list_ex is_travsr (take 1 requests)
      \<and> find_map (redirect_for index (hi_cwd input)) requests = Some r
      \<and> \<not> fst (release ser de env file (hi_session_id input) (rd_key r)))"
    unfolding decide_denies_iff by (cases "root_of input") (simp_all add: file_valve_def)
  finally show ?thesis
    using True input by simp
qed

end
